(* ===== verification/Prelude.thy ===== *)
theory Prelude
  imports Main "HOL-Library.Monad_Syntax" "HOL-Library.Signed_Division"
begin

text \<open>
  Shared vocabulary of the development: C++ integers, arrays and counted loops in the
  option monad, and the facts on lists and products that several components use.

  A C++ computation that can have undefined behaviour (signed overflow, division by
  zero, an access outside an array) is an \<open>option\<close>: \<open>None\<close> is the undefined
  behaviour, \<open>Some v\<close> a defined result. Exceptions are values of a sum type in the
  theories that throw.
\<close>

named_theorems cint_simps \<open>evaluation of in-range integer expressions\<close>
named_theorems carr_simps \<open>in-bounds array accesses\<close>

section \<open>Integers\<close>

text \<open>
  A value of type \<open>int\<close> (32 bits) or \<open>Nd4jIndex\<close> (\<open>long long\<close>, 64 bits) is an
  \<open>int\<close>. Every arithmetic expression of the source goes through \<open>i32\<close> or \<open>i64\<close>,
  which reject the results that overflow the type. \<open>to_int\<close> is the narrowing
  conversion from \<open>Nd4jIndex\<close> to \<open>int\<close>, which keeps the low 32 bits.
\<close>

definition i32 :: "int \<Rightarrow> int option" where
  "i32 v = (if - 2147483648 \<le> v \<and> v \<le> 2147483647 then Some v else None)"

definition i64 :: "int \<Rightarrow> int option" where
  "i64 v = (if - 9223372036854775808 \<le> v \<and> v \<le> 9223372036854775807 then Some v else None)"

definition to_int :: "int \<Rightarrow> int" where
  "to_int v = (v + 2147483648) mod 4294967296 - 2147483648"

text \<open>
  \<open>to_char\<close> is the conversion to \<open>char\<close>. Division and remainder truncate towards zero; a zero
  divisor is undefined.
\<close>

definition to_char :: "int \<Rightarrow> int" where
  "to_char v = (v + 128) mod 256 - 128"

definition div32 :: "int \<Rightarrow> int \<Rightarrow> int option" where
  "div32 a b = (if b = 0 then None else i32 (a sdiv b))"

definition mod32 :: "int \<Rightarrow> int \<Rightarrow> int option" where
  "mod32 a b = (if b = 0 then None else do { _ \<leftarrow> i32 (a sdiv b); Some (a smod b) })"

definition div64 :: "int \<Rightarrow> int \<Rightarrow> int option" where
  "div64 a b = (if b = 0 then None else i64 (a sdiv b))"

text \<open>64-bit arithmetic that wraps: of \<open>std::atomic<Nd4jIndex>\<close>, and of \<open>size_t\<close> when the result
  is stored in an \<open>Nd4jIndex\<close>.\<close>

definition wrap64 :: "int \<Rightarrow> int" where
  "wrap64 v = (v + 9223372036854775808) mod 18446744073709551616 - 9223372036854775808"

text \<open>The exceptions of the program: of the standard library, and thrown string literals.\<close>

datatype exn = Invalid_argument string | Runtime_error string | Bad_alloc | Out_of_range | Thrown string

lemma wrap64_id: "- 9223372036854775808 \<le> v \<Longrightarrow> v \<le> 9223372036854775807 \<Longrightarrow> wrap64 v = v"
  by (simp add: wrap64_def)

lemma i32_Some [cint_simps]: "- 2147483648 \<le> v \<Longrightarrow> v \<le> 2147483647 \<Longrightarrow> i32 v = Some v"
  by (simp add: i32_def)

lemma i64_Some [cint_simps]:
  "- 9223372036854775808 \<le> v \<Longrightarrow> v \<le> 9223372036854775807 \<Longrightarrow> i64 v = Some v"
  by (simp add: i64_def)

lemma i32_eq_Some_iff: "i32 v = Some w \<longleftrightarrow> w = v \<and> - 2147483648 \<le> v \<and> v \<le> 2147483647"
  by (auto simp: i32_def)

lemma i64_eq_Some_iff:
  "i64 v = Some w \<longleftrightarrow> w = v \<and> - 9223372036854775808 \<le> v \<and> v \<le> 9223372036854775807"
  by (auto simp: i64_def)

lemma to_int_id [cint_simps]: "- 2147483648 \<le> v \<Longrightarrow> v \<le> 2147483647 \<Longrightarrow> to_int v = v"
  by (simp add: to_int_def)

lemma to_int_range: "- 2147483648 \<le> to_int v \<and> to_int v \<le> 2147483647"
proof -
  have "0 \<le> (v + 2147483648) mod 4294967296" and "(v + 2147483648) mod 4294967296 < 4294967296"
    by simp_all
  then show ?thesis
    by (simp add: to_int_def)
qed

lemma sdiv_nonneg: "0 \<le> a \<Longrightarrow> 0 < b \<Longrightarrow> a sdiv b = a div b" for a b :: int
  by (simp add: signed_divide_int_def sgn_if)

lemma smod_nonneg: "0 \<le> a \<Longrightarrow> 0 < b \<Longrightarrow> a smod b = a mod b" for a b :: int
  by (cases "a = 0") (simp_all add: signed_modulo_int_def)

lemma div_le_self: "0 \<le> a \<Longrightarrow> 0 < b \<Longrightarrow> a div b \<le> a" for a b :: int
  by (metis div_by_1 int_one_le_iff_zero_less zdiv_mono2 zero_less_one)

lemma div32_nonneg [cint_simps]:
  assumes "0 \<le> a" "a \<le> 2147483647" "0 < b"
  shows "div32 a b = Some (a div b)"
proof -
  have "0 \<le> a div b" using assms by (simp add: pos_imp_zdiv_nonneg_iff)
  moreover have "a div b \<le> a" using assms by (simp add: div_le_self)
  ultimately show ?thesis using assms by (simp add: div32_def sdiv_nonneg i32_def)
qed

lemma mod32_nonneg [cint_simps]:
  assumes "0 \<le> a" "a \<le> 2147483647" "0 < b"
  shows "mod32 a b = Some (a mod b)"
proof -
  have "0 \<le> a div b" using assms by (simp add: pos_imp_zdiv_nonneg_iff)
  moreover have "a div b \<le> a" using assms by (simp add: div_le_self)
  ultimately show ?thesis using assms by (simp add: mod32_def sdiv_nonneg smod_nonneg i32_def)
qed

lemma div64_nonneg [cint_simps]:
  assumes "0 \<le> a" "a \<le> 9223372036854775807" "0 < b"
  shows "div64 a b = Some (a div b)"
proof -
  have "0 \<le> a div b" using assms by (simp add: pos_imp_zdiv_nonneg_iff)
  moreover have "a div b \<le> a" using assms by (simp add: div_le_self)
  ultimately show ?thesis using assms by (simp add: div64_def sdiv_nonneg i64_def)
qed

section \<open>Arrays\<close>

text \<open>
  An array is the list of its cells; a pointer into it is the suffix of the list that
  starts there (\<open>ptr xs k\<close> is \<open>xs + k\<close>). Reads and writes outside it are undefined. The cells of a fresh
  \<open>new int[n]\<close> hold \<open>undefined\<close>, a value nothing is known about, until written.
\<close>

definition rd :: "'a list \<Rightarrow> int \<Rightarrow> 'a option" where
  "rd xs i = (if 0 \<le> i \<and> i < int (length xs) then Some (xs ! nat i) else None)"

definition wr :: "'a list \<Rightarrow> int \<Rightarrow> 'a \<Rightarrow> 'a list option" where
  "wr xs i v = (if 0 \<le> i \<and> i < int (length xs) then Some (xs[nat i := v]) else None)"

definition new_int :: "int \<Rightarrow> int list option" where
  "new_int n = (if 0 \<le> n then Some (replicate (nat n) undefined) else None)"

definition ptr :: "'a list \<Rightarrow> int \<Rightarrow> 'a list option" where
  "ptr xs k = (if 0 \<le> k \<and> k \<le> int (length xs) then Some (drop (nat k) xs) else None)"

text \<open>A function that changes the cells behind the pointer \<open>xs + k\<close>.\<close>

definition on_ptr :: "'a list \<Rightarrow> int \<Rightarrow> ('a list \<Rightarrow> 'a list option) \<Rightarrow> 'a list option" where
  "on_ptr xs k f = do { p \<leftarrow> ptr xs k; p' \<leftarrow> f p; Some (take (nat k) xs @ p') }"

lemma rd_Some [carr_simps]: "0 \<le> i \<Longrightarrow> i < int (length xs) \<Longrightarrow> rd xs i = Some (xs ! nat i)"
  by (simp add: rd_def)

lemma wr_Some [carr_simps]: "0 \<le> i \<Longrightarrow> i < int (length xs) \<Longrightarrow> wr xs i v = Some (xs[nat i := v])"
  by (simp add: wr_def)

lemma rd_nat [simp]: "rd xs (int k) = (if k < length xs then Some (xs ! k) else None)"
  by (simp add: rd_def)

lemma wr_nat: "wr xs (int k) v = (if k < length xs then Some (xs[k := v]) else None)"
  by (simp add: wr_def)

lemma rd_eq_Some_iff: "rd xs i = Some v \<longleftrightarrow> 0 \<le> i \<and> i < int (length xs) \<and> v = xs ! nat i"
  by (auto simp: rd_def)

lemma new_int_nat [simp]: "new_int (int n) = Some (replicate n undefined)"
  by (simp add: new_int_def)

section \<open>Counted loops\<close>

text \<open>
  \<open>mfor f [lo..hi - 1] s\<close> is \<open>for (int i = lo; i < hi; i++)\<close> with body \<open>f\<close> over the
  loop state; \<open>mfor f (rev [0..n - 1]) s\<close> is \<open>for (int i = n - 1; i >= 0; i--)\<close>.
  \<open>mret\<close> is the same for a loop whose body may leave the function (\<open>Inl\<close>).
\<close>

primrec mfor :: "('a \<Rightarrow> 's \<Rightarrow> 's option) \<Rightarrow> 'a list \<Rightarrow> 's \<Rightarrow> 's option" where
  "mfor f [] s = Some s"
| "mfor f (x # xs) s = do { s' \<leftarrow> f x s; mfor f xs s' }"

primrec mret :: "('a \<Rightarrow> 's \<Rightarrow> ('r + 's) option) \<Rightarrow> 'a list \<Rightarrow> 's \<Rightarrow> ('r + 's) option" where
  "mret f [] s = Some (Inr s)"
| "mret f (x # xs) s =
     do { q \<leftarrow> f x s; (case q of Inl r \<Rightarrow> Some (Inl r) | Inr s' \<Rightarrow> mret f xs s') }"

lemma mfor_append: "mfor f (xs @ ys) s = mfor f xs s \<bind> mfor f ys"
  by (induction xs arbitrary: s) (auto split: bind_splits)

lemma mret_append:
  "mret f (xs @ ys) s =
     do { q \<leftarrow> mret f xs s; (case q of Inl r \<Rightarrow> Some (Inl r) | Inr s' \<Rightarrow> mret f ys s') }"
proof (induction xs arbitrary: s)
  case (Cons x xs)
  show ?case
    by (cases "f x s") (auto simp: Cons split: sum.splits)
qed simp

text \<open>
  A loop with a known trace: \<open>g k\<close> is the state before the step with index \<open>k\<close>.
\<close>

lemma mfor_trace:
  assumes "\<And>k. k < n \<Longrightarrow> f (int k) (g k) = Some (g (Suc k))"
  shows "mfor f [0..int n - 1] (g 0) = Some (g n)"
  using assms
proof (induction n)
  case (Suc n)
  have "[0..int (Suc n) - 1] = [0..int n - 1] @ [int n]"
    using upto_rec2 [of 0 "int n"] by simp
  with Suc show ?case by (simp add: mfor_append)
qed simp

lemma mfor_trace_from:
  assumes "\<And>k. k < n \<Longrightarrow> f (lo + int k) (g k) = Some (g (Suc k))"
  shows "mfor f [lo..lo + int n - 1] (g 0) = Some (g n)"
  using assms
proof (induction n)
  case (Suc n)
  have "[lo..lo + int (Suc n) - 1] = [lo..lo + int n - 1] @ [lo + int n]"
    using upto_rec2 [of lo "lo + int n"] by simp
  with Suc show ?case by (simp add: mfor_append)
qed simp

lemma mfor_trace_down:
  assumes "\<And>k. k < n \<Longrightarrow> f (int k) (g (Suc k)) = Some (g k)"
  shows "mfor f (rev [0..int n - 1]) (g n) = Some (g 0)"
  using assms
proof (induction n)
  case (Suc n)
  have "[0..int (Suc n) - 1] = [0..int n - 1] @ [int n]"
    using upto_rec2 [of 0 "int n"] by simp
  with Suc show ?case by simp
qed simp

lemma mfor_trace_down_from:
  assumes "\<And>k. k < n \<Longrightarrow> f (lo + int k) (g (Suc k)) = Some (g k)"
  shows "mfor f (rev [lo..lo + int n - 1]) (g n) = Some (g 0)"
  using assms
proof (induction n)
  case (Suc n)
  have "[lo..lo + int (Suc n) - 1] = [lo..lo + int n - 1] @ [lo + int n]"
    using upto_rec2 [of lo "lo + int n"] by simp
  with Suc show ?case by simp
qed simp

text \<open>A loop with an invariant, for states that are not known exactly.\<close>

lemma mfor_inv:
  assumes "I 0 s"
    and "\<And>k s. k < n \<Longrightarrow> I k s \<Longrightarrow> \<exists>s'. f (int k) s = Some s' \<and> I (Suc k) s'"
  shows "\<exists>s'. mfor f [0..int n - 1] s = Some s' \<and> I n s'"
  using assms
proof (induction n)
  case (Suc n)
  have "[0..int (Suc n) - 1] = [0..int n - 1] @ [int n]"
    using upto_rec2 [of 0 "int n"] by simp
  moreover obtain s1 where "mfor f [0..int n - 1] s = Some s1" "I n s1"
    using Suc by (metis less_SucI)
  moreover obtain s2 where "f (int n) s1 = Some s2" "I (Suc n) s2"
    using Suc.prems(2) calculation(3) by blast
  ultimately show ?case by (simp add: mfor_append)
qed simp

text \<open>
  A searching loop: the body leaves with \<open>r\<close> at the first index where \<open>P\<close> holds.
\<close>

lemma mret_search:
  assumes "\<And>x. x \<in> set xs \<Longrightarrow> f x s = Some (if P x then Inl r else Inr s)"
  shows "mret f xs s = Some (if \<exists>x\<in>set xs. P x then Inl r else Inr s)"
  using assms by (induction xs) auto

lemma mret_all_Inr:
  assumes "\<And>x. x \<in> set xs \<Longrightarrow> f x s = Some (Inr s)"
  shows "mret f xs s = Some (Inr s)"
  using assms by (induction xs) auto

text \<open>Writing \<open>n\<close> cells of \<open>ys\<close> through a running index, as the source's
  \<open>ret[count++] = ys[i]\<close> loops do.\<close>

definition append_cell :: "int \<Rightarrow> int list \<times> int \<Rightarrow> (int list \<times> int) option" where
  "append_cell v = (\<lambda>(ret, count). do {
     ret \<leftarrow> wr ret count v;
     count \<leftarrow> i32 (count + 1);
     Some (ret, count) })"

lemma append_cell_nat:
  "c < length ret \<Longrightarrow> c < 2147483647 \<Longrightarrow>
   append_cell v (ret, int c) = Some (ret[c := v], int (Suc c))"
  by (simp add: append_cell_def wr_def i32_def)

lemma append_cells_loop:
  assumes "n \<le> length ys" "c + n \<le> length ret" "c + n \<le> 2147483647"
  shows "mfor (\<lambda>i s. rd ys i \<bind> (\<lambda>v. append_cell v s)) [0..int n - 1] (ret, int c) =
         Some (take c ret @ take n ys @ drop (c + n) ret, int (c + n))"
proof -
  define g where "g k = (take c ret @ take k ys @ drop (c + k) ret, int (c + k))" for k
  have "mfor (\<lambda>i s. rd ys i \<bind> (\<lambda>v. append_cell v s)) [0..int n - 1] (g 0) = Some (g n)"
  proof (rule mfor_trace)
    fix k assume k: "k < n"
    have "(take c ret @ take k ys @ drop (c + k) ret)[c + k := ys ! k] =
          take c ret @ take (Suc k) ys @ drop (c + Suc k) ret"
      using k assms
      by (simp add: list_update_append take_Suc_conv_app_nth Cons_nth_drop_Suc [symmetric])
    then show "rd ys (int k) \<bind> (\<lambda>v. append_cell v (g k)) = Some (g (Suc k))"
      using k assms by (simp add: g_def append_cell_nat del: of_nat_add)
  qed
  then show ?thesis by (simp add: g_def)
qed

section \<open>Lists and products\<close>

definition pos_shape :: "int list \<Rightarrow> bool" where
  "pos_shape ds = list_all (\<lambda>d. 0 < d) ds"

lemma pos_shape_simps [simp]:
  "pos_shape []" "pos_shape (d # ds) \<longleftrightarrow> 0 < d \<and> pos_shape ds"
  "pos_shape (xs @ ys) \<longleftrightarrow> pos_shape xs \<and> pos_shape ys"
  by (simp_all add: pos_shape_def)

lemma pos_shape_nth: "pos_shape ds \<Longrightarrow> k < length ds \<Longrightarrow> 0 < ds ! k"
  by (simp add: pos_shape_def list_all_length)

lemma pos_shape_take: "pos_shape ds \<Longrightarrow> pos_shape (take k ds)"
  by (simp add: pos_shape_def list_all_iff) (meson in_set_takeD)

lemma pos_shape_drop: "pos_shape ds \<Longrightarrow> pos_shape (drop k ds)"
  by (simp add: pos_shape_def list_all_iff) (meson in_set_dropD)

lemma prod_list_pos: "pos_shape ds \<Longrightarrow> 0 < prod_list ds"
  by (induction ds) auto

lemma prod_list_ge1: "pos_shape ds \<Longrightarrow> 1 \<le> prod_list ds"
  using prod_list_pos [of ds] by simp

lemma prod_take_drop: "prod_list (take k ds) * prod_list (drop k ds) = (prod_list ds :: int)"
  by (metis append_take_drop_id prod_list.append)

lemma prod_take_le: "pos_shape ds \<Longrightarrow> prod_list (take k ds) \<le> prod_list ds"
  using prod_take_drop [of k ds] prod_list_ge1 [OF pos_shape_drop, of ds k]
    prod_list_pos [OF pos_shape_take, of ds k]
  by (metis less_le mult_le_cancel_left1 not_less)

lemma prod_drop_le: "pos_shape ds \<Longrightarrow> prod_list (drop k ds) \<le> prod_list ds"
  using prod_take_drop [of k ds] prod_list_ge1 [OF pos_shape_take, of ds k]
    prod_list_pos [OF pos_shape_drop, of ds k]
  by (metis less_le mult_le_cancel_right1 not_less)

lemma prod_take_Suc: "k < length ds \<Longrightarrow> prod_list (take (Suc k) ds) = prod_list (take k ds) * ds ! k"
  for ds :: "int list"
  by (simp add: take_Suc_conv_app_nth)

lemma prod_drop_Suc: "k < length ds \<Longrightarrow> prod_list (drop k ds) = ds ! k * prod_list (drop (Suc k) ds)"
  for ds :: "int list"
  by (simp flip: Cons_nth_drop_Suc)

lemma dim_le_prod: "pos_shape ds \<Longrightarrow> d \<in> set ds \<Longrightarrow> d \<le> prod_list ds"
proof (induction ds)
  case (Cons a ds)
  then have "1 \<le> prod_list ds" "0 < a" "pos_shape ds"
    by (auto intro: prod_list_ge1)
  show ?case
  proof (cases "d = a")
    case True
    then show ?thesis using \<open>1 \<le> prod_list ds\<close> \<open>0 < a\<close> by simp
  next
    case False
    then have "d \<le> prod_list ds" using Cons by simp
    also have "\<dots> \<le> a * prod_list ds"
      using \<open>0 < a\<close> \<open>1 \<le> prod_list ds\<close> by simp
    finally show ?thesis by simp
  qed
qed simp

lemma list_of_3: "length xs = 3 \<Longrightarrow> \<exists>a b c. xs = [a, b, c]"
  by (auto simp: numeral_3_eq_3 length_Suc_conv)

text \<open>Filling an array front to back or back to front.\<close>

lemma take_update_app: "k < length xs \<Longrightarrow> (take k ys @ drop k xs)[k := v] = take k ys @ v # drop (Suc k) xs"
  if "k \<le> length ys"
  using that by (simp add: list_update_append Cons_nth_drop_Suc [symmetric])

lemma fill_up_step:
  "length ys = length xs \<Longrightarrow> k < length xs \<Longrightarrow>
   (take k ys @ drop k xs)[k := ys ! k] = take (Suc k) ys @ drop (Suc k) xs"
  by (simp add: take_update_app take_Suc_conv_app_nth)

lemma fill_down_step:
  "length ys = length xs \<Longrightarrow> k < length xs \<Longrightarrow>
   (take (Suc k) xs @ drop (Suc k) ys)[k := ys ! k] = take k xs @ drop k ys"
  by (simp add: take_Suc_conv_app_nth list_update_append Cons_nth_drop_Suc)

text \<open>A loop that writes cell \<open>k\<close> in its step \<open>k\<close>.\<close>

lemma mfor_fill:
  assumes "\<And>k ret. k < n \<Longrightarrow> length ret = length xs \<Longrightarrow> f (int k) ret = wr ret (int k) (h k)"
    and "n \<le> length xs"
  shows "mfor f [0..int n - 1] xs = Some (map h [0..<n] @ drop n xs)"
proof -
  define g where "g k = map h [0..<k] @ drop k xs" for k
  have "mfor f [0..int n - 1] (g 0) = Some (g n)"
  proof (rule mfor_trace)
    fix k assume k: "k < n"
    have "f (int k) (g k) = wr (g k) (int k) (h k)"
      using assms k by (simp add: g_def)
    also have "\<dots> = Some (g (Suc k))"
      using k assms(2) by (simp add: g_def wr_def list_update_append Cons_nth_drop_Suc [symmetric])
    finally show "f (int k) (g k) = Some (g (Suc k))" .
  qed
  then show ?thesis by (simp add: g_def)
qed

lemma div_lt_of_lt_mult: "0 < p \<Longrightarrow> x < d * p \<Longrightarrow> x div p < d" for x d p :: int
  using div_mult_mod_eq [of x p] pos_mod_sign [of p x] mult_right_mono [of d "x div p" p]
  by linarith

lemma bex_upto_nat: "(\<exists>i\<in>set [0..int n - 1]. P i) \<longleftrightarrow> (\<exists>k<n. P (int k))"
proof
  assume "\<exists>i\<in>set [0..int n - 1]. P i"
  then obtain i where "0 \<le> i" "i \<le> int n - 1" "P i" by auto
  then show "\<exists>k<n. P (int k)" by (intro exI [of _ "nat i"]) auto
qed auto

end
