(* ===== verification/ShapeInfo.thy ===== *)
theory ShapeInfo
  imports Prelude
begin

text \<open>
  The shape-information buffer of \<open>include/helpers/shape.h\<close>: an \<open>int\<close> array that
  holds the rank, the shape, the strides, an offset, the element-wise stride and the
  order of an n-dimensional array. The accessors, the predicates on shapes, the
  comparison of buffers, and the conversion between buffers and the struct
  \<open>ShapeInformation\<close>. Functions of the namespace \<open>shape\<close> whose name is taken in HOL
  carry the prefix \<open>shape_\<close>; \<open>_new\<close> is the overload that allocates its result.
\<close>

section \<open>Layout and accessors\<close>

record ShapeInformation =
  si_shape :: "int list"
  si_stride :: "int list"
  si_order :: int
  si_rank :: int
  si_offset :: int
  si_ews :: int

definition shapeInfoLength :: "int \<Rightarrow> int option" where
  "shapeInfoLength rnk = do { t \<leftarrow> i32 (rnk * 2); i32 (t + 4) }"

definition shapeInfoLength_buf :: "int list \<Rightarrow> int option" where
  "shapeInfoLength_buf shp = rd shp 0 \<bind> shapeInfoLength"

definition shapeInfoByteLength :: "int \<Rightarrow> int option" where
  "shapeInfoByteLength rnk = do { n \<leftarrow> shapeInfoLength rnk; Some ((n * 4) mod 2 ^ 64) }"

definition shapeInfoByteLength_buf :: "int list \<Rightarrow> int option" where
  "shapeInfoByteLength_buf shapeInfo = rd shapeInfo 0 \<bind> shapeInfoByteLength"

definition shape_rank :: "int list \<Rightarrow> int option" where
  "shape_rank buffer = rd buffer 0"

definition shapeOf :: "int list \<Rightarrow> int list option" where
  "shapeOf buffer = ptr buffer 1"

definition shape_stride :: "int list \<Rightarrow> int list option" where
  "shape_stride buffer = do { r \<leftarrow> shape_rank buffer; k \<leftarrow> i32 (1 + r); ptr buffer k }"

definition shape_offset :: "int list \<Rightarrow> int option" where
  "shape_offset buffer = do {
     r \<leftarrow> shape_rank buffer; n \<leftarrow> shapeInfoLength r; rd buffer (n - 3) }"

definition shape_ews :: "int list \<Rightarrow> int option" where
  "shape_ews buffer = do { r \<leftarrow> rd buffer 0; n \<leftarrow> shapeInfoLength r; rd buffer (n - 2) }"

definition shape_order :: "int list \<Rightarrow> int option" where
  "shape_order buffer = do {
     r \<leftarrow> rd buffer 0; n \<leftarrow> shapeInfoLength r; v \<leftarrow> rd buffer (n - 1); Some (to_char v) }"

definition sizeAt :: "int list \<Rightarrow> int \<Rightarrow> int option" where
  "sizeAt shp dim =
     (if 0 \<le> dim then do { k \<leftarrow> i32 (1 + dim); rd shp k }
      else do { r \<leftarrow> shape_rank shp; s \<leftarrow> i32 (r + dim); k \<leftarrow> i32 (1 + s); rd shp k })"

definition shape_slice :: "int list \<Rightarrow> int list option" where
  "shape_slice shp = ptr shp 1"

definition shape_slices :: "int list \<Rightarrow> int option" where
  "shape_slices shapeBuffer = do { s \<leftarrow> shapeOf shapeBuffer; rd s 0 }"

text \<open>The products of the first \<open>len\<close> entries, in 32 and in 64 bits.\<close>

definition shape_prod :: "int list \<Rightarrow> int \<Rightarrow> int option" where
  "shape_prod data len = mfor (\<lambda>i p. do { v \<leftarrow> rd data i; i32 (p * v) }) [0..len - 1] 1"

definition shape_prodLong :: "int list \<Rightarrow> int \<Rightarrow> int option" where
  "shape_prodLong data len = mfor (\<lambda>i p. do { v \<leftarrow> rd data i; i64 (p * v) }) [0..len - 1] 1"

definition shape_length :: "int list \<Rightarrow> int option" where
  "shape_length shapeInfo = do {
     r \<leftarrow> shape_rank shapeInfo;
     if r = 0 then Some 1
     else if r = 1 then rd shapeInfo 1
     else do { s \<leftarrow> shapeOf shapeInfo; shape_prodLong s r } }"

definition shape_length_list :: "int list \<Rightarrow> int option" where
  "shape_length_list shp = mfor (\<lambda>v ret. i64 (ret * v)) shp 1"

section \<open>Predicates on shapes\<close>

definition isVector :: "int list \<Rightarrow> int \<Rightarrow> int option" where
  "isVector shp rnk =
     (if rnk = 0 then Some 0
      else if rnk = 1 then Some 1
      else if rnk > 2 then Some 0
      else do {
        a \<leftarrow> rd shp 0;
        if a = 1 then Some 1
        else do { b \<leftarrow> rd shp 1; Some (if b = 1 then 1 else 0) } })"

definition isVector_buf :: "int list \<Rightarrow> int option" where
  "isVector_buf shapeInfo = do {
     s \<leftarrow> shapeOf shapeInfo; r \<leftarrow> shape_rank shapeInfo; isVector s r }"

definition isLikeVector :: "int list \<Rightarrow> int \<Rightarrow> (bool \<times> int) option" where
  "isLikeVector shapeInfo posOfNonUnityDim = do {
     r \<leftarrow> rd shapeInfo 0;
     (num, pos) \<leftarrow> mfor (\<lambda>i (num, pos). do {
         v \<leftarrow> rd shapeInfo i;
         if v \<noteq> 1 then do { num \<leftarrow> i32 (num + 1); Some (num, i - 1) } else Some (num, pos) })
       [1..r] (0, posOfNonUnityDim);
     Some (num = 1 \<and> r > 2, pos) }"

definition isRowVector :: "int list \<Rightarrow> bool option" where
  "isRowVector shapeInfo = do {
     v \<leftarrow> isVector_buf shapeInfo;
     s \<leftarrow> shapeOf shapeInfo;
     f \<leftarrow> rd s 0;
     Some (v = 1 \<and> f = 1) }"

definition isColumnVector :: "int list \<Rightarrow> bool option" where
  "isColumnVector shapeInfo = do {
     v \<leftarrow> isVector_buf shapeInfo;
     s \<leftarrow> shapeOf shapeInfo;
     f \<leftarrow> rd s 0;
     Some (v = 1 \<and> \<not> f = 1) }"

definition oneDimEqualToLength :: "int list \<Rightarrow> int \<Rightarrow> int option" where
  "oneDimEqualToLength shp rnk = do {
     q \<leftarrow> mret (\<lambda>i s. do {
         v \<leftarrow> rd shp i; p \<leftarrow> shape_prod shp rnk;
         Some (if v = p then Inl 1 else Inr s) }) [0..rnk - 1] ();
     Some (case q of Inl x \<Rightarrow> x | Inr _ \<Rightarrow> 0) }"

definition oneDimEqualToLength_buf :: "int list \<Rightarrow> int option" where
  "oneDimEqualToLength_buf shapeInfo = do {
     s \<leftarrow> shapeOf shapeInfo; r \<leftarrow> shape_rank shapeInfo; oneDimEqualToLength s r }"

definition isMatrix :: "int list \<Rightarrow> int \<Rightarrow> int option" where
  "isMatrix shp rnk =
     (if rnk > 2 then Some 0
      else do {
        a \<leftarrow> rd shp 0;
        if a = 1 then Some 0
        else do { b \<leftarrow> rd shp 1; Some (if b = 1 then 0 else 1) } })"

definition isMatrix_buf :: "int list \<Rightarrow> int option" where
  "isMatrix_buf shapeInfo = do {
     s \<leftarrow> shapeOf shapeInfo; r \<leftarrow> shape_rank shapeInfo; isMatrix s r }"

definition isScalar :: "int list \<Rightarrow> int option" where
  "isScalar info = do {
     r \<leftarrow> shape_rank info;
     if r = 0 then Some 1
     else if r > 2 then Some 0
     else if r = 1 then do { s \<leftarrow> shapeOf info; a \<leftarrow> rd s 0; Some (if a = 1 then 1 else 0) }
     else if r = 2 then do {
       s \<leftarrow> shapeOf info;
       a \<leftarrow> rd s 0;
       if a = 1 then do { b \<leftarrow> rd s 1; Some (if b = 1 then 1 else 0) } else Some 0 }
     else Some 0 }"

definition isScalar_info :: "ShapeInformation \<Rightarrow> int option" where
  "isScalar_info info =
     (if si_rank info > 2 then Some 0
      else if si_rank info = 1 then do { a \<leftarrow> rd (si_shape info) 0; Some (if a = 1 then 1 else 0) }
      else if si_rank info = 2 then do {
        a \<leftarrow> rd (si_shape info) 0;
        if a = 1 then do { b \<leftarrow> rd (si_shape info) 1; Some (if b = 1 then 1 else 0) } else Some 0 }
      else Some 0)"

definition isDimPermuted :: "int list \<Rightarrow> int \<Rightarrow> bool option" where
  "isDimPermuted dimensions dimSize = do {
     q \<leftarrow> mret (\<lambda>i s. do {
         a \<leftarrow> rd dimensions i; b \<leftarrow> rd dimensions (i + 1);
         Some (if a > b then Inl True else Inr s) }) [0..dimSize - 2] ();
     Some (case q of Inl x \<Rightarrow> x | Inr _ \<Rightarrow> False) }"

section \<open>Comparison\<close>

text \<open>\<open>shapeEquals\<close> and \<open>strideEquals\<close> on ranks and arrays have the same body.\<close>

definition cells_differ :: "int list \<Rightarrow> int list \<Rightarrow> int \<Rightarrow> unit \<Rightarrow> (bool + unit) option" where
  "cells_differ a b i s = do {
     x \<leftarrow> rd a i; y \<leftarrow> rd b i; Some (if x \<noteq> y then Inl False else Inr s) }"

definition shapeEquals :: "int \<Rightarrow> int list \<Rightarrow> int \<Rightarrow> int list \<Rightarrow> bool option" where
  "shapeEquals shape1Rank shape1 shape2Rank shape2 =
     (if shape1Rank \<noteq> shape2Rank then Some False
      else do {
        q \<leftarrow> mret (cells_differ shape1 shape2) [0..shape1Rank - 1] ();
        Some (case q of Inl x \<Rightarrow> x | Inr _ \<Rightarrow> True) })"

definition shapeEquals_buf :: "int list \<Rightarrow> int list \<Rightarrow> bool option" where
  "shapeEquals_buf shapeInfo1 shapeInfo2 = do {
     r1 \<leftarrow> shape_rank shapeInfo1; s1 \<leftarrow> shapeOf shapeInfo1;
     r2 \<leftarrow> shape_rank shapeInfo2; s2 \<leftarrow> shapeOf shapeInfo2;
     shapeEquals r1 s1 r2 s2 }"

definition strideEquals :: "int \<Rightarrow> int list \<Rightarrow> int \<Rightarrow> int list \<Rightarrow> bool option" where
  "strideEquals shape1Rank shape1 shape2Rank shape2 =
     (if shape1Rank \<noteq> shape2Rank then Some False
      else do {
        q \<leftarrow> mret (cells_differ shape1 shape2) [0..shape1Rank - 1] ();
        Some (case q of Inl x \<Rightarrow> x | Inr _ \<Rightarrow> True) })"

definition strideEquals_buf :: "int list \<Rightarrow> int list \<Rightarrow> bool option" where
  "strideEquals_buf shapeInfo1 shapeInfo2 = do {
     r1 \<leftarrow> shape_rank shapeInfo1; s1 \<leftarrow> shape_stride shapeInfo1;
     r2 \<leftarrow> shape_rank shapeInfo2; s2 \<leftarrow> shape_stride shapeInfo2;
     strideEquals r1 s1 r2 s2 }"

definition strideEquals_ranks :: "int list \<Rightarrow> int \<Rightarrow> int list \<Rightarrow> int \<Rightarrow> bool option" where
  "strideEquals_ranks stride1 rank1 stride2 rank2 =
     (if rank1 \<noteq> rank2 then Some False
      else do {
        q \<leftarrow> mret (cells_differ stride1 stride2) [0..rank1 - 1] ();
        Some (case q of Inl x \<Rightarrow> x | Inr _ \<Rightarrow> True) })"

definition equalsStrict :: "int list \<Rightarrow> int list \<Rightarrow> bool option" where
  "equalsStrict shapeA shapeB = do {
     ra \<leftarrow> rd shapeA 0;
     rb \<leftarrow> rd shapeB 0;
     if ra \<noteq> rb then Some False
     else if ra = 0 then Some True
     else do {
       n \<leftarrow> shapeInfoLength ra;
       q \<leftarrow> mret (cells_differ shapeA shapeB) [1..n - 1] ();
       Some (case q of Inl x \<Rightarrow> x | Inr _ \<Rightarrow> True) } }"

definition equalsSoft :: "int list \<Rightarrow> int list \<Rightarrow> bool option" where
  "equalsSoft shapeA shapeB = do {
     ra \<leftarrow> rd shapeA 0;
     rb \<leftarrow> rd shapeB 0;
     if ra \<noteq> rb then Some False
     else if ra = 0 then Some True
     else do {
       q \<leftarrow> mret (cells_differ shapeA shapeB) [1..ra] ();
       Some (case q of Inl x \<Rightarrow> x | Inr _ \<Rightarrow> True) } }"

section \<open>Copies\<close>

text \<open>\<open>memcpy\<close> of whole cells: both ranges have to lie inside their arrays.\<close>

definition memcpy_int :: "int list \<Rightarrow> int list \<Rightarrow> int \<Rightarrow> int list option" where
  "memcpy_int dst src n =
     (if 0 \<le> n \<and> n \<le> int (length src) \<and> n \<le> int (length dst)
      then Some (take (nat n) src @ drop (nat n) dst) else None)"

definition copyOf :: "int \<Rightarrow> int list \<Rightarrow> int list \<Rightarrow> int list option" where
  "copyOf len toCopy ret = memcpy_int ret toCopy len"

definition copyOf_new :: "int \<Rightarrow> int list \<Rightarrow> int list option" where
  "copyOf_new len toCopy = do { ret \<leftarrow> new_int len; copyOf len toCopy ret }"

definition copyTo :: "int \<Rightarrow> int list \<Rightarrow> int list \<Rightarrow> int list option" where
  "copyTo len src dst = memcpy_int dst src len"

definition copyTo_indexes :: "int \<Rightarrow> int list \<Rightarrow> int list \<Rightarrow> int list \<Rightarrow> int list option" where
  "copyTo_indexes len src dst indexes =
     mfor (\<lambda>i dst. do { j \<leftarrow> rd indexes i; v \<leftarrow> rd src j; wr dst i v }) [0..len - 1] dst"

definition detachShape :: "int list \<Rightarrow> int list option" where
  "detachShape originalShape = do {
     n \<leftarrow> shapeInfoLength_buf originalShape;
     newShape \<leftarrow> new_int n;
     b \<leftarrow> shapeInfoByteLength_buf originalShape;
     memcpy_int newShape originalShape (b div 4) }"

definition copyShape :: "int list \<Rightarrow> int list option" where
  "copyShape originalShape = do {
     n \<leftarrow> shapeInfoLength_buf originalShape;
     newShape \<leftarrow> new_int n;
     b \<leftarrow> shapeInfoByteLength_buf originalShape;
     memcpy_int newShape originalShape (b div 4) }"

definition shapeCopy :: "ShapeInformation \<Rightarrow> ShapeInformation option" where
  "shapeCopy toCopy = do {
     shp \<leftarrow> new_int (si_rank toCopy);
     shp \<leftarrow> memcpy_int shp (si_shape toCopy) (si_rank toCopy);
     str \<leftarrow> new_int (si_rank toCopy);
     str \<leftarrow> mfor (\<lambda>i str. do { v \<leftarrow> rd (si_stride toCopy) i; wr str i v })
              [0..si_rank toCopy - 1] str;
     Some \<lparr>si_shape = shp, si_stride = str, si_order = si_order toCopy,
           si_rank = si_rank toCopy, si_offset = si_offset toCopy, si_ews = si_ews toCopy\<rparr> }"

section \<open>Buffers and the struct\<close>

definition infoFromBuffer :: "int list \<Rightarrow> ShapeInformation option" where
  "infoFromBuffer buffer = do {
     r \<leftarrow> shape_rank buffer;
     len \<leftarrow> shapeInfoLength r;
     rnk \<leftarrow> rd buffer 0;
     shp \<leftarrow> ptr buffer 1;
     k \<leftarrow> i32 (1 + rnk);
     str \<leftarrow> ptr buffer k;
     off \<leftarrow> rd buffer (len - 3);
     ews \<leftarrow> rd buffer (len - 2);
     ord \<leftarrow> rd buffer (len - 1);
     Some \<lparr>si_shape = shp, si_stride = str, si_order = to_char ord,
           si_rank = rnk, si_offset = off, si_ews = ews\<rparr> }"

text \<open>The part the two overloads of \<open>toShapeBuffer\<close> share: everything after the rank.\<close>

definition toShapeBuffer_tail :: "ShapeInformation \<Rightarrow> int list \<Rightarrow> int list option" where
  "toShapeBuffer_tail info ret = do {
     s \<leftarrow> mfor (\<lambda>i s. do { v \<leftarrow> rd (si_shape info) i; append_cell v s }) [0..si_rank info - 1] (ret, 1);
     s \<leftarrow> mfor (\<lambda>i s. do { v \<leftarrow> rd (si_stride info) i; append_cell v s }) [0..si_rank info - 1] s;
     s \<leftarrow> append_cell (si_offset info) s;
     s \<leftarrow> append_cell (si_ews info) s;
     s \<leftarrow> append_cell (si_order info) s;
     Some (fst s) }"

definition toShapeBuffer_new :: "ShapeInformation \<Rightarrow> int list option" where
  "toShapeBuffer_new info = do {
     n \<leftarrow> shapeInfoLength (si_rank info);
     ret \<leftarrow> new_int n;
     ret \<leftarrow> wr ret 0 (si_rank info);
     toShapeBuffer_tail info ret }"

definition toShapeBuffer :: "ShapeInformation \<Rightarrow> int list \<Rightarrow> int list option" where
  "toShapeBuffer info ret = do {
     ret \<leftarrow> wr ret 0 (si_rank info);
     r \<leftarrow> rd ret 0;
     if r = 0 then do {
       ret \<leftarrow> wr ret 1 0;
       ret \<leftarrow> wr ret 2 1;
       wr ret 3 99 }
     else toShapeBuffer_tail info ret }"

definition createShapeInfo :: "int list \<Rightarrow> int list \<Rightarrow> int \<Rightarrow> int list \<Rightarrow> int list option" where
  "createShapeInfo shp str rnk buffer = do {
     buffer \<leftarrow> wr buffer 0 rnk;
     mfor (\<lambda>i buffer. do {
         v \<leftarrow> rd shp i;
         buffer \<leftarrow> wr buffer (1 + i) v;
         w \<leftarrow> rd str i;
         wr buffer (1 + rnk + i) w }) [0..rnk - 1] buffer }"

definition createShapeInfo_new :: "int list \<Rightarrow> int list \<Rightarrow> int \<Rightarrow> int list option" where
  "createShapeInfo_new shp str rnk = do {
     n \<leftarrow> shapeInfoLength rnk;
     ret \<leftarrow> new_int n;
     createShapeInfo shp str rnk ret }"

text \<open>Scalars: the allocating overload makes rank 1, the other rank 2.\<close>

definition createScalarShapeInfo_new :: "int list option" where
  "createScalarShapeInfo_new =
     toShapeBuffer_new \<lparr>si_shape = [1], si_stride = [1], si_order = 99, si_rank = 1,
                        si_offset = 0, si_ews = 1\<rparr>"

definition write_cells :: "int list \<Rightarrow> int list \<Rightarrow> int list option" where
  "write_cells vs ret = mfor (\<lambda>i ret. do { v \<leftarrow> rd vs i; wr ret i v }) [0..int (length vs) - 1] ret"

definition createScalarShapeInfo :: "int list \<Rightarrow> int list option" where
  "createScalarShapeInfo ret = write_cells [2, 1, 1, 1, 1, 0, 1, 99] ret"

definition shapeScalar :: "int list \<Rightarrow> int list option" where
  "shapeScalar buffer = write_cells [0, 0, 1, 99] buffer"

definition shapeOldScalar :: "int list \<Rightarrow> int \<Rightarrow> int list option" where
  "shapeOldScalar buffer ord = write_cells [2, 1, 1, 1, 1, 0, 1, ord] buffer"

definition shapeVector :: "int \<Rightarrow> int list \<Rightarrow> int list option" where
  "shapeVector len buffer = write_cells [1, len, 1, 0, 1, 99] buffer"

section \<open>Well-formed buffers\<close>

text \<open>
  \<open>mk_info sh st off ews ord\<close> is the buffer the layout prescribes; \<open>dims_ok\<close> says that
  the strides have the rank of the shape and that the buffer length fits an \<open>int\<close>.
\<close>

definition mk_info :: "int list \<Rightarrow> int list \<Rightarrow> int \<Rightarrow> int \<Rightarrow> int \<Rightarrow> int list" where
  "mk_info sh st off ews ord = int (length sh) # sh @ st @ [off, ews, ord]"

definition dims_ok :: "int list \<Rightarrow> int list \<Rightarrow> bool" where
  "dims_ok sh st \<longleftrightarrow> length st = length sh \<and> 2 * int (length sh) + 4 \<le> 2147483647"

named_theorems info_simps \<open>reading a well-formed buffer\<close>

lemma shapeInfoLength_eq [info_simps]:
  "- 1073741824 \<le> r \<Longrightarrow> 2 * r + 4 \<le> 2147483647 \<Longrightarrow> shapeInfoLength r = Some (2 * r + 4)"
  by (simp add: shapeInfoLength_def i32_def)

lemma length_mk_info: "length (mk_info sh st off ews ord) = length sh + length st + 4"
  by (simp add: mk_info_def)

lemma shape_rank_mk_info [info_simps]:
  "shape_rank (mk_info sh st off ews ord) = Some (int (length sh))"
  by (simp add: shape_rank_def mk_info_def rd_def)

lemma rd0_mk_info [info_simps]: "rd (mk_info sh st off ews ord) 0 = Some (int (length sh))"
  by (simp add: mk_info_def rd_def)

lemma shapeOf_mk_info [info_simps]:
  "shapeOf (mk_info sh st off ews ord) = Some (sh @ st @ [off, ews, ord])"
  by (simp add: shapeOf_def mk_info_def ptr_def)

lemma ptr_stride_mk_info:
  "ptr (mk_info sh st off ews ord) (1 + int (length sh)) = Some (st @ [off, ews, ord])"
  by (simp add: mk_info_def ptr_def nat_add_distrib)

lemma shape_stride_mk_info [info_simps]:
  "dims_ok sh st \<Longrightarrow> shape_stride (mk_info sh st off ews ord) = Some (st @ [off, ews, ord])"
  by (simp add: shape_stride_def info_simps ptr_stride_mk_info i32_def dims_ok_def)

lemma mk_info_last:
  assumes "length st = length sh" "0 < j" "j \<le> 3"
  shows "mk_info sh st off ews ord ! (2 * length sh + 4 - j) = [off, ews, ord] ! (3 - j)"
proof -
  have "mk_info sh st off ews ord ! (2 * length sh + 4 - j) =
        ((int (length sh) # sh @ st) @ [off, ews, ord]) ! (2 * length sh + 4 - j)"
    by (simp add: mk_info_def)
  also have "\<dots> = [off, ews, ord] ! (3 - j)"
    using assms by (simp add: nth_append_right nth_append_left flip: append_Cons)
  finally show ?thesis .
qed

lemma rd_tail_mk_info [info_simps]:
  assumes "length st = length sh"
  shows "rd (mk_info sh st off ews ord) (1 + 2 * int (length sh)) = Some off"
    and "rd (mk_info sh st off ews ord) (2 + 2 * int (length sh)) = Some ews"
    and "rd (mk_info sh st off ews ord) (3 + 2 * int (length sh)) = Some ord"
  using mk_info_last [OF assms, of 3 off ews ord] mk_info_last [OF assms, of 2 off ews ord]
    mk_info_last [OF assms, of 1 off ews ord] assms
  by (simp_all add: rd_def length_mk_info nat_add_distrib nat_mult_distrib numeral_eq_Suc)

lemma shape_tail_mk_info [info_simps]:
  assumes "dims_ok sh st"
  shows "shape_offset (mk_info sh st off ews ord) = Some off"
    and "shape_ews (mk_info sh st off ews ord) = Some ews"
    and "shape_order (mk_info sh st off ews ord) = Some (to_char ord)"
  using assms
  by (simp_all add: shape_offset_def shape_ews_def shape_order_def info_simps dims_ok_def add.commute)

text \<open>Reading and writing the shape and the stride part of a buffer.\<close>

lemma rd_shape_mk_info:
  assumes "k < length sh" "j = 1 + int k"
  shows "rd (mk_info sh st off ews ord) j = Some (sh ! k)"
  using assms by (simp add: rd_def length_mk_info) (simp add: mk_info_def nat_add_distrib nth_append)

lemma rd_stride_mk_info:
  assumes "length st = length sh" "k < length sh" "j = 1 + int (length sh) + int k"
  shows "rd (mk_info sh st off ews ord) j = Some (st ! k)"
  using assms by (simp add: rd_def length_mk_info) (simp add: mk_info_def nat_add_distrib nth_append)

lemma wr_shape_mk_info:
  assumes "k < length sh" "j = 1 + int k"
  shows "wr (mk_info sh st off ews ord) j v = Some (mk_info (sh[k := v]) st off ews ord)"
  using assms
  by (simp add: wr_def length_mk_info) (simp add: mk_info_def nat_add_distrib list_update_append)

lemma wr_stride_mk_info:
  assumes "length st = length sh" "k < length sh" "j = 1 + int (length sh) + int k"
  shows "wr (mk_info sh st off ews ord) j v = Some (mk_info sh (st[k := v]) off ews ord)"
  using assms
  by (simp add: wr_def length_mk_info) (simp add: mk_info_def nat_add_distrib list_update_append)

lemma wr_tail_mk_info:
  assumes "length st = length sh"
  shows "wr (mk_info sh st off ews ord) (1 + 2 * int (length sh)) v = Some (mk_info sh st v ews ord)"
    and "wr (mk_info sh st off ews ord) (2 + 2 * int (length sh)) v = Some (mk_info sh st off v ord)"
    and "wr (mk_info sh st off ews ord) (3 + 2 * int (length sh)) v = Some (mk_info sh st off ews v)"
  using assms
  by (simp_all add: wr_def length_mk_info mk_info_def nat_add_distrib nat_mult_distrib list_update_append
      numeral_3_eq_3 numeral_2_eq_2)

lemma to_char_id [simp]: "- 128 \<le> v \<Longrightarrow> v \<le> 127 \<Longrightarrow> to_char v = v"
  by (simp add: to_char_def)

section \<open>Products and lengths\<close>

lemma shape_prod_eq:
  assumes "n \<le> length ds" "pos_shape (take n ds)" "prod_list (take n ds) \<le> 2147483647"
  shows "shape_prod ds (int n) = Some (prod_list (take n ds))"
proof -
  have "mfor (\<lambda>i p. do { v \<leftarrow> rd ds i; i32 (p * v) }) [0..int n - 1] (prod_list (take 0 ds)) =
        Some (prod_list (take n ds))"
  proof (rule mfor_trace)
    fix k assume k: "k < n"
    have "prod_list (take (Suc k) (take n ds)) \<le> prod_list (take n ds)"
      by (rule prod_take_le [OF assms(2)])
    moreover have "0 < prod_list (take (Suc k) (take n ds))"
      by (intro prod_list_pos pos_shape_take assms)
    ultimately show "rd ds (int k) \<bind> (\<lambda>v. i32 (prod_list (take k ds) * v)) =
        Some (prod_list (take (Suc k) ds))"
      using k assms by (simp add: i32_def prod_take_Suc min_absorb1)
  qed
  then show ?thesis by (simp add: shape_prod_def)
qed

lemma shape_prodLong_eq:
  assumes "n \<le> length ds" "pos_shape (take n ds)" "prod_list (take n ds) \<le> 9223372036854775807"
  shows "shape_prodLong ds (int n) = Some (prod_list (take n ds))"
proof -
  have "mfor (\<lambda>i p. do { v \<leftarrow> rd ds i; i64 (p * v) }) [0..int n - 1] (prod_list (take 0 ds)) =
        Some (prod_list (take n ds))"
  proof (rule mfor_trace)
    fix k assume k: "k < n"
    have "prod_list (take (Suc k) (take n ds)) \<le> prod_list (take n ds)"
      by (rule prod_take_le [OF assms(2)])
    moreover have "0 < prod_list (take (Suc k) (take n ds))"
      by (intro prod_list_pos pos_shape_take assms)
    ultimately show "rd ds (int k) \<bind> (\<lambda>v. i64 (prod_list (take k ds) * v)) =
        Some (prod_list (take (Suc k) ds))"
      using k assms by (simp add: i64_def prod_take_Suc min_absorb1)
  qed
  then show ?thesis by (simp add: shape_prodLong_def)
qed

lemma shape_length_mk_info [info_simps]:
  assumes "pos_shape sh" "prod_list sh \<le> 9223372036854775807"
  shows "shape_length (mk_info sh st off ews ord) = Some (prod_list sh)"
proof -
  consider "sh = []" | d where "sh = [d]" | "2 \<le> length sh"
    by (metis One_nat_def Suc_1 Suc_leI length_0_conv length_Suc_conv less_one linorder_neqE_nat not_less)
  then show ?thesis
  proof cases
    case 3
    then show ?thesis
      using shape_prodLong_eq [of "length sh" "sh @ st @ [off, ews, ord]"] assms
      by (auto simp: shape_length_def info_simps)
  qed (simp_all add: shape_length_def info_simps, simp add: mk_info_def rd_def)
qed

section \<open>Comparison of arrays\<close>

lemma cells_differ_loop:
  assumes "n \<le> length a" "n \<le> length b"
  shows "mret (cells_differ a b) [int i..int n - 1] () =
         Some (if drop i (take n a) = drop i (take n b) then Inr () else Inl False)"
proof -
  have "mret (cells_differ a b) [int i..int n - 1] () =
        Some (if \<exists>x\<in>set [int i..int n - 1]. a ! nat x \<noteq> b ! nat x then Inl False else Inr ())"
    using assms by (intro mret_search) (auto simp: cells_differ_def rd_def)
  moreover have "(\<exists>x\<in>set [int i..int n - 1]. a ! nat x \<noteq> b ! nat x) \<longleftrightarrow>
                 (\<exists>k. i \<le> k \<and> k < n \<and> a ! k \<noteq> b ! k)" (is "?L = ?R")
  proof
    assume ?L
    then obtain x where "int i \<le> x" "x \<le> int n - 1" "a ! nat x \<noteq> b ! nat x" by auto
    then show ?R by (intro exI [of _ "nat x"]) auto
  next
    assume ?R
    then obtain k where "i \<le> k" "k < n" "a ! k \<noteq> b ! k" by blast
    then show ?L by (intro bexI [of _ "int k"]) auto
  qed
  moreover have "drop i (take n a) = drop i (take n b) \<longleftrightarrow>
                 \<not> (\<exists>k. i \<le> k \<and> k < n \<and> a ! k \<noteq> b ! k)"
  proof -
    have "drop i (take n a) = drop i (take n b) \<longleftrightarrow> (\<forall>j < n - i. a ! (i + j) = b ! (i + j))"
      using assms by (simp add: list_eq_iff_nth_eq min_absorb1)
    also have "\<dots> \<longleftrightarrow> (\<forall>k. i \<le> k \<and> k < n \<longrightarrow> a ! k = b ! k)"
    proof (intro iffI allI impI)
      fix k assume all: "\<forall>j<n - i. a ! (i + j) = b ! (i + j)" and k: "i \<le> k \<and> k < n"
      then have "k - i < n - i" by auto
      with all have "a ! (i + (k - i)) = b ! (i + (k - i))" by blast
      with k show "a ! k = b ! k" by simp
    qed simp
    also have "\<dots> \<longleftrightarrow> \<not> (\<exists>k. i \<le> k \<and> k < n \<and> a ! k \<noteq> b ! k)"
      by blast
    finally show ?thesis .
  qed
  ultimately show ?thesis by auto
qed

lemma shapeEquals_eq:
  assumes "n \<le> length a" "m \<le> length b"
  shows "shapeEquals (int n) a (int m) b = Some (n = m \<and> take n a = take n b)"
  using cells_differ_loop [of n a b 0] assms by (auto simp: shapeEquals_def)

lemma strideEquals_eq:
  assumes "n \<le> length a" "m \<le> length b"
  shows "strideEquals (int n) a (int m) b = Some (n = m \<and> take n a = take n b)"
  using cells_differ_loop [of n a b 0] assms by (auto simp: strideEquals_def)

lemma strideEquals_ranks_eq:
  assumes "n \<le> length a" "m \<le> length b"
  shows "strideEquals_ranks a (int n) b (int m) = Some (n = m \<and> take n a = take n b)"
  using cells_differ_loop [of n a b 0] assms by (auto simp: strideEquals_ranks_def)

text \<open>Strict comparison is equality of the buffers, soft comparison of the shapes.\<close>

lemma equalsStrict_mk_info:
  assumes "dims_ok sh st" "dims_ok sh' st'"
  shows "equalsStrict (mk_info sh st off ews ord) (mk_info sh' st' off' ews' ord') =
         Some (if sh = [] \<and> sh' = [] then True
               else mk_info sh st off ews ord = mk_info sh' st' off' ews' ord')"
proof (cases "length sh = length sh' \<and> sh \<noteq> []")
  case True
  let ?A = "mk_info sh st off ews ord" and ?B = "mk_info sh' st' off' ews' ord'"
  have len: "length ?A = 2 * length sh + 4" "length ?B = 2 * length sh + 4"
    using assms True by (auto simp: length_mk_info dims_ok_def)
  have "mret (cells_differ ?A ?B) [int 1..int (2 * length sh + 4) - 1] () =
        Some (if drop 1 ?A = drop 1 ?B then Inr () else Inl False)"
    using cells_differ_loop [of "2 * length sh + 4" ?A ?B 1] len by simp
  moreover have "drop 1 ?A = drop 1 ?B \<longleftrightarrow> ?A = ?B"
    using True by (simp add: mk_info_def)
  ultimately show ?thesis
    using True assms by (auto simp: equalsStrict_def info_simps dims_ok_def)
qed (use assms in \<open>auto simp: equalsStrict_def info_simps, simp_all add: mk_info_def\<close>)

lemma equalsSoft_mk_info:
  assumes "dims_ok sh st" "dims_ok sh' st'"
  shows "equalsSoft (mk_info sh st off ews ord) (mk_info sh' st' off' ews' ord') = Some (sh = sh')"
proof (cases "length sh = length sh' \<and> sh \<noteq> []")
  case True
  let ?A = "mk_info sh st off ews ord" and ?B = "mk_info sh' st' off' ews' ord'"
  have "mret (cells_differ ?A ?B) [int 1..int (Suc (length sh)) - 1] () =
        Some (if drop 1 (take (Suc (length sh)) ?A) = drop 1 (take (Suc (length sh)) ?B)
              then Inr () else Inl False)"
    using cells_differ_loop [of "Suc (length sh)" ?A ?B 1] True by (simp add: length_mk_info)
  moreover have "drop 1 (take (Suc (length sh)) ?A) = drop 1 (take (Suc (length sh)) ?B) \<longleftrightarrow> sh = sh'"
    using True by (simp add: mk_info_def)
  ultimately show ?thesis
    using True by (auto simp: equalsSoft_def info_simps)
qed (auto simp: equalsSoft_def info_simps)

section \<open>Conversions\<close>

lemma toShapeBuffer_tail_eq:
  assumes "dims_ok sh st" "length sh \<le> length xs" "length st \<le> length ys"
    and "take (length sh) xs = sh" "take (length st) ys = st"
    and "length ret = 2 * length sh + 4" "ret ! 0 = int (length sh)"
  shows "toShapeBuffer_tail \<lparr>si_shape = xs, si_stride = ys, si_order = ord,
            si_rank = int (length sh), si_offset = off, si_ews = ews\<rparr> ret =
         Some (mk_info sh st off ews ord)"
proof -
  let ?n = "length sh"
  have n: "length st = ?n" "2 * int ?n + 4 \<le> 2147483647"
    using assms(1) by (auto simp: dims_ok_def)
  obtain r0 rest where ret: "ret = r0 # rest" "r0 = int ?n"
    using assms(6,7) by (cases ret) auto
  have rest: "length rest = 2 * ?n + 3" using assms(6) ret by simp
  have s1: "mfor (\<lambda>i s. rd xs i \<bind> (\<lambda>v. append_cell v s)) [0..int ?n - 1] (ret, 1) =
        Some (r0 # sh @ drop ?n rest, int (1 + ?n))"
    using append_cells_loop [of ?n xs 1 ret] assms n ret by simp
  have s2: "mfor (\<lambda>i s. rd ys i \<bind> (\<lambda>v. append_cell v s)) [0..int ?n - 1]
              (r0 # sh @ drop ?n rest, int (1 + ?n)) =
        Some (r0 # sh @ st @ drop (?n + ?n) rest, int (1 + ?n + ?n))"
  proof -
    have ys: "take ?n ys = st" "?n \<le> length ys"
      using assms(3,5) n(1) by auto
    have "1 + ?n + ?n \<le> length (r0 # sh @ drop ?n rest)" "1 + ?n + ?n \<le> 2147483647"
      using rest n(2) by simp_all
    from append_cells_loop [OF ys(2) this] show ?thesis
      unfolding ys by simp
  qed
  obtain a b c where abc: "drop (?n + ?n) rest = [a, b, c]"
    using list_of_3 [of "drop (?n + ?n) rest"] rest by auto
  have step: "append_cell v (ws @ x # zs, int (length ws)) = Some (ws @ v # zs, int (length (ws @ [v])))"
    if "length ws < 2147483647" for v ws x zs
    using that by (simp add: append_cell_nat)
  have "length (r0 # sh @ st) = 1 + ?n + ?n" using n by simp
  then have "append_cell off (r0 # sh @ st @ [a, b, c], int (1 + ?n + ?n)) =
        Some ((r0 # sh @ st) @ off # [b, c], int (length ((r0 # sh @ st) @ [off])))"
    using step [of "r0 # sh @ st" off a "[b, c]"] n(2) by simp
  moreover have "append_cell ews ((r0 # sh @ st) @ off # [b, c], int (length ((r0 # sh @ st) @ [off]))) =
        Some ((r0 # sh @ st @ [off]) @ ews # [c], int (length ((r0 # sh @ st @ [off]) @ [ews])))"
    using step [of "r0 # sh @ st @ [off]" ews b "[c]"] n by simp
  moreover have "append_cell ord ((r0 # sh @ st @ [off]) @ ews # [c],
                   int (length ((r0 # sh @ st @ [off]) @ [ews]))) =
        Some ((r0 # sh @ st @ [off, ews]) @ [ord], int (length ((r0 # sh @ st @ [off, ews]) @ [ord])))"
    using step [of "r0 # sh @ st @ [off, ews]" ord c "[]"] n by simp
  ultimately show ?thesis
    using s1 s2 by (simp add: toShapeBuffer_tail_def abc ret mk_info_def n(1))
qed

lemma toShapeBuffer_new_eq:
  assumes "dims_ok sh st" "length sh \<le> length xs" "length st \<le> length ys"
    and "take (length sh) xs = sh" "take (length st) ys = st"
  shows "toShapeBuffer_new \<lparr>si_shape = xs, si_stride = ys, si_order = ord,
            si_rank = int (length sh), si_offset = off, si_ews = ews\<rparr> =
         Some (mk_info sh st off ews ord)"
proof -
  have "new_int (2 * int (length sh) + 4) = Some (replicate (2 * length sh + 4) undefined)"
    using new_int_nat [of "2 * length sh + 4"] by simp
  then show ?thesis
    using toShapeBuffer_tail_eq [OF assms, of "(replicate (2 * length sh + 4) undefined)[0 := int (length sh)]" ord off ews]
      assms(1)
    by (simp add: toShapeBuffer_new_def info_simps dims_ok_def wr_def)
qed

lemma toShapeBuffer_eq:
  assumes "dims_ok sh st" "length sh \<le> length xs" "length st \<le> length ys"
    and "take (length sh) xs = sh" "take (length st) ys = st"
    and "length ret = 2 * length sh + 4" "sh \<noteq> []"
  shows "toShapeBuffer \<lparr>si_shape = xs, si_stride = ys, si_order = ord,
            si_rank = int (length sh), si_offset = off, si_ews = ews\<rparr> ret =
         Some (mk_info sh st off ews ord)"
  using toShapeBuffer_tail_eq [OF assms(1-5), of "ret[0 := int (length sh)]" ord off ews] assms
  by (cases ret) (simp_all add: toShapeBuffer_def wr_def rd_def)

lemma infoFromBuffer_mk_info:
  assumes "dims_ok sh st"
  shows "infoFromBuffer (mk_info sh st off ews ord) =
         Some \<lparr>si_shape = sh @ st @ [off, ews, ord], si_stride = st @ [off, ews, ord],
               si_order = to_char ord, si_rank = int (length sh), si_offset = off, si_ews = ews\<rparr>"
proof -
  have "ptr (mk_info sh st off ews ord) 1 = Some (sh @ st @ [off, ews, ord])"
    using shapeOf_mk_info by (simp add: shapeOf_def)
  then show ?thesis
    using assms
    by (simp add: infoFromBuffer_def info_simps dims_ok_def ptr_stride_mk_info i32_def add.commute)
qed

section \<open>Edge cases\<close>

text \<open>\<open>isMatrix\<close> of a rank one shape longer than one reads the second dimension, which is not there.\<close>

lemma isMatrix_rank_one: "isMatrix [5] 1 = None"
  by code_simp

text \<open>The two overloads of \<open>createScalarShapeInfo\<close> disagree on the rank of a scalar, and the two of
  \<open>toShapeBuffer\<close> on the buffer of rank 0.\<close>

lemma createScalarShapeInfo_ranks:
  "createScalarShapeInfo_new \<bind> shape_rank = Some 1"
  "createScalarShapeInfo (replicate 8 0) \<bind> shape_rank = Some 2"
  by code_simp+

lemma toShapeBuffer_rank_zero:
  "toShapeBuffer_new \<lparr>si_shape = [], si_stride = [], si_order = 102, si_rank = 0, si_offset = 5, si_ews = 2\<rparr> =
     Some [0, 5, 2, 102]"
  "toShapeBuffer \<lparr>si_shape = [], si_stride = [], si_order = 102, si_rank = 0, si_offset = 5, si_ews = 2\<rparr>
     (replicate 4 0) = Some [0, 0, 1, 99]"
  by code_simp+

section \<open>Properties\<close>

text \<open>C38: Writing a \<open>ShapeInformation\<close> to a buffer and reading it back gives its rank, shape,
  strides, offset, element-wise stride and order (the order narrowed to \<open>char\<close>).\<close>

theorem toShapeBuffer_roundtrip:
  assumes "dims_ok sh st"
  shows "do { b \<leftarrow> toShapeBuffer_new \<lparr>si_shape = sh, si_stride = st, si_order = ord,
                si_rank = int (length sh), si_offset = off, si_ews = ews\<rparr>;
              i \<leftarrow> infoFromBuffer b;
              Some (si_rank i, take (length sh) (si_shape i), take (length sh) (si_stride i),
                    si_offset i, si_ews i, si_order i) } =
         Some (int (length sh), sh, st, off, ews, to_char ord)"
  using toShapeBuffer_new_eq [OF assms, of sh st ord off ews] infoFromBuffer_mk_info [OF assms] assms
  by (simp add: dims_ok_def)

theorem toShapeBuffer_roundtrip_witness:
  "do { b \<leftarrow> toShapeBuffer_new \<lparr>si_shape = [2, 3], si_stride = [3, 1], si_order = 99,
                si_rank = 2, si_offset = 7, si_ews = 1\<rparr>;
        i \<leftarrow> infoFromBuffer b;
        Some (si_rank i, take 2 (si_shape i), take 2 (si_stride i), si_offset i, si_ews i, si_order i) } =
   Some (2, [2, 3], [3, 1], 7, 1, 99)"
  using toShapeBuffer_roundtrip [of "[2, 3]" "[3, 1]" 99 7 1] by (simp add: dims_ok_def numeral_2_eq_2)

text \<open>\<open>equalsSoft\<close> decides equality of the shapes; \<open>equalsStrict\<close> decides equality of the
  whole buffers, except that all scalars are equal to each other.\<close>

theorem equals_soft_strict:
  assumes "dims_ok sh st" "dims_ok sh' st'"
  shows "equalsSoft (mk_info sh st off ews ord) (mk_info sh' st' off' ews' ord') = Some (sh = sh') \<and>
         equalsStrict (mk_info sh st off ews ord) (mk_info sh' st' off' ews' ord') =
           Some (sh = [] \<and> sh' = [] \<or> mk_info sh st off ews ord = mk_info sh' st' off' ews' ord')"
  using equalsSoft_mk_info [OF assms] equalsStrict_mk_info [OF assms] by auto

theorem equals_soft_strict_witness:
  "equalsSoft (mk_info [2, 3] [3, 1] 0 1 99) (mk_info [2, 3] [1, 2] 0 1 102) = Some True \<and>
   equalsStrict (mk_info [2, 3] [3, 1] 0 1 99) (mk_info [2, 3] [1, 2] 0 1 102) = Some False"
  using equals_soft_strict [of "[2, 3]" "[3, 1]" "[2, 3]" "[1, 2]" 0 1 99 0 1 102]
  by (simp add: dims_ok_def mk_info_def)

end
