(* ===== verification/Strides.thy ===== *)
theory Strides
  imports ShapeInfo
begin

text \<open>
  The stride computations of \<open>include/helpers/shape.h\<close>: \<open>calcStrides\<close> (C order),
  \<open>calcStridesFortran\<close> and \<open>updateStrides\<close>, with the row-major and column-major
  strides they are meant to compute.
\<close>

section \<open>The code\<close>

definition strides_up :: "int list \<Rightarrow> int \<Rightarrow> int \<Rightarrow> int list \<Rightarrow> int list option" where
  "strides_up shp rnk startNum ret = do {
     (ret, st) \<leftarrow> mfor (\<lambda>j (ret, st). do {
         ret \<leftarrow> wr ret j st;
         d \<leftarrow> rd shp j;
         st \<leftarrow> i32 (st * d);
         Some (ret, st) }) [0..rnk - 1] (ret, startNum);
     Some ret }"

definition strides_down :: "int list \<Rightarrow> int \<Rightarrow> int \<Rightarrow> int list \<Rightarrow> int list option" where
  "strides_down shp rnk startNum ret = do {
     (ret, st) \<leftarrow> mfor (\<lambda>j (ret, st). do {
         ret \<leftarrow> wr ret j st;
         d \<leftarrow> rd shp j;
         st \<leftarrow> i32 (st * d);
         Some (ret, st) }) (rev [0..rnk - 1]) (ret, startNum);
     Some ret }"

definition calcStridesFortran_new :: "int list \<Rightarrow> int \<Rightarrow> int \<Rightarrow> int list option" where
  "calcStridesFortran_new shp rnk startNum = do {
     v \<leftarrow> isVector shp rnk;
     if v \<noteq> 0 then do {
       ret \<leftarrow> new_int 2;
       mfor (\<lambda>i ret. wr ret i 1) [0..2 - 1] ret }
     else do {
       stride \<leftarrow> new_int rnk;
       strides_up shp rnk startNum stride } }"

definition calcStridesFortran :: "int list \<Rightarrow> int \<Rightarrow> int \<Rightarrow> int list \<Rightarrow> int list option" where
  "calcStridesFortran shp rnk startNum ret = do {
     v \<leftarrow> isVector shp rnk;
     if v \<noteq> 0 then mfor (\<lambda>i ret. wr ret i 1) [0..2 - 1] ret
     else strides_up shp rnk startNum ret }"

definition calcStrides_new :: "int list \<Rightarrow> int \<Rightarrow> int \<Rightarrow> int list option" where
  "calcStrides_new shp rnk startNum = do {
     stride \<leftarrow> new_int rnk;
     if rnk = 1 then wr stride 0 1
     else do {
       v \<leftarrow> isVector shp rnk;
       if v \<noteq> 0 then mfor (\<lambda>i stride. wr stride i 1) [0..2 - 1] stride
       else strides_down shp rnk startNum stride } }"

definition calcStrides :: "int list \<Rightarrow> int \<Rightarrow> int \<Rightarrow> int list \<Rightarrow> int list option" where
  "calcStrides shp rnk startNum ret =
     (if rnk = 1 then wr ret 0 1
      else do {
        v \<leftarrow> isVector shp rnk;
        if v \<noteq> 0 then mfor (\<lambda>i ret. wr ret i 1) [0..2 - 1] ret
        else strides_down shp rnk startNum ret })"

text \<open>The overloads without \<open>startNum\<close>.\<close>

definition calcStridesFortran1_new :: "int list \<Rightarrow> int \<Rightarrow> int list option" where
  "calcStridesFortran1_new shp rnk = calcStridesFortran_new shp rnk 1"

definition calcStridesFortran1 :: "int list \<Rightarrow> int \<Rightarrow> int list \<Rightarrow> int list option" where
  "calcStridesFortran1 shp rnk ret = calcStridesFortran shp rnk 1 ret"

definition calcStrides1_new :: "int list \<Rightarrow> int \<Rightarrow> int list option" where
  "calcStrides1_new shp rnk = calcStrides_new shp rnk 1"

definition calcStrides1 :: "int list \<Rightarrow> int \<Rightarrow> int list \<Rightarrow> int list option" where
  "calcStrides1 shp rnk ret = calcStrides shp rnk 1 ret"

text \<open>Characters: \<open>'c' = 99\<close>, \<open>'f' = 102\<close>, \<open>'a' = 97\<close>.\<close>

definition updateStrides :: "int list \<Rightarrow> int \<Rightarrow> int list option" where
  "updateStrides shp ord = do {
     rnk \<leftarrow> rd shp 0;
     doubleRank \<leftarrow> i32 (2 * rnk);
     shp \<leftarrow> (if rnk > 0 then
         (if ord = 99 then do {
            shp \<leftarrow> wr shp doubleRank 1;
            mfor (\<lambda>j shp. do {
                a \<leftarrow> rd shp (doubleRank - j + 1);
                b \<leftarrow> rd shp (rnk + 1 - j);
                p \<leftarrow> i32 (a * b);
                wr shp (doubleRank - j) p }) [1..rnk - 1] shp }
          else do {
            shp \<leftarrow> wr shp (rnk + 1) 1;
            mfor (\<lambda>j shp. do {
                a \<leftarrow> rd shp j;
                b \<leftarrow> rd shp (j - rnk);
                p \<leftarrow> i32 (a * b);
                wr shp (j + 1) p }) [rnk + 1..doubleRank - 1] shp })
       else Some shp);
     shp \<leftarrow> wr shp (doubleRank + 1) 0;
     shp \<leftarrow> wr shp (doubleRank + 2) 1;
     wr shp (doubleRank + 3) ord }"

section \<open>Row-major and column-major strides\<close>

fun c_strides :: "int list \<Rightarrow> int list" where
  "c_strides [] = []"
| "c_strides (d # ds) = prod_list ds # c_strides ds"

definition f_strides :: "int list \<Rightarrow> int list" where
  "f_strides ds = map (\<lambda>k. prod_list (take k ds)) [0..<length ds]"

lemma length_c_strides [simp]: "length (c_strides ds) = length ds"
  by (induction ds) auto

lemma length_f_strides [simp]: "length (f_strides ds) = length ds"
  by (simp add: f_strides_def)

lemma nth_c_strides: "k < length ds \<Longrightarrow> c_strides ds ! k = prod_list (drop (Suc k) ds)"
  by (induction ds arbitrary: k) (auto simp: nth_Cons' less_Suc_eq_0_disj)

lemma nth_f_strides: "k < length ds \<Longrightarrow> f_strides ds ! k = prod_list (take k ds)"
  by (simp add: f_strides_def)

lemma c_strides_Suc:
  "Suc k < length ds \<Longrightarrow> c_strides ds ! k = ds ! Suc k * c_strides ds ! Suc k"
  by (simp add: nth_c_strides prod_drop_Suc)

lemma f_strides_Suc:
  "Suc k < length ds \<Longrightarrow> f_strides ds ! Suc k = f_strides ds ! k * ds ! k"
  by (simp add: nth_f_strides prod_take_Suc)

text \<open>
  The code answers \<open>1\<close> for both strides of a row vector (and of a column vector), where
  the formula gives the length for the axis of size one.
\<close>

definition c_vec :: "int list \<Rightarrow> bool" where
  "c_vec ds \<longleftrightarrow> length ds = 2 \<and> ds ! 0 = 1"

definition f_vec :: "int list \<Rightarrow> bool" where
  "f_vec ds \<longleftrightarrow> length ds = 2 \<and> ds ! 1 = 1"

definition code_c_strides :: "int list \<Rightarrow> int list" where
  "code_c_strides ds = (if c_vec ds then [1, 1] else c_strides ds)"

definition code_f_strides :: "int list \<Rightarrow> int list" where
  "code_f_strides ds = (if f_vec ds then [1, 1] else f_strides ds)"

lemma length_code_strides [simp]:
  "length (code_c_strides ds) = length ds" "length (code_f_strides ds) = length ds"
  by (auto simp: code_c_strides_def c_vec_def code_f_strides_def f_vec_def)

section \<open>Correctness of the stride computations\<close>

lemma strides_up_eq:
  assumes "n = length sh" "n \<le> length shp" "take n shp = sh" "n \<le> length ret"
    and "pos_shape sh" "prod_list sh \<le> 2147483647"
  shows "strides_up shp (int n) 1 ret = Some (f_strides sh @ drop n ret)"
proof -
  define ys where "ys = f_strides sh @ drop n ret"
  have ys: "length ys = length ret" "\<And>k. k < n \<Longrightarrow> ys ! k = prod_list (take k sh)"
    using assms by (auto simp: ys_def nth_append nth_f_strides)
  define g where "g k = (take k ys @ drop k ret, prod_list (take k sh))" for k
  let ?f = "\<lambda>j (ret, st). do { ret \<leftarrow> wr ret j st; d \<leftarrow> rd shp j; st \<leftarrow> i32 (st * d); Some (ret, st) }"
  have "mfor ?f [0..int n - 1] (g 0) = Some (g n)"
  proof (rule mfor_trace)
    fix k assume k: "k < n"
    have d: "shp ! k = sh ! k" using assms k by (metis nth_take)
    have p: "prod_list (take k sh) * sh ! k = prod_list (take (Suc k) sh)"
      using k assms by (simp add: prod_take_Suc)
    have "prod_list (take (Suc k) sh) \<le> 2147483647" "0 < prod_list (take (Suc k) sh)"
      using prod_take_le [OF assms(5), of "Suc k"] prod_list_pos [OF pos_shape_take [OF assms(5)]] assms(6)
      by (auto intro: order_trans)
    moreover have "(take k ys @ drop k ret)[k := prod_list (take k sh)] = take (Suc k) ys @ drop (Suc k) ret"
      using fill_up_step [of ys ret k] ys k assms(4) by simp
    ultimately show "?f (int k) (g k) = Some (g (Suc k))"
      using k assms ys by (simp add: g_def wr_def rd_def d p i32_def)
  qed
  moreover have "g n = (ys, prod_list sh)" "g 0 = (ret, 1)"
    using assms ys by (simp_all add: g_def ys_def)
  ultimately show ?thesis
    by (simp add: strides_up_def ys_def)
qed

lemma strides_down_eq:
  assumes "n = length sh" "n \<le> length shp" "take n shp = sh" "n \<le> length ret"
    and "pos_shape sh" "prod_list sh \<le> 2147483647"
  shows "strides_down shp (int n) 1 ret = Some (c_strides sh @ drop n ret)"
proof -
  define ys where "ys = c_strides sh @ drop n ret"
  have ys: "length ys = length ret" "\<And>k. k < n \<Longrightarrow> ys ! k = prod_list (drop (Suc k) sh)"
    using assms by (auto simp: ys_def nth_append nth_c_strides)
  define g where "g k = (take k ret @ drop k ys, prod_list (drop k sh))" for k
  let ?f = "\<lambda>j (ret, st). do { ret \<leftarrow> wr ret j st; d \<leftarrow> rd shp j; st \<leftarrow> i32 (st * d); Some (ret, st) }"
  have "mfor ?f (rev [0..int n - 1]) (g n) = Some (g 0)"
  proof (rule mfor_trace_down)
    fix k assume k: "k < n"
    have d: "shp ! k = sh ! k" using assms k by (metis nth_take)
    have p: "prod_list (drop (Suc k) sh) * sh ! k = prod_list (drop k sh)"
      using k assms by (simp add: prod_drop_Suc)
    have "prod_list (drop k sh) \<le> 2147483647" "0 < prod_list (drop k sh)"
      using prod_drop_le [OF assms(5), of k] prod_list_pos [OF pos_shape_drop [OF assms(5)]] assms(6)
      by (auto intro: order_trans)
    moreover have "(take (Suc k) ret @ drop (Suc k) ys)[k := prod_list (drop (Suc k) sh)] =
        take k ret @ drop k ys"
      using fill_down_step [of ys ret k] ys k assms(4) by simp
    ultimately show "?f (int k) (g (Suc k)) = Some (g k)"
      using k assms ys by (simp add: g_def wr_def rd_def d p i32_def)
  qed
  moreover have "g n = (ret, 1)" "g 0 = (ys, prod_list sh)"
    using assms ys by (simp_all add: g_def ys_def)
  ultimately show ?thesis
    by (simp add: strides_down_def ys_def)
qed

lemma isVector_eq:
  assumes "n = length sh" "n \<le> length shp" "take n shp = sh"
  shows "isVector shp (int n) = Some (if n = 1 \<or> n = 2 \<and> (sh ! 0 = 1 \<or> sh ! 1 = 1) then 1 else 0)"
proof -
  have "k < n \<Longrightarrow> rd shp (int k) = Some (sh ! k)" for k
    using assms by (metis less_le_trans nth_take rd_nat)
  from this [of 0] this [of 1] show ?thesis
    by (auto simp: isVector_def numeral_2_eq_2)
qed

lemma list_of_1: "length xs = 1 \<Longrightarrow> \<exists>a. xs = [a]"
  by (auto simp: length_Suc_conv)

lemma list_of_2: "length xs = 2 \<Longrightarrow> \<exists>a b. xs = [a, b]"
  by (auto simp: numeral_2_eq_2 length_Suc_conv)

lemma ones_loop:
  assumes "2 \<le> length ret"
  shows "mfor (\<lambda>i ret. wr ret i 1) [0..2 - 1] ret = Some ([1, 1] @ drop 2 ret)"
proof -
  obtain a b r where "ret = a # b # r"
    using assms by (metis Suc_le_length_iff numeral_2_eq_2)
  then show ?thesis by (simp add: upto.simps wr_def)
qed

text \<open>The strides of a vector: all ones, as both formulas give outside the unit axis.\<close>

lemma code_c_strides_vec:
  assumes "length sh = 2" "sh ! 0 = 1 \<or> sh ! 1 = 1"
  shows "code_c_strides sh = [1, 1]"
  using assms list_of_2 [OF assms(1)] by (auto simp: code_c_strides_def c_vec_def)

lemma code_f_strides_vec:
  assumes "length sh = 2" "sh ! 0 = 1 \<or> sh ! 1 = 1"
  shows "code_f_strides sh = [1, 1]"
  using assms list_of_2 [OF assms(1)]
  by (auto simp: code_f_strides_def f_vec_def f_strides_def upt_rec)

lemma calcStrides_eq:
  assumes "n = length sh" "n \<le> length shp" "take n shp = sh" "n \<le> length ret"
    and "pos_shape sh" "prod_list sh \<le> 2147483647"
  shows "calcStrides shp (int n) 1 ret = Some (code_c_strides sh @ drop n ret)"
proof -
  consider "n = 1" | "n = 2" "sh ! 0 = 1 \<or> sh ! 1 = 1" | "n \<noteq> 1" "\<not> (n = 2 \<and> (sh ! 0 = 1 \<or> sh ! 1 = 1))"
    by blast
  then show ?thesis
  proof cases
    case 1
    obtain d where "sh = [d]" using list_of_1 1 assms(1) by metis
    moreover obtain r0 r where "ret = r0 # r" using assms(4) 1 by (cases ret) auto
    ultimately show ?thesis
      using 1 by (simp add: calcStrides_def code_c_strides_def c_vec_def wr_def)
  next
    case 2
    then show ?thesis
      using isVector_eq [OF assms(1-3)] ones_loop [of ret] assms code_c_strides_vec [of sh]
      by (simp add: calcStrides_def)
  next
    case 3
    then have "\<not> c_vec sh" using assms by (auto simp: c_vec_def)
    then show ?thesis
      using 3 isVector_eq [OF assms(1-3)] strides_down_eq [OF assms]
      by (auto simp: calcStrides_def code_c_strides_def)
  qed
qed

lemma calcStrides_new_eq:
  assumes "n = length sh" "n \<le> length shp" "take n shp = sh"
    and "pos_shape sh" "prod_list sh \<le> 2147483647"
  shows "calcStrides_new shp (int n) 1 = Some (code_c_strides sh)"
  using calcStrides_eq [OF assms(1-3), of "replicate n undefined"] assms
  by (simp add: calcStrides_new_def calcStrides_def)

lemma calcStridesFortran_eq:
  assumes "n = length sh" "n \<le> length shp" "take n shp = sh" "n \<le> length ret"
    and "pos_shape sh" "prod_list sh \<le> 2147483647" "n \<noteq> 1"
  shows "calcStridesFortran shp (int n) 1 ret = Some (code_f_strides sh @ drop n ret)"
proof (cases "n = 2 \<and> (sh ! 0 = 1 \<or> sh ! 1 = 1)")
  case True
  then show ?thesis
    using isVector_eq [OF assms(1-3)] ones_loop [of ret] assms code_f_strides_vec [of sh]
    by (simp add: calcStridesFortran_def)
next
  case False
  then have "\<not> f_vec sh" using assms by (auto simp: f_vec_def)
  then show ?thesis
    using False assms(7) isVector_eq [OF assms(1-3)] strides_up_eq [OF assms(1-6)]
    by (auto simp: calcStridesFortran_def code_f_strides_def)
qed

text \<open>The allocating overload answers two strides for a rank one shape.\<close>

lemma calcStridesFortran_new_eq:
  assumes "n = length sh" "n \<le> length shp" "take n shp = sh"
    and "pos_shape sh" "prod_list sh \<le> 2147483647"
  shows "calcStridesFortran_new shp (int n) 1 = Some (if n = 1 then [1, 1] else code_f_strides sh)"
proof (cases "n = 1 \<or> n = 2 \<and> (sh ! 0 = 1 \<or> sh ! 1 = 1)")
  case True
  have "new_int 2 = Some [undefined, undefined]"
    by (simp add: new_int_def numeral_2_eq_2)
  then show ?thesis
    using True isVector_eq [OF assms(1-3)] ones_loop [of "[undefined, undefined]"] assms
      code_f_strides_vec [of sh]
    by (auto simp: calcStridesFortran_new_def)
next
  case False
  then have "\<not> f_vec sh" using assms by (auto simp: f_vec_def)
  then show ?thesis
    using False isVector_eq [OF assms(1-3)] strides_up_eq [OF assms(1-3), of "replicate n undefined"] assms
    by (auto simp: calcStridesFortran_new_def code_f_strides_def)
qed

section \<open>Updating the strides of a buffer\<close>

lemma updateStrides_c:
  assumes "dims_ok sh st" "pos_shape sh" "prod_list sh \<le> 2147483647"
  shows "updateStrides (mk_info sh st off ews ord) 99 = Some (mk_info sh (c_strides sh) 0 1 99)"
proof (cases "sh = []")
  case True
  then show ?thesis
    using assms by (simp add: updateStrides_def mk_info_def rd_def wr_def i32_def dims_ok_def numeral_eq_Suc)
next
  case False
  define n where "n = length sh"
  have n: "0 < n" "length st = n" "2 * int n + 4 \<le> 2147483647"
    using False assms(1) by (auto simp: n_def dims_ok_def)
  let ?cs = "c_strides sh"
  have cs: "length ?cs = n" by (simp add: n_def)
  let ?f = "\<lambda>j b. do { x \<leftarrow> rd b (2 * int n - j + 1); y \<leftarrow> rd b (int n + 1 - j); p \<leftarrow> i32 (x * y); wr b (2 * int n - j) p }"
  define g where "g k = mk_info sh (take (n - 1 - k) st @ drop (n - 1 - k) ?cs) off ews ord" for k
  have start: "wr (mk_info sh st off ews ord) (2 * int n) 1 = Some (g 0)"
  proof -
    have "st[n - 1 := 1] = take (n - 1) st @ drop (n - 1) ?cs"
      using fill_down_step [of ?cs st "n - 1"] n cs nth_c_strides [of "n - 1" sh] by (simp add: n_def)
    then show ?thesis
      using wr_stride_mk_info [of st sh "n - 1" "2 * int n"] n by (simp add: g_def n_def of_nat_diff)
  qed
  have loop: "mfor ?f [1..1 + int (n - 1) - 1] (g 0) = Some (g (n - 1))"
  proof (rule mfor_trace_from)
    fix k assume k: "k < n - 1"
    define i where "i = n - 1 - Suc k"
    have i: "Suc i < n" "n - 1 - k = Suc i" "int n = int i + int k + 2" "length sh - Suc (Suc k) = i"
      using k by (auto simp: i_def n_def)
    let ?s = "take (Suc i) st @ drop (Suc i) ?cs"
    have ls: "length ?s = length sh" using n cs i by (simp add: n_def)
    have "rd (g k) (2 * int n - (1 + int k) + 1) = Some (?cs ! Suc i)"
      using rd_stride_mk_info [OF ls, of "Suc i"] i n
      by (simp add: g_def n_def nth_append)
    moreover have "rd (g k) (int n + 1 - (1 + int k)) = Some (sh ! Suc i)"
      using rd_shape_mk_info [of "Suc i" sh] i by (simp add: g_def n_def)
    moreover have "?cs ! Suc i * sh ! Suc i = ?cs ! i"
      using c_strides_Suc [of i sh] i by (simp add: n_def)
    moreover have "0 < ?cs ! i" "?cs ! i \<le> 2147483647"
      using i prod_list_pos [OF pos_shape_drop [OF assms(2)]] prod_drop_le [OF assms(2), of "Suc i"] assms(3)
      by (auto simp: nth_c_strides n_def intro: order_trans)
    moreover have "wr (g k) (2 * int n - (1 + int k)) (?cs ! i) = Some (g (Suc k))"
    proof -
      have "?s[i := ?cs ! i] = take i st @ drop i ?cs"
        using fill_down_step [of ?cs st i] i n cs by simp
      then show ?thesis
        using wr_stride_mk_info [OF ls, of i "2 * int n - (1 + int k)"] i n
        by (simp add: g_def n_def)
    qed
    ultimately show "?f (1 + int k) (g k) = Some (g (Suc k))"
      by (simp add: i32_def)
  qed
  have fin: "g (n - 1) = mk_info sh ?cs off ews ord" by (simp add: g_def)
  have tail: "wr (mk_info sh ?cs off ews ord) (2 * int n + 1) 0 = Some (mk_info sh ?cs 0 ews ord)"
    "wr (mk_info sh ?cs 0 ews ord) (2 * int n + 2) 1 = Some (mk_info sh ?cs 0 1 ord)"
    "wr (mk_info sh ?cs 0 1 ord) (2 * int n + 3) 99 = Some (mk_info sh ?cs 0 1 99)"
    using wr_tail_mk_info [of ?cs sh] by (simp_all add: n_def add.commute)
  show ?thesis
    using n start loop fin tail
    by (simp add: updateStrides_def info_simps n_def [symmetric] i32_def of_nat_diff)
qed

lemma updateStrides_f:
  assumes "dims_ok sh st" "pos_shape sh" "prod_list sh \<le> 2147483647" "ord \<noteq> 99"
  shows "updateStrides (mk_info sh st off ews ord0) ord = Some (mk_info sh (f_strides sh) 0 1 ord)"
proof (cases "sh = []")
  case True
  then show ?thesis
    using assms
    by (simp add: updateStrides_def mk_info_def rd_def wr_def i32_def dims_ok_def numeral_eq_Suc f_strides_def)
next
  case False
  define n where "n = length sh"
  have n: "0 < n" "length st = n" "2 * int n + 4 \<le> 2147483647"
    using False assms(1) by (auto simp: n_def dims_ok_def)
  let ?fs = "f_strides sh"
  have fs: "length ?fs = n" by (simp add: n_def)
  let ?f = "\<lambda>j b. do { x \<leftarrow> rd b j; y \<leftarrow> rd b (j - int n); p \<leftarrow> i32 (x * y); wr b (j + 1) p }"
  define g where "g k = mk_info sh (take (Suc k) ?fs @ drop (Suc k) st) off ews ord0" for k
  have start: "wr (mk_info sh st off ews ord0) (int n + 1) 1 = Some (g 0)"
  proof -
    have "st[0 := 1] = take (Suc 0) ?fs @ drop (Suc 0) st"
      using fill_up_step [of ?fs st 0] n fs nth_f_strides [of 0 sh] by (simp add: n_def)
    then show ?thesis
      using wr_stride_mk_info [of st sh 0 "int n + 1"] n by (simp add: g_def n_def)
  qed
  have loop: "mfor ?f [int n + 1..int n + 1 + int (n - 1) - 1] (g 0) = Some (g (n - 1))"
  proof (rule mfor_trace_from)
    fix k assume k: "k < n - 1"
    let ?s = "take (Suc k) ?fs @ drop (Suc k) st"
    have ls: "length ?s = length sh" using n fs k by (simp add: n_def)
    have k': "Suc k < n" using k by simp
    have "rd (g k) (int n + 1 + int k) = Some (?fs ! k)"
      using rd_stride_mk_info [OF ls, of k "int n + 1 + int k"] k' n by (simp add: g_def n_def nth_append)
    moreover have "rd (g k) (int n + 1 + int k - int n) = Some (sh ! k)"
      using rd_shape_mk_info [of k sh] k' by (simp add: g_def n_def)
    moreover have "?fs ! k * sh ! k = ?fs ! Suc k"
      using f_strides_Suc [of k sh] k' by (simp add: n_def)
    moreover have "0 < ?fs ! Suc k" "?fs ! Suc k \<le> 2147483647"
      using k' prod_list_pos [OF pos_shape_take [OF assms(2)]] prod_take_le [OF assms(2), of "Suc k"] assms(3)
      by (auto simp: nth_f_strides n_def intro: order_trans)
    moreover have "wr (g k) (int n + 1 + int k + 1) (?fs ! Suc k) = Some (g (Suc k))"
    proof -
      have "?s[Suc k := ?fs ! Suc k] = take (Suc (Suc k)) ?fs @ drop (Suc (Suc k)) st"
        using fill_up_step [of ?fs st "Suc k"] k' n fs by simp
      then show ?thesis
        using wr_stride_mk_info [OF ls, of "Suc k" "int n + 1 + int k + 1"] k' n
        by (simp add: g_def n_def)
    qed
    ultimately show "?f (int n + 1 + int k) (g k) = Some (g (Suc k))"
      by (simp add: i32_def)
  qed
  have fin: "g (n - 1) = mk_info sh ?fs off ews ord0" using n fs by (simp add: g_def)
  have tail: "wr (mk_info sh ?fs off ews ord0) (2 * int n + 1) 0 = Some (mk_info sh ?fs 0 ews ord0)"
    "wr (mk_info sh ?fs 0 ews ord0) (2 * int n + 2) 1 = Some (mk_info sh ?fs 0 1 ord0)"
    "wr (mk_info sh ?fs 0 1 ord0) (2 * int n + 3) ord = Some (mk_info sh ?fs 0 1 ord)"
    using wr_tail_mk_info [of ?fs sh] by (simp_all add: n_def add.commute)
  show ?thesis
    using n start loop fin tail assms(4)
    by (simp add: updateStrides_def info_simps n_def [symmetric] i32_def of_nat_diff)
qed

section \<open>Properties\<close>

lemma nth_code_strides:
  assumes "k < length sh" "sh ! k \<noteq> 1" "pos_shape sh"
  shows "code_c_strides sh ! k = prod_list (drop (Suc k) sh)"
    and "code_f_strides sh ! k = prod_list (take k sh)"
proof -
  have "k = 1" if "c_vec sh" using assms that by (auto simp: c_vec_def less_2_cases_iff)
  then show "code_c_strides sh ! k = prod_list (drop (Suc k) sh)"
    using assms by (auto simp: code_c_strides_def nth_c_strides c_vec_def)
  have "k = 0" if "f_vec sh" using assms that by (auto simp: f_vec_def less_2_cases_iff)
  then show "code_f_strides sh ! k = prod_list (take k sh)"
    using assms by (auto simp: code_f_strides_def nth_f_strides f_vec_def)
qed

text \<open>The stride computations never overflow or leave their arrays on a shape whose length fits
  an \<open>int\<close>, and on every axis longer than one they give the distance of row-major
  (\<open>calcStrides\<close>) and column-major (\<open>calcStridesFortran\<close>) neighbours.\<close>

theorem calcStrides_row_column_major:
  assumes "pos_shape sh" "prod_list sh \<le> 2147483647" "2 \<le> length sh"
  shows "\<exists>c f. calcStrides1_new sh (int (length sh)) = Some c \<and> length c = length sh \<and>
           calcStridesFortran1_new sh (int (length sh)) = Some f \<and> length f = length sh \<and>
           (\<forall>k<length sh. sh ! k \<noteq> 1 \<longrightarrow>
              c ! k = prod_list (drop (Suc k) sh) \<and> f ! k = prod_list (take k sh))"
  using calcStrides_new_eq [of "length sh" sh sh] calcStridesFortran_new_eq [of "length sh" sh sh] assms
  by (simp add: calcStrides1_new_def calcStridesFortran1_new_def nth_code_strides)

theorem calcStrides_row_column_major_witness:
  "\<exists>c f. calcStrides1_new [2, 3, 4] 3 = Some c \<and> length c = 3 \<and>
     calcStridesFortran1_new [2, 3, 4] 3 = Some f \<and> length f = 3 \<and>
     c ! 0 = 12 \<and> f ! 2 = 6"
  using calcStrides_row_column_major [of "[2, 3, 4]"]
  by (auto simp: numeral_3_eq_3 numeral_2_eq_2 less_Suc_eq all_conj_distrib intro: exI)

text \<open>\<open>updateStrides\<close> turns any well-formed buffer into the contiguous one of the given
  order: row-major strides for 'c', column-major ones otherwise, offset 0, element-wise
  stride 1 and the order, with the shape unchanged.\<close>

theorem updateStrides_contiguous:
  assumes "dims_ok sh st" "pos_shape sh" "prod_list sh \<le> 2147483647"
  shows "updateStrides (mk_info sh st off ews ord) ord' =
         Some (mk_info sh (if ord' = 99 then c_strides sh else f_strides sh) 0 1 ord')"
  using updateStrides_c [OF assms] updateStrides_f [OF assms] by simp

theorem updateStrides_contiguous_witness:
  "updateStrides (mk_info [2, 3, 4] [0, 0, 0] 5 (- 1) 99) 102 = Some [3, 2, 3, 4, 1, 2, 6, 0, 1, 102]"
  using updateStrides_contiguous [of "[2, 3, 4]" "[0, 0, 0]" 5 "- 1" 99 102]
  by (simp add: dims_ok_def mk_info_def f_strides_def upt_rec)

end
