(* ===== verification/Indexing.thy ===== *)
theory Indexing
  imports Strides
begin

text \<open>
  Linear indices and coordinates (\<open>include/helpers/shape.h\<close>): \<open>ind2sub\<close> (column-major),
  \<open>ind2subC\<close> (row-major), \<open>sub2Ind\<close>, \<open>getOffset\<close> and \<open>computeIndices\<close>. The locale
  \<open>linear_indexing\<close> is the contract of a coordinate scheme; both orders of the code
  satisfy it.
\<close>

section \<open>The code\<close>

definition sub2Ind :: "int \<Rightarrow> int list \<Rightarrow> int list \<Rightarrow> int option" where
  "sub2Ind rnk shp indices = do {
     (index, shift) \<leftarrow> mfor (\<lambda>i (index, shift). do {
         x \<leftarrow> rd indices i;
         t \<leftarrow> i32 (shift * x);
         index \<leftarrow> i32 (index + t);
         d \<leftarrow> rd shp i;
         shift \<leftarrow> i32 (shift * d);
         Some (index, shift) }) [0..rnk - 1] (0, 1);
     Some index }"

definition shape_fill :: "'a list \<Rightarrow> 'a \<Rightarrow> int \<Rightarrow> 'a list option" where
  "shape_fill buffer v len = mfor (\<lambda>e buffer. wr buffer e v) [0..len - 1] buffer"

definition ind2sub :: "int \<Rightarrow> int list \<Rightarrow> int \<Rightarrow> int \<Rightarrow> int list \<Rightarrow> int list option" where
  "ind2sub rnk shp index numIndices ret = do {
     (denom, index, ret) \<leftarrow> mfor (\<lambda>i (denom, index, ret). do {
         d \<leftarrow> rd shp i;
         denom \<leftarrow> div32 denom d;
         q \<leftarrow> div32 index denom;
         ret \<leftarrow> wr ret i q;
         index \<leftarrow> mod32 index denom;
         Some (denom, index, ret) }) (rev [0..rnk - 1]) (numIndices, index, ret);
     Some ret }"

definition ind2sub_infer :: "int \<Rightarrow> int list \<Rightarrow> int \<Rightarrow> int list \<Rightarrow> int list option" where
  "ind2sub_infer rnk shp index out = do {
     n \<leftarrow> shape_prodLong shp rnk; ind2sub rnk shp index (to_int n) out }"

definition ind2sub_new :: "int \<Rightarrow> int list \<Rightarrow> int \<Rightarrow> int \<Rightarrow> int list option" where
  "ind2sub_new rnk shp index numIndices = do {
     ret \<leftarrow> new_int rnk; ind2sub rnk shp index numIndices ret }"

definition ind2sub_infer_new :: "int \<Rightarrow> int list \<Rightarrow> int \<Rightarrow> int list option" where
  "ind2sub_infer_new rnk shp index = do {
     n \<leftarrow> shape_prodLong shp rnk; ind2sub_new rnk shp index (to_int n) }"

definition ind2subC :: "int \<Rightarrow> int list \<Rightarrow> int \<Rightarrow> int \<Rightarrow> int list \<Rightarrow> int list option" where
  "ind2subC rnk shp index numIndices ret = do {
     (denom, index, ret) \<leftarrow> mfor (\<lambda>i (denom, index, ret). do {
         d \<leftarrow> rd shp i;
         denom \<leftarrow> div32 denom d;
         if denom > 0 then do {
           q \<leftarrow> div32 index denom;
           ret \<leftarrow> wr ret i q;
           index \<leftarrow> mod32 index denom;
           Some (denom, index, ret) }
         else do {
           ret \<leftarrow> wr ret i 0;
           Some (denom, index, ret) } }) [0..rnk - 1] (numIndices, index, ret);
     Some ret }"

definition ind2subC_infer :: "int \<Rightarrow> int list \<Rightarrow> int \<Rightarrow> int list \<Rightarrow> int list option" where
  "ind2subC_infer rnk shp index out = do {
     n \<leftarrow> shape_prodLong shp rnk; ind2subC rnk shp index (to_int n) out }"

definition ind2subC_new :: "int \<Rightarrow> int list \<Rightarrow> int \<Rightarrow> int \<Rightarrow> int list option" where
  "ind2subC_new rnk shp index numIndices = do {
     ret \<leftarrow> new_int rnk; ind2subC rnk shp index numIndices ret }"

definition ind2subC_infer_new :: "int \<Rightarrow> int list \<Rightarrow> int \<Rightarrow> int list option" where
  "ind2subC_infer_new rnk shp index = do {
     n \<leftarrow> shape_prodLong shp rnk; ind2subC_new rnk shp index (to_int n) }"

definition ind2subOrder :: "int list \<Rightarrow> int \<Rightarrow> int \<Rightarrow> int list \<Rightarrow> int list option" where
  "ind2subOrder shapeInfo index numIndices out = do {
     ord \<leftarrow> shape_order shapeInfo;
     r \<leftarrow> shape_rank shapeInfo;
     s \<leftarrow> shapeOf shapeInfo;
     if ord = 102 then ind2sub r s index numIndices out
     else ind2subC r s index numIndices out }"

definition ind2subOrder_infer :: "int list \<Rightarrow> int \<Rightarrow> int list \<Rightarrow> int list option" where
  "ind2subOrder_infer shapeInfo index out = do {
     n \<leftarrow> shape_length shapeInfo; ind2subOrder shapeInfo index (to_int n) out }"

definition getOffset :: "int \<Rightarrow> int list \<Rightarrow> int list \<Rightarrow> int list \<Rightarrow> int \<Rightarrow> int option" where
  "getOffset baseOffset shp str indices rnk = do {
     q \<leftarrow> mret (\<lambda>i offset. do {
         x \<leftarrow> rd indices i;
         d \<leftarrow> rd shp i;
         if x \<ge> d \<and> d \<noteq> 1 then Some (Inl (- 1))
         else if d \<noteq> 1 then do {
           s \<leftarrow> rd str i;
           t \<leftarrow> i64 (x * s);
           offset \<leftarrow> i64 (offset + t);
           Some (Inr offset) }
         else Some (Inr offset) }) [0..rnk - 1] baseOffset;
     Some (case q of Inl r \<Rightarrow> r | Inr offset \<Rightarrow> offset) }"

definition computeIndices :: "int \<Rightarrow> int list \<Rightarrow> int list \<Rightarrow> int list option" where
  "computeIndices rnk shp str = do {
     len \<leftarrow> shape_prodLong shp rnk;
     ret \<leftarrow> new_int len;
     mfor (\<lambda>i ret. do {
         idx \<leftarrow> ind2sub_infer_new rnk shp i;
         o' \<leftarrow> getOffset 0 shp str idx rnk;
         wr ret i o' }) [0..len - 1] ret }"

definition computeIndices_buf :: "int list \<Rightarrow> int list option" where
  "computeIndices_buf shapeBuffer = do {
     r \<leftarrow> shape_rank shapeBuffer; s \<leftarrow> shapeOf shapeBuffer; t \<leftarrow> shape_stride shapeBuffer;
     computeIndices r s t }"

text \<open>The index of \<open>maxIdx\<close> in an array that is repeated to the larger shape.\<close>

definition subArrayIndex :: "int list \<Rightarrow> int list \<Rightarrow> int \<Rightarrow> int option" where
  "subArrayIndex maxShapeInfo minShapeInfo maxIdx = do {
     maxRank \<leftarrow> rd maxShapeInfo 0;
     idxPerRank \<leftarrow> new_int maxRank;
     maxShape \<leftarrow> ptr maxShapeInfo 1;
     idxPerRank \<leftarrow> ind2subC_infer maxRank maxShape maxIdx idxPerRank;
     minRank \<leftarrow> rd minShapeInfo 0;
     (idxPerRank, minIdx) \<leftarrow> mfor (\<lambda>i (idxPerRank, minIdx). do {
         d \<leftarrow> rd minShapeInfo (minRank - i);
         x \<leftarrow> (if d = 1 then Some 0 else rd idxPerRank (maxRank - i - 1));
         if d = 1 \<or> x = 0 then Some (idxPerRank, minIdx)
         else do {
           idxPerRank \<leftarrow> (if x \<ge> d then do { m \<leftarrow> mod32 x d; wr idxPerRank (maxRank - i - 1) m }
                          else Some idxPerRank);
           x \<leftarrow> rd idxPerRank (maxRank - i - 1);
           str \<leftarrow> shape_stride minShapeInfo;
           s \<leftarrow> rd str (minRank - i - 1);
           t \<leftarrow> i32 (x * s);
           minIdx \<leftarrow> i64 (minIdx + t);
           Some (idxPerRank, minIdx) } }) [0..minRank - 1] (idxPerRank, 0);
     Some minIdx }"

section \<open>Coordinates\<close>

definition in_box :: "int list \<Rightarrow> int list \<Rightarrow> bool" where
  "in_box ds idx = list_all2 (\<lambda>d i. 0 \<le> i \<and> i < d) ds idx"

definition dot :: "int list \<Rightarrow> int list \<Rightarrow> int" where
  "dot xs ys = sum_list (map2 (*) xs ys)"

fun c_coords :: "int list \<Rightarrow> int \<Rightarrow> int list" where
  "c_coords [] x = []"
| "c_coords (d # ds) x = x div prod_list ds # c_coords ds (x mod prod_list ds)"

definition f_coords :: "int list \<Rightarrow> int \<Rightarrow> int list" where
  "f_coords ds x = rev (c_coords (rev ds) x)"

text \<open>
  The coordinates of element \<open>i\<close> in the order of an array, 99 or 102. An element-wise stride is right when it is
  not positive or leads from each element, in that order, to the next.
\<close>

definition order_coords :: "int \<Rightarrow> int list \<Rightarrow> int \<Rightarrow> int list" where
  "order_coords ord sh i = (if ord = 99 then c_coords sh i else f_coords sh i)"

definition ews_right :: "int list \<Rightarrow> int list \<Rightarrow> int \<Rightarrow> int \<Rightarrow> bool" where
  "ews_right sh st ews ord \<longleftrightarrow>
     (1 \<le> ews \<longrightarrow> (\<forall>i\<in>set [0..prod_list sh - 1]. dot (order_coords ord sh i) st = i * ews))"

lemma dot_simps [simp]:
  "dot [] ys = 0" "dot xs [] = 0" "dot (x # xs) (y # ys) = x * y + dot xs ys"
  by (simp_all add: dot_def)

lemma in_box_simps [simp]:
  "in_box [] idx \<longleftrightarrow> idx = []"
  "in_box ds [] \<longleftrightarrow> ds = []"
  "in_box (d # ds) (i # idx) \<longleftrightarrow> 0 \<le> i \<and> i < d \<and> in_box ds idx"
  by (auto simp: in_box_def)

lemma in_box_length: "in_box ds idx \<Longrightarrow> length idx = length ds"
  by (simp add: in_box_def list_all2_lengthD)

lemma in_box_nth: "in_box ds idx \<Longrightarrow> k < length ds \<Longrightarrow> 0 \<le> idx ! k \<and> idx ! k < ds ! k"
  by (simp add: in_box_def list_all2_conv_all_nth)

lemma in_box_rev: "in_box (rev ds) (rev idx) = in_box ds idx"
  by (simp add: in_box_def)

lemma in_box_pos: "in_box ds idx \<Longrightarrow> pos_shape ds"
proof (induction ds arbitrary: idx)
  case (Cons d ds)
  then show ?case by (cases idx) auto
qed simp

lemma dot_append: "length xs = length ys \<Longrightarrow> dot (xs @ xs') (ys @ ys') = dot xs ys + dot xs' ys'"
  by (simp add: dot_def)

lemma dot_rev: "length xs = length ys \<Longrightarrow> dot (rev xs) (rev ys) = dot xs ys"
proof (induction xs ys rule: list_induct2)
  case (Cons x xs y ys)
  then show ?case by (simp add: dot_append)
qed simp

lemma length_c_coords [simp]: "length (c_coords ds x) = length ds"
  by (induction ds arbitrary: x) auto

lemma length_f_coords [simp]: "length (f_coords ds x) = length ds"
  by (simp add: f_coords_def)

lemma c_coords_in_box: "pos_shape ds \<Longrightarrow> 0 \<le> x \<Longrightarrow> x < prod_list ds \<Longrightarrow> in_box ds (c_coords ds x)"
proof (induction ds arbitrary: x)
  case (Cons d ds)
  have p: "0 < prod_list ds" using Cons.prems by (simp add: prod_list_pos)
  then have "x div prod_list ds < d"
    using Cons.prems by (simp add: div_lt_of_lt_mult)
  moreover have "0 \<le> x mod prod_list ds" "x mod prod_list ds < prod_list ds" using p by simp_all
  ultimately show ?case
    using Cons p by (simp add: pos_imp_zdiv_nonneg_iff)
qed simp

lemma c_coords_dot: "pos_shape ds \<Longrightarrow> 0 \<le> x \<Longrightarrow> x < prod_list ds \<Longrightarrow> dot (c_coords ds x) (c_strides ds) = x"
proof (induction ds arbitrary: x)
  case (Cons d ds)
  have p: "0 < prod_list ds" using Cons.prems by (simp add: prod_list_pos)
  then have "dot (c_coords ds (x mod prod_list ds)) (c_strides ds) = x mod prod_list ds"
    using Cons by simp
  then show ?case by simp
qed simp

lemma c_linear_range: "in_box ds idx \<Longrightarrow> 0 \<le> dot idx (c_strides ds) \<and> dot idx (c_strides ds) < prod_list ds"
proof (induction ds arbitrary: idx)
  case (Cons d ds)
  then obtain i is' where idx: "idx = i # is'" by (cases idx) auto
  with Cons have r: "0 \<le> dot is' (c_strides ds)" "dot is' (c_strides ds) < prod_list ds" "0 \<le> i" "i < d"
    by auto
  then have "(i + 1) * prod_list ds \<le> d * prod_list ds"
    by (intro mult_right_mono) auto
  with r show ?case by (simp add: idx algebra_simps)
qed simp

lemma c_coords_of_dot: "in_box ds idx \<Longrightarrow> c_coords ds (dot idx (c_strides ds)) = idx"
proof (induction ds arbitrary: idx)
  case (Cons d ds)
  then obtain i is' where idx: "idx = i # is'" by (cases idx) auto
  with Cons have r: "0 \<le> dot is' (c_strides ds)" "dot is' (c_strides ds) < prod_list ds"
    "c_coords ds (dot is' (c_strides ds)) = is'"
    using c_linear_range [of ds is'] by auto
  then show ?case by (simp add: idx)
qed simp

lemma nth_c_coords:
  assumes "pos_shape ds" "0 \<le> x" "x < prod_list ds" "k < length ds"
  shows "c_coords ds x ! k = (x mod prod_list (drop k ds)) div prod_list (drop (Suc k) ds)"
  using assms
proof (induction ds arbitrary: x k)
  case (Cons d ds)
  show ?case
  proof (cases k)
    case 0
    then show ?thesis using Cons.prems by simp
  next
    case (Suc j)
    have p: "0 < prod_list ds" using Cons.prems by (simp add: prod_list_pos)
    have "prod_list (drop j ds) dvd prod_list ds"
      by (metis dvd_triv_right prod_take_drop)
    then have "x mod prod_list ds mod prod_list (drop j ds) = x mod prod_list (drop j ds)"
      by (rule mod_mod_cancel)
    then show ?thesis
      using Cons p Suc by simp
  qed
qed simp

lemma c_strides_rev: "c_strides (rev ds) = rev (f_strides ds)"
proof (rule nth_equalityI)
  fix k assume "k < length (c_strides (rev ds))"
  then have k: "k < length ds" by simp
  then have "c_strides (rev ds) ! k = prod_list (drop (Suc k) (rev ds))"
    by (simp add: nth_c_strides)
  also have "\<dots> = prod_list (take (length ds - Suc k) ds)"
    using k by (simp add: drop_rev)
  also have "\<dots> = rev (f_strides ds) ! k"
    using k by (simp add: rev_nth nth_f_strides)
  finally show "c_strides (rev ds) ! k = rev (f_strides ds) ! k" .
qed simp

lemma pos_shape_rev [simp]: "pos_shape (rev ds) = pos_shape ds"
  by (simp add: pos_shape_def)

lemma prod_list_rev [simp]: "prod_list (rev ds) = prod_list (ds :: int list)"
  by (induction ds) (simp_all add: mult.commute)

lemma f_coords_in_box: "pos_shape ds \<Longrightarrow> 0 \<le> x \<Longrightarrow> x < prod_list ds \<Longrightarrow> in_box ds (f_coords ds x)"
  using c_coords_in_box [of "rev ds" x] in_box_rev [of ds "f_coords ds x"] by (simp add: f_coords_def)

lemma f_coords_dot:
  assumes "pos_shape ds" "0 \<le> x" "x < prod_list ds"
  shows "dot (f_coords ds x) (f_strides ds) = x"
proof -
  have "dot (f_coords ds x) (f_strides ds) = dot (rev (f_coords ds x)) (rev (f_strides ds))"
    by (simp add: dot_rev)
  also have "\<dots> = dot (c_coords (rev ds) x) (c_strides (rev ds))"
    by (simp add: f_coords_def c_strides_rev)
  finally show ?thesis using assms c_coords_dot [of "rev ds" x] by simp
qed

lemma f_dot_rev: "length idx = length ds \<Longrightarrow> dot idx (f_strides ds) = dot (rev idx) (c_strides (rev ds))"
  by (simp add: c_strides_rev dot_rev)

lemma f_linear_range: "in_box ds idx \<Longrightarrow> 0 \<le> dot idx (f_strides ds) \<and> dot idx (f_strides ds) < prod_list ds"
  using c_linear_range [of "rev ds" "rev idx"] by (simp add: in_box_rev f_dot_rev in_box_length)

lemma f_coords_of_dot: "in_box ds idx \<Longrightarrow> f_coords ds (dot idx (f_strides ds)) = idx"
  using c_coords_of_dot [of "rev ds" "rev idx"] by (simp add: in_box_rev f_dot_rev in_box_length f_coords_def)

lemma nth_f_coords:
  assumes "pos_shape ds" "0 \<le> x" "x < prod_list ds" "k < length ds"
  shows "f_coords ds x ! k = (x mod prod_list (take (Suc k) ds)) div prod_list (take k ds)"
proof -
  have "f_coords ds x ! k = c_coords (rev ds) x ! (length ds - Suc k)"
    using assms by (simp add: f_coords_def rev_nth)
  also have "\<dots> = (x mod prod_list (drop (length ds - Suc k) (rev ds))) div
                   prod_list (drop (Suc (length ds - Suc k)) (rev ds))"
    using assms by (subst nth_c_coords) auto
  also have "Suc (length ds - Suc k) = length ds - k" using assms by simp
  finally show ?thesis using assms by (simp add: drop_rev)
qed

section \<open>Correctness of the coordinate computations\<close>

lemma ind2subC_eq:
  assumes "n = length sh" "n \<le> length shp" "take n shp = sh" "n \<le> length ret"
    and "pos_shape sh" "prod_list sh \<le> 2147483647" "0 \<le> x" "x < prod_list sh"
  shows "ind2subC (int n) shp x (prod_list sh) ret = Some (c_coords sh x @ drop n ret)"
proof -
  define ys where "ys = c_coords sh x @ drop n ret"
  have ys: "length ys = length ret"
    "\<And>k. k < n \<Longrightarrow> ys ! k = (x mod prod_list (drop k sh)) div prod_list (drop (Suc k) sh)"
    using assms by (auto simp: ys_def nth_append nth_c_coords)
  define g where
    "g k = (prod_list (drop k sh), x mod prod_list (drop k sh), take k ys @ drop k ret)" for k
  let ?f = "\<lambda>i (denom, index, ret). do {
         d \<leftarrow> rd shp i;
         denom \<leftarrow> div32 denom d;
         if denom > 0 then do {
           q \<leftarrow> div32 index denom;
           ret \<leftarrow> wr ret i q;
           index \<leftarrow> mod32 index denom;
           Some (denom, index, ret) }
         else do {
           ret \<leftarrow> wr ret i 0;
           Some (denom, index, ret) } }"
  have "mfor ?f [0..int n - 1] (g 0) = Some (g n)"
  proof (rule mfor_trace)
    fix k assume k: "k < n"
    let ?P = "prod_list (drop k sh)" and ?Q = "prod_list (drop (Suc k) sh)"
    have d: "shp ! k = sh ! k" "0 < sh ! k"
      using assms k by (metis nth_take, simp add: pos_shape_nth)
    have PQ: "?P = sh ! k * ?Q" using k assms by (simp add: prod_drop_Suc)
    have pos: "0 < ?P" "0 < ?Q"
      using assms(5) by (simp_all add: prod_list_pos pos_shape_drop)
    have le: "?P \<le> 2147483647" using prod_drop_le [OF assms(5), of k] assms(6) by linarith
    have r: "0 \<le> x mod ?P" "x mod ?P < ?P" using pos by simp_all
    have "div32 ?P (sh ! k) = Some ?Q"
      using pos le d PQ by (simp add: div32_nonneg)
    moreover have "div32 (x mod ?P) ?Q = Some (ys ! k)"
      using pos le r k ys by (simp add: div32_nonneg)
    moreover have "mod32 (x mod ?P) ?Q = Some (x mod ?Q)"
      using pos le r PQ by (simp add: mod32_nonneg mod_mod_cancel)
    moreover have "wr (take k ys @ drop k ret) (int k) (ys ! k) = Some (take (Suc k) ys @ drop (Suc k) ret)"
      using fill_up_step [of ys ret k] ys(1) k assms(4) by (simp add: wr_def)
    ultimately show "?f (int k) (g k) = Some (g (Suc k))"
      using k assms(1,2) d pos by (simp add: g_def rd_def)
  qed
  moreover have "g 0 = (prod_list sh, x, ret)" "g n = (1, 0, ys)"
    using assms ys(1) by (simp_all add: g_def ys_def)
  ultimately show ?thesis by (simp add: ind2subC_def ys_def)
qed

lemma ind2sub_eq:
  assumes "n = length sh" "n \<le> length shp" "take n shp = sh" "n \<le> length ret"
    and "pos_shape sh" "prod_list sh \<le> 2147483647" "0 \<le> x" "x < prod_list sh"
  shows "ind2sub (int n) shp x (prod_list sh) ret = Some (f_coords sh x @ drop n ret)"
proof -
  define ys where "ys = f_coords sh x @ drop n ret"
  have ys: "length ys = length ret"
    "\<And>k. k < n \<Longrightarrow> ys ! k = (x mod prod_list (take (Suc k) sh)) div prod_list (take k sh)"
    using assms by (auto simp: ys_def nth_append nth_f_coords)
  define g where
    "g k = (prod_list (take k sh), x mod prod_list (take k sh), take k ret @ drop k ys)" for k
  let ?f = "\<lambda>i (denom, index, ret). do {
         d \<leftarrow> rd shp i;
         denom \<leftarrow> div32 denom d;
         q \<leftarrow> div32 index denom;
         ret \<leftarrow> wr ret i q;
         index \<leftarrow> mod32 index denom;
         Some (denom, index, ret) }"
  have "mfor ?f (rev [0..int n - 1]) (g n) = Some (g 0)"
  proof (rule mfor_trace_down)
    fix k assume k: "k < n"
    let ?P = "prod_list (take (Suc k) sh)" and ?Q = "prod_list (take k sh)"
    have d: "shp ! k = sh ! k" "0 < sh ! k"
      using assms k by (metis nth_take, simp add: pos_shape_nth)
    have PQ: "?P = ?Q * sh ! k" using k assms by (simp add: prod_take_Suc)
    have pos: "0 < ?P" "0 < ?Q"
      using assms(5) by (simp_all add: prod_list_pos pos_shape_take)
    have le: "?P \<le> 2147483647" using prod_take_le [OF assms(5), of "Suc k"] assms(6) by linarith
    have r: "0 \<le> x mod ?P" "x mod ?P < ?P" using pos by simp_all
    have "div32 ?P (sh ! k) = Some ?Q"
      using pos le d PQ by (simp add: div32_nonneg)
    moreover have "div32 (x mod ?P) ?Q = Some (ys ! k)"
      using pos le r k ys by (simp add: div32_nonneg)
    moreover have "mod32 (x mod ?P) ?Q = Some (x mod ?Q)"
      using pos le r PQ by (simp add: mod32_nonneg mod_mod_cancel)
    moreover have "wr (take (Suc k) ret @ drop (Suc k) ys) (int k) (ys ! k) = Some (take k ret @ drop k ys)"
      using fill_down_step [of ys ret k] ys(1) k assms(4) by (simp add: wr_def)
    ultimately show "?f (int k) (g (Suc k)) = Some (g k)"
      using k assms(1,2) d pos by (simp add: g_def rd_def)
  qed
  moreover have "g 0 = (1, 0, ys)" "g n = (prod_list sh, x, ret)"
    using assms ys(1) by (simp_all add: g_def ys_def)
  ultimately show ?thesis by (simp add: ind2sub_def ys_def)
qed

lemma ind2sub_infer_new_eq:
  assumes "n = length sh" "n \<le> length shp" "take n shp = sh"
    and "pos_shape sh" "prod_list sh \<le> 2147483647" "0 \<le> x" "x < prod_list sh"
  shows "ind2sub_infer_new (int n) shp x = Some (f_coords sh x)"
  using ind2sub_eq [OF assms(1-3), of "replicate n undefined" x] shape_prodLong_eq [of n shp] assms
    prod_list_pos [OF assms(4)]
  by (simp add: ind2sub_infer_new_def ind2sub_new_def to_int_id)

lemma ind2subC_infer_new_eq:
  assumes "n = length sh" "n \<le> length shp" "take n shp = sh"
    and "pos_shape sh" "prod_list sh \<le> 2147483647" "0 \<le> x" "x < prod_list sh"
  shows "ind2subC_infer_new (int n) shp x = Some (c_coords sh x)"
  using ind2subC_eq [OF assms(1-3), of "replicate n undefined" x] shape_prodLong_eq [of n shp] assms
    prod_list_pos [OF assms(4)]
  by (simp add: ind2subC_infer_new_def ind2subC_new_def to_int_id)

lemma in_box_take: "in_box ds idx \<Longrightarrow> in_box (take k ds) (take k idx)"
  by (simp add: in_box_def list_all2_takeI)

lemma f_strides_take: "take k (f_strides ds) = f_strides (take k ds)"
proof (rule nth_equalityI)
  fix i assume "i < length (take k (f_strides ds))"
  then have "i < k" "i < length ds" by auto
  then show "take k (f_strides ds) ! i = f_strides (take k ds) ! i"
    by (simp add: nth_f_strides min_absorb1)
qed simp

lemma dot_take_Suc:
  "k < length xs \<Longrightarrow> k < length ys \<Longrightarrow>
   dot (take (Suc k) xs) (take (Suc k) ys) = dot (take k xs) (take k ys) + xs ! k * ys ! k"
  by (simp add: take_Suc_conv_app_nth dot_append)

lemma sub2Ind_eq:
  assumes "n = length sh" "n \<le> length shp" "take n shp = sh" "n \<le> length ix" "take n ix = idx"
    and "in_box sh idx" "prod_list sh \<le> 2147483647"
  shows "sub2Ind (int n) shp ix = Some (dot idx (f_strides sh))"
proof -
  have pos: "pos_shape sh" using assms(6) by (rule in_box_pos)
  have len: "length idx = n" using assms(4,5) by auto
  define g where "g k = (dot (take k idx) (take k (f_strides sh)), prod_list (take k sh))" for k
  let ?f = "\<lambda>i (index, shift). do {
         x \<leftarrow> rd ix i;
         t \<leftarrow> i32 (shift * x);
         index \<leftarrow> i32 (index + t);
         d \<leftarrow> rd shp i;
         shift \<leftarrow> i32 (shift * d);
         Some (index, shift) }"
  have "mfor ?f [0..int n - 1] (g 0) = Some (g n)"
  proof (rule mfor_trace)
    fix k assume k: "k < n"
    let ?Q = "prod_list (take k sh)" and ?P = "prod_list (take (Suc k) sh)"
    let ?D = "\<lambda>k. dot (take k idx) (take k (f_strides sh))"
    have rdv: "shp ! k = sh ! k" "ix ! k = idx ! k"
      using assms k by (metis nth_take)+
    have x: "0 \<le> idx ! k" "idx ! k < sh ! k"
      using in_box_nth [OF assms(6)] k assms(1) by auto
    have PQ: "?P = ?Q * sh ! k" using k assms by (simp add: prod_take_Suc)
    have pq: "0 < ?Q" "?P \<le> 2147483647"
      using pos prod_take_le [OF pos, of "Suc k"] assms(7)
      by (auto simp: prod_list_pos pos_shape_take)
    have D: "0 \<le> ?D j \<and> ?D j < prod_list (take j sh)" for j
      using f_linear_range [OF in_box_take [OF assms(6), of j]] by (simp add: f_strides_take)
    have DS: "?D (Suc k) = ?D k + ?Q * idx ! k"
      using k len assms(1) by (simp add: dot_take_Suc nth_f_strides mult.commute)
    have "0 \<le> ?Q * idx ! k" using pq x by simp
    moreover have "?Q * idx ! k \<le> ?D (Suc k)" using DS D [of k] by linarith
    ultimately have "i32 (?Q * idx ! k) = Some (?Q * idx ! k)" "i32 (?D k + ?Q * idx ! k) = Some (?D (Suc k))"
      "i32 (?Q * sh ! k) = Some ?P"
      using D [of "Suc k"] pq PQ DS by (auto simp: i32_def dest!: prod_list_pos)
    then show "?f (int k) (g k) = Some (g (Suc k))"
      using k assms(1,2,4) rdv by (simp add: g_def rd_def)
  qed
  then show ?thesis using len assms by (simp add: sub2Ind_def g_def)
qed

text \<open>Offsets: coordinates inside the shape give the inner product with the strides.\<close>

definition nonneg :: "int list \<Rightarrow> bool" where
  "nonneg xs = list_all (\<lambda>x. 0 \<le> x) xs"

lemma nonneg_simps [simp]:
  "nonneg []" "nonneg (x # xs) \<longleftrightarrow> 0 \<le> x \<and> nonneg xs" "nonneg (xs @ ys) \<longleftrightarrow> nonneg xs \<and> nonneg ys"
  by (simp_all add: nonneg_def)

lemma nonneg_nth: "nonneg xs \<Longrightarrow> k < length xs \<Longrightarrow> 0 \<le> xs ! k"
  by (simp add: nonneg_def list_all_length)

lemma dot_nonneg: "nonneg xs \<Longrightarrow> nonneg ys \<Longrightarrow> 0 \<le> dot xs ys"
proof (induction xs arbitrary: ys)
  case (Cons x xs)
  then show ?case by (cases ys) auto
qed simp

lemma nonneg_take: "nonneg xs \<Longrightarrow> nonneg (take k xs)"
  by (simp add: nonneg_def list_all_iff) (meson in_set_takeD)

lemma nonneg_drop: "nonneg xs \<Longrightarrow> nonneg (drop k xs)"
  by (simp add: nonneg_def list_all_iff) (meson in_set_dropD)

lemma dot_take_drop:
  assumes "length xs = length ys"
  shows "dot xs ys = dot (take k xs) (take k ys) + dot (drop k xs) (drop k ys)"
  using dot_append [of "take k xs" "take k ys" "drop k xs" "drop k ys"] assms by simp

lemma dot_take_le:
  "nonneg xs \<Longrightarrow> nonneg ys \<Longrightarrow> length xs = length ys \<Longrightarrow> dot (take k xs) (take k ys) \<le> dot xs ys"
  using dot_take_drop [of xs ys k] dot_nonneg [of "drop k xs" "drop k ys"] by (simp add: nonneg_drop)

lemma in_box_nonneg: "in_box ds idx \<Longrightarrow> nonneg idx"
proof (induction ds arbitrary: idx)
  case (Cons d ds)
  then show ?case by (cases idx) auto
qed simp

lemma mret_trace:
  assumes "\<And>k. k < n \<Longrightarrow> f (int k) (g k) = Some (Inr (g (Suc k)))"
  shows "mret f [0..int n - 1] (g 0) = Some (Inr (g n))"
  using assms
proof (induction n)
  case (Suc n)
  have "[0..int (Suc n) - 1] = [0..int n - 1] @ [int n]"
    using upto_rec2 [of 0 "int n"] by simp
  with Suc show ?case by (simp add: mret_append)
qed simp

lemma getOffset_eq:
  assumes "n = length sh" "n \<le> length shp" "take n shp = sh" "n \<le> length str" "take n str = st"
    and "n \<le> length ix" "take n ix = idx"
    and "in_box sh idx" "nonneg st" "0 \<le> base" "base + dot idx st \<le> 9223372036854775807"
  shows "getOffset base shp str ix (int n) = Some (base + dot idx st)"
proof -
  have len: "length idx = n" "length st = n" using assms by auto
  have nn: "nonneg idx" using assms(8) by (rule in_box_nonneg)
  define g where "g k = base + dot (take k idx) (take k st)" for k
  let ?f = "\<lambda>i offset. do {
         x \<leftarrow> rd ix i;
         d \<leftarrow> rd shp i;
         if x \<ge> d \<and> d \<noteq> 1 then Some (Inl (- 1 :: int))
         else if d \<noteq> 1 then do {
           s \<leftarrow> rd str i;
           t \<leftarrow> i64 (x * s);
           offset \<leftarrow> i64 (offset + t);
           Some (Inr offset) }
         else Some (Inr offset) }"
  have "mret ?f [0..int n - 1] (g 0) = Some (Inr (g n))"
  proof (rule mret_trace)
    fix k assume k: "k < n"
    have rdv: "shp ! k = sh ! k" "ix ! k = idx ! k" "str ! k = st ! k"
      using assms k by (metis nth_take)+
    have x: "0 \<le> idx ! k" "idx ! k < sh ! k"
      using in_box_nth [OF assms(8)] k assms(1) by auto
    have gS: "g (Suc k) = g k + idx ! k * st ! k"
      using k len by (simp add: g_def dot_take_Suc)
    have "0 \<le> st ! k" using assms(9) len k by (simp add: nonneg_nth)
    then have t0: "0 \<le> idx ! k * st ! k" using x by simp
    have g0: "0 \<le> g k" "g (Suc k) \<le> 9223372036854775807"
      using dot_nonneg [OF nonneg_take [OF nn] nonneg_take [OF assms(9)], of k k]
        dot_take_le [OF nn assms(9), of "Suc k"] assms(10,11) len
      by (auto simp: g_def)
    show "?f (int k) (g k) = Some (Inr (g (Suc k)))"
      using k assms(1,2,4,6) rdv x t0 g0 gS by (auto simp: rd_def i64_def)
  qed
  then show ?thesis using len by (simp add: getOffset_def g_def)
qed

section \<open>The contract of a coordinate scheme\<close>

locale linear_indexing =
  fixes ok :: "int list \<Rightarrow> bool"
    and encode :: "int list \<Rightarrow> int list \<Rightarrow> int option"
    and decode :: "int list \<Rightarrow> int \<Rightarrow> int list option"
  assumes decode_encode: "ok sh \<Longrightarrow> 0 \<le> x \<Longrightarrow> x < prod_list sh \<Longrightarrow>
      \<exists>idx. decode sh x = Some idx \<and> in_box sh idx \<and> encode sh idx = Some x"
    and encode_decode: "ok sh \<Longrightarrow> in_box sh idx \<Longrightarrow>
      \<exists>x. encode sh idx = Some x \<and> 0 \<le> x \<and> x < prod_list sh \<and> decode sh x = Some idx"
begin

lemma encode_inject:
  assumes "ok sh" "in_box sh idx" "in_box sh idx'" "encode sh idx = encode sh idx'"
  shows "idx = idx'"
  using encode_decode [OF assms(1,2)] encode_decode [OF assms(1,3)] assms(4) by auto

lemma encode_bij:
  assumes "ok sh"
  shows "bij_betw (encode sh) {idx. in_box sh idx} (Some ` {0..<prod_list sh})"
proof (rule bij_betwI')
  fix x assume "x \<in> {idx. in_box sh idx}"
  then show "encode sh x \<in> Some ` {0..<prod_list sh}"
    using encode_decode [OF assms, of x] by auto
next
  fix y assume "y \<in> Some ` {0..<prod_list sh}"
  then obtain v where "y = Some v" "0 \<le> v" "v < prod_list sh" by auto
  then show "\<exists>x\<in>{idx. in_box sh idx}. y = encode sh x"
    using decode_encode [OF assms, of v] by force
qed (use encode_inject [OF assms] in auto)

lemma decode_all:
  assumes "ok sh"
  shows "distinct (map (decode sh) [0..prod_list sh - 1])"
    and "set (map (decode sh) [0..prod_list sh - 1]) = Some ` {idx. in_box sh idx}"
proof -
  have "inj_on (decode sh) {0..prod_list sh - 1}"
  proof (rule inj_onI)
    fix x y assume xy: "x \<in> {0..prod_list sh - 1}" "y \<in> {0..prod_list sh - 1}" "decode sh x = decode sh y"
    then show "x = y"
      using decode_encode [OF assms, of x] decode_encode [OF assms, of y] by auto
  qed
  then show "distinct (map (decode sh) [0..prod_list sh - 1])"
    by (simp add: distinct_map)
  show "set (map (decode sh) [0..prod_list sh - 1]) = Some ` {idx. in_box sh idx}"
  proof (intro equalityI subsetI)
    fix y assume "y \<in> set (map (decode sh) [0..prod_list sh - 1])"
    then obtain x where "0 \<le> x" "x < prod_list sh" "y = decode sh x" by auto
    then show "y \<in> Some ` {idx. in_box sh idx}"
      using decode_encode [OF assms, of x] by auto
  next
    fix y assume "y \<in> Some ` {idx. in_box sh idx}"
    then obtain idx where "y = Some idx" "in_box sh idx" by auto
    then obtain x where "0 \<le> x" "x < prod_list sh" "decode sh x = y"
      using encode_decode [OF assms, of idx] by auto
    then show "y \<in> set (map (decode sh) [0..prod_list sh - 1])" by force
  qed
qed

end

definition small_shape :: "int list \<Rightarrow> bool" where
  "small_shape sh \<longleftrightarrow> pos_shape sh \<and> prod_list sh \<le> 2147483647"

text \<open>Row-major: strides of \<open>calcStrides\<close>, offsets of \<open>getOffset\<close>, coordinates of \<open>ind2subC\<close>.\<close>

definition c_encode :: "int list \<Rightarrow> int list \<Rightarrow> int option" where
  "c_encode sh idx = do {
     st \<leftarrow> calcStrides1_new sh (int (length sh));
     getOffset 0 sh st idx (int (length sh)) }"

definition c_decode :: "int list \<Rightarrow> int \<Rightarrow> int list option" where
  "c_decode sh x = ind2subC_infer_new (int (length sh)) sh x"

text \<open>Column-major: \<open>sub2Ind\<close> or \<open>getOffset\<close> with the Fortran strides, and \<open>ind2sub\<close>.\<close>

definition f_encode :: "int list \<Rightarrow> int list \<Rightarrow> int option" where
  "f_encode sh idx = sub2Ind (int (length sh)) sh idx"

definition fs_encode :: "int list \<Rightarrow> int list \<Rightarrow> int option" where
  "fs_encode sh idx = do {
     st \<leftarrow> calcStridesFortran1_new sh (int (length sh));
     getOffset 0 sh st idx (int (length sh)) }"

definition f_decode :: "int list \<Rightarrow> int \<Rightarrow> int list option" where
  "f_decode sh x = ind2sub_infer_new (int (length sh)) sh x"

lemma nonneg_c_strides: "pos_shape ds \<Longrightarrow> nonneg (c_strides ds)"
  by (induction ds) (auto dest: prod_list_pos)

lemma nonneg_rev [simp]: "nonneg (rev xs) = nonneg xs"
  by (simp add: nonneg_def)

lemma nonneg_f_strides: "pos_shape ds \<Longrightarrow> nonneg (f_strides ds)"
  using nonneg_c_strides [of "rev ds"] by (simp add: c_strides_rev)

lemma dot_code_c: "in_box ds idx \<Longrightarrow> dot idx (code_c_strides ds) = dot idx (c_strides ds)"
  using list_of_2 [of ds] list_of_2 [of idx] in_box_length [of ds idx]
  by (auto simp: code_c_strides_def c_vec_def)

lemma dot_code_f: "in_box ds idx \<Longrightarrow> dot idx (code_f_strides ds) = dot idx (f_strides ds)"
  using list_of_2 [of ds] list_of_2 [of idx] in_box_length [of ds idx]
  by (auto simp: code_f_strides_def f_vec_def f_strides_def upt_rec)

lemma nonneg_code_strides:
  "pos_shape ds \<Longrightarrow> nonneg (code_c_strides ds)" "pos_shape ds \<Longrightarrow> nonneg (code_f_strides ds)"
  by (simp_all add: code_c_strides_def code_f_strides_def nonneg_c_strides nonneg_f_strides)

lemma c_encode_eq:
  assumes "small_shape sh" "in_box sh idx"
  shows "c_encode sh idx = Some (dot idx (c_strides sh))"
proof -
  have new: "calcStrides_new sh (int (length sh)) 1 = Some (code_c_strides sh)"
    using assms(1) by (intro calcStrides_new_eq) (auto simp: small_shape_def)
  have pos: "pos_shape sh" using assms(1) by (simp add: small_shape_def)
  have rng: "0 \<le> dot idx (c_strides sh)" "dot idx (c_strides sh) \<le> 2147483647"
    using c_linear_range [OF assms(2)] assms(1) by (auto simp: small_shape_def)
  have "getOffset 0 sh (code_c_strides sh) idx (int (length sh)) = Some (0 + dot idx (code_c_strides sh))"
    by (rule getOffset_eq)
      (use assms(2) rng pos in_box_length [OF assms(2)] in
        \<open>simp_all add: nonneg_code_strides dot_code_c\<close>)
  then show ?thesis
    using new assms(2) by (simp add: c_encode_def calcStrides1_new_def dot_code_c)
qed

lemma c_decode_eq:
  "small_shape sh \<Longrightarrow> 0 \<le> x \<Longrightarrow> x < prod_list sh \<Longrightarrow> c_decode sh x = Some (c_coords sh x)"
  using ind2subC_infer_new_eq [of "length sh" sh sh x] by (simp add: small_shape_def c_decode_def)

lemma f_encode_eq:
  "small_shape sh \<Longrightarrow> in_box sh idx \<Longrightarrow> f_encode sh idx = Some (dot idx (f_strides sh))"
  using sub2Ind_eq [of "length sh" sh sh idx idx] by (simp add: small_shape_def f_encode_def in_box_length)

lemma fs_encode_eq:
  assumes "small_shape sh" "in_box sh idx"
  shows "fs_encode sh idx = Some (dot idx (f_strides sh))"
proof -
  define str where "str = (if length sh = 1 then [1, 1] else code_f_strides sh)"
  have new: "calcStridesFortran_new sh (int (length sh)) 1 = Some str"
    using assms(1) calcStridesFortran_new_eq [of "length sh" sh sh] by (simp add: str_def small_shape_def)
  have str: "length sh \<le> length str" "take (length sh) str = code_f_strides sh"
    using list_of_1 [of sh] by (auto simp: str_def code_f_strides_def f_vec_def f_strides_def)
  have pos: "pos_shape sh" using assms(1) by (simp add: small_shape_def)
  have rng: "0 \<le> dot idx (f_strides sh)" "dot idx (f_strides sh) \<le> 2147483647"
    using f_linear_range [OF assms(2)] assms(1) by (auto simp: small_shape_def)
  have "getOffset 0 sh str idx (int (length sh)) = Some (0 + dot idx (code_f_strides sh))"
    by (rule getOffset_eq)
      (use str assms(2) rng pos in_box_length [OF assms(2)] in
        \<open>simp_all add: nonneg_code_strides dot_code_f\<close>)
  then show ?thesis
    using new assms(2) by (simp add: fs_encode_def calcStridesFortran1_new_def dot_code_f)
qed

lemma f_decode_eq:
  "small_shape sh \<Longrightarrow> 0 \<le> x \<Longrightarrow> x < prod_list sh \<Longrightarrow> f_decode sh x = Some (f_coords sh x)"
  using ind2sub_infer_new_eq [of "length sh" sh sh x] by (simp add: small_shape_def f_decode_def)

lemma small_shape_pos: "small_shape sh \<Longrightarrow> pos_shape sh"
  by (simp add: small_shape_def)

interpretation c_order: linear_indexing small_shape c_encode c_decode
  by unfold_locales
    (auto simp: c_encode_eq c_decode_eq c_coords_in_box c_coords_dot c_coords_of_dot c_linear_range small_shape_pos)

interpretation f_order: linear_indexing small_shape f_encode f_decode
  by unfold_locales
    (auto simp: f_encode_eq f_decode_eq f_coords_in_box f_coords_dot f_coords_of_dot f_linear_range small_shape_pos)

interpretation f_strided: linear_indexing small_shape fs_encode f_decode
  by unfold_locales
    (auto simp: fs_encode_eq f_decode_eq f_coords_in_box f_coords_dot f_coords_of_dot f_linear_range small_shape_pos)

section \<open>All offsets of an array\<close>

lemma computeIndices_eq:
  assumes "n = length sh" "n \<le> length shp" "take n shp = sh" "n \<le> length str" "take n str = st"
    and "small_shape sh" "nonneg st"
    and bound: "\<And>idx. in_box sh idx \<Longrightarrow> dot idx st \<le> 9223372036854775807"
  shows "computeIndices (int n) shp str =
         Some (map (\<lambda>k. dot (f_coords sh (int k)) st) [0..<nat (prod_list sh)])"
proof -
  let ?P = "prod_list sh"
  have P: "0 < ?P" "?P \<le> 2147483647" "pos_shape sh"
    using assms(6) by (auto simp: small_shape_def dest: prod_list_pos)
  have len: "shape_prodLong shp (int n) = Some ?P"
    using shape_prodLong_eq [of n shp] assms P by simp
  define N where "N = nat ?P"
  have N: "?P = int N" using P by (simp add: N_def)
  let ?f = "\<lambda>i ret. do { idx \<leftarrow> ind2sub_infer_new (int n) shp i; o' \<leftarrow> getOffset 0 shp str idx (int n); wr ret i o' }"
  have "mfor ?f [0..int N - 1] (replicate N undefined) =
        Some (map (\<lambda>k. dot (f_coords sh (int k)) st) [0..<N] @ drop N (replicate N undefined))"
  proof (rule mfor_fill)
    fix k ret assume k: "k < N"
    then have x: "0 \<le> int k" "int k < ?P" using N by auto
    have box: "in_box sh (f_coords sh (int k))" using P x by (simp add: f_coords_in_box)
    have "ind2sub_infer_new (int n) shp (int k) = Some (f_coords sh (int k))"
      by (rule ind2sub_infer_new_eq [OF assms(1-3) P(3,2) x])
    moreover have "getOffset 0 shp str (f_coords sh (int k)) (int n) = Some (0 + dot (f_coords sh (int k)) st)"
      using assms box bound [OF box] by (intro getOffset_eq) auto
    ultimately show "?f (int k) ret = wr ret (int k) (dot (f_coords sh (int k)) st)"
      by simp
  qed simp
  then show ?thesis
    using len by (simp add: computeIndices_def N)
qed

lemma distinct_c_offsets:
  assumes "pos_shape sh"
  shows "distinct (map (\<lambda>k. dot (f_coords sh (int k)) (c_strides sh)) [0..<nat (prod_list sh)])"
    and "set (map (\<lambda>k. dot (f_coords sh (int k)) (c_strides sh)) [0..<nat (prod_list sh)]) = {0..<prod_list sh}"
proof -
  let ?h = "\<lambda>k. dot (f_coords sh (int k)) (c_strides sh)"
  have x: "0 \<le> int k \<and> int k < prod_list sh" if "k < nat (prod_list sh)" for k
    using that by auto
  have inj: "inj_on ?h {0..<nat (prod_list sh)}"
  proof (rule inj_onI)
    fix k l assume kl: "k \<in> {0..<nat (prod_list sh)}" "l \<in> {0..<nat (prod_list sh)}" "?h k = ?h l"
    then have "f_coords sh (int k) = f_coords sh (int l)"
      using c_coords_of_dot [OF f_coords_in_box [OF assms]] x by (metis atLeastLessThan_iff)
    then show "k = l"
      using f_coords_dot [OF assms] x kl by (metis atLeastLessThan_iff of_nat_eq_iff)
  qed
  then show "distinct (map ?h [0..<nat (prod_list sh)])"
    by (simp add: distinct_map)
  have sub: "?h ` {0..<nat (prod_list sh)} \<subseteq> {0..<prod_list sh}"
    using c_linear_range [OF f_coords_in_box [OF assms]] x by auto
  have "card (?h ` {0..<nat (prod_list sh)}) = card {0..<prod_list sh}"
    using inj by (simp add: card_image)
  then have "?h ` {0..<nat (prod_list sh)} = {0..<prod_list sh}"
    using sub by (intro card_subset_eq) auto
  then show "set (map ?h [0..<nat (prod_list sh)]) = {0..<prod_list sh}" by simp
qed

section \<open>Indices into a repeated array\<close>

lemma dot_mono: "length xs = length ys \<Longrightarrow> list_all2 (\<le>) xs ys \<Longrightarrow> nonneg zs \<Longrightarrow> dot xs zs \<le> dot ys zs"
proof (induction xs ys arbitrary: zs rule: list_induct2)
  case (Cons x xs y ys)
  then show ?case by (cases zs) (auto intro!: add_mono mult_right_mono)
qed simp

text \<open>The largest offset an array with shape \<open>ds\<close> and strides \<open>st\<close> reaches.\<close>

definition extent :: "int list \<Rightarrow> int list \<Rightarrow> int" where
  "extent ds st = dot (map (\<lambda>d. d - 1) ds) st"

lemma nonneg_map_pred: "pos_shape ds \<Longrightarrow> nonneg (map (\<lambda>d. d - 1) ds)"
  by (induction ds) auto

lemma dot_le_extent: "in_box ds idx \<Longrightarrow> nonneg st \<Longrightarrow> dot idx st \<le> extent ds st"
  unfolding extent_def
  by (rule dot_mono) (auto simp: in_box_length list_all2_conv_all_nth dest: in_box_nth)

lemma extent_drop_le:
  assumes "pos_shape ds" "nonneg st" "length st = length ds"
  shows "extent (drop k ds) (drop k st) \<le> extent ds st"
  using dot_take_drop [of "map (\<lambda>d. d - 1) ds" st k] assms
    dot_nonneg [of "take k (map (\<lambda>d. d - 1) ds)" "take k st"]
  by (simp add: extent_def drop_map nonneg_take nonneg_map_pred)

lemma extent_nonneg: "pos_shape ds \<Longrightarrow> nonneg st \<Longrightarrow> 0 \<le> extent ds st"
  by (simp add: extent_def dot_nonneg nonneg_map_pred)

lemma map2_mod_box:
  "pos_shape ds \<Longrightarrow> length xs = length ds \<Longrightarrow> in_box ds (map2 (mod) xs ds)"
proof (induction ds arbitrary: xs)
  case (Cons d ds)
  then show ?case by (cases xs) auto
qed simp

lemma ind2subC_infer_eq:
  assumes "n = length sh" "n \<le> length shp" "take n shp = sh" "n \<le> length ret"
    and "small_shape sh" "0 \<le> x" "x < prod_list sh"
  shows "ind2subC_infer (int n) shp x ret = Some (c_coords sh x @ drop n ret)"
  using ind2subC_eq [OF assms(1-4)] shape_prodLong_eq [of n shp] assms prod_list_pos [of sh]
  by (simp add: ind2subC_infer_def to_int_id small_shape_def)

lemma subArrayIndex_eq:
  assumes dims: "dims_ok shx stx" "dims_ok shn stn" "length shn \<le> length shx"
    and shp: "small_shape shx" "0 \<le> x" "x < prod_list shx" "pos_shape shn"
    and ext: "nonneg stn" "extent shn stn \<le> 2147483647"
  shows "subArrayIndex (mk_info shx stx offx ewsx ordx) (mk_info shn stn offn ewsn ordn) x =
         Some (dot (map2 (mod) (drop (length shx - length shn) (c_coords shx x)) shn) stn)"
proof -
  define R where "R = length shx"
  define r where "r = length shn"
  define cs where "cs = c_coords shx x"
  let ?max = "mk_info shx stx offx ewsx ordx" and ?min = "mk_info shn stn offn ewsn ordn"
  have len: "length cs = R" "length stn = r" "r \<le> R" "length shn = r"
    using dims by (auto simp: cs_def R_def r_def dims_ok_def)
  have coords: "ind2subC_infer (int R) (shx @ stx @ [offx, ewsx, ordx]) x (replicate R undefined) = Some cs"
    using shp ind2subC_infer_eq [of R shx "shx @ stx @ [offx, ewsx, ordx]" "replicate R undefined" x]
    by (simp add: R_def cs_def)
  have cs_nn: "nonneg cs"
    using in_box_nonneg c_coords_in_box shp by (auto simp: cs_def small_shape_def)
  define A where "A k = take (R - k) cs @
      map2 (\<lambda>c d. if d = 1 then c else c mod d) (drop (R - k) cs) (drop (r - k) shn)" for k
  define M where "M k = dot (map2 (mod) (drop (R - k) cs) (drop (r - k) shn)) (drop (r - k) stn)" for k
  let ?f = "\<lambda>i (idxPerRank, minIdx). do {
         d \<leftarrow> rd ?min (int r - i);
         x \<leftarrow> (if d = 1 then Some 0 else rd idxPerRank (int R - i - 1));
         if d = 1 \<or> x = 0 then Some (idxPerRank, minIdx)
         else do {
           idxPerRank \<leftarrow> (if x \<ge> d then do { m \<leftarrow> mod32 x d; wr idxPerRank (int R - i - 1) m }
                          else Some idxPerRank);
           x \<leftarrow> rd idxPerRank (int R - i - 1);
           str \<leftarrow> shape_stride ?min;
           s \<leftarrow> rd str (int r - i - 1);
           t \<leftarrow> i32 (x * s);
           minIdx \<leftarrow> i64 (minIdx + t);
           Some (idxPerRank, minIdx) } }"
  have loop: "mfor ?f [0..int r - 1] (A 0, M 0) = Some (A r, M r)"
  proof (rule mfor_trace [of r ?f "\<lambda>k. (A k, M k)"])
    fix k assume k: "k < r"
    define q where "q = R - Suc k"
    define p where "p = r - Suc k"
    have qp: "q < R" "p < r" "R - k = Suc q" "r - k = Suc p" "int R - int k - 1 = int q"
      "int r - int k - 1 = int p" "int r - int k = 1 + int p"
      using k len by (auto simp: q_def p_def)
    let ?c = "cs ! q" and ?d = "shn ! p" and ?s = "stn ! p"
    let ?u = "if ?d = 1 then ?c else ?c mod ?d"
    have dp: "0 < ?d" using shp(4) qp len by (simp add: pos_shape_nth)
    have c0: "0 \<le> ?c" "?c \<le> 2147483647"
    proof -
      have "?c < shx ! q" "0 \<le> ?c"
        using in_box_nth [OF c_coords_in_box, of shx x q] shp qp by (auto simp: cs_def R_def small_shape_def)
      moreover have "shx ! q \<le> prod_list shx"
        using shp qp by (intro dim_le_prod) (auto simp: small_shape_def R_def)
      ultimately show "0 \<le> ?c" "?c \<le> 2147483647" using shp by (auto simp: small_shape_def)
    qed
    have s0: "0 \<le> ?s" using ext(1) qp len by (simp add: nonneg_nth)
    have Ak: "length (A k) = R" "A k ! q = ?c"
      using qp len by (auto simp: A_def nth_append)
    have AS: "A (Suc k) = (A k)[q := ?u]"
      using qp len
      by (simp add: A_def q_def [symmetric] p_def [symmetric] take_Suc_conv_app_nth list_update_append
          flip: Cons_nth_drop_Suc)
    have MS: "M (Suc k) = M k + (?c mod ?d) * ?s"
      using qp len
      by (simp add: M_def q_def [symmetric] p_def [symmetric] flip: Cons_nth_drop_Suc)
    have Mbound: "0 \<le> M j \<and> M j \<le> 2147483647" if "j \<le> r" for j
    proof -
      have box: "in_box (drop (r - j) shn) (map2 (mod) (drop (R - j) cs) (drop (r - j) shn))"
        using shp(4) len that by (intro map2_mod_box pos_shape_drop) auto
      have "M j \<le> extent (drop (r - j) shn) (drop (r - j) stn)"
        unfolding M_def using box ext(1) by (intro dot_le_extent nonneg_drop)
      also have "\<dots> \<le> extent shn stn"
        using shp(4) ext(1) len by (intro extent_drop_le) auto
      finally show ?thesis
        using ext dot_nonneg [OF in_box_nonneg [OF box] nonneg_drop [OF ext(1), of "r - j"]]
        by (simp add: M_def)
    qed
    have t: "i32 ((?c mod ?d) * ?s) = Some ((?c mod ?d) * ?s)" "i64 (M k + (?c mod ?d) * ?s) = Some (M (Suc k))"
    proof -
      have "0 \<le> (?c mod ?d) * ?s" using s0 dp by simp
      moreover have "(?c mod ?d) * ?s \<le> M (Suc k)" using MS Mbound [of k] k by linarith
      ultimately show "i32 ((?c mod ?d) * ?s) = Some ((?c mod ?d) * ?s)"
        "i64 (M k + (?c mod ?d) * ?s) = Some (M (Suc k))"
        using Mbound [of "Suc k"] k MS by (auto simp: i32_def i64_def)
    qed
    have reads: "rd ?min (int r - int k) = Some ?d" "shape_stride ?min = Some (stn @ [offn, ewsn, ordn])"
      "rd (stn @ [offn, ewsn, ordn]) (int p) = Some ?s" "rd (A k) (int q) = Some ?c"
      using qp len dims(2) Ak rd_shape_mk_info [of p shn "1 + int p"]
      by (auto simp: info_simps nth_append)
    consider "?d = 1 \<or> ?c = 0" | "?d \<noteq> 1" "?c \<noteq> 0" "?d \<le> ?c" | "?d \<noteq> 1" "?c \<noteq> 0" "?c < ?d"
      by linarith
    then show "?f (int k) (A k, M k) = Some (A (Suc k), M (Suc k))"
    proof cases
      case 1
      then have "A (Suc k) = A k" "M (Suc k) = M k"
        using AS Ak MS qp by (auto simp: list_update_same_conv)
      then show ?thesis using 1 reads qp by auto
    next
      case 2
      have "mod32 ?c ?d = Some (?c mod ?d)" using c0 dp by (simp add: mod32_nonneg)
      moreover have "wr (A k) (int q) (?c mod ?d) = Some (A (Suc k))"
        using AS 2 Ak qp by (simp add: wr_def)
      moreover have "rd (A (Suc k)) (int q) = Some (?c mod ?d)"
        using AS 2 Ak qp by simp
      ultimately show ?thesis using 2 reads qp t by simp
    next
      case 3
      then have "?c mod ?d = ?c" using c0 by simp
      moreover from this have "A (Suc k) = A k" using AS Ak qp 3 by (auto simp: list_update_same_conv)
      ultimately show ?thesis using 3 reads qp t by simp
    qed
  qed
  have start: "A 0 = cs" "M 0 = 0" using len by (simp_all add: A_def M_def)
  have "ptr ?max 1 = Some (shx @ stx @ [offx, ewsx, ordx])"
    using shapeOf_mk_info by (simp add: shapeOf_def)
  then have "subArrayIndex ?max ?min x =
      mfor ?f [0..int r - 1] (A 0, M 0) \<bind> (\<lambda>(idxPerRank, minIdx). Some minIdx)"
    using coords
    by (simp add: subArrayIndex_def info_simps start flip: R_def r_def)
  also have "\<dots> = Some (M r)"
    unfolding loop by simp
  finally show ?thesis by (simp add: M_def R_def r_def cs_def)
qed

section \<open>Properties\<close>

text \<open>C10: Row-major addressing is a round trip: for every linear index of a shape whose length fits an
  \<open>int\<close>, \<open>ind2subC\<close> gives coordinates inside the shape, and \<open>getOffset\<close> with the strides
  of \<open>calcStrides\<close> maps these coordinates back to the index.\<close>

theorem row_major_roundtrip:
  assumes "small_shape sh" "0 \<le> x" "x < prod_list sh"
  shows "\<exists>st idx. calcStrides1_new sh (int (length sh)) = Some st \<and>
           ind2subC_infer_new (int (length sh)) sh x = Some idx \<and> in_box sh idx \<and>
           getOffset 0 sh st idx (int (length sh)) = Some x"
  using c_order.decode_encode [OF assms] by (auto simp: c_encode_def c_decode_def split: bind_splits)

theorem row_major_roundtrip_witness:
  "\<exists>st idx. calcStrides1_new [2, 3, 4] 3 = Some st \<and>
     ind2subC_infer_new 3 [2, 3, 4] 17 = Some idx \<and> in_box [2, 3, 4] idx \<and>
     getOffset 0 [2, 3, 4] st idx 3 = Some 17"
  using row_major_roundtrip [of "[2, 3, 4]" 17] by (simp add: small_shape_def)

text \<open>C34: Column-major addressing is a bijection: \<open>ind2sub\<close> after \<open>sub2Ind\<close> gives back every
  coordinate vector inside the shape, and different coordinates have different indices, all
  below the length.\<close>

theorem column_major_roundtrip:
  assumes "small_shape sh" "in_box sh idx" "in_box sh idx'"
  shows "\<exists>x. sub2Ind (int (length sh)) sh idx = Some x \<and> 0 \<le> x \<and> x < prod_list sh \<and>
           ind2sub_infer_new (int (length sh)) sh x = Some idx \<and>
           (sub2Ind (int (length sh)) sh idx' = Some x \<longrightarrow> idx' = idx)"
  using f_order.encode_decode [OF assms(1,2)] f_order.encode_inject [OF assms]
  by (auto simp: f_encode_def f_decode_def)

theorem column_major_roundtrip_witness:
  "\<exists>x. sub2Ind 2 [2, 3] [1, 2] = Some x \<and> 0 \<le> x \<and> x < 6 \<and>
     ind2sub_infer_new 2 [2, 3] x = Some [1, 2] \<and>
     (sub2Ind 2 [2, 3] [0, 2] = Some x \<longrightarrow> [0, 2] = [1, 2 :: int])"
  using column_major_roundtrip [of "[2, 3]" "[1, 2]" "[0, 2]"] by (simp add: small_shape_def)

text \<open>On an array with row-major strides \<open>computeIndices\<close> lists every offset of the array
  exactly once.\<close>

theorem computeIndices_covers:
  assumes "small_shape sh" "dims_ok sh (c_strides sh)"
  shows "\<exists>offs. computeIndices_buf (mk_info sh (c_strides sh) off ews ord) = Some offs \<and>
           distinct offs \<and> set offs = {0..<prod_list sh}"
proof -
  have pos: "pos_shape sh" "prod_list sh \<le> 2147483647" using assms(1) by (simp_all add: small_shape_def)
  have "dot idx (c_strides sh) \<le> 9223372036854775807" if "in_box sh idx" for idx
    using c_linear_range [OF that] pos(2) by simp
  then have "computeIndices (int (length sh)) (sh @ c_strides sh @ [off, ews, ord]) (c_strides sh @ [off, ews, ord]) =
        Some (map (\<lambda>k. dot (f_coords sh (int k)) (c_strides sh)) [0..<nat (prod_list sh)])"
    using assms(1) nonneg_c_strides [OF pos(1)] by (intro computeIndices_eq) simp_all
  then show ?thesis
    using distinct_c_offsets [OF pos(1)] assms(2) by (simp add: computeIndices_buf_def info_simps)
qed

theorem computeIndices_covers_witness:
  "\<exists>offs. computeIndices_buf [2, 2, 3, 3, 1, 0, 1, 99] = Some offs \<and> distinct offs \<and> set offs = {0..<6}"
  using computeIndices_covers [of "[2, 3]" 0 1 99] by (simp add: small_shape_def dims_ok_def mk_info_def)

lemma getOffset_reject:
  assumes "n = length sh" "length st = n" "length idx = n" "j < n" "sh ! j \<le> idx ! j" "sh ! j \<noteq> 1"
    and "in_box (take j sh) (take j idx)" "nonneg st" "dot (take j idx) (take j st) \<le> 9223372036854775807"
  shows "getOffset 0 sh st idx (int n) = Some (- 1)"
proof -
  let ?f = "\<lambda>i offset. do {
         x \<leftarrow> rd idx i;
         d \<leftarrow> rd sh i;
         if x \<ge> d \<and> d \<noteq> 1 then Some (Inl (- 1 :: int))
         else if d \<noteq> 1 then do {
           s \<leftarrow> rd st i;
           t \<leftarrow> i64 (x * s);
           offset \<leftarrow> i64 (offset + t);
           Some (Inr offset) }
         else Some (Inr offset) }"
  define g where "g k = dot (take k idx) (take k st)" for k
  have nn: "nonneg (take j idx)" using assms(7) by (rule in_box_nonneg)
  have box: "0 \<le> idx ! k \<and> idx ! k < sh ! k" if "k < j" for k
    using in_box_nth [OF assms(7), of k] that assms(1,4) by simp
  have "mret ?f [0..int j - 1] (g 0) = Some (Inr (g j))"
  proof (rule mret_trace)
    fix k assume k: "k < j"
    have gS: "g (Suc k) = g k + idx ! k * st ! k"
      using k assms by (simp add: g_def dot_take_Suc)
    have "0 \<le> st ! k" using assms k by (simp add: nonneg_nth)
    then have t0: "0 \<le> idx ! k * st ! k" using box [OF k] by simp
    have "g i = dot (take i (take j idx)) (take i (take j st))" if "i \<le> j" for i
      using that by (simp add: g_def min_absorb1)
    then have "0 \<le> g k" "g (Suc k) \<le> 9223372036854775807"
      using k dot_nonneg [OF nonneg_take [OF nn] nonneg_take [OF nonneg_take [OF assms(8)]], of k k j]
        dot_take_le [OF nn nonneg_take [OF assms(8)], of j "Suc k"] assms
      by (auto simp: min_absorb1)
    then show "?f (int k) (g k) = Some (Inr (g (Suc k)))"
      using k assms box [OF k] t0 gS by (auto simp: i64_def)
  qed
  moreover have "?f (int j) (g j) = Some (Inl (- 1))" using assms by simp
  ultimately have "mret ?f ([0..int j - 1] @ int j # [int j + 1..int n - 1]) (g 0) = Some (Inl (- 1))"
    unfolding mret_append mret.simps by (simp only: Option.bind.simps sum.case)
  moreover have "[0..int j - 1] @ int j # [int j + 1..int n - 1] = [0..int n - 1]"
    using assms(4) upto_split3 [of 0 "int j" "int n - 1"] by simp
  ultimately show ?thesis by (simp add: getOffset_def g_def)
qed

text \<open>\<open>getOffset\<close> from base offset 0 (\<open>getOffset_eq\<close> has any other): coordinates inside the shape give the strided sum, and
  coordinates whose first \<open>j\<close> entries are inside and whose entry \<open>j\<close> is too large are answered with \<open>-1\<close> unless axis
  \<open>j\<close> has length one; a coordinate on an axis of length one is not looked at.\<close>

theorem getOffset_bounds_check:
  assumes "length st = length sh" "length idx = length sh" "nonneg st" "nonneg idx"
    and "dot idx st \<le> 9223372036854775807"
  shows "(in_box sh idx \<longrightarrow> getOffset 0 sh st idx (int (length sh)) = Some (dot idx st)) \<and>
         (\<forall>j<length sh. in_box (take j sh) (take j idx) \<longrightarrow> sh ! j \<le> idx ! j \<longrightarrow> sh ! j \<noteq> 1 \<longrightarrow>
            getOffset 0 sh st idx (int (length sh)) = Some (- 1))"
proof (intro conjI allI impI)
  assume "in_box sh idx"
  then show "getOffset 0 sh st idx (int (length sh)) = Some (dot idx st)"
    using getOffset_eq [of "length sh" sh sh st st idx idx 0] assms by simp
next
  fix j assume "j < length sh" "in_box (take j sh) (take j idx)" "sh ! j \<le> idx ! j" "sh ! j \<noteq> 1"
  moreover have "dot (take j idx) (take j st) \<le> 9223372036854775807"
    using dot_take_le [OF assms(4,3), of j] assms by simp
  ultimately show "getOffset 0 sh st idx (int (length sh)) = Some (- 1)"
    using assms by (intro getOffset_reject) auto
qed

theorem getOffset_bounds_check_witness:
  "getOffset 0 [2, 3] [3, 1] [1, 3] 2 = Some (- 1)"
  using getOffset_bounds_check [of "[3, 1]" "[2, 3]" "[1, 3]"]
  by (simp add: nonneg_def all_conj_distrib less_Suc_eq numeral_2_eq_2)

text \<open>\<open>subArrayIndex\<close> tiles the smaller array over the larger one: the result is the offset
  of the trailing coordinates of the linear index, each reduced modulo the smaller axis.\<close>

theorem subArrayIndex_tiles:
  assumes "dims_ok shx stx" "dims_ok shn stn" "length shn \<le> length shx"
    and "small_shape shx" "0 \<le> x" "x < prod_list shx" "pos_shape shn"
    and "nonneg stn" "extent shn stn \<le> 2147483647"
  shows "subArrayIndex (mk_info shx stx offx ewsx ordx) (mk_info shn stn offn ewsn ordn) x =
         Some (dot (map2 (mod) (drop (length shx - length shn) (c_coords shx x)) shn) stn)"
  using subArrayIndex_eq [OF assms] .

theorem subArrayIndex_tiles_witness:
  "subArrayIndex (mk_info [4, 6] [6, 1] 0 1 99) (mk_info [2, 3] [3, 1] 0 1 99) 16 = Some 1"
  using subArrayIndex_tiles [of "[4, 6]" "[6, 1]" "[2, 3]" "[3, 1]" 16 0 1 99 0 1 99]
  by (simp add: dims_ok_def small_shape_def nonneg_def extent_def)

end
