(* ===== verification/Permute.thy ===== *)
theory Permute
  imports Indexing
begin

text \<open>
  Permuting the axes of an array (\<open>include/helpers/shape.h\<close>): the checks and the
  in-place swaps, \<open>doPermuteShapeBuffer\<close> in its four overloads, \<open>getOrder\<close>, which
  classifies strides, and \<open>transposeInplace\<close>. An in-place operation returns the new
  contents of the array it changes.
\<close>

section \<open>The code\<close>

definition doPermuteSwap_new :: "int \<Rightarrow> int list \<Rightarrow> int list \<Rightarrow> int list option" where
  "doPermuteSwap_new len shp rearrange = do {
     ret \<leftarrow> new_int len;
     mfor (\<lambda>i ret. do { j \<leftarrow> rd rearrange i; v \<leftarrow> rd shp j; wr ret i v }) [0..len - 1] ret }"

definition doPermuteSwap :: "int \<Rightarrow> int list \<Rightarrow> int list \<Rightarrow> int list option" where
  "doPermuteSwap len shp rearrange =
     (if len = 1 then Some shp
      else do {
        p \<leftarrow> shape_prodLong shp len;
        if p < 2 then Some shp
        else do {
          inOrder \<leftarrow> mfor (\<lambda>i inOrder.
              if inOrder then do {
                a \<leftarrow> rd rearrange i;
                a1 \<leftarrow> i32 (a + 1);
                b \<leftarrow> rd rearrange (i + 1);
                Some (a1 = b) }
              else Some False) [0..len - 1 - 1] True;
          if inOrder then Some shp
          else if len = 2 then do {
            shapeFirst \<leftarrow> rd shp 0;
            shapeSecond \<leftarrow> rd shp 1;
            shp \<leftarrow> wr shp 0 shapeSecond;
            wr shp 1 shapeFirst }
          else if len = 1 then Some shp
          else do {
            temp \<leftarrow> new_int len;
            temp \<leftarrow> memcpy_int temp shp len;
            mfor (\<lambda>i shp. do { j \<leftarrow> rd rearrange i; v \<leftarrow> rd temp j; wr shp i v })
              [0..len - 1] shp } } })"

definition getOrder :: "int \<Rightarrow> int list \<Rightarrow> int list \<Rightarrow> int \<Rightarrow> int option" where
  "getOrder len shp str elementStride = do {
     q \<leftarrow> mret (\<lambda>i sd. do {
         dim \<leftarrow> rd shp i;
         s \<leftarrow> rd str i;
         if s \<noteq> sd then Some (Inl False)
         else if dim = 0 then Some (Inl True)
         else do { sd \<leftarrow> i32 (sd * dim); Some (Inr sd) } }) (rev [0..len - 1]) 1;
     let cContiguous = (case q of Inl c \<Rightarrow> c | Inr _ \<Rightarrow> True);
     q \<leftarrow> mret (\<lambda>i (sd, isFortran). do {
         dim \<leftarrow> rd shp i;
         s \<leftarrow> rd str i;
         let isFortran = (if s \<noteq> sd then False else isFortran);
         if dim = 0 then Some (Inl isFortran)
         else do { sd \<leftarrow> i32 (sd * dim); Some (Inr (sd, isFortran)) } })
       [0..len - 1] (elementStride, True);
     let isFortran = (case q of Inl f \<Rightarrow> f | Inr (sd, f) \<Rightarrow> f);
     Some (if isFortran \<and> cContiguous then 97
           else if isFortran \<and> \<not> cContiguous then 102
           else 99) }"

text \<open>What every overload of \<open>doPermuteShapeBuffer\<close> does to the buffer.\<close>

definition permute_axes :: "int \<Rightarrow> int list \<Rightarrow> int list \<Rightarrow> int list option" where
  "permute_axes rnk shapeBuffer rearrange = do {
     r \<leftarrow> shape_rank shapeBuffer;
     shapeBuffer \<leftarrow> on_ptr shapeBuffer 1 (\<lambda>shp. doPermuteSwap rnk shp rearrange);
     shapeBuffer \<leftarrow> on_ptr shapeBuffer (1 + r) (\<lambda>str. doPermuteSwap rnk str rearrange);
     n \<leftarrow> shapeInfoLength rnk;
     shapeBuffer \<leftarrow> wr shapeBuffer (n - 2) (- 1);
     shp \<leftarrow> ptr shapeBuffer 1;
     str \<leftarrow> ptr shapeBuffer (1 + r);
     c \<leftarrow> getOrder rnk shp str 1;
     wr shapeBuffer (n - 1) c }"

definition doPermuteShapeBuffer :: "int list \<Rightarrow> int list \<Rightarrow> int list option" where
  "doPermuteShapeBuffer shapeBuffer rearrange = do {
     s \<leftarrow> isScalar shapeBuffer;
     if s \<noteq> 0 then Some shapeBuffer
     else do { rnk \<leftarrow> shape_rank shapeBuffer; permute_axes rnk shapeBuffer rearrange } }"

text \<open>The second component is the temporary buffer of the caller.\<close>

definition doPermuteShapeBuffer_tmp ::
    "int list \<Rightarrow> int list \<Rightarrow> int list \<Rightarrow> (int list \<times> int list) option" where
  "doPermuteShapeBuffer_tmp shapeBuffer rearrange tmpBuffer = do {
     rnk \<leftarrow> shape_rank shapeBuffer;
     tmpBuffer \<leftarrow> copyOf rnk rearrange tmpBuffer;
     shapeBuffer \<leftarrow> permute_axes rnk shapeBuffer tmpBuffer;
     Some (shapeBuffer, tmpBuffer) }"

definition doPermuteShapeBuffer_rank :: "int \<Rightarrow> int list \<Rightarrow> int list \<Rightarrow> int list option" where
  "doPermuteShapeBuffer_rank rnk shapeBuffer rearrange = do {
     rearrangeCopy \<leftarrow> copyOf_new rnk rearrange;
     permute_axes rnk shapeBuffer rearrangeCopy }"

text \<open>\<open>tmpBuffer\<close> is \<open>None\<close> when the caller passes \<open>shapeBuffer\<close> itself.\<close>

definition doPermuteShapeBuffer_rank_tmp ::
    "int \<Rightarrow> int list \<Rightarrow> int list \<Rightarrow> int list option \<Rightarrow> (int list \<times> int list option) option" where
  "doPermuteShapeBuffer_rank_tmp rnk shapeBuffer rearrange tmpBuffer = do {
     tmpBuffer \<leftarrow> (case tmpBuffer of None \<Rightarrow> Some None
                   | Some t \<Rightarrow> map_option Some (copyOf rnk shapeBuffer t));
     shapeBuffer \<leftarrow> permute_axes rnk shapeBuffer rearrange;
     Some (shapeBuffer, tmpBuffer) }"

definition permuteShapeBufferInPlace ::
    "int list \<Rightarrow> int list \<Rightarrow> int list option \<Rightarrow> (int list \<times> int list option) option" where
  "permuteShapeBufferInPlace shapeBuffer rearrange out = do {
     rnk \<leftarrow> shape_rank shapeBuffer;
     n \<leftarrow> shapeInfoLength rnk;
     out \<leftarrow> (case out of None \<Rightarrow> Some None
             | Some t \<Rightarrow> map_option Some (memcpy_int t shapeBuffer n));
     doPermuteShapeBuffer_rank_tmp rnk shapeBuffer rearrange out }"

definition permuteShapeBuffer :: "int list \<Rightarrow> int list \<Rightarrow> int list option" where
  "permuteShapeBuffer shapeBuffer rearrange = do {
     rnk \<leftarrow> shape_rank shapeBuffer;
     len \<leftarrow> shapeInfoLength rnk;
     copy \<leftarrow> copyOf_new len shapeBuffer;
     doPermuteShapeBuffer copy rearrange }"

definition createPermuteIndexes :: "int \<Rightarrow> int list \<Rightarrow> int \<Rightarrow> int list option" where
  "createPermuteIndexes originalRank dimension dimensionLength = do {
     delta \<leftarrow> i32 (originalRank - dimensionLength);
     ret \<leftarrow> new_int originalRank;
     ret \<leftarrow> mfor (\<lambda>i ret. wr ret i (i + dimensionLength)) [0..delta - 1] ret;
     mfor (\<lambda>i ret. wr ret i (i - delta)) [delta..originalRank - 1] ret }"

definition checkArrangeArray :: "int list \<Rightarrow> int \<Rightarrow> int \<Rightarrow> int option" where
  "checkArrangeArray arr arrLength shapeLength =
     (if arrLength \<noteq> shapeLength then Some (- 1)
      else do {
        q \<leftarrow> mret (\<lambda>i s. do {
            a \<leftarrow> rd arr i;
            Some (if a \<ge> arrLength \<or> a < 0 then Inl (- 1) else Inr s) }) [0..arrLength - 1] ();
        (case q of Inl r \<Rightarrow> Some r
         | Inr _ \<Rightarrow> do {
            q \<leftarrow> mret (\<lambda>i s. mret (\<lambda>j s.
                if i = j then Some (Inr s)
                else do {
                  a \<leftarrow> rd arr i; b \<leftarrow> rd arr j;
                  Some (if a = b then Inl (- 1) else Inr s) }) [0..arrLength - 1] s)
              [0..arrLength - 1] ();
            Some (case q of Inl r \<Rightarrow> r | Inr _ \<Rightarrow> 1) }) })"

definition permute_info :: "ShapeInformation \<Rightarrow> int list \<Rightarrow> int \<Rightarrow> ShapeInformation option" where
  "permute_info info rearrange rnk = do {
     _ \<leftarrow> checkArrangeArray rearrange rnk rnk;
     shp \<leftarrow> doPermuteSwap rnk (si_shape info) rearrange;
     str \<leftarrow> doPermuteSwap rnk (si_stride info) rearrange;
     ord \<leftarrow> getOrder rnk shp str (si_ews info);
     Some (info\<lparr>si_shape := shp, si_stride := str, si_order := ord\<rparr>) }"

definition permutedStrides :: "int list \<Rightarrow> int \<Rightarrow> int list \<Rightarrow> int list option" where
  "permutedStrides toPermute shapeRank rearrange = do {
     strideCopy \<leftarrow> copyOf_new shapeRank toPermute;
     _ \<leftarrow> checkArrangeArray rearrange shapeRank shapeRank;
     doPermuteSwap_new shapeRank strideCopy rearrange }"

definition swap_ends :: "int \<Rightarrow> int list \<Rightarrow> int list option" where
  "swap_ends rnk xs = mfor (\<lambda>e xs. do {
     tmp \<leftarrow> rd xs e;
     v \<leftarrow> rd xs (rnk - e - 1);
     xs \<leftarrow> wr xs e v;
     wr xs (rnk - e - 1) tmp }) [0..rnk div 2 - 1] xs"

definition transposeInplace :: "int list \<Rightarrow> int list option" where
  "transposeInplace shapeBuffer = do {
     rnk \<leftarrow> shape_rank shapeBuffer;
     shapeBuffer \<leftarrow> on_ptr shapeBuffer 1 (swap_ends rnk);
     shapeBuffer \<leftarrow> on_ptr shapeBuffer (1 + rnk) (swap_ends rnk);
     ord \<leftarrow> shape_order shapeBuffer;
     n \<leftarrow> shapeInfoLength_buf shapeBuffer;
     wr shapeBuffer (n - 1) (if ord = 99 then 102 else 99) }"

section \<open>Permutations\<close>

definition is_perm :: "int list \<Rightarrow> nat \<Rightarrow> bool" where
  "is_perm p n \<longleftrightarrow> length p = n \<and> distinct p \<and> set p \<subseteq> {0..<int n}"

definition permute_list :: "int list \<Rightarrow> 'a list \<Rightarrow> 'a list" where
  "permute_list p xs = map (\<lambda>i. xs ! nat i) p"

lemma length_permute_list [simp]: "length (permute_list p xs) = length p"
  by (simp add: permute_list_def)

lemma is_perm_set: "is_perm p n \<Longrightarrow> set p = {0..<int n}"
  by (intro card_subset_eq) (auto simp: is_perm_def distinct_card)

lemma is_perm_length: "is_perm p n \<Longrightarrow> length p = n"
  by (simp add: is_perm_def)

lemma is_perm_nth: "is_perm p n \<Longrightarrow> k < n \<Longrightarrow> 0 \<le> p ! k \<and> p ! k < int n"
  by (metis atLeastLessThan_iff is_perm_length is_perm_set nth_mem)

lemma nth_permute_list: "k < length p \<Longrightarrow> permute_list p xs ! k = xs ! nat (p ! k)"
  by (simp add: permute_list_def)

lemma bij_nat_perm: "is_perm p n \<Longrightarrow> bij_betw (\<lambda>k. nat (p ! k)) {..<n} {..<n}"
proof -
  assume p: "is_perm p n"
  have "inj_on (\<lambda>k. nat (p ! k)) {..<n}"
  proof (rule inj_onI)
    fix k l assume "k \<in> {..<n}" "l \<in> {..<n}" "nat (p ! k) = nat (p ! l)"
    then have "p ! k = p ! l"
      using is_perm_nth [OF p, of k] is_perm_nth [OF p, of l] by auto
    then show "k = l"
      using p \<open>k \<in> _\<close> \<open>l \<in> _\<close> by (simp add: is_perm_def nth_eq_iff_index_eq)
  qed
  moreover have "(\<lambda>k. nat (p ! k)) ` {..<n} \<subseteq> {..<n}"
    using is_perm_nth [OF p] by (auto simp: nat_less_iff)
  ultimately show ?thesis
    by (simp add: bij_betw_def endo_inj_surj)
qed

lemma dot_conv_sum: "length xs = length ys \<Longrightarrow> dot xs ys = (\<Sum>k<length xs. xs ! k * ys ! k)"
  by (simp add: dot_def sum_list_sum_nth atLeast0LessThan)

text \<open>Permuting shape, strides and coordinates alike keeps every offset.\<close>

lemma dot_permute_list:
  assumes "is_perm p n" "length xs = n" "length ys = n"
  shows "dot (permute_list p xs) (permute_list p ys) = dot xs ys"
proof -
  have "dot (permute_list p xs) (permute_list p ys) = (\<Sum>k<n. xs ! nat (p ! k) * ys ! nat (p ! k))"
    using is_perm_length [OF assms(1)] by (simp add: dot_conv_sum nth_permute_list)
  also have "\<dots> = (\<Sum>k<n. xs ! k * ys ! k)"
    by (rule sum.reindex_bij_betw [OF bij_nat_perm [OF assms(1)], of "\<lambda>k. xs ! k * ys ! k"])
  finally show ?thesis using assms by (simp add: dot_conv_sum)
qed

lemma in_box_permute_list:
  assumes "is_perm p (length sh)" "in_box sh idx"
  shows "in_box (permute_list p sh) (permute_list p idx)"
  using assms(2) is_perm_nth [OF assms(1)] is_perm_length [OF assms(1)]
  by (auto simp: in_box_def list_all2_conv_all_nth nth_permute_list nat_less_iff)

lemma set_permute_list:
  assumes "is_perm p (length xs)"
  shows "set (permute_list p xs) = set xs"
proof -
  have "set (permute_list p xs) = (\<lambda>i. xs ! nat i) ` {0..<int (length xs)}"
    using is_perm_set [OF assms] by (simp add: permute_list_def)
  also have "{0..<int (length xs)} = int ` {..<length xs}"
    by (auto simp: image_int_atLeastLessThan simp flip: lessThan_atLeast0)
      (metis lessThan_iff nat_0_le nat_less_iff rev_image_eqI)
  finally show ?thesis by (auto simp: image_image set_conv_nth)
qed

lemma pos_shape_permute_list: "is_perm p (length xs) \<Longrightarrow> pos_shape (permute_list p xs) = pos_shape xs"
  by (simp add: pos_shape_def list_all_iff set_permute_list)

lemma prod_list_conv_prod: "prod_list xs = (\<Prod>k<length xs. xs ! k)" for xs :: "int list"
  by (induction xs rule: rev_induct) (simp_all add: nth_append)

lemma prod_list_permute_list:
  assumes "is_perm p (length xs)"
  shows "prod_list (permute_list p xs) = prod_list (xs :: int list)"
proof -
  have "prod_list (permute_list p xs) = (\<Prod>k<length xs. xs ! nat (p ! k))"
    using is_perm_length [OF assms] by (simp add: prod_list_conv_prod nth_permute_list)
  also have "\<dots> = (\<Prod>k<length xs. xs ! k)"
    by (rule prod.reindex_bij_betw [OF bij_nat_perm [OF assms], of "\<lambda>k. xs ! k"])
  finally show ?thesis by (simp add: prod_list_conv_prod)
qed

section \<open>Correctness of the swaps\<close>

lemma in_order_perm:
  assumes "is_perm p n" "\<And>k. Suc k < n \<Longrightarrow> p ! k + 1 = p ! Suc k" "k < n"
  shows "p ! k = int k"
proof -
  have shift: "p ! j = p ! 0 + int j" if "j < n" for j
    using that by (induction j) (use assms(2) in force)+
  have "0 \<le> p ! 0" "p ! (n - 1) < int n"
    using is_perm_nth [OF assms(1), of 0] is_perm_nth [OF assms(1), of "n - 1"] assms(3) by auto
  then have "p ! 0 = 0" using shift [of "n - 1"] assms(3) by auto
  then show ?thesis using shift [OF assms(3)] by simp
qed

lemma permute_list_id:
  assumes "length p = length xs" "\<And>k. k < length xs \<Longrightarrow> p ! k = int k"
  shows "permute_list p xs = xs"
  by (rule nth_equalityI) (simp_all add: assms nth_permute_list)

lemma perm_2:
  assumes "is_perm p 2"
  shows "p = [0, 1] \<or> p = [1, 0]"
proof -
  obtain a b where p: "p = [a, b]" using list_of_2 is_perm_length [OF assms] by blast
  have "0 \<le> a \<and> a < 2" "0 \<le> b \<and> b < 2" "a \<noteq> b"
    using is_perm_nth [OF assms, of 0] is_perm_nth [OF assms, of 1] assms
    by (auto simp: p is_perm_def)
  then have "a = 0 \<and> b = 1 \<or> a = 1 \<and> b = 0" by linarith
  then show ?thesis by (auto simp: p)
qed

lemma permute_ones:
  assumes "is_perm p (length sh)" "\<forall>x\<in>set sh. x = 1"
  shows "permute_list p sh = sh"
proof (rule nth_equalityI)
  fix k assume "k < length (permute_list p sh)"
  then have k: "k < length sh" using is_perm_length [OF assms(1)] by simp
  then have "nat (p ! k) < length sh"
    using is_perm_nth [OF assms(1) k] by (simp add: nat_less_iff)
  then have "sh ! nat (p ! k) = 1" "sh ! k = 1" using assms(2) k by (metis nth_mem)+
  then show "permute_list p sh ! k = sh ! k"
    using k is_perm_length [OF assms(1)] by (simp add: nth_permute_list)
qed (simp add: is_perm_length [OF assms(1)])

lemma in_order_loop:
  assumes "n \<le> length pp" "\<And>k. k < n \<Longrightarrow> pp ! k \<in> {0..<int n}" "int n \<le> 2147483647" "0 < n"
  shows "mfor (\<lambda>i inOrder.
              if inOrder then do {
                a \<leftarrow> rd pp i;
                a1 \<leftarrow> i32 (a + 1);
                b \<leftarrow> rd pp (i + 1);
                Some (a1 = b) }
              else Some False) [0..int (n - 1) - 1] True =
         Some (\<forall>k. Suc k < n \<longrightarrow> pp ! k + 1 = pp ! Suc k)"
proof -
  let ?f = "\<lambda>i inOrder.
              if inOrder then do {
                a \<leftarrow> rd pp i;
                a1 \<leftarrow> i32 (a + 1);
                b \<leftarrow> rd pp (i + 1);
                Some (a1 = b) }
              else Some False"
  define g where "g j = (\<forall>k<j. pp ! k + 1 = pp ! Suc k)" for j
  have "mfor ?f [0..int (n - 1) - 1] (g 0) = Some (g (n - 1))"
  proof (rule mfor_trace)
    fix k assume k: "k < n - 1"
    have "rd pp (int k) = Some (pp ! k)" "rd pp (int k + 1) = Some (pp ! Suc k)"
      using k assms(1) by (auto simp: rd_def nat_add_distrib)
    moreover have "i32 (pp ! k + 1) = Some (pp ! k + 1)"
    proof -
      have "k < n" using k by simp
      from assms(2) [OF this] show ?thesis using assms(3) by (auto simp: i32_def)
    qed
    ultimately show "?f (int k) (g k) = Some (g (Suc k))"
      by (auto simp: g_def less_Suc_eq)
  qed
  moreover have "g (n - 1) = (\<forall>k. Suc k < n \<longrightarrow> pp ! k + 1 = pp ! Suc k)"
    using assms(4) by (auto simp: g_def less_diff_conv)
  ultimately show ?thesis by (simp add: g_def)
qed

lemma gather_loop:
  assumes "n \<le> length pp" "take n pp = p" "is_perm p n" "length src = n" "n \<le> length ret"
  shows "mfor (\<lambda>i ret. do { j \<leftarrow> rd pp i; v \<leftarrow> rd src j; wr ret i v }) [0..int n - 1] ret =
         Some (permute_list p src @ drop n ret)"
proof -
  have "mfor (\<lambda>i ret. do { j \<leftarrow> rd pp i; v \<leftarrow> rd src j; wr ret i v }) [0..int n - 1] ret =
        Some (map (\<lambda>k. src ! nat (p ! k)) [0..<n] @ drop n ret)"
  proof (rule mfor_fill)
    fix k r assume k: "k < n"
    have "rd pp (int k) = Some (p ! k)" using assms(1,2) k by auto
    moreover have "rd src (p ! k) = Some (src ! nat (p ! k))"
      using is_perm_nth [OF assms(3) k] assms(4) by (simp add: rd_def)
    ultimately show "do { j \<leftarrow> rd pp (int k); v \<leftarrow> rd src j; wr r (int k) v } = wr r (int k) (src ! nat (p ! k))"
      by simp
  qed (rule assms(5))
  moreover have "map (\<lambda>k. src ! nat (p ! k)) [0..<n] = permute_list p src"
    using is_perm_length [OF assms(3)] by (intro nth_equalityI) (auto simp: nth_permute_list)
  ultimately show ?thesis by simp
qed

lemma doPermuteSwap_eq:
  assumes "n = length sh" "n \<le> length shp" "take n shp = sh" "n \<le> length pp" "take n pp = p"
    and "is_perm p n" "pos_shape sh" "prod_list sh \<le> 9223372036854775807" "int n \<le> 2147483647"
  shows "doPermuteSwap (int n) shp pp = Some (permute_list p sh @ drop n shp)"
proof -
  have lp: "length p = length sh" using assms(1,6) by (simp add: is_perm_length)
  have prod: "shape_prodLong shp (int n) = Some (prod_list sh)"
    using shape_prodLong_eq [of n shp] assms by simp
  have split: "sh @ drop n shp = shp" using assms(3) append_take_drop_id by blast
  let ?ord = "\<forall>k. Suc k < n \<longrightarrow> pp ! k + 1 = pp ! Suc k"
  have pp: "pp ! k = p ! k" if "k < n" for k using assms(5) that by auto
  consider "n = 1" | "n \<noteq> 1" "prod_list sh < 2" | "n \<noteq> 1" "\<not> prod_list sh < 2" by blast
  then show ?thesis
  proof cases
    case 1
    then have "p ! 0 = 0" using is_perm_nth [OF assms(6), of 0] by simp
    then have "permute_list p sh = sh"
      using 1 assms(1) by (intro permute_list_id [OF lp]) simp
    then show ?thesis using 1 split by (simp add: doPermuteSwap_def)
  next
    case 2
    have "\<forall>x\<in>set sh. x = 1"
      using dim_le_prod [OF assms(7)] assms(7) 2 by (fastforce simp: pos_shape_def list_all_iff)
    then have "permute_list p sh = sh"
      using assms(1,6) by (intro permute_ones) auto
    then show ?thesis using 2 split prod by (simp add: doPermuteSwap_def)
  next
    case 3
    have n0: "0 < n" using 3 assms(1) by (cases sh) auto
    have loop: "mfor (\<lambda>i inOrder.
              if inOrder then do {
                a \<leftarrow> rd pp i;
                a1 \<leftarrow> i32 (a + 1);
                b \<leftarrow> rd pp (i + 1);
                Some (a1 = b) }
              else Some False) [0..int n - 1 - 1] True = Some ?ord"
      using in_order_loop [OF assms(4) _ assms(9) n0] is_perm_nth [OF assms(6)] pp n0
      by (simp add: of_nat_diff)
    show ?thesis
    proof (cases ?ord)
      case True
      have cons: "Suc k < n \<Longrightarrow> p ! k + 1 = p ! Suc k" for k
        using True [rule_format, of k] pp [of k] pp [of "Suc k"] by simp
      have "p ! k = int k" if "k < length sh" for k
        by (rule in_order_perm [OF assms(6)]) (use cons that assms(1) in blast)+
      then have id: "permute_list p sh = sh" by (rule permute_list_id [OF lp])
      have "?ord = True" using True by blast
      note loop = loop [unfolded this]
      show ?thesis
        using 3 split prod loop by (simp add: doPermuteSwap_def id)
    next
      case False
      then have "?ord = False" by blast
      note loop = loop [unfolded this]
      show ?thesis
      proof (cases "n = 2")
        case True
        then have "p = [1, 0]"
          using perm_2 [of p] assms(6) False pp by (auto simp: less_Suc_eq numeral_2_eq_2)
        moreover obtain a b where ab: "sh = [a, b]"
          using list_of_2 [of sh] True assms(1) by auto
        moreover from this have "shp = a # b # drop n shp" using split by simp
        then have "shp ! 0 = a" "shp ! 1 = b" "shp[0 := b, 1 := a] = [b, a] @ drop n shp"
          by (metis nth_Cons_0, metis One_nat_def nth_Cons_0 nth_Cons_Suc,
              metis One_nat_def append.left_neutral append_Cons list_update_code(2,3))
        moreover have "shp \<noteq> []" using assms(2) True by auto
        ultimately show ?thesis
          using 3 True prod loop assms(2)
          by (simp add: doPermuteSwap_def rd_def wr_def permute_list_def)
      next
        case n2: False
        have "memcpy_int (replicate n undefined) shp (int n) = Some sh"
          using assms(2,3) by (simp add: memcpy_int_def)
        moreover have "mfor (\<lambda>i shp. do { j \<leftarrow> rd pp i; v \<leftarrow> rd sh j; wr shp i v }) [0..int n - 1] shp =
            Some (permute_list p sh @ drop n shp)"
          using gather_loop [OF assms(4,5,6), of sh shp] assms(1,2) by simp
        ultimately show ?thesis
          using 3 n2 prod loop by (simp add: doPermuteSwap_def)
      qed
    qed
  qed
qed

section \<open>The order of strides\<close>

definition order_of :: "int list \<Rightarrow> int list \<Rightarrow> int" where
  "order_of sh st = (if st = f_strides sh \<and> st = c_strides sh then 97
                     else if st = f_strides sh then 102 else 99)"

lemma getOrder_c_loop:
  assumes "length st = length sh" "pos_shape sh" "prod_list sh \<le> 2147483647"
    and "\<And>j. j < length sh \<Longrightarrow> rd shp (int j) = Some (sh ! j) \<and> rd str (int j) = Some (st ! j)"
    and "k \<le> length sh"
  shows "mret (\<lambda>i sd. do {
         dim \<leftarrow> rd shp i;
         s \<leftarrow> rd str i;
         if s \<noteq> sd then Some (Inl False)
         else if dim = 0 then Some (Inl True)
         else do { sd \<leftarrow> i32 (sd * dim); Some (Inr sd) } }) (rev [0..int k - 1]) (prod_list (drop k sh)) =
      Some (if \<forall>j<k. st ! j = c_strides sh ! j then Inr (prod_list sh) else Inl False)"
  using assms(5)
proof (induction k)
  case (Suc k)
  have up: "rev [0..int (Suc k) - 1] = int k # rev [0..int k - 1]"
    using upto_rec2 [of 0 "int k"] by simp
  have k: "k < length sh" using Suc.prems by simp
  then have P: "prod_list (drop (Suc k) sh) * sh ! k = prod_list (drop k sh)" "0 < sh ! k"
    using assms(2) by (simp_all add: prod_drop_Suc pos_shape_nth)
  have "0 < prod_list (drop k sh)" "prod_list (drop k sh) \<le> 2147483647"
    using prod_list_pos [OF pos_shape_drop [OF assms(2)], of k] prod_drop_le [OF assms(2), of k] assms(3)
    by auto
  then show ?case
    using Suc.IH k P assms(4) [OF k] unfolding up
    by (auto simp: i32_def nth_c_strides less_Suc_eq)
qed simp

lemma getOrder_f_loop:
  assumes "length st = length sh" "pos_shape sh" "prod_list sh \<le> 2147483647"
    and "\<And>j. j < length sh \<Longrightarrow> rd shp (int j) = Some (sh ! j) \<and> rd str (int j) = Some (st ! j)"
  shows "mret (\<lambda>i (sd, isFortran). do {
         dim \<leftarrow> rd shp i;
         s \<leftarrow> rd str i;
         let isFortran = (if s \<noteq> sd then False else isFortran);
         if dim = 0 then Some (Inl isFortran)
         else do { sd \<leftarrow> i32 (sd * dim); Some (Inr (sd, isFortran)) } })
       [0..int (length sh) - 1] (1, True) =
      Some (Inr (prod_list sh, st = f_strides sh))"
proof -
  let ?f = "\<lambda>i (sd, isFortran). do {
         dim \<leftarrow> rd shp i;
         s \<leftarrow> rd str i;
         let isFortran = (if s \<noteq> sd then False else isFortran);
         if dim = 0 then Some (Inl isFortran)
         else do { sd \<leftarrow> i32 (sd * dim); Some (Inr (sd, isFortran)) } }"
  define g where "g k = (prod_list (take k sh), \<forall>j<k. st ! j = f_strides sh ! j)" for k
  have "mret ?f [0..int (length sh) - 1] (g 0) = Some (Inr (g (length sh)))"
  proof (rule mret_trace)
    fix k assume k: "k < length sh"
    have P: "prod_list (take k sh) * sh ! k = prod_list (take (Suc k) sh)" "0 < sh ! k"
      using k assms(2) by (simp_all add: prod_take_Suc pos_shape_nth)
    have "0 < prod_list (take (Suc k) sh)" "prod_list (take (Suc k) sh) \<le> 2147483647"
      using prod_list_pos [OF pos_shape_take [OF assms(2)], of "Suc k"]
        prod_take_le [OF assms(2), of "Suc k"] assms(3) by auto
    then show "?f (int k) (g k) = Some (Inr (g (Suc k)))"
      using P assms(4) [OF k] k by (auto simp: g_def i32_def nth_f_strides less_Suc_eq Let_def)
  qed
  moreover have "(\<forall>j<length sh. st ! j = f_strides sh ! j) \<longleftrightarrow> st = f_strides sh"
    using assms(1) by (auto simp: list_eq_iff_nth_eq)
  ultimately show ?thesis by (simp add: g_def)
qed

lemma getOrder_eq:
  assumes "length st = length sh" "pos_shape sh" "prod_list sh \<le> 2147483647"
    and "\<And>j. j < length sh \<Longrightarrow> rd shp (int j) = Some (sh ! j) \<and> rd str (int j) = Some (st ! j)"
  shows "getOrder (int (length sh)) shp str 1 = Some (order_of sh st)"
proof -
  have "(\<forall>j<length sh. st ! j = c_strides sh ! j) \<longleftrightarrow> st = c_strides sh"
    using assms(1) by (auto simp: list_eq_iff_nth_eq)
  then show ?thesis
    using getOrder_c_loop [OF assms, of "length sh"] getOrder_f_loop [OF assms]
    by (simp add: getOrder_def order_of_def)
qed

section \<open>Permuting a buffer\<close>

lemma isScalar_mk_info:
  "isScalar (mk_info sh st off ews ord) = Some (if sh \<in> {[], [1], [1, 1]} then 1 else 0)"
proof -
  consider "sh = []" | a where "sh = [a]" | a b where "sh = [a, b]" | a b c r where "sh = a # b # c # r"
    by (metis neq_Nil_conv)
  then show ?thesis
    by cases (auto simp: isScalar_def info_simps rd_def)
qed

lemma on_ptr_shape:
  assumes "f (sh @ st @ [off, ews, ord]) = Some (sh' @ st @ [off, ews, ord])" "length sh' = length sh"
  shows "on_ptr (mk_info sh st off ews ord) 1 f = Some (mk_info sh' st off ews ord)"
  using assms by (simp add: on_ptr_def shapeOf_mk_info [unfolded shapeOf_def]) (simp add: mk_info_def)

lemma on_ptr_stride:
  assumes "f (st @ [off, ews, ord]) = Some (st' @ [off, ews, ord])"
  shows "on_ptr (mk_info sh st off ews ord) (1 + int (length sh)) f = Some (mk_info sh st' off ews ord)"
  using assms by (simp add: on_ptr_def ptr_stride_mk_info) (simp add: mk_info_def nat_add_distrib)

text \<open>
  \<open>permutable\<close>: the shape fits an \<open>int\<close>, the strides are positive, and their product,
  which \<open>doPermuteSwap\<close> computes, fits a \<open>Nd4jIndex\<close>.
\<close>

definition permutable :: "int list \<Rightarrow> int list \<Rightarrow> bool" where
  "permutable sh st \<longleftrightarrow> dims_ok sh st \<and> small_shape sh \<and> pos_shape st \<and>
     prod_list st \<le> 9223372036854775807"

lemma permute_axes_eq:
  assumes "permutable sh st" "is_perm p (length sh)" "length sh \<le> length pp" "take (length sh) pp = p"
  shows "permute_axes (int (length sh)) (mk_info sh st off ews ord) pp =
         Some (mk_info (permute_list p sh) (permute_list p st) off (- 1)
           (order_of (permute_list p sh) (permute_list p st)))"
proof -
  let ?sh = "permute_list p sh" and ?st = "permute_list p st" and ?n = "length sh"
  have ok: "length st = ?n" "2 * int ?n + 4 \<le> 2147483647" "pos_shape sh" "prod_list sh \<le> 2147483647"
    "pos_shape st" "prod_list st \<le> 9223372036854775807"
    using assms(1) by (auto simp: permutable_def dims_ok_def small_shape_def)
  have len: "length p = ?n" "length ?sh = ?n" "length ?st = ?n"
    using assms(2) by (simp_all add: is_perm_length)
  have s1: "on_ptr (mk_info sh st off ews ord) 1 (\<lambda>shp. doPermuteSwap (int ?n) shp pp) =
        Some (mk_info ?sh st off ews ord)"
    using doPermuteSwap_eq [of ?n sh "sh @ st @ [off, ews, ord]" pp p] assms ok len
    by (intro on_ptr_shape) auto
  have s2: "on_ptr (mk_info ?sh st off ews ord) (1 + int ?n) (\<lambda>str. doPermuteSwap (int ?n) str pp) =
        Some (mk_info ?sh ?st off ews ord)"
    using on_ptr_stride [of "\<lambda>str. doPermuteSwap (int ?n) str pp" st off ews ord ?st ?sh]
      doPermuteSwap_eq [of ?n st "st @ [off, ews, ord]" pp p] assms ok len
    by simp
  have s3: "wr (mk_info ?sh ?st off ews ord) (2 + 2 * int ?n) (- 1) = Some (mk_info ?sh ?st off (- 1) ord)"
    "wr (mk_info ?sh ?st off (- 1) ord) (3 + 2 * int ?n) c = Some (mk_info ?sh ?st off (- 1) c)" for c
    using wr_tail_mk_info [of ?st ?sh] len by auto
  have s4: "ptr (mk_info ?sh ?st off (- 1) ord) 1 = Some (?sh @ ?st @ [off, - 1, ord])"
    "ptr (mk_info ?sh ?st off (- 1) ord) (1 + int ?n) = Some (?st @ [off, - 1, ord])"
    using shapeOf_mk_info [of ?sh ?st] ptr_stride_mk_info [of ?sh ?st] len by (auto simp: shapeOf_def)
  have s5: "getOrder (int ?n) (?sh @ ?st @ [off, - 1, ord]) (?st @ [off, - 1, ord]) 1 =
        Some (order_of ?sh ?st)"
    using getOrder_eq [of ?st ?sh "?sh @ ?st @ [off, - 1, ord]" "?st @ [off, - 1, ord]"] len ok assms(2)
    by (simp add: nth_append pos_shape_permute_list prod_list_permute_list)
  show ?thesis
    using s1 s2 s3 s4 s5 ok(2)
    by (simp add: permute_axes_def info_simps add.commute)
qed

lemma doPermuteShapeBuffer_eq:
  assumes "permutable sh st" "is_perm p (length sh)" "length sh \<le> length pp" "take (length sh) pp = p"
    and "sh \<notin> {[], [1], [1, 1]}"
  shows "doPermuteShapeBuffer (mk_info sh st off ews ord) pp =
         Some (mk_info (permute_list p sh) (permute_list p st) off (- 1)
           (order_of (permute_list p sh) (permute_list p st)))"
  using permute_axes_eq [OF assms(1-4)] assms(5)
  by (simp add: doPermuteShapeBuffer_def isScalar_mk_info info_simps)

lemma doPermuteShapeBuffer_rank_eq:
  assumes "permutable sh st" "is_perm p (length sh)" "length sh \<le> length pp" "take (length sh) pp = p"
  shows "doPermuteShapeBuffer_rank (int (length sh)) (mk_info sh st off ews ord) pp =
         Some (mk_info (permute_list p sh) (permute_list p st) off (- 1)
           (order_of (permute_list p sh) (permute_list p st)))"
proof -
  have "copyOf_new (int (length sh)) pp = Some p"
    using assms(3,4) by (simp add: copyOf_new_def copyOf_def memcpy_int_def)
  then show ?thesis
    using permute_axes_eq [OF assms(1,2), of p] is_perm_length [OF assms(2)]
    by (simp add: doPermuteShapeBuffer_rank_def)
qed

lemma permuteShapeBuffer_eq:
  assumes "permutable sh st" "is_perm p (length sh)" "sh \<notin> {[], [1], [1, 1]}"
  shows "permuteShapeBuffer (mk_info sh st off ews ord) p =
         Some (mk_info (permute_list p sh) (permute_list p st) off (- 1)
           (order_of (permute_list p sh) (permute_list p st)))"
proof -
  let ?b = "mk_info sh st off ews ord"
  have ok: "length st = length sh" "2 * int (length sh) + 4 \<le> 2147483647"
    using assms(1) by (auto simp: permutable_def dims_ok_def)
  have len: "length ?b = nat (2 * int (length sh) + 4)"
    using ok(1) by (simp add: length_mk_info nat_add_distrib nat_mult_distrib)
  then have "copyOf_new (2 * int (length sh) + 4) ?b = Some ?b"
    by (simp add: copyOf_new_def copyOf_def memcpy_int_def new_int_def)
  then show ?thesis
    using doPermuteShapeBuffer_eq [OF assms(1,2), of p] is_perm_length [OF assms(2)] assms(3) ok
    by (simp add: permuteShapeBuffer_def info_simps)
qed

section \<open>The check of a rearrangement\<close>

lemma checkArrangeArray_eq:
  assumes "n \<le> length arr"
  shows "checkArrangeArray arr (int n) (int n) = Some (if is_perm (take n arr) n then 1 else - 1)"
proof -
  let ?p = "take n arr"
  have rdv: "rd arr i = Some (?p ! nat i)" if "i \<in> set [0..int n - 1]" for i
    using that assms by (auto simp: rd_def)
  have q1: "mret (\<lambda>i s. do {
            a \<leftarrow> rd arr i;
            Some (if a \<ge> int n \<or> a < 0 then Inl (- 1 :: int) else Inr s) }) [0..int n - 1] () =
        Some (if \<exists>i\<in>set [0..int n - 1]. \<not> (0 \<le> ?p ! nat i \<and> ?p ! nat i < int n) then Inl (- 1) else Inr ())"
    by (rule mret_search) (auto simp: rdv)
  have inner: "mret (\<lambda>j s. if i = j then Some (Inr s)
                else do {
                  a \<leftarrow> rd arr i; b \<leftarrow> rd arr j;
                  Some (if a = b then Inl (- 1 :: int) else Inr s) }) [0..int n - 1] s =
        Some (if \<exists>j\<in>set [0..int n - 1]. i \<noteq> j \<and> ?p ! nat i = ?p ! nat j then Inl (- 1) else Inr s)"
    if "i \<in> set [0..int n - 1]" for i and s :: unit
    by (rule mret_search) (use that in \<open>auto simp: rdv\<close>)
  have q2: "mret (\<lambda>i s. mret (\<lambda>j s. if i = j then Some (Inr s)
                else do {
                  a \<leftarrow> rd arr i; b \<leftarrow> rd arr j;
                  Some (if a = b then Inl (- 1 :: int) else Inr s) }) [0..int n - 1] s)
              [0..int n - 1] () =
        Some (if \<exists>i\<in>set [0..int n - 1]. \<exists>j\<in>set [0..int n - 1]. i \<noteq> j \<and> ?p ! nat i = ?p ! nat j
              then Inl (- 1) else Inr ())"
    by (rule mret_search) (use inner in auto)
  have range: "(\<exists>i\<in>set [0..int n - 1]. \<not> (0 \<le> ?p ! nat i \<and> ?p ! nat i < int n)) \<longleftrightarrow>
               \<not> set ?p \<subseteq> {0..<int n}"
    unfolding bex_upto_nat using assms by (auto simp: subset_iff set_conv_nth min_def)
  have dist: "(\<exists>i\<in>set [0..int n - 1]. \<exists>j\<in>set [0..int n - 1]. i \<noteq> j \<and> ?p ! nat i = ?p ! nat j) \<longleftrightarrow>
              \<not> distinct ?p"
    unfolding bex_upto_nat using assms by (auto simp: distinct_conv_nth min_def)
  show ?thesis
    unfolding checkArrangeArray_def q1 q2 range dist using assms by (auto simp: is_perm_def)
qed

section \<open>Transposition\<close>

lemma swap_ends_eq:
  assumes "length sh \<le> length xs" "take (length sh) xs = sh"
  shows "swap_ends (int (length sh)) xs = Some (rev sh @ drop (length sh) xs)"
proof -
  define n where "n = length sh"
  define h where "h k j = (if j < k \<or> n - k \<le> j \<and> j < n then xs ! (n - 1 - j) else xs ! j)" for k j
  define g where "g k = map (h k) [0..<length xs]" for k
  let ?f = "\<lambda>e xs. do {
     tmp \<leftarrow> rd xs e;
     v \<leftarrow> rd xs (int n - e - 1);
     xs \<leftarrow> wr xs e v;
     wr xs (int n - e - 1) tmp }"
  have "mfor ?f [0..int (n div 2) - 1] (g 0) = Some (g (n div 2))"
  proof (rule mfor_trace)
    fix k assume k: "k < n div 2"
    define q where "q = n - 1 - k"
    have q: "k < q" "q < n" "int n - int k - 1 = int q" "n - 1 - q = k" "n \<le> length xs"
      using k assms(1) by (auto simp: q_def n_def)
    have "g k ! k = xs ! k" "g k ! q = xs ! q"
      using k q by (auto simp: g_def h_def q_def)
    moreover have "(g k)[k := xs ! q, q := xs ! k] = g (Suc k)"
    proof (rule nth_equalityI)
      fix j assume "j < length ((g k)[k := xs ! q, q := xs ! k])"
      then have j: "j < length xs" by (simp add: g_def)
      consider "j = k" | "j = q" | "j \<noteq> k" "j \<noteq> q" by blast
      then show "(g k)[k := xs ! q, q := xs ! k] ! j = g (Suc k) ! j"
      proof cases
        case 3
        then have "h k j = h (Suc k) j" using k by (auto simp: h_def q_def)
        then show ?thesis using 3 j by (simp add: g_def)
      qed (use j k q in \<open>auto simp: g_def h_def q_def\<close>)
    qed (simp add: g_def)
    ultimately show "?f (int k) (g k) = Some (g (Suc k))"
      using q k by (simp add: g_def wr_def)
  qed
  moreover have "g 0 = xs" by (auto simp: g_def h_def intro: nth_equalityI)
  moreover have "g (n div 2) = rev sh @ drop n xs"
  proof (rule nth_equalityI)
    fix j assume "j < length (g (n div 2))"
    then have j: "j < length xs" by (simp add: g_def)
    have sh: "sh ! i = xs ! i" if "i < n" for i
      using that assms by (metis n_def nth_take)
    show "g (n div 2) ! j = (rev sh @ drop n xs) ! j"
    proof (cases "j < n")
      case True
      have "h (n div 2) j = xs ! (n - 1 - j)"
      proof (cases "j < n div 2 \<or> n - n div 2 \<le> j")
        case False
        then have "n - 1 - j = j" using True by linarith
        then show ?thesis by (simp add: h_def)
      qed (use True in \<open>auto simp: h_def\<close>)
      then show ?thesis using True j sh [of "n - 1 - j"] by (simp add: g_def nth_append rev_nth n_def)
    next
      case False
      moreover from this have "\<not> j < n div 2" by linarith
      ultimately show ?thesis using j by (simp add: g_def h_def nth_append n_def)
    qed
  qed (use assms in \<open>simp add: g_def n_def\<close>)
  ultimately show ?thesis
    by (simp add: swap_ends_def n_def zdiv_int)
qed

lemma transposeInplace_eq:
  assumes "dims_ok sh st"
  shows "transposeInplace (mk_info sh st off ews ord) =
         Some (mk_info (rev sh) (rev st) off ews (if to_char ord = 99 then 102 else 99))"
proof -
  let ?n = "length sh"
  have len: "length st = ?n" "2 * int ?n + 4 \<le> 2147483647"
    using assms by (simp_all add: dims_ok_def)
  have 1: "on_ptr (mk_info sh st off ews ord) 1 (swap_ends (int ?n)) = Some (mk_info (rev sh) st off ews ord)"
    by (rule on_ptr_shape) (simp_all add: swap_ends_eq)
  have 2: "on_ptr (mk_info (rev sh) st off ews ord) (1 + int ?n) (swap_ends (int ?n)) =
        Some (mk_info (rev sh) (rev st) off ews ord)"
    using on_ptr_stride [of "swap_ends (int ?n)" st off ews ord "rev st" "rev sh"]
      swap_ends_eq [of st "st @ [off, ews, ord]"] len by simp
  have 3: "dims_ok (rev sh) (rev st)" using assms by (simp add: dims_ok_def)
  have 4: "wr (mk_info (rev sh) (rev st) off ews ord) (3 + 2 * int ?n) v = Some (mk_info (rev sh) (rev st) off ews v)" for v
    using wr_tail_mk_info(3) [of "rev st" "rev sh"] len by simp
  show ?thesis
    using 1 2 4 shape_tail_mk_info(3) [OF 3, of off ews ord] len
    by (simp add: transposeInplace_def info_simps shapeInfoLength_buf_def)
qed

lemma createPermuteIndexes_eq:
  assumes "d \<le> r" "r \<le> 2147483647"
  shows "createPermuteIndexes (int r) dimension (int d) =
         Some (map int ([d..<r] @ [0..<d]))"
proof -
  obtain e where r: "r = e + d" using assms(1) le_Suc_ex add.commute by metis
  define ys where "ys = map int ([d..<r] @ [0..<d])"
  have ys: "length ys = r" "\<And>k. k < e \<Longrightarrow> ys ! k = int k + int d"
    "\<And>k. k < d \<Longrightarrow> ys ! (e + k) = int k"
    by (auto simp: ys_def nth_append r)
  define g where "g k = take k ys @ drop k (replicate r (undefined :: int))" for k
  have step: "wr (g k) (int k) (ys ! k) = Some (g (Suc k))" if "k < r" for k
    using that ys(1) fill_up_step [of ys "replicate r undefined" k] by (simp add: g_def wr_def)
  have "mfor (\<lambda>i ret. wr ret i (i + int d)) [0..int e - 1] (g 0) = Some (g e)"
  proof (rule mfor_trace)
    fix k assume "k < e"
    then show "wr (g k) (int k) (int k + int d) = Some (g (Suc k))"
      using step [of k] ys(2) [of k] r by simp
  qed
  moreover have "mfor (\<lambda>i ret. wr ret i (i - int e)) [int e..int e + int d - 1] (g (e + 0)) =
        Some (g (e + d))"
  proof (rule mfor_trace_from [of d _ _ "\<lambda>k. g (e + k)"])
    fix k assume k: "k < d"
    then have "wr (g (e + k)) (int (e + k)) (int k) = Some (g (Suc (e + k)))"
      using step [of "e + k"] ys(3) [of k] r by simp
    then show "wr (g (e + k)) (int e + int k) (int e + int k - int e) = Some (g (e + Suc k))"
      by simp
  qed
  moreover have "g 0 = replicate r undefined" "g (e + d) = ys"
    using ys(1) by (simp_all add: g_def r)
  moreover have "i32 (int r - int d) = Some (int e)"
    using assms r by (simp add: i32_def)
  ultimately show ?thesis
    using new_int_nat [of "e + d"] by (simp add: createPermuteIndexes_def ys_def r)
qed

section \<open>Edge cases\<close>

text \<open>
  \<open>doPermuteSwap\<close> skips arrays whose product is below two, and computes the product in 64 bits. Called on
  strides it overflows for twelve axes of size two, although the shape has 4096 elements.
\<close>

lemma permute_strides_overflow:
  "doPermuteShapeBuffer (mk_info (replicate 12 2) (c_strides (replicate 12 2)) 0 1 99) (rev [0..11]) = None"
  by code_simp

text \<open>A zero stride makes the product zero: the shape is permuted and the strides are not.\<close>

lemma permute_zero_stride:
  "doPermuteShapeBuffer (mk_info [2, 3] [0, 1] 0 1 99) [1, 0] = Some (mk_info [3, 2] [0, 1] 0 (- 1) 99)"
  by code_simp

text \<open>Given a separate output, \<open>permuteShapeBufferInPlace\<close> permutes its input and leaves a plain copy in
  the output.\<close>

lemma permuteShapeBufferInPlace_separate_output:
  "permuteShapeBufferInPlace [2, 2, 3, 3, 1, 0, 1, 99] [1, 0] (Some (replicate 8 0)) =
   Some ([2, 3, 2, 1, 3, 0, - 1, 102], Some [2, 2, 3, 3, 1, 0, 1, 99])"
  by code_simp

section \<open>Properties\<close>

lemma order_of_cases: "order_of sh st \<in> {97, 99, 102}"
  by (simp add: order_of_def)

text \<open>C11: Permuting the axes of a buffer permutes its shape and strides, marks the element-wise
  stride unknown, and moves no element: the permuted coordinates have in the new buffer the
  offset the coordinates have in the old one.\<close>

theorem permute_keeps_offsets:
  assumes "permutable sh st" "is_perm p (length sh)" "sh \<notin> {[], [1], [1, 1]}"
    and "in_box sh idx" "dot idx st \<le> 9223372036854775807"
  shows "\<exists>sh' st' c. doPermuteShapeBuffer (mk_info sh st off ews ord) p = Some (mk_info sh' st' off (- 1) c) \<and>
           c \<in> {97, 99, 102} \<and> prod_list sh' = prod_list sh \<and> in_box sh' (permute_list p idx) \<and>
           getOffset 0 sh' st' (permute_list p idx) (int (length sh)) =
           getOffset 0 sh st idx (int (length sh))"
proof -
  let ?n = "length sh" and ?sh = "permute_list p sh" and ?st = "permute_list p st"
  have len: "length st = ?n" "length p = ?n" "length idx = ?n" and nn: "nonneg st"
    using assms(1) is_perm_length [OF assms(2)] in_box_length [OF assms(4)]
    by (auto simp: permutable_def dims_ok_def pos_shape_def nonneg_def list_all_iff less_imp_le)
  have nn': "nonneg ?st" using nn set_permute_list [of p st] assms(2) len by (simp add: nonneg_def list_all_iff)
  have box: "in_box ?sh (permute_list p idx)" by (rule in_box_permute_list [OF assms(2,4)])
  have d: "dot (permute_list p idx) ?st = dot idx st"
    using dot_permute_list [OF assms(2), of idx st] len by simp
  have "getOffset 0 ?sh ?st (permute_list p idx) (int ?n) = Some (0 + dot (permute_list p idx) ?st)"
    using box nn' len assms(5) d by (intro getOffset_eq) simp_all
  moreover have "getOffset 0 sh st idx (int ?n) = Some (0 + dot idx st)"
    using nn len assms(4,5) by (intro getOffset_eq) simp_all
  ultimately show ?thesis
    using doPermuteShapeBuffer_eq [OF assms(1,2) _ _ assms(3), of p] len box d order_of_cases [of ?sh ?st]
      prod_list_permute_list [OF assms(2)]
    by (intro exI [of _ ?sh] exI [of _ ?st] exI [of _ "order_of ?sh ?st"]) simp
qed

theorem permute_keeps_offsets_witness:
  "\<exists>sh' st' c. doPermuteShapeBuffer (mk_info [2, 3, 4] [12, 4, 1] 0 1 99) [2, 0, 1] = Some (mk_info sh' st' 0 (- 1) c) \<and>
     c \<in> {97, 99, 102} \<and> prod_list sh' = 24 \<and> in_box sh' [3, 1, 2] \<and>
     getOffset 0 sh' st' [3, 1, 2] 3 = getOffset 0 [2, 3, 4] [12, 4, 1] [1, 2, 3] 3"
  using permute_keeps_offsets [of "[2, 3, 4]" "[12, 4, 1]" "[2, 0, 1]" "[1, 2, 3]" 0 1 99]
  by (simp add: permutable_def dims_ok_def small_shape_def is_perm_def permute_list_def)

text \<open>\<open>getOrder\<close> answers 'f' for column-major strides, 'a' for strides that are both
  column-major and row-major, and 'c' for all others, also for those that are neither.\<close>

theorem getOrder_classifies:
  assumes "length st = length sh" "small_shape sh"
  shows "getOrder (int (length sh)) sh st 1 =
         Some (if st = f_strides sh then (if st = c_strides sh then 97 else 102) else 99)"
  using getOrder_eq [of st sh sh st] assms by (auto simp: order_of_def small_shape_def)

theorem getOrder_classifies_witness:
  "getOrder 2 [2, 3] [1, 2] 1 = Some 102 \<and> getOrder 2 [2, 3] [1, 1] 1 = Some 99"
  using getOrder_classifies [of "[1, 2]" "[2, 3]"] getOrder_classifies [of "[1, 1]" "[2, 3]"]
  by (simp add: small_shape_def f_strides_def upt_rec)

text \<open>C39: \<open>checkArrangeArray\<close> accepts exactly the permutations of the axes and never reads outside
  its array.\<close>

theorem checkArrangeArray_iff_permutation:
  "checkArrangeArray arr (int (length arr)) n =
   Some (if n = int (length arr) \<and> distinct arr \<and> set arr = {0..<n} then 1 else - 1)"
proof (cases "n = int (length arr)")
  case True
  have "is_perm arr (length arr) \<longleftrightarrow> distinct arr \<and> set arr = {0..<int (length arr)}"
    using is_perm_set [of arr "length arr"] by (auto simp: is_perm_def)
  then show ?thesis
    using checkArrangeArray_eq [of "length arr" arr] True by simp
qed (simp add: checkArrangeArray_def)

text \<open>\<open>transposeInplace\<close> reverses shape and strides and swaps the order; applied twice to a
  buffer of order 'c' or 'f' it restores the buffer.\<close>

theorem transposeInplace_involution:
  assumes "dims_ok sh st" "ord \<in> {99, 102}"
  shows "transposeInplace (mk_info sh st off ews ord) =
           Some (mk_info (rev sh) (rev st) off ews (201 - ord)) \<and>
         transposeInplace (mk_info sh st off ews ord) \<bind> transposeInplace = Some (mk_info sh st off ews ord)"
proof -
  have "dims_ok (rev sh) (rev st)" using assms(1) by (simp add: dims_ok_def)
  then show ?thesis
    using transposeInplace_eq [OF assms(1), of off ews ord]
      transposeInplace_eq [of "rev sh" "rev st" off ews "201 - ord"] assms(2) by auto
qed

theorem transposeInplace_involution_witness:
  "transposeInplace (mk_info [2, 3] [3, 1] 0 1 99) \<bind> transposeInplace = Some (mk_info [2, 3] [3, 1] 0 1 99)"
  using transposeInplace_involution [of "[2, 3]" "[3, 1]" 99 0 1, THEN conjunct2] by (simp add: dims_ok_def)

text \<open>\<open>createPermuteIndexes\<close> writes a permutation of the axes, the rotation by the number
  of reduced dimensions.\<close>

theorem createPermuteIndexes_permutation:
  assumes "d \<le> r" "r \<le> 2147483647"
  shows "\<exists>p. createPermuteIndexes (int r) dimension (int d) = Some p \<and> is_perm p r \<and>
           p = map int (rotate d [0..<r])"
proof -
  have "distinct ([d..<r] @ [0..<d])" "set ([d..<r] @ [0..<d]) = {0..<r}" using assms by auto
  then have "is_perm (map int ([d..<r] @ [0..<d])) r"
    using assms by (auto simp: is_perm_def distinct_map inj_on_def)
  moreover have "rotate d [0..<r] = [d..<r] @ [0..<d]"
    using assms by (cases "d = r") (simp_all add: rotate_drop_take)
  ultimately show ?thesis
    using createPermuteIndexes_eq [OF assms] by (intro exI [of _ "map int ([d..<r] @ [0..<d])"]) simp
qed

theorem createPermuteIndexes_permutation_witness:
  "\<exists>p. createPermuteIndexes 5 [] 2 = Some p \<and> is_perm p 5 \<and> p = map int (rotate 2 [0..<5])"
  using createPermuteIndexes_permutation [of 2 5 "[]"] by simp

end
