(* ===== verification/Reshape.thy ===== *)
theory Reshape
  imports Permute
begin

text \<open>
  Reshaping without copying (\<open>include/helpers/shape.h\<close>): \<open>reshapeCF\<close>, \<open>canReshape\<close>
  and \<open>computeElementWiseStride\<close>, which share the grouping of old and new axes, and
  the constructors of buffers that use the element-wise stride. A successful reshape
  keeps the offset of every element in the chosen order.
\<close>

section \<open>The code\<close>

text \<open>Axes of size one are removed from the old array.\<close>

definition drop_unit_axes ::
    "int \<Rightarrow> int list \<Rightarrow> int list \<Rightarrow> int list \<Rightarrow> int list \<Rightarrow> (int list \<times> int list \<times> int) option" where
  "drop_unit_axes rnk shp str olddims oldstrides =
     mfor (\<lambda>oi (olddims, oldstrides, oldnd). do {
         d \<leftarrow> rd shp oi;
         if d \<noteq> 1 then do {
           olddims \<leftarrow> wr olddims oldnd d;
           s \<leftarrow> rd str oi;
           oldstrides \<leftarrow> wr oldstrides oldnd s;
           oldnd \<leftarrow> i32 (oldnd + 1);
           Some (olddims, oldstrides, oldnd) }
         else Some (olddims, oldstrides, oldnd) }) [0..rnk - 1] (olddims, oldstrides, 0)"

text \<open>The inner \<open>while (np != op)\<close>, which extends the group with the smaller product.\<close>

partial_function (option) widen ::
    "int list \<Rightarrow> int list \<Rightarrow> int \<Rightarrow> int \<Rightarrow> int \<Rightarrow> int \<Rightarrow> (int \<times> int) option" where
  "widen newShape olddims np op' nj oj =
     (if np = op' then Some (nj, oj)
      else if np < op' then do {
        d \<leftarrow> rd newShape nj;
        np \<leftarrow> i32 (np * d);
        nj \<leftarrow> i32 (nj + 1);
        widen newShape olddims np op' nj oj }
      else do {
        d \<leftarrow> rd olddims oj;
        op' \<leftarrow> i32 (op' * d);
        oj \<leftarrow> i32 (oj + 1);
        widen newShape olddims np op' nj oj })"

text \<open>Whether the old axes \<open>oi, ..., oj - 1\<close> can be combined.\<close>

definition combinable :: "bool \<Rightarrow> int list \<Rightarrow> int list \<Rightarrow> int \<Rightarrow> int \<Rightarrow> bool option" where
  "combinable isFOrder olddims oldstrides oi oj = do {
     q \<leftarrow> mret (\<lambda>ok s.
         if isFOrder then do {
           a \<leftarrow> rd oldstrides (ok + 1); d \<leftarrow> rd olddims ok; b \<leftarrow> rd oldstrides ok;
           p \<leftarrow> i32 (d * b);
           Some (if a \<noteq> p then Inl False else Inr s) }
         else do {
           a \<leftarrow> rd oldstrides ok; d \<leftarrow> rd olddims (ok + 1); b \<leftarrow> rd oldstrides (ok + 1);
           p \<leftarrow> i32 (d * b);
           Some (if a \<noteq> p then Inl False else Inr s) }) [oi..oj - 1 - 1] ();
     Some (case q of Inl r \<Rightarrow> r | Inr _ \<Rightarrow> True) }"

text \<open>The strides of the new axes \<open>ni, ..., nj - 1\<close>.\<close>

definition group_strides ::
    "bool \<Rightarrow> int list \<Rightarrow> int list \<Rightarrow> int \<Rightarrow> int \<Rightarrow> int \<Rightarrow> int \<Rightarrow> int list \<Rightarrow> int list option" where
  "group_strides isFOrder newShape oldstrides ni nj oi oj newStrides =
     (if isFOrder then do {
        s \<leftarrow> rd oldstrides oi;
        newStrides \<leftarrow> wr newStrides ni s;
        mfor (\<lambda>nk newStrides. do {
            a \<leftarrow> rd newStrides (nk - 1); d \<leftarrow> rd newShape (nk - 1);
            p \<leftarrow> i32 (a * d);
            wr newStrides nk p }) [ni + 1..nj - 1] newStrides }
      else do {
        s \<leftarrow> rd oldstrides (oj - 1);
        newStrides \<leftarrow> wr newStrides (nj - 1) s;
        mfor (\<lambda>nk newStrides. do {
            a \<leftarrow> rd newStrides nk; d \<leftarrow> rd newShape nk;
            p \<leftarrow> i32 (a * d);
            wr newStrides (nk - 1) p }) (rev [ni + 1..nj - 1]) newStrides })"

text \<open>The outer loop; \<open>Inl ()\<close> is the early return for axes that cannot be combined.\<close>

partial_function (option) regroup ::
    "bool \<Rightarrow> int \<Rightarrow> int list \<Rightarrow> int \<Rightarrow> int list \<Rightarrow> int list \<Rightarrow> int \<Rightarrow> int \<Rightarrow> int \<Rightarrow> int \<Rightarrow> int list \<Rightarrow>
     (unit + int \<times> int list) option" where
  "regroup isFOrder newRank newShape oldnd olddims oldstrides ni nj oi oj newStrides =
     (if ni < newRank \<and> oi < oldnd then do {
        np \<leftarrow> rd newShape ni;
        op' \<leftarrow> rd olddims oi;
        (nj, oj) \<leftarrow> widen newShape olddims np op' nj oj;
        c \<leftarrow> combinable isFOrder olddims oldstrides oi oj;
        if \<not> c then Some (Inl ())
        else do {
          newStrides \<leftarrow> group_strides isFOrder newShape oldstrides ni nj oi oj newStrides;
          nj1 \<leftarrow> i32 (nj + 1);
          oj1 \<leftarrow> i32 (oj + 1);
          regroup isFOrder newRank newShape oldnd olddims oldstrides nj nj1 oj oj1 newStrides } }
      else Some (Inr (ni, newStrides)))"

declare widen.simps [code]
declare regroup.simps [code]

text \<open>The part common to \<open>computeElementWiseStride\<close>, \<open>reshapeCF\<close> and \<open>canReshape\<close>, from the copies of the
  old shape to the end of the outer loop; \<open>cells\<close> is the size of the array for the new strides, the old rank in the first
  and the new one in the others.\<close>

definition attempt_reshape ::
    "int \<Rightarrow> int list \<Rightarrow> int list \<Rightarrow> int \<Rightarrow> int list \<Rightarrow> bool \<Rightarrow> int \<Rightarrow> (unit + int \<times> int list) option" where
  "attempt_reshape oldRank shp str newRank newShape isFOrder cells = do {
     olddims \<leftarrow> copyOf_new oldRank shp;
     oldstrides \<leftarrow> copyOf_new oldRank str;
     newStrides \<leftarrow> new_int cells;
     (olddims, oldstrides, oldnd) \<leftarrow> drop_unit_axes oldRank shp str olddims oldstrides;
     np \<leftarrow> shape_prod newShape newRank;
     op' \<leftarrow> shape_prod olddims oldnd;
     if np \<noteq> op' then Some (Inl ())
     else if np = 0 then Some (Inl ())
     else regroup isFOrder newRank newShape oldnd olddims oldstrides 0 1 0 1 newStrides }"

text \<open>The stride of the trailing axes of size one; \<open>dflt\<close> is what the callers use when no
  group was formed.\<close>

definition last_stride ::
    "bool \<Rightarrow> int list \<Rightarrow> int list \<Rightarrow> int \<Rightarrow> int option \<Rightarrow> int option" where
  "last_stride isFOrder newShape newStrides ni dflt = do {
     l \<leftarrow> (if ni \<ge> 1 then rd newStrides (ni - 1) else dflt);
     if isFOrder \<and> ni \<ge> 1 then do { d \<leftarrow> rd newShape (ni - 1); i32 (l * d) } else Some l }"

text \<open>The buffer \<open>reshapeCF\<close> writes.\<close>

definition write_target :: "int \<Rightarrow> int list \<Rightarrow> int list \<Rightarrow> int \<Rightarrow> int list \<Rightarrow> int list option" where
  "write_target newRank newShapeOf newStrides ord target = do {
     target \<leftarrow> wr target 0 newRank;
     s \<leftarrow> mfor (\<lambda>e s. do { v \<leftarrow> rd newShapeOf e; append_cell v s }) [0..newRank - 1] (target, 1);
     s \<leftarrow> mfor (\<lambda>e s. do { v \<leftarrow> rd newStrides e; append_cell v s }) [0..newRank - 1] s;
     n \<leftarrow> shapeInfoLength newRank;
     target \<leftarrow> wr (fst s) (n - 3) 0;
     target \<leftarrow> wr target (n - 2) (- 1);
     wr target (n - 1) ord }"

definition reshapeCF ::
    "int \<Rightarrow> int list \<Rightarrow> int \<Rightarrow> int list \<Rightarrow> bool \<Rightarrow> int list \<Rightarrow> (bool \<times> int list) option" where
  "reshapeCF oldRank oldShape newRank newShapeOf isFOrder target = do {
     shp \<leftarrow> shapeOf oldShape;
     str \<leftarrow> shape_stride oldShape;
     q \<leftarrow> attempt_reshape oldRank shp str newRank newShapeOf isFOrder newRank;
     (case q of Inl _ \<Rightarrow> Some (False, target)
      | Inr (ni, newStrides) \<Rightarrow> do {
          l \<leftarrow> last_stride isFOrder newShapeOf newStrides ni (shape_ews oldShape);
          newStrides \<leftarrow> mfor (\<lambda>nk newStrides. wr newStrides nk l) [ni..newRank - 1] newStrides;
          target \<leftarrow> write_target newRank newShapeOf newStrides (if isFOrder then 102 else 99) target;
          Some (True, target) }) }"

definition canReshape :: "int \<Rightarrow> int list \<Rightarrow> int \<Rightarrow> int list \<Rightarrow> bool \<Rightarrow> bool option" where
  "canReshape oldRank oldShape newRank newShapeOf isFOrder = do {
     shp \<leftarrow> shapeOf oldShape;
     str \<leftarrow> shape_stride oldShape;
     q \<leftarrow> attempt_reshape oldRank shp str newRank newShapeOf isFOrder newRank;
     Some (case q of Inl _ \<Rightarrow> False | Inr _ \<Rightarrow> True) }"

definition computeElementWiseStride :: "int \<Rightarrow> int list \<Rightarrow> int list \<Rightarrow> int \<Rightarrow> int option" where
  "computeElementWiseStride rnk shp str isFOrder =
     (if rnk = 0 then Some 1
      else do {
        v \<leftarrow> isVector shp rnk;
        if v \<noteq> 0 then rd str (rnk - 1)
        else do {
          len \<leftarrow> shape_prodLong shp rnk;
          let newShape = [1, to_int len];
          q \<leftarrow> attempt_reshape rnk shp str 2 newShape (isFOrder \<noteq> 0) rnk;
          (case q of Inl _ \<Rightarrow> Some (- 1)
           | Inr (ni, newStrides) \<Rightarrow> do {
               l \<leftarrow> last_stride (isFOrder \<noteq> 0) newShape newStrides ni (rd str (rnk - 1));
               _ \<leftarrow> mfor (\<lambda>nk newStrides. wr newStrides nk l) [ni..2 - 1] newStrides;
               Some l }) } })"

definition computeElementWiseStride_dim ::
    "int \<Rightarrow> int list \<Rightarrow> int list \<Rightarrow> int \<Rightarrow> int list \<Rightarrow> int \<Rightarrow> int option" where
  "computeElementWiseStride_dim rnk shp str isFOrder dimension dimensionLength =
     (if dimensionLength = 1 then do { d \<leftarrow> rd dimension 0; rd str d } else Some (- 1))"

text \<open>The constructors of buffers; \<open>_to\<close> are the overloads that write to a given array.\<close>

definition shapeBuffer :: "int \<Rightarrow> int list \<Rightarrow> int list option" where
  "shapeBuffer rnk shp = do {
     str \<leftarrow> calcStrides1_new shp rnk;
     ews \<leftarrow> computeElementWiseStride rnk shp str 0;
     toShapeBuffer_new \<lparr>si_shape = shp, si_stride = str, si_order = 99, si_rank = rnk,
       si_offset = 0, si_ews = ews\<rparr> }"

definition shapeBuffer_to :: "int \<Rightarrow> int list \<Rightarrow> int list \<Rightarrow> int list option" where
  "shapeBuffer_to rnk shp buffer = do {
     str \<leftarrow> new_int 32;
     str \<leftarrow> calcStrides1 shp rnk str;
     ews \<leftarrow> computeElementWiseStride rnk shp str 0;
     toShapeBuffer \<lparr>si_shape = shp, si_stride = str, si_order = 99, si_rank = rnk,
       si_offset = 0, si_ews = ews\<rparr> buffer }"

definition shapeBufferFortran :: "int \<Rightarrow> int list \<Rightarrow> int list option" where
  "shapeBufferFortran rnk shp = do {
     str \<leftarrow> calcStridesFortran1_new shp rnk;
     ews \<leftarrow> computeElementWiseStride rnk shp str 0;
     toShapeBuffer_new \<lparr>si_shape = shp, si_stride = str, si_order = 102, si_rank = rnk,
       si_offset = 0, si_ews = ews\<rparr> }"

definition shapeBufferFortran_to :: "int \<Rightarrow> int list \<Rightarrow> int list \<Rightarrow> int list option" where
  "shapeBufferFortran_to rnk shp output = do {
     str \<leftarrow> new_int 32;
     str \<leftarrow> calcStridesFortran1 shp rnk str;
     ews \<leftarrow> computeElementWiseStride rnk shp str 0;
     toShapeBuffer \<lparr>si_shape = shp, si_stride = str, si_order = 102, si_rank = rnk,
       si_offset = 0, si_ews = ews\<rparr> output }"

text \<open>The shape arrives as \<open>unsigned int\<close> cells, which are stored in or cast to \<open>int\<close>.\<close>

definition shapeBufferOfNpy :: "int \<Rightarrow> int list \<Rightarrow> bool \<Rightarrow> int list option" where
  "shapeBufferOfNpy rnk shp fortranOrder =
     (if fortranOrder then shapeBufferFortran rnk (map to_int shp)
      else do {
        newShape \<leftarrow> new_int rnk;
        newShape \<leftarrow> mfor (\<lambda>i newShape. do { v \<leftarrow> rd shp i; wr newShape i (to_int v) })
                     [0..rnk - 1] newShape;
        shapeBuffer rnk newShape })"

definition strideDescendingCAscendingF :: "int list \<Rightarrow> bool option" where
  "strideDescendingCAscendingF shapeInfo = do {
     rnk \<leftarrow> shape_rank shapeInfo;
     strides \<leftarrow> shape_stride shapeInfo;
     ord \<leftarrow> shape_order shapeInfo;
     row \<leftarrow> isRowVector shapeInfo;
     s0 \<leftarrow> (if row then rd strides 0 else Some 0);
     s1 \<leftarrow> (if row \<and> s0 = 1 then rd strides 1 else Some 0);
     if row \<and> s0 = 1 \<and> s1 = 1 then Some True
     else if ord = 99 then do {
       q \<leftarrow> mret (\<lambda>i s. do {
           a \<leftarrow> rd strides (i - 1); b \<leftarrow> rd strides i;
           Some (if a \<le> b then Inl False else Inr s) }) [1..rnk - 1] ();
       Some (case q of Inl r \<Rightarrow> r | Inr _ \<Rightarrow> True) }
     else if ord = 102 then do {
       q \<leftarrow> mret (\<lambda>i s. do {
           a \<leftarrow> rd strides (i - 1); b \<leftarrow> rd strides i;
           Some (if a \<ge> b then Inl False else Inr s) }) [1..rnk - 1] ();
       Some (case q of Inl r \<Rightarrow> r | Inr _ \<Rightarrow> True) }
     else Some False }"

section \<open>Offsets in the order of traversal\<close>

definition coords :: "bool \<Rightarrow> int list \<Rightarrow> int \<Rightarrow> int list" where
  "coords b ds x = (if b then f_coords ds x else c_coords ds x)"

definition lin :: "bool \<Rightarrow> int list \<Rightarrow> int list \<Rightarrow> int \<Rightarrow> int" where
  "lin b ds st x = dot (coords b ds x) st"

definition order_strides :: "bool \<Rightarrow> int list \<Rightarrow> int list" where
  "order_strides b ds = (if b then f_strides ds else c_strides ds)"

definition same_lin :: "bool \<Rightarrow> int list \<Rightarrow> int list \<Rightarrow> int list \<Rightarrow> int list \<Rightarrow> bool" where
  "same_lin b ds st ds' st' \<longleftrightarrow> length st = length ds \<and> length st' = length ds' \<and>
     prod_list ds = prod_list ds' \<and>
     (\<forall>x. 0 \<le> x \<longrightarrow> x < prod_list ds \<longrightarrow> lin b ds st x = lin b ds' st' x)"

lemma length_coords [simp]: "length (coords b ds x) = length ds"
  by (simp add: coords_def)

lemma length_order_strides [simp]: "length (order_strides b ds) = length ds"
  by (simp add: order_strides_def)

lemma c_coords_append:
  assumes "pos_shape A" "pos_shape B" "0 \<le> x" "x < prod_list A * prod_list B"
  shows "c_coords (A @ B) x = c_coords A (x div prod_list B) @ c_coords B (x mod prod_list B)"
  using assms(1,3,4)
proof (induction A arbitrary: x)
  case (Cons a A)
  let ?A = "prod_list A" and ?B = "prod_list B"
  have pos: "0 < ?A" "0 < ?B" using Cons.prems assms(2) by (simp_all add: prod_list_pos)
  have m: "x mod (?A * ?B) = ?B * (x div ?B mod ?A) + x mod ?B"
    using zmod_zmult2_eq [of ?A x ?B] pos by (simp add: mult.commute)
  have "c_coords (A @ B) (x mod (?A * ?B)) =
        c_coords A (x mod (?A * ?B) div ?B) @ c_coords B (x mod (?A * ?B) mod ?B)"
    using Cons pos by simp
  also have "x mod (?A * ?B) div ?B = x div ?B mod ?A" "x mod (?A * ?B) mod ?B = x mod ?B"
    using pos by (simp_all add: m)
  moreover have "x div (?A * ?B) = x div ?B div ?A"
    using zdiv_zmult2_eq [of ?A x ?B] pos by (simp add: mult.commute)
  ultimately show ?case by simp
qed simp

lemma f_coords_append:
  assumes "pos_shape A" "pos_shape B" "0 \<le> x" "x < prod_list A * prod_list B"
  shows "f_coords (A @ B) x = f_coords A (x mod prod_list A) @ f_coords B (x div prod_list A)"
  using c_coords_append [of "rev B" "rev A" x] assms by (simp add: f_coords_def mult.commute)

lemma lin_append:
  assumes "pos_shape A" "pos_shape B" "0 \<le> x" "x < prod_list A * prod_list B" "length sA = length A"
  shows "lin b (A @ B) (sA @ sB) x =
    (if b then lin b A sA (x mod prod_list A) + lin b B sB (x div prod_list A)
     else lin b A sA (x div prod_list B) + lin b B sB (x mod prod_list B))"
  using c_coords_append [OF assms(1-4)] f_coords_append [OF assms(1-4)] assms(5)
  by (simp add: lin_def coords_def dot_append)

lemma div_range: "0 < q \<Longrightarrow> 0 \<le> x \<Longrightarrow> x < p * q \<Longrightarrow> 0 \<le> x div q \<and> x div q < p" for x p q :: int
  by (simp add: pos_imp_zdiv_nonneg_iff div_lt_of_lt_mult)

lemma same_lin_append:
  assumes "same_lin b A sA A' sA'" "same_lin b B sB B' sB'"
    and "pos_shape A" "pos_shape B" "pos_shape A'" "pos_shape B'"
  shows "same_lin b (A @ B) (sA @ sB) (A' @ B') (sA' @ sB')"
proof -
  have p: "prod_list A' = prod_list A" "prod_list B' = prod_list B" "0 < prod_list A" "0 < prod_list B"
    using assms by (auto simp: same_lin_def prod_list_pos)
  have "lin b (A @ B) (sA @ sB) x = lin b (A' @ B') (sA' @ sB') x"
    if x: "0 \<le> x" "x < prod_list A * prod_list B" for x
  proof -
    have "0 \<le> x div prod_list B" "x div prod_list B < prod_list A"
      "0 \<le> x div prod_list A" "x div prod_list A < prod_list B"
      using div_range [of "prod_list B" x "prod_list A"] div_range [of "prod_list A" x "prod_list B"] x p
      by (simp_all add: mult.commute)
    moreover have "0 \<le> x mod prod_list A" "x mod prod_list A < prod_list A"
      "0 \<le> x mod prod_list B" "x mod prod_list B < prod_list B"
      using p by simp_all
    moreover have "lin b A sA y = lin b A' sA' y" if "0 \<le> y" "y < prod_list A" for y
      using that assms(1) by (simp add: same_lin_def)
    moreover have "lin b B sB y = lin b B' sB' y" if "0 \<le> y" "y < prod_list B" for y
      using that assms(2) by (simp add: same_lin_def)
    moreover have "length sA = length A" "length sA' = length A'"
      using assms(1) by (simp_all add: same_lin_def)
    ultimately show ?thesis
      using assms(3-6) x p lin_append [of A B x sA b sB] lin_append [of A' B' x sA' b sB']
      by (auto split: if_splits)
  qed
  then show ?thesis using assms p by (simp add: same_lin_def)
qed

lemma same_lin_refl: "length st = length ds \<Longrightarrow> same_lin b ds st ds st"
  by (simp add: same_lin_def)

lemma same_lin_sym: "same_lin b ds st ds' st' \<Longrightarrow> same_lin b ds' st' ds st"
  by (simp add: same_lin_def)

lemma same_lin_trans: "same_lin b ds st ds' st' \<Longrightarrow> same_lin b ds' st' ds'' st'' \<Longrightarrow> same_lin b ds st ds'' st''"
  by (simp add: same_lin_def)

lemma dot_scaled: "dot xs (map ((*) s) ys) = s * dot xs ys"
proof (induction xs arbitrary: ys)
  case (Cons x xs)
  then show ?case by (cases ys) (simp_all add: algebra_simps)
qed simp

lemma lin_scaled:
  assumes "pos_shape ds" "0 \<le> x" "x < prod_list ds"
  shows "lin b ds (map ((*) s) (order_strides b ds)) x = s * x"
  using assms by (simp add: lin_def coords_def order_strides_def dot_scaled c_coords_dot f_coords_dot)

lemma same_lin_groups:
  assumes "pos_shape G" "pos_shape H" "prod_list G = prod_list H"
  shows "same_lin b G (map ((*) s) (order_strides b G)) H (map ((*) s) (order_strides b H))"
  using assms by (simp add: same_lin_def lin_scaled)

lemma unit_axes:
  assumes "list_all ((=) 1) ds"
  shows "pos_shape ds" "prod_list ds = 1"
  using assms by (induction ds) auto

lemma c_coords_0: "pos_shape ds \<Longrightarrow> c_coords ds 0 = replicate (length ds) 0"
  by (induction ds) auto

lemma dot_zeros: "dot (replicate n 0) ys = 0"
proof (induction n arbitrary: ys)
  case (Suc n)
  then show ?case by (cases ys) auto
qed simp

lemma lin_0: "pos_shape ds \<Longrightarrow> lin b ds st 0 = 0"
  using c_coords_0 [of "rev ds"]
  by (simp add: lin_def coords_def f_coords_def c_coords_0 dot_zeros)

lemma same_lin_units: "list_all ((=) 1) ds \<Longrightarrow> length st = length ds \<Longrightarrow> same_lin b ds st [] []"
proof -
  assume a: "list_all ((=) 1) ds" "length st = length ds"
  have "lin b ds st x = lin b [] [] x" if "0 \<le> x" "x < prod_list ds" for x
  proof -
    have "x = 0" using that unit_axes [OF a(1)] by simp
    then show ?thesis using lin_0 [of ds b st] lin_0 [of "[]" b "[]"] unit_axes [OF a(1)] by simp
  qed
  then show ?thesis
    using a unit_axes [OF a(1)] by (simp add: same_lin_def)
qed

section \<open>Axes of size one\<close>

definition wide_dims :: "int list \<Rightarrow> int list \<Rightarrow> int list" where
  "wide_dims sh st = map fst (filter (\<lambda>(d, s). d \<noteq> 1) (zip sh st))"

definition wide_strides :: "int list \<Rightarrow> int list \<Rightarrow> int list" where
  "wide_strides sh st = map snd (filter (\<lambda>(d, s). d \<noteq> 1) (zip sh st))"

lemma wide_simps [simp]:
  "wide_dims [] st = []" "wide_strides [] st = []"
  "wide_dims (d # sh) (s # st) = (if d = 1 then wide_dims sh st else d # wide_dims sh st)"
  "wide_strides (d # sh) (s # st) = (if d = 1 then wide_strides sh st else s # wide_strides sh st)"
  by (simp_all add: wide_dims_def wide_strides_def)

lemma wide_snoc:
  assumes "length sh = length st"
  shows "wide_dims (sh @ [d]) (st @ [s]) = (if d = 1 then wide_dims sh st else wide_dims sh st @ [d])"
    and "wide_strides (sh @ [d]) (st @ [s]) =
         (if d = 1 then wide_strides sh st else wide_strides sh st @ [s])"
  using assms by (simp_all add: wide_dims_def wide_strides_def)

lemma length_wide: "length (wide_strides sh st) = length (wide_dims sh st)"
  by (simp add: wide_dims_def wide_strides_def)

lemma length_wide_le: "length (wide_dims sh st) \<le> length sh"
  using length_filter_le [of "\<lambda>(d, s). d \<noteq> 1" "zip sh st"] by (simp add: wide_dims_def)

lemma wide_props:
  assumes "length sh = length st" "pos_shape sh"
  shows "prod_list (wide_dims sh st) = prod_list sh" "pos_shape (wide_dims sh st)"
    "same_lin b sh st (wide_dims sh st) (wide_strides sh st)"
proof -
  have "prod_list (wide_dims sh st) = prod_list sh \<and> pos_shape (wide_dims sh st) \<and>
        same_lin b sh st (wide_dims sh st) (wide_strides sh st)"
    using assms
  proof (induction sh st rule: list_induct2)
    case Nil
    show ?case by (simp add: same_lin_def)
  next
    case (Cons d sh s st)
    then have IH: "prod_list (wide_dims sh st) = prod_list sh" "pos_shape (wide_dims sh st)"
      "same_lin b sh st (wide_dims sh st) (wide_strides sh st)" and d: "0 < d" "pos_shape sh"
      by simp_all
    have "same_lin b ([d] @ sh) ([s] @ st) ((if d = 1 then [] else [d]) @ wide_dims sh st)
            ((if d = 1 then [] else [s]) @ wide_strides sh st)"
      using same_lin_units [of "[d]" "[s]" b] same_lin_refl [of "[s]" "[d]" b] IH d
      by (intro same_lin_append) auto
    then show ?case using IH d by auto
  qed
  then show "prod_list (wide_dims sh st) = prod_list sh" "pos_shape (wide_dims sh st)"
    "same_lin b sh st (wide_dims sh st) (wide_strides sh st)" by blast+
qed

lemma set_wide:
  "d \<in> set (wide_dims sh st) \<Longrightarrow> d \<in> set sh \<and> d \<noteq> 1"
  "s \<in> set (wide_strides sh st) \<Longrightarrow> s \<in> set st"
  by (auto simp: wide_dims_def wide_strides_def dest: set_zip_leftD set_zip_rightD)

lemma drop_unit_axes_eq:
  assumes "length st = length sh" "length sh \<le> 2147483646"
    and "\<And>k. k < length sh \<Longrightarrow> rd shp (int k) = Some (sh ! k) \<and> rd str (int k) = Some (st ! k)"
  shows "\<exists>xs ys. drop_unit_axes (int (length sh)) shp str sh st =
           Some (wide_dims sh st @ xs, wide_strides sh st @ ys, int (length (wide_dims sh st)))"
proof -
  let ?f = "\<lambda>oi (olddims, oldstrides, oldnd). do {
         d \<leftarrow> rd shp oi;
         if d \<noteq> 1 then do {
           olddims \<leftarrow> wr olddims oldnd d;
           s \<leftarrow> rd str oi;
           oldstrides \<leftarrow> wr oldstrides oldnd s;
           oldnd \<leftarrow> i32 (oldnd + 1);
           Some (olddims, oldstrides, oldnd) }
         else Some (olddims, oldstrides, oldnd) }"
  define D where "D k = wide_dims (take k sh) (take k st)" for k
  define S where "S k = wide_strides (take k sh) (take k st)" for k
  define c where "c k = length (D k)" for k
  define g where "g k = (D k @ drop (c k) sh, S k @ drop (c k) st, int (c k))" for k
  have "mfor ?f [0..int (length sh) - 1] (g 0) = Some (g (length sh))"
  proof (rule mfor_trace)
    fix k assume k: "k < length sh"
    have c: "c k \<le> k" "length (S k) = c k"
      using length_wide_le [of "take k sh" "take k st"] k
      by (simp_all add: c_def D_def S_def length_wide)
    have step: "D (Suc k) = (if sh ! k = 1 then D k else D k @ [sh ! k])"
      "S (Suc k) = (if sh ! k = 1 then S k else S k @ [st ! k])"
      using wide_snoc [of "take k sh" "take k st"] k assms(1)
      by (simp_all add: D_def S_def take_Suc_conv_app_nth)
    show "?f (int k) (g k) = Some (g (Suc k))"
    proof (cases "sh ! k = 1")
      case True
      then show ?thesis using assms(3) [OF k] step by (simp add: g_def c_def)
    next
      case False
      then have cS: "c (Suc k) = Suc (c k)" using step by (simp add: c_def)
      have "(D k @ drop (c k) sh)[c k := sh ! k] = D (Suc k) @ drop (c (Suc k)) sh"
        "(S k @ drop (c k) st)[c k := st ! k] = S (Suc k) @ drop (c (Suc k)) st"
        using False step c k cS assms(1)
        by (simp_all add: list_update_append c_def [symmetric] Cons_nth_drop_Suc [symmetric])
      moreover have "c k < length (D k @ drop (c k) sh)" "c k < length (S k @ drop (c k) st)"
        using c k assms(1) by (simp_all add: c_def [symmetric])
      ultimately show ?thesis
        using False assms(2,3) k c cS by (simp add: g_def wr_def i32_def)
    qed
  qed
  moreover have "g 0 = (sh, st, 0)" by (simp add: g_def D_def S_def c_def)
  ultimately show ?thesis
    using assms(1) by (auto simp: drop_unit_axes_def g_def c_def D_def S_def)
qed

section \<open>Groups of axes\<close>

text \<open>\<open>slice xs i j\<close> are the entries \<open>i, ..., j - 1\<close>.\<close>

definition slice :: "'a list \<Rightarrow> nat \<Rightarrow> nat \<Rightarrow> 'a list" where
  "slice xs i j = drop i (take j xs)"

lemma length_slice [simp]: "length (slice xs i j) = min j (length xs) - i"
  by (simp add: slice_def)

lemma nth_slice: "i + k < j \<Longrightarrow> j \<le> length xs \<Longrightarrow> slice xs i j ! k = xs ! (i + k)"
  by (simp add: slice_def)

lemma slice_Suc: "i \<le> j \<Longrightarrow> j < length xs \<Longrightarrow> slice xs i (Suc j) = slice xs i j @ [xs ! j]"
  by (simp add: slice_def take_Suc_conv_app_nth)

lemma slice_one: "i < length xs \<Longrightarrow> slice xs i (Suc i) = [xs ! i]"
  by (simp add: slice_def take_Suc_conv_app_nth)

lemma take_slice: "i \<le> j \<Longrightarrow> take i xs @ slice xs i j = take j xs"
  by (metis append_take_drop_id min_def slice_def take_take)

lemma slice_drop: "i \<le> j \<Longrightarrow> slice xs i j @ drop j xs = drop i xs"
  by (metis append_assoc append_eq_conv_conj append_take_drop_id take_slice)

lemma pos_shape_slice: "pos_shape xs \<Longrightarrow> pos_shape (slice xs i j)"
  by (simp add: slice_def pos_shape_take pos_shape_drop)

lemma prod_slice_drop: "i \<le> j \<Longrightarrow> prod_list (slice xs i j) * prod_list (drop j xs) = (prod_list (drop i xs) :: int)"
  by (metis prod_list.append slice_drop)

lemma prod_slice_Suc:
  "i \<le> j \<Longrightarrow> j < length xs \<Longrightarrow> prod_list (slice xs i (Suc j)) = prod_list (slice xs i j) * xs ! j"
  for xs :: "int list"
  by (simp add: slice_Suc)

text \<open>Adjacent axes that can be combined have the strides of their order, scaled.\<close>

definition chained :: "bool \<Rightarrow> int list \<Rightarrow> int list \<Rightarrow> bool" where
  "chained b ds st \<longleftrightarrow> (\<forall>k. Suc k < length ds \<longrightarrow>
     (if b then st ! Suc k = ds ! k * st ! k else st ! k = ds ! Suc k * st ! Suc k))"

lemma chained_c:
  "ds \<noteq> [] \<Longrightarrow> length st = length ds \<Longrightarrow> chained False ds st \<Longrightarrow>
   st = map ((*) (st ! (length ds - 1))) (c_strides ds)"
proof (induction ds arbitrary: st)
  case (Cons d ds)
  obtain s st' where st: "st = s # st'" "length st' = length ds" using Cons.prems by (cases st) auto
  show ?case
  proof (cases "ds = []")
    case False
    have ch: "(s # st') ! k = (d # ds) ! Suc k * (s # st') ! Suc k" if "k < length ds" for k
      using Cons.prems that unfolding chained_def st by force
    have "chained False ds st'"
      unfolding chained_def using ch [of "Suc _"] by (auto simp: less_Suc_eq_0_disj)
    then have IH: "st' = map ((*) (st' ! (length ds - 1))) (c_strides ds)"
      using Cons.IH [OF False st(2)] by blast
    let ?l = "st' ! (length ds - 1)"
    have "s = ds ! 0 * st' ! 0" using ch [of 0] False by simp
    also have "st' ! 0 = ?l * c_strides ds ! 0"
      using IH False by (metis length_c_strides length_greater_0_conv nth_map)
    also have "c_strides ds ! 0 = prod_list (drop 1 ds)"
      using False by (simp add: nth_c_strides)
    also have "ds ! 0 * (?l * prod_list (drop 1 ds)) = ?l * prod_list ds"
      using False by (cases ds) simp_all
    finally have "s = ?l * prod_list ds" .
    then show ?thesis using IH st False by (simp add: nth_Cons')
  qed (use st in simp)
qed simp

lemma chained_f:
  assumes "length st = length ds" "chained True ds st"
  shows "st = map ((*) (st ! 0)) (f_strides ds)"
proof (rule nth_equalityI)
  fix k assume "k < length st"
  then show "st ! k = map ((*) (st ! 0)) (f_strides ds) ! k"
  proof (induction k)
    case 0
    then show ?case using assms by (simp add: nth_f_strides)
  next
    case (Suc k)
    then have "st ! Suc k = ds ! k * st ! k" using assms by (simp add: chained_def)
    then show ?case using Suc assms by (simp add: nth_f_strides prod_take_Suc)
  qed
qed (use assms in simp)

definition unit_stride :: "bool \<Rightarrow> int list \<Rightarrow> int" where
  "unit_stride b st = (if b then st ! 0 else st ! (length st - 1))"

lemma chained_strides:
  assumes "ds \<noteq> []" "length st = length ds" "chained b ds st"
  shows "st = map ((*) (unit_stride b st)) (order_strides b ds)"
  using chained_c [of ds st] chained_f [of st ds] assms
  by (cases b) (simp_all add: unit_stride_def order_strides_def)

text \<open>
  The largest step of a combined group: the last axis in Fortran order, the first in C
  order, crosses the whole group.
\<close>

lemma chained_extent:
  assumes "ds \<noteq> []" "length st = length ds" "chained b ds st" "pos_shape ds"
  shows "\<exists>k<length ds. unit_stride b st * prod_list ds = ds ! k * st ! k"
proof (cases b)
  case True
  let ?k = "length ds - 1"
  have k: "?k < length ds" using assms(1) by simp
  then have "st ! ?k = unit_stride b st * prod_list (take ?k ds)"
    using chained_strides [OF assms(1-3)] True
    by (metis length_f_strides nth_f_strides nth_map order_strides_def)
  moreover have "prod_list (take ?k ds) * ds ! ?k = prod_list ds"
    using prod_take_Suc [OF k] assms(1) by simp
  ultimately have "unit_stride b st * prod_list ds = ds ! ?k * st ! ?k"
    by (metis mult.assoc mult.commute)
  then show ?thesis using k by blast
next
  case False
  have k: "0 < length ds" using assms(1) by simp
  then have "st ! 0 = unit_stride b st * prod_list (drop 1 ds)"
    using chained_strides [OF assms(1-3)] False
    by (metis One_nat_def length_c_strides nth_c_strides nth_map order_strides_def)
  moreover have "ds ! 0 * prod_list (drop 1 ds) = prod_list ds"
    using prod_drop_Suc [OF k] by simp
  ultimately have "unit_stride b st * prod_list ds = ds ! 0 * st ! 0"
    by (metis mult.assoc mult.commute)
  then show ?thesis using k by blast
qed

text \<open>
  What the loops assume: \<open>N\<close> are the new dimensions, \<open>O'\<close> and \<open>S\<close> the old
  dimensions and strides without the axes of size one.
\<close>

definition axes_ok ::
    "int list \<Rightarrow> int list \<Rightarrow> int list \<Rightarrow> int list \<Rightarrow> int list \<Rightarrow> int list \<Rightarrow> bool" where
  "axes_ok N O' S newShape olddims oldstrides \<longleftrightarrow>
     (\<forall>k<length N. rd newShape (int k) = Some (N ! k)) \<and>
     (\<forall>k<length O'. rd olddims (int k) = Some (O' ! k) \<and> rd oldstrides (int k) = Some (S ! k)) \<and>
     length S = length O' \<and> pos_shape N \<and> pos_shape O' \<and> (\<forall>d\<in>set O'. d \<noteq> 1) \<and> nonneg S \<and>
     (\<forall>k<length O'. O' ! k * S ! k \<le> 2147483647) \<and>
     prod_list N = prod_list O' \<and> prod_list N \<le> 2147483647 \<and>
     length N \<le> 2147483645 \<and> length O' \<le> 2147483645"

lemma widen_eq:
  assumes ok: "axes_ok N O' S newShape olddims oldstrides"
    and "prod_list (drop ni N) = prod_list (drop oi O')"
    and "ni < nj" "nj \<le> length N" "oi < oj" "oj \<le> length O'"
  shows "\<exists>nj' oj'. widen newShape olddims (prod_list (slice N ni nj)) (prod_list (slice O' oi oj))
            (int nj) (int oj) = Some (int nj', int oj') \<and>
          nj \<le> nj' \<and> nj' \<le> length N \<and> oj \<le> oj' \<and> oj' \<le> length O' \<and>
          prod_list (slice N ni nj') = prod_list (slice O' oi oj')"
  using assms(3-6)
proof (induction "(length N - nj) + (length O' - oj)" arbitrary: nj oj rule: less_induct)
  case less
  let ?np = "prod_list (slice N ni nj)" and ?op = "prod_list (slice O' oi oj)"
  have pos: "pos_shape N" "pos_shape O'" using ok by (auto simp: axes_ok_def)
  have tot: "?np * prod_list (drop nj N) = ?op * prod_list (drop oj O')"
    using assms(2) less.prems by (simp add: prod_slice_drop)
  have dp: "0 < prod_list (drop nj N)" "0 < prod_list (drop oj O')" "0 < ?np" "0 < ?op"
    using pos by (simp_all add: prod_list_pos pos_shape_drop pos_shape_slice)
  have bound: "prod_list (slice N ni j) \<le> 2147483647" "prod_list (slice O' oi k) \<le> 2147483647" for j k
  proof -
    have "prod_list (slice N ni j) \<le> prod_list (take j N)"
      unfolding slice_def by (rule prod_drop_le [OF pos_shape_take [OF pos(1)]])
    then show "prod_list (slice N ni j) \<le> 2147483647"
      using prod_take_le [OF pos(1), of j] ok by (simp add: axes_ok_def)
    have "prod_list (slice O' oi k) \<le> prod_list (take k O')"
      unfolding slice_def by (rule prod_drop_le [OF pos_shape_take [OF pos(2)]])
    then show "prod_list (slice O' oi k) \<le> 2147483647"
      using prod_take_le [OF pos(2), of k] ok by (simp add: axes_ok_def)
  qed
  consider "?np = ?op" | "?np < ?op" | "?op < ?np" by linarith
  then show ?case
  proof cases
    case 1
    then show ?thesis using less.prems
      by (subst widen.simps) auto
  next
    case 2
    have nj: "nj < length N"
    proof (rule ccontr)
      assume "\<not> nj < length N"
      then have "?np = ?op * prod_list (drop oj O')" using tot by simp
      moreover have "?op \<le> ?op * prod_list (drop oj O')" using dp by simp
      ultimately show False using 2 by simp
    qed
    have "\<exists>nj' oj'. widen newShape olddims (prod_list (slice N ni (Suc nj))) ?op
            (int (Suc nj)) (int oj) = Some (int nj', int oj') \<and>
          Suc nj \<le> nj' \<and> nj' \<le> length N \<and> oj \<le> oj' \<and> oj' \<le> length O' \<and>
          prod_list (slice N ni nj') = prod_list (slice O' oi oj')"
      using less.prems nj by (intro less.hyps) auto
    moreover have "widen newShape olddims ?np ?op (int nj) (int oj) =
        widen newShape olddims (prod_list (slice N ni (Suc nj))) ?op (int (Suc nj)) (int oj)"
    proof -
      have "rd newShape (int nj) = Some (N ! nj)" using ok nj unfolding axes_ok_def by blast
      moreover have "i32 (?np * N ! nj) = Some (prod_list (slice N ni (Suc nj)))"
        using bound(1) [of "Suc nj"] prod_slice_Suc [of ni nj N] nj less.prems
          prod_list_pos [OF pos_shape_slice [OF pos(1)], of ni "Suc nj"] by (simp add: i32_def)
      moreover have "i32 (int nj + 1) = Some (int (Suc nj))"
        using ok nj by (simp add: axes_ok_def i32_def)
      ultimately show ?thesis using 2 by (subst widen.simps) (simp del: of_nat_Suc rd_nat)
    qed
    ultimately show ?thesis using Suc_leD by (metis (no_types, lifting))
  next
    case 3
    have oj: "oj < length O'"
    proof (rule ccontr)
      assume "\<not> oj < length O'"
      then have "?op = ?np * prod_list (drop nj N)" using tot by simp
      moreover have "?np \<le> ?np * prod_list (drop nj N)" using dp by simp
      ultimately show False using 3 by simp
    qed
    have "\<exists>nj' oj'. widen newShape olddims ?np (prod_list (slice O' oi (Suc oj)))
            (int nj) (int (Suc oj)) = Some (int nj', int oj') \<and>
          nj \<le> nj' \<and> nj' \<le> length N \<and> Suc oj \<le> oj' \<and> oj' \<le> length O' \<and>
          prod_list (slice N ni nj') = prod_list (slice O' oi oj')"
      using less.prems oj by (intro less.hyps) auto
    moreover have "widen newShape olddims ?np ?op (int nj) (int oj) =
        widen newShape olddims ?np (prod_list (slice O' oi (Suc oj))) (int nj) (int (Suc oj))"
    proof -
      have "rd olddims (int oj) = Some (O' ! oj)" using ok oj unfolding axes_ok_def by blast
      moreover have "i32 (?op * O' ! oj) = Some (prod_list (slice O' oi (Suc oj)))"
        using bound(2) [of "Suc oj"] prod_slice_Suc [of oi oj O'] oj less.prems
          prod_list_pos [OF pos_shape_slice [OF pos(2)], of oi "Suc oj"] by (simp add: i32_def)
      moreover have "i32 (int oj + 1) = Some (int (Suc oj))"
        using ok oj by (simp add: axes_ok_def i32_def)
      ultimately show ?thesis using 3 by (subst widen.simps) (simp del: of_nat_Suc rd_nat)
    qed
    ultimately show ?thesis using Suc_leD by (metis (no_types, lifting))
  qed
qed

lemma combinable_eq:
  assumes ok: "axes_ok N O' S newShape olddims oldstrides" and "oi < oj" "oj \<le> length O'"
  shows "combinable b olddims oldstrides (int oi) (int oj) =
         Some (chained b (slice O' oi oj) (slice S oi oj))"
proof -
  let ?P = "\<lambda>x. if b then S ! Suc (nat x) \<noteq> O' ! nat x * S ! nat x
                 else S ! nat x \<noteq> O' ! Suc (nat x) * S ! Suc (nat x)"
  let ?f = "\<lambda>ok s.
         if b then do {
           a \<leftarrow> rd oldstrides (ok + 1); d \<leftarrow> rd olddims ok; b \<leftarrow> rd oldstrides ok;
           p \<leftarrow> i32 (d * b);
           Some (if a \<noteq> p then Inl False else Inr s) }
         else do {
           a \<leftarrow> rd oldstrides ok; d \<leftarrow> rd olddims (ok + 1); b \<leftarrow> rd oldstrides (ok + 1);
           p \<leftarrow> i32 (d * b);
           Some (if a \<noteq> p then Inl False else Inr s) }"
  have rds: "rd olddims (int k) = Some (O' ! k)" "rd oldstrides (int k) = Some (S ! k)"
    "i32 (O' ! k * S ! k) = Some (O' ! k * S ! k)" if "k < length O'" for k
  proof -
    show "rd olddims (int k) = Some (O' ! k)" "rd oldstrides (int k) = Some (S ! k)"
      using ok that unfolding axes_ok_def by blast+
    have "0 < O' ! k" "0 \<le> S ! k"
      using ok that pos_shape_nth [of O' k] nonneg_nth [of S k] by (auto simp: axes_ok_def)
    then have "0 \<le> O' ! k * S ! k" by simp
    then show "i32 (O' ! k * S ! k) = Some (O' ! k * S ! k)"
      using ok that by (simp add: axes_ok_def i32_def)
  qed
  have "mret ?f [int oi..int oj - 1 - 1] () =
        Some (if \<exists>x\<in>set [int oi..int oj - 1 - 1]. ?P x then Inl False else Inr ())"
  proof (rule mret_search)
    fix x assume "x \<in> set [int oi..int oj - 1 - 1]"
    then have "int oi \<le> x" "x \<le> int oj - 2" by auto
    then have "x = int (nat x)" "oi \<le> nat x" "Suc (nat x) < oj" by auto
    then obtain k where x: "x = int k" "oi \<le> k" "Suc k < oj" by blast
    then have k: "k < length O'" "Suc k < length O'" using assms by simp_all
    have eq: "int k + 1 = int (Suc k)" by simp
    show "?f x () = Some (if ?P x then Inl False else Inr ())"
      unfolding x eq using rds [OF k(1)] rds [OF k(2)] by (simp del: rd_nat of_nat_Suc)
  qed
  moreover have "(\<exists>x\<in>set [int oi..int oj - 1 - 1]. ?P x) \<longleftrightarrow>
                 \<not> chained b (slice O' oi oj) (slice S oi oj)" (is "?L = ?R")
  proof -
    have lenS: "length S = length O'" using ok by (simp add: axes_ok_def)
    have P: "?P (int (oi + k)) \<longleftrightarrow> \<not> (if b then slice S oi oj ! Suc k = slice O' oi oj ! k * slice S oi oj ! k
        else slice S oi oj ! k = slice O' oi oj ! Suc k * slice S oi oj ! Suc k)"
      if "Suc k < oj - oi" for k
      using that assms(3) lenS by (simp add: nth_slice del: of_nat_add)
    have "?L \<longleftrightarrow> (\<exists>k. Suc k < oj - oi \<and> ?P (int (oi + k)))"
    proof
      assume ?L
      then obtain x where x: "int oi \<le> x" "x \<le> int oj - 2" "?P x" by auto
      then have "int (oi + (nat x - oi)) = x" by simp
      with x show "\<exists>k. Suc k < oj - oi \<and> ?P (int (oi + k))"
        by (intro exI [of _ "nat x - oi"]) auto
    next
      assume "\<exists>k. Suc k < oj - oi \<and> ?P (int (oi + k))"
      then obtain k where "Suc k < oj - oi" "?P (int (oi + k))" by blast
      then show ?L by (intro bexI [of _ "int (oi + k)"]) auto
    qed
    then show ?thesis using P assms(2,3) by (auto simp: chained_def)
  qed
  ultimately show ?thesis by (auto simp: combinable_def)
qed

text \<open>Writing the strides of a group.\<close>

lemma group_strides_eq:
  assumes N: "\<And>k. k < length N \<Longrightarrow> rd newShape (int k) = Some (N ! k)" "pos_shape N"
    and idx: "ni < nj" "nj \<le> length N" "length ns = length N"
    and src: "rd oldstrides (if b then int oi else int oj - 1) = Some s"
    and bound: "0 \<le> s" "s * prod_list (slice N ni nj) \<le> 2147483647"
  shows "group_strides b newShape oldstrides (int ni) (int nj) (int oi) (int oj) ns =
         Some (take ni ns @ map ((*) s) (order_strides b (slice N ni nj)) @ drop nj ns)"
proof -
  define G where "G = slice N ni nj"
  define full where "full = take ni ns @ map ((*) s) (order_strides b G) @ drop nj ns"
  have lenG: "length G = nj - ni" "G \<noteq> []" using idx by (auto simp: G_def slice_def)
  have posG: "pos_shape G" using N(2) by (simp add: G_def pos_shape_slice)
  have full: "length full = length ns" "take ni full = take ni ns" "drop nj full = drop nj ns"
    using idx lenG by (simp_all add: full_def)
  have nthG: "N ! (ni + k) = G ! k" if "k < nj - ni" for k
    using that idx by (simp add: G_def nth_slice)
  have nth_full: "full ! (ni + k) = s * order_strides b G ! k" if "k < nj - ni" for k
    using that idx lenG by (simp add: full_def nth_append)
  have fits: "i32 (s * p) = Some (s * p)" if "0 < p" "p \<le> prod_list G" for p
  proof -
    have "s * p \<le> s * prod_list G" using that bound(1) by (simp add: mult_left_mono)
    then have "s * p \<le> 2147483647" using bound(2) by (simp add: G_def)
    moreover have "0 \<le> s * p" using that bound(1) by simp
    ultimately show ?thesis by (simp add: i32_def)
  qed
  have rdN: "rd newShape (int (ni + k)) = Some (G ! k)" if "k < nj - ni" for k
    using N(1) [of "ni + k"] nthG [OF that] that idx by simp
  show ?thesis
  proof (cases b)
    case True
    let ?f = "\<lambda>nk newStrides. do {
            a \<leftarrow> rd newStrides (nk - 1); d \<leftarrow> rd newShape (nk - 1);
            p \<leftarrow> i32 (a * d);
            wr newStrides nk p }"
    define g where "g k = take (ni + 1 + k) full @ drop (ni + 1 + k) ns" for k
    have "mfor ?f [int ni + 1..int ni + 1 + int (nj - ni - 1) - 1] (g 0) = Some (g (nj - ni - 1))"
    proof (rule mfor_trace_from)
      fix k assume k: "k < nj - ni - 1"
      have e: "int ni + 1 + int k - 1 = int (ni + k)" "int ni + 1 + int k = int (ni + 1 + k)" by simp_all
      have st: "full ! (ni + k) = s * prod_list (take k G)" "full ! (ni + 1 + k) = s * prod_list (take (Suc k) G)"
        using nth_full [of k] nth_full [of "Suc k"] k lenG True by (simp_all add: order_strides_def nth_f_strides)
      have "rd (g k) (int (ni + k)) = Some (s * prod_list (take k G))"
        using st(1) k idx full(1) by (simp add: g_def nth_append del: of_nat_add)
      moreover have "rd newShape (int (ni + k)) = Some (G ! k)" using k by (intro rdN) simp
      moreover have "i32 (s * prod_list (take k G) * G ! k) = Some (s * prod_list (take (Suc k) G))"
        using fits [of "prod_list (take (Suc k) G)"] prod_take_le [OF posG, of "Suc k"] k lenG
          prod_list_pos [OF pos_shape_take [OF posG], of "Suc k"]
        by (simp add: prod_take_Suc mult.assoc)
      moreover have "wr (g k) (int (ni + 1 + k)) (s * prod_list (take (Suc k) G)) = Some (g (Suc k))"
        using fill_up_step [of full ns "ni + 1 + k"] st(2) k idx full(1)
        unfolding wr_nat by (simp add: g_def)
      ultimately show "?f (int ni + 1 + int k) (g k) = Some (g (Suc k))"
        unfolding e by (simp del: of_nat_add)
    qed
    moreover have "int ni + 1 + int (nj - ni - 1) - 1 = int nj - 1" using idx by simp
    moreover have "wr ns (int ni) s = Some (g 0)"
    proof -
      have "full ! ni = s" using nth_full [of 0] idx lenG True by (simp add: order_strides_def nth_f_strides)
      then have "ns[ni := s] = g 0"
        using fill_up_step [of full ns ni] idx full by (simp add: g_def)
      then show ?thesis using idx by (simp add: wr_def)
    qed
    moreover have "g (nj - ni - 1) = full"
    proof -
      have "g (nj - ni - 1) = take nj full @ drop nj ns" using idx by (simp add: g_def)
      then show ?thesis using full(3) by (metis append_take_drop_id)
    qed
    ultimately show ?thesis
      using src True by (simp add: group_strides_def full_def G_def)
  next
    case False
    let ?f = "\<lambda>nk newStrides. do {
            a \<leftarrow> rd newStrides nk; d \<leftarrow> rd newShape nk;
            p \<leftarrow> i32 (a * d);
            wr newStrides (nk - 1) p }"
    define n where "n = nj - ni - 1"
    define g where "g k = take (ni + k) ns @ drop (ni + k) full" for k
    have "mfor ?f (rev [int ni + 1..int ni + 1 + int n - 1]) (g n) = Some (g 0)"
    proof (rule mfor_trace_down_from)
      fix k assume k: "k < n"
      have e: "int ni + 1 + int k = int (ni + Suc k)" "int (ni + Suc k) - 1 = int (ni + k)" by simp_all
      have kn: "Suc k < length G" "Suc k < nj - ni" using k lenG by (simp_all add: n_def)
      have st: "full ! (ni + Suc k) = s * prod_list (drop (Suc (Suc k)) G)" "full ! (ni + k) = s * prod_list (drop (Suc k) G)"
        using nth_full [of "Suc k"] nth_full [of k] kn lenG False
        by (simp_all add: order_strides_def nth_c_strides)
      have "rd (g (Suc k)) (int (ni + Suc k)) = Some (s * prod_list (drop (Suc (Suc k)) G))"
        using st(1) kn idx full(1) by (simp add: g_def nth_append del: of_nat_add of_nat_Suc)
      moreover have "rd newShape (int (ni + Suc k)) = Some (G ! Suc k)" using kn by (intro rdN) simp
      moreover have "i32 (s * prod_list (drop (Suc (Suc k)) G) * G ! Suc k) = Some (s * prod_list (drop (Suc k) G))"
        using fits [of "prod_list (drop (Suc k) G)"] prod_drop_le [OF posG, of "Suc k"] kn
          prod_list_pos [OF pos_shape_drop [OF posG], of "Suc k"] prod_drop_Suc [OF kn(1)]
        by (simp add: mult.assoc mult.commute mult.left_commute)
      moreover have "wr (g (Suc k)) (int (ni + k)) (s * prod_list (drop (Suc k) G)) = Some (g k)"
        using fill_down_step [of full ns "ni + k"] st(2) kn idx full(1)
        unfolding wr_nat by (simp add: g_def)
      ultimately show "?f (int ni + 1 + int k) (g (Suc k)) = Some (g k)"
        unfolding e by (simp del: of_nat_add of_nat_Suc add_Suc_right)
    qed
    moreover have "int ni + 1 + int n - 1 = int nj - 1" using idx by (simp add: n_def)
    moreover have "wr ns (int nj - 1) s = Some (g n)"
    proof -
      have p: "nj - 1 = ni + n" "ni + n < length ns" "Suc (ni + n) = nj" using idx by (simp_all add: n_def)
      have "full ! (ni + n) = s"
        using nth_full [of n] idx lenG False by (simp add: order_strides_def nth_c_strides n_def)
      then have "(take (Suc (ni + n)) ns @ drop (Suc (ni + n)) full)[ni + n := s] = g n"
        using fill_down_step [of full ns "ni + n"] p(2) full(1) by (simp add: g_def)
      moreover have "take (Suc (ni + n)) ns @ drop (Suc (ni + n)) full = ns"
        using full(3) p(3) by (metis append_take_drop_id)
      moreover have "nat (int nj - 1) = ni + n" using p idx by simp
      ultimately show ?thesis using idx by (simp add: wr_def)
    qed
    moreover have "g 0 = full" using full(2) by (simp add: g_def) (metis append_take_drop_id)
    ultimately show ?thesis
      using src False by (simp add: group_strides_def full_def G_def)
  qed
qed

lemma prod_1_units: "pos_shape ds \<Longrightarrow> prod_list ds = 1 \<Longrightarrow> list_all ((=) 1) ds"
proof (induction ds)
  case (Cons d ds)
  then have "0 < d" "0 < prod_list ds" "d * prod_list ds = 1" by (simp_all add: prod_list_pos)
  then have "d = 1" "prod_list ds = 1" by (simp_all add: pos_zmult_eq_1_iff)
  then show ?case using Cons by simp
qed simp

lemma chained_slice:
  assumes "chained b ds st" "j \<le> length ds" "length st = length ds"
  shows "chained b (slice ds i j) (slice st i j)"
  using assms by (auto simp: chained_def nth_slice)

lemma take_group:
  assumes "length (take ni ns @ ys @ drop nj ns) = length ns" "ni \<le> nj" "nj \<le> length ns"
  shows "take nj (take ni ns @ ys @ drop nj ns) = take ni ns @ ys"
  using assms by simp

text \<open>What the outer loop establishes when it ends.\<close>

definition regrouped :: "bool \<Rightarrow> int list \<Rightarrow> int list \<Rightarrow> int list \<Rightarrow> unit + int \<times> int list \<Rightarrow> bool" where
  "regrouped b N O' S r = (case r of
       Inl _ \<Rightarrow> \<not> chained b O' S
     | Inr (j, ns) \<Rightarrow> 0 \<le> j \<and> j \<le> int (length N) \<and> length ns = length N \<and>
         same_lin b (take (nat j) N) (take (nat j) ns) O' S \<and>
         list_all ((=) 1) (drop (nat j) N) \<and>
         (0 < j \<longrightarrow> 0 \<le> ns ! (nat j - 1) \<and> ns ! (nat j - 1) * N ! (nat j - 1) \<le> 2147483647))"

lemma regroup_end:
  assumes ok: "axes_ok N O' S newShape olddims oldstrides"
    and idx: "ni \<le> length N" "oi \<le> length O'" "length ns = length N" "\<not> (ni < length N \<and> oi < length O')"
    and same: "same_lin b (take ni N) (take ni ns) (take oi O') (take oi S)"
    and last: "0 < ni \<Longrightarrow> 0 \<le> ns ! (ni - 1) \<and> ns ! (ni - 1) * N ! (ni - 1) \<le> 2147483647"
  shows "regrouped b N O' S (Inr (int ni, ns))"
proof -
  have pos: "pos_shape N" "pos_shape O'" and tot: "prod_list N = prod_list O'"
    and wide: "\<forall>d\<in>set O'. d \<noteq> 1" and len: "length S = length O'"
    using ok by (simp_all add: axes_ok_def)
  have tk: "prod_list (take ni N) = prod_list (take oi O')" using same by (simp add: same_lin_def)
  have oi: "oi = length O'"
  proof (rule ccontr)
    assume "oi \<noteq> length O'"
    then have lt: "oi < length O'" "ni = length N" using idx by auto
    then have "prod_list (take oi O') * prod_list (drop oi O') = prod_list (take oi O')"
      using tk tot by (simp add: prod_take_drop)
    then have "prod_list (drop oi O') = 1"
      using prod_list_pos [OF pos_shape_take [OF pos(2)], of oi] by simp
    then have "list_all ((=) 1) (drop oi O')"
      using prod_1_units pos_shape_drop pos(2) by blast
    moreover have "drop oi O' = O' ! oi # drop (Suc oi) O'" using lt by (simp add: Cons_nth_drop_Suc)
    ultimately have "O' ! oi = 1" by simp
    then show False using wide lt by simp
  qed
  then have "prod_list (take ni N) * prod_list (drop ni N) = prod_list (take ni N)"
    using tk tot prod_take_drop [of ni N] by simp
  then have "prod_list (drop ni N) = 1"
    using prod_list_pos [OF pos_shape_take [OF pos(1)], of ni] by simp
  then have "list_all ((=) 1) (drop ni N)"
    using prod_1_units pos_shape_drop pos(1) by blast
  then show ?thesis
    using same last idx oi len by (simp add: regrouped_def)
qed

lemma regroup_eq:
  assumes ok: "axes_ok N O' S newShape olddims oldstrides"
  shows "ni \<le> length N \<Longrightarrow> oi \<le> length O' \<Longrightarrow> length ns = length N \<Longrightarrow>
    same_lin b (take ni N) (take ni ns) (take oi O') (take oi S) \<Longrightarrow>
    (0 < ni \<Longrightarrow> 0 \<le> ns ! (ni - 1) \<and> ns ! (ni - 1) * N ! (ni - 1) \<le> 2147483647) \<Longrightarrow>
    \<exists>r. regroup b (int (length N)) newShape (int (length O')) olddims oldstrides
          (int ni) (int (Suc ni)) (int oi) (int (Suc oi)) ns = Some r \<and> regrouped b N O' S r"
proof (induction "length N - ni" arbitrary: ni oi ns rule: less_induct)
  case less
  have pos: "pos_shape N" "pos_shape O'" and tot: "prod_list N = prod_list O'" "prod_list N \<le> 2147483647"
    and nn: "nonneg S" and len: "length S = length O'" "length N \<le> 2147483645" "length O' \<le> 2147483645"
    and ext: "\<And>k. k < length O' \<Longrightarrow> O' ! k * S ! k \<le> 2147483647"
    and rN: "\<And>k. k < length N \<Longrightarrow> rd newShape (int k) = Some (N ! k)"
    and rO: "\<And>k. k < length O' \<Longrightarrow> rd olddims (int k) = Some (O' ! k)"
    and rS: "\<And>k. k < length O' \<Longrightarrow> rd oldstrides (int k) = Some (S ! k)"
    using ok unfolding axes_ok_def by auto
  show ?case
  proof (cases "ni < length N \<and> oi < length O'")
    case False
    then show ?thesis
      using regroup_end [OF ok less.prems(1-3) _ less.prems(4,5)] by (subst regroup.simps) auto
  next
    case True
    have tk: "prod_list (take ni N) = prod_list (take oi O')" using less.prems(4) by (simp add: same_lin_def)
    then have dp: "prod_list (drop ni N) = prod_list (drop oi O')"
      using prod_take_drop [of ni N] prod_take_drop [of oi O'] tot(1)
        prod_list_pos [OF pos_shape_take [OF pos(1)], of ni]
      by (metis mult_cancel_left less_irrefl)
    obtain nj oj where w: "widen newShape olddims (N ! ni) (O' ! oi) (int (Suc ni)) (int (Suc oi)) =
          Some (int nj, int oj)"
      and ij: "Suc ni \<le> nj" "nj \<le> length N" "Suc oi \<le> oj" "oj \<le> length O'"
      and pr: "prod_list (slice N ni nj) = prod_list (slice O' oi oj)"
      using widen_eq [OF ok dp, of "Suc ni" "Suc oi"] True by (auto simp: slice_one)
    have comb: "combinable b olddims oldstrides (int oi) (int oj) =
          Some (chained b (slice O' oi oj) (slice S oi oj))"
      using combinable_eq [OF ok, of oi oj b] ij by simp
    have reads: "rd newShape (int ni) = Some (N ! ni)" "rd olddims (int oi) = Some (O' ! oi)"
      using rN rO True by blast+
    show ?thesis
    proof (cases "chained b (slice O' oi oj) (slice S oi oj)")
      case False
      then have "\<not> chained b O' S" using chained_slice ij(4) len(1) by blast
      then show ?thesis
        using True reads w comb False
        by (subst regroup.simps) (simp add: regrouped_def del: rd_nat of_nat_Suc)
    next
      case ch: True
      define s where "s = unit_stride b (slice S oi oj)"
      define G where "G = slice N ni nj"
      define H where "H = slice O' oi oj"
      have lenH: "H \<noteq> []" "length (slice S oi oj) = length H" "length H = oj - oi"
        using ij len by (auto simp: H_def slice_def)
      have posG: "pos_shape G" "pos_shape H" using pos by (simp_all add: G_def H_def pos_shape_slice)
      have Heq: "slice S oi oj = map ((*) s) (order_strides b H)"
        unfolding s_def using chained_strides [OF lenH(1,2)] ch by (simp add: H_def)
      obtain k where k: "k < length H" "s * prod_list H = H ! k * slice S oi oj ! k"
        using chained_extent [OF lenH(1,2)] ch posG by (auto simp: H_def s_def)
      have "oi + k < oj" using k lenH by simp
      then have sP: "s * prod_list H = O' ! (oi + k) * S ! (oi + k)" "oi + k < length O'"
        using k ij len by (simp_all add: H_def nth_slice)
      then have bound: "s * prod_list G \<le> 2147483647" using ext [of "oi + k"] pr by (simp add: G_def H_def)
      have s_eq: "s = (if b then S ! oi else S ! (oj - 1))"
        using ij len lenH by (simp add: s_def unit_stride_def nth_slice)
      have s0: "0 \<le> s" using s_eq nn ij len by (simp add: nonneg_nth)
      have src: "rd oldstrides (if b then int oi else int oj - 1) = Some s"
        using rS [of oi] rS [of "oj - 1"] ij s_eq by (simp add: of_nat_diff del: rd_nat)
      define ns' where "ns' = take ni ns @ map ((*) s) (order_strides b G) @ drop nj ns"
      have grp: "group_strides b newShape oldstrides (int ni) (int nj) (int oi) (int oj) ns = Some ns'"
        unfolding ns'_def G_def
        using ij less.prems(3) src s0 bound by (intro group_strides_eq rN pos) (auto simp: G_def)
      have lenG: "length G = nj - ni" using ij by (simp add: G_def)
      have lens': "length ns' = length N" using ij less.prems(3) lenG by (simp add: ns'_def)
      have same': "same_lin b (take nj N) (take nj ns') (take oj O') (take oj S)"
      proof -
        have "same_lin b (take ni N @ G) (take ni ns @ map ((*) s) (order_strides b G))
                (take oi O' @ H) (take oi S @ map ((*) s) (order_strides b H))"
          using less.prems(4) same_lin_groups [OF posG, of b s] pr posG pos
          by (intro same_lin_append) (simp_all add: G_def H_def pos_shape_take)
        moreover have "take ni N @ G = take nj N" "take oi O' @ H = take oj O'"
          using ij by (simp_all add: G_def H_def take_slice)
        moreover have "take oi S @ map ((*) s) (order_strides b H) = take oj S"
          using ij by (simp add: take_slice flip: Heq)
        moreover have "take nj ns' = take ni ns @ map ((*) s) (order_strides b G)"
          using ij lenG less.prems(3) by (simp add: ns'_def)
        ultimately show ?thesis by simp
      qed
      have last': "0 \<le> ns' ! (nj - 1) \<and> ns' ! (nj - 1) * N ! (nj - 1) \<le> 2147483647"
      proof -
        have kk: "nj - 1 - ni < length G" using ij lenG by simp
        have "ns' ! (ni + (nj - 1 - ni)) = s * order_strides b G ! (nj - 1 - ni)"
          using kk ij less.prems(3) unfolding ns'_def
          by (subst nth_append_right) (simp_all add: nth_append)
        moreover have "ni + (nj - 1 - ni) = nj - 1" using ij by simp
        moreover have "N ! (nj - 1) = G ! (nj - 1 - ni)"
          using ij by (simp add: G_def nth_slice)
        moreover have "0 \<le> order_strides b G ! (nj - 1 - ni)"
          using kk posG by (simp add: order_strides_def nonneg_nth nonneg_c_strides nonneg_f_strides)
        moreover have "order_strides b G ! (nj - 1 - ni) * G ! (nj - 1 - ni) \<le> prod_list G"
        proof (cases b)
          case True
          then show ?thesis
            using prod_take_Suc [OF kk] prod_take_le [OF posG(1), of "Suc (nj - 1 - ni)"] kk
            by (simp add: order_strides_def nth_f_strides)
        next
          case False
          then show ?thesis
            using prod_drop_Suc [OF kk] prod_drop_le [OF posG(1), of "nj - 1 - ni"] kk
            by (simp add: order_strides_def nth_c_strides mult.commute)
        qed
        ultimately show ?thesis
          using s0 bound mult_left_mono [of "order_strides b G ! (nj - 1 - ni) * G ! (nj - 1 - ni)" "prod_list G" s]
          by (simp add: mult.assoc)
      qed
      have "\<exists>r. regroup b (int (length N)) newShape (int (length O')) olddims oldstrides
          (int nj) (int (Suc nj)) (int oj) (int (Suc oj)) ns' = Some r \<and> regrouped b N O' S r"
        using ij True lens' same' last' by (intro less.hyps) auto
      moreover have "i32 (int nj + 1) = Some (int (Suc nj))" "i32 (int oj + 1) = Some (int (Suc oj))"
        using ij len by (simp_all add: i32_def)
      ultimately show ?thesis
        using True reads w comb ch grp
        by (subst regroup.simps) (simp del: rd_nat of_nat_Suc)
    qed
  qed
qed

section \<open>Correctness of reshaping\<close>

text \<open>Shapes and strides for which no step of the computation overflows.\<close>

definition reshapable :: "int list \<Rightarrow> int list \<Rightarrow> int list \<Rightarrow> bool" where
  "reshapable sh st N \<longleftrightarrow> dims_ok sh st \<and> small_shape sh \<and> small_shape N \<and> nonneg st \<and>
     list_all2 (\<lambda>d s. d * s \<le> 2147483647) sh st \<and> 2 * int (length N) + 4 \<le> 2147483647"

lemma rd_take_eq:
  assumes "n \<le> length xs" "take n xs = ys" "k < n"
  shows "rd xs (int k) = Some (ys ! k)"
  using assms by auto

lemma copyOf_new_eq: "n \<le> length xs \<Longrightarrow> copyOf_new (int n) xs = Some (take n xs)"
  by (simp add: copyOf_new_def copyOf_def memcpy_int_def)

lemma wide_extent:
  assumes "list_all2 P sh st" "k < length (wide_dims sh st)"
  shows "P (wide_dims sh st ! k) (wide_strides sh st ! k)"
  using assms
proof (induction sh st arbitrary: k rule: list_all2_induct)
  case (Cons d sh s st)
  then show ?case by (cases k) (auto split: if_splits)
qed simp

lemma nonneg_wide: "nonneg st \<Longrightarrow> nonneg (wide_strides sh st)"
  using set_wide(2) [of _ sh st] by (auto simp: nonneg_def list_all_iff)

lemma attempt_reshape_eq:
  assumes ok: "reshapable sh st N"
    and shp: "length sh \<le> length shp" "take (length sh) shp = sh"
    and str: "length sh \<le> length str" "take (length sh) str = st"
    and new: "length N \<le> length newShape" "take (length N) newShape = N"
  shows "\<exists>r. attempt_reshape (int (length sh)) shp str (int (length N)) newShape b (int (length N)) = Some r \<and>
    (if prod_list N = prod_list sh then regrouped b N (wide_dims sh st) (wide_strides sh st) r
     else r = Inl ())"
proof -
  let ?D = "wide_dims sh st" and ?S = "wide_strides sh st"
  have len: "length st = length sh" "2 * int (length sh) + 4 \<le> 2147483647"
    "2 * int (length N) + 4 \<le> 2147483647"
    and pos: "pos_shape sh" "pos_shape N" "prod_list sh \<le> 2147483647" "prod_list N \<le> 2147483647"
    and nn: "nonneg st" and ext: "list_all2 (\<lambda>d s. d * s \<le> 2147483647) sh st"
    using ok by (auto simp: reshapable_def dims_ok_def small_shape_def)
  have cp: "copyOf_new (int (length sh)) shp = Some sh" "copyOf_new (int (length sh)) str = Some st"
    using copyOf_new_eq [OF shp(1)] copyOf_new_eq [OF str(1)] shp str by simp_all
  have wide: "prod_list ?D = prod_list sh" "pos_shape ?D" "length ?S = length ?D"
    using wide_props [of sh st] len pos by (auto simp: length_wide)
  obtain xs ys where drop: "drop_unit_axes (int (length sh)) shp str sh st =
        Some (?D @ xs, ?S @ ys, int (length ?D))"
    using drop_unit_axes_eq [of st sh shp str] rd_take_eq [OF shp] rd_take_eq [OF str] len by auto
  have np: "shape_prod newShape (int (length N)) = Some (prod_list N)"
    using shape_prod_eq [of "length N" newShape] new pos by simp
  have op: "shape_prod (?D @ xs) (int (length ?D)) = Some (prod_list sh)"
    using shape_prod_eq [of "length ?D" "?D @ xs"] wide pos by simp
  show ?thesis
  proof (cases "prod_list N = prod_list sh")
    case False
    then show ?thesis using cp drop np op by (simp add: attempt_reshape_def)
  next
    case True
    have le: "length ?D \<le> length sh" by (rule length_wide_le)
    have axes: "axes_ok N ?D ?S newShape (?D @ xs) (?S @ ys)"
      unfolding axes_ok_def
      using rd_take_eq [OF new] wide pos len nn ext True le
        wide_extent [OF ext] set_wide(1) [of _ sh st]
      by (auto simp: nonneg_wide nth_append)
    have "same_lin b (take 0 N) (take 0 (replicate (length N) undefined)) (take 0 ?D) (take 0 ?S)"
      by (simp add: same_lin_def)
    then obtain r where r: "regroup b (int (length N)) newShape (int (length ?D)) (?D @ xs) (?S @ ys)
          (int 0) (int (Suc 0)) (int 0) (int (Suc 0)) (replicate (length N) undefined) = Some r"
      "regrouped b N ?D ?S r"
      using regroup_eq [OF axes, of 0 0 "replicate (length N) undefined" b] by auto
    moreover have "prod_list N \<noteq> 0" using prod_list_pos [OF pos(2)] by simp
    ultimately show ?thesis
      using cp drop np op True by (simp add: attempt_reshape_def)
  qed
qed

text \<open>More cells for the new strides than axes make no difference.\<close>

lemma rd_frame: "rd xs i = Some v \<Longrightarrow> rd (xs @ ys) i = Some v"
  by (auto simp: rd_def nth_append split: if_splits)

lemma wr_frame: "wr xs i v = Some zs \<Longrightarrow> wr (xs @ ys) i v = Some (zs @ ys)"
  by (auto simp: wr_def list_update_append split: if_splits)

lemma mfor_frame:
  assumes "\<And>k s s'. f k s = Some s' \<Longrightarrow> f k (s @ ys) = Some (s' @ ys)"
  shows "mfor f ks s = Some s' \<Longrightarrow> mfor f ks (s @ ys) = Some (s' @ ys)"
proof (induction ks arbitrary: s)
  case (Cons k ks)
  then show ?case using assms by (cases "f k s") auto
qed simp

lemma group_strides_frame:
  "group_strides b newShape oldstrides ni nj oi oj ns = Some s \<Longrightarrow>
   group_strides b newShape oldstrides ni nj oi oj (ns @ ys) = Some (s @ ys)"
  by (auto simp: group_strides_def bind_eq_Some_conv wr_frame rd_frame split: if_splits intro!: mfor_frame)

definition more_cells :: "int list \<Rightarrow> unit + int \<times> int list \<Rightarrow> unit + int \<times> int list" where
  "more_cells ys r = map_sum id (map_prod id (\<lambda>s. s @ ys)) r"

lemma regroup_frame:
  assumes "regroup b newRank newShape oldnd olddims oldstrides ni nj oi oj ns = Some r"
  shows "regroup b newRank newShape oldnd olddims oldstrides ni nj oi oj (ns @ ys) = Some (more_cells ys r)"
proof (rule regroup.raw_induct [where P = "\<lambda>b newRank newShape oldnd olddims oldstrides ni nj oi oj ns r.
    regroup b newRank newShape oldnd olddims oldstrides ni nj oi oj (ns @ ys) = Some (more_cells ys r)", OF _ assms], goal_cases)
  case (1 regroup' b newRank newShape oldnd olddims oldstrides ni nj oi oj ns r)
  show ?case
  proof (cases "ni < newRank \<and> oi < oldnd")
    case False
    then have "r = Inr (ni, ns)" using 1(2) by auto
    then show ?thesis using False by (subst regroup.simps) (auto simp: more_cells_def)
  next
    case True
    then obtain np op' nj1 oj1 c where start: "rd newShape ni = Some np" "rd olddims oi = Some op'"
      "widen newShape olddims np op' nj oj = Some (nj1, oj1)" "combinable b olddims oldstrides oi oj1 = Some c"
      and rest: "(if \<not> c then Some (Inl ())
        else do {
          newStrides \<leftarrow> group_strides b newShape oldstrides ni nj1 oi oj1 ns;
          nj2 \<leftarrow> i32 (nj1 + 1);
          oj2 \<leftarrow> i32 (oj1 + 1);
          regroup' b newRank newShape oldnd olddims oldstrides nj1 nj2 oj1 oj2 newStrides }) = Some r"
      using 1(2) by (auto simp: bind_eq_Some_conv split: prod.splits)
    show ?thesis
    proof (cases c)
      case False
      then show ?thesis using rest start True by (subst regroup.simps) (auto simp: more_cells_def)
    next
      case c: True
      then obtain s nj2 oj2 where s: "group_strides b newShape oldstrides ni nj1 oi oj1 ns = Some s"
        "i32 (nj1 + 1) = Some nj2" "i32 (oj1 + 1) = Some oj2"
        "regroup' b newRank newShape oldnd olddims oldstrides nj1 nj2 oj1 oj2 s = Some r"
        using rest by (auto simp: bind_eq_Some_conv)
      then show ?thesis
        using start True c group_strides_frame [OF s(1), of ys] 1(1) [OF s(4)] by (subst regroup.simps) simp
    qed
  qed
qed

lemma attempt_reshape_more:
  assumes "attempt_reshape oldRank shp str newRank newShape b newRank = Some r" "newRank \<le> cells"
  shows "\<exists>ys. attempt_reshape oldRank shp str newRank newShape b cells = Some (more_cells ys r)"
proof -
  let ?ys = "replicate (nat (cells - newRank)) (undefined :: int)"
  have n: "0 \<le> newRank" using assms(1) by (auto simp: attempt_reshape_def new_int_def bind_eq_Some_conv split: if_splits)
  then have "nat cells = nat newRank + nat (cells - newRank)" using assms(2) by simp
  then have cells: "new_int newRank = Some (replicate (nat newRank) undefined)"
    "new_int cells = Some (replicate (nat newRank) undefined @ ?ys)"
    using n assms(2) by (simp_all add: new_int_def replicate_add)
  obtain D0 S0 D S d np op' where start: "copyOf_new oldRank shp = Some D0" "copyOf_new oldRank str = Some S0"
    "drop_unit_axes oldRank shp str D0 S0 = Some (D, S, d)" "shape_prod newShape newRank = Some np" "shape_prod D d = Some op'"
    and rest: "(if np \<noteq> op' then Some (Inl ()) else if np = 0 then Some (Inl ())
      else regroup b newRank newShape d D S 0 1 0 1 (replicate (nat newRank) undefined)) = Some r"
    using assms(1) cells(1) by (auto simp: attempt_reshape_def bind_eq_Some_conv split: prod.splits)
  show ?thesis
  proof (cases "np \<noteq> op' \<or> np = 0")
    case True
    then have "r = Inl ()" using rest by (auto split: if_splits)
    then show ?thesis using True start cells(2) by (auto simp: attempt_reshape_def more_cells_def)
  next
    case False
    then show ?thesis
      using rest start cells(2) regroup_frame [of b newRank newShape d D S 0 1 0 1 "replicate (nat newRank) undefined" r ?ys]
      by (auto simp: attempt_reshape_def)
  qed
qed

text \<open>The strides of the trailing axes of size one, and the header of the target.\<close>

lemma fill_from_eq:
  assumes "j \<le> length xs"
  shows "mfor (\<lambda>nk xs. wr xs nk v) [int j..int (length xs) - 1] xs =
         Some (take j xs @ replicate (length xs - j) v)"
proof -
  define g where "g k = take j xs @ replicate k v @ drop (j + k) xs" for k
  have "mfor (\<lambda>nk xs. wr xs nk v) [int j..int j + int (length xs - j) - 1] (g 0) = Some (g (length xs - j))"
  proof (rule mfor_trace_from)
    fix k assume k: "k < length xs - j"
    have "wr (g k) (int (j + k)) v = Some (g (Suc k))"
      unfolding wr_nat using k assms
      by (simp add: g_def list_update_append replicate_append_same Cons_nth_drop_Suc [symmetric])
    then show "wr (g k) (int j + int k) v = Some (g (Suc k))" by simp
  qed
  then show ?thesis using assms by (simp add: g_def)
qed

lemma regrouped_fill:
  assumes reg: "regrouped b N (wide_dims sh st) (wide_strides sh st) (Inr (j, ns))"
    and len: "length st = length sh" and pos: "pos_shape sh" "pos_shape N"
  shows "same_lin b N (take (nat j) ns @ replicate (length N - nat j) v) sh st"
proof -
  let ?D = "wide_dims sh st" and ?S = "wide_strides sh st"
  have j: "nat j \<le> length N" "length ns = length N"
    and same: "same_lin b (take (nat j) N) (take (nat j) ns) ?D ?S"
    and ones: "list_all ((=) 1) (drop (nat j) N)"
    using reg by (auto simp: regrouped_def)
  have "same_lin b (take (nat j) N @ drop (nat j) N) (take (nat j) ns @ replicate (length N - nat j) v)
          (?D @ []) (?S @ [])"
    using same same_lin_units [OF ones, of "replicate (length N - nat j) v" b] pos
      wide_props(2) [of sh st] len unit_axes(1) [OF ones]
    by (intro same_lin_append) (auto simp: pos_shape_take)
  then have "same_lin b N (take (nat j) ns @ replicate (length N - nat j) v) ?D ?S" by simp
  moreover have "same_lin b sh st ?D ?S" using wide_props(3) [of sh st b] len pos by simp
  ultimately show ?thesis using same_lin_sym same_lin_trans by blast
qed

lemma write_target_eq:
  assumes len: "length st = length N" "length target = 2 * length N + 4" "2 * int (length N) + 4 \<le> 2147483647"
    and new: "length N \<le> length newShape" "take (length N) newShape = N"
  shows "write_target (int (length N)) newShape st ord target = Some (mk_info N st 0 (- 1) ord)"
proof -
  let ?n = "length N"
  obtain r0 rest where t: "target = r0 # rest" "length rest = 2 * ?n + 3"
    using len(2) by (cases target) auto
  define t1 where "t1 = int ?n # rest"
  have w: "wr target 0 (int ?n) = Some t1" by (simp add: wr_def t t1_def)
  have l1: "1 + ?n \<le> length t1" "1 + ?n \<le> 2147483647" using t len by (simp_all add: t1_def)
  have s1: "mfor (\<lambda>e s. rd newShape e \<bind> (\<lambda>v. append_cell v s)) [0..int ?n - 1] (t1, 1) =
        Some (take 1 t1 @ N @ drop (1 + ?n) t1, int (1 + ?n))"
    using append_cells_loop [OF new(1) l1] new(2) by simp
  define t2 where "t2 = take 1 t1 @ N @ drop (1 + ?n) t1"
  have "?n \<le> length st" "1 + ?n + ?n \<le> length t2" "1 + ?n + ?n \<le> 2147483647"
    using len t by (simp_all add: t2_def t1_def)
  from append_cells_loop [OF this]
  have s2: "mfor (\<lambda>e s. rd st e \<bind> (\<lambda>v. append_cell v s)) [0..int ?n - 1] (t2, int (1 + ?n)) =
        Some (take (1 + ?n) t2 @ st @ drop (1 + ?n + ?n) t2, int (1 + ?n + ?n))"
    using len(1) by simp
  obtain a b c where abc: "drop (?n + ?n) rest = [a, b, c]"
    using list_of_3 [of "drop (?n + ?n) rest"] t by auto
  have t3: "take (1 + ?n) t2 @ st @ drop (1 + ?n + ?n) t2 = mk_info N st a b c"
    using abc by (simp add: t2_def t1_def mk_info_def add.commute)
  have n: "shapeInfoLength (int ?n) = Some (2 * int ?n + 4)"
    using len(3) by (simp add: shapeInfoLength_def i32_def mult.commute)
  have e: "2 * int ?n + 4 - 3 = 1 + 2 * int ?n" "2 * int ?n + 4 - 2 = 2 + 2 * int ?n"
    "2 * int ?n + 4 - 1 = 3 + 2 * int ?n" by simp_all
  show ?thesis
    using w s1 [folded t2_def] s2 n wr_tail_mk_info [OF len(1)]
    unfolding t3 by (simp add: e write_target_def)
qed

lemma reshapeCF_cases:
  assumes ok: "reshapable sh st N"
    and new: "length N \<le> length newShape" "take (length N) newShape = N"
    and target: "length target = 2 * length N + 4"
  shows "\<exists>q target'. reshapeCF (int (length sh)) (mk_info sh st off ews ord) (int (length N)) newShape b target =
           Some (q, target') \<and>
         (if q then \<exists>st'. target' = mk_info N st' 0 (- 1) (if b then 102 else 99) \<and> same_lin b N st' sh st
          else target' = target \<and>
            (prod_list N \<noteq> prod_list sh \<or> \<not> chained b (wide_dims sh st) (wide_strides sh st)))"
proof -
  let ?B = "mk_info sh st off ews ord"
  have len: "length st = length sh" "2 * int (length sh) + 4 \<le> 2147483647" "2 * int (length N) + 4 \<le> 2147483647"
    and pos: "pos_shape sh" "pos_shape N" and dims: "dims_ok sh st"
    using ok by (auto simp: reshapable_def dims_ok_def small_shape_def)
  have ptrs: "shapeOf ?B = Some (sh @ st @ [off, ews, ord])" "shape_stride ?B = Some (st @ [off, ews, ord])"
    "shape_ews ?B = Some ews"
    using dims by (simp_all add: info_simps)
  obtain r where r: "attempt_reshape (int (length sh)) (sh @ st @ [off, ews, ord]) (st @ [off, ews, ord])
        (int (length N)) newShape b (int (length N)) = Some r"
    and reg: "if prod_list N = prod_list sh then regrouped b N (wide_dims sh st) (wide_strides sh st) r
              else r = Inl ()"
    using attempt_reshape_eq [OF ok, of "sh @ st @ [off, ews, ord]" "st @ [off, ews, ord]" newShape b] new len
    by auto
  show ?thesis
  proof (cases r)
    case (Inl u)
    have "prod_list N \<noteq> prod_list sh \<or> \<not> chained b (wide_dims sh st) (wide_strides sh st)"
      using reg Inl by (simp add: regrouped_def split: if_splits)
    moreover have "reshapeCF (int (length sh)) ?B (int (length N)) newShape b target = Some (False, target)"
      using r ptrs(1,2) Inl by (simp add: reshapeCF_def)
    ultimately show ?thesis by (intro exI [of _ False] exI [of _ target]) simp
  next
    case (Inr p)
    obtain j ns where p: "p = (j, ns)" by (cases p)
    have reg': "regrouped b N (wide_dims sh st) (wide_strides sh st) (Inr (j, ns))"
      using reg Inr p by (auto split: if_splits)
    then have j: "0 \<le> j" "j \<le> int (length N)" "length ns = length N"
      and last: "0 < j \<Longrightarrow> 0 \<le> ns ! (nat j - 1) \<and> ns ! (nat j - 1) * N ! (nat j - 1) \<le> 2147483647"
      by (auto simp: regrouped_def)
    have jj: "int (nat j) = j" "nat j \<le> length ns" using j by simp_all
    obtain v where v: "last_stride b newShape ns j (shape_ews ?B) = Some v"
    proof (cases "1 \<le> j")
      case True
      have k: "int (nat j - 1) = j - 1" "nat j - 1 < length N" using True j by auto
      have "rd ns (j - 1) = Some (ns ! (nat j - 1))" "rd newShape (j - 1) = Some (N ! (nat j - 1))"
        using rd_nat [of ns "nat j - 1"] rd_take_eq [OF new k(2)] k j(3) by simp_all
      moreover have "0 \<le> ns ! (nat j - 1) * N ! (nat j - 1)"
        using last True pos_shape_nth [OF pos(2) k(2)] by simp
      ultimately show ?thesis using True that last by (cases b) (auto simp: i32_def last_stride_def)
    next
      case False
      then show ?thesis using that ptrs(3) by (simp add: last_stride_def)
    qed
    define st' where "st' = take (nat j) ns @ replicate (length N - nat j) v"
    have fill: "mfor (\<lambda>nk xs. wr xs nk v) [j..int (length N) - 1] ns = Some st'"
      using fill_from_eq [OF jj(2), of v] jj(1) j(3) by (simp add: st'_def)
    have lst': "length st' = length N" using j by (simp add: st'_def)
    have same: "same_lin b N st' sh st"
      unfolding st'_def by (rule regrouped_fill [OF reg' len(1) pos])
    have "reshapeCF (int (length sh)) ?B (int (length N)) newShape b target =
          Some (True, mk_info N st' 0 (- 1) (if b then 102 else 99))"
      using ptrs(1,2) r Inr p v fill write_target_eq [OF lst' target len(3) new]
      by (simp add: reshapeCF_def)
    then show ?thesis using same
      by (intro exI [of _ True] exI [of _ "mk_info N st' 0 (- 1) (if b then 102 else 99)"]) auto
  qed
qed

section \<open>Contiguous arrays\<close>

lemma chained_order_strides: "chained b ds (order_strides b ds)"
  by (auto simp: chained_def order_strides_def c_strides_Suc f_strides_Suc mult.commute)

lemma f_strides_snoc: "f_strides (ds @ [d]) = f_strides ds @ [prod_list ds]"
  by (simp add: f_strides_def)

lemma wide_order_strides:
  assumes "pos_shape sh"
  shows "wide_strides sh (order_strides b sh) = order_strides b (wide_dims sh (order_strides b sh))"
proof (cases b)
  case True
  have "wide_strides sh (f_strides sh) = f_strides (wide_dims sh (f_strides sh))"
    using assms
  proof (induction sh rule: rev_induct)
    case Nil
    show ?case by (simp add: f_strides_def)
  next
    case (snoc d ds)
    then show ?case
      using wide_props(1) [of ds "f_strides ds"] by (simp add: f_strides_snoc wide_snoc)
  qed
  then show ?thesis using True by (simp add: order_strides_def)
next
  case False
  have "wide_strides sh (c_strides sh) = c_strides (wide_dims sh (c_strides sh))"
    using assms
  proof (induction sh)
    case (Cons d ds)
    then show ?case using wide_props(1) [of ds "c_strides ds"] by simp
  qed simp
  then show ?thesis using False by (simp add: order_strides_def)
qed

lemma chained_wide_order:
  "pos_shape sh \<Longrightarrow> chained b (wide_dims sh (order_strides b sh)) (wide_strides sh (order_strides b sh))"
  by (simp add: wide_order_strides chained_order_strides)

lemma lin_order_strides:
  "pos_shape sh \<Longrightarrow> 0 \<le> x \<Longrightarrow> x < prod_list sh \<Longrightarrow> lin b sh (order_strides b sh) x = x"
  by (simp add: lin_def coords_def order_strides_def c_coords_dot f_coords_dot)

section \<open>The element-wise stride\<close>

lemma computeElementWiseStride_vector:
  assumes "length sh = 1 \<or> length sh = 2 \<and> (sh ! 0 = 1 \<or> sh ! 1 = 1)"
    and "length sh \<le> length shp" "take (length sh) shp = sh"
    and "length sh \<le> length str" "take (length sh) str = st"
  shows "computeElementWiseStride (int (length sh)) shp str f = Some (st ! (length sh - 1))"
proof -
  have "length sh - 1 < length sh" using assms(1) by auto
  from rd_take_eq [OF assms(4,5) this] isVector_eq [OF refl assms(2,3)] show ?thesis
    using assms(1) by (auto simp: computeElementWiseStride_def of_nat_diff simp del: rd_nat)
qed

text \<open>
  In C order the answer is either \<open>-1\<close>, and the axes do not form one run, or the
  distance of consecutive elements. Column vectors are excluded: there the code answers
  with the stride of the unit axis.
\<close>

lemma computeElementWiseStride_c:
  assumes ok: "reshapable sh st [1, prod_list sh]" and col: "\<not> (length sh = 2 \<and> sh ! 1 = 1)"
    and shp: "length sh \<le> length shp" "take (length sh) shp = sh"
    and str: "length sh \<le> length str" "take (length sh) str = st"
  shows "\<exists>e. computeElementWiseStride (int (length sh)) shp str 0 = Some e \<and>
    (e = - 1 \<and> \<not> chained False (wide_dims sh st) (wide_strides sh st) \<or>
     0 \<le> e \<and> (\<forall>x. 0 \<le> x \<longrightarrow> x < prod_list sh \<longrightarrow> lin False sh st x = e * x))"
proof -
  let ?P = "prod_list sh" and ?N = "[1, prod_list sh]"
  have len: "length st = length sh" and pos: "pos_shape sh" "?P \<le> 2147483647" "0 < ?P" and nn: "nonneg st"
    using ok by (auto simp: reshapable_def dims_ok_def small_shape_def prod_list_pos)
  consider "sh = []" | "length sh = 1 \<or> length sh = 2 \<and> sh ! 0 = 1"
    | "sh \<noteq> []" "length sh \<noteq> 1" "\<not> (length sh = 2 \<and> (sh ! 0 = 1 \<or> sh ! 1 = 1))"
    using col by auto
  then show ?thesis
  proof cases
    case 1
    then show ?thesis by (auto simp: computeElementWiseStride_def lin_def coords_def)
  next
    case 2
    then have "computeElementWiseStride (int (length sh)) shp str 0 = Some (st ! (length sh - 1))"
      using computeElementWiseStride_vector [OF _ shp str] by blast
    moreover have "0 \<le> st ! (length sh - 1)"
      using 2 nn len by (intro nonneg_nth) auto
    moreover have "lin False sh st x = st ! (length sh - 1) * x" if "0 \<le> x" "x < ?P" for x
      using 2 len list_of_1 [of sh] list_of_1 [of st] list_of_2 [of sh] list_of_2 [of st] that
      by (auto simp: lin_def coords_def)
    ultimately show ?thesis by blast
  next
    case 3
    then have nv: "isVector shp (int (length sh)) = Some 0" and n0: "int (length sh) \<noteq> 0"
      using isVector_eq [OF refl shp] by auto
    have lenP: "shape_prodLong shp (int (length sh)) = Some ?P"
      using shape_prodLong_eq [of "length sh" shp] shp pos by simp
    have ti: "to_int ?P = ?P" using pos by (simp add: to_int_id)
    obtain r where r2: "attempt_reshape (int (length sh)) shp str 2 ?N False 2 = Some r"
      and reg: "regrouped False ?N (wide_dims sh st) (wide_strides sh st) r"
      using attempt_reshape_eq [OF ok shp str, of ?N False] by auto
    have "2 \<le> int (length sh)" using 3(1,2) by (cases sh; cases "tl sh") auto
    then obtain ys where r: "attempt_reshape (int (length sh)) shp str 2 ?N False (int (length sh)) = Some (more_cells ys r)"
      using attempt_reshape_more [OF r2] by blast
    show ?thesis
    proof (cases r)
      case (Inl u)
      then have "\<not> chained False (wide_dims sh st) (wide_strides sh st)"
        using reg by (simp add: regrouped_def)
      moreover have "computeElementWiseStride (int (length sh)) shp str 0 = Some (- 1)"
        using nv n0 lenP ti r Inl by (simp add: computeElementWiseStride_def more_cells_def Let_def)
      ultimately show ?thesis by blast
    next
      case (Inr q)
      obtain j ns where q: "q = (j, ns)" by (cases q)
      have reg': "regrouped False ?N (wide_dims sh st) (wide_strides sh st) (Inr (j, ns))"
        using reg Inr q by simp
      then have j: "0 \<le> j" "j \<le> 2" "length ns = 2"
        and last: "0 < j \<Longrightarrow> 0 \<le> ns ! (nat j - 1)"
        and ones: "list_all ((=) 1) (drop (nat j) ?N)"
        by (auto simp: regrouped_def)
      obtain a0 a1 where ns: "ns = [a0, a1]" using list_of_2 j(3) by blast
      define l where "l = (if 1 \<le> j then ns ! (nat j - 1) else st ! (length sh - 1))"
      have l0: "0 \<le> l"
        using last nn len 3(1) by (auto simp: l_def intro: nonneg_nth)
      have "length sh - 1 < length sh" using 3(1) by simp
      from rd_take_eq [OF str this] have rl: "rd str (int (length sh) - 1) = Some (st ! (length sh - 1))"
        using 3(1) by (simp add: of_nat_diff Suc_leI del: rd_nat)
      have ls: "last_stride False ?N (ns @ ys) j (rd str (int (length sh) - 1)) = Some l"
        using j rl by (auto simp: last_stride_def l_def rd_def nat_diff_distrib nth_append)
      have "mfor (\<lambda>nk xs. wr xs nk l) [j..2 - 1] ns = Some (take (nat j) ns @ replicate (2 - nat j) l)"
        using fill_from_eq [of "nat j" ns l] j by simp
      then have fill: "mfor (\<lambda>nk xs. wr xs nk l) [j..2 - 1] (ns @ ys) = Some ((take (nat j) ns @ replicate (2 - nat j) l) @ ys)"
        by (rule mfor_frame [rotated]) (rule wr_frame)
      have ce: "computeElementWiseStride (int (length sh)) shp str 0 = Some l"
        using nv n0 lenP ti r Inr q ls fill by (simp add: computeElementWiseStride_def more_cells_def Let_def)
      have same: "same_lin False ?N (take (nat j) ns @ replicate (2 - nat j) l) sh st"
        using regrouped_fill [OF reg' len pos(1), of l] pos by (simp add: numeral_2_eq_2)
      have "lin False sh st x = l * x" if x: "0 \<le> x" "x < ?P" for x
      proof (cases "j = 2")
        case True
        then have "l = a1" "take (nat j) ns @ replicate (2 - nat j) l = [a0, a1]"
          by (simp_all add: l_def ns)
        then have "lin False sh st x = lin False ?N [a0, l] x"
          using same x by (simp add: same_lin_def)
        then show ?thesis using x by (simp add: lin_def coords_def mult.commute)
      next
        case False
        then have "j = 0 \<or> j = 1" using j by auto
        then have "?P = 1" using ones by auto
        then have "x = 0" using x by simp
        then show ?thesis by (simp add: lin_0 pos)
      qed
      then show ?thesis using ce l0 by blast
    qed
  qed
qed

section \<open>Construction of buffers\<close>

lemma reshapable_c:
  assumes "small_shape sh" "2 * int (length sh) + 4 \<le> 2147483647"
  shows "reshapable sh (code_c_strides sh) [1, prod_list sh]"
proof -
  have pos: "pos_shape sh" "prod_list sh \<le> 2147483647" using assms by (simp_all add: small_shape_def)
  have "sh ! k * code_c_strides sh ! k \<le> 2147483647" if k: "k < length sh" for k
  proof (cases "c_vec sh")
    case True
    then have "code_c_strides sh ! k = 1" using k by (auto simp: code_c_strides_def c_vec_def nth_Cons')
    then show ?thesis using dim_le_prod [OF pos(1), of "sh ! k"] k pos(2) by simp
  next
    case False
    then have "sh ! k * code_c_strides sh ! k = prod_list (drop k sh)"
      using k by (simp add: code_c_strides_def nth_c_strides prod_drop_Suc)
    then show ?thesis using prod_drop_le [OF pos(1), of k] pos(2) by simp
  qed
  then show ?thesis
    using assms pos prod_list_pos [OF pos(1)]
    by (simp add: reshapable_def dims_ok_def nonneg_code_strides list_all2_conv_all_nth small_shape_def)
qed

lemma shapeBuffer_cases:
  assumes "small_shape sh" "2 * int (length sh) + 4 \<le> 2147483647"
    and shp: "length sh \<le> length shp" "take (length sh) shp = sh"
  shows "\<exists>e. shapeBuffer (int (length sh)) shp = Some (mk_info sh (code_c_strides sh) 0 e 99) \<and>
           (2 \<le> prod_list sh \<longrightarrow> e = 1)"
proof -
  have pos: "pos_shape sh" using assms by (simp add: small_shape_def)
  have str: "calcStrides_new shp (int (length sh)) 1 = Some (code_c_strides sh)"
    using assms by (intro calcStrides_new_eq) (auto simp: small_shape_def)
  have buf: "toShapeBuffer_new \<lparr>si_shape = shp, si_stride = code_c_strides sh, si_order = 99,
        si_rank = int (length sh), si_offset = 0, si_ews = e\<rparr> = Some (mk_info sh (code_c_strides sh) 0 e 99)" for e
    using assms by (intro toShapeBuffer_new_eq) (auto simp: dims_ok_def)
  obtain e where e: "computeElementWiseStride (int (length sh)) shp (code_c_strides sh) 0 = Some e"
    "2 \<le> prod_list sh \<longrightarrow> e = 1"
  proof (cases "length sh = 2 \<and> (sh ! 0 = 1 \<or> sh ! 1 = 1)")
    case True
    then show ?thesis
      using that computeElementWiseStride_vector [of sh shp "code_c_strides sh" "code_c_strides sh" 0]
        code_c_strides_vec [of sh] shp by simp
  next
    case False
    then have cs: "code_c_strides sh = order_strides False sh"
      by (auto simp: code_c_strides_def c_vec_def order_strides_def)
    obtain e where e: "computeElementWiseStride (int (length sh)) shp (code_c_strides sh) 0 = Some e"
      "e = - 1 \<and> \<not> chained False (wide_dims sh (code_c_strides sh)) (wide_strides sh (code_c_strides sh)) \<or>
       0 \<le> e \<and> (\<forall>x. 0 \<le> x \<longrightarrow> x < prod_list sh \<longrightarrow> lin False sh (code_c_strides sh) x = e * x)"
      using computeElementWiseStride_c [OF reshapable_c [OF assms(1,2)], of shp "code_c_strides sh"] False shp by auto
    have "chained False (wide_dims sh (code_c_strides sh)) (wide_strides sh (code_c_strides sh))"
      unfolding cs by (rule chained_wide_order [OF pos])
    then have all: "\<forall>x. 0 \<le> x \<longrightarrow> x < prod_list sh \<longrightarrow> lin False sh (code_c_strides sh) x = e * x"
      using e(2) by blast
    have "e = 1" if "2 \<le> prod_list sh"
      using all [rule_format, of 1] lin_order_strides [OF pos, of 1 False] that by (simp add: cs)
    then show ?thesis using that e(1) by blast
  qed
  then show ?thesis
    using str buf by (auto simp: shapeBuffer_def calcStrides1_new_def)
qed

section \<open>Edge cases\<close>

text \<open>In Fortran order the answer is multiplied by the length: 24 for contiguous elements.\<close>

lemma computeElementWiseStride_fortran:
  "computeElementWiseStride 3 [2, 3, 4] [1, 2, 6] 1 = Some 24"
  by code_simp

text \<open>For a column vector whose elements are five cells apart the answer is one.\<close>

lemma computeElementWiseStride_column:
  "computeElementWiseStride 2 [3, 1] [5, 1] 0 = Some 1" "dot (c_coords [3, 1] 1) [5, 1] = 5"
  by code_simp+

text \<open>The buffer of a contiguous Fortran array has element-wise stride \<open>-1\<close>, as it is computed in C order.\<close>

lemma shapeBufferFortran_ews:
  "shapeBufferFortran 2 [2, 3] = Some [2, 2, 3, 1, 2, 0, - 1, 102]"
  by code_simp

section \<open>Properties\<close>

text \<open>C1: A reshape without copying always returns (no overflow, no access outside an array, no
  endless loop). When it succeeds, the target is a well-formed buffer of the new shape with as many elements, and the
  element at every position of the traversal (row-major or column-major) keeps its offset.
  When it fails, the target is untouched, and the lengths differ or the axes of the old
  array do not form one run.\<close>

theorem reshapeCF_keeps_offsets:
  assumes "reshapable sh st N" "length target = 2 * length N + 4"
  shows "(\<exists>st'. reshapeCF (int (length sh)) (mk_info sh st off ews ord) (int (length N)) N b target =
             Some (True, mk_info N st' 0 (- 1) (if b then 102 else 99)) \<and>
           length st' = length N \<and> prod_list N = prod_list sh \<and>
           (\<forall>x. 0 \<le> x \<longrightarrow> x < prod_list sh \<longrightarrow>
              dot (if b then f_coords N x else c_coords N x) st' =
              dot (if b then f_coords sh x else c_coords sh x) st)) \<or>
         reshapeCF (int (length sh)) (mk_info sh st off ews ord) (int (length N)) N b target =
           Some (False, target) \<and>
         (prod_list N \<noteq> prod_list sh \<or> \<not> chained b (wide_dims sh st) (wide_strides sh st))"
proof -
  obtain q t where r: "reshapeCF (int (length sh)) (mk_info sh st off ews ord) (int (length N)) N b target = Some (q, t)"
    and c: "if q then \<exists>st'. t = mk_info N st' 0 (- 1) (if b then 102 else 99) \<and> same_lin b N st' sh st
        else t = target \<and> (prod_list N \<noteq> prod_list sh \<or> \<not> chained b (wide_dims sh st) (wide_strides sh st))"
    using reshapeCF_cases [OF assms(1) order_refl take_all [OF order_refl] assms(2), of off ews ord b] by metis
  show ?thesis
  proof (cases q)
    case True
    then obtain st' where "t = mk_info N st' 0 (- 1) (if b then 102 else 99)" "same_lin b N st' sh st"
      using c by auto
    then show ?thesis
      using r True by (intro disjI1 exI [of _ st']) (simp add: same_lin_def lin_def coords_def)
  next
    case False
    then show ?thesis using r c by simp
  qed
qed

theorem reshapeCF_keeps_offsets_witness:
  "(\<exists>st'. reshapeCF 3 (mk_info [2, 3, 4] [12, 4, 1] 0 1 99) 2 [6, 4] False (replicate 8 0) =
       Some (True, mk_info [6, 4] st' 0 (- 1) 99) \<and> length st' = 2 \<and>
     (\<forall>x. 0 \<le> x \<longrightarrow> x < 24 \<longrightarrow> dot (c_coords [6, 4] x) st' = dot (c_coords [2, 3, 4] x) [12, 4, 1])) \<or>
   reshapeCF 3 (mk_info [2, 3, 4] [12, 4, 1] 0 1 99) 2 [6, 4] False (replicate 8 0) =
       Some (False, replicate 8 0) \<and>
     \<not> chained False (wide_dims [2, 3, 4] [12, 4, 1]) (wide_strides [2, 3, 4] [12, 4, 1])"
  using reshapeCF_keeps_offsets [of "[2, 3, 4]" "[12, 4, 1]" "[6, 4]" "replicate 8 0" 0 1 99 False]
  by (simp add: reshapable_def dims_ok_def small_shape_def nonneg_def numeral_2_eq_2)

text \<open>C35: A contiguous array can always be reshaped in its own order to any shape of the same length,
  and the linear indices become the offsets.\<close>

theorem reshapeCF_contiguous:
  assumes "reshapable sh (order_strides b sh) N" "prod_list N = prod_list sh" "length target = 2 * length N + 4"
  shows "\<exists>st'. reshapeCF (int (length sh)) (mk_info sh (order_strides b sh) off ews ord) (int (length N)) N b target =
           Some (True, mk_info N st' 0 (- 1) (if b then 102 else 99)) \<and>
         (\<forall>x. 0 \<le> x \<longrightarrow> x < prod_list sh \<longrightarrow>
            dot (if b then f_coords N x else c_coords N x) st' = x)"
proof -
  let ?st = "order_strides b sh"
  have pos: "pos_shape sh" using assms(1) by (simp add: reshapable_def small_shape_def)
  obtain q t where r: "reshapeCF (int (length sh)) (mk_info sh ?st off ews ord) (int (length N)) N b target = Some (q, t)"
    and c: "if q then \<exists>st'. t = mk_info N st' 0 (- 1) (if b then 102 else 99) \<and> same_lin b N st' sh ?st
        else t = target \<and> (prod_list N \<noteq> prod_list sh \<or> \<not> chained b (wide_dims sh ?st) (wide_strides sh ?st))"
    using reshapeCF_cases [OF assms(1) order_refl take_all [OF order_refl] assms(3), of off ews ord b] by metis
  have q: "q" using c chained_wide_order [OF pos, of b] assms(2) by (simp split: if_splits)
  then obtain st' where st': "t = mk_info N st' 0 (- 1) (if b then 102 else 99)" "same_lin b N st' sh ?st"
    using c by auto
  have "lin b N st' x = x" if "0 \<le> x" "x < prod_list sh" for x
    using st'(2) lin_order_strides [OF pos that, of b] that assms(2) by (simp add: same_lin_def)
  then show ?thesis using r q st'(1) by (auto simp: lin_def coords_def)
qed

theorem reshapeCF_contiguous_witness:
  "\<exists>st'. reshapeCF 2 (mk_info [4, 6] [6, 1] 0 1 99) 3 [2, 3, 4] False (replicate 10 0) =
       Some (True, mk_info [2, 3, 4] st' 0 (- 1) 99) \<and>
     (\<forall>x. 0 \<le> x \<longrightarrow> x < 24 \<longrightarrow> dot (c_coords [2, 3, 4] x) st' = x)"
  using reshapeCF_contiguous [of "[4, 6]" False "[2, 3, 4]" "replicate 10 0" 0 1 99]
  by (simp add: reshapable_def dims_ok_def small_shape_def nonneg_def order_strides_def)

text \<open>C37: Computed in C order (\<open>isFOrder\<close> is 0), for a shape that is no column vector, the element-wise stride is \<open>-1\<close>
  only when the axes do not form one run, and otherwise it is the distance in memory of consecutive elements. In Fortran
  order and for column vectors this does not hold (\<open>computeElementWiseStride_fortran\<close>, \<open>computeElementWiseStride_column\<close>).\<close>

theorem computeElementWiseStride_sound:
  assumes "reshapable sh st [1, prod_list sh]" "\<not> (length sh = 2 \<and> sh ! 1 = 1)"
  shows "\<exists>e. computeElementWiseStride (int (length sh)) sh st 0 = Some e \<and>
    (e = - 1 \<and> \<not> chained False (wide_dims sh st) (wide_strides sh st) \<or>
     0 \<le> e \<and> (\<forall>x. 0 \<le> x \<longrightarrow> x < prod_list sh \<longrightarrow> dot (c_coords sh x) st = e * x))"
proof -
  have "length st = length sh" using assms(1) by (simp add: reshapable_def dims_ok_def)
  then show ?thesis
    using computeElementWiseStride_c [OF assms, of sh st] by (simp add: lin_def coords_def)
qed

theorem computeElementWiseStride_sound_witness:
  "\<exists>e. computeElementWiseStride 3 [2, 3, 4] [24, 8, 2] 0 = Some e \<and>
    (e = - 1 \<and> \<not> chained False (wide_dims [2, 3, 4] [24, 8, 2]) (wide_strides [2, 3, 4] [24, 8, 2]) \<or>
     0 \<le> e \<and> (\<forall>x. 0 \<le> x \<longrightarrow> x < 24 \<longrightarrow> dot (c_coords [2, 3, 4] x) [24, 8, 2] = e * x))"
  using computeElementWiseStride_sound [of "[2, 3, 4]" "[24, 8, 2]"]
  by (simp add: reshapable_def dims_ok_def small_shape_def nonneg_def numeral_2_eq_2)

text \<open>\<open>shapeBuffer\<close> builds the buffer of a contiguous C-order array: the given shape, offset 0, order
  'c', strides that address row-major, and element-wise stride 1 as soon as there are
  two elements.\<close>

theorem shapeBuffer_row_major:
  assumes "small_shape sh" "2 * int (length sh) + 4 \<le> 2147483647"
  shows "\<exists>st e. shapeBuffer (int (length sh)) sh = Some (mk_info sh st 0 e 99) \<and> length st = length sh \<and>
           (2 \<le> prod_list sh \<longrightarrow> e = 1) \<and>
           (\<forall>idx. in_box sh idx \<longrightarrow> dot idx st = dot idx (c_strides sh))"
  using shapeBuffer_cases [OF assms, of sh] dot_code_c [of sh] by (metis order_refl take_all length_code_strides(1))

theorem shapeBuffer_row_major_witness:
  "\<exists>st e. shapeBuffer 3 [2, 3, 4] = Some (mk_info [2, 3, 4] st 0 e 99) \<and> length st = 3 \<and> e = 1 \<and>
     (\<forall>idx. in_box [2, 3, 4] idx \<longrightarrow> dot idx st = dot idx [12, 4, 1])"
  using shapeBuffer_row_major [of "[2, 3, 4]"] by (simp add: small_shape_def numeral_3_eq_3)

end
