(* ===== verification/RawIter.thy ===== *)
theory RawIter
  imports Reshape
begin

text \<open>
  The strided loops of \<open>include/pairwise_util.h\<close>: the functions that prepare shape and strides of one, two or three
  operands, and the iteration over all coordinates, which moves a pointer into each operand.
\<close>

section \<open>The code\<close>

text \<open>
  A pointer into a buffer is its offset. Moving a pointer is not checked; using one outside its buffer is an error of
  the body of the loop. Operands are lists: of strides, and of the positions in their buffers. The functions for two
  and three operands and the macros differ in the number of operands only.
\<close>

definition rd_all :: "int list list \<Rightarrow> int \<Rightarrow> int list option" where
  "rd_all xss i = those (map (\<lambda>xs. rd xs i) xss)"

definition wr_all :: "int list list \<Rightarrow> int \<Rightarrow> int list \<Rightarrow> int list list option" where
  "wr_all xss i vs = those (map2 (\<lambda>xs v. wr xs i v) xss vs)"

text \<open>\<open>data += f(stride)\<close> for each operand.\<close>

definition move_all :: "(int \<Rightarrow> int option) \<Rightarrow> int list \<Rightarrow> int list \<Rightarrow> int list option" where
  "move_all f datas strides = those (map2 (\<lambda>p s. do { t \<leftarrow> f s; Some (p + t) }) datas strides)"

definition copy_axes ::
    "int \<Rightarrow> int list \<Rightarrow> int list list \<Rightarrow> int list \<Rightarrow> int list list \<Rightarrow> (int list \<times> int list list) option" where
  "copy_axes ndim shp strides outShape outStrides =
     mfor (\<lambda>i (outShape, outStrides). do {
       v \<leftarrow> rd shp i;
       outShape \<leftarrow> wr outShape i v;
       vs \<leftarrow> rd_all strides i;
       outStrides \<leftarrow> wr_all outStrides i vs;
       Some (outShape, outStrides) }) [0..ndim - 1] (outShape, outStrides)"

text \<open>The answer: the rank, the shape, the positions and the strides of the prepared operands.\<close>

type_synonym raw_iter = "int \<times> int list \<times> int list \<times> int list list"

definition PrepareOneRawArrayIter ::
    "int \<Rightarrow> int list \<Rightarrow> int \<Rightarrow> int list \<Rightarrow> int list \<Rightarrow> int list \<Rightarrow> raw_iter option" where
  "PrepareOneRawArrayIter ndim shp data strides outShape outStrides = do {
     (outShape, outStrides) \<leftarrow> copy_axes ndim shp [strides] outShape [outStrides];
     Some (ndim, outShape, [data], outStrides) }"

text \<open>Reversing the axes along which the first operand has a negative stride; an empty axis ends the preparation.\<close>

definition reverse_axes ::
    "int \<Rightarrow> int list \<Rightarrow> int list \<Rightarrow> int list list \<Rightarrow> raw_iter option" where
  "reverse_axes ndim outShape datas outStrides = do {
     q \<leftarrow> mret (\<lambda>i (outShape, datas, outStrides). do {
         entries \<leftarrow> rd_all outStrides i;
         shape_entry \<leftarrow> rd outShape i;
         (datas, outStrides) \<leftarrow> (if hd entries < 0 then do {
             m \<leftarrow> i32 (shape_entry - 1);
             datas \<leftarrow> move_all (\<lambda>s. i32 (s * m)) datas entries;
             negated \<leftarrow> those (map (\<lambda>s. i32 (- s)) entries);
             outStrides \<leftarrow> wr_all outStrides i negated;
             Some (datas, outStrides) }
           else Some (datas, outStrides));
         if shape_entry = 0 then do {
           outShape \<leftarrow> wr outShape 0 0;
           outStrides \<leftarrow> wr_all outStrides 0 (map (\<lambda>_. 0) outStrides);
           Some (Inl (1, outShape, datas, outStrides)) }
         else Some (Inr (outShape, datas, outStrides)) }) [0..ndim - 1] (outShape, datas, outStrides);
     Some (case q of Inl r \<Rightarrow> r | Inr (outShape, datas, outStrides) \<Rightarrow> (ndim, outShape, datas, outStrides)) }"

definition PrepareTwoRawArrayIter ::
    "int \<Rightarrow> int list \<Rightarrow> int list \<Rightarrow> int list list \<Rightarrow> int list \<Rightarrow> int list list \<Rightarrow> raw_iter option" where
  "PrepareTwoRawArrayIter ndim shp datas strides outShape outStrides = do {
     (outShape, outStrides) \<leftarrow> copy_axes ndim shp strides outShape outStrides;
     reverse_axes ndim outShape datas outStrides }"

definition PrepareThreeRawArrayIter ::
    "int \<Rightarrow> int list \<Rightarrow> int list \<Rightarrow> int list list \<Rightarrow> int list \<Rightarrow> int list list \<Rightarrow> raw_iter option" where
  "PrepareThreeRawArrayIter ndim shp datas strides outShape outStrides =
     (if ndim = 0 then do {
        outShape \<leftarrow> wr outShape 0 1;
        outStrides \<leftarrow> wr_all outStrides 0 (map (\<lambda>_. 0) outStrides);
        Some (1, outShape, datas, outStrides) }
      else if ndim = 1 then do {
        entries \<leftarrow> rd_all strides 0;
        shape_entry \<leftarrow> rd shp 0;
        outShape \<leftarrow> wr outShape 0 shape_entry;
        if hd entries \<ge> 0 then do {
          outStrides \<leftarrow> wr_all outStrides 0 entries;
          Some (1, outShape, datas, outStrides) }
        else do {
          m \<leftarrow> i32 (shape_entry - 1);
          datas \<leftarrow> move_all (\<lambda>s. i32 (s * m)) datas entries;
          negated \<leftarrow> those (map (\<lambda>s. i32 (- s)) entries);
          outStrides \<leftarrow> wr_all outStrides 0 negated;
          Some (1, outShape, datas, outStrides) } }
      else do {
        (outShape, outStrides) \<leftarrow> copy_axes ndim shp strides outShape outStrides;
        reverse_axes ndim outShape datas outStrides })"

text \<open>
  The next coordinate: the first axis is the fastest one. \<open>raw_axis\<close> is the body of the loop over the axes, which
  \<open>break\<close>s with \<open>idim\<close>; the first component of the answer of \<open>raw_next\<close> is \<open>idim\<close> after the loop.
\<close>

definition raw_axis :: "int list \<Rightarrow> int list list \<Rightarrow> int \<Rightarrow> int list \<times> int list \<Rightarrow>
    ((int \<times> int list \<times> int list) + (int list \<times> int list)) option" where
  "raw_axis shp strides idim = (\<lambda>(coord, datas). do {
     c \<leftarrow> rd coord idim;
     c \<leftarrow> i32 (c + 1);
     coord \<leftarrow> wr coord idim c;
     d \<leftarrow> rd shp idim;
     entries \<leftarrow> rd_all strides idim;
     if c = d then do {
       coord \<leftarrow> wr coord idim 0;
       datas \<leftarrow> move_all (\<lambda>s. do { m \<leftarrow> i32 (d - 1); t \<leftarrow> i32 (m * s); Some (- t) }) datas entries;
       Some (Inr (coord, datas)) }
     else do {
       datas \<leftarrow> move_all Some datas entries;
       Some (Inl (idim, coord, datas)) } })"

definition raw_next :: "int \<Rightarrow> int list \<Rightarrow> int list list \<Rightarrow> int list \<times> int list \<Rightarrow> (int \<times> int list \<times> int list) option" where
  "raw_next ndim shp strides st = do {
     q \<leftarrow> mret (raw_axis shp strides) [0..ndim - 1] st;
     Some (case q of Inl r \<Rightarrow> r | Inr (coord, datas) \<Rightarrow> (ndim, coord, datas)) }"

partial_function (option) raw_loop ::
    "(int list \<Rightarrow> 's \<Rightarrow> 's option) \<Rightarrow> int \<Rightarrow> int list \<Rightarrow> int list list \<Rightarrow> int list \<times> int list \<Rightarrow> 's \<Rightarrow> 's option" where
  "raw_loop body ndim shp strides st s = do {
     s \<leftarrow> body (snd st) s;
     (idim, st) \<leftarrow> raw_next ndim shp strides st;
     if idim < ndim then raw_loop body ndim shp strides st s else Some s }"

declare raw_loop.simps [code]

text \<open>\<open>coord\<close> is an array of \<open>MAX_RANK\<close>, that is 32, cells.\<close>

definition raw_iterate :: "(int list \<Rightarrow> 's \<Rightarrow> 's option) \<Rightarrow> raw_iter \<Rightarrow> 's \<Rightarrow> 's option" where
  "raw_iterate body it s = (case it of (ndim, shp, datas, strides) \<Rightarrow>
     if 32 < ndim then None
     else raw_loop body ndim shp strides (replicate (nat ndim) 0 @ replicate (32 - nat ndim) undefined, datas) s)"

section \<open>The next coordinate\<close>

text \<open>Incrementing a coordinate, first axis first; the flag tells that it started again from the origin.\<close>

fun next_coord :: "int list \<Rightarrow> int list \<Rightarrow> bool \<times> int list" where
  "next_coord (d # ds) (c # cs) =
     (if c + 1 = d then (let (o', r) = next_coord ds cs in (o', 0 # r)) else (False, (c + 1) # cs))"
| "next_coord _ cs = (True, cs)"

lemma f_coords_Cons:
  assumes "0 < d" "pos_shape ds" "0 \<le> x" "x < d * prod_list ds"
  shows "f_coords (d # ds) x = x mod d # f_coords ds (x div d)"
  using f_coords_append [of "[d]" ds x] assms by (simp add: f_coords_def)

lemma length_next_coord [simp]: "length (snd (next_coord ds cs)) = length cs"
  by (induction ds cs rule: next_coord.induct) (auto split: prod.splits)

lemma next_f_coords:
  assumes "pos_shape ds" "0 \<le> x" "x < prod_list ds"
  shows "next_coord ds (f_coords ds x) =
    (if x + 1 = prod_list ds then (True, f_coords ds 0) else (False, f_coords ds (x + 1)))"
  using assms
proof (induction ds arbitrary: x)
  case Nil
  then show ?case by (simp add: f_coords_def)
next
  case (Cons d ds)
  have d: "0 < d" "pos_shape ds" "0 < prod_list ds" using Cons.prems by (simp_all add: prod_list_pos)
  define q where "q = x div d"
  define r where "r = x mod d"
  have xq: "x = d * q + r" by (simp add: q_def r_def)
  have qr: "0 \<le> q" "q < prod_list ds" "0 \<le> r" "r < d"
    using Cons.prems d by (simp_all add: q_def r_def pos_imp_zdiv_nonneg_iff div_lt_of_lt_mult mult.commute)
  have f: "f_coords (d # ds) y = y mod d # f_coords ds (y div d)" if "0 \<le> y" "y < d * prod_list ds" for y
    using f_coords_Cons [OF d(1,2) that] .
  have fx: "f_coords (d # ds) x = r # f_coords ds q" using f [of x] Cons.prems by (simp add: q_def r_def)
  have f0: "f_coords (d # ds) 0 = 0 # f_coords ds 0" using f [of 0] d by simp
  have qp: "d * (q + 1) \<le> d * prod_list ds" using qr(2) d(1) by (intro mult_left_mono) auto
  note IH = Cons.IH [OF d(2) qr(1,2)]
  show ?case
  proof (cases "r + 1 = d")
    case True
    then have x1: "x + 1 = d * (q + 1)" by (simp add: xq algebra_simps)
    have last: "q + 1 = prod_list ds \<longleftrightarrow> x + 1 = d * prod_list ds" using d(1) by (simp add: x1)
    have f1: "f_coords (d # ds) (x + 1) = 0 # f_coords ds (q + 1)" if "q + 1 \<noteq> prod_list ds"
    proof -
      have "x + 1 < d * prod_list ds" using that last qp x1 by linarith
      moreover have "0 \<le> d * (q + 1)" using qr(1) d(1) by simp
      ultimately show ?thesis using f [of "x + 1"] d(1) by (simp add: x1)
    qed
    show ?thesis
    proof (cases "q + 1 = prod_list ds")
      case True
      then show ?thesis using \<open>r + 1 = d\<close> last IH by (simp add: fx f0)
    next
      case False
      then show ?thesis using \<open>r + 1 = d\<close> last IH f1 by (simp add: fx)
    qed
  next
    case False
    then have r1: "r + 1 < d" using qr(4) by simp
    have "d * (q + 1) = d * q + d" by (simp add: algebra_simps)
    then have "x + 1 < d * prod_list ds" using r1 qp xq by linarith
    moreover have "(x + 1) mod d = r + 1" "(x + 1) div d = q"
      using r1 qr(3) by (simp_all add: xq add.assoc mod_pos_pos_trivial div_pos_pos_trivial)
    ultimately have "f_coords (d # ds) (x + 1) = (r + 1) # f_coords ds q" "x + 1 \<noteq> d * prod_list ds"
      using f [of "x + 1"] Cons.prems by simp_all
    then show ?thesis using False by (simp add: fx)
  qed
qed

section \<open>Reading and moving operands\<close>

lemma those_map_Some: "(\<And>x. x \<in> set xs \<Longrightarrow> f x = Some (g x)) \<Longrightarrow> those (map f xs) = Some (map g xs)"
  by (induction xs) auto

lemma map2_eq_map_zip: "map2 f xs ys = map (\<lambda>q. f (fst q) (snd q)) (zip xs ys)"
  by (simp add: case_prod_beta')

lemma those_map2_Some:
  "(\<And>x y. (x, y) \<in> set (zip xs ys) \<Longrightarrow> f x y = Some (g x y)) \<Longrightarrow> those (map2 f xs ys) = Some (map2 g xs ys)"
  by (simp add: map2_eq_map_zip those_map_Some)

lemma rd_all_nat:
  "(\<And>xs. xs \<in> set xss \<Longrightarrow> k < length xs) \<Longrightarrow> rd_all xss (int k) = Some (map (\<lambda>xs. xs ! k) xss)"
  unfolding rd_all_def by (rule those_map_Some) simp

lemma move_all_Some:
  "(\<And>s. s \<in> set strides \<Longrightarrow> f s = Some (g s)) \<Longrightarrow> move_all f datas strides = Some (map2 (\<lambda>p s. p + g s) datas strides)"
  unfolding move_all_def by (rule those_map2_Some) (auto dest: set_zip_rightD)

section \<open>One round of the loop\<close>

text \<open>The strides of one operand that an iteration over shape \<open>sh\<close> can follow without overflow.\<close>

definition fits :: "int list \<Rightarrow> int list \<Rightarrow> bool" where
  "fits sh st \<longleftrightarrow> length sh \<le> length st \<and> (\<forall>k<length sh. \<bar>st ! k\<bar> \<le> 2147483647 \<and> \<bar>(sh ! k - 1) * st ! k\<bar> \<le> 2147483647)"

text \<open>The positions of the operands at a coordinate.\<close>

definition at_coords :: "int list \<Rightarrow> int list list \<Rightarrow> int list \<Rightarrow> int list" where
  "at_coords datas sts c = map2 (\<lambda>p st. p + dot c st) datas sts"

lemma map2_add_add:
  fixes f g :: "'a \<Rightarrow> int"
  shows "map2 (\<lambda>p st. p + f st) (map2 (\<lambda>p st. p + g st) datas sts) sts = map2 (\<lambda>p st. p + (g st + f st)) datas sts"
  by (induction datas sts rule: list_induct2') (auto simp: add.assoc)

lemma map2_id_left: "length xs = length ys \<Longrightarrow> map2 (\<lambda>x y. x) xs ys = xs"
  by (induction xs ys rule: list_induct2) auto

lemma map2_add_zero: "length xs = length ys \<Longrightarrow> (\<And>y. y \<in> set ys \<Longrightarrow> f y = 0) \<Longrightarrow> map2 (\<lambda>x y. x + f y) xs ys = xs"
  for xs :: "int list"
  by (induction xs ys rule: list_induct2) auto

lemma map2_map_right: "map2 f xs (map h ys) = map2 (\<lambda>x y. f x (h y)) xs ys"
  by (induction xs ys rule: list_induct2') auto

lemma drop_Cons_nth: "k < length xs \<Longrightarrow> drop k xs = xs ! k # drop (Suc k) xs"
  by (simp add: Cons_nth_drop_Suc)

lemma nth_of_take: "take n xs = ys \<Longrightarrow> k < n \<Longrightarrow> xs ! k = ys ! k"
  by (metis nth_take)

lemma dim_small: "small_shape sh \<Longrightarrow> k < length sh \<Longrightarrow> 0 < sh ! k \<and> sh ! k \<le> 2147483647"
  using dim_le_prod [of sh "sh ! k"] by (auto simp: small_shape_def pos_shape_nth)

text \<open>One axis: it starts again and hands over to the next axis, or it advances and leaves the loop.\<close>

lemma raw_axis_step:
  assumes "k < length sh" "length sh \<le> length shp" "take (length sh) shp = sh" "small_shape sh"
    and "\<And>st. st \<in> set sts \<Longrightarrow> fits sh st"
    and "length pre = k" "0 \<le> c" "c < sh ! k"
  shows "raw_axis shp sts (int k) (pre @ c # cs, datas) =
    Some (if c + 1 = sh ! k then Inr (pre @ 0 # cs, map2 (\<lambda>p st. p + (0 - c * st ! k)) datas sts)
      else Inl (int k, pre @ (c + 1) # cs, map2 (\<lambda>p st. p + ((c + 1) * st ! k - c * st ! k)) datas sts))"
proof -
  have d: "0 < sh ! k" "sh ! k \<le> 2147483647" using dim_small [OF assms(4,1)] by auto
  have k: "k < length shp" "shp ! k = sh ! k"
    using assms(1,2) nth_of_take [OF assms(3,1)] by simp_all
  have fit: "k < length st" "\<bar>(sh ! k - 1) * st ! k\<bar> \<le> 2147483647" if "st \<in> set sts" for st
    using assms(1) assms(5) [OF that] by (auto simp: fits_def)
  have all: "rd_all sts (int k) = Some (map (\<lambda>st. st ! k) sts)" by (rule rd_all_nat) (rule fit(1))
  have bwd: "move_all (\<lambda>s. do { m \<leftarrow> i32 (sh ! k - 1); t \<leftarrow> i32 (m * s); Some (- t) }) datas (map (\<lambda>st. st ! k) sts) =
      Some (map2 (\<lambda>p s. p + - ((sh ! k - 1) * s)) datas (map (\<lambda>st. st ! k) sts))"
  proof (rule move_all_Some)
    fix t assume "t \<in> set (map (\<lambda>st. st ! k) sts)"
    then obtain st where "st \<in> set sts" "t = st ! k" by auto
    then have "\<bar>(sh ! k - 1) * t\<bar> \<le> 2147483647" using fit(2) by simp
    moreover have "i32 (sh ! k - 1) = Some (sh ! k - 1)" using d by (simp add: i32_def)
    ultimately show "do { m \<leftarrow> i32 (sh ! k - 1); u \<leftarrow> i32 (m * t); Some (- u) } = Some (- ((sh ! k - 1) * t))"
      by (simp add: i32_def abs_le_iff)
  qed
  have fwd: "move_all Some datas (map (\<lambda>st. st ! k) sts) = Some (map2 (\<lambda>p s. p + s) datas (map (\<lambda>st. st ! k) sts))"
    by (rule move_all_Some) simp
  have c: "i32 (c + 1) = Some (c + 1)" using d assms(7,8) by (simp add: i32_def)
  have rdc: "rd (pre @ c # cs) (int k) = Some c" using assms(6) by (simp add: nth_append)
  have wrc: "wr (pre @ v # cs) (int k) w = Some (pre @ w # cs)" for v w
    using assms(6) by (auto simp: wr_nat list_update_append)
  have m1: "map2 (\<lambda>p s. p + - ((sh ! k - 1) * s)) datas (map (\<lambda>st. st ! k) sts) =
      map2 (\<lambda>p st. p + (0 - c * st ! k)) datas sts" if "c + 1 = sh ! k"
  proof -
    have "sh ! k - 1 = c" using that by simp
    then show ?thesis by (simp add: map2_map_right)
  qed
  have m2: "map2 (\<lambda>p s. p + s) datas (map (\<lambda>st. st ! k) sts) =
      map2 (\<lambda>p st. p + ((c + 1) * st ! k - c * st ! k)) datas sts"
    by (simp add: map2_map_right algebra_simps)
  have rds: "rd shp (int k) = Some (sh ! k)" using k by simp
  show ?thesis
  proof (cases "c + 1 = sh ! k")
    case True
    moreover have "i32 (sh ! k) = Some (sh ! k)" using d by (simp add: i32_def)
    ultimately show ?thesis unfolding m1 [OF True, symmetric]
      by (simp add: raw_axis_def rdc wrc c rds all bwd del: rd_nat)
  next
    case False
    then show ?thesis unfolding m2 [symmetric] by (simp add: raw_axis_def rdc wrc c rds all fwd del: rd_nat)
  qed
qed

lemma raw_axes:
  assumes "n = length sh" "k \<le> n" "n \<le> length shp" "take n shp = sh" "small_shape sh"
    and "\<And>st. st \<in> set sts \<Longrightarrow> fits sh st"
    and "length pre = k" "in_box (drop k sh) cs" "length datas = length sts"
  shows "\<exists>idim. int k \<le> idim \<and> (fst (next_coord (drop k sh) cs) \<or> idim < int n) \<and>
    mret (raw_axis shp sts) [int k..int n - 1] (pre @ cs @ rest, datas) =
      (case next_coord (drop k sh) cs of (o', cs') \<Rightarrow>
        let st' = (pre @ cs' @ rest, map2 (\<lambda>p st. p + (dot cs' (drop k st) - dot cs (drop k st))) datas sts)
        in Some (if o' then Inr st' else Inl (idim, st')))"
  using assms(2,7,8,9)
proof (induction "n - k" arbitrary: k pre cs datas)
  case 0
  then have k: "k = n" "cs = []" using assms(1) by simp_all
  have "map2 (\<lambda>p st. p) datas sts = datas" using 0 by (intro map2_id_left) simp
  then show ?case using k assms(1) by (auto simp: Let_def intro!: exI [of _ "int n"])
next
  case (Suc m)
  then have kn: "k < length sh" "k < n" using assms(1) by simp_all
  have sh: "drop k sh = sh ! k # drop (Suc k) sh" using kn(1) by (rule drop_Cons_nth)
  then obtain c cs1 where cs: "cs = c # cs1" "0 \<le> c" "c < sh ! k" "in_box (drop (Suc k) sh) cs1"
    using Suc.prems(3) by (cases cs) auto
  have st: "drop k st = st ! k # drop (Suc k) st" if "st \<in> set sts" for st
    using assms(6) [OF that] kn assms(1) by (intro drop_Cons_nth) (simp add: fits_def)
  have upto: "[int k..int n - 1] = int k # [int (Suc k)..int n - 1]"
    using kn(2) by (simp add: upto_rec1 add.commute)
  have step: "raw_axis shp sts (int k) (pre @ c # cs1 @ rest, datas) =
    Some (if c + 1 = sh ! k then Inr (pre @ 0 # cs1 @ rest, map2 (\<lambda>p st. p + (0 - c * st ! k)) datas sts)
      else Inl (int k, pre @ (c + 1) # cs1 @ rest, map2 (\<lambda>p st. p + ((c + 1) * st ! k - c * st ! k)) datas sts))"
    using assms kn Suc.prems(2) cs by (intro raw_axis_step) auto
  have zip_cong: "map2 (\<lambda>p st. p + f st) datas sts = map2 (\<lambda>p st. p + g st) datas sts"
    if "\<And>st. st \<in> set sts \<Longrightarrow> f st = g st" for f g :: "int list \<Rightarrow> int"
    using that by (auto dest: set_zip_rightD)
  obtain o1 cs2 where nc: "next_coord (drop (Suc k) sh) cs1 = (o1, cs2)" by (cases "next_coord (drop (Suc k) sh) cs1")
  show ?case
  proof (cases "c + 1 = sh ! k")
    case True
    define datas1 where "datas1 = map2 (\<lambda>p st. p + (0 - c * st ! k)) datas sts"
    have len: "length datas1 = length sts" using Suc.prems by (simp add: datas1_def)
    have "\<exists>idim. int (Suc k) \<le> idim \<and> (o1 \<or> idim < int n) \<and>
      mret (raw_axis shp sts) [int (Suc k)..int n - 1] ((pre @ [0]) @ cs1 @ rest, datas1) =
        (let st' = ((pre @ [0]) @ cs2 @ rest,
              map2 (\<lambda>p st. p + (dot cs2 (drop (Suc k) st) - dot cs1 (drop (Suc k) st))) datas1 sts)
         in Some (if o1 then Inr st' else Inl (idim, st')))"
      using Suc.hyps(1) [of "Suc k" "pre @ [0]" cs1 datas1] Suc.hyps(2) Suc.prems kn cs(4) len
      by (simp add: nc)
    then obtain idim where idim: "int (Suc k) \<le> idim" "o1 \<or> idim < int n"
      "mret (raw_axis shp sts) [int (Suc k)..int n - 1] ((pre @ [0]) @ cs1 @ rest, datas1) =
        (let st' = ((pre @ [0]) @ cs2 @ rest,
              map2 (\<lambda>p st. p + (dot cs2 (drop (Suc k) st) - dot cs1 (drop (Suc k) st))) datas1 sts)
         in Some (if o1 then Inr st' else Inl (idim, st')))"
      by blast
    have "map2 (\<lambda>p st. p + (dot cs2 (drop (Suc k) st) - dot cs1 (drop (Suc k) st))) datas1 sts =
        map2 (\<lambda>p st. p + (dot (0 # cs2) (drop k st) - dot (c # cs1) (drop k st))) datas sts"
      unfolding datas1_def map2_add_add by (rule zip_cong) (simp add: st)
    moreover have "raw_axis shp sts (int k) (pre @ c # cs1 @ rest, datas) = Some (Inr (pre @ 0 # cs1 @ rest, datas1))"
      using step True by (simp add: datas1_def)
    ultimately show ?thesis using idim True nc
      by (intro exI [of _ idim]) (simp add: sh cs(1) upto Let_def del: of_nat_Suc)
  next
    case False
    have "map2 (\<lambda>p st. p + ((c + 1) * st ! k - c * st ! k)) datas sts =
        map2 (\<lambda>p st. p + (dot ((c + 1) # cs1) (drop k st) - dot (c # cs1) (drop k st))) datas sts"
      by (rule zip_cong) (simp add: st)
    then show ?thesis using step False kn(2)
      by (intro exI [of _ "int k"]) (simp add: sh cs(1) upto Let_def)
  qed
qed

section \<open>The whole iteration\<close>

lemma map2_add_cong:
  "(\<And>st. st \<in> set ys \<Longrightarrow> f st = g st) \<Longrightarrow> map2 (\<lambda>p st. p + f st) xs ys = map2 (\<lambda>p st. p + g st) xs ys"
  for f g :: "'a \<Rightarrow> int" and xs :: "int list"
  by (auto dest: set_zip_rightD)

lemma f_coords_0_dot: "pos_shape sh \<Longrightarrow> dot (f_coords sh 0) st = 0"
proof -
  have "dot (replicate n 0) st = 0" for n
    by (induction n arbitrary: st) (auto simp: dot_def split: list.splits, case_tac st, auto)
  moreover have "c_coords ds 0 = replicate (length ds) 0" for ds by (induction ds) auto
  ultimately show ?thesis by (simp add: f_coords_def)
qed

lemma raw_next_eq:
  assumes "n = length sh" "n \<le> length shp" "take n shp = sh" "small_shape sh"
    and "\<And>st. st \<in> set sts \<Longrightarrow> fits sh st" "length datas = length sts"
    and "0 \<le> x" "x < prod_list sh"
  shows "\<exists>idim c d. raw_next (int n) shp sts (f_coords sh x @ rest, at_coords datas sts (f_coords sh x)) =
      Some (idim, c, d) \<and>
    (idim < int n \<longleftrightarrow> x + 1 < prod_list sh) \<and>
    (x + 1 < prod_list sh \<longrightarrow> c = f_coords sh (x + 1) @ rest \<and> d = at_coords datas sts (f_coords sh (x + 1)))"
proof -
  have pos: "pos_shape sh" using assms(4) by (simp add: small_shape_def)
  define y where "y = (if x + 1 = prod_list sh then 0 else x + 1)"
  have nc: "next_coord sh (f_coords sh x) = (x + 1 = prod_list sh, f_coords sh y)"
    using next_f_coords [OF pos assms(7,8)] by (simp add: y_def)
  have box: "in_box (drop 0 sh) (f_coords sh x)" using f_coords_in_box [OF pos assms(7,8)] by simp
  have len: "length (at_coords datas sts (f_coords sh x)) = length sts" using assms(6) by (simp add: at_coords_def)
  obtain idim where idim: "x + 1 = prod_list sh \<or> idim < int n"
    "mret (raw_axis shp sts) [0..int n - 1] (f_coords sh x @ rest, at_coords datas sts (f_coords sh x)) =
      (let st' = (f_coords sh y @ rest, map2 (\<lambda>p st. p + (dot (f_coords sh y) st - dot (f_coords sh x) st))
          (at_coords datas sts (f_coords sh x)) sts)
       in Some (if x + 1 = prod_list sh then Inr st' else Inl (idim, st')))"
    using raw_axes [OF assms(1) _ assms(2-5) _ box len, where pre = "[]" and rest = rest]
    by (auto simp: nc)
  have pos': "map2 (\<lambda>p st. p + (dot (f_coords sh y) st - dot (f_coords sh x) st))
      (at_coords datas sts (f_coords sh x)) sts = at_coords datas sts (f_coords sh y)"
    unfolding at_coords_def map2_add_add by simp
  show ?thesis
    using idim(1) idim(2) [unfolded pos'] assms(8) by (auto simp: raw_next_def Let_def y_def)
qed

text \<open>The positions of a list of coordinates are visited in order; the loop returns whenever its body does.\<close>

lemma raw_loop_eq:
  assumes "n = length sh" "n \<le> length shp" "take n shp = sh" "small_shape sh"
    and "\<And>st. st \<in> set sts \<Longrightarrow> fits sh st" "length datas = length sts"
    and "0 \<le> x" "x < prod_list sh"
  shows "raw_loop body (int n) shp sts (f_coords sh x @ rest, at_coords datas sts (f_coords sh x)) s =
    mfor (\<lambda>y. body (at_coords datas sts (f_coords sh y))) [x..prod_list sh - 1] s"
  using assms(7,8)
proof (induction "nat (prod_list sh - x)" arbitrary: x s)
  case (Suc m)
  obtain idim c d where nxt:
    "raw_next (int n) shp sts (f_coords sh x @ rest, at_coords datas sts (f_coords sh x)) = Some (idim, c, d)"
    "idim < int n \<longleftrightarrow> x + 1 < prod_list sh"
    "x + 1 < prod_list sh \<longrightarrow> c = f_coords sh (x + 1) @ rest \<and> d = at_coords datas sts (f_coords sh (x + 1))"
    using raw_next_eq [OF assms(1-6) Suc.prems, where rest = rest] by metis
  have upto: "[x..prod_list sh - 1] = x # [x + 1..prod_list sh - 1]"
    using Suc.prems by (simp add: upto_rec1)
  show ?case
  proof (cases "x + 1 < prod_list sh")
    case True
    have "raw_loop body (int n) shp sts (f_coords sh (x + 1) @ rest, at_coords datas sts (f_coords sh (x + 1))) s =
        mfor (\<lambda>y. body (at_coords datas sts (f_coords sh y))) [x + 1..prod_list sh - 1] s" for s
      using Suc.hyps(2) Suc.prems True by (intro Suc.hyps(1)) auto
    then show ?thesis using nxt True
      by (subst raw_loop.simps) (simp add: upto)
  next
    case False
    then show ?thesis using nxt
      by (subst raw_loop.simps) (simp add: upto)
  qed
qed simp

lemma raw_iterate_eq:
  assumes "n = length sh" "n \<le> 32" "n \<le> length shp" "take n shp = sh" "small_shape sh"
    and "\<And>st. st \<in> set sts \<Longrightarrow> fits sh st" "length datas = length sts"
  shows "raw_iterate body (int n, shp, datas, sts) s =
    mfor (\<lambda>x. body (at_coords datas sts (f_coords sh x))) [0..prod_list sh - 1] s"
proof -
  have pos: "pos_shape sh" using assms(5) by (simp add: small_shape_def)
  then have p: "0 < prod_list sh" by (rule prod_list_pos)
  have start: "f_coords sh 0 = replicate n 0"
  proof -
    have "c_coords ds 0 = replicate (length ds) 0" for ds by (induction ds) auto
    then show ?thesis by (simp add: f_coords_def assms(1))
  qed
  have "at_coords datas sts (f_coords sh 0) = datas"
    unfolding at_coords_def using assms(7) f_coords_0_dot [OF pos] by (intro map2_add_zero) auto
  then show ?thesis
    using raw_loop_eq [OF assms(1,3-7) order_refl p, where rest = "replicate (32 - n) undefined"] assms(2)
    by (simp add: raw_iterate_def start)
qed

section \<open>Preparing the operands\<close>

text \<open>
  Axes along which the first operand runs backwards are run forwards: coordinate \<open>c\<close> of such an axis becomes
  \<open>d - 1 - c\<close>.
\<close>

fun flip :: "int list \<Rightarrow> int list \<Rightarrow> int list \<Rightarrow> int list" where
  "flip (d # ds) (s # ss) (c # cs) = (if s < 0 then d - 1 - c else c) # flip ds ss cs"
| "flip _ _ cs = cs"

text \<open>The coordinates of shape \<open>sh\<close> in the order in which the loop visits them.\<close>

definition visit_order :: "int list \<Rightarrow> int list \<Rightarrow> int list list" where
  "visit_order sh st = map (\<lambda>x. flip sh st (f_coords sh x)) [0..prod_list sh - 1]"

lemma in_box_flip: "in_box sh c \<Longrightarrow> in_box sh (flip sh st c)"
  by (induction sh st c rule: flip.induct) auto

lemma flip_flip: "in_box sh c \<Longrightarrow> flip sh st (flip sh st c) = c"
  by (induction sh st c rule: flip.induct) auto

lemma flip_nonneg: "(\<And>s. s \<in> set st \<Longrightarrow> 0 \<le> s) \<Longrightarrow> flip sh st c = c"
proof (induction sh st c rule: flip.induct)
  case (1 d ds s ss c cs)
  then have "\<not> s < 0" by force
  then show ?case using 1 by simp
qed auto

lemma visit_order_set: "pos_shape sh \<Longrightarrow> set (visit_order sh st) = {c. in_box sh c}"
proof (intro equalityI subsetI)
  fix c assume "pos_shape sh" "c \<in> set (visit_order sh st)"
  then show "c \<in> {c. in_box sh c}" by (auto simp: visit_order_def intro!: in_box_flip f_coords_in_box)
next
  fix c assume "pos_shape sh" "c \<in> {c. in_box sh c}"
  then have box: "in_box sh c" "in_box sh (flip sh st c)" by (auto intro: in_box_flip)
  define x where "x = dot (flip sh st c) (f_strides sh)"
  have x: "0 \<le> x" "x < prod_list sh" "f_coords sh x = flip sh st c"
    using f_linear_range [OF box(2)] f_coords_of_dot [OF box(2)] by (auto simp: x_def)
  then have "c = flip sh st (f_coords sh x)" using flip_flip [OF box(1)] by simp
  then show "c \<in> set (visit_order sh st)"
    unfolding visit_order_def set_map by (rule image_eqI [of _ _ x]) (use x in simp_all)
qed

lemma distinct_visit_order: "pos_shape sh \<Longrightarrow> distinct (visit_order sh st)"
  unfolding visit_order_def distinct_map
proof (intro conjI inj_onI)
  fix x y assume p: "pos_shape sh" and xy: "x \<in> set [0..prod_list sh - 1]" "y \<in> set [0..prod_list sh - 1]"
    and eq: "flip sh st (f_coords sh x) = flip sh st (f_coords sh y)"
  have "in_box sh (f_coords sh x)" "in_box sh (f_coords sh y)" using p xy by (auto intro: f_coords_in_box)
  then have "f_coords sh x = f_coords sh y" using eq flip_flip by metis
  then have "dot (f_coords sh x) (f_strides sh) = dot (f_coords sh y) (f_strides sh)" by simp
  then show "x = y" using p xy by (simp add: f_coords_dot)
qed simp

text \<open>Operands given by functions over a list of indexes.\<close>

lemma rd_all_map:
  "(\<And>q. q \<in> set qs \<Longrightarrow> k < length (f q)) \<Longrightarrow> rd_all (map f qs) (int k) = Some (map (\<lambda>q. f q ! k) qs)"
  unfolding rd_all_def map_map comp_def by (rule those_map_Some) simp

lemma map2_map_map: "map2 f (map g xs) (map h xs) = map (\<lambda>x. f (g x) (h x)) xs"
  by (induction xs) auto

lemma wr_all_map:
  "(\<And>q. q \<in> set qs \<Longrightarrow> k < length (f q)) \<Longrightarrow>
   wr_all (map f qs) (int k) (map h qs) = Some (map (\<lambda>q. (f q)[k := h q]) qs)"
  unfolding wr_all_def map2_map_map by (rule those_map_Some) (simp add: wr_nat)

lemma move_all_map:
  "(\<And>q. q \<in> set qs \<Longrightarrow> f (h q) = Some (g q)) \<Longrightarrow>
   move_all f (map p qs) (map h qs) = Some (map (\<lambda>q. p q + g q) qs)"
  unfolding move_all_def map2_map_map by (rule those_map_Some) simp

lemma copy_axes_eq:
  assumes "n \<le> length shp" "n \<le> length outShape"
    and "\<And>q. q \<in> set qs \<Longrightarrow> n \<le> length (st q) \<and> n \<le> length (os q)"
  shows "copy_axes (int n) shp (map st qs) outShape (map os qs) =
    Some (take n shp @ drop n outShape, map (\<lambda>q. take n (st q) @ drop n (os q)) qs)"
proof -
  define g where "g k = (take k shp @ drop k outShape, map (\<lambda>q. take k (st q) @ drop k (os q)) qs)" for k
  have "mfor (\<lambda>i (outShape, outStrides). do {
       v \<leftarrow> rd shp i;
       outShape \<leftarrow> wr outShape i v;
       vs \<leftarrow> rd_all (map st qs) i;
       outStrides \<leftarrow> wr_all outStrides i vs;
       Some (outShape, outStrides) }) [0..int n - 1] (g 0) = Some (g n)"
  proof (rule mfor_trace)
    fix k assume k: "k < n"
    have q: "k < length (st q) \<and> k < length (os q)" if "q \<in> set qs" for q
      using assms(3) [OF that] k by simp
    have "rd_all (map st qs) (int k) = Some (map (\<lambda>q. st q ! k) qs)" using q by (intro rd_all_map) simp
    moreover have "wr_all (map (\<lambda>q. take k (st q) @ drop k (os q)) qs) (int k) (map (\<lambda>q. st q ! k) qs) =
        Some (map (\<lambda>q. take (Suc k) (st q) @ drop (Suc k) (os q)) qs)"
      using q by (subst wr_all_map)
        (auto simp: list_update_append take_Suc_conv_app_nth drop_Cons_nth)
    moreover have "wr (take k shp @ drop k outShape) (int k) (shp ! k) = Some (take (Suc k) shp @ drop (Suc k) outShape)"
      using k assms(1,2) by (simp add: wr_nat list_update_append take_Suc_conv_app_nth drop_Cons_nth)
    ultimately show "(case g k of (outShape, outStrides) \<Rightarrow> do {
       v \<leftarrow> rd shp (int k);
       outShape \<leftarrow> wr outShape (int k) v;
       vs \<leftarrow> rd_all (map st qs) (int k);
       outStrides \<leftarrow> wr_all outStrides (int k) vs;
       Some (outShape, outStrides) }) = Some (g (Suc k))"
      using k assms(1) by (simp add: g_def)
  qed
  then show ?thesis by (simp add: copy_axes_def g_def)
qed

text \<open>After the axes below \<open>k\<close>: strides are negated and positions moved to the other end.\<close>

definition reversed :: "int list \<Rightarrow> nat \<Rightarrow> int list \<Rightarrow> int list" where
  "reversed st0 k st = map (\<lambda>i. if i < k \<and> st0 ! i < 0 then - st ! i else st ! i) [0..<length st]"

definition far_end :: "int list \<Rightarrow> int list \<Rightarrow> nat \<Rightarrow> int list \<Rightarrow> int" where
  "far_end sh st0 k st = (\<Sum>i<k. if st0 ! i < 0 then st ! i * (sh ! i - 1) else 0)"

lemma length_reversed [simp]: "length (reversed st0 k st) = length st"
  by (simp add: reversed_def)

lemma nth_reversed: "i < length st \<Longrightarrow> reversed st0 k st ! i = (if i < k \<and> st0 ! i < 0 then - st ! i else st ! i)"
  by (simp add: reversed_def)

lemma reversed_0 [simp]: "reversed st0 0 st = st"
  by (simp add: reversed_def map_nth)

lemma reversed_Suc: "k < length st \<Longrightarrow>
  reversed st0 (Suc k) st = (if st0 ! k < 0 then (reversed st0 k st)[k := - st ! k] else reversed st0 k st)"
  by (auto intro!: nth_equalityI simp: nth_reversed nth_list_update less_Suc_eq)

lemma far_end_Suc:
  "far_end sh st0 (Suc k) st = far_end sh st0 k st + (if st0 ! k < 0 then st ! k * (sh ! k - 1) else 0)"
  by (simp add: far_end_def)

lemma reverse_axes_eq:
  assumes "n = length sh" "n \<le> length shp" "take n shp = sh" "small_shape sh" "qs \<noteq> []"
    and "\<And>q. q \<in> set qs \<Longrightarrow> fits sh (st q)"
  shows "reverse_axes (int n) shp (map p qs) (map st qs) =
    Some (int n, shp, map (\<lambda>q. p q + far_end sh (st (hd qs)) n (st q)) qs,
      map (\<lambda>q. reversed (st (hd qs)) n (st q)) qs)"
proof -
  let ?s0 = "st (hd qs)"
  define g where "g k = (shp, map (\<lambda>q. p q + far_end sh ?s0 k (st q)) qs, map (\<lambda>q. reversed ?s0 k (st q)) qs)" for k
  have "mret (\<lambda>i (outShape, datas, outStrides). do {
         entries \<leftarrow> rd_all outStrides i;
         shape_entry \<leftarrow> rd outShape i;
         (datas, outStrides) \<leftarrow> (if hd entries < 0 then do {
             m \<leftarrow> i32 (shape_entry - 1);
             datas \<leftarrow> move_all (\<lambda>s. i32 (s * m)) datas entries;
             negated \<leftarrow> those (map (\<lambda>s. i32 (- s)) entries);
             outStrides \<leftarrow> wr_all outStrides i negated;
             Some (datas, outStrides) }
           else Some (datas, outStrides));
         if shape_entry = 0 then do {
           outShape \<leftarrow> wr outShape 0 0;
           outStrides \<leftarrow> wr_all outStrides 0 (map (\<lambda>_. 0) outStrides);
           Some (Inl (1 :: int, outShape, datas, outStrides)) }
         else Some (Inr (outShape, datas, outStrides)) }) [0..int n - 1] (g 0) = Some (Inr (g n))"
  proof (rule mret_trace)
    fix k assume k: "k < n"
    have d: "0 < sh ! k" "sh ! k \<le> 2147483647" using dim_small [OF assms(4)] k assms(1) by auto
    have q: "k < length (st q)" "\<bar>st q ! k\<bar> \<le> 2147483647" "\<bar>(sh ! k - 1) * st q ! k\<bar> \<le> 2147483647"
      if "q \<in> set qs" for q
      using assms(1) assms(6) [OF that] k by (auto simp: fits_def)
    have shp: "rd shp (int k) = Some (sh ! k)" using k assms(2) nth_of_take [OF assms(3) k] by simp
    have all: "rd_all (map (\<lambda>q. reversed ?s0 k (st q)) qs) (int k) = Some (map (\<lambda>q. st q ! k) qs)"
      using q(1) by (subst rd_all_map) (auto simp: nth_reversed)
    have mv: "move_all (\<lambda>s. i32 (s * (sh ! k - 1))) (map (\<lambda>q. p q + far_end sh ?s0 k (st q)) qs)
        (map (\<lambda>q. st q ! k) qs) =
        Some (map (\<lambda>q. p q + far_end sh ?s0 k (st q) + st q ! k * (sh ! k - 1)) qs)"
    proof (rule move_all_map)
      fix r assume "r \<in> set qs"
      then show "i32 (st r ! k * (sh ! k - 1)) = Some (st r ! k * (sh ! k - 1))"
        using q(3) [of r] by (simp add: i32_def abs_le_iff mult.commute)
    qed
    have ng: "those (map (\<lambda>s. i32 (- s)) (map (\<lambda>q. st q ! k) qs)) = Some (map (\<lambda>q. - st q ! k) qs)"
      unfolding map_map comp_def
    proof (rule those_map_Some)
      fix r assume "r \<in> set qs"
      then show "i32 (- st r ! k) = Some (- st r ! k)" using q(2) [of r] by (simp add: i32_def abs_le_iff)
    qed
    have wr: "wr_all (map (\<lambda>q. reversed ?s0 k (st q)) qs) (int k) (map (\<lambda>q. - st q ! k) qs) =
        Some (map (\<lambda>q. (reversed ?s0 k (st q))[k := - st q ! k]) qs)"
      using q(1) by (intro wr_all_map) simp
    have hd0: "hd (map (\<lambda>q. st q ! k) qs) = ?s0 ! k" using assms(5) by (simp add: hd_map)
    have nxt: "g (Suc k) = (shp, if ?s0 ! k < 0
        then (map (\<lambda>q. p q + far_end sh ?s0 k (st q) + st q ! k * (sh ! k - 1)) qs,
              map (\<lambda>q. (reversed ?s0 k (st q))[k := - st q ! k]) qs)
        else (map (\<lambda>q. p q + far_end sh ?s0 k (st q)) qs, map (\<lambda>q. reversed ?s0 k (st q)) qs))"
      using q(1) by (simp add: g_def far_end_Suc reversed_Suc)
    have m: "i32 (sh ! k - 1) = Some (sh ! k - 1)" using d by (simp add: i32_def)
    show "(case g k of (outShape, datas, outStrides) \<Rightarrow> do {
         entries \<leftarrow> rd_all outStrides (int k);
         shape_entry \<leftarrow> rd outShape (int k);
         (datas, outStrides) \<leftarrow> (if hd entries < 0 then do {
             m \<leftarrow> i32 (shape_entry - 1);
             datas \<leftarrow> move_all (\<lambda>s. i32 (s * m)) datas entries;
             negated \<leftarrow> those (map (\<lambda>s. i32 (- s)) entries);
             outStrides \<leftarrow> wr_all outStrides (int k) negated;
             Some (datas, outStrides) }
           else Some (datas, outStrides));
         if shape_entry = 0 then do {
           outShape \<leftarrow> wr outShape 0 0;
           outStrides \<leftarrow> wr_all outStrides 0 (map (\<lambda>_. 0) outStrides);
           Some (Inl (1 :: int, outShape, datas, outStrides)) }
         else Some (Inr (outShape, datas, outStrides)) }) = Some (Inr (g (Suc k)))"
    proof (cases "?s0 ! k < 0")
      case True
      then show ?thesis unfolding nxt unfolding g_def using d
        by (simp add: all shp hd0 m mv ng wr del: rd_nat list.map map_map)
    next
      case False
      then show ?thesis unfolding nxt unfolding g_def using d
        by (simp add: all shp hd0 del: rd_nat list.map map_map)
    qed
  qed
  then show ?thesis by (simp add: reverse_axes_def g_def far_end_def)
qed

lemma dot_sum: "length c \<le> length st \<Longrightarrow> dot c st = (\<Sum>i<length c. c ! i * st ! i)"
proof (induction c arbitrary: st)
  case (Cons x xs)
  then show ?case by (cases st) (simp_all add: sum.lessThan_Suc_shift del: sum.lessThan_Suc)
qed simp

lemma length_flip [simp]: "length (flip sh st c) = length c"
  by (induction sh st c rule: flip.induct) auto

lemma nth_flip:
  "length sh = length c \<Longrightarrow> length c \<le> length st \<Longrightarrow> i < length c \<Longrightarrow>
   flip sh st c ! i = (if st ! i < 0 then sh ! i - 1 - c ! i else c ! i)"
proof (induction sh st c arbitrary: i rule: flip.induct)
  case (1 d ds s ss c cs)
  then show ?case by (cases i) auto
qed auto

lemma dot_reversed:
  assumes "length c = length sh" "length sh \<le> length st" "length sh \<le> length st0"
  shows "far_end sh st0 (length sh) st + dot c (reversed st0 (length sh) st) = dot (flip sh st0 c) st"
proof -
  have "far_end sh st0 (length sh) st + dot c (reversed st0 (length sh) st) =
      (\<Sum>i<length sh. (if st0 ! i < 0 then st ! i * (sh ! i - 1) else 0) +
        c ! i * (if st0 ! i < 0 then - st ! i else st ! i))"
    using assms by (simp add: far_end_def dot_sum nth_reversed sum.distrib)
  also have "\<dots> = (\<Sum>i<length sh. flip sh st0 c ! i * st ! i)"
    using assms by (intro sum.cong) (auto simp: nth_flip algebra_simps)
  finally show ?thesis using assms by (simp add: dot_sum)
qed

lemma mfor_map: "mfor f (map g xs) s = mfor (\<lambda>x. f (g x)) xs s"
  by (induction xs arbitrary: s) auto

lemma mfor_cong:
  assumes "xs = ys" "\<And>x s. x \<in> set ys \<Longrightarrow> f x s = g x s" "s = t"
  shows "mfor f xs s = mfor g ys t"
proof -
  have "mfor f ys t = mfor g ys t"
    using assms(2) by (induction ys arbitrary: t) (auto split: bind_splits)
  then show ?thesis using assms(1,3) by simp
qed

lemma fits_reversed: "fits sh st \<Longrightarrow> fits sh (reversed st0 k st)"
  by (auto simp: fits_def nth_reversed)

lemma at_coords_map: "at_coords (map p qs) (map st qs) c = map (\<lambda>q. p q + dot c (st q)) qs"
  by (simp add: at_coords_def map2_map_map)

lemma reverse_axes_iterate:
  assumes "n = length sh" "n \<le> 32" "n \<le> length shp" "take n shp = sh" "small_shape sh" "qs \<noteq> []"
    and "\<And>q. q \<in> set qs \<Longrightarrow> fits sh (st q)"
  shows "\<exists>it. reverse_axes (int n) shp (map p qs) (map st qs) = Some it \<and>
    (\<forall>(body :: int list \<Rightarrow> 's \<Rightarrow> 's option) s. raw_iterate body it s =
      mfor (\<lambda>c. body (at_coords (map p qs) (map st qs) c)) (visit_order sh (st (hd qs))) s)"
proof (intro exI conjI allI)
  let ?s0 = "st (hd qs)"
  let ?it = "(int n, shp, map (\<lambda>q. p q + far_end sh ?s0 n (st q)) qs, map (\<lambda>q. reversed ?s0 n (st q)) qs)"
  show "reverse_axes (int n) shp (map p qs) (map st qs) = Some ?it"
    using assms by (intro reverse_axes_eq) auto
  have len: "length sh \<le> length (st q)" if "q \<in> set qs" for q using assms(7) [OF that] by (simp add: fits_def)
  have at: "at_coords (map (\<lambda>q. p q + far_end sh ?s0 n (st q)) qs) (map (\<lambda>q. reversed ?s0 n (st q)) qs) c =
      at_coords (map p qs) (map st qs) (flip sh ?s0 c)" if "length c = length sh" for c
    unfolding at_coords_map
  proof (intro map_cong refl)
    fix q assume "q \<in> set qs"
    then show "p q + far_end sh ?s0 n (st q) + dot c (reversed ?s0 n (st q)) = p q + dot (flip sh ?s0 c) (st q)"
      using dot_reversed [OF that len, of q ?s0] len [of "hd qs"] assms(1,6) by simp
  qed
  fix body :: "int list \<Rightarrow> 's \<Rightarrow> 's option" and s
  have "raw_iterate body ?it s = mfor (\<lambda>x. body (at_coords (map (\<lambda>q. p q + far_end sh ?s0 n (st q)) qs)
      (map (\<lambda>q. reversed ?s0 n (st q)) qs) (f_coords sh x))) [0..prod_list sh - 1] s"
    using assms by (intro raw_iterate_eq) (auto intro: fits_reversed)
  also have "\<dots> = mfor (\<lambda>x. body (at_coords (map p qs) (map st qs) (flip sh ?s0 (f_coords sh x)))) [0..prod_list sh - 1] s"
    by (rule mfor_cong [OF refl _ refl]) (simp add: at)
  finally show "raw_iterate body ?it s =
      mfor (\<lambda>c. body (at_coords (map p qs) (map st qs) c)) (visit_order sh ?s0) s"
    by (simp add: visit_order_def mfor_map)
qed

lemma map_zip3:
  assumes "length xs = length zs" "length ys = length zs"
  shows "map (\<lambda>q. fst (fst q)) (zip (zip xs ys) zs) = xs" "map (\<lambda>q. snd (fst q)) (zip (zip xs ys) zs) = ys"
    "map snd (zip (zip xs ys) zs) = zs"
  using assms by (auto intro!: nth_equalityI)

text \<open>What the loop needs of its operands: room in the arrays of the iteration, and strides that fit.\<close>

definition raw_operands :: "int list \<Rightarrow> int list \<Rightarrow> int list \<Rightarrow> int list list \<Rightarrow> int list \<Rightarrow> int list list \<Rightarrow> bool" where
  "raw_operands sh shp datas sts outShape outs \<longleftrightarrow>
     small_shape sh \<and> length sh \<le> 32 \<and> length sh \<le> length shp \<and> take (length sh) shp = sh \<and>
     sts \<noteq> [] \<and> length datas = length sts \<and> length outs = length sts \<and> list_all (fits sh) sts \<and>
     32 \<le> length outShape \<and> list_all (\<lambda>os. 32 \<le> length os) outs"

lemma reversed_operands_iterate:
  assumes "raw_operands sh shp datas sts outShape outs"
  shows "\<exists>it. (copy_axes (int (length sh)) shp sts outShape outs \<bind>
      (\<lambda>(outShape, outStrides). reverse_axes (int (length sh)) outShape datas outStrides)) = Some it \<and>
    (\<forall>(body :: int list \<Rightarrow> 's \<Rightarrow> 's option) s. raw_iterate body it s = mfor (\<lambda>c. body (at_coords datas sts c)) (visit_order sh (hd sts)) s)"
proof -
  let ?n = "length sh"
  define qs where "qs = zip (zip datas sts) outs"
  define p where "p = (\<lambda>q :: (int \<times> int list) \<times> int list. fst (fst q))"
  define st where "st = (\<lambda>q :: (int \<times> int list) \<times> int list. snd (fst q))"
  define os where "os = (snd :: (int \<times> int list) \<times> int list \<Rightarrow> int list)"
  have len: "length datas = length outs" "length sts = length outs" "sts \<noteq> []" using assms by (simp_all add: raw_operands_def)
  have maps: "map p qs = datas" "map st qs = sts" "map os qs = outs"
    unfolding qs_def p_def st_def os_def by (rule map_zip3 [OF len(1,2)])+
  then have "qs \<noteq> []" using len(3) by auto
  have q: "fits sh (st q)" "?n \<le> length (os q)" if "q \<in> set qs" for q
  proof -
    have "st q \<in> set sts" "os q \<in> set outs" using that maps by auto
    then show "fits sh (st q)" "?n \<le> length (os q)"
      using assms by (fastforce simp: raw_operands_def list_all_iff)+
  qed
  define st' where "st' q = take ?n (st q) @ drop ?n (os q)" for q
  have copy: "copy_axes (int ?n) shp sts outShape outs = Some (take ?n shp @ drop ?n outShape, map st' qs)"
    unfolding st'_def maps(2,3) [symmetric]
    using assms q by (intro copy_axes_eq) (auto simp: raw_operands_def fits_def)
  have fit: "fits sh (st' q)" if "q \<in> set qs" for q
    using q [OF that] by (auto simp: fits_def st'_def nth_append)
  let ?shp = "take ?n shp @ drop ?n outShape"
  have ops: "small_shape sh" "?n \<le> 32" "?n \<le> length shp" "take ?n shp = sh" "?n \<le> length ?shp"
    using assms by (simp_all add: raw_operands_def)
  have shp: "take ?n ?shp = sh" unfolding ops(4) by simp
  have order: "visit_order sh (st' (hd qs)) = visit_order sh (hd sts)"
  proof -
    have "st (hd qs) = hd sts" using \<open>qs \<noteq> []\<close> by (simp flip: maps(2) add: hd_map)
    moreover have "flip sh (st' r) c = flip sh (st r) c" if "r \<in> set qs" "length c = ?n" for r c
      using q(1) [OF that(1)] fit [OF that(1)] that(2)
      by (intro nth_equalityI) (auto simp: nth_flip fits_def st'_def nth_append)
    ultimately show ?thesis using \<open>qs \<noteq> []\<close> by (simp add: visit_order_def)
  qed
  have at: "at_coords (map p qs) (map st' qs) c = at_coords datas sts c" if "c \<in> set (visit_order sh (hd sts))" for c
  proof -
    have c: "length c = ?n" using that by (auto simp: visit_order_def)
    have "dot c (st' r) = dot c (st r)" if "r \<in> set qs" for r
      using q(1) [OF that] fit [OF that] c by (auto simp: dot_sum fits_def st'_def nth_append intro!: sum.cong)
    then show ?thesis unfolding maps(1,2) [symmetric] at_coords_map by simp
  qed
  have run: "mfor (\<lambda>c. body (at_coords (map p qs) (map st' qs) c)) (visit_order sh (st' (hd qs))) s =
      mfor (\<lambda>c. body (at_coords datas sts c)) (visit_order sh (hd sts)) s" for body :: "int list \<Rightarrow> 's \<Rightarrow> 's option" and s
    unfolding order by (rule mfor_cong [OF refl _ refl]) (simp add: at)
  have "\<exists>it. reverse_axes (int ?n) ?shp (map p qs) (map st' qs) = Some it \<and>
    (\<forall>(body :: int list \<Rightarrow> 's \<Rightarrow> 's option) s. raw_iterate body it s =
      mfor (\<lambda>c. body (at_coords (map p qs) (map st' qs) c)) (visit_order sh (st' (hd qs))) s)"
    by (rule reverse_axes_iterate [OF refl ops(2,5) shp ops(1) \<open>qs \<noteq> []\<close>]) (rule fit)
  then show ?thesis unfolding run unfolding maps(1) copy by simp
qed

text \<open>The three preparations agree on the coordinates they visit.\<close>

lemma PrepareTwoRawArrayIter_iterates:
  assumes "raw_operands sh shp datas sts outShape outs"
  shows "\<exists>it. PrepareTwoRawArrayIter (int (length sh)) shp datas sts outShape outs = Some it \<and>
    (\<forall>(body :: int list \<Rightarrow> 's \<Rightarrow> 's option) s. raw_iterate body it s = mfor (\<lambda>c. body (at_coords datas sts c)) (visit_order sh (hd sts)) s)"
  unfolding PrepareTwoRawArrayIter_def by (rule reversed_operands_iterate [OF assms])

lemma PrepareOneRawArrayIter_iterates:
  assumes "raw_operands sh shp [data] [st] outShape [outs]"
  shows "\<exists>it. PrepareOneRawArrayIter (int (length sh)) shp data st outShape outs = Some it \<and>
    (\<forall>(body :: int list \<Rightarrow> 's \<Rightarrow> 's option) s. raw_iterate body it s = mfor (\<lambda>c. body (at_coords [data] [st] c)) (visit_order sh []) s)"
proof -
  let ?n = "length sh"
  have ops: "small_shape sh" "?n \<le> 32" "?n \<le> length shp" "take ?n shp = sh" "fits sh st" "?n \<le> length st"
    "?n \<le> length outShape" "?n \<le> length outs"
    using assms by (simp_all add: raw_operands_def fits_def)
  let ?shp = "take ?n shp @ drop ?n outShape" and ?st = "take ?n st @ drop ?n outs"
  have copy: "copy_axes (int ?n) shp [st] outShape [outs] = Some (?shp, [?st])"
    using copy_axes_eq [OF ops(3,7), of "[()]" "\<lambda>_. st" "\<lambda>_. outs"] ops by simp
  have shp: "take ?n ?shp = sh" "?n \<le> length ?shp" using ops by (simp_all only: ops(4)) simp_all
  have fit: "fits sh ?st" using ops(5,6) by (auto simp: fits_def nth_append)
  have "raw_iterate body (int ?n, ?shp, [data], [?st]) s =
      mfor (\<lambda>x. body (at_coords [data] [?st] (f_coords sh x))) [0..prod_list sh - 1] s" for body :: "int list \<Rightarrow> 's \<Rightarrow> 's option" and s
    using fit by (intro raw_iterate_eq [OF refl ops(2) shp(2,1) ops(1)]) auto
  moreover have "at_coords [data] [?st] c = at_coords [data] [st] c" if "length c = ?n" for c
    using that ops(6) by (simp add: at_coords_def dot_sum nth_append)
  moreover have "flip sh [] c = c" for c by (rule flip_nonneg) simp
  ultimately show ?thesis
    by (simp add: PrepareOneRawArrayIter_def copy visit_order_def mfor_map cong: mfor_cong)
qed

text \<open>The special case for one axis does what the general one does.\<close>

lemma one_axis:
  assumes "raw_operands [d] shp datas sts outShape outs"
  shows "PrepareThreeRawArrayIter 1 shp datas sts outShape outs =
    copy_axes 1 shp sts outShape outs \<bind> (\<lambda>(outShape, outStrides). reverse_axes 1 outShape datas outStrides)"
proof -
  have len: "length sts = length outs" "sts \<noteq> []" "0 < d" "shp \<noteq> []" "shp ! 0 = d" "0 < length outShape"
    using assms by (auto simp: raw_operands_def small_shape_def take_Suc_conv_app_nth Suc_le_eq)
  define qs where "qs = zip sts outs"
  have maps: "map fst qs = sts" "map snd qs = outs" using len(1) by (simp_all add: qs_def)
  have q: "0 < length (fst q)" "0 < length (snd q)" "\<bar>fst q ! 0\<bar> \<le> 2147483647" if "q \<in> set qs" for q
  proof -
    have "fst q \<in> set sts" "snd q \<in> set outs" using that set_zip_leftD [of "fst q" "snd q" sts outs] set_zip_rightD [of "fst q" "snd q" sts outs]
      by (simp_all add: qs_def)
    then show "0 < length (fst q)" "0 < length (snd q)" "\<bar>fst q ! 0\<bar> \<le> 2147483647"
      using assms by (force simp: raw_operands_def fits_def list_all_iff)+
  qed
  define new where "new q = take 1 (fst q) @ drop 1 (snd q)" for q :: "int list \<times> int list"
  have new: "(snd q)[0 := fst q ! 0] = new q" "(new q)[0 := v] = (snd q)[0 := v]" "new q ! 0 = fst q ! 0"
    "0 < length (new q)" if "q \<in> set qs" for q v
    using q [OF that] by (cases "fst q"; cases "snd q"; simp add: new_def)+
  have copy: "copy_axes 1 shp sts outShape outs = Some (outShape[0 := d], map new qs)"
  proof -
    have "copy_axes (int 1) shp (map fst qs) outShape (map snd qs) =
        Some (take 1 shp @ drop 1 outShape, map (\<lambda>q. take 1 (fst q) @ drop 1 (snd q)) qs)"
      using len q by (intro copy_axes_eq) (auto simp: Suc_le_eq)
    moreover have "take 1 shp @ drop 1 outShape = outShape[0 := d]"
      using len(4,5,6) by (cases shp; cases outShape) auto
    ultimately show ?thesis unfolding maps by (simp add: new_def)
  qed
  have entries: "rd_all sts 0 = Some (map (\<lambda>q. fst q ! 0) qs)" "rd_all (map new qs) 0 = Some (map (\<lambda>q. fst q ! 0) qs)"
    using rd_all_map [of qs 0 fst] rd_all_map [of qs 0 new] q(1) new by (auto simp: maps)
  have w1: "wr_all outs 0 (map (\<lambda>q. fst q ! 0) qs) = Some (map new qs)"
    using wr_all_map [of qs 0 snd "\<lambda>q. fst q ! 0"] q(2) new by (simp add: maps)
  have wr: "wr_all outs 0 (map h qs) = wr_all (map new qs) 0 (map h qs)" for h
    using wr_all_map [of qs 0 snd h] wr_all_map [of qs 0 new h] q(2) new by (simp add: maps)
  have neg: "those (map (\<lambda>s. i32 (- s)) (map (\<lambda>q. fst q ! 0) qs)) = Some (map (\<lambda>q. - fst q ! 0) qs)"
    unfolding map_map comp_def
  proof (rule those_map_Some)
    fix r assume "r \<in> set qs"
    then show "i32 (- fst r ! 0) = Some (- fst r ! 0)" using q(3) [of r] by (simp add: i32_def abs_le_iff)
  qed
  show ?thesis
    using len(3-6) by (simp add: PrepareThreeRawArrayIter_def copy reverse_axes_def entries w1 rd_Some wr_Some neg wr
        del: map_map list.map cong: if_cong)
qed

lemma PrepareThreeRawArrayIter_iterates:
  assumes "raw_operands sh shp datas sts outShape outs"
  shows "\<exists>it. PrepareThreeRawArrayIter (int (length sh)) shp datas sts outShape outs = Some it \<and>
    (\<forall>(body :: int list \<Rightarrow> 's \<Rightarrow> 's option) s.
      raw_iterate body it s = mfor (\<lambda>c. body (at_coords datas sts c)) (visit_order sh (hd sts)) s)"
proof -
  consider "sh = []" | d where "sh = [d]" | "2 \<le> length sh"
    by (metis One_nat_def Suc_1 Suc_leI length_0_conv length_Suc_conv less_one linorder_neqE_nat not_less_eq_eq)
  then show ?thesis
  proof cases
    case 1
    have len: "length datas = length sts" "length outs = length sts" "0 < length outShape"
      "\<And>os. os \<in> set outs \<Longrightarrow> 0 < length os"
      using assms by (auto simp: raw_operands_def list_all_iff)
    have "wr_all outs 0 (map (\<lambda>_. 0) outs) = Some (map (\<lambda>os. os[0 := 0]) outs)"
      using wr_all_map [of outs 0 "\<lambda>os. os" "\<lambda>_. 0"] len(4) by simp
    moreover have "raw_iterate body (int 1, outShape[0 := 1], datas, map (\<lambda>os. os[0 := 0]) outs) s =
        mfor (\<lambda>x. body (at_coords datas (map (\<lambda>os. os[0 := 0]) outs) (f_coords [1] x))) [0..prod_list [1] - 1] s"
      for body :: "int list \<Rightarrow> 's \<Rightarrow> 's option" and s
    proof (rule raw_iterate_eq)
      fix st assume "st \<in> set (map (\<lambda>os. os[0 := 0]) outs)"
      then show "fits [1] st" using len(4) by (auto simp: fits_def Suc_le_eq)
    qed (use len in \<open>simp_all add: small_shape_def take_Suc_conv_app_nth Suc_le_eq\<close>)
    moreover have "at_coords datas (map (\<lambda>os. os[0 := 0]) outs) (f_coords [1] 0) = datas"
      unfolding at_coords_def
    proof (rule map2_add_zero)
      fix st assume "st \<in> set (map (\<lambda>os. os[0 := 0]) outs)"
      then show "dot (f_coords [1] 0) st = 0" by (auto simp: f_coords_0_dot)
    qed (use len in simp)
    moreover have "at_coords datas sts [] = datas"
      unfolding at_coords_def using len by (intro map2_add_zero) simp_all
    ultimately show ?thesis using 1 len(3)
      by (simp add: PrepareThreeRawArrayIter_def wr_Some visit_order_def f_coords_def del: of_nat_1)
  next
    case (2 d)
    then have "int (length sh) = 1" by simp
    then show ?thesis using one_axis [of d shp datas sts outShape outs] 2 assms reversed_operands_iterate [OF assms]
      by simp
  next
    case 3
    then have "int (length sh) \<noteq> 0" "int (length sh) \<noteq> 1" by auto
    then show ?thesis
      unfolding PrepareThreeRawArrayIter_def using reversed_operands_iterate [OF assms] by simp
  qed
qed

section \<open>Termination\<close>

text \<open>C3: The strided loop over three operands returns after visiting every coordinate of a non-empty shape exactly
  once: it is the loop over a list of all coordinates without repetition, and at each of them every operand stands at its
  own element, also when the preparation runs axes backwards.
\<close>

theorem raw_loop_visits_all:
  assumes "raw_operands sh shp datas sts outShape outs"
  shows "\<exists>it cs. PrepareThreeRawArrayIter (int (length sh)) shp datas sts outShape outs = Some it \<and>
    distinct cs \<and> set cs = {c. in_box sh c} \<and>
    raw_iterate (\<lambda>ps log. Some (log @ [ps])) it [] = Some (map (at_coords datas sts) cs)"
proof -
  have pos: "pos_shape sh" using assms by (simp add: raw_operands_def small_shape_def)
  have log: "mfor (\<lambda>c log. Some (log @ [at_coords datas sts c])) cs l = Some (l @ map (at_coords datas sts) cs)" for cs l
    by (induction cs arbitrary: l) auto
  obtain it where "PrepareThreeRawArrayIter (int (length sh)) shp datas sts outShape outs = Some it"
    "raw_iterate (\<lambda>ps log. Some (log @ [ps])) it [] =
      mfor (\<lambda>c log. Some (log @ [at_coords datas sts c])) (visit_order sh (hd sts)) []"
    using PrepareThreeRawArrayIter_iterates [OF assms, where 's = "int list list"] by blast
  then show ?thesis
    by (intro exI [of _ it] exI [of _ "visit_order sh (hd sts)"])
      (simp add: log visit_order_set [OF pos] distinct_visit_order [OF pos])
qed

text \<open>A transposed and a contiguous matrix of shape 2 by 3, and one with its rows in reverse order.\<close>

lemma raw_loop_visits_all_witness:
  "\<exists>it cs. PrepareThreeRawArrayIter 2 [2, 3] [3, 10, 20] [[-3, 1], [1, 2], [3, 1]] (replicate 32 0)
      (replicate 3 (replicate 32 0)) = Some it \<and>
    distinct cs \<and> set cs = {c. in_box [2, 3] c} \<and>
    raw_iterate (\<lambda>ps log. Some (log @ [ps])) it [] = Some (map (at_coords [3, 10, 20] [[-3, 1], [1, 2], [3, 1]]) cs)"
  using raw_loop_visits_all [of "[2, 3]" "[2, 3]" "[3, 10, 20]" "[[-3, 1], [1, 2], [3, 1]]" "replicate 32 0"
      "replicate 3 (replicate 32 0)"]
  by (simp add: raw_operands_def small_shape_def fits_def less_Suc_eq numeral_2_eq_2 list_all_iff)

text \<open>
  An empty shape is detected by the preparation, which answers one axis of length zero, but the loop tests its condition
  at the end: it counts the coordinate up from zero, never meets the length, and ends in a signed overflow.
\<close>

lemma empty_axis_overflows:
  assumes "0 \<le> c" "c \<le> 2147483647"
  shows "raw_loop body 1 (0 # shp) [t # st] (c # cs, [p]) s = None"
  using assms
proof (induction "nat (2147483647 - c)" arbitrary: c p s)
  case 0
  then have "c = 2147483647" by simp
  then have "raw_next 1 (0 # shp) [t # st] (c # cs, [p]) = None"
    by (simp add: raw_next_def raw_axis_def rd_Some i32_def)
  then show ?case by (subst raw_loop.simps) (simp add: bind_eq_None_conv)
next
  case (Suc m)
  then have c: "c + 1 \<le> 2147483647" "0 \<le> c" by simp_all
  have "raw_next 1 (0 # shp) [t # st] (c # cs, [p]) = Some (0, (c + 1) # cs, [p + t])"
    using c by (simp add: raw_next_def raw_axis_def rd_Some wr_Some i32_def rd_all_def move_all_def)
  moreover have "raw_loop body 1 (0 # shp) [t # st] ((c + 1) # cs, [p + t]) s' = None" for s'
    using Suc.hyps(2) c by (intro Suc.hyps(1)) simp_all
  ultimately show ?case by (subst raw_loop.simps) (simp add: bind_eq_None_conv)
qed

lemma empty_shape_never_returns:
  "raw_iterate body (1, 0 # shp, [p], [t # st]) s = None"
  by (simp add: raw_iterate_def empty_axis_overflows)

end
