(* ===== verification/Loops.thy ===== *)
theory Loops
  imports RawIter Permute "HOL-Library.Multiset"
begin

text \<open>
  What the native loops (\<open>include/loops\<close>) share: buffers that operands may share, the parallel loops of OpenMP, and
  the general fact behind all loops that compute one cell per iteration: with distinct targets that no other iteration
  reads, the result does not depend on the order of the iterations.
\<close>

section \<open>Buffers\<close>

text \<open>
  The buffers of a call, by name, and a position in one of them, the model of \<open>T *\<close>. Two operands may name the same
  buffer. Moving a position is not checked, reading and writing is.
\<close>

type_synonym 't buffers = "nat \<Rightarrow> 't list"
type_synonym position = "nat \<times> int"

definition moved :: "position \<Rightarrow> int \<Rightarrow> position" where
  "moved p k = (fst p, snd p + k)"

definition load :: "'t buffers \<Rightarrow> position \<Rightarrow> 't option" where
  "load m p = rd (m (fst p)) (snd p)"

definition store :: "'t buffers \<Rightarrow> position \<Rightarrow> 't \<Rightarrow> 't buffers option" where
  "store m p v = do { xs \<leftarrow> wr (m (fst p)) (snd p) v; Some (m(fst p := xs)) }"

section \<open>Parallel loops\<close>

text \<open>
  The runtime: how many threads it offers (\<open>omp_get_max_threads\<close>), how many it starts for a region that asks for some
  number, the order in which the iterations of a parallel loop take effect, and the two thresholds of \<open>Environment\<close>.
  Iterations are taken as a whole; as those of the loops below touch no cell that another one writes, finer
  interleavings have the same effect.
\<close>

record runtime =
  omp_max_threads :: int
  omp_team :: "int \<Rightarrow> int"
  omp_schedule :: "int list \<Rightarrow> int list"
  elementwiseThreshold :: int
  tadThreshold :: int

definition parallel_for :: "runtime \<Rightarrow> (int \<Rightarrow> 's \<Rightarrow> 's option) \<Rightarrow> int \<Rightarrow> 's \<Rightarrow> 's option" where
  "parallel_for R body n s = mfor body (omp_schedule R [0..n - 1]) s"

text \<open>\<open>nd4j_min<int>(nd4j_max<int>(1, n / threshold), omp_get_max_threads())\<close>.\<close>

definition thread_count :: "runtime \<Rightarrow> int \<Rightarrow> int \<Rightarrow> int option" where
  "thread_count R n threshold = do {
     q \<leftarrow> div64 n threshold;
     Some (min (max 1 (to_int q)) (omp_max_threads R)) }"

text \<open>
  A parallel region in which thread \<open>tid\<close> takes the iterations from \<open>span * tid\<close> on, \<open>span\<close> of them, below \<open>n\<close>. The span
  comes from the number of threads that is asked for; the threads that run are those the runtime starts.
\<close>

definition thread_region :: "runtime \<Rightarrow> (int \<Rightarrow> 's \<Rightarrow> 's option) \<Rightarrow> int \<Rightarrow> int \<Rightarrow> int \<Rightarrow> 's \<Rightarrow> 's option" where
  "thread_region R body span threads n s = do {
     parts \<leftarrow> those (map (\<lambda>tid. do {
         start \<leftarrow> i64 (span * tid);
         end' \<leftarrow> i64 (span * (tid + 1));
         Some [start..(if end' > n then n else end') - 1] }) [0..omp_team R threads - 1]);
     mfor body (omp_schedule R (concat parts)) s }"

text \<open>
  What the loops rely on. Every iteration is run once, and a region gets the threads it asks for, as long as these are no
  more than the runtime offers: so it is without dynamic adjustment and outside of other regions, and the code tests
  for neither (the lemma \<open>smaller_team\<close> has the effect).
\<close>

definition runtime_ok :: "runtime \<Rightarrow> bool" where
  "runtime_ok R \<longleftrightarrow> 1 \<le> omp_max_threads R \<and> omp_max_threads R \<le> 2147483647 \<and> 0 < elementwiseThreshold R \<and>
     (\<forall>k. 1 \<le> k \<longrightarrow> k \<le> omp_max_threads R \<longrightarrow> omp_team R k = k) \<and>
     0 < tadThreshold R \<and> (\<forall>xs. mset (omp_schedule R xs) = mset xs)"

lemma schedule_perm:
  assumes "runtime_ok R"
  shows "set (omp_schedule R xs) = set xs" "distinct (omp_schedule R xs) = distinct xs"
proof -
  have "mset (omp_schedule R xs) = mset xs" using assms by (simp add: runtime_ok_def)
  then show "set (omp_schedule R xs) = set xs" "distinct (omp_schedule R xs) = distinct xs"
    by (auto dest: mset_eq_setD mset_eq_imp_distinct_iff)
qed

lemma thread_count_ok:
  assumes "runtime_ok R" "0 \<le> n" "n \<le> 2147483647" "0 < t"
  shows "\<exists>k. thread_count R n t = Some k \<and> 1 \<le> k \<and> k \<le> 2147483647 \<and> k \<le> omp_max_threads R \<and> omp_team R k = k"
proof -
  have "div64 n t = Some (n div t)" using assms by (intro div64_nonneg) auto
  moreover have "to_int (n div t) = n div t" 
    using assms div_le_self [of n t] pos_imp_zdiv_nonneg_iff [of t n] by (intro to_int_id) linarith+
  ultimately show ?thesis using assms div_le_self [of n t]
    by (auto simp: thread_count_def runtime_ok_def)
qed

text \<open>The parts of the threads are the iterations below \<open>n\<close>, each once.\<close>

lemma thread_parts:
  assumes "0 < span" "0 \<le> k"
  shows "distinct (concat (map (\<lambda>tid. [span * tid..(if span * (tid + 1) > n then n else span * (tid + 1)) - 1]) [0..k - 1])) \<and>
    set (concat (map (\<lambda>tid. [span * tid..(if span * (tid + 1) > n then n else span * (tid + 1)) - 1]) [0..k - 1])) =
      {i. 0 \<le> i \<and> i < n \<and> i < span * k}"
  using assms(2)
proof (induction "nat k" arbitrary: k)
  case 0
  then have "k = 0" by simp
  then show ?case by auto
next
  case (Suc j)
  then have k: "k = int j + 1" by simp
  have upto: "[0..k - 1] = [0..int j - 1] @ [int j]" using upto_rec2 [of 0 "int j"] by (simp add: k)
  define a where "a = span * int j"
  have s: "span * (int j + 1) = a + span" by (simp add: a_def algebra_simps)
  have nn: "0 \<le> a" using assms(1) by (simp add: a_def)
  have IH: "distinct (concat (map (\<lambda>tid. [span * tid..(if span * (tid + 1) > n then n else span * (tid + 1)) - 1]) [0..int j - 1]))"
    "set (concat (map (\<lambda>tid. [span * tid..(if span * (tid + 1) > n then n else span * (tid + 1)) - 1]) [0..int j - 1])) =
      {i. 0 \<le> i \<and> i < n \<and> i < a}"
    unfolding a_def using Suc.hyps(1) [of "int j"] by simp_all
  show ?case
    unfolding upto map_append concat_append distinct_append set_append IH(2)
    using IH(1) assms(1) nn by (auto simp: k s simp flip: a_def split: if_splits)
qed

lemma thread_region_eq:
  assumes "0 < span" "0 \<le> k" "n \<le> span * k" "span * (k + 1) \<le> 9223372036854775807" "runtime_ok R"
    and "omp_team R k = k"
  shows "\<exists>xs. thread_region R body span k n s = mfor body xs s \<and> distinct xs \<and> set xs = set [0..n - 1]"
proof -
  let ?part = "\<lambda>tid. [span * tid..(if span * (tid + 1) > n then n else span * (tid + 1)) - 1]"
  have "those (map (\<lambda>tid. do {
         start \<leftarrow> i64 (span * tid);
         end' \<leftarrow> i64 (span * (tid + 1));
         Some [start..(if end' > n then n else end') - 1] }) [0..k - 1]) = Some (map ?part [0..k - 1])"
  proof (rule those_map_Some)
    fix tid assume "tid \<in> set [0..k - 1]"
    then have "0 \<le> span * tid" "span * tid \<le> span * (k + 1)" "0 \<le> span * (tid + 1)" "span * (tid + 1) \<le> span * (k + 1)"
      using assms(1) by simp_all
    then show "do { start \<leftarrow> i64 (span * tid); end' \<leftarrow> i64 (span * (tid + 1));
         Some [start..(if end' > n then n else end') - 1] } = Some (?part tid)"
      using assms(4) by (simp add: i64_def)
  qed
  then have "thread_region R body span k n s = mfor body (omp_schedule R (concat (map ?part [0..k - 1]))) s"
    by (simp add: thread_region_def assms(6))
  then show ?thesis
    using thread_parts [OF assms(1,2), of n] schedule_perm [OF assms(5)] assms(3)
    by (intro exI [of _ "omp_schedule R (concat (map ?part [0..k - 1]))"]) auto
qed

text \<open>With one thread instead of two nothing from \<open>span\<close> on is computed.\<close>

lemma smaller_team:
  assumes "omp_team R 2 = 1" "0 \<le> span" "span < n" "n \<le> 2147483647" "\<And>xs. omp_schedule R xs = xs"
  shows "thread_region R body span 2 n s = mfor body [0..span - 1] s"
  using assms by (simp add: thread_region_def i64_def)

lemma parallel_for_eq:
  assumes "runtime_ok R"
  shows "\<exists>xs. parallel_for R body n s = mfor body xs s \<and> distinct xs \<and> set xs = set [0..n - 1]"
  using schedule_perm [OF assms] by (auto simp: parallel_for_def)

lemma parallel_forE:
  assumes "runtime_ok R"
  obtains xs where "parallel_for R body n s = mfor body xs s" "distinct xs" "set xs = set [0..n - 1]"
  using parallel_for_eq [OF assms] by metis

section \<open>One cell per iteration\<close>

definition valid :: "'t buffers \<Rightarrow> position \<Rightarrow> bool" where
  "valid m p \<longleftrightarrow> 0 \<le> snd p \<and> snd p < int (length (m (fst p)))"

definition cell :: "'t buffers \<Rightarrow> position \<Rightarrow> 't" where
  "cell m p = m (fst p) ! nat (snd p)"

text \<open>Nothing but the cells in \<open>A\<close> has changed.\<close>

definition same_but :: "'t buffers \<Rightarrow> 't buffers \<Rightarrow> position set \<Rightarrow> bool" where
  "same_but m m' A \<longleftrightarrow> (\<forall>b. length (m' b) = length (m b)) \<and> (\<forall>p. valid m p \<longrightarrow> p \<notin> A \<longrightarrow> cell m' p = cell m p)"

lemma load_eq: "valid m p \<Longrightarrow> load m p = Some (cell m p)"
  by (simp add: load_def valid_def cell_def rd_Some)

lemma same_but_refl [simp]: "same_but m m A"
  by (simp add: same_but_def)

lemma same_but_valid: "same_but m m' A \<Longrightarrow> valid m' p = valid m p"
  by (simp add: same_but_def valid_def)

lemma same_but_cell: "same_but m m' A \<Longrightarrow> valid m p \<Longrightarrow> p \<notin> A \<Longrightarrow> cell m' p = cell m p"
  unfolding same_but_def by blast

lemma same_but_load: "same_but m m' A \<Longrightarrow> valid m p \<Longrightarrow> p \<notin> A \<Longrightarrow> load m' p = Some (cell m p)"
  using load_eq [of m' p] same_but_valid [of m m' A p] same_but_cell [of m m' A p] by simp

lemma same_but_mono: "same_but m m' A \<Longrightarrow> A \<subseteq> B \<Longrightarrow> same_but m m' B"
  by (auto simp: same_but_def)

lemma store_ok:
  assumes "valid m p"
  shows "\<exists>m'. store m p v = Some m' \<and> same_but m m' {p} \<and> cell m' p = v"
  using assms by (auto simp: store_def valid_def wr_Some same_but_def cell_def nth_list_update prod_eq_iff nat_eq_iff)

lemma same_but_trans:
  assumes "same_but m m' A" "same_but m' m'' B"
  shows "same_but m m'' (A \<union> B)"
  using assms same_but_valid [OF assms(1)] by (auto simp: same_but_def)

text \<open>The cells of the iterations \<open>X\<close> hold their values, nothing else has changed.\<close>

definition results :: "'t buffers \<Rightarrow> 'x set \<Rightarrow> ('x \<Rightarrow> position) \<Rightarrow> ('x \<Rightarrow> 't) \<Rightarrow> 't buffers \<Rightarrow> bool" where
  "results m X w v m' \<longleftrightarrow> same_but m m' (w ` X) \<and> (\<forall>x\<in>X. cell m' (w x) = v x)"

text \<open>Every iteration stores its value as long as the others have changed their own targets at most.\<close>

lemma elementwise:
  assumes "distinct xs" "inj_on w (set xs)" "\<And>x. x \<in> set xs \<Longrightarrow> valid m (w x)"
    and "\<And>x m'. x \<in> set xs \<Longrightarrow> same_but m m' (w ` (set xs - {x})) \<Longrightarrow> body x m' = store m' (w x) (v x)"
  shows "\<exists>m'. mfor body xs m = Some m' \<and> results m (set xs) w v m'"
  using assms
proof (induction xs rule: rev_induct)
  case Nil
  then show ?case by (simp add: results_def)
next
  case (snoc x xs)
  have inj: "inj_on w (set xs)" "w x \<notin> w ` set xs" using snoc.prems(1,2) by (auto simp: inj_on_def)
  have "body y m' = store m' (w y) (v y)" if "y \<in> set xs" "same_but m m' (w ` (set xs - {y}))" for y m'
    using that by (intro snoc.prems(4)) (auto intro: same_but_mono)
  then obtain m1 where m1: "mfor body xs m = Some m1" "results m (set xs) w v m1"
    using snoc.IH inj(1) snoc.prems(1,3) by fastforce
  then have s1: "same_but m m1 (w ` set xs)" by (simp add: results_def)
  have "body x m1 = store m1 (w x) (v x)"
    using s1 snoc.prems(1) by (intro snoc.prems(4)) (auto elim!: same_but_mono)
  moreover obtain m2 where m2: "store m1 (w x) (v x) = Some m2" "same_but m1 m2 {w x}" "cell m2 (w x) = v x"
    using store_ok [of m1 "w x" "v x"] snoc.prems(3) same_but_valid [OF s1] by auto
  moreover have old: "cell m2 (w y) = v y" if "y \<in> set xs" for y
  proof -
    have "valid m1 (w y)" "w y \<noteq> w x" using that snoc.prems(3) same_but_valid [OF s1] inj(2) by (auto simp: image_iff)
    then show ?thesis using m1(2) same_but_cell [OF m2(2)] that by (simp add: results_def)
  qed
  moreover have "same_but m m2 (w ` set (xs @ [x]))"
    using same_but_trans [OF s1 m2(2)] by simp
  moreover have "\<forall>y\<in>set (xs @ [x]). cell m2 (w y) = v y" using old m2(3) by simp
  ultimately show ?case using m1(1) by (intro exI [of _ m2]) (simp add: mfor_append results_def del: set_append)
qed

lemma mfor_concat: "mfor (\<lambda>x. mfor (f x) (g x)) xs s = mfor (\<lambda>(x, y). f x y) (concat (map (\<lambda>x. map (Pair x) (g x)) xs)) s"
  by (induction xs arbitrary: s) (auto simp: mfor_append mfor_map)

section \<open>Strided arrays\<close>

text \<open>The element with coordinates \<open>c\<close> of an array at \<open>p\<close> with strides \<open>st\<close>.\<close>

definition at_coord :: "position \<Rightarrow> int list \<Rightarrow> int list \<Rightarrow> position" where
  "at_coord p st c = moved p (dot c st)"

text \<open>
  An array in a buffer: it fits, its offsets are ints, and where its element-wise stride is positive, element \<open>i\<close> in the
  order of the array is that many cells behind element \<open>i - 1\<close>.
\<close>

definition array_at :: "'t buffers \<Rightarrow> position \<Rightarrow> int list \<Rightarrow> int list \<Rightarrow> int \<Rightarrow> int \<Rightarrow> bool" where
  "array_at m p sh st ews ord \<longleftrightarrow>
     small_shape sh \<and> length st = length sh \<and> length sh \<le> 32 \<and> nonneg st \<and> list_all (\<lambda>s. s \<le> 2147483647) st \<and>
     extent sh st \<le> 2147483647 \<and> 0 \<le> snd p \<and> snd p + extent sh st < int (length (m (fst p))) \<and> (ord = 99 \<or> ord = 102) \<and>
     ews \<le> 2147483647 \<and> ews_right sh st ews ord"

text \<open>No two elements share a cell.\<close>

definition separate :: "int list \<Rightarrow> int list \<Rightarrow> bool" where
  "separate sh st \<longleftrightarrow> inj_on (\<lambda>c. dot c st) {c. in_box sh c}"

text \<open>An element of the array at \<open>p\<close> may share its cell with the same element of the one at \<open>q\<close>, but with no other.\<close>

definition no_clash :: "int list \<Rightarrow> position \<Rightarrow> int list \<Rightarrow> position \<Rightarrow> int list \<Rightarrow> bool" where
  "no_clash sh p st q st' \<longleftrightarrow> (\<forall>c d. in_box sh c \<longrightarrow> in_box sh d \<longrightarrow> c \<noteq> d \<longrightarrow> at_coord p st c \<noteq> at_coord q st' d)"

lemma box_coords: "pos_shape sh \<Longrightarrow> {c. in_box sh c} = c_coords sh ` set [0..prod_list sh - 1]"
proof (intro equalityI subsetI)
  fix c assume "c \<in> {c. in_box sh c}"
  then have "in_box sh c" by simp
  then have "c = c_coords sh (dot c (c_strides sh))" "0 \<le> dot c (c_strides sh)" "dot c (c_strides sh) < prod_list sh"
    using c_coords_of_dot [of sh c] c_linear_range [of sh c] by simp_all
  then show "c \<in> c_coords sh ` set [0..prod_list sh - 1]"
    by (intro image_eqI [of _ _ "dot c (c_strides sh)"]) simp_all
qed (auto intro: c_coords_in_box)

lemma box_all: "pos_shape sh \<Longrightarrow> (\<forall>c. in_box sh c \<longrightarrow> P c) \<longleftrightarrow> (\<forall>i\<in>set [0..prod_list sh - 1]. P (c_coords sh i))"
proof -
  assume "pos_shape sh"
  then have "in_box sh c \<longleftrightarrow> c \<in> c_coords sh ` set [0..prod_list sh - 1]" for c
    using box_coords [of sh] by (metis mem_Collect_eq)
  then show "(\<forall>c. in_box sh c \<longrightarrow> P c) \<longleftrightarrow> (\<forall>i\<in>set [0..prod_list sh - 1]. P (c_coords sh i))"
    by (metis (no_types, lifting) imageE imageI)
qed

lemma separate_iff:
  assumes "pos_shape sh"
  shows "separate sh st \<longleftrightarrow> distinct (map (\<lambda>i. dot (c_coords sh i) st) [0..prod_list sh - 1])"
proof -
  have "inj_on (c_coords sh) (set [0..prod_list sh - 1])"
    using assms by (intro inj_on_inverseI [where g = "\<lambda>c. dot c (c_strides sh)"]) (simp add: c_coords_dot)
  then have "inj_on (\<lambda>c. dot c st) (c_coords sh ` set [0..prod_list sh - 1]) \<longleftrightarrow>
      inj_on (\<lambda>i. dot (c_coords sh i) st) (set [0..prod_list sh - 1])"
    by (auto simp: inj_on_def)
  then show ?thesis by (simp add: separate_def box_coords [OF assms] distinct_map)
qed

lemma no_clash_iff:
  assumes "pos_shape sh"
  shows "no_clash sh p st q st' \<longleftrightarrow> (\<forall>i\<in>set [0..prod_list sh - 1]. \<forall>j\<in>set [0..prod_list sh - 1].
    c_coords sh i \<noteq> c_coords sh j \<longrightarrow> at_coord p st (c_coords sh i) \<noteq> at_coord q st' (c_coords sh j))"
proof -
  have "no_clash sh p st q st' \<longleftrightarrow>
      (\<forall>c. in_box sh c \<longrightarrow> (\<forall>d. in_box sh d \<longrightarrow> c \<noteq> d \<longrightarrow> at_coord p st c \<noteq> at_coord q st' d))"
    by (auto simp: no_clash_def)
  then show ?thesis by (simp only: box_all [OF assms])
qed

lemma order_coords_bij:
  assumes "pos_shape sh"
  shows "bij_betw (order_coords ord sh) (set [0..prod_list sh - 1]) {c. in_box sh c}"
proof (cases "ord = 99")
  case True
  then show ?thesis
    using assms by (intro bij_betw_byWitness [where f' = "\<lambda>c. dot c (c_strides sh)"])
      (auto simp: order_coords_def c_coords_dot c_coords_of_dot c_coords_in_box dest: c_linear_range)
next
  case False
  then show ?thesis
    using assms by (intro bij_betw_byWitness [where f' = "\<lambda>c. dot c (f_strides sh)"])
      (auto simp: order_coords_def f_coords_dot f_coords_of_dot f_coords_in_box dest: f_linear_range)
qed

lemma order_coords_in_box: "pos_shape sh \<Longrightarrow> i \<in> set [0..prod_list sh - 1] \<Longrightarrow> in_box sh (order_coords ord sh i)"
  using order_coords_bij [of sh ord] by (auto simp: bij_betw_def)

lemma array_at_valid:
  assumes "array_at m p sh st ews ord" "in_box sh c"
  shows "valid m (at_coord p st c)" "0 \<le> dot c st" "dot c st \<le> 2147483647"
proof -
  have "0 \<le> dot c st" using assms in_box_nonneg dot_nonneg by (auto simp: array_at_def)
  moreover have "dot c st \<le> extent sh st" using assms dot_le_extent by (auto simp: array_at_def)
  ultimately show "valid m (at_coord p st c)" "0 \<le> dot c st" "dot c st \<le> 2147483647"
    using assms(1) by (simp_all add: array_at_def valid_def at_coord_def moved_def)
qed

lemma array_at_ews:
  "array_at m p sh st ews ord \<Longrightarrow> 1 \<le> ews \<Longrightarrow> i \<in> set [0..prod_list sh - 1] \<Longrightarrow>
   moved p (i * ews) = at_coord p st (order_coords ord sh i)"
  by (simp add: array_at_def ews_right_def at_coord_def)

lemma array_at_dims: "array_at m p sh st ews ord \<Longrightarrow> dims_ok sh st"
  by (simp add: array_at_def dims_ok_def)

lemma extent_nth_le:
  assumes "pos_shape sh" "length st = length sh" "nonneg st" "k < length sh"
  shows "(sh ! k - 1) * st ! k \<le> extent sh st"
  using assms
proof (induction sh arbitrary: st k)
  case (Cons d ds)
  then obtain s ss where st: "st = s # ss" by (cases st) auto
  then have ds: "pos_shape ds" "length ss = length ds" "nonneg ss" "0 \<le> s" "0 < d" using Cons.prems by auto
  have e: "extent (d # ds) (s # ss) = (d - 1) * s + extent ds ss" by (simp add: extent_def)
  have "0 \<le> (d - 1) * s" "0 \<le> extent ds ss" using ds extent_nonneg by auto
  then show ?case using Cons.IH [OF ds(1-3)] Cons.prems(4) by (cases k) (force simp: e st)+
qed simp

lemma array_at_fits:
  assumes "array_at m p sh st ews ord"
  shows "fits sh st"
  unfolding fits_def
proof (intro conjI allI impI)
  fix k assume k: "k < length sh"
  have st: "0 \<le> st ! k" "st ! k \<le> 2147483647" "pos_shape sh" "nonneg st" "length st = length sh" "extent sh st \<le> 2147483647"
    using assms k nonneg_nth [of st k] by (auto simp: array_at_def small_shape_def list_all_length)
  then show "\<bar>st ! k\<bar> \<le> 2147483647" by simp
  have "(sh ! k - 1) * st ! k \<le> 2147483647" using extent_nth_le [OF st(3,5,4) k] st(6) by simp
  moreover have "0 \<le> (sh ! k - 1) * st ! k" using st(1,3) pos_shape_nth [of sh k] k by simp
  ultimately show "\<bar>(sh ! k - 1) * st ! k\<bar> \<le> 2147483647" by simp
qed (use assms in \<open>simp add: array_at_def\<close>)

text \<open>Loops over the coordinates of an array in any order.\<close>

lemma coords_loop:
  assumes "array_at m z sh stz ez oz" "separate sh stz"
    and "distinct xs" "bij_betw c (set xs) {d. in_box sh d}"
    and "\<And>x m'. x \<in> set xs \<Longrightarrow> same_but m m' (at_coord z stz ` {d. in_box sh d \<and> d \<noteq> c x}) \<Longrightarrow>
      body x m' = store m' (at_coord z stz (c x)) (v (c x))"
  shows "\<exists>m'. mfor body xs m = Some m' \<and> results m {d. in_box sh d} (at_coord z stz) v m'"
proof -
  have c: "c ` set xs = {d. in_box sh d}" "inj_on c (set xs)" using assms(4) by (auto simp: bij_betw_def)
  have inj: "inj_on (at_coord z stz) {d. in_box sh d}"
    using assms(2) by (auto simp: separate_def inj_on_def at_coord_def moved_def)
  have "\<exists>m'. mfor body xs m = Some m' \<and> results m (set xs) (\<lambda>x. at_coord z stz (c x)) (\<lambda>x. v (c x)) m'"
  proof (rule elementwise)
    show "inj_on (\<lambda>x. at_coord z stz (c x)) (set xs)"
      using comp_inj_on [OF c(2), of "at_coord z stz"] inj c(1) by (simp add: comp_def)
    show "valid m (at_coord z stz (c x))" if "x \<in> set xs" for x
      using array_at_valid(1) [OF assms(1), of "c x"] c(1) that by blast
    fix x m' assume x: "x \<in> set xs" "same_but m m' ((\<lambda>x. at_coord z stz (c x)) ` (set xs - {x}))"
    have "(\<lambda>x. at_coord z stz (c x)) ` (set xs - {x}) \<subseteq> at_coord z stz ` {d. in_box sh d \<and> d \<noteq> c x}"
      using c x(1) by (auto simp: inj_on_def)
    then show "body x m' = store m' (at_coord z stz (c x)) (v (c x))"
      using assms(5) x same_but_mono by blast
  qed (rule assms(3))
  then show ?thesis using c(1) by (auto simp: results_def image_image simp flip: c(1))
qed

lemma load_source:
  assumes "array_at m x sh stx ex ox" "no_clash sh z stz x stx" "in_box sh c"
    and "same_but m m' (at_coord z stz ` {d. in_box sh d \<and> d \<noteq> c})"
  shows "load m' (at_coord x stx c) = Some (cell m (at_coord x stx c))"
proof (rule same_but_load [OF assms(4) array_at_valid(1) [OF assms(1,3)]])
  show "at_coord x stx c \<notin> at_coord z stz ` {d. in_box sh d \<and> d \<noteq> c}"
    using assms(2,3) by (force simp: no_clash_def)
qed

text \<open>Linear index to coordinates to offset, with the coordinates in an array of \<open>MAX_RANK\<close> ints.\<close>

definition offset_ind2subC :: "int \<Rightarrow> int list \<Rightarrow> int list \<Rightarrow> int \<Rightarrow> int \<Rightarrow> int option" where
  "offset_ind2subC rnk shp str base i = do {
     coord \<leftarrow> ind2subC_infer rnk shp i (replicate 32 undefined);
     getOffset base shp str coord rnk }"

lemma offset_ind2subC_eq:
  assumes "small_shape sh" "length st = length sh" "length sh \<le> 32" "nonneg st" "extent sh st \<le> 2147483647"
    and "0 \<le> base" "base \<le> 2147483647" "i \<in> set [0..prod_list sh - 1]"
  shows "offset_ind2subC (int (length sh)) (sh @ ws) (st @ vs) base i = Some (base + dot (c_coords sh i) st)"
proof -
  have pos: "pos_shape sh" using assms(1) by (simp add: small_shape_def)
  have box: "in_box sh (c_coords sh i)" using c_coords_in_box [OF pos] assms(8) by simp
  have "ind2subC_infer (int (length sh)) (sh @ ws) i (replicate 32 undefined) =
      Some (c_coords sh i @ drop (length sh) (replicate 32 undefined))"
    using assms by (intro ind2subC_infer_eq) auto
  moreover have "getOffset base (sh @ ws) (st @ vs) (c_coords sh i @ drop (length sh) (replicate 32 undefined))
      (int (length sh)) = Some (base + dot (c_coords sh i) st)"
    using assms box dot_le_extent [OF box assms(4)] by (intro getOffset_eq) auto
  ultimately show ?thesis by (simp add: offset_ind2subC_def)
qed

end
