(* ===== verification/ReduceLoops.thy ===== *)
theory ReduceLoops
  imports Loops
begin

text \<open>
  Reductions of a whole array to one number (\<open>execScalar\<close> of \<open>include/loops/reduce.h\<close>), sequential and in blocks of
  threads, with the division into blocks of \<open>include/pairwise_util.h\<close>. A reduction is given by the four functions of its
  class; they are arguments.
\<close>

section \<open>The code\<close>

text \<open>
  \<open>startingValue\<close> may read the input, as those of the extrema do, \<open>op\<close> is applied to each element, \<open>update\<close> combines,
  \<open>postProcess\<close> gets the number of elements.
\<close>

record 't reduction =
  startingValue :: "'t buffers \<Rightarrow> position \<Rightarrow> 't option"
  op_of :: "'t \<Rightarrow> 't"
  update_of :: "'t \<Rightarrow> 't \<Rightarrow> 't"
  postProcess :: "'t \<Rightarrow> int \<Rightarrow> 't"

text \<open>Items per chunk, threads, chunks.\<close>

definition BlockInformation :: "runtime \<Rightarrow> int \<Rightarrow> int \<Rightarrow> (int \<times> int \<times> int) option" where
  "BlockInformation R len threshold = do {
     threads \<leftarrow> thread_count R len threshold;
     items \<leftarrow> div64 len threads;
     let items = (if items < 1 then 1 else items);
     chunks \<leftarrow> div64 len items;
     chunks \<leftarrow> (if len smod items > 0 then i64 (chunks + 1) else Some chunks);
     Some (items, threads, chunks) }"

text \<open>\<open>local = update(local, op(x[k]))\<close>.\<close>

definition accumulate :: "'t reduction \<Rightarrow> 't buffers \<Rightarrow> position \<Rightarrow> 't \<Rightarrow> 't option" where
  "accumulate r m p local = do { v \<leftarrow> load m p; Some (update_of r local (op_of r v)) }"

text \<open>
  What the thread \<open>tid\<close> adds up: the chunks \<open>tid\<close>, \<open>tid + threads\<close>, and so on. The inner loop ends with the chunk or with the
  array. The loop for stride 1 shortens the last chunk as well, to the same end.
\<close>

definition chunk_items :: "int \<Rightarrow> int \<Rightarrow> int \<Rightarrow> int \<Rightarrow> int" where
  "chunk_items xEws len items i = (if xEws = 1 \<and> i * items + items \<ge> len then len - i * items else items)"

definition thread_block :: "'t reduction \<Rightarrow> 't buffers \<Rightarrow> position \<Rightarrow> int \<Rightarrow> int \<Rightarrow> int \<times> int \<times> int \<Rightarrow> int \<Rightarrow> 't option" where
  "thread_block r m x xEws len info tid = (case info of (items, threads, chunks) \<Rightarrow> do {
     local \<leftarrow> startingValue r m x;
     q \<leftarrow> mret (\<lambda>i local. do {
         base \<leftarrow> i64 (i * items);
         newOffset \<leftarrow> i64 (base * xEws);
         if base \<ge> len then Some (Inl local)
         else do {
           local \<leftarrow> mfor (\<lambda>j local. do {
               k \<leftarrow> i64 (j * xEws);
               accumulate r m (moved (moved x newOffset) k) local })
             [0..min (chunk_items xEws len items i) (len - base) - 1] local;
           Some (Inr local) } })
       (filter (\<lambda>i. tid \<le> i \<and> (i - tid) mod threads = 0) [0..chunks - 1]) local;
     Some (case q of Inl v \<Rightarrow> v | Inr v \<Rightarrow> v) })"

text \<open>
  The cells of \<open>blocks\<close> are written by the threads that the runtime starts. One of a thread that was not started is
  uninitialised, and reading it is an error.
\<close>

definition reduce_strided :: "runtime \<Rightarrow> 't reduction \<Rightarrow> 't buffers \<Rightarrow> position \<Rightarrow> int \<Rightarrow> int \<Rightarrow> 't option" where
  "reduce_strided R r m x xEws len = do {
     startingVal \<leftarrow> startingValue r m x;
     if len < elementwiseThreshold R then do {
       local \<leftarrow> startingValue r m x;
       local \<leftarrow> mfor (\<lambda>i local. do { k \<leftarrow> i64 (i * xEws); accumulate r m (moved x k) local }) [0..len - 1] local;
       Some (postProcess r local len) }
     else do {
       info \<leftarrow> BlockInformation R len (elementwiseThreshold R);
       blocks \<leftarrow> those (map (thread_block r m x xEws len info) [0..omp_team R (fst (snd info)) - 1]);
       finalVal \<leftarrow> mfor (\<lambda>i v. do { b \<leftarrow> rd blocks i; Some (update_of r v b) }) [0..fst (snd info) - 1] startingVal;
       Some (postProcess r finalVal len) } }"

definition reduce_scalar :: "runtime \<Rightarrow> 't reduction \<Rightarrow> 't buffers \<Rightarrow> position \<Rightarrow> int list \<Rightarrow> 't option" where
  "reduce_scalar R r m x xShapeInfo = do {
     len \<leftarrow> shape_length xShapeInfo;
     xEws \<leftarrow> shape_ews xShapeInfo;
     if xEws \<ge> 1 then reduce_strided R r m x xEws len
     else do {
       xShape \<leftarrow> shapeOf xShapeInfo;
       xStride \<leftarrow> shape_stride xShapeInfo;
       start \<leftarrow> startingValue r m x;
       rnk \<leftarrow> shape_rank xShapeInfo;
       it \<leftarrow> PrepareOneRawArrayIter rnk xShape (snd x) xStride (replicate 32 undefined) (replicate 32 undefined);
       v \<leftarrow> raw_iterate (\<lambda>ps. case ps of [p] \<Rightarrow> accumulate r m (fst x, p) | _ \<Rightarrow> \<lambda>_. None) it start;
       Some (postProcess r v len) } }"

section \<open>Reductions in any order\<close>

text \<open>
  The laws under which blocks and orders do not matter: \<open>update\<close> is associative and commutative, and the starting
  value, which every block starts from, counts only once. They hold for sums, products and extrema of integers; for
  floating point numbers they hold up to rounding.
\<close>

definition reduction_laws :: "'t reduction \<Rightarrow> 't \<Rightarrow> bool" where
  "reduction_laws r s \<longleftrightarrow>
     (\<forall>a b c. update_of r (update_of r a b) c = update_of r a (update_of r b c)) \<and>
     (\<forall>a b. update_of r a b = update_of r b a) \<and> update_of r s s = s"

definition reduced :: "'t reduction \<Rightarrow> 't list \<Rightarrow> 't \<Rightarrow> 't" where
  "reduced r vs s = fold (\<lambda>v a. update_of r a (op_of r v)) vs s"

lemma reduced_simps [simp]:
  "reduced r [] s = s" "reduced r (v # vs) s = reduced r vs (update_of r s (op_of r v))"
  "reduced r (us @ vs) s = reduced r vs (reduced r us s)"
  by (simp_all add: reduced_def)

lemma reduced_perm:
  assumes "reduction_laws r s0" "mset us = mset vs"
  shows "reduced r us s = reduced r vs s"
  unfolding reduced_def
proof (rule fold_permuted_eq [where P = "\<lambda>_. True"])
  fix a b :: 'a and z
  assume "a \<in> set us" "b \<in> set us"
  show "update_of r (update_of r z (op_of r a)) (op_of r b) = update_of r (update_of r z (op_of r b)) (op_of r a)"
    using assms(1) unfolding reduction_laws_def by metis
qed (use assms(2) in auto)

lemma update_reduced:
  assumes "reduction_laws r s0"
  shows "update_of r a (reduced r vs b) = reduced r vs (update_of r a b)"
proof (induction vs arbitrary: b)
  case (Cons v vs)
  have "update_of r a (update_of r b (op_of r v)) = update_of r (update_of r a b) (op_of r v)"
    using assms unfolding reduction_laws_def by metis
  then show ?case using Cons by simp
qed simp

text \<open>Combining the blocks gives the reduction of all elements.\<close>

lemma combine_blocks:
  assumes "reduction_laws r s"
  shows "fold (\<lambda>b v. update_of r v b) (map (\<lambda>vs. reduced r vs s) vss) (reduced r us s) = reduced r (us @ concat vss) s"
proof (induction vss arbitrary: us)
  case (Cons vs vss)
  have "update_of r (reduced r us s) (reduced r vs s) = reduced r vs (update_of r s (reduced r us s))"
    using update_reduced [OF assms] assms unfolding reduction_laws_def by metis
  also have "update_of r s (reduced r us s) = reduced r us s"
    using update_reduced [OF assms, of s us s] assms by (simp add: reduction_laws_def)
  finally have "update_of r (reduced r us s) (reduced r vs s) = reduced r (us @ vs) s" by simp
  then show ?case using Cons [of "us @ vs"] by simp
qed simp

lemma accumulate_loop:
  assumes "\<And>i. i \<in> set xs \<Longrightarrow> load m (p i) = Some (v i)" "\<And>i s. i \<in> set xs \<Longrightarrow> body i s = accumulate r m (p i) s"
  shows "mfor body xs s = Some (reduced r (map v xs) s)"
  using assms by (induction xs arbitrary: s) (auto simp: accumulate_def)

section \<open>Blocks of threads\<close>

lemma distinct_concat_map:
  assumes "distinct xs" "\<And>x. x \<in> set xs \<Longrightarrow> distinct (f x)"
    and "\<And>x y k. x \<in> set xs \<Longrightarrow> y \<in> set xs \<Longrightarrow> k \<in> set (f x) \<Longrightarrow> k \<in> set (f y) \<Longrightarrow> x = y"
  shows "distinct (concat (map f xs))"
  using assms
proof (induction xs)
  case (Cons x xs)
  have "distinct (concat (map f xs))"
    using Cons.prems by (intro Cons.IH) auto
  moreover have "set (f x) \<inter> set (concat (map f xs)) = {}"
  proof (rule ccontr)
    assume "set (f x) \<inter> set (concat (map f xs)) \<noteq> {}"
    then obtain k y where k: "k \<in> set (f x)" "y \<in> set xs" "k \<in> set (f y)" by auto
    then have "x = y" using Cons.prems(3) [of x y k] by simp
    then show False using Cons.prems(1) k(2) by simp
  qed
  ultimately show ?case using Cons.prems(2) by simp
qed simp

lemma mret_Inr_mfor:
  "(\<And>x s. x \<in> set xs \<Longrightarrow> f x s = map_option Inr (g x s)) \<Longrightarrow> mret f xs s = map_option Inr (mfor g xs s)"
proof (induction xs arbitrary: s)
  case (Cons x xs)
  have "mret f xs s' = map_option Inr (mfor g xs s')" for s' using Cons by simp
  then show ?case using Cons.prems [of x s] by (cases "g x s") simp_all
qed simp

lemma BlockInformation_ok:
  assumes "runtime_ok R" "1 \<le> n" "n \<le> 2147483647" "0 < t"
  shows "\<exists>items threads chunks. BlockInformation R n t = Some (items, threads, chunks) \<and> 1 \<le> items \<and> items \<le> n \<and>
    1 \<le> threads \<and> 0 \<le> chunks \<and> n \<le> items * chunks \<and> items * (chunks - 1) < n \<and> omp_team R threads = threads"
proof -
  obtain k where k: "thread_count R n t = Some k" "1 \<le> k" "k \<le> 2147483647" "omp_team R k = k"
    using thread_count_ok [OF assms(1) _ assms(3,4)] assms(2) by auto
  define items where "items = (if n div k < 1 then 1 else n div k)"
  have q: "0 \<le> n div k" "n div k \<le> n" using assms(2) k(2) by (simp_all add: pos_imp_zdiv_nonneg_iff div_le_self)
  then have items: "1 \<le> items" "items \<le> n" using assms(2) by (auto simp: items_def)
  define c where "c = n div items"
  have c: "0 \<le> c" "c \<le> n" using assms(2) items by (simp_all add: c_def pos_imp_zdiv_nonneg_iff div_le_self)
  have n: "n = items * c + n mod items" "0 \<le> n mod items" "n mod items < items" using items by (simp_all add: c_def)
  define chunks where "chunks = (if n mod items > 0 then c + 1 else c)"
  have "BlockInformation R n t = Some (items, k, chunks)"
    using k q items c assms(2,3)
    by (simp add: BlockInformation_def div64_nonneg smod_nonneg i64_def items_def [symmetric] c_def [symmetric] chunks_def)
  moreover have "n \<le> items * chunks" "items * (chunks - 1) < n" "0 \<le> chunks"
  proof -
    have e: "items * chunks = items * c + (if n mod items > 0 then items else 0)"
      "items * (chunks - 1) = items * c + (if n mod items > 0 then 0 else - items)"
      by (simp_all add: chunks_def algebra_simps)
    show "n \<le> items * chunks" unfolding e(1) using n(1-3)
      by (cases "0 < n mod items"; simp only: if_True if_False; linarith)
    show "items * (chunks - 1) < n" unfolding e(2) using n(1,2) items(1)
      by (cases "0 < n mod items"; simp only: if_True if_False; linarith)
    show "0 \<le> chunks" using c by (simp add: chunks_def)
  qed
  ultimately show ?thesis using items k(2,4) by blast
qed

text \<open>The indexes that a thread adds up.\<close>

definition chunk_indexes :: "int \<Rightarrow> int \<Rightarrow> int \<Rightarrow> int list" where
  "chunk_indexes n items i = [i * items..min (i * items + items) n - 1]"

definition thread_indexes :: "int \<Rightarrow> int \<Rightarrow> int \<Rightarrow> int \<Rightarrow> int \<Rightarrow> int list" where
  "thread_indexes n items threads chunks tid = concat (map (chunk_indexes n items)
     (filter (\<lambda>i. tid \<le> i \<and> (i - tid) mod threads = 0) [0..chunks - 1]))"

lemma chunk_of: "k \<in> set (chunk_indexes n items i) \<Longrightarrow> 0 < items \<Longrightarrow> k div items = i"
proof -
  assume k: "k \<in> set (chunk_indexes n items i)" and items: "0 < items"
  then have "k = i * items + (k - i * items)" "0 \<le> k - i * items" "k - i * items < items"
    by (auto simp: chunk_indexes_def)
  then show ?thesis by (metis add.commute add.right_neutral div_mult_self1 div_pos_pos_trivial items less_irrefl)
qed

lemma thread_of: "tid \<le> i \<Longrightarrow> (i - tid) mod threads = 0 \<Longrightarrow> 0 \<le> tid \<Longrightarrow> tid < threads \<Longrightarrow> i mod threads = tid" for i :: int
  by (metis add_0 diff_add_cancel mod_add_left_eq mod_pos_pos_trivial)

lemma thread_indexes_all:
  assumes "1 \<le> items" "1 \<le> threads" "0 \<le> chunks" "n \<le> items * chunks"
  shows "distinct (concat (map (thread_indexes n items threads chunks) [0..threads - 1])) \<and>
    set (concat (map (thread_indexes n items threads chunks) [0..threads - 1])) = set [0..n - 1]"
proof
  have inj: "i = k div items \<and> i mod threads = tid"
    if "k \<in> set (chunk_indexes n items i)" "i \<in> set (filter (\<lambda>i. tid \<le> i \<and> (i - tid) mod threads = 0) [0..chunks - 1])"
      "tid \<in> set [0..threads - 1]" for tid i k
    using chunk_of [OF that(1)] thread_of [of tid i threads] that(2,3) assms(1) by auto
  show "distinct (concat (map (thread_indexes n items threads chunks) [0..threads - 1]))"
  proof (rule distinct_concat_map)
    show "distinct (thread_indexes n items threads chunks tid)" for tid
      unfolding thread_indexes_def
    proof (rule distinct_concat_map)
      fix x y k assume "k \<in> set (chunk_indexes n items x)" "k \<in> set (chunk_indexes n items y)"
      then show "x = y" using chunk_of [of k n items x] chunk_of [of k n items y] assms(1) by simp
    qed (simp_all add: chunk_indexes_def)
    fix s t k assume st: "s \<in> set [0..threads - 1]" "t \<in> set [0..threads - 1]"
      and k: "k \<in> set (thread_indexes n items threads chunks s)" "k \<in> set (thread_indexes n items threads chunks t)"
    obtain i where i: "k \<in> set (chunk_indexes n items i)"
        "i \<in> set (filter (\<lambda>i. s \<le> i \<and> (i - s) mod threads = 0) [0..chunks - 1])"
      using k(1) by (auto simp: thread_indexes_def)
    obtain j where j: "k \<in> set (chunk_indexes n items j)"
        "j \<in> set (filter (\<lambda>i. t \<le> i \<and> (i - t) mod threads = 0) [0..chunks - 1])"
      using k(2) by (auto simp: thread_indexes_def)
    show "s = t" using inj [OF i st(1)] inj [OF j st(2)] by metis
  qed simp
  show "set (concat (map (thread_indexes n items threads chunks) [0..threads - 1])) = set [0..n - 1]"
  proof (intro equalityI subsetI)
    fix k assume "k \<in> set (concat (map (thread_indexes n items threads chunks) [0..threads - 1]))"
    then obtain i where i: "0 \<le> i" "k \<in> set (chunk_indexes n items i)" by (auto simp: thread_indexes_def)
    moreover have "0 \<le> i * items" using i(1) assms(1) by simp
    ultimately have "0 \<le> k" "k < n" unfolding chunk_indexes_def set_upto atLeastAtMost_iff by linarith+
    then show "k \<in> set [0..n - 1]" by simp
  next
    fix k assume "k \<in> set [0..n - 1]"
    then have k: "0 \<le> k" "k < n" by simp_all
    define i where "i = k div items"
    define tid where "tid = i mod threads"
    have ki: "k = i * items + k mod items" "0 \<le> k mod items" "k mod items < items" using assms(1) by (simp_all add: i_def)
    have i: "0 \<le> i" "i < chunks"
    proof -
      show "0 \<le> i" using k(1) assms(1) by (simp add: i_def pos_imp_zdiv_nonneg_iff)
      have "k < items * chunks" using k(2) assms(4) by simp
      then show "i < chunks" using assms(1) by (simp add: i_def div_lt_of_lt_mult mult.commute)
    qed
    have tid: "0 \<le> tid" "tid < threads" "tid \<le> i" "(i - tid) mod threads = 0"
      using assms(2) i(1) by (simp_all add: tid_def zmod_le_nonneg_dividend minus_mod_eq_mult_div)
    have "k \<in> set (chunk_indexes n items i)" using ki k(2) by (auto simp: chunk_indexes_def)
    moreover have "i \<in> set (filter (\<lambda>i. tid \<le> i \<and> (i - tid) mod threads = 0) [0..chunks - 1])" using i tid by simp
    ultimately have "k \<in> set (thread_indexes n items threads chunks tid)"
      unfolding thread_indexes_def set_concat set_map by blast
    then show "k \<in> set (concat (map (thread_indexes n items threads chunks) [0..threads - 1]))" using tid by auto
  qed
qed

section \<open>The result\<close>

lemma map_add_upto: "map (\<lambda>j. a + j) [i..j] = [a + i..a + j]"
  by (auto intro!: nth_equalityI simp: nth_upto)

lemma mset_distinct_eq: "distinct xs \<Longrightarrow> distinct ys \<Longrightarrow> set xs = set ys \<Longrightarrow> mset xs = mset ys"
  using set_eq_iff_mset_eq_distinct by blast

lemma thread_block_eq:
  assumes "startingValue r m x = Some s" "1 \<le> items" "1 \<le> threads" "n \<le> items * chunks" "items * (chunks - 1) < n"
    and "n \<le> 2147483647" "0 \<le> ews" "ews \<le> 2147483647" "0 \<le> tid"
    and "\<And>k. k \<in> set [0..n - 1] \<Longrightarrow> load m (moved x (k * ews)) = Some (v k)"
  shows "thread_block r m x ews n (items, threads, chunks) tid =
    Some (reduced r (map v (thread_indexes n items threads chunks tid)) s)"
proof -
  let ?L = "filter (\<lambda>i. tid \<le> i \<and> (i - tid) mod threads = 0) [0..chunks - 1]"
  have wide: "i64 (k * ews) = Some (k * ews)" if "0 \<le> k" "k \<le> 2147483647" for k
  proof -
    have "0 \<le> k * ews" "k * ews \<le> 2147483647 * 2147483647"
      using that assms(7,8) mult_mono [of k 2147483647 ews 2147483647] by auto
    then show ?thesis by (simp add: i64_def)
  qed
  have base: "0 \<le> i * items" "i * items < n" if "i \<in> set ?L" for i
  proof -
    have i: "0 \<le> i" "i \<le> chunks - 1" using that assms(9) by auto
    then show "0 \<le> i * items" using assms(2) by simp
    have "items * i \<le> items * (chunks - 1)" using i assms(2) by (intro mult_left_mono) auto
    then show "i * items < n" using assms(5) by (simp add: mult.commute)
  qed
  define step where "step i local = mfor (\<lambda>j local. do {
               k \<leftarrow> i64 (j * ews);
               accumulate r m (moved (moved x (i * items * ews)) k) local })
             [0..min (chunk_items ews n items i) (n - i * items) - 1] local" for i local
  have step: "step i local = Some (reduced r (map v (chunk_indexes n items i)) local)" if i: "i \<in> set ?L" for i local
  proof -
    have e: "min (chunk_items ews n items i) (n - i * items) = min items (n - i * items)"
      by (auto simp: chunk_items_def)
    have "step i local = Some (reduced r (map (\<lambda>j. v (i * items + j)) [0..min items (n - i * items) - 1]) local)"
      unfolding step_def e
    proof (rule accumulate_loop)
      fix j assume j: "j \<in> set [0..min items (n - i * items) - 1]"
      have "load m (moved x ((i * items + j) * ews)) = Some (v (i * items + j))"
        using base [OF i] j by (intro assms(10)) auto
      then show "load m (moved x (i * items * ews + j * ews)) = Some (v (i * items + j))" by (simp add: algebra_simps)
      fix s :: 'a
      show "do { k \<leftarrow> i64 (j * ews); accumulate r m (moved (moved x (i * items * ews)) k) s } =
          accumulate r m (moved x (i * items * ews + j * ews)) s"
        using wide [of j] j base [OF i] assms(6) by (simp add: moved_def add.assoc)
    qed
    moreover have "map (\<lambda>j. i * items + j) [0..min items (n - i * items) - 1] = chunk_indexes n items i"
      using map_add_upto [of "i * items" 0 "min items (n - i * items) - 1"]
      by (simp add: chunk_indexes_def min_add_distrib_right algebra_simps)
    ultimately show ?thesis by (metis (mono_tags, lifting) comp_def list.map_comp map_eq_conv)
  qed
  have "mret (\<lambda>i local. do {
         base \<leftarrow> i64 (i * items);
         newOffset \<leftarrow> i64 (base * ews);
         if base \<ge> n then Some (Inl local)
         else do {
           local \<leftarrow> mfor (\<lambda>j local. do {
               k \<leftarrow> i64 (j * ews);
               accumulate r m (moved (moved x newOffset) k) local })
             [0..min (chunk_items ews n items i) (n - base) - 1] local;
           Some (Inr local) } }) ?L s = map_option Inr (mfor step ?L s)"
  proof (rule mret_Inr_mfor)
    fix i local assume i: "i \<in> set ?L"
    have "i64 (i * items) = Some (i * items)" using base [OF i] assms(6) by (simp add: i64_def)
    moreover have "i64 (i * items * ews) = Some (i * items * ews)" using wide base [OF i] assms(6) by simp
    ultimately show "do {
         base \<leftarrow> i64 (i * items);
         newOffset \<leftarrow> i64 (base * ews);
         if base \<ge> n then Some (Inl local)
         else do {
           local \<leftarrow> mfor (\<lambda>j local. do {
               k \<leftarrow> i64 (j * ews);
               accumulate r m (moved (moved x newOffset) k) local })
             [0..min (chunk_items ews n items i) (n - base) - 1] local;
           Some (Inr local) } } = map_option Inr (step i local)"
      using base [OF i] step [OF i, of local] by (simp add: step_def)
  qed
  moreover have "mfor step xs local = Some (reduced r (map v (concat (map (chunk_indexes n items) xs))) local)"
    if "set xs \<subseteq> set ?L" for xs local
    using that step by (induction xs arbitrary: local) auto
  ultimately show ?thesis by (simp add: thread_block_def assms(1) thread_indexes_def)
qed

lemma reduce_strided_ok:
  assumes "runtime_ok R" "reduction_laws r s" "startingValue r m x = Some s"
    and "1 \<le> n" "n \<le> 2147483647" "1 \<le> ews" "ews \<le> 2147483647"
    and "\<And>k. k \<in> set [0..n - 1] \<Longrightarrow> load m (moved x (k * ews)) = Some (v k)"
  shows "reduce_strided R r m x ews n = Some (postProcess r (reduced r (map v [0..n - 1]) s) n)"
proof (cases "n < elementwiseThreshold R")
  case True
  have wide: "i64 (k * ews) = Some (k * ews)" if "k \<in> set [0..n - 1]" for k
  proof -
    have "0 \<le> k * ews" "k * ews \<le> 2147483647 * 2147483647"
      using that assms(5-7) mult_mono [of k 2147483647 ews 2147483647] by auto
    then show ?thesis by (simp add: i64_def)
  qed
  have "mfor (\<lambda>i local. do { k \<leftarrow> i64 (i * ews); accumulate r m (moved x k) local }) [0..n - 1] s =
      Some (reduced r (map v [0..n - 1]) s)"
    using assms(8) wide by (intro accumulate_loop [of _ m "\<lambda>k. moved x (k * ews)"]) auto
  then show ?thesis using True by (simp add: reduce_strided_def assms(3))
next
  case False
  obtain items threads chunks where info: "BlockInformation R n (elementwiseThreshold R) = Some (items, threads, chunks)"
    "1 \<le> items" "1 \<le> threads" "0 \<le> chunks" "n \<le> items * chunks" "items * (chunks - 1) < n"
    "omp_team R threads = threads"
    using BlockInformation_ok [OF assms(1,4,5), of "elementwiseThreshold R"] assms(1) by (auto simp: runtime_ok_def)
  let ?block = "\<lambda>tid. reduced r (map v (thread_indexes n items threads chunks tid)) s"
  have "those (map (thread_block r m x ews n (items, threads, chunks)) [0..threads - 1]) = Some (map ?block [0..threads - 1])"
    using assms info by (intro those_map_Some thread_block_eq) auto
  moreover have "mfor (\<lambda>i a. do { b \<leftarrow> rd (map ?block [0..threads - 1]) i; Some (update_of r a b) }) [0..threads - 1] s =
      Some (fold (\<lambda>b a. update_of r a b) (map ?block [0..threads - 1]) s)"
  proof -
    have "mfor (\<lambda>i a. do { b \<leftarrow> rd (map ?block [0..threads - 1]) i; Some (update_of r a b) }) xs a =
        Some (fold (\<lambda>b a. update_of r a b) (map ?block xs) a)" if "set xs \<subseteq> set [0..threads - 1]" for xs a
      using that by (induction xs arbitrary: a) (auto simp: rd_Some nth_upto)
    then show ?thesis by simp
  qed
  moreover have "fold (\<lambda>b a. update_of r a b) (map ?block [0..threads - 1]) s = reduced r (map v [0..n - 1]) s"
  proof -
    let ?parts = "map (thread_indexes n items threads chunks) [0..threads - 1]"
    have "fold (\<lambda>b a. update_of r a b) (map ?block [0..threads - 1]) s = reduced r (map v (concat ?parts)) s"
      using combine_blocks [OF assms(2), of "map (map v) ?parts" "[]"] by (simp add: comp_def map_concat)
    also have "\<dots> = reduced r (map v [0..n - 1]) s"
    proof (rule reduced_perm [OF assms(2)])
      have "mset (concat ?parts) = mset [0..n - 1]"
        using thread_indexes_all [OF info(2-5)] by (intro mset_distinct_eq) simp_all
      then show "mset (map v (concat ?parts)) = mset (map v [0..n - 1])" by (metis mset_map)
    qed
    finally show ?thesis .
  qed
  ultimately show ?thesis using False by (simp add: reduce_strided_def assms(3) info(1,7))
qed

text \<open>C6: Reducing an array to a number gives the reduction of its elements in row-major order, whatever its strides, its
  order and element-wise stride, the number of threads and the blocks they take, when the operation of the reduction is
  associative and commutative and its starting value counts once.\<close>

theorem reduce_scalar_correct:
  assumes "array_at m x sh st ews ord" "runtime_ok R" "reduction_laws r s" "startingValue r m x = Some s"
  shows "reduce_scalar R r m x (mk_info sh st off ews ord) =
    Some (postProcess r (reduced r (map (\<lambda>i. cell m (at_coord x st (c_coords sh i))) [0..prod_list sh - 1]) s) (prod_list sh))"
proof -
  let ?n = "prod_list sh" and ?elem = "\<lambda>c. cell m (at_coord x st c)"
  have sh: "small_shape sh" "pos_shape sh" "?n \<le> 2147483647" "length sh \<le> 32" "length st = length sh" "ews \<le> 2147483647"
    using assms(1) by (simp_all add: array_at_def small_shape_def)
  have n: "1 \<le> ?n" using prod_list_ge1 [OF sh(2)] .
  note dims = array_at_dims [OF assms(1)]
  have elem: "load m (at_coord x st c) = Some (?elem c)" if "in_box sh c" for c
    using array_at_valid(1) [OF assms(1) that] by (rule load_eq)
  have perm: "reduced r (map ?elem cs) s = reduced r (map (\<lambda>i. ?elem (c_coords sh i)) [0..?n - 1]) s"
    if "distinct cs" "set cs = {c. in_box sh c}" for cs
  proof -
    have "mset cs = mset (map (c_coords sh) [0..?n - 1])"
      using that order_coords_bij [OF sh(2), of 99]
      by (intro mset_distinct_eq) (auto simp: distinct_map bij_betw_def order_coords_def [abs_def])
    then have "mset (map ?elem cs) = mset (map ?elem (map (c_coords sh) [0..?n - 1]))" by (simp only: mset_map)
    then have "mset (map ?elem cs) = mset (map (\<lambda>i. ?elem (c_coords sh i)) [0..?n - 1])" by (simp only: map_map comp_def)
    then show ?thesis by (rule reduced_perm [OF assms(3)])
  qed
  show ?thesis
  proof (cases "ews \<ge> 1")
    case True
    have "reduce_strided R r m x ews ?n = Some (postProcess r (reduced r (map (\<lambda>i. ?elem (order_coords ord sh i)) [0..?n - 1]) s) ?n)"
      using array_at_ews [OF assms(1) True] elem order_coords_in_box [OF sh(2)]
      by (intro reduce_strided_ok [OF assms(2-4) n sh(3) True sh(6)]) simp
    moreover have "reduced r (map ?elem (map (order_coords ord sh) [0..?n - 1])) s =
        reduced r (map (\<lambda>i. ?elem (c_coords sh i)) [0..?n - 1]) s"
      using order_coords_bij [OF sh(2), of ord] by (intro perm) (auto simp: distinct_map bij_betw_def)
    ultimately show ?thesis using True dims sh by (simp add: reduce_scalar_def info_simps comp_def)
  next
    case False
    let ?body = "\<lambda>ps. case ps of [p] \<Rightarrow> accumulate r m (fst x, p) | _ \<Rightarrow> \<lambda>_. None"
    have "raw_operands sh (sh @ st @ [off, ews, ord]) [snd x] [st @ [off, ews, ord]] (replicate 32 undefined) [replicate 32 undefined]"
      using sh array_at_fits [OF assms(1)] by (auto simp: raw_operands_def fits_def nth_append)
    from PrepareOneRawArrayIter_iterates [OF this, where 's = 'a]
    obtain it where it: "PrepareOneRawArrayIter (int (length sh)) (sh @ st @ [off, ews, ord]) (snd x) (st @ [off, ews, ord])
        (replicate 32 undefined) (replicate 32 undefined) = Some it"
      "raw_iterate ?body it s = mfor (\<lambda>c. ?body (at_coords [snd x] [st @ [off, ews, ord]] c)) (visit_order sh []) s"
      by blast
    have "mfor (\<lambda>c. ?body (at_coords [snd x] [st @ [off, ews, ord]] c)) (visit_order sh []) s =
        Some (reduced r (map ?elem (visit_order sh [])) s)"
    proof (rule accumulate_loop [of _ m "at_coord x st"])
      fix c a assume c: "c \<in> set (visit_order sh [])"
      then show "load m (at_coord x st c) = Some (?elem c)" using visit_order_set [OF sh(2)] elem by blast
      have "length c = length sh" using c by (auto simp: visit_order_def)
      then have "dot c (st @ [off, ews, ord]) = dot c st" using sh(5) dot_append [of c st "[]"] by simp
      then show "?body (at_coords [snd x] [st @ [off, ews, ord]] c) a = accumulate r m (at_coord x st c) a"
        by (simp add: at_coords_def at_coord_def moved_def)
    qed
    moreover have "reduced r (map ?elem (visit_order sh [])) s = reduced r (map (\<lambda>i. ?elem (c_coords sh i)) [0..?n - 1]) s"
      by (rule perm [OF distinct_visit_order [OF sh(2)] visit_order_set [OF sh(2)]])
    ultimately show ?thesis using False dims sh it assms(4) by (simp add: reduce_scalar_def info_simps)
  qed
qed

text \<open>The sum of a transposed matrix on four threads, with blocks of one element.\<close>

theorem reduce_scalar_correct_witness:
  "reduce_scalar \<lparr>omp_max_threads = 4, omp_team = \<lambda>k. k, omp_schedule = rev, elementwiseThreshold = 1, tadThreshold = 1\<rparr>
     \<lparr>startingValue = \<lambda>_ _. Some 0, op_of = \<lambda>v. v, update_of = (+), postProcess = \<lambda>v _. v\<rparr>
     ((\<lambda>_. [])(0 := [1, 2, 3, 4, 5, 6 :: int])) (0, 0) (mk_info [2, 3] [1, 2] 0 1 102) = Some 21"
proof -
  let ?R = "\<lparr>omp_max_threads = 4, omp_team = \<lambda>k. k, omp_schedule = rev, elementwiseThreshold = 1, tadThreshold = 1\<rparr>"
  let ?r = "\<lparr>startingValue = \<lambda>_ _. Some 0, op_of = \<lambda>v. v, update_of = (+), postProcess = \<lambda>v _. v\<rparr> :: int reduction"
  let ?m = "(\<lambda>_. [])(0 := [1, 2, 3, 4, 5, 6 :: int])"
  have "runtime_ok ?R" by (simp add: runtime_ok_def)
  moreover have "array_at ?m (0, 0) [2, 3] [1, 2] 1 102"
    by (simp add: array_at_def ews_right_def small_shape_def extent_def order_coords_def f_coords_def upto.simps)
  moreover have "reduction_laws ?r 0" by (simp add: reduction_laws_def)
  ultimately have "reduce_scalar ?R ?r ?m (0, 0) (mk_info [2, 3] [1, 2] 0 1 102) =
      Some (postProcess ?r (reduced ?r (map (\<lambda>i. cell ?m (at_coord (0, 0) [1, 2] (c_coords [2, 3] i))) [0..prod_list [2, 3] - 1]) 0)
        (prod_list [2, 3]))"
    by (intro reduce_scalar_correct) simp_all
  then show ?thesis by (simp add: upto.simps cell_def at_coord_def moved_def)
qed

end
