(* ===== verification/PairwiseLoops.thy ===== *)
theory PairwiseLoops
  imports Loops
begin

text \<open>
  Pairwise transforms (\<open>include/loops/pairwise_transform.h\<close>): every element of the result is an operation on the
  elements of two arrays. \<open>exec\<close> chooses between five loops by shapes, orders and element-wise strides. The operation,
  with its extra parameters, is an argument: \<open>OpType::op\<close> of the source is a pure function of two elements.
\<close>

section \<open>The code\<close>

text \<open>\<open>result[k] = OpType::op(dx[i], y[j], extraParams)\<close>.\<close>

definition op_cell :: "('t \<Rightarrow> 't \<Rightarrow> 't) \<Rightarrow> position \<Rightarrow> position \<Rightarrow> position \<Rightarrow> 't buffers \<Rightarrow> 't buffers option" where
  "op_cell opf dx y result m = do {
     a \<leftarrow> load m dx;
     b \<leftarrow> load m y;
     store m result (opf a b) }"

definition pairwise_indexes :: "runtime \<Rightarrow> ('t \<Rightarrow> 't \<Rightarrow> 't) \<Rightarrow> position \<Rightarrow> int list \<Rightarrow> position \<Rightarrow> position \<Rightarrow>
    int list \<Rightarrow> int list \<Rightarrow> int list \<Rightarrow> 't buffers \<Rightarrow> 't buffers option" where
  "pairwise_indexes R opf dx xShapeBuffer y result indexes yIndexes resultIndexes m = do {
     n \<leftarrow> shape_length xShapeBuffer;
     parallel_for R (\<lambda>i m. do {
       k \<leftarrow> rd resultIndexes i;
       x \<leftarrow> rd indexes i;
       j \<leftarrow> rd yIndexes i;
       op_cell opf (moved dx x) (moved y j) (moved result k) m }) n m }"

definition pairwise_strided :: "runtime \<Rightarrow> ('t \<Rightarrow> 't \<Rightarrow> 't) \<Rightarrow> position \<Rightarrow> int \<Rightarrow> position \<Rightarrow> int \<Rightarrow> position \<Rightarrow> int \<Rightarrow>
    int \<Rightarrow> 't buffers \<Rightarrow> 't buffers option" where
  "pairwise_strided R opf dx xStride y yStride result resultStride n m = do {
     threads \<leftarrow> thread_count R n (elementwiseThreshold R);
     q \<leftarrow> div64 n threads;
     span \<leftarrow> i64 (q + 8);
     let span = to_int span;
     if xStride = 1 \<and> yStride = 1 \<and> resultStride = 1 then
       (if threads > 1
        then thread_region R (\<lambda>i. op_cell opf (moved dx i) (moved y i) (moved result i)) span threads n m
        else parallel_for R (\<lambda>i. op_cell opf (moved dx i) (moved y i) (moved result i)) n m)
     else do {
       let body = (\<lambda>i m. do {
         k \<leftarrow> i64 (i * resultStride);
         x \<leftarrow> i64 (i * xStride);
         j \<leftarrow> i64 (i * yStride);
         op_cell opf (moved dx x) (moved y j) (moved result k) m });
       if threads > 1 then thread_region R body span threads n m else parallel_for R body n m } }"

text \<open>The branch for a scalar \<open>y\<close>.\<close>

definition pairwise_scalar :: "runtime \<Rightarrow> ('t \<Rightarrow> 't \<Rightarrow> 't) \<Rightarrow> position \<Rightarrow> int list \<Rightarrow> position \<Rightarrow> position \<Rightarrow> int list \<Rightarrow>
    't buffers \<Rightarrow> 't buffers option" where
  "pairwise_scalar R opf dx xShapeBuffer y result resultShapeBuffer m = do {
     n \<leftarrow> shape_length xShapeBuffer;
     xEws \<leftarrow> shape_ews xShapeBuffer;
     resultEws \<leftarrow> shape_ews resultShapeBuffer;
     if xEws = 1 \<and> resultEws = 1 then
       mfor (\<lambda>e. op_cell opf (moved dx e) y (moved result e)) [0..n - 1] m
     else do {
       xRank \<leftarrow> shape_rank xShapeBuffer;
       resultRank \<leftarrow> shape_rank resultShapeBuffer;
       xShape \<leftarrow> shapeOf xShapeBuffer;
       xStride \<leftarrow> shape_stride xShapeBuffer;
       resultShape \<leftarrow> shapeOf resultShapeBuffer;
       resultStride \<leftarrow> shape_stride resultShapeBuffer;
       _ \<leftarrow> thread_count R n (elementwiseThreshold R);
       parallel_for R (\<lambda>i m. do {
         xOffset \<leftarrow> offset_ind2subC xRank xShape xStride 0 i;
         resultOffset \<leftarrow> offset_ind2subC resultRank resultShape resultStride 0 i;
         op_cell opf (moved dx xOffset) y (moved result resultOffset) m }) n m } }"

text \<open>The branch for equal shapes: the first axis in parallel, the others by a strided loop.\<close>

definition pairwise_rows :: "runtime \<Rightarrow> ('t \<Rightarrow> 't \<Rightarrow> 't) \<Rightarrow> position \<Rightarrow> int list \<Rightarrow> position \<Rightarrow> int list \<Rightarrow> position \<Rightarrow> int list \<Rightarrow>
    't buffers \<Rightarrow> 't buffers option" where
  "pairwise_rows R opf dx xShapeBuffer y yShapeBuffer result resultShapeBuffer m = do {
     rnk \<leftarrow> shape_rank xShapeBuffer;
     xShape \<leftarrow> shapeOf xShapeBuffer;
     xStride \<leftarrow> shape_stride xShapeBuffer;
     yStride \<leftarrow> shape_stride yShapeBuffer;
     resultStride \<leftarrow> shape_stride resultShapeBuffer;
     n \<leftarrow> rd xShape 0;
     _ \<leftarrow> thread_count R n (tadThreshold R);
     parallel_for R (\<lambda>i m. do {
       xs \<leftarrow> rd xStride 0;
       x \<leftarrow> i64 (xs * i);
       ys \<leftarrow> rd yStride 0;
       j \<leftarrow> i64 (ys * i);
       zs \<leftarrow> rd resultStride 0;
       k \<leftarrow> i64 (zs * i);
       rankLocal \<leftarrow> i32 (rnk - 1);
       xShapeLocal \<leftarrow> ptr xShape 1;
       xStrideLocal \<leftarrow> ptr xStride 1;
       yStrideLocal \<leftarrow> ptr yStride 1;
       resultStrideLocal \<leftarrow> ptr resultStride 1;
       it \<leftarrow> PrepareThreeRawArrayIter rankLocal xShapeLocal [snd dx + x, snd y + j, snd result + k]
         [xStrideLocal, yStrideLocal, resultStrideLocal] (replicate 32 undefined) (replicate 3 (replicate 32 undefined));
       raw_iterate (\<lambda>ps. case ps of [px, py, pz] \<Rightarrow> op_cell opf (fst dx, px) (fst y, py) (fst result, pz) | _ \<Rightarrow> \<lambda>_. None)
         it m }) n m }"

text \<open>The branch for other shapes, in place and not.\<close>

definition pairwise_coords :: "runtime \<Rightarrow> ('t \<Rightarrow> 't \<Rightarrow> 't) \<Rightarrow> position \<Rightarrow> int list \<Rightarrow> position \<Rightarrow> int list \<Rightarrow> position \<Rightarrow> int list \<Rightarrow>
    't buffers \<Rightarrow> 't buffers option" where
  "pairwise_coords R opf dx xShapeBuffer y yShapeBuffer result resultShapeBuffer m = do {
     n \<leftarrow> shape_length xShapeBuffer;
     xRank \<leftarrow> shape_rank xShapeBuffer;
     yRank \<leftarrow> shape_rank yShapeBuffer;
     resultRank \<leftarrow> shape_rank resultShapeBuffer;
     xShape \<leftarrow> shapeOf xShapeBuffer;
     xStride \<leftarrow> shape_stride xShapeBuffer;
     yShape \<leftarrow> shapeOf yShapeBuffer;
     yStride \<leftarrow> shape_stride yShapeBuffer;
     resultShape \<leftarrow> shapeOf resultShapeBuffer;
     resultStride \<leftarrow> shape_stride resultShapeBuffer;
     _ \<leftarrow> thread_count R n (elementwiseThreshold R);
     if dx = result then
       parallel_for R (\<lambda>i m. do {
         xOffset \<leftarrow> offset_ind2subC xRank xShape xStride 0 i;
         yOffset \<leftarrow> offset_ind2subC yRank yShape yStride 0 i;
         op_cell opf (moved dx xOffset) (moved y yOffset) (moved result xOffset) m }) n m
     else
       parallel_for R (\<lambda>i m. do {
         xOffset \<leftarrow> offset_ind2subC xRank xShape xStride 0 i;
         yOffset \<leftarrow> offset_ind2subC yRank yShape yStride 0 i;
         resultOffset \<leftarrow> offset_ind2subC resultRank resultShape resultStride 0 i;
         op_cell opf (moved dx xOffset) (moved y yOffset) (moved result resultOffset) m }) n m }"

definition pairwise_exec :: "runtime \<Rightarrow> ('t \<Rightarrow> 't \<Rightarrow> 't) \<Rightarrow> position \<Rightarrow> int list \<Rightarrow> position \<Rightarrow> int list \<Rightarrow> position \<Rightarrow> int list \<Rightarrow>
    't buffers \<Rightarrow> 't buffers option" where
  "pairwise_exec R opf dx xShapeBuffer y yShapeBuffer result resultShapeBuffer m = do {
     n \<leftarrow> shape_length xShapeBuffer;
     xEws \<leftarrow> shape_ews xShapeBuffer;
     yEws \<leftarrow> shape_ews yShapeBuffer;
     resultEws \<leftarrow> shape_ews resultShapeBuffer;
     scalar \<leftarrow> isScalar yShapeBuffer;
     if scalar \<noteq> 0 then pairwise_scalar R opf dx xShapeBuffer y result resultShapeBuffer m
     else do {
       sameShape \<leftarrow> shapeEquals_buf xShapeBuffer yShapeBuffer;
       xOrder \<leftarrow> shape_order xShapeBuffer;
       yOrder \<leftarrow> shape_order yShapeBuffer;
       resultOrder \<leftarrow> shape_order resultShapeBuffer;
       if xEws \<ge> 1 \<and> yEws \<ge> 1 \<and> resultEws \<ge> 1 \<and> xOrder = yOrder \<and> resultOrder = xOrder \<and> sameShape \<and> xEws = yEws then
         pairwise_strided R opf dx xEws y yEws result resultEws n m
       else if \<not> sameShape \<and> xOrder = yOrder \<and> resultOrder = xOrder \<and> xEws \<ge> 1 \<and> yEws \<ge> 1 \<and> resultEws \<ge> 1 \<and> xEws = yEws then do {
         yn \<leftarrow> shape_length yShapeBuffer;
         pairwise_strided R opf dx xEws y yEws result resultEws yn m }
       else if sameShape then pairwise_rows R opf dx xShapeBuffer y yShapeBuffer result resultShapeBuffer m
       else pairwise_coords R opf dx xShapeBuffer y yShapeBuffer result resultShapeBuffer m } }"

section \<open>The branches\<close>

text \<open>The operands of a call: three arrays of one shape, where the result may overlap the others element on element only.\<close>

definition pairwise_operands :: "'t buffers \<Rightarrow> int list \<Rightarrow> position \<Rightarrow> int list \<Rightarrow> int \<Rightarrow> int \<Rightarrow> position \<Rightarrow> int list \<Rightarrow> int \<Rightarrow> int \<Rightarrow>
    position \<Rightarrow> int list \<Rightarrow> int \<Rightarrow> int \<Rightarrow> bool" where
  "pairwise_operands m sh x stx ex ox y sty ey oy z stz ez oz \<longleftrightarrow>
     array_at m x sh stx ex ox \<and> array_at m y sh sty ey oy \<and> array_at m z sh stz ez oz \<and> sh \<noteq> [] \<and>
     separate sh stz \<and> no_clash sh z stz x stx \<and> no_clash sh z stz y sty"

text \<open>The result: element by element the operation on the old elements.\<close>

definition pairwise_done :: "('t \<Rightarrow> 't \<Rightarrow> 't) \<Rightarrow> 't buffers \<Rightarrow> int list \<Rightarrow> position \<Rightarrow> int list \<Rightarrow> position \<Rightarrow> int list \<Rightarrow>
    position \<Rightarrow> int list \<Rightarrow> 't buffers \<Rightarrow> bool" where
  "pairwise_done opf m sh x stx y sty z stz m' \<longleftrightarrow>
     results m {c. in_box sh c} (at_coord z stz) (\<lambda>c. opf (cell m (at_coord x stx c)) (cell m (at_coord y sty c))) m'"

lemma op_cell_ok:
  assumes "pairwise_operands m sh x stx ex ox y sty ey oy z stz ez oz" "in_box sh c"
    and "same_but m m' (at_coord z stz ` {d. in_box sh d \<and> d \<noteq> c})"
  shows "op_cell opf (at_coord x stx c) (at_coord y sty c) (at_coord z stz c) m' =
    store m' (at_coord z stz c) (opf (cell m (at_coord x stx c)) (cell m (at_coord y sty c)))"
  using load_source [of m x sh stx ex ox z stz c m'] load_source [of m y sh sty ey oy z stz c m'] assms
  by (simp add: op_cell_def pairwise_operands_def)

text \<open>A loop over coordinates whose body computes one element each does all.\<close>

lemma pairwise_loop:
  assumes "pairwise_operands m sh x stx ex ox y sty ey oy z stz ez oz"
    and "distinct xs" "bij_betw c (set xs) {d. in_box sh d}"
    and "\<And>i m'. i \<in> set xs \<Longrightarrow> body i m' = op_cell opf (at_coord x stx (c i)) (at_coord y sty (c i)) (at_coord z stz (c i)) m'"
  shows "\<exists>m'. mfor body xs m = Some m' \<and> pairwise_done opf m sh x stx y sty z stz m'"
  unfolding pairwise_done_def
proof (rule coords_loop [where ez = ez and oz = oz, OF _ _ assms(2,3)])
  fix i m' assume i: "i \<in> set xs" "same_but m m' (at_coord z stz ` {d. in_box sh d \<and> d \<noteq> c i})"
  have "in_box sh (c i)" using assms(3) i(1) by (auto simp: bij_betw_def)
  then show "body i m' = store m' (at_coord z stz (c i))
      (opf (cell m (at_coord x stx (c i))) (cell m (at_coord y sty (c i))))"
    using op_cell_ok [OF assms(1)] assms(4) i by simp
qed (use assms(1) in \<open>simp_all add: pairwise_operands_def\<close>)

text \<open>The strided loop does \<open>Q\<close> if any loop does that runs the same elements in any order.\<close>

lemma strided_run:
  assumes "runtime_ok R" "0 < n" "n \<le> 2147483647" "1 \<le> ex" "1 \<le> ey" "1 \<le> ez"
    and "ex \<le> 2147483647" "ey \<le> 2147483647" "ez \<le> 2147483647"
    and run: "\<And>xs b. distinct xs \<Longrightarrow> set xs = set [0..n - 1] \<Longrightarrow>
      (\<And>i m'. i \<in> set xs \<Longrightarrow> b i m' = op_cell opf (moved x (i * ex)) (moved y (i * ey)) (moved z (i * ez)) m') \<Longrightarrow>
      \<exists>m'. mfor b xs m = Some m' \<and> Q m'"
  shows "\<exists>m'. pairwise_strided R opf x ex y ey z ez n m = Some m' \<and> Q m'"
proof -
  define body where "body i m = (do {
         k \<leftarrow> i64 (i * ez);
         u \<leftarrow> i64 (i * ex);
         j \<leftarrow> i64 (i * ey);
         op_cell opf (moved x u) (moved y j) (moved z k) m })" for i m
  have wide: "i64 (i * e) = Some (i * e)" if "i \<in> set [0..n - 1]" "1 \<le> e" "e \<le> 2147483647" for i e
  proof -
    have "0 \<le> i * e" "i * e \<le> 2147483647 * 2147483647" using that assms(3) mult_mono [of i 2147483647 e 2147483647] by auto
    then show ?thesis by (simp add: i64_def)
  qed
  have body: "body i m' = op_cell opf (moved x (i * ex)) (moved y (i * ey)) (moved z (i * ez)) m'" if "i \<in> set [0..n - 1]" for i m'
    using wide [OF that assms(4,7)] wide [OF that assms(5,8)] wide [OF that assms(6,9)] by (simp add: body_def)
  obtain k where k: "thread_count R n (elementwiseThreshold R) = Some k" "1 \<le> k" "k \<le> 2147483647" "omp_team R k = k"
    using thread_count_ok [OF assms(1), of n "elementwiseThreshold R"] assms(1-3) by (auto simp: runtime_ok_def)
  define span where "span = n div k + 8"
  have q: "0 \<le> n div k" "n div k \<le> n" using assms(2) k(2) by (simp_all add: pos_imp_zdiv_nonneg_iff div_le_self)
  have region: "\<exists>m'. thread_region R b (to_int span) k n m = Some m' \<and> Q m'"
    if "k > 1" "\<And>i m'. i \<in> set [0..n - 1] \<Longrightarrow>
      b i m' = op_cell opf (moved x (i * ex)) (moved y (i * ey)) (moved z (i * ez)) m'" for b
  proof -
    have "n div k \<le> n div 2" using assms(2) that(1) by (intro zdiv_mono2) auto
    also have "\<dots> \<le> 2147483647 div 2" using assms(3) by (intro zdiv_mono1) auto
    finally have half: "n div k \<le> 1073741823" by simp
    then have s: "to_int span = span" "0 < span" "span \<le> 1073741831" using q by (simp_all add: span_def to_int_id)
    have "n div k * k + n mod k = n" "n mod k < k" using that(1) by (simp_all only: div_mult_mod_eq, simp)
    then have "n \<le> span * k" using that(1) unfolding span_def distrib_right by linarith
    moreover have "span * (k + 1) \<le> 1073741831 * 2147483648" using s k by (intro mult_mono) auto
    ultimately obtain xs where "thread_region R b span k n m = mfor b xs m" "distinct xs" "set xs = set [0..n - 1]"
      using thread_region_eq [OF s(2) _ _ _ assms(1) k(4), of n b m] k(2) by auto
    then show ?thesis using run [of xs b] that(2) s(1) by auto
  qed
  have loop: "\<exists>m'. parallel_for R b n m = Some m' \<and> Q m'"
    if "\<And>i m'. i \<in> set [0..n - 1] \<Longrightarrow>
      b i m' = op_cell opf (moved x (i * ex)) (moved y (i * ey)) (moved z (i * ez)) m'" for b
    using parallel_for_eq [OF assms(1), of b n m] run [of _ b] that by auto
  have pre: "div64 n k = Some (n div k)" "i64 (n div k + 8) = Some span"
    using assms(2,3) k(2) q by (simp_all add: div64_nonneg i64_def span_def)
  show ?thesis
  proof (cases "ex = 1 \<and> ey = 1 \<and> ez = 1")
    case True
    then show ?thesis
      using region [of "\<lambda>i. op_cell opf (moved x i) (moved y i) (moved z i)"] loop [of "\<lambda>i. op_cell opf (moved x i) (moved y i) (moved z i)"]
      by (simp add: pairwise_strided_def k(1) pre Let_def)
  next
    case False
    then show ?thesis using region [of body] loop [of body] body
      by (auto simp: pairwise_strided_def k(1) pre Let_def body_def [abs_def])
  qed
qed

lemma strided_ok:
  assumes "pairwise_operands m sh x stx ex ox y sty ey oy z stz ez oz" "runtime_ok R"
    and "1 \<le> ex" "1 \<le> ey" "1 \<le> ez" "oy = ox" "oz = ox"
  shows "\<exists>m'. pairwise_strided R opf x ex y ey z ez (prod_list sh) m = Some m' \<and> pairwise_done opf m sh x stx y sty z stz m'"
proof -
  have ops: "array_at m x sh stx ex ox" "array_at m y sh sty ey oy" "array_at m z sh stz ez oz" "small_shape sh"
    using assms(1) by (simp_all add: pairwise_operands_def array_at_def)
  have n: "0 < prod_list sh" "prod_list sh \<le> 2147483647" "pos_shape sh"
    using ops(4) prod_list_pos by (auto simp: small_shape_def)
  have ews: "ex \<le> 2147483647" "ey \<le> 2147483647" "ez \<le> 2147483647" using ops by (simp_all add: array_at_def)
  show ?thesis
  proof (rule strided_run [OF assms(2) n(1,2) assms(3-5) ews])
    fix xs b
    assume xs: "distinct xs" "set xs = set [0..prod_list sh - 1]"
      and b: "\<And>i m'. i \<in> set xs \<Longrightarrow> b i m' = op_cell opf (moved x (i * ex)) (moved y (i * ey)) (moved z (i * ez)) m'"
    show "\<exists>m'. mfor b xs m = Some m' \<and> pairwise_done opf m sh x stx y sty z stz m'"
    proof (rule pairwise_loop [OF assms(1) xs(1)])
      show "bij_betw (order_coords ox sh) (set xs) {d. in_box sh d}"
        unfolding xs(2) by (rule order_coords_bij [OF n(3)])
      fix i m' assume i: "i \<in> set xs"
      then show "b i m' = op_cell opf (at_coord x stx (order_coords ox sh i)) (at_coord y sty (order_coords ox sh i))
          (at_coord z stz (order_coords ox sh i)) m'"
        using b xs(2) array_at_ews [OF ops(1) assms(3)] array_at_ews [OF ops(2) assms(4)] array_at_ews [OF ops(3) assms(5)]
          assms(6,7) by simp
    qed
  qed
qed

lemma rows_ok:
  assumes "pairwise_operands m sh x stx ex ox y sty ey oy z stz ez oz" "runtime_ok R"
  shows "\<exists>m'. pairwise_rows R opf x (mk_info sh stx fx ex ox) y (mk_info sh sty fy ey oy) z (mk_info sh stz fz ez oz) m =
      Some m' \<and> pairwise_done opf m sh x stx y sty z stz m'"
proof -
  have ops: "array_at m x sh stx ex ox" "array_at m y sh sty ey oy" "array_at m z sh stz ez oz" "small_shape sh" "sh \<noteq> []"
    using assms(1) by (simp_all add: pairwise_operands_def array_at_def)
  note dims = array_at_dims [OF ops(1)] array_at_dims [OF ops(2)] array_at_dims [OF ops(3)]
  obtain d ds where sh: "sh = d # ds" using ops(5) by (cases sh) auto
  have len: "length stx = Suc (length ds)" "length sty = Suc (length ds)" "length stz = Suc (length ds)" "length ds \<le> 31"
    using ops by (simp_all add: array_at_def sh)
  then obtain sx sxs sy sys sz szs where st: "stx = sx # sxs" "sty = sy # sys" "stz = sz # szs"
    by (metis length_Suc_conv)
  have ds: "small_shape ds" "pos_shape ds" "0 < d" "d \<le> 2147483647"
  proof -
    have *: "pos_shape ds" "0 < d" "d * prod_list ds \<le> 2147483647" using ops(4) by (simp_all add: small_shape_def sh)
    have "1 * prod_list ds \<le> d * prod_list ds" using *(2) prod_list_ge1 [OF *(1)] by (intro mult_right_mono) auto
    moreover have "d * 1 \<le> d * prod_list ds" using *(2) prod_list_ge1 [OF *(1)] by (intro mult_left_mono) auto
    ultimately have le: "prod_list ds \<le> 2147483647" "d \<le> 2147483647" using *(3) by linarith+
    show "small_shape ds" "pos_shape ds" "0 < d" "d \<le> 2147483647" using * le by (simp_all add: small_shape_def)
  qed
  have fit: "fits ds ss \<and> 0 \<le> s \<and> s \<le> 2147483647" if "array_at m p sh (s # ss) e o'" for p s ss e o'
    using array_at_fits [OF that] that by (auto simp: fits_def sh array_at_def)
  have fits: "fits ds sxs" "fits ds sys" "fits ds szs" using fit ops(1-3) st by auto
  have bnd: "0 \<le> sx" "sx \<le> 2147483647" "0 \<le> sy" "sy \<le> 2147483647" "0 \<le> sz" "sz \<le> 2147483647"
    using fit ops(1-3) st by auto
  have wide: "i64 (s * i) = Some (s * i)" if "0 \<le> s" "s \<le> 2147483647" "i \<in> set [0..d - 1]" for s i
  proof -
    have "0 \<le> s * i" "s * i \<le> 2147483647 * 2147483647"
      using that ds(4) mult_mono [of s 2147483647 i 2147483647] by auto
    then show ?thesis by (simp add: i64_def)
  qed
  let ?out = "replicate 32 (undefined :: int)"
  define body where "body ps = (case ps of [px, py, pz] \<Rightarrow> op_cell opf (fst x, px) (fst y, py) (fst z, pz) | _ \<Rightarrow> \<lambda>_. None)" for ps
  define row where "row i m' = (do {
       it \<leftarrow> PrepareThreeRawArrayIter (int (length ds)) (ds @ stx @ [fx, ex, ox]) [snd x + sx * i, snd y + sy * i, snd z + sz * i]
         [sxs @ [fx, ex, ox], sys @ [fy, ey, oy], szs @ [fz, ez, oz]] ?out (replicate 3 ?out);
       raw_iterate body it m' })" for i m'
  let ?V = "visit_order ds (sxs @ [fx, ex, ox])"
  have row: "row i m' = mfor (\<lambda>c. op_cell opf (at_coord x stx (i # c)) (at_coord y sty (i # c)) (at_coord z stz (i # c))) ?V m'"
    for i m'
  proof -
    have "raw_operands ds (ds @ stx @ [fx, ex, ox]) [snd x + sx * i, snd y + sy * i, snd z + sz * i]
        [sxs @ [fx, ex, ox], sys @ [fy, ey, oy], szs @ [fz, ez, oz]] ?out (replicate 3 ?out)"
      using ds len fits by (auto simp: raw_operands_def fits_def nth_append list_all_iff)
    from PrepareThreeRawArrayIter_iterates [OF this, where 's = "nat \<Rightarrow> 'a list"]
    have "row i m' = mfor (\<lambda>c. body (at_coords [snd x + sx * i, snd y + sy * i, snd z + sz * i]
        [sxs @ [fx, ex, ox], sys @ [fy, ey, oy], szs @ [fz, ez, oz]] c)) ?V m'"
      by (auto simp: row_def)
    also have "\<dots> = mfor (\<lambda>c. op_cell opf (at_coord x stx (i # c)) (at_coord y sty (i # c)) (at_coord z stz (i # c))) ?V m'"
    proof (rule mfor_cong [OF refl _ refl])
      fix c m1 assume "c \<in> set ?V"
      then have "length c = length ds" by (auto simp: visit_order_def)
      then have "dot c (sxs @ [fx, ex, ox]) = dot c sxs" "dot c (sys @ [fy, ey, oy]) = dot c sys" "dot c (szs @ [fz, ez, oz]) = dot c szs"
        using len st dot_append [of c sxs "[]"] dot_append [of c sys "[]"] dot_append [of c szs "[]"] by simp_all
      then show "body (at_coords [snd x + sx * i, snd y + sy * i, snd z + sz * i]
        [sxs @ [fx, ex, ox], sys @ [fy, ey, oy], szs @ [fz, ez, oz]] c) m1 =
        op_cell opf (at_coord x stx (i # c)) (at_coord y sty (i # c)) (at_coord z stz (i # c)) m1"
        by (simp add: body_def at_coords_def at_coord_def moved_def st add.assoc mult.commute)
    qed
    finally show ?thesis .
  qed
  obtain k where k: "thread_count R d (tadThreshold R) = Some k"
    using thread_count_ok [OF assms(2), of d "tadThreshold R"] ds assms(2) by (auto simp: runtime_ok_def)
  define step where "step i m' = (do {
        xi \<leftarrow> i64 (sx * i);
        yi \<leftarrow> i64 (sy * i);
        zi \<leftarrow> i64 (sz * i);
        it \<leftarrow> PrepareThreeRawArrayIter (int (length ds)) (ds @ stx @ [fx, ex, ox]) [snd x + xi, snd y + yi, snd z + zi]
          [sxs @ [fx, ex, ox], sys @ [fy, ey, oy], szs @ [fz, ez, oz]] ?out (replicate 3 ?out);
        raw_iterate body it m' })" for i m'
  have code: "pairwise_rows R opf x (mk_info sh stx fx ex ox) y (mk_info sh sty fy ey oy) z (mk_info sh stz fz ez oz) m =
      parallel_for R step d m"
    using dims len(4)
    by (simp add: pairwise_rows_def info_simps sh st k rd_Some ptr_def i32_def body_def [abs_def] step_def [abs_def])
  obtain ps where ps: "parallel_for R step d m = mfor step ps m" "distinct ps" "set ps = set [0..d - 1]"
    by (rule parallel_forE [OF assms(2)])
  define one where "one q = (case q of (i, c) \<Rightarrow>
    op_cell opf (at_coord x stx (i # c)) (at_coord y sty (i # c)) (at_coord z stz (i # c)))" for q
  have "mfor step ps m = mfor (\<lambda>i. mfor (\<lambda>c. one (i, c)) ?V) ps m"
    using wide bnd ps(3) by (intro mfor_cong refl) (simp add: step_def row [unfolded row_def] one_def)
  also have "\<dots> = mfor one (List.product ps ?V) m"
    using mfor_concat [of "\<lambda>i c. one (i, c)" "\<lambda>_. ?V" ps m] by (simp add: product_concat_map case_prod_beta')
  finally have flat: "parallel_for R step d m = mfor one (List.product ps ?V) m" using ps(1) by simp
  have "\<exists>m'. mfor one (List.product ps ?V) m = Some m' \<and> pairwise_done opf m sh x stx y sty z stz m'"
  proof (rule pairwise_loop [OF assms(1)])
    show "distinct (List.product ps ?V)" using ps(2) distinct_visit_order [OF ds(2)] by (simp add: distinct_product)
    show "bij_betw (\<lambda>(i, c). i # c) (set (List.product ps ?V)) {c. in_box sh c}"
      unfolding bij_betw_def
    proof
      show "(\<lambda>(i, c). i # c) ` set (List.product ps ?V) = {c. in_box sh c}"
      proof (intro equalityI subsetI)
        fix c assume "c \<in> {c. in_box sh c}"
        then obtain j js where "c = j # js" "0 \<le> j" "j < d" "in_box ds js" by (cases c) (auto simp: sh)
        then show "c \<in> (\<lambda>(i, c). i # c) ` set (List.product ps ?V)"
          using ps(3) visit_order_set [OF ds(2)] by (intro image_eqI [of _ _ "(j, js)"]) auto
      qed (use ps(3) visit_order_set [OF ds(2)] in \<open>auto simp: sh\<close>)
    qed (auto simp: inj_on_def)
  qed (auto simp: one_def)
  then show ?thesis using code flat by simp
qed

lemma scalar_ok:
  assumes "array_at m x sh stx ex ox" "array_at m z sh stz ez oz" "separate sh stz" "no_clash sh z stz x stx"
    and "valid m y" "\<forall>c. in_box sh c \<longrightarrow> at_coord z stz c = y \<longrightarrow> prod_list sh = 1" "runtime_ok R"
    and "\<And>i. ex = 1 \<Longrightarrow> ez = 1 \<Longrightarrow> i \<in> set [0..prod_list sh - 1] \<Longrightarrow> order_coords oz sh i = order_coords ox sh i"
  shows "\<exists>m'. pairwise_scalar R opf x (mk_info sh stx fx ex ox) y z (mk_info sh stz fz ez oz) m = Some m' \<and>
    results m {c. in_box sh c} (at_coord z stz) (\<lambda>c. opf (cell m (at_coord x stx c)) (cell m y)) m'"
proof -
  have sm: "small_shape sh" "pos_shape sh" "prod_list sh \<le> 2147483647" "0 < prod_list sh" "length sh \<le> 32"
    using assms(1) prod_list_pos by (auto simp: array_at_def small_shape_def)
  note dims = array_at_dims [OF assms(1)] array_at_dims [OF assms(2)]
  have loop: "\<exists>m'. mfor body xs m = Some m' \<and>
    results m {c. in_box sh c} (at_coord z stz) (\<lambda>c. opf (cell m (at_coord x stx c)) (cell m y)) m'"
    if "distinct xs" "set xs = set [0..prod_list sh - 1]"
      "\<And>i m'. i \<in> set xs \<Longrightarrow> body i m' = op_cell opf (at_coord x stx (order_coords o' sh i)) y (at_coord z stz (order_coords o' sh i)) m'"
    for body xs o'
  proof (rule coords_loop [OF assms(2,3) that(1)])
    show bij: "bij_betw (order_coords o' sh) (set xs) {c. in_box sh c}"
      unfolding that(2) by (rule order_coords_bij [OF sm(2)])
    fix i m' assume i: "i \<in> set xs" "same_but m m' (at_coord z stz ` {d. in_box sh d \<and> d \<noteq> order_coords o' sh i})"
    have box: "in_box sh (order_coords o' sh i)" using bij i(1) by (auto simp: bij_betw_def)
    have "y \<notin> at_coord z stz ` {d. in_box sh d \<and> d \<noteq> order_coords o' sh i}"
    proof
      assume "y \<in> at_coord z stz ` {d. in_box sh d \<and> d \<noteq> order_coords o' sh i}"
      then obtain d where d: "in_box sh d" "d \<noteq> order_coords o' sh i" "at_coord z stz d = y" by auto
      then have "prod_list sh = 1" using assms(6) by blast
      then have "set xs = {0}" unfolding that(2) by simp
      then have "{c. in_box sh c} = {order_coords o' sh 0}" using bij_betw_imp_surj_on [OF bij] by simp
      then have "c = order_coords o' sh 0" if "in_box sh c" for c using that by (metis mem_Collect_eq singletonD)
      then show False using d(1,2) box by metis
    qed
    then show "body i m' = store m' (at_coord z stz (order_coords o' sh i))
        (opf (cell m (at_coord x stx (order_coords o' sh i))) (cell m y))"
      using load_source [OF assms(1,4) box i(2)] same_but_load [OF i(2) assms(5)] that(3) [OF i(1)]
      by (simp add: op_cell_def)
  qed
  show ?thesis
  proof (cases "ex = 1 \<and> ez = 1")
    case True
    have ews: "moved x i = at_coord x stx (order_coords ox sh i)" "moved z i = at_coord z stz (order_coords ox sh i)"
      if "i \<in> set [0..prod_list sh - 1]" for i
      using array_at_ews [OF assms(1) _ that] array_at_ews [OF assms(2) _ that] True assms(8) [OF _ _ that] by simp_all
    have "\<exists>m'. mfor (\<lambda>e. op_cell opf (moved x e) y (moved z e)) [0..prod_list sh - 1] m = Some m' \<and>
        results m {c. in_box sh c} (at_coord z stz) (\<lambda>c. opf (cell m (at_coord x stx c)) (cell m y)) m'"
      using ews by (intro loop) simp_all
    then show ?thesis using True sm dims by (simp add: pairwise_scalar_def info_simps)
  next
    case False
    have off: "offset_ind2subC (int (length sh)) (sh @ ws) (st @ vs) 0 i = Some (dot (c_coords sh i) st)"
      if "array_at m p sh st e o'" "i \<in> set [0..prod_list sh - 1]" for p st e o' i ws vs
      using offset_ind2subC_eq [of sh st 0 i ws vs] that by (simp add: array_at_def)
    define body where "body i m' = (do {
         xOffset \<leftarrow> offset_ind2subC (int (length sh)) (sh @ stx @ [fx, ex, ox]) (stx @ [fx, ex, ox]) 0 i;
         resultOffset \<leftarrow> offset_ind2subC (int (length sh)) (sh @ stz @ [fz, ez, oz]) (stz @ [fz, ez, oz]) 0 i;
         op_cell opf (moved x xOffset) y (moved z resultOffset) m' })" for i m'
    obtain k where k: "thread_count R (prod_list sh) (elementwiseThreshold R) = Some k"
      using thread_count_ok [OF assms(7), of "prod_list sh" "elementwiseThreshold R"] sm assms(7) by (auto simp: runtime_ok_def)
    obtain xs where xs: "parallel_for R body (prod_list sh) m = mfor body xs m" "distinct xs" "set xs = set [0..prod_list sh - 1]"
      by (rule parallel_forE [OF assms(7)])
    have "\<exists>m'. mfor body xs m = Some m' \<and>
        results m {c. in_box sh c} (at_coord z stz) (\<lambda>c. opf (cell m (at_coord x stx c)) (cell m y)) m'"
      using xs off [OF assms(1)] off [OF assms(2)]
      by (intro loop [of xs body 99]) (auto simp: body_def order_coords_def at_coord_def)
    moreover have "pairwise_scalar R opf x (mk_info sh stx fx ex ox) y z (mk_info sh stz fz ez oz) m =
        parallel_for R body (prod_list sh) m"
      unfolding pairwise_scalar_def using sm dims k False
      by (simp add: info_simps body_def [abs_def]) blast
    ultimately show ?thesis using xs(1) by simp
  qed
qed

section \<open>Operands of different shapes\<close>

text \<open>
  Element \<open>i\<close> of an array, counted in the order \<open>ord\<close>. Operands of different shapes correspond by this number, not by
  coordinates, so an overlap is harmless where the numbers agree.
\<close>

definition nth_at :: "int \<Rightarrow> position \<Rightarrow> int list \<Rightarrow> int list \<Rightarrow> int \<Rightarrow> position" where
  "nth_at ord p sh st i = at_coord p st (order_coords ord sh i)"

definition apart :: "int \<Rightarrow> position \<Rightarrow> int list \<Rightarrow> int list \<Rightarrow> position \<Rightarrow> int list \<Rightarrow> int list \<Rightarrow> bool" where
  "apart ord z shz stz p sh st \<longleftrightarrow> (\<forall>i\<in>set [0..prod_list shz - 1]. \<forall>j\<in>set [0..prod_list shz - 1].
     i \<noteq> j \<longrightarrow> nth_at ord z shz stz i \<noteq> nth_at ord p sh st j)"

definition listed_operands :: "'t buffers \<Rightarrow> int \<Rightarrow> position \<Rightarrow> int list \<Rightarrow> int list \<Rightarrow> int \<Rightarrow> int \<Rightarrow> position \<Rightarrow> int list \<Rightarrow>
    int list \<Rightarrow> int \<Rightarrow> int \<Rightarrow> position \<Rightarrow> int list \<Rightarrow> int list \<Rightarrow> int \<Rightarrow> int \<Rightarrow> bool" where
  "listed_operands m ord x shx stx ex ox y shy sty ey oy z shz stz ez oz \<longleftrightarrow>
     array_at m x shx stx ex ox \<and> array_at m y shy sty ey oy \<and> array_at m z shz stz ez oz \<and>
     prod_list shx = prod_list shz \<and> prod_list shy = prod_list shz \<and>
     separate shz stz \<and> apart ord z shz stz x shx stx \<and> apart ord z shz stz y shy sty"

definition listed_done :: "('t \<Rightarrow> 't \<Rightarrow> 't) \<Rightarrow> 't buffers \<Rightarrow> int \<Rightarrow> position \<Rightarrow> int list \<Rightarrow> int list \<Rightarrow> position \<Rightarrow> int list \<Rightarrow>
    int list \<Rightarrow> position \<Rightarrow> int list \<Rightarrow> int list \<Rightarrow> 't buffers \<Rightarrow> bool" where
  "listed_done opf m ord x shx stx y shy sty z shz stz m' \<longleftrightarrow>
     results m (set [0..prod_list shz - 1]) (nth_at ord z shz stz)
       (\<lambda>i. opf (cell m (nth_at ord x shx stx i)) (cell m (nth_at ord y shy sty i))) m'"

lemma nth_at_valid:
  "array_at m p sh st e o' \<Longrightarrow> i \<in> set [0..prod_list sh - 1] \<Longrightarrow> valid m (nth_at ord p sh st i)"
  unfolding nth_at_def using array_at_valid(1) order_coords_in_box by (metis array_at_def small_shape_def)

lemma nth_at_inj:
  assumes "pos_shape sh" "separate sh st"
  shows "inj_on (nth_at ord p sh st) (set [0..prod_list sh - 1])"
proof (rule inj_onI)
  fix i j assume ij: "i \<in> set [0..prod_list sh - 1]" "j \<in> set [0..prod_list sh - 1]" "nth_at ord p sh st i = nth_at ord p sh st j"
  have "dot (order_coords ord sh i) st = dot (order_coords ord sh j) st"
    using ij(3) by (simp add: nth_at_def at_coord_def moved_def)
  then have "order_coords ord sh i = order_coords ord sh j"
    using assms ij(1,2) order_coords_in_box by (auto simp: separate_def inj_on_def)
  then show "i = j" using order_coords_bij [OF assms(1), of ord] ij(1,2) by (auto simp: bij_betw_def inj_on_def)
qed

lemma nth_at_image:
  assumes "pos_shape sh"
  shows "nth_at ord p sh st ` set [0..prod_list sh - 1] = at_coord p st ` {c. in_box sh c}"
proof -
  have "nth_at ord p sh st = at_coord p st \<circ> order_coords ord sh" by (simp add: fun_eq_iff nth_at_def)
  then show ?thesis using bij_betw_imp_surj_on [OF order_coords_bij [OF assms, of ord]] by (metis image_comp)
qed

lemma listed_loop:
  assumes "listed_operands m ord x shx stx ex ox y shy sty ey oy z shz stz ez oz"
    and "distinct xs" "set xs = set [0..prod_list shz - 1]"
    and "\<And>i m'. i \<in> set xs \<Longrightarrow>
      body i m' = op_cell opf (nth_at ord x shx stx i) (nth_at ord y shy sty i) (nth_at ord z shz stz i) m'"
  shows "\<exists>m'. mfor body xs m = Some m' \<and> listed_done opf m ord x shx stx y shy sty z shz stz m'"
proof -
  have ops: "array_at m x shx stx ex ox" "array_at m y shy sty ey oy" "array_at m z shz stz ez oz"
    "prod_list shx = prod_list shz" "prod_list shy = prod_list shz" "separate shz stz"
    "apart ord z shz stz x shx stx" "apart ord z shz stz y shy sty"
    using assms(1) by (simp_all add: listed_operands_def)
  have pos: "pos_shape shz" using ops(3) by (simp add: array_at_def small_shape_def)
  have "\<exists>m'. mfor body xs m = Some m' \<and> results m (set xs) (nth_at ord z shz stz)
      (\<lambda>i. opf (cell m (nth_at ord x shx stx i)) (cell m (nth_at ord y shy sty i))) m'"
  proof (rule elementwise [OF assms(2)])
    show "inj_on (nth_at ord z shz stz) (set xs)" unfolding assms(3) by (rule nth_at_inj [OF pos ops(6)])
    show "valid m (nth_at ord z shz stz i)" if "i \<in> set xs" for i
      using nth_at_valid [OF ops(3)] that unfolding assms(3) by blast
    fix i m' assume i: "i \<in> set xs" "same_but m m' (nth_at ord z shz stz ` (set xs - {i}))"
    have load: "load m' (nth_at ord p sh st i) = Some (cell m (nth_at ord p sh st i))"
      if "array_at m p sh st e o'" "prod_list sh = prod_list shz" "apart ord z shz stz p sh st" for p sh st e o'
    proof (rule same_but_load [OF i(2)])
      show "valid m (nth_at ord p sh st i)" using nth_at_valid [OF that(1)] that(2) i(1) assms(3) by simp
      show "nth_at ord p sh st i \<notin> nth_at ord z shz stz ` (set xs - {i})"
      proof
        assume "nth_at ord p sh st i \<in> nth_at ord z shz stz ` (set xs - {i})"
        then obtain j where j: "j \<in> set xs" "j \<noteq> i" "nth_at ord p sh st i = nth_at ord z shz stz j" by blast
        then show False using that(3) i(1) unfolding assms(3) apart_def by metis
      qed
    qed
    show "body i m' = store m' (nth_at ord z shz stz i) (opf (cell m (nth_at ord x shx stx i)) (cell m (nth_at ord y shy sty i)))"
      using assms(4) [OF i(1)] load [OF ops(1,4,7)] load [OF ops(2,5,8)] by (simp add: op_cell_def)
  qed
  then show ?thesis by (simp only: listed_done_def assms(3))
qed

lemma listed_strided_ok:
  assumes "listed_operands m ord x shx stx ex ord y shy sty ey ord z shz stz ez ord" "runtime_ok R"
    and "1 \<le> ex" "1 \<le> ey" "1 \<le> ez"
  shows "\<exists>m'. pairwise_strided R opf x ex y ey z ez (prod_list shz) m = Some m' \<and>
    listed_done opf m ord x shx stx y shy sty z shz stz m'"
proof -
  have ops: "array_at m x shx stx ex ord" "array_at m y shy sty ey ord" "array_at m z shz stz ez ord" "small_shape shz"
    "prod_list shx = prod_list shz" "prod_list shy = prod_list shz"
    using assms(1) by (simp_all add: listed_operands_def array_at_def)
  have n: "0 < prod_list shz" "prod_list shz \<le> 2147483647" using ops(4) prod_list_pos by (auto simp: small_shape_def)
  have ews: "ex \<le> 2147483647" "ey \<le> 2147483647" "ez \<le> 2147483647" using ops by (simp_all add: array_at_def)
  show ?thesis
  proof (rule strided_run [OF assms(2) n assms(3-5) ews])
    fix xs b
    assume xs: "distinct xs" "set xs = set [0..prod_list shz - 1]"
      and b: "\<And>i m'. i \<in> set xs \<Longrightarrow> b i m' = op_cell opf (moved x (i * ex)) (moved y (i * ey)) (moved z (i * ez)) m'"
    then show "\<exists>m'. mfor b xs m = Some m' \<and> listed_done opf m ord x shx stx y shy sty z shz stz m'"
      using array_at_ews [OF ops(1) assms(3)] array_at_ews [OF ops(2) assms(4)] array_at_ews [OF ops(3) assms(5)] ops(5,6)
      by (intro listed_loop [OF assms(1) xs]) (simp add: nth_at_def)
  qed
qed

lemma coords_ok:
  assumes "listed_operands m 99 x shx stx ex ox y shy sty ey oy z shz stz ez oz" "runtime_ok R"
    and "x = z \<longrightarrow> shz = shx \<and> stz = stx"
  shows "\<exists>m'. pairwise_coords R opf x (mk_info shx stx fx ex ox) y (mk_info shy sty fy ey oy) z (mk_info shz stz fz ez oz) m =
      Some m' \<and> listed_done opf m 99 x shx stx y shy sty z shz stz m'"
proof -
  let ?n = "prod_list shz"
  have ops: "array_at m x shx stx ex ox" "array_at m y shy sty ey oy" "array_at m z shz stz ez oz" "prod_list shx = ?n" "prod_list shy = ?n"
    using assms(1) by (simp_all add: listed_operands_def)
  have n: "0 < ?n" "?n \<le> 2147483647" "length shx \<le> 32" "length shy \<le> 32" "length shz \<le> 32"
    using ops prod_list_pos by (auto simp: array_at_def small_shape_def)
  note dims = array_at_dims [OF ops(1)] array_at_dims [OF ops(2)] array_at_dims [OF ops(3)]
  have "pos_shape shx" using ops(1) by (simp add: array_at_def small_shape_def)
  then have len: "shape_length (mk_info shx stx fx ex ox) = Some ?n"
    using dims(1) n(2) ops(4) by (simp add: info_simps)
  obtain k where k: "thread_count R ?n (elementwiseThreshold R) = Some k"
    using thread_count_ok [OF assms(2), of ?n "elementwiseThreshold R"] n assms(2) by (auto simp: runtime_ok_def)
  have off: "offset_ind2subC (int (length sh)) (sh @ ws) (st @ vs) 0 i = Some (dot (order_coords 99 sh i) st)"
    if "array_at m p sh st e o'" "prod_list sh = ?n" "i \<in> set [0..?n - 1]" for p sh st e o' i ws vs
    using offset_ind2subC_eq [of sh st 0 i ws vs] that by (simp add: array_at_def order_coords_def)
  define body where "body i m' = (do {
         xOffset \<leftarrow> offset_ind2subC (int (length shx)) (shx @ stx @ [fx, ex, ox]) (stx @ [fx, ex, ox]) 0 i;
         yOffset \<leftarrow> offset_ind2subC (int (length shy)) (shy @ sty @ [fy, ey, oy]) (sty @ [fy, ey, oy]) 0 i;
         if x = z then op_cell opf (moved x xOffset) (moved y yOffset) (moved z xOffset) m'
         else do {
           resultOffset \<leftarrow> offset_ind2subC (int (length shz)) (shz @ stz @ [fz, ez, oz]) (stz @ [fz, ez, oz]) 0 i;
           op_cell opf (moved x xOffset) (moved y yOffset) (moved z resultOffset) m' } })" for i m'
  obtain xs where xs: "parallel_for R body ?n m = mfor body xs m" "distinct xs" "set xs = set [0..?n - 1]"
    by (rule parallel_forE [OF assms(2)])
  have "\<exists>m'. mfor body xs m = Some m' \<and> listed_done opf m 99 x shx stx y shy sty z shz stz m'"
    using off [OF ops(1,4)] off [OF ops(2,5)] off [OF ops(3) refl] xs(3) assms(3)
    by (intro listed_loop [OF assms(1) xs(2,3)]) (auto simp: body_def nth_at_def at_coord_def)
  moreover have "pairwise_coords R opf x (mk_info shx stx fx ex ox) y (mk_info shy sty fy ey oy) z (mk_info shz stz fz ez oz) m =
      parallel_for R body ?n m"
    using dims n k len by (cases "x = z") (simp_all add: pairwise_coords_def info_simps body_def [abs_def] ops(4))
  ultimately show ?thesis using xs(1) by simp
qed

section \<open>Properties\<close>

text \<open>C4: A pairwise transform of three arrays of one shape computes every element of the result from the elements of the
  operands with the same coordinates, and changes nothing else, whatever their strides, orders and element-wise strides, the number
  of threads and the order in which their iterations run; the result may be one of the operands. Operands of other shapes
  are the subject of \<open>pairwise_exec_other_shape\<close> and \<open>pairwise_exec_scalar\<close>.\<close>

theorem pairwise_exec_elementwise:
  assumes "pairwise_operands m sh x stx ex ox y sty ey oy z stz ez oz" "runtime_ok R"
  shows "\<exists>m'. pairwise_exec R opf x (mk_info sh stx fx ex ox) y (mk_info sh sty fy ey oy) z (mk_info sh stz fz ez oz) m = Some m' \<and>
    (\<forall>c. in_box sh c \<longrightarrow> cell m' (at_coord z stz c) = opf (cell m (at_coord x stx c)) (cell m (at_coord y sty c))) \<and>
    same_but m m' (at_coord z stz ` {c. in_box sh c})"
proof -
  have ops: "array_at m x sh stx ex ox" "array_at m y sh sty ey oy" "array_at m z sh stz ez oz" "separate sh stz"
    "no_clash sh z stz x stx" "sh \<noteq> []"
    using assms(1) by (simp_all add: pairwise_operands_def)
  have sm: "pos_shape sh" "prod_list sh \<le> 2147483647" using ops(1) by (simp_all add: array_at_def small_shape_def)
  have orders: "to_char ox = ox" "to_char oy = oy" "to_char oz = oz" using ops(1-3) by (auto simp: array_at_def to_char_def)
  note dims = array_at_dims [OF ops(1)] array_at_dims [OF ops(2)] array_at_dims [OF ops(3)]
  let ?X = "mk_info sh stx fx ex ox" and ?Y = "mk_info sh sty fy ey oy" and ?Z = "mk_info sh stz fz ez oz"
  have "\<exists>m'. pairwise_exec R opf x ?X y ?Y z ?Z m = Some m' \<and> pairwise_done opf m sh x stx y sty z stz m'"
  proof (cases "sh \<in> {[], [1], [1, 1]}")
    case True
    then have one: "prod_list sh = 1" "c_coords sh 0 = map (\<lambda>_. 0) sh" using ops(6) by auto
    have only: "in_box sh c \<Longrightarrow> c = map (\<lambda>_. 0) sh" for c
      using box_coords [OF sm(1)] one by (auto simp: set_eq_iff)
    have zero: "dot (map (\<lambda>_. 0) sh) st = 0" for st
      by (induction sh arbitrary: st) (auto simp: dot_def zip_Cons1 split: list.split)
    have y: "at_coord y sty c = y" if "in_box sh c" for c
      using only [OF that] zero by (simp add: at_coord_def moved_def)
    have box: "in_box sh (map (\<lambda>_. 0) sh)" using sm(1) by (induction sh) auto
    have "valid m y" using array_at_valid(1) [OF ops(2) box] y [OF box] by simp
    moreover have "order_coords oz sh i = order_coords ox sh i" if "i \<in> set [0..prod_list sh - 1]" for i
      using only order_coords_in_box [OF sm(1) that] by metis
    ultimately have "\<exists>m'. pairwise_scalar R opf x ?X y z ?Z m = Some m' \<and>
        results m {c. in_box sh c} (at_coord z stz) (\<lambda>c. opf (cell m (at_coord x stx c)) (cell m y)) m'"
      using ops(1,3,4,5) assms(2) one(1) by (intro scalar_ok) auto
    moreover have "pairwise_exec R opf x ?X y ?Y z ?Z m = pairwise_scalar R opf x ?X y z ?Z m"
      using True sm dims by (simp add: pairwise_exec_def info_simps isScalar_mk_info orders)
    ultimately show ?thesis using y by (auto simp: pairwise_done_def results_def)
  next
    case False
    have same: "shapeEquals_buf ?X ?Y = Some True"
      using dims by (simp add: shapeEquals_buf_def info_simps shapeEquals_eq)
    show ?thesis
    proof (cases "ex \<ge> 1 \<and> ey \<ge> 1 \<and> ez \<ge> 1 \<and> ox = oy \<and> oz = ox \<and> ex = ey")
      case True
      then have "pairwise_exec R opf x ?X y ?Y z ?Z m = pairwise_strided R opf x ex y ey z ez (prod_list sh) m"
        using False same sm dims by (simp add: pairwise_exec_def info_simps isScalar_mk_info orders)
      then show ?thesis using strided_ok [OF assms] True by simp
    next
      case wide: False
      then have "pairwise_exec R opf x ?X y ?Y z ?Z m = pairwise_rows R opf x ?X y ?Y z ?Z m"
        using False same sm dims by (simp add: pairwise_exec_def info_simps isScalar_mk_info orders) blast
      then show ?thesis using rows_ok [OF assms] by simp
    qed
  qed
  then show ?thesis by (auto simp: pairwise_done_def results_def)
qed

text \<open>A row-major matrix plus its column-major neighbour, in place, on four threads and in reverse order.\<close>

definition example_runtime :: runtime where
  "example_runtime = \<lparr>omp_max_threads = 4, omp_team = \<lambda>k. k, omp_schedule = rev, elementwiseThreshold = 1, tadThreshold = 1\<rparr>"

lemma example_runtime_ok: "runtime_ok example_runtime"
  by (simp add: runtime_ok_def example_runtime_def)

theorem pairwise_exec_elementwise_witness:
  "\<exists>m'. pairwise_exec example_runtime (+) (0, 0) (mk_info [2, 2] [2, 1] 0 1 99) (1, 0) (mk_info [2, 2] [1, 2] 0 1 102)
      (0, 0) (mk_info [2, 2] [2, 1] 0 1 99) ((\<lambda>_. [])(0 := [1, 2, 3, 4], 1 := [10, 20, 30, 40 :: int])) = Some m' \<and>
    cell m' (0, 1) = 32"
proof -
  let ?m = "(\<lambda>_. [])(0 := [1, 2, 3, 4], 1 := [10, 20, 30, 40 :: int])"
  have sh: "pos_shape [2, 2]" by simp
  have "array_at ?m (0, 0) [2, 2] [2, 1] 1 99" "array_at ?m (1, 0) [2, 2] [1, 2] 1 102"
    by (simp_all add: array_at_def ews_right_def small_shape_def extent_def order_coords_def f_coords_def upto.simps)
  moreover have "separate [2, 2] [2, 1]" by (simp add: separate_iff [OF sh] upto.simps)
  moreover have "no_clash [2, 2] (0, 0) [2, 1] (0, 0) [2, 1]" "no_clash [2, 2] (0, 0) [2, 1] (1, 0) [1, 2]"
    by (simp_all add: no_clash_iff [OF sh] upto.simps at_coord_def moved_def)
  ultimately have "pairwise_operands ?m [2, 2] (0, 0) [2, 1] 1 99 (1, 0) [1, 2] 1 102 (0, 0) [2, 1] 1 99"
    by (simp add: pairwise_operands_def)
  from pairwise_exec_elementwise [OF this example_runtime_ok, where opf = "(+)" and fx = 0 and fy = 0 and fz = 0]
  obtain m' where m': "pairwise_exec example_runtime (+) (0, 0) (mk_info [2, 2] [2, 1] 0 1 99) (1, 0)
      (mk_info [2, 2] [1, 2] 0 1 102) (0, 0) (mk_info [2, 2] [2, 1] 0 1 99) ?m = Some m'"
    "\<forall>c. in_box [2, 2] c \<longrightarrow> cell m' (at_coord (0, 0) [2, 1] c) =
      cell ?m (at_coord (0, 0) [2, 1] c) + cell ?m (at_coord (1, 0) [1, 2] c)"
    by (elim exE conjE)
  then have "cell m' (0, 1) = 32"
    using spec [OF m'(2), of "[0, 1]"] by (simp add: at_coord_def moved_def cell_def)
  then show ?thesis using m'(1) by blast
qed

text \<open>
  A scalar operand: the loop over a contiguous array and a contiguous result does not look at their orders. A row-major
  matrix plus a scalar into a column-major matrix comes out transposed.
\<close>

lemma scalar_ignores_order:
  "(do { m \<leftarrow> pairwise_exec example_runtime (+) (0, 0) (mk_info [2, 2] [2, 1] 0 1 99) (1, 0) (mk_info [1, 1] [1, 1] 0 1 99)
      (2, 0) (mk_info [2, 2] [1, 2] 0 1 102) ((\<lambda>_. [])(0 := [1, 2, 3, 4], 1 := [10], 2 := [0, 0, 0, 0 :: int]));
     Some (cell m (at_coord (2, 0) [1, 2] [0, 1])) }) = Some 13"
  by code_simp

text \<open>C36: A pairwise transform of operands of different shapes but equal lengths, where \<open>y\<close> is no scalar, computes every
  element of the result from the elements of the operands with the same number and changes nothing else. Elements are
  counted in row-major order; only where the three orders agree, all element-wise strides are positive and those of \<open>x\<close> and
  \<open>y\<close> are equal, they are counted in the order of the arrays. The result may be \<open>x\<close> itself, and may overlap operands
  otherwise where the numbers of the elements agree.\<close>

theorem pairwise_exec_other_shape:
  assumes "listed_operands m ord x shx stx ex ox y shy sty ey oy z shz stz ez oz" "runtime_ok R"
    and "shx \<noteq> shy" "shy \<notin> {[], [1], [1, 1]}" "x = z \<longrightarrow> shz = shx \<and> stz = stx"
    and "ord = (if ex \<ge> 1 \<and> ey \<ge> 1 \<and> ez \<ge> 1 \<and> ox = oy \<and> oz = ox \<and> ex = ey then ox else 99)"
  shows "\<exists>m'. pairwise_exec R opf x (mk_info shx stx fx ex ox) y (mk_info shy sty fy ey oy) z (mk_info shz stz fz ez oz) m = Some m' \<and>
    (\<forall>i\<in>set [0..prod_list shz - 1]. cell m' (nth_at ord z shz stz i) =
      opf (cell m (nth_at ord x shx stx i)) (cell m (nth_at ord y shy sty i))) \<and>
    same_but m m' (at_coord z stz ` {c. in_box shz c})"
proof -
  have ops: "array_at m x shx stx ex ox" "array_at m y shy sty ey oy" "array_at m z shz stz ez oz"
    "prod_list shx = prod_list shz" "prod_list shy = prod_list shz"
    using assms(1) by (simp_all add: listed_operands_def)
  have pos: "pos_shape shz" "pos_shape shy" "pos_shape shx" "prod_list shz \<le> 2147483647"
    using ops by (simp_all add: array_at_def small_shape_def)
  have orders: "to_char ox = ox" "to_char oy = oy" "to_char oz = oz" using ops(1-3) by (auto simp: array_at_def to_char_def)
  note dims = array_at_dims [OF ops(1)] array_at_dims [OF ops(2)] array_at_dims [OF ops(3)]
  let ?X = "mk_info shx stx fx ex ox" and ?Y = "mk_info shy sty fy ey oy" and ?Z = "mk_info shz stz fz ez oz"
  have len: "shape_length ?X = Some (prod_list shz)" "shape_length ?Y = Some (prod_list shz)"
    using dims pos ops(4,5) by (simp_all add: info_simps)
  have other: "shapeEquals_buf ?X ?Y = Some False"
    using dims assms(3) by (auto simp: shapeEquals_buf_def info_simps shapeEquals_eq)
  have "\<exists>m'. pairwise_exec R opf x ?X y ?Y z ?Z m = Some m' \<and> listed_done opf m ord x shx stx y shy sty z shz stz m'"
  proof (cases "ex \<ge> 1 \<and> ey \<ge> 1 \<and> ez \<ge> 1 \<and> ox = oy \<and> oz = ox \<and> ex = ey")
    case True
    then have "pairwise_exec R opf x ?X y ?Y z ?Z m = pairwise_strided R opf x ex y ey z ez (prod_list shz) m"
      using assms(4) other dims len pos by (simp add: pairwise_exec_def info_simps isScalar_mk_info orders)
    moreover have "listed_operands m ord x shx stx ex ord y shy sty ey ord z shz stz ez ord"
      using assms(1,6) True by simp
    from listed_strided_ok [OF this assms(2), of opf]
    have "\<exists>m'. pairwise_strided R opf x ex y ey z ez (prod_list shz) m = Some m' \<and>
        listed_done opf m ord x shx stx y shy sty z shz stz m'" using True by blast
    ultimately show ?thesis by simp
  next
    case False
    then have "pairwise_exec R opf x ?X y ?Y z ?Z m = pairwise_coords R opf x ?X y ?Y z ?Z m"
      using assms(4) other dims len pos by (simp add: pairwise_exec_def info_simps isScalar_mk_info orders) blast
    moreover have ord: "ord = 99" using assms(6) False by simp
    ultimately show ?thesis using coords_ok [OF assms(1) [unfolded ord] assms(2,5)] by (simp only: ord)
  qed
  then show ?thesis using nth_at_image [OF pos(1), of ord z stz] by (auto simp: listed_done_def results_def)
qed

text \<open>A row-major matrix of two rows plus a column-major one of three, into the first.\<close>

theorem pairwise_exec_other_shape_witness:
  "\<exists>m'. pairwise_exec example_runtime (+) (0, 0) (mk_info [2, 3] [3, 1] 0 1 99) (1, 0) (mk_info [3, 2] [1, 3] 0 1 102)
      (0, 0) (mk_info [2, 3] [3, 1] 0 1 99) ((\<lambda>_. [])(0 := [1, 2, 3, 4, 5, 6], 1 := [10, 30, 50, 20, 40, 60 :: int])) = Some m' \<and>
    cell m' (0, 1) = 22"
proof -
  let ?m = "(\<lambda>_. [])(0 := [1, 2, 3, 4, 5, 6], 1 := [10, 30, 50, 20, 40, 60 :: int])"
  have sh: "pos_shape [2, 3]" by simp
  have "array_at ?m (0, 0) [2, 3] [3, 1] 1 99" "array_at ?m (1, 0) [3, 2] [1, 3] 1 102"
    by (simp_all add: array_at_def ews_right_def small_shape_def extent_def order_coords_def f_coords_def upto.simps)
  moreover have "separate [2, 3] [3, 1]" by (simp add: separate_iff [OF sh] upto.simps)
  moreover have "apart 99 (0, 0) [2, 3] [3, 1] (0, 0) [2, 3] [3, 1]" "apart 99 (0, 0) [2, 3] [3, 1] (1, 0) [3, 2] [1, 3]"
    by (simp_all add: apart_def nth_at_def order_coords_def upto.simps at_coord_def moved_def)
  ultimately have "listed_operands ?m 99 (0, 0) [2, 3] [3, 1] 1 99 (1, 0) [3, 2] [1, 3] 1 102 (0, 0) [2, 3] [3, 1] 1 99"
    by (simp add: listed_operands_def)
  from pairwise_exec_other_shape [OF this example_runtime_ok, where opf = "(+)" and fx = 0 and fy = 0 and fz = 0]
  obtain m' where m': "pairwise_exec example_runtime (+) (0, 0) (mk_info [2, 3] [3, 1] 0 1 99) (1, 0)
      (mk_info [3, 2] [1, 3] 0 1 102) (0, 0) (mk_info [2, 3] [3, 1] 0 1 99) ?m = Some m'"
    "\<forall>i\<in>set [0..prod_list [2, 3] - 1]. cell m' (nth_at 99 (0, 0) [2, 3] [3, 1] i) =
      cell ?m (nth_at 99 (0, 0) [2, 3] [3, 1] i) + cell ?m (nth_at 99 (1, 0) [3, 2] [1, 3] i)"
    by (auto simp del: prod_list.Cons)
  then have "cell m' (0, 1) = 22"
    using bspec [OF m'(2), of 1] by (simp add: nth_at_def order_coords_def at_coord_def moved_def cell_def)
  then show ?thesis using m'(1) by blast
qed

text \<open>
  A scalar operand: every element of the result from the element of \<open>x\<close> with the same coordinates and the scalar. The loop
  over a contiguous array and a contiguous result does not look at their orders (\<open>scalar_ignores_order\<close>), so these must
  agree there.
\<close>

theorem pairwise_exec_scalar:
  assumes "array_at m x sh stx ex ox" "array_at m z sh stz ez oz" "separate sh stz" "no_clash sh z stz x stx"
    and "shy \<in> {[], [1], [1, 1]}" "length sty = length shy"
    and "valid m y" "\<forall>c. in_box sh c \<longrightarrow> at_coord z stz c = y \<longrightarrow> prod_list sh = 1" "runtime_ok R"
    and "ex = 1 \<longrightarrow> ez = 1 \<longrightarrow> oz = ox"
  shows "\<exists>m'. pairwise_exec R opf x (mk_info sh stx fx ex ox) y (mk_info shy sty fy ey oy) z (mk_info sh stz fz ez oz) m = Some m' \<and>
    results m {c. in_box sh c} (at_coord z stz) (\<lambda>c. opf (cell m (at_coord x stx c)) (cell m y)) m'"
proof -
  have sm: "pos_shape shy" "dims_ok shy sty" using assms(5,6) by (auto simp: dims_ok_def)
  have "small_shape sh" using assms(1) by (simp add: array_at_def)
  then have "pairwise_exec R opf x (mk_info sh stx fx ex ox) y (mk_info shy sty fy ey oy) z (mk_info sh stz fz ez oz) m =
      pairwise_scalar R opf x (mk_info sh stx fx ex ox) y z (mk_info sh stz fz ez oz) m"
    using assms(5) sm array_at_dims [OF assms(1)] array_at_dims [OF assms(2)]
    by (simp add: pairwise_exec_def info_simps isScalar_mk_info small_shape_def)
  then show ?thesis using scalar_ok [OF assms(1-4,7-9)] assms(10) by simp
qed

end
