(* ===== verification/ScalarLoops.thy ===== *)
theory ScalarLoops
  imports PairwiseLoops
begin

text \<open>
  Transforms with a scalar (\<open>include/loops/cpu/scalar.cpp\<close>): an operation on every element of an array and one number.
  The operation with the extra parameters is an argument, as in the theory \<open>PairwiseLoops\<close>.
\<close>

section \<open>The code\<close>

text \<open>\<open>result[k] = OpType::op(x[i], scalar, extraParams)\<close>.\<close>

definition scalar_cell :: "('t \<Rightarrow> 't \<Rightarrow> 't) \<Rightarrow> 't \<Rightarrow> position \<Rightarrow> position \<Rightarrow> 't buffers \<Rightarrow> 't buffers option" where
  "scalar_cell opf scalar x result m = do { a \<leftarrow> load m x; store m result (opf a scalar) }"

definition scalar_indexes :: "runtime \<Rightarrow> ('t \<Rightarrow> 't \<Rightarrow> 't) \<Rightarrow> position \<Rightarrow> int list \<Rightarrow> position \<Rightarrow> 't \<Rightarrow>
    int list \<Rightarrow> int list \<Rightarrow> 't buffers \<Rightarrow> 't buffers option" where
  "scalar_indexes R opf x xShapeInfo result scalar indexes resultIndexes m = do {
     n \<leftarrow> shape_length xShapeInfo;
     parallel_for R (\<lambda>i m. do {
       k \<leftarrow> rd resultIndexes i;
       j \<leftarrow> rd indexes i;
       scalar_cell opf scalar (moved x j) (moved result k) m }) n m }"

text \<open>The number of threads is fixed to one.\<close>

definition scalar_strided :: "runtime \<Rightarrow> ('t \<Rightarrow> 't \<Rightarrow> 't) \<Rightarrow> position \<Rightarrow> int \<Rightarrow> position \<Rightarrow> int \<Rightarrow> 't \<Rightarrow> int \<Rightarrow>
    't buffers \<Rightarrow> 't buffers option" where
  "scalar_strided R opf x xStride result resultStride scalar n m = (
     let num_threads = 1; span = 100;
         body = (if xStride = 1 \<and> resultStride = 1
           then (\<lambda>i. scalar_cell opf scalar (moved x i) (moved result i))
           else (\<lambda>i m. do {
             k \<leftarrow> i64 (i * resultStride);
             j \<leftarrow> i64 (i * xStride);
             scalar_cell opf scalar (moved x j) (moved result k) m }))
     in if num_threads > 1 then thread_region R body span num_threads n m else parallel_for R body n m)"

text \<open>\<open>ind2sub\<close> into a new array, and the offset, with the offset cell of the shape information as base.\<close>

definition offset_ind2sub :: "int \<Rightarrow> int list \<Rightarrow> int list \<Rightarrow> int \<Rightarrow> int \<Rightarrow> int option" where
  "offset_ind2sub rnk shp str base i = do {
     coord \<leftarrow> ind2sub_infer_new rnk shp i;
     getOffset base shp str coord rnk }"

definition scalar_shaped :: "runtime \<Rightarrow> ('t \<Rightarrow> 't \<Rightarrow> 't) \<Rightarrow> position \<Rightarrow> int list \<Rightarrow> position \<Rightarrow> int list \<Rightarrow> 't \<Rightarrow>
    't buffers \<Rightarrow> 't buffers option" where
  "scalar_shaped R opf x xShapeInfo result resultShapeInfo scalar m = do {
     xOrdering \<leftarrow> shape_order xShapeInfo;
     resultOrdering \<leftarrow> shape_order resultShapeInfo;
     xEws \<leftarrow> shape_ews xShapeInfo;
     resultEws \<leftarrow> shape_ews resultShapeInfo;
     if xEws = 1 \<and> resultEws = 1 \<and> xOrdering = resultOrdering then do {
       n \<leftarrow> shape_length xShapeInfo;
       scalar_strided R opf x 1 result 1 scalar n m }
     else if xOrdering \<noteq> resultOrdering \<or> xEws < 1 \<or> resultEws < 0 then do {
       xShape \<leftarrow> shapeOf xShapeInfo;
       xStride \<leftarrow> shape_stride xShapeInfo;
       resultStride \<leftarrow> shape_stride resultShapeInfo;
       rnk \<leftarrow> shape_rank xShapeInfo;
       it \<leftarrow> PrepareTwoRawArrayIter rnk xShape [snd x, snd result] [xStride, resultStride]
         (replicate 32 undefined) (replicate 2 (replicate 32 undefined));
       raw_iterate (\<lambda>ps. case ps of [px, pz] \<Rightarrow> scalar_cell opf scalar (fst x, px) (fst result, pz) | _ \<Rightarrow> \<lambda>_. None) it m }
     else do {
       n \<leftarrow> shape_length xShapeInfo;
       if xEws \<ge> 1 \<and> resultEws \<ge> 1 then scalar_strided R opf x xEws result resultEws scalar n m
       else do {
         xShape \<leftarrow> shapeOf xShapeInfo;
         resultShape \<leftarrow> shapeOf resultShapeInfo;
         xStride \<leftarrow> shape_stride xShapeInfo;
         resultStride \<leftarrow> shape_stride resultShapeInfo;
         xRank \<leftarrow> shape_rank xShapeInfo;
         resultRank \<leftarrow> shape_rank resultShapeInfo;
         xOffset \<leftarrow> shape_offset xShapeInfo;
         resultOffset \<leftarrow> shape_offset resultShapeInfo;
         parallel_for R (\<lambda>i m. do {
           xOffset2 \<leftarrow> offset_ind2sub xRank xShape xStride xOffset i;
           resultOffset2 \<leftarrow> offset_ind2sub resultRank resultShape resultStride resultOffset i;
           scalar_cell opf scalar (moved x xOffset2) (moved result resultOffset2) m }) n m } } }"

section \<open>Lemmas\<close>

text \<open>The arrays of a transform of one array into another.\<close>

definition unary_operands :: "'t buffers \<Rightarrow> int list \<Rightarrow> position \<Rightarrow> int list \<Rightarrow> int \<Rightarrow> int \<Rightarrow> position \<Rightarrow> int list \<Rightarrow> int \<Rightarrow> int \<Rightarrow> bool" where
  "unary_operands m sh x stx ex ox z stz ez oz \<longleftrightarrow>
     array_at m x sh stx ex ox \<and> array_at m z sh stz ez oz \<and> separate sh stz \<and> no_clash sh z stz x stx"

definition unary_done :: "('t \<Rightarrow> 't) \<Rightarrow> 't buffers \<Rightarrow> int list \<Rightarrow> position \<Rightarrow> int list \<Rightarrow> position \<Rightarrow> int list \<Rightarrow> 't buffers \<Rightarrow> bool" where
  "unary_done f m sh x stx z stz m' \<longleftrightarrow>
     results m {c. in_box sh c} (at_coord z stz) (\<lambda>c. f (cell m (at_coord x stx c))) m'"

lemma unary_loop:
  assumes "unary_operands m sh x stx ex ox z stz ez oz"
    and "distinct xs" "bij_betw c (set xs) {d. in_box sh d}"
    and "\<And>i m'. i \<in> set xs \<Longrightarrow> body i m' = scalar_cell opf s (at_coord x stx (c i)) (at_coord z stz (c i)) m'"
  shows "\<exists>m'. mfor body xs m = Some m' \<and> unary_done (\<lambda>a. opf a s) m sh x stx z stz m'"
  unfolding unary_done_def
proof (rule coords_loop [where ez = ez and oz = oz, OF _ _ assms(2,3)])
  fix i m' assume i: "i \<in> set xs" "same_but m m' (at_coord z stz ` {d. in_box sh d \<and> d \<noteq> c i})"
  have "in_box sh (c i)" using assms(3) i(1) by (auto simp: bij_betw_def)
  then have "load m' (at_coord x stx (c i)) = Some (cell m (at_coord x stx (c i)))"
    using load_source [of m x sh stx ex ox z stz "c i" m'] assms(1) i(2) by (simp add: unary_operands_def)
  then show "body i m' = store m' (at_coord z stz (c i)) (opf (cell m (at_coord x stx (c i))) s)"
    using assms(4) i by (simp add: scalar_cell_def)
qed (use assms(1) in \<open>simp_all add: unary_operands_def\<close>)

lemma ews_wide:
  assumes "array_at m p sh st e o'" "1 \<le> e" "i \<in> set [0..prod_list sh - 1]"
  shows "i64 (i * e) = Some (i * e)"
proof -
  have "0 \<le> i" "i \<le> 2147483647" "e \<le> 2147483647" using assms by (auto simp: array_at_def small_shape_def)
  then have "0 \<le> i * e" "i * e \<le> 2147483647 * 2147483647" using assms(2) mult_mono [of i 2147483647 e 2147483647] by auto
  then show ?thesis by (simp add: i64_def)
qed

lemma scalar_strided_ok:
  assumes "unary_operands m sh x stx ex ox z stz ez oz" "runtime_ok R" "1 \<le> ex" "1 \<le> ez" "oz = ox"
  shows "\<exists>m'. scalar_strided R opf x ex z ez s (prod_list sh) m = Some m' \<and> unary_done (\<lambda>a. opf a s) m sh x stx z stz m'"
proof -
  have ops: "array_at m x sh stx ex ox" "array_at m z sh stz ez oz" "pos_shape sh"
    using assms(1) by (simp_all add: unary_operands_def array_at_def small_shape_def)
  define body where "body = (if ex = 1 \<and> ez = 1
           then (\<lambda>i. scalar_cell opf s (moved x i) (moved z i))
           else (\<lambda>i m. do {
             k \<leftarrow> i64 (i * ez);
             j \<leftarrow> i64 (i * ex);
             scalar_cell opf s (moved x j) (moved z k) m }))"
  have body: "body i m' = scalar_cell opf s (at_coord x stx (order_coords ox sh i)) (at_coord z stz (order_coords ox sh i)) m'"
    if "i \<in> set [0..prod_list sh - 1]" for i m'
    using ews_wide [OF ops(1) assms(3) that] ews_wide [OF ops(2) assms(4) that]
      array_at_ews [OF ops(1) assms(3) that] array_at_ews [OF ops(2) assms(4) that] assms(5)
    by (auto simp: body_def)
  obtain xs where xs: "parallel_for R body (prod_list sh) m = mfor body xs m" "distinct xs" "set xs = set [0..prod_list sh - 1]"
    by (rule parallel_forE [OF assms(2)])
  have "\<exists>m'. mfor body xs m = Some m' \<and> unary_done (\<lambda>a. opf a s) m sh x stx z stz m'"
    using body xs(3) order_coords_bij [OF ops(3), of ox] by (intro unary_loop [OF assms(1) xs(2)]) (simp_all only: xs(3))
  then show ?thesis using xs(1) by (simp add: scalar_strided_def Let_def body_def)
qed

lemma scalar_raw_ok:
  assumes "unary_operands m sh x stx ex ox z stz ez oz"
  shows "\<exists>it m'. PrepareTwoRawArrayIter (int (length sh)) (sh @ stx @ [fx, ex, ox]) [snd x, snd z]
      [stx @ [fx, ex, ox], stz @ [fz, ez, oz]] (replicate 32 undefined) (replicate 2 (replicate 32 undefined)) = Some it \<and>
    raw_iterate (\<lambda>ps. case ps of [px, pz] \<Rightarrow> scalar_cell opf s (fst x, px) (fst z, pz) | _ \<Rightarrow> \<lambda>_. None) it m = Some m' \<and>
    unary_done (\<lambda>a. opf a s) m sh x stx z stz m'"
proof -
  let ?body = "\<lambda>ps. case ps of [px, pz] \<Rightarrow> scalar_cell opf s (fst x, px) (fst z, pz) | _ \<Rightarrow> \<lambda>_. None"
  let ?sts = "[stx @ [fx, ex, ox], stz @ [fz, ez, oz]]"
  have ops: "array_at m x sh stx ex ox" "array_at m z sh stz ez oz" "small_shape sh" "pos_shape sh" "length sh \<le> 32"
    "length stx = length sh" "length stz = length sh"
    using assms(1) by (simp_all add: unary_operands_def array_at_def small_shape_def)
  have "raw_operands sh (sh @ stx @ [fx, ex, ox]) [snd x, snd z] ?sts (replicate 32 undefined) (replicate 2 (replicate 32 undefined))"
    using ops array_at_fits [OF ops(1)] array_at_fits [OF ops(2)]
    by (auto simp: raw_operands_def fits_def nth_append list_all_iff)
  from PrepareTwoRawArrayIter_iterates [OF this, where 's = "'a buffers"]
  obtain it where it: "PrepareTwoRawArrayIter (int (length sh)) (sh @ stx @ [fx, ex, ox]) [snd x, snd z] ?sts
      (replicate 32 undefined) (replicate 2 (replicate 32 undefined)) = Some it"
    "raw_iterate ?body it m = mfor (\<lambda>c. ?body (at_coords [snd x, snd z] ?sts c)) (visit_order sh (hd ?sts)) m"
    by blast
  have "\<exists>m'. mfor (\<lambda>c. ?body (at_coords [snd x, snd z] ?sts c)) (visit_order sh (hd ?sts)) m = Some m' \<and>
      unary_done (\<lambda>a. opf a s) m sh x stx z stz m'"
  proof (rule unary_loop [OF assms distinct_visit_order [OF ops(4)]])
    show "bij_betw id (set (visit_order sh (hd ?sts))) {d. in_box sh d}"
      unfolding visit_order_set [OF ops(4)] by (rule bij_betw_id)
    fix c m' assume "c \<in> set (visit_order sh (hd ?sts))"
    then have "length c = length sh" by (auto simp: visit_order_def)
    then have "dot c (stx @ [fx, ex, ox]) = dot c stx" "dot c (stz @ [fz, ez, oz]) = dot c stz"
      using ops dot_append [of c stx "[]"] dot_append [of c stz "[]"] by simp_all
    then show "?body (at_coords [snd x, snd z] ?sts c) m' =
        scalar_cell opf s (at_coord x stx (id c)) (at_coord z stz (id c)) m'"
      by (simp add: at_coords_def at_coord_def moved_def)
  qed
  then show ?thesis using it by auto
qed

lemma offset_ind2sub_eq:
  assumes "array_at m p sh st e o'" "i \<in> set [0..prod_list sh - 1]"
  shows "offset_ind2sub (int (length sh)) (sh @ ws) (st @ vs) 0 i = Some (dot (f_coords sh i) st)"
proof -
  have sh: "small_shape sh" "pos_shape sh" "length st = length sh" "nonneg st"
    using assms(1) by (simp_all add: array_at_def small_shape_def)
  have box: "in_box sh (f_coords sh i)" using f_coords_in_box [OF sh(2)] assms(2) by simp
  have "ind2sub_infer_new (int (length sh)) (sh @ ws) i = Some (f_coords sh i)"
    using assms(2) sh by (intro ind2sub_infer_new_eq) (auto simp: small_shape_def)
  moreover have "getOffset 0 (sh @ ws) (st @ vs) (f_coords sh i) (int (length sh)) = Some (0 + dot (f_coords sh i) st)"
    using box sh array_at_valid [OF assms(1) box] by (intro getOffset_eq) auto
  ultimately show ?thesis by (simp add: offset_ind2sub_def)
qed

section \<open>Properties\<close>

text \<open>C5: A transform of an array with a scalar computes every element of the result from the element with the same
  coordinates and the scalar, and changes nothing else, for all strides and orders, also in place. Where the element-wise stride of
  the result is 0 the code adds the offset cells of the two descriptions, which must be 0 then.\<close>

theorem scalar_shaped_elementwise:
  assumes "unary_operands m sh x stx ex ox z stz ez oz" "runtime_ok R" "ez = 0 \<longrightarrow> fx = 0 \<and> fz = 0"
  shows "\<exists>m'. scalar_shaped R opf x (mk_info sh stx fx ex ox) z (mk_info sh stz fz ez oz) s m = Some m' \<and>
    (\<forall>c. in_box sh c \<longrightarrow> cell m' (at_coord z stz c) = opf (cell m (at_coord x stx c)) s) \<and>
    same_but m m' (at_coord z stz ` {c. in_box sh c})"
proof -
  have ops: "array_at m x sh stx ex ox" "array_at m z sh stz ez oz" "pos_shape sh" "prod_list sh \<le> 2147483647"
    using assms(1) by (simp_all add: unary_operands_def array_at_def small_shape_def)
  have orders: "to_char ox = ox" "to_char oz = oz" using ops(1,2) by (auto simp: array_at_def to_char_def)
  note dims = array_at_dims [OF ops(1)] array_at_dims [OF ops(2)]
  let ?X = "mk_info sh stx fx ex ox" and ?Z = "mk_info sh stz fz ez oz"
  have "\<exists>m'. scalar_shaped R opf x ?X z ?Z s m = Some m' \<and> unary_done (\<lambda>a. opf a s) m sh x stx z stz m'"
  proof -
    consider "ex = 1 \<and> ez = 1 \<and> ox = oz" | "\<not> (ex = 1 \<and> ez = 1 \<and> ox = oz)" "ox \<noteq> oz \<or> ex < 1 \<or> ez < 0"
      | "\<not> (ex = 1 \<and> ez = 1 \<and> ox = oz)" "ox = oz" "1 \<le> ex" "1 \<le> ez" | "ox = oz" "1 \<le> ex" "ez = 0" by linarith
    then show ?thesis
    proof cases
      case 1
      then have "scalar_shaped R opf x ?X z ?Z s m = scalar_strided R opf x ex z ez s (prod_list sh) m"
        using ops dims by (simp add: scalar_shaped_def info_simps)
      then show ?thesis using scalar_strided_ok [OF assms(1,2)] 1 by simp
    next
      case 2
      then show ?thesis
        using scalar_raw_ok [OF assms(1), of fx fz opf s] dims
        by (auto simp: scalar_shaped_def info_simps orders)
    next
      case 3
      then have "scalar_shaped R opf x ?X z ?Z s m = scalar_strided R opf x ex z ez s (prod_list sh) m"
        using ops dims by (auto simp: scalar_shaped_def info_simps)
      then show ?thesis using scalar_strided_ok [OF assms(1,2)] 3 by simp
    next
      case 4
      then have f: "fx = 0" "fz = 0" using assms(3) by simp_all
      define body where "body i m' = (do {
           a \<leftarrow> offset_ind2sub (int (length sh)) (sh @ stx @ [0, ex, ox]) (stx @ [0, ex, ox]) 0 i;
           b \<leftarrow> offset_ind2sub (int (length sh)) (sh @ stz @ [0, ez, oz]) (stz @ [0, ez, oz]) 0 i;
           scalar_cell opf s (moved x a) (moved z b) m' })" for i m'
      obtain xs where xs: "parallel_for R body (prod_list sh) m = mfor body xs m" "distinct xs" "set xs = set [0..prod_list sh - 1]"
        by (rule parallel_forE [OF assms(2)])
      have "body i m' = scalar_cell opf s (at_coord x stx (order_coords 102 sh i)) (at_coord z stz (order_coords 102 sh i)) m'"
        if "i \<in> set xs" for i m'
        using offset_ind2sub_eq [OF ops(1)] offset_ind2sub_eq [OF ops(2)] that xs(3)
        by (simp add: body_def order_coords_def at_coord_def)
      moreover have "bij_betw (order_coords 102 sh) (set xs) {d. in_box sh d}"
        unfolding xs(3) by (rule order_coords_bij [OF ops(3)])
      ultimately have "\<exists>m'. mfor body xs m = Some m' \<and> unary_done (\<lambda>a. opf a s) m sh x stx z stz m'"
        by (intro unary_loop [OF assms(1) xs(2)])
      moreover have "scalar_shaped R opf x ?X z ?Z s m = parallel_for R body (prod_list sh) m"
        using 4 ops dims f by (simp add: scalar_shaped_def info_simps orders body_def [abs_def])
      ultimately show ?thesis using xs(1) by simp
    qed
  qed
  then show ?thesis by (auto simp: unary_done_def results_def)
qed

text \<open>A column-major matrix plus a number, into a row-major one, next to each other in one buffer.\<close>

theorem scalar_shaped_elementwise_witness:
  "\<exists>m'. scalar_shaped example_runtime (+) (0, 0) (mk_info [2, 2] [1, 2] 0 1 102) (0, 4) (mk_info [2, 2] [2, 1] 0 1 99) 10
      ((\<lambda>_. [])(0 := [1, 2, 3, 4, 0, 0, 0, 0 :: int])) = Some m' \<and> cell m' (0, 5) = 13"
proof -
  let ?m = "(\<lambda>_. [])(0 := [1, 2, 3, 4, 0, 0, 0, 0 :: int])"
  have sh: "pos_shape [2, 2]" by simp
  have "array_at ?m (0, 0) [2, 2] [1, 2] 1 102" "array_at ?m (0, 4) [2, 2] [2, 1] 1 99"
    by (simp_all add: array_at_def ews_right_def small_shape_def extent_def order_coords_def f_coords_def upto.simps)
  moreover have "separate [2, 2] [2, 1]" by (simp add: separate_iff [OF sh] upto.simps)
  moreover have "no_clash [2, 2] (0, 4) [2, 1] (0, 0) [1, 2]"
    by (simp add: no_clash_iff [OF sh] upto.simps at_coord_def moved_def)
  ultimately have "unary_operands ?m [2, 2] (0, 0) [1, 2] 1 102 (0, 4) [2, 1] 1 99"
    by (simp add: unary_operands_def)
  from scalar_shaped_elementwise [OF this example_runtime_ok, where opf = "(+)" and fx = 0 and fz = 0 and s = 10]
  obtain m' where m': "scalar_shaped example_runtime (+) (0, 0) (mk_info [2, 2] [1, 2] 0 1 102) (0, 4)
      (mk_info [2, 2] [2, 1] 0 1 99) 10 ?m = Some m'"
    "\<forall>c. in_box [2, 2] c \<longrightarrow> cell m' (at_coord (0, 4) [2, 1] c) = cell ?m (at_coord (0, 0) [1, 2] c) + 10"
    by auto
  then have "cell m' (0, 5) = 13"
    using spec [OF m'(2), of "[0, 1]"] by (simp add: at_coord_def moved_def cell_def)
  then show ?thesis using m'(1) by blast
qed

end
