(* ===== verification/ArrayOps.thy ===== *)
theory ArrayOps
  imports ShapeInfo
begin

text \<open>
  The array utilities of \<open>include/helpers/shape.h\<close>: selecting and removing the entries
  at given indexes, ranges, reversed copies, concatenation, and the normalisation of a
  list of dimensions (\<open>checkDimensions\<close>).
\<close>

section \<open>The code\<close>

text \<open>The inner search loop of \<open>removeIndex\<close>, \<open>everyIndexBut\<close> and \<open>keep\<close>.\<close>

definition contains_index :: "int list \<Rightarrow> int \<Rightarrow> int \<Rightarrow> bool option" where
  "contains_index indexes indexesLength i = do {
     q \<leftarrow> mret (\<lambda>j s. do {
         x \<leftarrow> rd indexes j; Some (if i = x then Inl True else Inr s) }) [0..indexesLength - 1] ();
     Some (case q of Inl r \<Rightarrow> r | Inr _ \<Rightarrow> False) }"

text \<open>The loop condition \<open>count < absLength\<close> stays false once it is false, so the body is skipped
  from then on.\<close>

definition removeIndex :: "int list \<Rightarrow> int list \<Rightarrow> int \<Rightarrow> int \<Rightarrow> int list \<Rightarrow> int list option" where
  "removeIndex data indexes dataLength indexesLength ret = do {
     absLength \<leftarrow> i32 (dataLength - indexesLength);
     (ret, count) \<leftarrow> mfor (\<lambda>i (ret, count).
         if count < absLength then do {
           c \<leftarrow> contains_index indexes indexesLength i;
           if \<not> c then do { v \<leftarrow> rd data i; append_cell v (ret, count) }
           else Some (ret, count) }
         else Some (ret, count)) [0..dataLength - 1] (ret, 0);
     Some ret }"

definition removeIndex_new :: "int list \<Rightarrow> int list \<Rightarrow> int \<Rightarrow> int \<Rightarrow> int list option" where
  "removeIndex_new data indexes dataLength indexesLength = do {
     lengthOfArr \<leftarrow> i32 (dataLength - indexesLength);
     _ \<leftarrow> new_int lengthOfArr;
     removeIndex data indexes dataLength indexesLength (replicate (nat lengthOfArr) 0) }"

definition everyIndexBut :: "int list \<Rightarrow> int \<Rightarrow> int \<Rightarrow> int \<Rightarrow> int list option" where
  "everyIndexBut indexes indexesLength begin' end' = do {
     len \<leftarrow> i32 (end' - indexesLength);
     ret \<leftarrow> new_int len;
     (ret, retIdx) \<leftarrow> mfor (\<lambda>i (ret, retIdx). do {
         found \<leftarrow> contains_index indexes indexesLength i;
         if \<not> found then append_cell i (ret, retIdx) else Some (ret, retIdx) })
       [begin'..end' - 1] (ret, 0);
     Some ret }"

definition keep :: "int list \<Rightarrow> int list \<Rightarrow> int \<Rightarrow> int \<Rightarrow> int list option" where
  "keep data index indexLength dataLength = do {
     ret \<leftarrow> new_int indexLength;
     (ret, count) \<leftarrow> mfor (\<lambda>i (ret, count). do {
         c \<leftarrow> contains_index index indexLength i;
         if c then do { v \<leftarrow> rd data i; append_cell v (ret, count) } else Some (ret, count) })
       [0..dataLength - 1] (ret, 0);
     Some ret }"

definition ensureVectorShape :: "int list \<Rightarrow> int \<Rightarrow> int list option" where
  "ensureVectorShape shp dimension = do {
     d \<leftarrow> rd shp 0; Some (if dimension = 0 then [1, d] else [d, 1]) }"

definition ensureVectorShape0 :: "int list \<Rightarrow> int list option" where
  "ensureVectorShape0 shp = ensureVectorShape shp 0"

text \<open>The two loops of \<open>range\<close>.\<close>

partial_function (option) range_up :: "int \<Rightarrow> int \<Rightarrow> int \<Rightarrow> int \<Rightarrow> int list \<times> int \<Rightarrow> int list option" where
  "range_up i to' increment retLength s =
     (if i < to' then
        (if snd s \<ge> retLength then Some (fst s)
         else do {
           s \<leftarrow> append_cell i s;
           i \<leftarrow> i32 (i + increment);
           range_up i to' increment retLength s })
      else Some (fst s))"

partial_function (option) range_down :: "int \<Rightarrow> int \<Rightarrow> int \<Rightarrow> int \<Rightarrow> int list \<times> int \<Rightarrow> int list option" where
  "range_down i to' increment retLength s =
     (if i \<ge> to' then
        (if snd s \<ge> retLength then Some (fst s)
         else do {
           s \<leftarrow> append_cell i s;
           i \<leftarrow> i32 (i - increment);
           range_down i to' increment retLength s })
      else Some (fst s))"

declare range_up.simps [code]
declare range_down.simps [code]

definition shape_range :: "int \<Rightarrow> int \<Rightarrow> int \<Rightarrow> int list option" where
  "shape_range from' to' increment = do {
     d \<leftarrow> i32 (from' - to');
     diff \<leftarrow> (if d < 0 then i32 (- d) else Some d);
     retLength \<leftarrow> div32 diff increment;
     ret \<leftarrow> new_int (if retLength < 1 then 1 else retLength);
     if from' < to' then range_up from' to' increment retLength (ret, 0)
     else if from' > to' then do {
       i \<leftarrow> i32 (from' - 1);
       range_down i to' increment retLength (ret, 0) }
     else Some ret }"

definition shape_range1 :: "int \<Rightarrow> int \<Rightarrow> int list option" where
  "shape_range1 from' to' = shape_range from' to' 1"

text \<open>One step of the reversing loops: the cells \<open>i\<close> and \<open>length - i - 1\<close> of the target.\<close>

definition reverse_step :: "(int \<Rightarrow> int option) \<Rightarrow> int \<Rightarrow> int \<Rightarrow> int list \<Rightarrow> int list option" where
  "reverse_step src len i to' = do {
     temp \<leftarrow> src i;
     v \<leftarrow> src (len - i - 1);
     to' \<leftarrow> wr to' i v;
     wr to' (len - i - 1) temp }"

text \<open>\<open>None\<close> in the inner option is the null pointer.\<close>

definition reverseCopy :: "int list \<Rightarrow> int \<Rightarrow> int list option option" where
  "reverseCopy data len =
     (if len < 1 then Some None
      else do {
        copy \<leftarrow> new_int len;
        copy \<leftarrow> mfor (reverse_step (rd data) len) [0..len div 2] copy;
        Some (Some copy) })"

definition reverseCopyTo :: "int list \<Rightarrow> int list \<Rightarrow> int \<Rightarrow> int list option" where
  "reverseCopyTo from' to' len =
     (if len < 1 then Some to' else mfor (reverse_step (rd from') len) [0..len div 2] to')"

definition reverseCopyTo_indexes :: "int list \<Rightarrow> int list \<Rightarrow> int list \<Rightarrow> int \<Rightarrow> int list option" where
  "reverseCopyTo_indexes from' to' indexes len =
     (if len < 1 then Some to'
      else mfor (reverse_step (\<lambda>i. do { j \<leftarrow> rd indexes i; rd from' j }) len) [0..len div 2] to')"

definition shape_concat :: "int list \<Rightarrow> int \<Rightarrow> int list \<Rightarrow> int \<Rightarrow> int list option" where
  "shape_concat arr1 arr1Length arr2 arr2Length = do {
     n \<leftarrow> i32 (arr1Length + arr2Length);
     ret \<leftarrow> new_int n;
     ret \<leftarrow> memcpy_int ret arr1 arr1Length;
     on_ptr ret arr1Length (\<lambda>p. memcpy_int p arr2 arr2Length) }"

definition shape_concat_arrays :: "int \<Rightarrow> int \<Rightarrow> int list list \<Rightarrow> int list \<Rightarrow> int list option" where
  "shape_concat_arrays numArrays numTotalElements arr lengths = do {
     ret \<leftarrow> new_int numTotalElements;
     (ret, count) \<leftarrow> mfor (\<lambda>i s. do {
         n \<leftarrow> rd lengths i;
         mfor (\<lambda>j s. do { a \<leftarrow> rd arr i; v \<leftarrow> rd a j; append_cell v s }) [0..n - 1] s })
       [0..numArrays - 1] (ret, 0);
     Some ret }"

text \<open>
  \<open>checkDimensions\<close> throws strings. \<open>std::sort\<close> is \<open>sort\<close>, and \<open>erase\<close> of \<open>std::unique\<close>
  removes adjacent duplicates.
\<close>

definition checkDimensions :: "int \<Rightarrow> int list \<Rightarrow> (string + int list) option" where
  "checkDimensions rnk dimensions =
     (let dimSize = int (length dimensions) in
      if dimSize = 0 then Some (Inl ''shape::checkDimensions method: array of dimensions is empty!'')
      else do {
        dimensions \<leftarrow> mfor (\<lambda>i dimensions. do {
            dim \<leftarrow> rd dimensions i;
            if dim < 0 then do { d \<leftarrow> i32 (dim + rnk); wr dimensions i d } else Some dimensions })
          [0..dimSize - 1] dimensions;
        let dimensions = (if dimSize > 1 then remdups_adj (sort dimensions) else dimensions);
        let dimSize = int (length dimensions);
        if dimSize > rnk then
          Some (Inl ''shape::checkDimensions method: number of input dimensions is too big ( > rank of array) !'')
        else do {
          first \<leftarrow> rd dimensions 0;
          r1 \<leftarrow> i32 (rnk - 1);
          if first < 0 \<or> last dimensions > r1 then
            Some (Inl ''shape::checkDimensions method: the negative dimension is still present in input array after transform or the too big dimension is present ( > rank of array) !'')
          else Some (Inr dimensions) } })"

section \<open>Selecting entries\<close>

lemma contains_index_eq:
  assumes "n \<le> length idx"
  shows "contains_index idx (int n) i = Some (i \<in> set (take n idx))"
proof -
  have "mret (\<lambda>j s. do { x \<leftarrow> rd idx j; Some (if i = x then Inl True else Inr s) }) [0..int n - 1] () =
        Some (if \<exists>j\<in>set [0..int n - 1]. i = idx ! nat j then Inl True else Inr ())"
    using assms by (intro mret_search) (auto simp: rd_def)
  moreover have "(\<exists>j\<in>set [0..int n - 1]. i = idx ! nat j) \<longleftrightarrow> i \<in> set (take n idx)"
    unfolding bex_upto_nat using assms by (auto simp: in_set_conv_nth)
  ultimately show ?thesis by (simp add: contains_index_def)
qed

text \<open>A loop that appends the entries at the indexes where \<open>P\<close> holds.\<close>

lemma select_loop:
  assumes body: "\<And>k ret. k < n \<Longrightarrow>
      body (lo + int k) (ret, int (length (filter P [0..<k]))) =
      (if P k then append_cell (h k) (ret, int (length (filter P [0..<k])))
       else Some (ret, int (length (filter P [0..<k]))))"
    and room: "length (filter P [0..<n]) \<le> length ret" "length (filter P [0..<n]) \<le> 2147483647"
  shows "mfor body [lo..lo + int n - 1] (ret, 0) =
    Some (map h (filter P [0..<n]) @ drop (length (filter P [0..<n])) ret, int (length (filter P [0..<n])))"
proof -
  define c where "c k = length (filter P [0..<k])" for k
  define g where "g k = (map h (filter P [0..<k]) @ drop (c k) ret, int (c k))" for k
  have "mfor body [lo..lo + int n - 1] (g 0) = Some (g n)"
  proof (rule mfor_trace_from)
    fix k assume k: "k < n"
    have le: "c (Suc k) \<le> c n"
      unfolding c_def using k upt_add_eq_append [of 0 "Suc k" "n - Suc k"] by simp
    show "body (lo + int k) (g k) = Some (g (Suc k))"
    proof (cases "P k")
      case True
      then have cS: "c (Suc k) = Suc (c k)" by (simp add: c_def)
      then have "c k < length ret" "c k < 2147483647" using le room by (simp_all add: c_def)
      moreover from this have "(map h (filter P [0..<k]) @ drop (c k) ret)[c k := h k] =
          map h (filter P [0..<Suc k]) @ drop (c (Suc k)) ret"
        using True cS by (simp add: list_update_append c_def Cons_nth_drop_Suc [symmetric])
      ultimately show ?thesis
        using body [OF k] True cS by (simp add: g_def append_cell_nat c_def [symmetric])
    next
      case False
      then have "c (Suc k) = c k" "filter P [0..<Suc k] = filter P [0..<k]" by (simp_all add: c_def)
      then show ?thesis using body [OF k] False by (simp add: g_def c_def [symmetric])
    qed
  qed
  then show ?thesis by (simp add: g_def c_def)
qed

lemma map_nat_filter_upto:
  "filter (\<lambda>k. P (int k)) [0..<n] = map nat (filter P [0..int n - 1])"
proof (induction n)
  case (Suc n)
  have "[0..int (Suc n) - 1] = [0..int n - 1] @ [int n]"
    using upto_rec2 [of 0 "int n"] by simp
  then show ?case using Suc by simp
qed simp

text \<open>The indexes are distinct and inside the array.\<close>

definition index_set :: "int list \<Rightarrow> nat \<Rightarrow> bool" where
  "index_set idx n \<longleftrightarrow> distinct idx \<and> set idx \<subseteq> {0..<int n}"

lemma card_index_set:
  assumes "index_set idx n"
  shows "length (filter (\<lambda>k. int k \<in> set idx) [0..<n]) = length idx"
    and "length (filter (\<lambda>k. int k \<notin> set idx) [0..<n]) = n - length idx"
    and "length idx \<le> n"
proof -
  have "int ` set (filter (\<lambda>k. int k \<in> set idx) [0..<n]) = set idx"
    using assms by (auto simp: index_set_def image_iff) (metis atLeastLessThan_iff in_mono nat_0_le nat_less_iff)
  then have "card (set (filter (\<lambda>k. int k \<in> set idx) [0..<n])) = card (set idx)"
    by (metis card_image inj_on_def of_nat_eq_iff)
  then show 1: "length (filter (\<lambda>k. int k \<in> set idx) [0..<n]) = length idx"
    using assms distinct_card by (metis distinct_filter distinct_upt index_set_def)
  then show "length (filter (\<lambda>k. int k \<notin> set idx) [0..<n]) = n - length idx"
    using sum_length_filter_compl [of "\<lambda>k. int k \<in> set idx" "[0..<n]"] by simp
  show "length idx \<le> n" using 1 length_filter_le [of "\<lambda>k. int k \<in> set idx" "[0..<n]"] by simp
qed

lemma removeIndex_eq:
  assumes "index_set idx n" "n \<le> length data" "n \<le> 2147483647" "n - length idx \<le> length ret"
  shows "removeIndex data idx (int n) (int (length idx)) ret =
         Some (map ((!) data) (filter (\<lambda>k. int k \<notin> set idx) [0..<n]) @ drop (n - length idx) ret)"
proof -
  let ?P = "\<lambda>k. int k \<notin> set idx" and ?m = "n - length idx"
  note card = card_index_set [OF assms(1)]
  let ?body = "\<lambda>i (ret, count).
         if count < int ?m then do {
           c \<leftarrow> contains_index idx (int (length idx)) i;
           if \<not> c then do { v \<leftarrow> rd data i; append_cell v (ret, count) }
           else Some (ret, count) }
         else Some (ret, count)"
  have "mfor ?body [0..0 + int n - 1] (ret, 0) =
    Some (map ((!) data) (filter ?P [0..<n]) @ drop (length (filter ?P [0..<n])) ret, int (length (filter ?P [0..<n])))"
  proof (rule select_loop)
    fix k ret assume k: "k < n"
    let ?c = "length (filter ?P [0..<k])"
    have "length (filter ?P [0..<Suc k]) \<le> length (filter ?P [0..<n])"
      using k upt_add_eq_append [of 0 "Suc k" "n - Suc k"] by simp
    then have "?P k \<Longrightarrow> ?c < ?m" using card(2) by simp
    then show "?body (0 + int k) (ret, int ?c) =
        (if ?P k then append_cell (data ! k) (ret, int ?c) else Some (ret, int ?c))"
      using k assms(2) by (auto simp: contains_index_eq)
  qed (use card assms in auto)
  moreover have "i32 (int n - int (length idx)) = Some (int ?m)"
    using card(3) assms(3) by (simp add: i32_def of_nat_diff)
  ultimately show ?thesis
    using card(2) by (simp add: removeIndex_def)
qed

lemma removeIndex_new_eq:
  assumes "index_set idx n" "n \<le> length data" "n \<le> 2147483647"
  shows "removeIndex_new data idx (int n) (int (length idx)) =
         Some (map ((!) data) (filter (\<lambda>k. int k \<notin> set idx) [0..<n]))"
proof -
  note card = card_index_set [OF assms(1)]
  have "i32 (int n - int (length idx)) = Some (int (n - length idx))"
    using card(3) assms(3) by (simp add: i32_def of_nat_diff)
  then show ?thesis
    using removeIndex_eq [OF assms, of "replicate (n - length idx) 0"] by (simp add: removeIndex_new_def)
qed

lemma keep_eq:
  assumes "index_set idx n" "n \<le> length data" "n \<le> 2147483647"
  shows "keep data idx (int (length idx)) (int n) =
         Some (map ((!) data) (filter (\<lambda>k. int k \<in> set idx) [0..<n]))"
proof -
  let ?P = "\<lambda>k. int k \<in> set idx"
  note card = card_index_set [OF assms(1)]
  let ?body = "\<lambda>i (ret, count). do {
         c \<leftarrow> contains_index idx (int (length idx)) i;
         if c then do { v \<leftarrow> rd data i; append_cell v (ret, count) } else Some (ret, count) }"
  have "mfor ?body [0..0 + int n - 1] (replicate (length idx) undefined, 0) =
    Some (map ((!) data) (filter ?P [0..<n]) @
          drop (length (filter ?P [0..<n])) (replicate (length idx) undefined), int (length (filter ?P [0..<n])))"
    by (rule select_loop) (use card assms in \<open>auto simp: contains_index_eq\<close>)
  then show ?thesis
    using card(1) by (simp add: keep_def)
qed

lemma everyIndexBut_eq:
  assumes "index_set idx n" "n \<le> 2147483647"
  shows "everyIndexBut idx (int (length idx)) 0 (int n) = Some (filter (\<lambda>i. i \<notin> set idx) [0..int n - 1])"
proof -
  let ?P = "\<lambda>k. int k \<notin> set idx"
  note card = card_index_set [OF assms(1)]
  let ?body = "\<lambda>i (ret, retIdx). do {
         found \<leftarrow> contains_index idx (int (length idx)) i;
         if \<not> found then append_cell i (ret, retIdx) else Some (ret, retIdx) }"
  let ?ret = "replicate (n - length idx) (undefined :: int)"
  have "mfor ?body [0..0 + int n - 1] (?ret, 0) =
    Some (map int (filter ?P [0..<n]) @ drop (length (filter ?P [0..<n])) ?ret, int (length (filter ?P [0..<n])))"
    by (rule select_loop) (use card assms in \<open>auto simp: contains_index_eq\<close>)
  moreover have "map int (filter ?P [0..<n]) = filter (\<lambda>i. i \<notin> set idx) [0..int n - 1]"
  proof -
    have "map int (map nat (filter (\<lambda>i. i \<notin> set idx) [0..int n - 1])) = filter (\<lambda>i. i \<notin> set idx) [0..int n - 1]"
      unfolding map_map by (rule map_idI) auto
    then show ?thesis unfolding map_nat_filter_upto [of "\<lambda>i. i \<notin> set idx" n] .
  qed
  moreover have "i32 (int n - int (length idx)) = Some (int (n - length idx))"
    using card(3) assms(2) by (simp add: i32_def of_nat_diff)
  ultimately show ?thesis
    using card(2) by (simp add: everyIndexBut_def)
qed

text \<open>The kept and the removed entries split the product.\<close>

lemma prod_keep_remove:
  "prod_list (map h (filter P xs)) * prod_list (map h (filter (\<lambda>k. \<not> P k) xs)) = (prod_list (map h xs) :: int)"
  by (induction xs) (auto simp: algebra_simps)

section \<open>Reversed copies and concatenation\<close>

lemma reverse_loop:
  assumes "0 < n" "n \<le> length xs" "n \<le> length t"
    and src: "\<And>i. i < n \<Longrightarrow> src (int i) = Some (xs ! i)"
  shows "mfor (reverse_step src (int n)) [0..int n div 2] t = Some (rev (take n xs) @ drop n t)"
proof -
  define h where "h k j = (if j < n \<and> (j < k \<or> n - k \<le> j) then xs ! (n - 1 - j) else t ! j)" for k j
  define g where "g k = map (h k) [0..<length t]" for k
  have "mfor (reverse_step src (int n)) [0..int (n div 2 + 1) - 1] (g 0) = Some (g (n div 2 + 1))"
  proof (rule mfor_trace)
    fix k assume "k < n div 2 + 1"
    then have k: "k < n" using assms(1) by auto
    define q where "q = n - 1 - k"
    have q: "q < n" "int n - int k - 1 = int q" "n - 1 - q = k" "n - 1 - k = q" using k by (auto simp: q_def)
    have "(g k)[k := xs ! q, q := xs ! k] = g (Suc k)"
    proof (rule nth_equalityI)
      fix j assume "j < length ((g k)[k := xs ! q, q := xs ! k])"
      then have j: "j < length t" by (simp add: g_def)
      consider "j = q" | "j = k" "j \<noteq> q" | "j \<noteq> k" "j \<noteq> q" by blast
      then show "(g k)[k := xs ! q, q := xs ! k] ! j = g (Suc k) ! j"
      proof cases
        case 1
        then show ?thesis using j k q by (auto simp: g_def h_def)
      next
        case 2
        then show ?thesis using j k q by (auto simp: g_def h_def)
      next
        case 3
        then have "h k j = h (Suc k) j" by (auto simp: h_def q_def)
        then show ?thesis using 3 j by (simp add: g_def)
      qed
    qed (simp add: g_def)
    then show "reverse_step src (int n) (int k) (g k) = Some (g (Suc k))"
      using src [OF k] src [OF q(1)] k q assms(3) by (simp add: reverse_step_def g_def wr_nat)
  qed
  moreover have "g 0 = t" by (auto simp: g_def h_def intro: nth_equalityI)
  moreover have "g (n div 2 + 1) = rev (take n xs) @ drop n t"
  proof (rule nth_equalityI)
    fix j assume "j < length (g (n div 2 + 1))"
    then have j: "j < length t" by (simp add: g_def)
    show "g (n div 2 + 1) ! j = (rev (take n xs) @ drop n t) ! j"
    proof (cases "j < n")
      case True
      then have "h (n div 2 + 1) j = xs ! (n - 1 - j)" by (auto simp: h_def)
      then show ?thesis using True j assms(2) by (simp add: g_def nth_append rev_nth)
    qed (use j assms(2) in \<open>simp add: g_def h_def nth_append\<close>)
  qed (use assms in \<open>simp add: g_def\<close>)
  moreover have "int (n div 2 + 1) - 1 = int n div 2" by (simp add: zdiv_int)
  ultimately show ?thesis by simp
qed

lemma reverseCopy_eq:
  assumes "0 < n" "n \<le> length data"
  shows "reverseCopy data (int n) = Some (Some (rev (take n data)))"
  using reverse_loop [OF assms, of "replicate n undefined" "rd data"] assms
  by (simp add: reverseCopy_def)

lemma reverseCopyTo_eq:
  assumes "n \<le> length from'" "n \<le> length to'"
  shows "reverseCopyTo from' to' (int n) = Some (rev (take n from') @ drop n to')"
  using reverse_loop [of n from' to' "rd from'"] assms
  by (cases "n = 0") (simp_all add: reverseCopyTo_def)

lemma reverseCopyTo_indexes_eq:
  assumes "n \<le> length indexes" "n \<le> length to'" "set (take n indexes) \<subseteq> {0..<int (length from')}"
  shows "reverseCopyTo_indexes from' to' indexes (int n) =
         Some (rev (map (\<lambda>i. from' ! nat i) (take n indexes)) @ drop n to')"
proof (cases "n = 0")
  case False
  let ?xs = "map (\<lambda>i. from' ! nat i) (take n indexes)"
  have "(do { j \<leftarrow> rd indexes (int i); rd from' j }) = Some (?xs ! i)" if "i < n" for i
  proof -
    have "indexes ! i \<in> set (take n indexes)" using that assms(1) by (auto simp: in_set_conv_nth)
    then show ?thesis using that assms by (auto simp: rd_def)
  qed
  then show ?thesis
    using reverse_loop [of n ?xs to' "\<lambda>i. do { j \<leftarrow> rd indexes i; rd from' j }"] assms False
    by (simp add: reverseCopyTo_indexes_def)
qed (simp add: reverseCopyTo_indexes_def)

lemma shape_concat_eq:
  assumes "n \<le> length xs" "m \<le> length ys" "n + m \<le> 2147483647"
  shows "shape_concat xs (int n) ys (int m) = Some (take n xs @ take m ys)"
proof -
  have "new_int (int n + int m) = Some (replicate (n + m) undefined)"
    using new_int_nat [of "n + m"] by simp
  then show ?thesis
    using assms by (simp add: shape_concat_def i32_def memcpy_int_def on_ptr_def ptr_def)
qed

lemma shape_concat_arrays_eq:
  assumes "length (concat arr) \<le> 2147483647"
  shows "shape_concat_arrays (int (length arr)) (int (length (concat arr))) arr (map (int \<circ> length) arr) =
         Some (concat arr)"
proof -
  let ?N = "length (concat arr)"
  let ?body = "\<lambda>i s. do { n \<leftarrow> rd (map (int \<circ> length) arr) i;
         mfor (\<lambda>j s. do { a \<leftarrow> rd arr i; v \<leftarrow> rd a j; append_cell v s }) [0..n - 1] s }"
  define c where "c k = length (concat (take k arr))" for k
  define g where "g k = (concat (take k arr) @ replicate (?N - c k) undefined, int (c k))" for k
  have "mfor ?body [0..int (length arr) - 1] (g 0) = Some (g (length arr))"
  proof (rule mfor_trace)
    fix k assume k: "k < length arr"
    let ?a = "arr ! k"
    have cS: "concat (take (Suc k) arr) = concat (take k arr) @ ?a" "c (Suc k) = c k + length ?a"
      using k by (simp_all add: c_def take_Suc_conv_app_nth)
    have "concat arr = concat (take (Suc k) arr) @ concat (drop (Suc k) arr)"
      by (metis append_take_drop_id concat_append)
    then have le: "c (Suc k) \<le> ?N" unfolding c_def by (metis le_add1 length_append)
    have "mfor (\<lambda>j s. rd ?a j \<bind> (\<lambda>v. append_cell v s)) [0..int (length ?a) - 1] (g k) = Some (g (Suc k))"
      using append_cells_loop [of "length ?a" ?a "c k" "fst (g k)"] le cS assms
      by (simp add: g_def c_def [symmetric])
    then show "?body (int k) (g k) = Some (g (Suc k))" using k by simp
  qed
  then show ?thesis by (simp add: shape_concat_arrays_def g_def c_def)
qed

section \<open>Ranges\<close>

lemma range_up_eq:
  assumes "0 < inc" "n \<le> length ret" "n \<le> 2147483647" "from' + int n * inc \<le> to'" "to' \<le> 2147483647 - inc"
    and "- 2147483648 \<le> from'" "k \<le> n"
  shows "range_up (from' + int k * inc) to' inc (int n)
           (map (\<lambda>j. from' + int j * inc) [0..<k] @ drop k ret, int k) =
         Some (map (\<lambda>j. from' + int j * inc) [0..<n] @ drop n ret)"
  using assms(7)
proof (induction "n - k" arbitrary: k)
  case 0
  then show ?case by (subst range_up.simps) simp
next
  case (Suc x)
  then have k: "k < n" by simp
  let ?v = "from' + int k * inc"
  have b: "?v + inc \<le> from' + int n * inc"
    using k assms(1) mult_right_mono [of "int (Suc k)" "int n" inc] by (simp add: algebra_simps)
  have nn: "0 \<le> int k * inc" using assms(1) by simp
  have lt: "?v < to'" using b assms(1,4) by linarith
  have "i32 (?v + inc) = Some (?v + inc)"
    using b nn assms(1,4,5,6) by (intro i32_Some) linarith+
  then have step: "i32 (?v + inc) = Some (from' + int (Suc k) * inc)" by (simp add: algebra_simps)
  have "append_cell ?v (map (\<lambda>j. from' + int j * inc) [0..<k] @ drop k ret, int k) =
        Some (map (\<lambda>j. from' + int j * inc) [0..<Suc k] @ drop (Suc k) ret, int (Suc k))"
    using k assms(2,3)
    by (simp add: append_cell_nat list_update_append Cons_nth_drop_Suc [symmetric])
  moreover have "range_up (from' + int (Suc k) * inc) to' inc (int n)
        (map (\<lambda>j. from' + int j * inc) [0..<Suc k] @ drop (Suc k) ret, int (Suc k)) =
      Some (map (\<lambda>j. from' + int j * inc) [0..<n] @ drop n ret)"
    using Suc k by (intro Suc.hyps) auto
  ultimately show ?case
    using lt step k by (subst range_up.simps) (simp del: upt_Suc of_nat_Suc)
qed

lemma shape_range_up:
  assumes "0 < inc" "from' + inc \<le> to'" "to' \<le> 2147483647 - inc" "- 2147483648 \<le> from'"
    and "to' - from' \<le> 2147483647"
  shows "shape_range from' to' inc = Some (map (\<lambda>j. from' + int j * inc) [0..<nat ((to' - from') div inc)])"
proof -
  define n where "n = nat ((to' - from') div inc)"
  have q: "1 \<le> (to' - from') div inc" "(to' - from') div inc \<le> to' - from'"
    using assms(1,2) div_le_self [of "to' - from'" inc] pos_imp_zdiv_pos_iff [of inc "to' - from'"] by simp_all
  then have n: "int n = (to' - from') div inc" by (simp add: n_def)
  have "int n * inc \<le> to' - from'"
    using div_mult_mod_eq [of "to' - from'" inc] pos_mod_sign [of inc "to' - from'"] assms(1)
    unfolding n by linarith
  then have "range_up (from' + int 0 * inc) to' inc (int n)
        (map (\<lambda>j. from' + int j * inc) [0..<0] @ drop 0 (replicate n undefined), int 0) =
      Some (map (\<lambda>j. from' + int j * inc) [0..<n] @ drop n (replicate n undefined))"
    using assms n q by (intro range_up_eq) auto
  moreover have "div32 (to' - from') inc = Some (int n)"
    using div32_nonneg [of "to' - from'" inc] assms n by simp
  moreover have "i32 (from' - to') = Some (from' - to')" "i32 (- (from' - to')) = Some (to' - from')"
    "from' - to' < 0" "\<not> int n < 1" "from' < to'"
    using assms q n by (simp_all add: i32_def)
  ultimately show ?thesis
    by (simp add: shape_range_def n_def [symmetric] del: minus_diff_eq)
qed

section \<open>Normalised dimensions\<close>

definition norm_dim :: "int \<Rightarrow> int \<Rightarrow> int" where
  "norm_dim rnk d = (if d < 0 then d + rnk else d)"

lemma distinct_remdups_adj_sorted: "sorted xs \<Longrightarrow> distinct (remdups_adj xs)" for xs :: "int list"
proof (induction xs rule: remdups_adj.induct)
  case (3 x y xs)
  then show ?case by (auto simp: remdups_adj_set)
qed simp_all

lemma remdups_adj_sort: "remdups_adj (sort xs) = sorted_list_of_set (set xs)" for xs :: "int list"
  by (rule sorted_distinct_set_unique) (simp_all add: distinct_remdups_adj_sorted)

lemma sorted_hd_last: "sorted zs \<Longrightarrow> d \<in> set zs \<Longrightarrow> hd zs \<le> d \<and> d \<le> last zs" for zs :: "int list"
proof -
  assume s: "sorted zs" and "d \<in> set zs"
  then obtain i where i: "i < length zs" "d = zs ! i" by (auto simp: in_set_conv_nth)
  have "zs ! 0 \<le> zs ! i" "zs ! i \<le> zs ! (length zs - 1)"
    using s i by (auto intro: sorted_nth_mono)
  moreover have "zs \<noteq> []" using i by auto
  ultimately show ?thesis using i by (simp add: hd_conv_nth last_conv_nth)
qed

lemma norm_dims_loop:
  assumes "0 \<le> rnk" "rnk \<le> 2147483647" "\<And>d. d \<in> set ds \<Longrightarrow> - 2147483648 \<le> d"
  shows "mfor (\<lambda>i ds. do {
            dim \<leftarrow> rd ds i;
            if dim < 0 then do { d \<leftarrow> i32 (dim + rnk); wr ds i d } else Some ds })
          [0..int (length ds) - 1] ds = Some (map (norm_dim rnk) ds)"
proof -
  let ?f = "\<lambda>i ds. do {
            dim \<leftarrow> rd ds i;
            if dim < 0 then do { d \<leftarrow> i32 (dim + rnk); wr ds i d } else Some ds }"
  let ?ys = "map (norm_dim rnk) ds"
  define g where "g k = take k ?ys @ drop k ds" for k
  have "mfor ?f [0..int (length ds) - 1] (g 0) = Some (g (length ds))"
  proof (rule mfor_trace)
    fix k assume k: "k < length ds"
    then have "ds ! k \<in> set ds" by simp
    then have b: "- 2147483648 \<le> ds ! k" by (rule assms(3))
    have g: "g k ! k = ds ! k" "length (g k) = length ds" using k by (simp_all add: g_def nth_append)
    have up: "(g k)[k := ?ys ! k] = g (Suc k)" using k fill_up_step [of ?ys ds k] by (simp add: g_def)
    show "?f (int k) (g k) = Some (g (Suc k))"
    proof (cases "ds ! k < 0")
      case True
      then have "i32 (ds ! k + rnk) = Some (?ys ! k)" using assms(1,2) b k by (simp add: i32_def norm_dim_def)
      then show ?thesis using True k g up by (simp add: wr_nat)
    next
      case False
      then have "g (Suc k) = g k"
        using up g k by (metis (no_types, lifting) list_update_id norm_dim_def nth_map)
      then show ?thesis using False k g by simp
    qed
  qed
  then show ?thesis by (simp add: g_def)
qed

lemma checkDimensions_eq:
  assumes "0 \<le> rnk" "rnk \<le> 2147483647" "\<And>d. d \<in> set ds \<Longrightarrow> - 2147483648 \<le> d"
  shows "\<exists>msg. checkDimensions rnk ds =
    Some (if ds \<noteq> [] \<and> (\<forall>d\<in>set ds. - rnk \<le> d \<and> d < rnk)
          then Inr (sorted_list_of_set (norm_dim rnk ` set ds)) else Inl msg)"
proof (cases "ds = []")
  case False
  let ?ys = "map (norm_dim rnk) ds"
  define zs where "zs = sorted_list_of_set (set ?ys)"
  have zs: "(if int (length ds) > 1 then remdups_adj (sort ?ys) else ?ys) = zs"
  proof (cases "length ds = 1")
    case True
    then obtain d where "ds = [d]" by (auto simp: length_Suc_conv)
    then show ?thesis by (simp add: zs_def)
  next
    case n1: False
    have "1 < length ds" using False n1 by (cases ds) auto
    then show ?thesis unfolding zs_def remdups_adj_sort [symmetric] by simp
  qed
  have set_zs: "set zs = norm_dim rnk ` set ds" "zs \<noteq> []" "sorted zs" "distinct zs"
    using False by (simp_all add: zs_def)
  have first: "rd zs 0 = Some (hd zs)" using set_zs(2) by (simp add: rd_def hd_conv_nth)
  have ends: "\<forall>d\<in>set zs. hd zs \<le> d \<and> d \<le> last zs" "hd zs \<in> set zs" "last zs \<in> set zs"
    using sorted_hd_last [OF set_zs(3)] set_zs(2) by simp_all
  have ok: "(\<forall>d\<in>set ds. - rnk \<le> d \<and> d < rnk) \<longleftrightarrow> 0 \<le> hd zs \<and> last zs \<le> rnk - 1"
  proof -
    have "(\<forall>d\<in>set ds. - rnk \<le> d \<and> d < rnk) \<longleftrightarrow> (\<forall>d\<in>set zs. 0 \<le> d \<and> d \<le> rnk - 1)"
      unfolding set_zs ball_simps(9) using assms(1) by (intro ball_cong) (auto simp: norm_dim_def)
    also have "\<dots> \<longleftrightarrow> 0 \<le> hd zs \<and> last zs \<le> rnk - 1"
      using ends by (meson order_trans)
    finally show ?thesis .
  qed
  have few: "int (length zs) \<le> rnk" if "0 \<le> hd zs \<and> last zs \<le> rnk - 1"
  proof -
    have "set zs \<subseteq> {0..<rnk}" using ends(1) that by force
    then have "card (set zs) \<le> nat rnk" using card_mono [of "{0..<rnk}" "set zs"] by simp
    then show ?thesis using set_zs(4) assms(1) by (simp add: distinct_card)
  qed
  have "i32 (rnk - 1) = Some (rnk - 1)" using assms(1,2) by (simp add: i32_def)
  moreover define L where "L = mfor (\<lambda>i dimensions. do {
            dim \<leftarrow> rd dimensions i;
            if dim < 0 then do { d \<leftarrow> i32 (dim + rnk); wr dimensions i d } else Some dimensions })
          [0..int (length ds) - 1] ds"
  moreover have L: "L = Some ?ys" unfolding L_def by (rule norm_dims_loop [OF assms])
  ultimately have run: "\<exists>msg. checkDimensions rnk ds =
      Some (if int (length zs) > rnk \<or> hd zs < 0 \<or> last zs > rnk - 1 then Inl msg else Inr zs)"
    using False unfolding checkDimensions_def Let_def L_def [symmetric] L Option.bind.simps zs first
    by auto
  show ?thesis
  proof (cases "0 \<le> hd zs \<and> last zs \<le> rnk - 1")
    case True
    then have "checkDimensions rnk ds = Some (Inr zs)" using run few by auto
    then show ?thesis using True ok False by (simp add: zs_def)
  next
    case bad: False
    then obtain msg where "checkDimensions rnk ds = Some (Inl msg)" using run by auto
    then show ?thesis using bad ok False by auto
  qed
qed (simp add: checkDimensions_def)

section \<open>Properties\<close>

text \<open>\<open>removeIndex\<close>, \<open>keep\<close> and \<open>everyIndexBut\<close> split an array along a set of distinct indexes:
  \<open>keep\<close> gives the entries at the indexes and \<open>removeIndex\<close> the others, both in the order
  of the array, \<open>everyIndexBut\<close> gives the complementary indexes, and none leaves its arrays.\<close>

theorem select_and_remove:
  assumes "index_set idx (length data)" "length data \<le> 2147483647"
  shows "keep data idx (int (length idx)) (int (length data)) =
           Some (map ((!) data) (filter (\<lambda>k. int k \<in> set idx) [0..<length data])) \<and>
         removeIndex_new data idx (int (length data)) (int (length idx)) =
           Some (map ((!) data) (filter (\<lambda>k. int k \<notin> set idx) [0..<length data])) \<and>
         everyIndexBut idx (int (length idx)) 0 (int (length data)) =
           Some (filter (\<lambda>i. i \<notin> set idx) [0..int (length data) - 1])"
  using keep_eq [OF assms(1) order_refl assms(2)] removeIndex_new_eq [OF assms(1) order_refl assms(2)]
    everyIndexBut_eq [OF assms] by blast

theorem select_and_remove_witness:
  "keep [5, 6, 7, 8] [3, 1] 2 4 = Some [6, 8] \<and> removeIndex_new [5, 6, 7, 8] [3, 1] 4 2 = Some [5, 7]"
  using select_and_remove [of "[3, 1]" "[5, 6, 7, 8]"]
  by (simp add: index_set_def)

text \<open>The reversing copies reverse: \<open>reverseCopy\<close> returns the reversed prefix,
  \<open>reverseCopyTo\<close> writes it to the target and leaves the rest of the target alone, also when
  the middle cells are written twice.\<close>

theorem reverse_copies:
  assumes "0 < n" "n \<le> length data" "n \<le> length to'"
  shows "reverseCopy data (int n) = Some (Some (rev (take n data))) \<and>
         reverseCopyTo data to' (int n) = Some (rev (take n data) @ drop n to')"
  using reverseCopy_eq [OF assms(1,2)] reverseCopyTo_eq [OF assms(2,3)] by blast

theorem reverse_copies_witness:
  "reverseCopy [1, 2, 3, 4] 4 = Some (Some [4, 3, 2, 1]) \<and>
   reverseCopyTo [1, 2, 3, 4] [9, 9, 9, 9, 7] 4 = Some [4, 3, 2, 1, 7]"
  using reverse_copies [of 4 "[1, 2, 3, 4]" "[9, 9, 9, 9, 7]"] by simp

text \<open>C13: \<open>checkDimensions\<close> accepts a list of dimensions exactly when it is not empty and every
  dimension lies between \<open>-rank\<close> and \<open>rank - 1\<close>; it then returns the sorted, duplicate-free list of
  the dimensions counted from the front. Every other list is rejected with an exception.\<close>

theorem checkDimensions_correct:
  assumes "0 \<le> rnk" "rnk \<le> 2147483647" "list_all (\<lambda>d. - 2147483648 \<le> d) ds"
  shows "\<exists>msg. checkDimensions rnk ds =
    Some (if ds \<noteq> [] \<and> (\<forall>d\<in>set ds. - rnk \<le> d \<and> d < rnk)
          then Inr (sorted_list_of_set (norm_dim rnk ` set ds)) else Inl msg)"
  using checkDimensions_eq [OF assms(1,2)] assms(3) by (simp add: list_all_iff)

theorem checkDimensions_correct_witness:
  "checkDimensions 3 [- 1, 0, 2] = Some (Inr [0, 2])"
  using checkDimensions_correct [of 3 "[- 1, 0, 2]"] by (simp add: norm_dim_def)

text \<open>An increasing range is the arithmetic progression from its start; it has
  \<open>(to - from) div increment\<close> entries, so the last, shorter step is left out.\<close>

theorem shape_range_progression:
  assumes "0 < inc" "from' + inc \<le> to'" "to' \<le> 2147483647 - inc" "- 2147483648 \<le> from'"
    and "to' - from' \<le> 2147483647"
  shows "shape_range from' to' inc = Some (map (\<lambda>j. from' + int j * inc) [0..<nat ((to' - from') div inc)])"
  using shape_range_up [OF assms] .

theorem shape_range_progression_witness:
  "shape_range 0 5 2 = Some [0, 2]"
  using shape_range_progression [of 2 0 5] by (simp add: numeral_eq_Suc)

text \<open>Concatenation of arrays: both overloads return the entries of their inputs in order.\<close>

theorem shape_concat_correct:
  assumes "length (concat arr) \<le> 2147483647" "length xs + length ys \<le> 2147483647"
  shows "shape_concat xs (int (length xs)) ys (int (length ys)) = Some (xs @ ys) \<and>
         shape_concat_arrays (int (length arr)) (int (length (concat arr))) arr (map (int \<circ> length) arr) =
           Some (concat arr)"
  using shape_concat_eq [OF order_refl order_refl assms(2)] shape_concat_arrays_eq [OF assms(1)] by simp

theorem shape_concat_correct_witness:
  "shape_concat [1, 2] 2 [3] 1 = Some [1, 2, 3] \<and> shape_concat_arrays 2 3 [[1], [2, 3]] [1, 2] = Some [1, 2, 3]"
  using shape_concat_correct [of "[[1], [2, 3]]" "[1, 2]" "[3]"] by simp

end
