(* ===== verification/Tads.thy ===== *)
theory Tads
  imports Reshape ArrayOps
begin

text \<open>
  Tensors along dimensions (TADs) in \<open>include/helpers/shape.h\<close>: how many there are, how
  long they are and which stride they have, the index arithmetic of reductions, the
  buffers of a TAD, of a slice and of a reduction's result.
\<close>

section \<open>The code\<close>

definition tadLength :: "int list \<Rightarrow> int list \<Rightarrow> int \<Rightarrow> int option" where
  "tadLength shapeInfo dimension dimensionLength =
     (if dimensionLength = 1 then do {
        s \<leftarrow> shapeOf shapeInfo; d \<leftarrow> rd dimension 0; rd s d }
      else do {
        r \<leftarrow> shape_rank shapeInfo;
        mfor (\<lambda>i ret. mfor (\<lambda>j ret. do {
            d \<leftarrow> rd dimension j;
            if i = d then do { s \<leftarrow> shapeOf shapeInfo; v \<leftarrow> rd s d; i32 (ret * v) }
            else Some ret }) [0..dimensionLength - 1] ret) [0..r - 1] 1 })"

definition reductionIndexElementWiseStride :: "int list \<Rightarrow> int list \<Rightarrow> int \<Rightarrow> int option" where
  "reductionIndexElementWiseStride buffer dimension dimensionLength = do {
     ord \<leftarrow> shape_order buffer;
     str \<leftarrow> shape_stride buffer;
     if dimensionLength > 1 then do {
       shp \<leftarrow> shapeOf buffer;
       dl \<leftarrow> rd dimension (dimensionLength - 1);
       v \<leftarrow> rd shp dl;
       if ord = 102 then
         (if v \<noteq> 1 then do { d \<leftarrow> rd dimension 0; rd str d } else Some 1)
       else
         (if v \<noteq> 1 then rd str dl else Some 1) }
     else if ord = 102 then do { d \<leftarrow> rd dimension 0; rd str d }
     else do { d \<leftarrow> rd dimension (dimensionLength - 1); rd str d } }"

definition tadElementWiseStride :: "int list \<Rightarrow> int list \<Rightarrow> int \<Rightarrow> int option" where
  "tadElementWiseStride shapeInfo dimension dimensionLength =
     reductionIndexElementWiseStride shapeInfo dimension dimensionLength"

definition computeResultShape :: "int list \<Rightarrow> int list \<Rightarrow> int \<Rightarrow> int list option" where
  "computeResultShape originalShapeBuffer dimension dimensionLength = do {
     d0 \<leftarrow> (if dimensionLength = 1 then rd dimension 0 else Some 0);
     (retShape, retShapeLength) \<leftarrow>
       (if dimensionLength = 1 \<and> d0 = 2147483647 then Some ([1, 1], 2)
        else do {
          shp \<leftarrow> shapeOf originalShapeBuffer;
          r \<leftarrow> shape_rank originalShapeBuffer;
          n \<leftarrow> shapeInfoLength r;
          retShape \<leftarrow> removeIndex_new shp dimension n dimensionLength;
          l \<leftarrow> i32 (r - dimensionLength);
          Some (retShape, l) });
     (retShape, retShapeLength) \<leftarrow>
       (if retShapeLength = 1 then do {
          d \<leftarrow> rd dimension 0;
          v \<leftarrow> rd retShape 0;
          Some (if d = 0 then [1, v] else [v, 1], 2) }
        else if retShapeLength = 0 then Some ([1, 1], 2)
        else Some (retShape, retShapeLength));
     shapeBuffer retShapeLength retShape }"

definition shapeInfoOnlyShapeAndStride_to ::
    "int list \<Rightarrow> int list \<Rightarrow> int \<Rightarrow> bool \<Rightarrow> int list \<Rightarrow> int list option" where
  "shapeInfoOnlyShapeAndStride_to shapeInfo dimension dimensionLength reverseCopyStride buffer = do {
     theShape \<leftarrow> shapeOf shapeInfo;
     theStride \<leftarrow> shape_stride shapeInfo;
     let rnk = (if dimensionLength = 1 then 2 else dimensionLength);
     ret \<leftarrow> wr buffer 0 rnk;
     ret \<leftarrow> (if dimensionLength = 1 then do {
         r \<leftarrow> shape_rank shapeInfo;
         m \<leftarrow> isMatrix theShape r;
         d \<leftarrow> rd dimension 0;
         st \<leftarrow> rd theStride d;
         sh \<leftarrow> rd theShape d;
         ret \<leftarrow> wr ret 1 (if m \<noteq> 0 then sh else 1);
         ret \<leftarrow> wr ret 2 (if m \<noteq> 0 then 1 else sh);
         ret \<leftarrow> wr ret 3 (if m \<noteq> 0 then st else 1);
         wr ret 4 (if m \<noteq> 0 then 1 else st) }
       else do {
         ret \<leftarrow> on_ptr ret (1 + rnk) (\<lambda>retStride.
           if reverseCopyStride then reverseCopyTo_indexes theStride retStride dimension rnk
           else copyTo_indexes rnk theStride retStride dimension);
         on_ptr ret 1 (\<lambda>retShape. copyTo_indexes rnk theShape retShape dimension) });
     n \<leftarrow> shapeInfoLength rnk;
     ord \<leftarrow> shape_order shapeInfo;
     wr ret (n - 1) ord }"

definition shapeInfoOnlyShapeAndStride :: "int list \<Rightarrow> int list \<Rightarrow> int \<Rightarrow> bool \<Rightarrow> int list option" where
  "shapeInfoOnlyShapeAndStride shapeInfo dimension dimensionLength reverseCopyStride = do {
     let rnk = (if dimensionLength = 1 then 2 else dimensionLength);
     n \<leftarrow> shapeInfoLength rnk;
     ret \<leftarrow> new_int n;
     shapeInfoOnlyShapeAndStride_to shapeInfo dimension dimensionLength reverseCopyStride ret }"

text \<open>The end of \<open>sliceOfShapeBuffer\<close>: offset, element-wise stride and order of the slice.\<close>

definition slice_tail :: "int \<Rightarrow> int list \<Rightarrow> int \<Rightarrow> int list \<Rightarrow> int list option" where
  "slice_tail sliceIdx shapeInfo newRank newShapeBuffer = do {
     rnk \<leftarrow> shape_rank shapeInfo;
     currStride \<leftarrow> shape_stride shapeInfo;
     _ \<leftarrow> new_int rnk;
     indices \<leftarrow> wr (replicate (nat rnk) 0) 0 sliceIdx;
     newShape \<leftarrow> shapeOf newShapeBuffer;
     newStride \<leftarrow> shape_stride newShapeBuffer;
     off \<leftarrow> getOffset 0 newShape newStride indices rnk;
     n \<leftarrow> shapeInfoLength newRank;
     newShapeBuffer \<leftarrow> wr newShapeBuffer (n - 3) (to_int off);
     m \<leftarrow> isMatrix_buf shapeInfo;
     ews \<leftarrow> (if m \<noteq> 0 then rd currStride 1 else shape_ews shapeInfo);
     newShapeBuffer \<leftarrow> wr newShapeBuffer (n - 2) ews;
     newShape \<leftarrow> shapeOf newShapeBuffer;
     newStride \<leftarrow> shape_stride newShapeBuffer;
     c \<leftarrow> getOrder newRank newShape newStride 1;
     wr newShapeBuffer (n - 1) c }"

text \<open>The byte count of the \<open>memcpy\<close> is \<open>shapeInfoLength(rank * sizeof(int))\<close>.\<close>

definition sliceOfShapeBuffer :: "int \<Rightarrow> int list \<Rightarrow> int list option" where
  "sliceOfShapeBuffer sliceIdx shapeInfo = do {
     rnk \<leftarrow> shape_rank shapeInfo;
     r1 \<leftarrow> i32 (rnk - 1);
     let newRank = (if r1 < 2 then 2 else r1);
     n \<leftarrow> shapeInfoLength newRank;
     newShapeBuffer \<leftarrow> new_int n;
     newShapeBuffer \<leftarrow> wr newShapeBuffer 0 newRank;
     currShape \<leftarrow> shapeOf shapeInfo;
     currStride \<leftarrow> shape_stride shapeInfo;
     v \<leftarrow> isVector_buf shapeInfo;
     if v \<noteq> 0 then do {
       s0 \<leftarrow> rd currShape 0;
       if s0 = 1 then
         (if sliceIdx = 0 then do {
            bytes \<leftarrow> shapeInfoLength (rnk * 4);
            memcpy_int newShapeBuffer shapeInfo (bytes div 4) }
          else slice_tail sliceIdx shapeInfo newRank newShapeBuffer)
       else do {
         scalar \<leftarrow> createScalarShapeInfo_new;
         off \<leftarrow> shape_offset shapeInfo;
         t \<leftarrow> i32 (off + sliceIdx);
         n2 \<leftarrow> shapeInfoLength 2;
         wr scalar (n2 - 3) t } }
     else do {
       m \<leftarrow> isMatrix_buf shapeInfo;
       newShapeBuffer \<leftarrow> (if m \<noteq> 0 then do {
           sh1 \<leftarrow> rd currShape 1;
           st1 \<leftarrow> rd currStride 1;
           b \<leftarrow> wr newShapeBuffer 1 1;
           b \<leftarrow> wr b 2 sh1;
           b \<leftarrow> wr b (1 + newRank) 1;
           wr b (2 + newRank) st1 }
         else mfor (\<lambda>i b. do {
           sh \<leftarrow> rd currShape (i + 1);
           b \<leftarrow> wr b (1 + i) sh;
           st \<leftarrow> rd currStride (i + 1);
           wr b (1 + newRank + i) st }) [0..newRank - 1] newShapeBuffer);
       slice_tail sliceIdx shapeInfo newRank newShapeBuffer } }"

definition lengthPerSlice :: "int \<Rightarrow> int list \<Rightarrow> int list \<Rightarrow> int \<Rightarrow> int option" where
  "lengthPerSlice rnk shp dimension dimensionLength = do {
     v \<leftarrow> isVector shp rnk;
     s0 \<leftarrow> (if v \<noteq> 0 \<and> dimensionLength = 1 then rd shp 0 else Some 0);
     if v \<noteq> 0 \<and> dimensionLength = 1 \<and> s0 = 1 then shape_prod shp rnk
     else if v = 0 \<and> rnk = dimensionLength then shape_prod shp rnk
     else do {
       d \<leftarrow> i32 (rnk - dimensionLength);
       absSelta \<leftarrow> (if d < 0 then i32 (- d) else Some d);
       ret2 \<leftarrow> removeIndex_new shp dimension rnk dimensionLength;
       shape_prod ret2 absSelta } }"

definition sliceOffsetForTensor ::
    "int \<Rightarrow> int \<Rightarrow> int list \<Rightarrow> int list \<Rightarrow> int \<Rightarrow> int list \<Rightarrow> int \<Rightarrow> int option" where
  "sliceOffsetForTensor rnk index shp tensorShape tensorShapeLength dimension dimensionLength = do {
     p \<leftarrow> shape_prodLong tensorShape tensorShapeLength;
     let tensorLength = to_int p;
     lengthPerSlice2 \<leftarrow> lengthPerSlice rnk shp dimension dimensionLength;
     if lengthPerSlice2 \<le> 0 then Some 0
     else do { t \<leftarrow> i32 (index * tensorLength); div32 t lengthPerSlice2 } }"

definition sliceOffsetForTensor_lengths :: "int \<Rightarrow> int \<Rightarrow> int \<Rightarrow> int option" where
  "sliceOffsetForTensor_lengths index tensorLength lengthPerSlice2 = do {
     t \<leftarrow> i32 (index * tensorLength); div32 t lengthPerSlice2 }"

definition tensorsAlongDimension :: "int \<Rightarrow> int \<Rightarrow> int list \<Rightarrow> int list \<Rightarrow> int \<Rightarrow> int option" where
  "tensorsAlongDimension rnk len shp dimension dimensionLength = do {
     tensorShape \<leftarrow> keep shp dimension dimensionLength rnk;
     p \<leftarrow> shape_prodLong tensorShape dimensionLength;
     q \<leftarrow> div64 len p;
     Some (to_int q) }"

definition tensorsAlongDimension_buf :: "int list \<Rightarrow> int list \<Rightarrow> int \<Rightarrow> int option" where
  "tensorsAlongDimension_buf shapeInfo dimension dimensionLength = do {
     keepShape \<leftarrow> shapeOf shapeInfo;
     r \<leftarrow> shape_rank shapeInfo;
     tensorShape \<leftarrow> keep keepShape dimension dimensionLength r;
     len \<leftarrow> shape_length shapeInfo;
     p \<leftarrow> shape_prodLong tensorShape dimensionLength;
     q \<leftarrow> div64 len p;
     Some (to_int q) }"

definition tadForBlockIndex :: "int \<Rightarrow> int \<Rightarrow> int \<Rightarrow> int option" where
  "tadForBlockIndex blockSize blockIdx i = do { t \<leftarrow> i32 (i * blockSize); i32 (blockIdx + t) }"

text \<open>The quotient is a \<open>double\<close>; for \<open>int\<close> operands its ceiling is exact. A zero block size gives an
  infinity, whose conversion is undefined.\<close>

definition tadsPerBlock :: "int \<Rightarrow> int \<Rightarrow> int option" where
  "tadsPerBlock blockSize tads = (if blockSize = 0 then None else i32 (- ((- tads) div blockSize)))"

definition tadIndex :: "int \<Rightarrow> int \<Rightarrow> int \<Rightarrow> int option" where
  "tadIndex i elementWiseStride numElementsPerTad = do {
     t \<leftarrow> i32 (numElementsPerTad * elementWiseStride); div32 i t }"

definition reductionIndexForTad :: "int \<Rightarrow> int \<Rightarrow> int \<Rightarrow> int option" where
  "reductionIndexForTad tadIndexForOriginal tadsForReduced tadsForOriginal =
     (if tadIndexForOriginal = 0 then Some 0
      else do { t \<leftarrow> div32 tadsForOriginal tadsForReduced; div32 tadIndexForOriginal t })"

definition tadIndexForLinear :: "int \<Rightarrow> int \<Rightarrow> int option" where
  "tadIndexForLinear linearIndex len = mod32 linearIndex len"

definition tadsPerReduceIndex :: "int \<Rightarrow> int \<Rightarrow> int option" where
  "tadsPerReduceIndex tadsForReduce tadsForOriginal = div32 tadsForOriginal tadsForReduce"

definition reductionIndexForLinear :: "int \<Rightarrow> int \<Rightarrow> int \<Rightarrow> int \<Rightarrow> int \<Rightarrow> int option" where
  "reductionIndexForLinear i elementWiseStride numElementsPerTad tadNum originalTadNum = do {
     tad \<leftarrow> tadIndex i elementWiseStride numElementsPerTad;
     reductionIndexForTad tad tadNum originalTadNum }"

text \<open>Both branches on the order have the same body.\<close>

definition rearMostLeftOverItem :: "int list \<Rightarrow> int list \<Rightarrow> int \<Rightarrow> int option" where
  "rearMostLeftOverItem data dimension dimensionLength = do {
     stride \<leftarrow> shape_stride data;
     rnk \<leftarrow> shape_rank data;
     q \<leftarrow> mret (\<lambda>i dimIdx. do {
         d \<leftarrow> rd dimension dimIdx;
         if d \<noteq> i then do { ret \<leftarrow> rd stride i; Some (Inl ret) }
         else Some (Inr (dimIdx - 1)) }) (rev [0..rnk - 1]) (dimensionLength - 1);
     (case q of Inl ret \<Rightarrow> Some ret | Inr _ \<Rightarrow> rd stride 0) }"

section \<open>Lengths and counts\<close>

lemma map_nth_take: "n \<le> length xs \<Longrightarrow> map ((!) xs) [0..<n] = take n xs"
  by (metis map_nth take_map take_upt add_0)

lemma pos_shape_filter:
  "pos_shape sh \<Longrightarrow> pos_shape (map ((!) sh) (filter P [0..<length sh]))"
  by (simp add: pos_shape_def list_all_iff)

lemma prod_filter_le:
  assumes "pos_shape sh"
  shows "prod_list (map ((!) sh) (filter P [0..<length sh])) \<le> prod_list sh"
proof -
  have "prod_list (map ((!) sh) (filter P [0..<length sh])) *
        prod_list (map ((!) sh) (filter (\<lambda>k. \<not> P k) [0..<length sh])) = prod_list sh"
    using prod_keep_remove [of "(!) sh" P "[0..<length sh]"] by (simp add: map_nth)
  moreover have "1 \<le> prod_list (map ((!) sh) (filter (\<lambda>k. \<not> P k) [0..<length sh]))"
    "0 < prod_list (map ((!) sh) (filter P [0..<length sh]))"
    using prod_list_ge1 prod_list_pos pos_shape_filter [OF assms] by blast+
  ultimately show ?thesis by (metis less_imp_le mult.right_neutral mult_left_mono)
qed

text \<open>The product of the selected dimensions.\<close>

definition tad_prod :: "int list \<Rightarrow> int list \<Rightarrow> int" where
  "tad_prod sh dims = prod_list (map ((!) sh) (filter (\<lambda>k. int k \<in> set dims) [0..<length sh]))"

lemma tad_prod_le: "pos_shape sh \<Longrightarrow> tad_prod sh dims \<le> prod_list sh"
  unfolding tad_prod_def by (rule prod_filter_le)

lemma tad_prod_pos: "pos_shape sh \<Longrightarrow> 0 < tad_prod sh dims"
  unfolding tad_prod_def by (rule prod_list_pos [OF pos_shape_filter])

lemma tad_prod_dvd: "tad_prod sh dims dvd prod_list sh"
  using prod_keep_remove [of "(!) sh" "\<lambda>k. int k \<in> set dims" "[0..<length sh]"]
  by (metis dvd_triv_left map_nth tad_prod_def)

text \<open>The inner loop of \<open>tadLength\<close> multiplies by the size of axis \<open>i\<close> when it is selected.\<close>

lemma tadLength_inner:
  assumes "distinct dims" "\<And>d. d \<in> set dims \<Longrightarrow> 0 \<le> d \<and> d < int (length s)"
    and "i32 p = Some p" "0 \<le> i \<Longrightarrow> i < int (length s) \<Longrightarrow> i \<in> set dims \<Longrightarrow> i32 (p * s ! nat i) = Some (p * s ! nat i)"
  shows "mfor (\<lambda>j ret. do {
            d \<leftarrow> rd dims j;
            if i = d then do { v \<leftarrow> rd s d; i32 (ret * v) } else Some ret }) [0..int (length dims) - 1] p =
         Some (if i \<in> set dims then p * s ! nat i else p)"
proof -
  let ?f = "\<lambda>j ret. do {
            d \<leftarrow> rd dims j;
            if i = d then do { v \<leftarrow> rd s d; i32 (ret * v) } else Some ret }"
  define g where "g k = (if i \<in> set (take k dims) then p * s ! nat i else p)" for k
  have "mfor ?f [0..int (length dims) - 1] (g 0) = Some (g (length dims))"
  proof (rule mfor_trace)
    fix k assume k: "k < length dims"
    have tk: "set (take (Suc k) dims) = insert (dims ! k) (set (take k dims))"
      using k by (simp add: take_Suc_conv_app_nth)
    show "?f (int k) (g k) = Some (g (Suc k))"
    proof (cases "i = dims ! k")
      case True
      then have "i \<notin> set (take k dims)"
        using assms(1) k by (metis distinct_take id_take_nth_drop not_distinct_conv_prefix)
      moreover have "i \<in> set dims" using True k by simp
      moreover from this have "0 \<le> i" "i < int (length s)" using assms(2) by blast+
      ultimately show ?thesis
        using True k tk assms(4) by (simp add: g_def rd_def)
    next
      case False
      then show ?thesis using k tk by (simp add: g_def)
    qed
  qed
  then show ?thesis by (simp add: g_def)
qed

lemma tadLength_eq:
  assumes ok: "dims_ok sh st" "small_shape sh" "index_set dims (length sh)"
    and "length dims \<noteq> 1"
  shows "tadLength (mk_info sh st off ews ord) dims (int (length dims)) = Some (tad_prod sh dims)"
proof -
  let ?s = "sh @ st @ [off, ews, ord]"
  have pos: "pos_shape sh" "prod_list sh \<le> 2147483647" using ok(2) by (simp_all add: small_shape_def)
  have dims: "distinct dims" "\<And>d. d \<in> set dims \<Longrightarrow> 0 \<le> d \<and> d < int (length sh)"
    using ok(3) by (auto simp: index_set_def)
  define g where "g k = prod_list (map ((!) sh) (filter (\<lambda>k. int k \<in> set dims) [0..<k]))" for k
  have gS: "g (Suc k) = (if int k \<in> set dims then g k * sh ! k else g k)" for k
    by (simp add: g_def)
  have gb: "0 < g k \<and> g k \<le> 2147483647" if "k \<le> length sh" for k
  proof -
    have "map ((!) sh) (filter (\<lambda>k. int k \<in> set dims) [0..<k]) =
          map ((!) (take k sh)) (filter (\<lambda>k. int k \<in> set dims) [0..<length (take k sh)])"
      using that by (auto simp: min_absorb1)
    then have "g k \<le> prod_list (take k sh)" "0 < g k"
      using prod_filter_le [OF pos_shape_take [OF pos(1)], of k]
        prod_list_pos [OF pos_shape_filter [OF pos_shape_take [OF pos(1)]], of k]
      by (auto simp: g_def)
    then show ?thesis using prod_take_le [OF pos(1), of k] pos(2) by simp
  qed
  let ?f = "\<lambda>i ret. mfor (\<lambda>j ret. do {
            d \<leftarrow> rd dims j;
            if i = d then do { v \<leftarrow> rd ?s d; i32 (ret * v) }
            else Some ret }) [0..int (length dims) - 1] ret"
  have "mfor ?f [0..int (length sh) - 1] (g 0) = Some (g (length sh))"
  proof (rule mfor_trace)
    fix k assume k: "k < length sh"
    have "?f (int k) (g k) = Some (if int k \<in> set dims then g k * ?s ! nat (int k) else g k)"
    proof (rule tadLength_inner [OF dims(1)])
      show "0 \<le> d \<and> d < int (length ?s)" if "d \<in> set dims" for d using dims(2) [OF that] by simp
      show "i32 (g k) = Some (g k)" using gb [of k] k by (simp add: i32_def)
      show "i32 (g k * ?s ! nat (int k)) = Some (g k * ?s ! nat (int k))" if "int k \<in> set dims"
        using gb [of "Suc k"] k that by (simp add: i32_def gS nth_append)
    qed
    then show "?f (int k) (g k) = Some (g (Suc k))" using k by (simp add: gS nth_append)
  qed
  then show ?thesis
    using assms(4) by (simp add: tadLength_def info_simps shapeOf_mk_info g_def tad_prod_def cong: if_cong)
qed

lemma tadLength_one:
  assumes "d < length sh"
  shows "tadLength (mk_info sh st off ews ord) [int d] 1 = Some (sh ! d)"
  using assms by (simp add: tadLength_def shapeOf_mk_info rd_def nth_append)

lemma filter_single: "d < n \<Longrightarrow> filter (\<lambda>k. k = d) [0..<n] = [d]"
proof (induction n)
  case (Suc n)
  then show ?case by (cases "d = n") (auto simp: filter_empty_conv)
qed simp

lemma tad_prod_one: "d < length sh \<Longrightarrow> tad_prod sh [int d] = sh ! d"
proof -
  assume d: "d < length sh"
  have "filter (\<lambda>k. int k \<in> set [int d]) [0..<length sh] = [d]"
    using filter_single [OF d] by simp
  then show ?thesis by (simp add: tad_prod_def)
qed

lemma tensorsAlongDimension_buf_eq:
  assumes ok: "dims_ok sh st" "small_shape sh" "index_set dims (length sh)"
  shows "tensorsAlongDimension_buf (mk_info sh st off ews ord) dims (int (length dims)) =
         Some (prod_list sh div tad_prod sh dims)"
proof -
  let ?k = "map ((!) sh) (filter (\<lambda>k. int k \<in> set dims) [0..<length sh])"
  have pos: "pos_shape sh" "prod_list sh \<le> 2147483647" using ok(2) by (simp_all add: small_shape_def)
  have n: "length sh \<le> 2147483647" using ok(1) by (simp add: dims_ok_def)
  have "keep (sh @ st @ [off, ews, ord]) dims (int (length dims)) (int (length sh)) =
      Some (map ((!) (sh @ st @ [off, ews, ord])) (filter (\<lambda>k. int k \<in> set dims) [0..<length sh]))"
    using ok(3) n by (intro keep_eq) auto
  moreover have "map ((!) (sh @ st @ [off, ews, ord])) (filter (\<lambda>k. int k \<in> set dims) [0..<length sh]) = ?k"
    by (auto simp: nth_append)
  moreover have "shape_prodLong ?k (int (length dims)) = Some (tad_prod sh dims)"
    using shape_prodLong_eq [of "length dims" ?k] card_index_set(1) [OF ok(3)]
      pos_shape_filter [OF pos(1)] tad_prod_le [OF pos(1), of dims] pos(2)
    by (simp add: tad_prod_def)
  moreover have "shape_length (mk_info sh st off ews ord) = Some (prod_list sh)"
    using pos by (intro shape_length_mk_info) auto
  moreover have "div64 (prod_list sh) (tad_prod sh dims) = Some (prod_list sh div tad_prod sh dims)"
    using tad_prod_pos [OF pos(1)] prod_list_pos [OF pos(1)] pos(2) by (intro div64_nonneg) auto
  moreover have "to_int (prod_list sh div tad_prod sh dims) = prod_list sh div tad_prod sh dims"
  proof -
    have "0 \<le> prod_list sh div tad_prod sh dims" "prod_list sh div tad_prod sh dims \<le> prod_list sh"
      using tad_prod_pos [OF pos(1), of dims] prod_list_pos [OF pos(1)]
      by (simp_all add: pos_imp_zdiv_nonneg_iff div_le_self)
    then show ?thesis using pos(2) by (simp add: to_int_id)
  qed
  ultimately show ?thesis
    by (simp add: tensorsAlongDimension_buf_def info_simps shapeOf_mk_info)
qed

lemma lengthPerSlice_eq:
  assumes ok: "small_shape sh" "index_set dims (length sh)" "length sh \<le> 2147483647"
    and "isVector sh (int (length sh)) = Some 0"
  shows "lengthPerSlice (int (length sh)) sh dims (int (length dims)) =
         Some (if length dims = length sh then prod_list sh else prod_list sh div tad_prod sh dims)"
proof -
  have pos: "pos_shape sh" "prod_list sh \<le> 2147483647" using ok(1) by (simp_all add: small_shape_def)
  let ?r = "map ((!) sh) (filter (\<lambda>k. int k \<notin> set dims) [0..<length sh])"
  note card = card_index_set [OF ok(2)]
  have split: "tad_prod sh dims * prod_list ?r = prod_list sh"
    using prod_keep_remove [of "(!) sh" "\<lambda>k. int k \<in> set dims" "[0..<length sh]"]
    by (simp add: tad_prod_def map_nth)
  have q: "prod_list sh div tad_prod sh dims = prod_list ?r"
    using split tad_prod_pos [OF pos(1), of dims] by (metis less_irrefl nonzero_mult_div_cancel_left)
  have all: "shape_prod sh (int (length sh)) = Some (prod_list sh)"
    using shape_prod_eq [of "length sh" sh] pos by simp
  have rem: "removeIndex_new sh dims (int (length sh)) (int (length dims)) = Some ?r"
    using removeIndex_new_eq [OF ok(2), of sh] ok(3) by simp
  have "i32 (int (length sh) - int (length dims)) = Some (int (length sh - length dims))"
    using card(3) ok(3) by (simp add: i32_def of_nat_diff)
  moreover have "shape_prod ?r (int (length sh - length dims)) = Some (prod_list ?r)"
    using shape_prod_eq [of "length sh - length dims" ?r] card(2) pos_shape_filter [OF pos(1)]
      prod_filter_le [OF pos(1)] pos(2) order_trans by fastforce
  moreover have "int (length sh) = int (length dims) \<longleftrightarrow> length dims = length sh" by auto
  ultimately show ?thesis
    using assms(4) all rem q unfolding lengthPerSlice_def by (simp del: of_nat_eq_iff)
qed

section \<open>Edge cases\<close>

text \<open>When the last axis is selected, \<open>rearMostLeftOverItem\<close> reads the cell before the dimensions.\<close>

lemma rearMostLeftOverItem_reads_before:
  "rearMostLeftOverItem [3, 2, 3, 4, 12, 4, 1, 0, 1, 99] [2] 1 = None"
  by code_simp

text \<open>\<open>computeResultShape\<close> passes the length of the whole buffer for the length of its shape part and reads
  past the end of the buffer.\<close>

lemma computeResultShape_reads_past:
  "computeResultShape [3, 2, 3, 4, 12, 4, 1, 0, 1, 99] [1] 1 = None"
  by code_simp

text \<open>Slices: the offset is computed from the shape and strides of the slice (4 instead of 12, 0 instead of
  3), five cells of a row vector are copied, and the offset of a column vector's element is
  written over the order of the rank one scalar.\<close>

lemma sliceOfShapeBuffer_cases:
  "sliceOfShapeBuffer 1 [3, 2, 3, 4, 12, 4, 1, 0, 1, 99] = Some [2, 3, 4, 4, 1, 4, 1, 99]"
  "sliceOfShapeBuffer 1 [2, 2, 3, 3, 1, 0, 1, 99] = Some [2, 1, 3, 1, 1, 0, 1, 102]"
  "sliceOfShapeBuffer 0 [2, 1, 3, 1, 1, 0, 1, 99] = Some [2, 1, 3, 1, 1, undefined, undefined, undefined]"
  "sliceOfShapeBuffer 2 [2, 3, 1, 1, 1, 0, 1, 99] = Some [1, 1, 1, 0, 1, 2]"
  by code_simp+

text \<open>More reduced tensors than original ones divide by zero.\<close>

lemma reductionIndexForTad_divides_by_zero: "reductionIndexForTad 1 4 3 = None"
  by code_simp

section \<open>Properties\<close>

text \<open>The tensors along a set of dimensions partition the array: the number of tensors times the length
  of one tensor is the length of the array, for every set of distinct dimensions, with no overflow in
  between.\<close>

theorem tads_partition:
  assumes "dims_ok sh st" "small_shape sh" "index_set dims (length sh)"
  shows "\<exists>n l. tensorsAlongDimension_buf (mk_info sh st off ews ord) dims (int (length dims)) = Some n \<and>
           tadLength (mk_info sh st off ews ord) dims (int (length dims)) = Some l \<and>
           n * l = prod_list sh \<and> 0 < n \<and> 0 < l"
proof -
  have pos: "pos_shape sh" using assms(2) by (simp add: small_shape_def)
  have p: "0 < tad_prod sh dims" "0 < prod_list sh"
    using pos by (simp_all add: tad_prod_pos prod_list_pos)
  have len: "tadLength (mk_info sh st off ews ord) dims (int (length dims)) = Some (tad_prod sh dims)"
  proof (cases "length dims = 1")
    case True
    then obtain d where "dims = [d]" by (auto simp: length_Suc_conv)
    moreover from this have "0 \<le> d" "d < int (length sh)" using assms(3) by (auto simp: index_set_def)
    ultimately show ?thesis
      using tadLength_one [of "nat d" sh] tad_prod_one [of "nat d" sh] by (simp add: nat_less_iff)
  qed (use tadLength_eq [OF assms] in simp)
  have m: "prod_list sh div tad_prod sh dims * tad_prod sh dims = prod_list sh"
    using tad_prod_dvd by simp
  moreover have "0 < prod_list sh div tad_prod sh dims"
    using m p by (metis mult_less_cancel_right mult_zero_left order_less_imp_le not_less)
  ultimately show ?thesis
    using tensorsAlongDimension_buf_eq [OF assms] len p by blast
qed

theorem tads_partition_witness:
  "\<exists>n l. tensorsAlongDimension_buf [3, 2, 3, 4, 12, 4, 1, 0, 1, 99] [0, 2] 2 = Some n \<and>
     tadLength [3, 2, 3, 4, 12, 4, 1, 0, 1, 99] [0, 2] 2 = Some l \<and> n * l = 24 \<and> 0 < n \<and> 0 < l"
  using tads_partition [of "[2, 3, 4]" "[12, 4, 1]" "[0, 2]" 0 1 99]
  by (simp add: dims_ok_def small_shape_def index_set_def mk_info_def)

text \<open>For a shape that is not a vector, \<open>lengthPerSlice\<close> is the whole length when all dimensions are
  given and otherwise the number of elements per position in the given dimensions.\<close>

theorem lengthPerSlice_correct:
  assumes "small_shape sh" "index_set dims (length sh)" "3 \<le> length sh" "length sh \<le> 2147483647"
  shows "\<exists>l. lengthPerSlice (int (length sh)) sh dims (int (length dims)) = Some l \<and>
           (if length dims = length sh then l = prod_list sh
            else l * prod_list (map ((!) sh) (filter (\<lambda>k. int k \<in> set dims) [0..<length sh])) = prod_list sh)"
proof -
  have "isVector sh (int (length sh)) = Some 0"
    using isVector_eq [OF refl order_refl take_all [OF order_refl], of sh] assms(3) by simp
  then have "lengthPerSlice (int (length sh)) sh dims (int (length dims)) =
         Some (if length dims = length sh then prod_list sh else prod_list sh div tad_prod sh dims)"
    using lengthPerSlice_eq assms by blast
  moreover have "prod_list sh div tad_prod sh dims * tad_prod sh dims = prod_list sh"
    using tad_prod_dvd by simp
  ultimately show ?thesis by (simp add: tad_prod_def)
qed

theorem lengthPerSlice_correct_witness:
  "\<exists>l. lengthPerSlice 3 [2, 3, 4] [1] 1 = Some l \<and> l * 3 = 24"
  using lengthPerSlice_correct [of "[2, 3, 4]" "[1]"] 
  by (simp add: small_shape_def index_set_def numeral_3_eq_3)

text \<open>When the tensors of the reduced problem evenly group those of the original one, every linear index of the
  original is mapped to a reduction index below the number of reduced tensors.\<close>

theorem reductionIndexForLinear_bounds:
  assumes "0 < reduced" "0 < grp" "reduced * grp \<le> 2147483647" "0 < len" "0 < ews" "len * ews \<le> 2147483647"
    and "0 \<le> i" "i \<le> 2147483647" "i < reduced * grp * (len * ews)"
  shows "\<exists>r. reductionIndexForLinear i ews len reduced (reduced * grp) = Some r \<and> 0 \<le> r \<and> r < reduced \<and>
           r = i div (len * ews) div grp"
proof -
  have le: "0 < len * ews" using assms by simp
  define t where "t = i div (len * ews)"
  have t: "0 \<le> t" "t < reduced * grp" "t \<le> i"
    using assms le by (simp_all add: t_def pos_imp_zdiv_nonneg_iff div_lt_of_lt_mult div_le_self)
  have "i32 (len * ews) = Some (len * ews)" using le assms(6) by (intro i32_Some) linarith+
  then have "tadIndex i ews len = Some t"
    using assms(7,8) le div32_nonneg [of i "len * ews"] by (simp add: tadIndex_def t_def)
  moreover have "div32 (reduced * grp) reduced = Some grp"
    using assms(1-3) div32_nonneg [of "reduced * grp" reduced] by simp
  moreover have "div32 t grp = Some (t div grp)"
    using t assms(2,3) by (intro div32_nonneg) auto
  ultimately have "reductionIndexForLinear i ews len reduced (reduced * grp) = Some (t div grp)"
    by (simp add: reductionIndexForLinear_def reductionIndexForTad_def)
  moreover have "0 \<le> t div grp" "t div grp < reduced"
    using t assms(2) by (simp_all add: pos_imp_zdiv_nonneg_iff div_lt_of_lt_mult)
  ultimately show ?thesis by (simp add: t_def)
qed

theorem reductionIndexForLinear_bounds_witness:
  "reductionIndexForLinear 17 1 4 2 6 = Some 1"
  using reductionIndexForLinear_bounds [of 2 3 4 1 17] by simp

end
