(* ===== verification/TadClass.thy ===== *)
theory TadClass
  imports Tads
begin

text \<open>
  The class \<open>TAD\<close> of \<open>include/helpers/TAD.h\<close>: the shape and strides that all tensors along given dimensions of an
  array have, and the offset of each of them in the buffer of the array.
\<close>

section \<open>The object\<close>

text \<open>
  The member \<open>tadShape\<close> owns an array (\<open>Kept\<close>), points into the buffer \<open>tadOnlyShapeInfo\<close> (\<open>Inside\<close>), or is null.
  The members for CUDA (\<open>ptrManager\<close>, \<open>ptrOutput\<close>, \<open>tadOffsetForBlock\<close>) and those that are never set
  (\<open>squeezed\<close>, \<open>numOnes\<close> and others) are left out. The members \<open>originalShapeInfo\<close> and \<open>shapeInfo\<close> are the
  same pointer throughout, and so are \<open>originalDimension\<close> and \<open>dimension\<close> as long as \<open>collapse\<close>, which nothing
  calls, is not called.
\<close>

datatype tad_shape = Unset | Kept "int list" | Inside "int list"

record TAD =
  t_tadIndex :: int
  t_dimensionLength :: int
  t_dimension :: "int list"
  t_shapeInfo :: "int list"
  t_tadOnlyShapeInfo :: "int list option"
  t_numTads :: int
  t_tadRank :: int
  t_tadShape :: tad_shape
  t_tadStride :: "int list option"
  t_tadOffsets :: "int list option"
  t_rank :: int
  t_wholeThing :: bool

definition TAD_tadLength :: "int list \<Rightarrow> int list \<Rightarrow> int \<Rightarrow> int option" where
  "TAD_tadLength shapeInfo dimension dimensionLength =
     (if dimensionLength = 1 then do {
        s \<leftarrow> shapeOf shapeInfo; d \<leftarrow> rd dimension 0; rd s d }
      else do {
        r \<leftarrow> shape_rank shapeInfo;
        mfor (\<lambda>i ret. mfor (\<lambda>j ret. do {
            d \<leftarrow> rd dimension j;
            if i = d then do { s \<leftarrow> shapeOf shapeInfo; v \<leftarrow> rd s d; i32 (ret * v) }
            else Some ret }) [0..dimensionLength - 1] ret) [0..r - 1] 1 })"

definition TAD_tensorsAlongDimension :: "int list \<Rightarrow> int list \<Rightarrow> int \<Rightarrow> int option" where
  "TAD_tensorsAlongDimension shapeInfo dimension dimensionLength = do {
     len \<leftarrow> shape_length shapeInfo;
     l \<leftarrow> TAD_tadLength shapeInfo dimension dimensionLength;
     q \<leftarrow> div64 len l;
     Some (to_int q) }"

text \<open>
  \<open>init\<close>. For a vector that is not a scalar the condition compares the pointer \<open>dimension\<close> with zero and would
  then read through it; here the pointer is never null, and \<open>wholeThing\<close> stays as it was.
\<close>

definition TAD_init :: "TAD \<Rightarrow> int list \<Rightarrow> int list \<Rightarrow> int \<Rightarrow> TAD option" where
  "TAD_init t shapeInfo dimension dimensionLength = do {
     rnk \<leftarrow> shape_rank shapeInfo;
     n \<leftarrow> (if dimensionLength = 0 then Some 1
           else TAD_tensorsAlongDimension shapeInfo dimension dimensionLength);
     ews \<leftarrow> shape_ews shapeInfo;
     let t = t\<lparr>t_shapeInfo := shapeInfo, t_dimension := dimension, t_dimensionLength := dimensionLength,
               t_rank := rnk, t_numTads := n\<rparr>;
     v \<leftarrow> isVector_buf shapeInfo;
     if v = 0 then do {
       len \<leftarrow> shape_length shapeInfo;
       Some (t\<lparr>t_wholeThing := (n = 1 \<or> (dimensionLength = rnk \<or> n = len) \<and> ews = 1)\<rparr>) }
     else do {
       s \<leftarrow> isScalar shapeInfo;
       Some (if s \<noteq> 0 then t\<lparr>t_wholeThing := True\<rparr> else t) } }"

definition empty_TAD :: TAD where
  "empty_TAD = \<lparr>t_tadIndex = 0, t_dimensionLength = undefined, t_dimension = [], t_shapeInfo = [],
     t_tadOnlyShapeInfo = None, t_numTads = 0, t_tadRank = 0, t_tadShape = Unset, t_tadStride = None,
     t_tadOffsets = None, t_rank = 0, t_wholeThing = False\<rparr>"

definition new_TAD :: "int list \<Rightarrow> int list \<Rightarrow> int \<Rightarrow> TAD option" where
  "new_TAD shapeInfo dimension dimensionLength = TAD_init empty_TAD shapeInfo dimension dimensionLength"

definition new_TAD_index :: "int \<Rightarrow> int list \<Rightarrow> int list \<Rightarrow> int \<Rightarrow> TAD option" where
  "new_TAD_index index shapeInfo dimension dimensionLength =
     TAD_init (empty_TAD\<lparr>t_tadIndex := index\<rparr>) shapeInfo dimension dimensionLength"

text \<open>With buffers computed before.\<close>

definition initWithExternalTAD :: "TAD \<Rightarrow> int list \<Rightarrow> int list \<Rightarrow> int list \<Rightarrow> int \<Rightarrow> TAD option" where
  "initWithExternalTAD t existingTAD originalShape dimension dimensionLength = do {
     rnk \<leftarrow> shape_rank originalShape;
     shp \<leftarrow> shapeOf existingTAD;
     str \<leftarrow> shape_stride existingTAD;
     ews \<leftarrow> shape_ews originalShape;
     len \<leftarrow> shape_length originalShape;
     l \<leftarrow> shape_length existingTAD;
     n \<leftarrow> div64 len l;
     let n = to_int n;
     Some (t\<lparr>t_tadOnlyShapeInfo := Some existingTAD, t_rank := rnk, t_shapeInfo := originalShape,
             t_dimension := dimension, t_dimensionLength := dimensionLength, t_tadShape := Inside shp,
             t_tadStride := Some str, t_numTads := n,
             t_wholeThing := (n = 1 \<or> (dimensionLength = rnk \<or> n = len) \<and> ews = 1)\<rparr>) }"

section \<open>Permutations\<close>

definition TAD_permuteShapeBufferInPlace :: "TAD \<Rightarrow> int list \<Rightarrow> int list \<Rightarrow> int list \<Rightarrow> int list option" where
  "TAD_permuteShapeBufferInPlace t buf rearrange out = do {
     n \<leftarrow> shapeInfoLength (t_rank t);
     out \<leftarrow> memcpy_int out buf n;
     doPermuteShapeBuffer_rank (t_rank t) out rearrange }"

definition TAD_permuteShapeBuffer :: "TAD \<Rightarrow> int list \<Rightarrow> int list \<Rightarrow> int list option" where
  "TAD_permuteShapeBuffer t buf rearrange = do {
     len \<leftarrow> shapeInfoLength (t_rank t);
     copy \<leftarrow> copyOf_new len buf;
     doPermuteShapeBuffer_rank (t_rank t) copy rearrange }"

text \<open>The dimensions that are not given, then the given ones backwards.\<close>

definition permuteDims :: "TAD \<Rightarrow> int list option" where
  "permuteDims t = do {
     r \<leftarrow> shape_rank (t_shapeInfo t);
     dims \<leftarrow> new_int r;
     s \<leftarrow> mfor (\<lambda>i s. do {
         found \<leftarrow> contains_index (t_dimension t) (t_dimensionLength t) i;
         if \<not> found then append_cell i s else Some s }) [0..r - 1] (dims, 0);
     s \<leftarrow> mfor (\<lambda>i s. do { d \<leftarrow> rd (t_dimension t) i; append_cell d s })
            (rev [0..t_dimensionLength t - 1]) s;
     Some (fst s) }"

section \<open>Offsets\<close>

text \<open>The coordinates of the first element of a tensor. The two overloads differ in the buffers of CUDA only.\<close>

definition tad2Sub :: "TAD \<Rightarrow> int \<Rightarrow> int list option" where
  "tad2Sub t index = do {
     shp \<leftarrow> shapeOf (t_shapeInfo t);
     r \<leftarrow> shape_rank (t_shapeInfo t);
     leftOverIndexLen \<leftarrow> i32 (r - t_dimensionLength t);
     _ \<leftarrow> new_int r;
     let ret = replicate (nat r) 0;
     tadShape \<leftarrow> new_int leftOverIndexLen;
     leftOverIndexes \<leftarrow> new_int leftOverIndexLen;
     sub \<leftarrow> new_int r;
     (leftOverIndexes, tadShape, len, _) \<leftarrow> mfor (\<lambda>i (leftOverIndexes, tadShape, len, leftOverIndex). do {
         found \<leftarrow> contains_index (t_dimension t) (t_dimensionLength t) i;
         if \<not> found then do {
           leftOverIndexes \<leftarrow> wr leftOverIndexes leftOverIndex i;
           v \<leftarrow> rd shp i;
           tadShape \<leftarrow> wr tadShape leftOverIndex v;
           len \<leftarrow> i32 (len * v);
           Some (leftOverIndexes, tadShape, len, leftOverIndex + 1) }
         else Some (leftOverIndexes, tadShape, len, leftOverIndex) })
       [0..r - 1] (leftOverIndexes, tadShape, 1, 0);
     sub \<leftarrow> ind2subC leftOverIndexLen tadShape index len sub;
     mfor (\<lambda>i ret. do { j \<leftarrow> rd leftOverIndexes i; v \<leftarrow> rd sub i; wr ret j v }) [0..leftOverIndexLen - 1] ret }"

section \<open>The shape of a tensor\<close>

definition TAD_lengthPerSlice :: "int list \<Rightarrow> int option" where
  "TAD_lengthPerSlice buf = do {
     shp \<leftarrow> shapeOf buf;
     r \<leftarrow> shape_rank buf;
     remove \<leftarrow> removeIndex_new shp [0] r 1;
     k \<leftarrow> i32 (r - 1);
     shape_prod remove k }"

definition tensorShape :: "TAD \<Rightarrow> (int list \<times> TAD) option" where
  "tensorShape t = (case t_tadShape t of
       Kept s \<Rightarrow> Some (s, t)
     | Inside s \<Rightarrow> Some (s, t)
     | Unset \<Rightarrow> do {
         theShape \<leftarrow> shapeOf (t_shapeInfo t);
         r \<leftarrow> shape_rank (t_shapeInfo t);
         s \<leftarrow> keep theShape (t_dimension t) (t_dimensionLength t) r;
         Some (s, t\<lparr>t_tadShape := Kept s, t_tadRank := t_dimensionLength t\<rparr>) })"

text \<open>The permutation that reverses the axes of a buffer.\<close>

definition finalPermuteDims :: "int list \<Rightarrow> int list option" where
  "finalPermuteDims ret2 = do {
     r \<leftarrow> shape_rank ret2;
     dims \<leftarrow> new_int r;
     (dims, _) \<leftarrow> mfor append_cell (rev [0..r - 1]) (dims, 0);
     Some dims }"

text \<open>A slice that is a row is not permuted.\<close>

definition is_row :: "int \<Rightarrow> int list \<Rightarrow> bool option" where
  "is_row dimensionLength ret2 =
     (if dimensionLength = 1 then do {
        v \<leftarrow> isVector_buf ret2;
        if v \<noteq> 0 then do { shp \<leftarrow> shapeOf ret2; s0 \<leftarrow> rd shp 0; Some (s0 = 1) } else Some False }
      else Some False)"

text \<open>The loop that takes slices until the length is that of a tensor; it may not end.\<close>

partial_function (option) take_slices :: "int \<Rightarrow> int \<times> int list \<Rightarrow> int list option" where
  "take_slices len st = (case st of (sliceIndex, ret2) \<Rightarrow> do {
     l \<leftarrow> shape_length ret2;
     if l > len then do {
       lengthPerSlice2 \<leftarrow> TAD_lengthPerSlice ret2;
       sliceIndex \<leftarrow> sliceOffsetForTensor_lengths sliceIndex (to_int l) lengthPerSlice2;
       n \<leftarrow> shape_slices ret2;
       q \<leftarrow> div32 sliceIndex n;
       p \<leftarrow> i32 (n * q);
       sliceIndex \<leftarrow> i32 (sliceIndex - p);
       newRet2 \<leftarrow> sliceOfShapeBuffer sliceIndex ret2;
       take_slices len (sliceIndex, newRet2) }
     else Some ret2 })"

declare take_slices.simps [code]

text \<open>What is made of the first slice \<open>ret2\<close> of the permuted array.\<close>

definition finish_slice :: "TAD \<Rightarrow> int \<Rightarrow> int list \<Rightarrow> int list \<Rightarrow> int list option" where
  "finish_slice t sliceIndex tshape ret2 = do {
     let dimensionLength = t_dimensionLength t;
     tensorLength \<leftarrow> shape_prod tshape (t_tadRank t);
     v \<leftarrow> isVector_buf ret2;
     l \<leftarrow> shape_length ret2;
     let compLength = (if v \<noteq> 0 then to_int l else tensorLength);
     if dimensionLength = t_tadRank t \<and> compLength = l then do {
       row \<leftarrow> is_row dimensionLength ret2;
       if row then Some ret2
       else if dimensionLength > 1 then do {
         dims \<leftarrow> finalPermuteDims ret2;
         map_option fst (permuteShapeBufferInPlace ret2 dims None) }
       else Some ret2 }
     else do {
       let len = tensorLength;
       lps \<leftarrow> TAD_lengthPerSlice ret2;
       if lps < 1 then Some ret2
       else do {
         x \<leftarrow> i32 (t_tadIndex t * tensorLength);
         offset \<leftarrow> div32 x lps;
         if sliceIndex = 0 \<and> len = lps then do {
           ret2 \<leftarrow> sliceOfShapeBuffer offset ret2;
           dims \<leftarrow> finalPermuteDims ret2;
           isRowVector2 \<leftarrow> isRowVector ret2;
           if \<not> isRowVector2 then map_option fst (permuteShapeBufferInPlace ret2 dims None) else Some ret2 }
         else if len = lps then do {
           n \<leftarrow> shape_slices ret2;
           q \<leftarrow> div32 offset n;
           p \<leftarrow> i32 (n * q);
           offset \<leftarrow> i32 (offset - p);
           ret2 \<leftarrow> sliceOfShapeBuffer offset ret2;
           row \<leftarrow> is_row dimensionLength ret2;
           if row then Some ret2
           else do { dims \<leftarrow> finalPermuteDims ret2; permuteShapeBuffer ret2 dims } }
         else do {
           ret2 \<leftarrow> take_slices len (sliceIndex, ret2);
           row \<leftarrow> is_row dimensionLength ret2;
           if row then Some ret2
           else if dimensionLength > 1 then do {
             dims \<leftarrow> finalPermuteDims ret2; permuteShapeBuffer ret2 dims }
           else Some ret2 } } } }"

text \<open>The general case: the given axes are moved to the end, and the first slice is taken.\<close>

definition sliced_tensor :: "TAD \<Rightarrow> (int list \<times> TAD) option" where
  "sliced_tensor t = do {
     let dimension = t_dimension t;
     let dimensionLength = t_dimensionLength t;
     rnk \<leftarrow> shape_rank (t_shapeInfo t);
     theShape \<leftarrow> shapeOf (t_shapeInfo t);
     (tshape, t) \<leftarrow> tensorShape t;
     reverseDimensions \<leftarrow> reverseCopy dimension dimensionLength;
     rankRange \<leftarrow> shape_range1 0 rnk;
     remove \<leftarrow> removeIndex_new rankRange dimension rnk dimensionLength;
     leftOver \<leftarrow> i32 (rnk - dimensionLength);
     newPermuteDims \<leftarrow> shape_concat remove leftOver
       (case reverseDimensions of Some r \<Rightarrow> r | None \<Rightarrow> []) dimensionLength;
     permuted \<leftarrow> permuteShapeBuffer (t_shapeInfo t) newPermuteDims;
     r \<leftarrow> shape_rank permuted;
     sliceIndex \<leftarrow> sliceOffsetForTensor r (t_tadIndex t) theShape tshape
       dimensionLength dimension dimensionLength;
     ret2 \<leftarrow> sliceOfShapeBuffer sliceIndex permuted;
     ret2 \<leftarrow> finish_slice t sliceIndex tshape ret2;
     Some (ret2, t) }"

definition TAD_shapeInfoOnlyShapeAndStride :: "TAD \<Rightarrow> (int list \<times> TAD) option" where
  "TAD_shapeInfoOnlyShapeAndStride t = do {
     let shapeInfo = t_shapeInfo t;
     let dimension = t_dimension t;
     let dimensionLength = t_dimensionLength t;
     d0 \<leftarrow> (if t_wholeThing t \<and> dimensionLength = 1 then rd dimension 0 else Some 0);
     s \<leftarrow> isScalar shapeInfo;
     v \<leftarrow> isVector_buf shapeInfo;
     rnk \<leftarrow> shape_rank shapeInfo;
     n \<leftarrow> shapeInfoLength rnk;
     theShape \<leftarrow> shapeOf shapeInfo;
     if t_wholeThing t \<and> dimensionLength = 1 \<and> d0 = 2147483647 \<or> s \<noteq> 0 then do {
       ret \<leftarrow> createScalarShapeInfo_new; Some (ret, t) }
     else if dimensionLength > 1 \<and> v \<noteq> 0 then do {
       ret \<leftarrow> copyOf_new n shapeInfo; Some (ret, t) }
     else if t_numTads t = 1 \<and> (rnk = dimensionLength \<or> dimensionLength = 0) then do {
       ret \<leftarrow> copyOf_new n shapeInfo;
       p \<leftarrow> isDimPermuted dimension dimensionLength;
       ret \<leftarrow> (if p then doPermuteShapeBuffer ret dimension else Some ret);
       Some (ret, t) }
     else if dimensionLength = 1 then do {
       d \<leftarrow> rd dimension 0;
       s1 \<leftarrow> (if d = 0 \<and> v \<noteq> 0 then rd theShape 1 else Some 0);
       s0 \<leftarrow> (if d = 1 \<and> v \<noteq> 0 then rd theShape 0 else Some 0);
       if d = 0 \<and> v \<noteq> 0 \<and> s1 = 1 then do {
         ret \<leftarrow> permuteShapeBuffer shapeInfo [1, 0]; Some (ret, t) }
       else if d = 1 \<and> v \<noteq> 0 \<and> s0 = 1 then do {
         ret \<leftarrow> copyOf_new n shapeInfo; Some (ret, t) }
       else do {
         sd \<leftarrow> rd theShape d;
         if sd = 1 then do {
           scalarInfo \<leftarrow> createScalarShapeInfo_new;
           r \<leftarrow> shape_rank scalarInfo;
           m \<leftarrow> shapeInfoLength r;
           scalarInfo \<leftarrow> wr scalarInfo (m - 3) (t_tadIndex t);
           Some (scalarInfo, t) }
         else sliced_tensor t } }
     else sliced_tensor t }"

section \<open>The operations of the class\<close>

text \<open>An old \<open>tadShape\<close> that points into a buffer cannot be deleted.\<close>

definition createTadOnlyShapeInfo :: "TAD \<Rightarrow> TAD option" where
  "createTadOnlyShapeInfo t = do {
     (info, t) \<leftarrow> TAD_shapeInfoOnlyShapeAndStride t;
     _ \<leftarrow> (case t_tadShape t of Inside _ \<Rightarrow> None | _ \<Rightarrow> Some ());
     shp \<leftarrow> shapeOf info;
     str \<leftarrow> shape_stride info;
     Some (t\<lparr>t_tadOnlyShapeInfo := Some info, t_tadShape := Inside shp, t_tadStride := Some str\<rparr>) }"

definition tadOffset :: "TAD \<Rightarrow> int \<Rightarrow> (int \<times> TAD) option" where
  "tadOffset t index = do {
     t \<leftarrow> (case t_tadOnlyShapeInfo t of None \<Rightarrow> createTadOnlyShapeInfo t | Some _ \<Rightarrow> Some t);
     if t_wholeThing t then Some (index, t)
     else do {
       sub \<leftarrow> tad2Sub t index;
       shp \<leftarrow> shapeOf (t_shapeInfo t);
       str \<leftarrow> shape_stride (t_shapeInfo t);
       r \<leftarrow> shape_rank (t_shapeInfo t);
       ret \<leftarrow> getOffset 0 shp str sub r;
       Some (if t_dimensionLength t > 1 \<and> ret < 0 then -1 else ret, t) } }"

text \<open>The loop is a parallel one; its iterations only share the object, which is complete once the shape of the
  tensors has been computed.\<close>

definition createOffsets :: "TAD \<Rightarrow> TAD option" where
  "createOffsets t = do {
     offsets \<leftarrow> new_int (t_numTads t);
     (offsets, t) \<leftarrow> mfor (\<lambda>i (offsets, t). do {
         (v, t) \<leftarrow> tadOffset t i;
         offsets \<leftarrow> wr offsets i v;
         Some (offsets, t) }) [0..t_numTads t - 1] (offsets, t);
     Some (t\<lparr>t_tadOffsets := Some offsets\<rparr>) }"

end
