(* ===== verification/TadShapes.thy ===== *)
theory TadShapes
  imports TadClass
begin

text \<open>
  What the class \<open>TAD\<close> computes: the shape information of a tensor traverses the given dimensions of the array, and
  the offsets of the tensors together with it reach every element of the array exactly once.
\<close>

section \<open>Slices\<close>

lemma getOffset_zero:
  assumes "n \<le> length shp" "n \<le> length str" "pos_shape (take n shp)"
  shows "getOffset 0 shp str (replicate n 0) (int n) = Some 0"
proof -
  have "0 < shp ! k" if "k < n" for k
    using pos_shape_nth [OF assms(3), of k] that assms(1) by simp
  then have m: "mret (\<lambda>i offset. do {
         x \<leftarrow> rd (replicate n 0) i;
         d \<leftarrow> rd shp i;
         if x \<ge> d \<and> d \<noteq> 1 then Some (Inl (- 1))
         else if d \<noteq> 1 then do {
           s \<leftarrow> rd str i;
           t \<leftarrow> i64 (x * s);
           offset \<leftarrow> i64 (offset + t);
           Some (Inr offset) }
         else Some (Inr offset) }) [0..int n - 1] 0 = Some (Inr 0)"
    using assms(1,2)
    by (intro mret_all_Inr) (auto simp: rd_def i64_def nat_less_iff not_le split: if_splits)
  show ?thesis unfolding getOffset_def m by simp
qed

text \<open>The first slice of an array: its offset comes out as 0.\<close>

lemma slice_tail_first:
  assumes S: "dims_ok S T" "S \<noteq> []" and S': "length S' = length T'" "dims_ok S' T'" "pos_shape S'" "pos_shape T'"
      "prod_list S' \<le> 2147483647" "length S \<le> Suc (length S')" "2 \<le> length S'"
    and m: "isMatrix_buf (mk_info S T off ews ord) = Some m" "m = 0 \<or> 2 \<le> length T"
  shows "slice_tail 0 (mk_info S T off ews ord) (int (length S')) (mk_info S' T' a b c) =
         Some (mk_info S' T' 0 (if m = 0 then ews else T ! 1) (order_of S' T'))"
proof -
  have T': "T' \<noteq> []" using S'(1,7) by auto
  have ind: "wr (replicate (length S) 0) 0 0 = Some (replicate (length S) (0 :: int))"
    using S(2) by (cases S) (simp_all add: wr_def nat_add_distrib)
  have "pos_shape (take (length S) (S' @ T' @ [a, b, c]))"
  proof -
    have "take (length S) (S' @ T' @ [a, b, c]) = take (length S) (S' @ take 1 T')"
      using S'(6) S'(1,7) T' by (cases T') (auto simp: take_Cons' take_append)
    then show ?thesis using S'(3,4) pos_shape_take by (metis pos_shape_simps(3))
  qed
  then have off: "getOffset 0 (S' @ T' @ [a, b, c]) (T' @ [a, b, c]) (replicate (length S) 0) (int (length S)) = Some 0"
    using S'(1,6) by (intro getOffset_zero) auto
  have ord: "getOrder (int (length S')) (S' @ T' @ [x, y, z]) (T' @ [x, y, z]) 1 = Some (order_of S' T')" for x y z
    using S'(1,3,5) by (intro getOrder_eq) (auto simp: nth_append)
  have n: "shapeInfoLength (int (length S')) = Some (2 * int (length S') + 4)"
    using S'(2) by (intro shapeInfoLength_eq) (auto simp: dims_ok_def)
  note w = wr_tail_mk_info [of T' S', OF S'(1) [symmetric]]
  have row: "rd (T @ [off, ews, ord]) 1 = Some (T ! 1)" if "2 \<le> length T"
    using that by (simp add: rd_def nth_append)
  show ?thesis
    using S S'(2) m
    by (auto simp: slice_tail_def info_simps ind off n w ord to_int_def row)
qed

lemma isVector_mk_info:
  "isVector_buf (mk_info sh st off ews ord) =
     Some (if length sh = 1 \<or> length sh = 2 \<and> (sh ! 0 = 1 \<or> sh ! 1 = 1) then 1 else 0)"
  using isVector_eq [of "length sh" sh "sh @ st @ [off, ews, ord]"]
  by (simp add: isVector_buf_def info_simps)

lemma isMatrix_mk_info:
  "3 \<le> length sh \<Longrightarrow> isMatrix_buf (mk_info sh st off ews ord) = Some 0"
  "isMatrix_buf (mk_info [x, y] st off ews ord) = Some (if x = 1 \<or> y = 1 then 0 else 1)"
  by (simp_all add: isMatrix_buf_def isMatrix_def info_simps rd_def)

lemma slice_first:
  assumes ok: "dims_ok S T" "pos_shape S" "pos_shape T" "prod_list S \<le> 2147483647" and r: "3 \<le> length S"
  shows "sliceOfShapeBuffer 0 (mk_info S T off ews ord) = Some (mk_info (tl S) (tl T) 0 ews (order_of (tl S) (tl T)))"
proof -
  obtain s S' where S: "S = s # S'" using r by (cases S) auto
  obtain t T' where T: "T = t # T'" using ok(1) S by (cases T) (auto simp: dims_ok_def)
  let ?n = "length S'"
  have len: "length T' = ?n" "2 * int (Suc ?n) + 4 \<le> 2147483647" "2 \<le> ?n" using ok(1) r by (auto simp: dims_ok_def S T)
  have p: "prod_list S' \<le> 2147483647" using prod_drop_le [of S 1] ok(2,4) by (simp add: S)
  define u :: int where "u = undefined"
  define g where "g k = mk_info (take k S' @ replicate (?n - k) u) (take k T' @ replicate (?n - k) u) u u u" for k
  have new: "new_int (2 * int ?n + 4) = Some (replicate (2 * ?n + 4) u)"
    by (simp add: new_int_def nat_add_distrib nat_mult_distrib u_def)
  have start: "wr (replicate (2 * ?n + 4) u) 0 (int ?n) = Some (g 0)"
  proof -
    have "2 * ?n + 4 = Suc (?n + (?n + 3))" by simp
    then have "replicate (2 * ?n + 4) u = u # replicate ?n u @ replicate ?n u @ [u, u, u]"
      by (simp only: replicate_Suc replicate_add) (simp add: numeral_3_eq_3)
    then show ?thesis by (simp add: wr_def g_def mk_info_def)
  qed
  have loop: "mfor (\<lambda>i b. do {
           sh \<leftarrow> rd (S @ T @ [off, ews, ord]) (i + 1);
           b \<leftarrow> wr b (1 + i) sh;
           st \<leftarrow> rd (T @ [off, ews, ord]) (i + 1);
           wr b (1 + int ?n + i) st }) [0..int ?n - 1] (g 0) = Some (g ?n)"
  proof (rule mfor_trace)
    fix k assume k: "k < ?n"
    have upd: "(take k Z @ replicate (?n - k) u)[k := Z ! k] = take (Suc k) Z @ replicate (?n - Suc k) u"
      if "length Z = ?n" for Z
      using that k fill_up_step [of Z "replicate ?n u" k] by simp
    have "rd (S @ T @ [off, ews, ord]) (int k + 1) = Some (S' ! k)" "rd (T @ [off, ews, ord]) (int k + 1) = Some (T' ! k)"
      using k len(1) by (simp_all add: rd_def S T nth_append nat_add_distrib)
    then show "do {
           sh \<leftarrow> rd (S @ T @ [off, ews, ord]) (int k + 1);
           b \<leftarrow> wr (g k) (1 + int k) sh;
           st \<leftarrow> rd (T @ [off, ews, ord]) (int k + 1);
           wr b (1 + int ?n + int k) st } = Some (g (Suc k))"
      using k len(1) upd [of S'] upd [of T']
      by (simp add: g_def wr_shape_mk_info [of k] wr_stride_mk_info [of _ _ k])
  qed
  have tail: "slice_tail 0 (mk_info S T off ews ord) (int ?n) (mk_info S' T' u u u) =
      Some (mk_info S' T' 0 ews (order_of S' T'))"
    using slice_tail_first [OF ok(1), of S' T' off ews ord 0 u u u] ok len p isMatrix_mk_info(1) [OF r]
    by (simp add: S T dims_ok_def)
  have gn: "g ?n = mk_info S' T' u u u" using len(1) by (simp add: g_def)
  have "isVector_buf (mk_info S T off ews ord) = Some 0" using r by (simp add: isVector_mk_info)
  moreover have "i32 (int (length S) - 1) = Some (int ?n)" using len by (simp add: S i32_def)
  moreover have "shapeInfoLength (int ?n) = Some (2 * int ?n + 4)" using len by (intro shapeInfoLength_eq) auto
  ultimately show ?thesis
    using r len(3) ok(1) isMatrix_mk_info(1) [OF r] new start loop tail gn
    by (simp add: sliceOfShapeBuffer_def info_simps S T)
qed

lemma slice_first_matrix:
  assumes "dims_ok [x, y] [s, t]" "0 < x" "0 < y" "x \<noteq> 1" "y \<noteq> 1" "0 < t" "y \<le> 2147483647"
  shows "sliceOfShapeBuffer 0 (mk_info [x, y] [s, t] off ews ord) = Some (mk_info [1, y] [1, t] 0 t (order_of [1, y] [1, t]))"
proof -
  define u :: int where "u = undefined"
  have new: "new_int 8 = Some [u, u, u, u, u, u, u, u]"
    by (simp add: new_int_def u_def numeral_eq_Suc)
  have tail: "slice_tail 0 (mk_info [x, y] [s, t] off ews ord) 2 (mk_info [1, y] [1, t] u u u) =
      Some (mk_info [1, y] [1, t] 0 t (order_of [1, y] [1, t]))"
    using slice_tail_first [OF assms(1), of "[1, y]" "[1, t]" off ews ord 1 u u u] assms isMatrix_mk_info(2)
    by (simp add: dims_ok_def)
  have "[2, 1, y, 1, t, u, u, u] = mk_info [1, y] [1, t] u u u" by (simp add: mk_info_def)
  moreover have "isVector_buf (mk_info [x, y] [s, t] off ews ord) = Some 0"
    using assms by (simp add: isVector_mk_info)
  moreover have "shapeInfoLength 2 = Some 8" by (simp add: shapeInfoLength_def i32_def)
  moreover have "wr [u, u, u, u, u, u, u, u] 0 2 = Some [2, u, u, u, u, u, u, u]" "wr [2, u, u, u, u, u, u, u] 1 1 = Some [2, 1, u, u, u, u, u, u]"
    "wr [2, 1, u, u, u, u, u, u] 2 y = Some [2, 1, y, u, u, u, u, u]" "wr [2, 1, y, u, u, u, u, u] 3 1 = Some [2, 1, y, 1, u, u, u, u]"
    "wr [2, 1, y, 1, u, u, u, u] 4 t = Some [2, 1, y, 1, t, u, u, u]"
    by (simp_all add: wr_def numeral_eq_Suc)
  ultimately show ?thesis
    using assms new tail isMatrix_mk_info(2) [of x y "[s, t]" off ews ord]
    by (simp add: sliceOfShapeBuffer_def info_simps i32_def rd_def)
qed


section \<open>Steps of the computation\<close>

lemma append_cells:
  "c + length vs \<le> length ret \<Longrightarrow> c + length vs \<le> 2147483647 \<Longrightarrow>
   mfor append_cell vs (ret, int c) = Some (take c ret @ vs @ drop (c + length vs) ret, int (c + length vs))"
proof (induction vs arbitrary: ret c)
  case (Cons v vs)
  have "append_cell v (ret, int c) = Some (ret[c := v], int (Suc c))"
    using Cons.prems by (intro append_cell_nat) auto
  moreover have "take (Suc c) (ret[c := v]) = take c ret @ [v]"
    using Cons.prems by (simp add: take_Suc_conv_app_nth)
  ultimately show ?case
    using Cons.IH [of "Suc c" "ret[c := v]"] Cons.prems by (simp del: of_nat_Suc)
qed simp

definition reversal :: "nat \<Rightarrow> int list" where
  "reversal n = map int (rev [0..<n])"

lemma length_reversal [simp]: "length (reversal n) = n"
  by (simp add: reversal_def)

lemma reversal_perm: "is_perm (reversal n) n"
  by (auto simp: reversal_def is_perm_def distinct_map inj_on_def)

lemma permute_reversal: "length xs = n \<Longrightarrow> permute_list (reversal n) xs = rev xs"
proof (rule nth_equalityI)
  fix i assume xs: "length xs = n" and "i < length (permute_list (reversal n) xs)"
  then have i: "i < n" by simp
  then have "reversal n ! i = int (n - Suc i)" by (simp add: reversal_def rev_nth)
  then have "nat (reversal n ! i) = n - Suc i" by (simp only: nat_int)
  then show "permute_list (reversal n) xs ! i = rev xs ! i" using i xs by (simp add: nth_permute_list rev_nth)
qed simp

lemma finalPermuteDims_eq:
  assumes "dims_ok S T"
  shows "finalPermuteDims (mk_info S T off ews ord) = Some (reversal (length S))"
proof -
  let ?n = "length S"
  have "rev [0..int ?n - 1] = reversal ?n"
  proof (induction ?n arbitrary: S)
    case (Suc n)
    have "[0..int (Suc n) - 1] = [0..int n - 1] @ [int n]" using upto_rec2 [of 0 "int n"] by simp
    moreover have "rev [0..int n - 1] = reversal n" using Suc(1) [of "replicate n 0"] by simp
    ultimately show ?case using Suc(2) [symmetric] by (simp add: reversal_def)
  qed (simp add: reversal_def)
  moreover have "length (reversal ?n) = ?n" by (simp add: reversal_def)
  ultimately show ?thesis
    using append_cells [of 0 "reversal ?n" "replicate ?n undefined"] assms
    by (simp add: finalPermuteDims_def info_simps dims_ok_def)
qed

lemma reverse_axes:
  assumes "permutable S T"
  shows "permuteShapeBufferInPlace (mk_info S T off ews ord) (reversal (length S)) None =
      Some (mk_info (rev S) (rev T) off (- 1) (order_of (rev S) (rev T)), None)"
    and "S \<notin> {[], [1], [1, 1]} \<Longrightarrow> permuteShapeBuffer (mk_info S T off ews ord) (reversal (length S)) =
      Some (mk_info (rev S) (rev T) off (- 1) (order_of (rev S) (rev T)))"
    and "S = [1, 1] \<Longrightarrow> permuteShapeBuffer (mk_info S T off ews ord) (reversal (length S)) =
      Some (mk_info S T off ews ord)"
proof -
  have ok: "dims_ok S T" "length T = length S" "2 * int (length S) + 4 \<le> 2147483647"
    using assms by (auto simp: permutable_def dims_ok_def)
  have p: "permute_list (reversal (length S)) S = rev S" "permute_list (reversal (length S)) T = rev T"
    "length (reversal (length S)) = length S"
    using permute_reversal [of S "length S"] permute_reversal [of T "length S"] ok(2) by simp_all
  show "permuteShapeBufferInPlace (mk_info S T off ews ord) (reversal (length S)) None =
      Some (mk_info (rev S) (rev T) off (- 1) (order_of (rev S) (rev T)), None)"
    using permute_axes_eq [OF assms reversal_perm, of "reversal (length S)"] p ok(3)
    by (simp add: permuteShapeBufferInPlace_def doPermuteShapeBuffer_rank_tmp_def info_simps)
  show "permuteShapeBuffer (mk_info S T off ews ord) (reversal (length S)) =
      Some (mk_info (rev S) (rev T) off (- 1) (order_of (rev S) (rev T)))" if "S \<notin> {[], [1], [1, 1]}"
    using permuteShapeBuffer_eq [OF assms reversal_perm that] p by simp
  show "permuteShapeBuffer (mk_info S T off ews ord) (reversal (length S)) =
      Some (mk_info S T off ews ord)" if S: "S = [1, 1]"
  proof -
    have "length T = 2" using ok(2) by (simp add: S)
    then obtain x y where T: "T = [x, y]" using list_of_2 by blast
    have "shapeInfoLength 2 = Some 8" by (simp add: shapeInfoLength_def i32_def)
    then show ?thesis
      by (simp add: permuteShapeBuffer_def info_simps S T doPermuteShapeBuffer_def isScalar_def shapeOf_def ptr_def
          copyOf_new_def copyOf_def memcpy_int_def new_int_def mk_info_def shape_rank_def rd_def reversal_def)
  qed
qed

lemma TAD_lengthPerSlice_eq:
  assumes "dims_ok S T" "S \<noteq> []" "pos_shape S" "prod_list S \<le> 2147483647"
  shows "TAD_lengthPerSlice (mk_info S T off ews ord) = Some (prod_list (tl S))"
proof -
  let ?n = "length S" and ?s = "S @ T @ [off, ews, ord]"
  have "filter (\<lambda>k. int k \<notin> set [0]) [0..<?n] = [1..<?n]"
    using assms(2) by (simp add: upt_conv_Cons)
  moreover have "map ((!) ?s) [1..<?n] = tl S"
  proof (rule nth_equalityI)
    fix i assume "i < length (map ((!) ?s) [1..<?n])"
    then have "Suc i < ?n" "i < length (tl S)" by simp_all
    then show "map ((!) ?s) [1..<?n] ! i = tl S ! i" by (simp add: nth_append nth_tl)
  qed simp
  moreover have n: "2 * int ?n + 4 \<le> 2147483647" using assms(1) by (simp add: dims_ok_def)
  ultimately have "removeIndex_new ?s [0] (int ?n) 1 = Some (tl S)"
    using removeIndex_new_eq [of "[0]" ?n ?s] assms(2) by (simp add: index_set_def)
  moreover have "i32 (int ?n - 1) = Some (int (length (tl S)))"
    using assms(2) n by (simp add: i32_def of_nat_diff Suc_leI)
  moreover have "shape_prod (tl S) (int (length (tl S))) = Some (prod_list (tl S))"
    using shape_prod_eq [of "length (tl S)" "tl S"] pos_shape_drop [OF assms(3), of 1] prod_drop_le [OF assms(3), of 1] assms(4)
    by (simp add: drop_Suc)
  ultimately show ?thesis by (simp add: TAD_lengthPerSlice_def info_simps)
qed

lemma permutable_tl: "permutable (x # S) (y # T) \<Longrightarrow> permutable S T"
  using prod_drop_le [of "x # S" 1] prod_drop_le [of "y # T" 1]
  by (auto simp: permutable_def dims_ok_def small_shape_def)

lemma permutable_row:
  assumes "permutable (S @ [x]) (T @ [y])" "length T = length S"
  shows "permutable [1, x] [1, y]"
proof -
  have p: "pos_shape (S @ [x])" "pos_shape (T @ [y])" "prod_list (S @ [x]) \<le> 2147483647"
    "prod_list (T @ [y]) \<le> 9223372036854775807"
    using assms(1) by (auto simp: permutable_def small_shape_def)
  have "x \<le> prod_list (S @ [x])" "y \<le> prod_list (T @ [y])"
    using dim_le_prod [OF p(1), of x] dim_le_prod [OF p(2), of y] by auto
  then have "x \<le> 2147483647" "y \<le> 9223372036854775807" using p by linarith+
  then show ?thesis using p by (simp add: permutable_def dims_ok_def small_shape_def)
qed

section \<open>Slicing down to a tensor\<close>

text \<open>A slice has no positive element-wise stride but where it is a row of a matrix.\<close>

definition slice_ews :: "int list \<Rightarrow> int list \<Rightarrow> int \<Rightarrow> bool" where
  "slice_ews S T e \<longleftrightarrow> e < 1 \<or> (\<exists>y s. S = [1, y] \<and> T = [s, e])"

lemma slice_ews_right: "slice_ews S T e \<Longrightarrow> pos_shape S \<Longrightarrow> ews_right S T e c"
  by (auto simp: slice_ews_def ews_right_def order_coords_def f_coords_def)

lemma ews_right_none: "e < 1 \<Longrightarrow> ews_right S T e c"
  by (simp add: ews_right_def)

text \<open>The axes in front of the tensor have length 1.\<close>

definition only_tensor :: "nat \<Rightarrow> int list \<Rightarrow> int list \<Rightarrow> int list \<Rightarrow> bool" where
  "only_tensor N D TD buf \<longleftrightarrow> (\<exists>U TU e c. buf = mk_info (U @ D) (TU @ TD) 0 e c \<and> list_all ((=) 1) U \<and>
     slice_ews (U @ D) (TU @ TD) e \<and> length TU = length U \<and> permutable (U @ D) (TU @ TD) \<and> 2 \<le> length (U @ D) \<and>
     length (U @ D) \<le> N)"

lemma only_tensorI:
  "list_all ((=) 1) U \<Longrightarrow> slice_ews (U @ D) (TU @ TD) e \<Longrightarrow> length TU = length U \<Longrightarrow> permutable (U @ D) (TU @ TD) \<Longrightarrow> 2 \<le> length (U @ D) \<Longrightarrow>
   length (U @ D) \<le> N \<Longrightarrow> only_tensor N D TD (mk_info (U @ D) (TU @ TD) 0 e c)"
  by (auto simp: only_tensor_def)

lemma first_slice_tensor:
  assumes "permutable (r # R @ D) (t # TR @ TD)" "length TR = length R" "D \<noteq> []"
    and "R \<noteq> [] \<or> 2 \<le> length D \<or> r \<noteq> 1 \<and> D \<noteq> [1]" "slice_ews (r # R @ D) (t # TR @ TD) e"
  shows "\<exists>U TU e' c'. sliceOfShapeBuffer 0 (mk_info (r # R @ D) (t # TR @ TD) off e c) =
           Some (mk_info (U @ D) (TU @ TD) 0 e' c') \<and> length TU = length U \<and> permutable (U @ D) (TU @ TD) \<and>
           2 \<le> length (U @ D) \<and> slice_ews (U @ D) (TU @ TD) e' \<and> (U = R \<and> TU = TR \<or> U = [1] \<and> TU = [1] \<and> R = [] \<and> length D = 1)"
proof -
  have p: "dims_ok (r # R @ D) (t # TR @ TD)" "pos_shape (r # R @ D)" "pos_shape (t # TR @ TD)"
    "prod_list (r # R @ D) \<le> 2147483647"
    using assms(1) by (simp_all add: permutable_def small_shape_def)
  show ?thesis
  proof (cases "R = [] \<and> length D = 1")
    case True
    then obtain x y where D: "D = [x]" "TD = [y]" "TR = []"
      using p(1) assms(2) by (cases D; cases TD) (auto simp: dims_ok_def)
    then have "x \<noteq> 1" "r \<noteq> 1" "0 < x" "0 < r" "0 < y" using assms(4) True p by auto
    moreover have "x \<le> 2147483647"
      using dim_le_prod [OF p(2), of x] p(4) D by simp
    ultimately have "sliceOfShapeBuffer 0 (mk_info [r, x] [t, y] off e c) = Some (mk_info [1, x] [1, y] 0 y (order_of [1, x] [1, y]))"
      using p(1) True D by (intro slice_first_matrix) auto
    moreover have "permutable [1, x] [1, y]"
      using permutable_row [of "[r]" x "[t]" y] assms(1) True D by simp
    ultimately show ?thesis using True D by (intro exI [of _ "[1]"]) (auto simp: slice_ews_def)
  next
    case False
    then have "3 \<le> length (r # R @ D)"
      using assms(3) by (cases R; cases D) (auto simp: Suc_le_eq)
    from slice_first [OF p this, of off e c]
    show ?thesis
      using permutable_tl [OF assms(1)] assms(2,3,5) False
      by (intro exI [of _ R] exI [of _ TR]) (auto simp: slice_ews_def Suc_le_eq neq_Nil_conv)
  qed
qed

lemma take_slices_tensor:
  assumes "permutable (R @ D) (TR @ TD)" "length TR = length R" "2 \<le> length (R @ D)" "D \<noteq> []" "D \<noteq> [1]"
    and "slice_ews (R @ D) (TR @ TD) e" "length (R @ D) \<le> N"
  shows "\<exists>buf. take_slices (prod_list D) (0, mk_info (R @ D) (TR @ TD) 0 e c) = Some buf \<and> only_tensor N D TD buf"
  using assms(1-3,6,7)
proof (induction R arbitrary: TR e c)
  case Nil
  have "shape_length (mk_info D TD 0 e c) = Some (prod_list D)"
    using Nil by (intro shape_length_mk_info) (auto simp: permutable_def small_shape_def)
  then have "take_slices (prod_list D) (0, mk_info D TD 0 e c) = Some (mk_info D TD 0 e c)"
    by (simp add: take_slices.simps)
  moreover have "only_tensor N D TD (mk_info D TD 0 e c)"
    using Nil only_tensorI [of "[]" D "[]" TD e N c] by simp
  ultimately show ?case using Nil by simp
next
  case (Cons r R)
  obtain t TR' where TR: "TR = t # TR'" using Cons.prems(2) by (cases TR) auto
  have p: "dims_ok (r # R @ D) (t # TR' @ TD)" "pos_shape (r # R @ D)" "pos_shape (t # TR' @ TD)"
    "prod_list (r # R @ D) \<le> 2147483647"
    using Cons.prems(1) by (simp_all add: permutable_def small_shape_def TR)
  let ?b = "mk_info (r # R @ D) (t # TR' @ TD) 0 e c"
  have len: "shape_length ?b = Some (prod_list (r # R @ D))"
    using p by (intro shape_length_mk_info) auto
  have "pos_shape (r # R)" using p(2) by simp
  then have pD: "1 \<le> prod_list D" "0 < prod_list (r # R)" using p(2) prod_list_ge1 prod_list_pos by auto
  have q: "1 \<le> prod_list (R @ D)" "prod_list (R @ D) \<le> 2147483647" "0 < r"
    using p(2,4) prod_drop_le [OF p(2), of 1] prod_list_ge1 [of "R @ D"] by simp_all
  have step: "take_slices (prod_list D) (0, ?b) = (if prod_list (r # R) = 1 then Some ?b
      else sliceOfShapeBuffer 0 ?b \<bind> (\<lambda>b'. take_slices (prod_list D) (0, b')))"
  proof -
    have "prod_list (r # R @ D) > prod_list D \<longleftrightarrow> prod_list (r # R) \<noteq> 1"
    proof -
      have "prod_list (r # R @ D) = prod_list (r # R) * prod_list D" by simp
      then show ?thesis
        using pD mult_less_cancel_right [of 1 "prod_list D" "prod_list (r # R)"] by auto
    qed
    moreover have "TAD_lengthPerSlice ?b = Some (prod_list (R @ D))"
      using TAD_lengthPerSlice_eq [OF p(1) _ p(2,4)] by simp
    moreover have "sliceOffsetForTensor_lengths 0 l (prod_list (R @ D)) = Some 0" for l
      using q by (simp add: sliceOffsetForTensor_lengths_def i32_def div32_nonneg)
    moreover have "shape_slices ?b = Some r" by (simp add: shape_slices_def info_simps rd_def)
    moreover have "r \<le> 2147483647" using dim_le_prod [OF p(2), of r] p(4) by simp
    then have "div32 0 r = Some 0" using q by (simp add: div32_nonneg)
    ultimately show ?thesis
      using len by (subst take_slices.simps) (simp add: i32_def)
  qed
  show ?case
  proof (cases "prod_list (r # R) = 1")
    case True
    then have "list_all ((=) 1) (r # R)" using prod_1_units [of "r # R"] p(2) by simp
    then show ?thesis
      using True step Cons.prems only_tensorI [of "r # R" D TR TD e N c] by (auto simp: TR)
  next
    case False
    have one: "length D = 1 \<Longrightarrow> R = [] \<Longrightarrow> r \<noteq> 1" using False by auto
    have "R \<noteq> [] \<or> 2 \<le> length D \<or> r \<noteq> 1 \<and> D \<noteq> [1]"
      using one assms(4,5) by (cases D) (auto simp: Suc_le_eq)
    from first_slice_tensor [OF _ _ assms(4) this, of t TR' TD e 0 c]
    obtain U TU e' c' where sl: "sliceOfShapeBuffer 0 ?b = Some (mk_info (U @ D) (TU @ TD) 0 e' c')"
      "length TU = length U" "permutable (U @ D) (TU @ TD)" "2 \<le> length (U @ D)" "slice_ews (U @ D) (TU @ TD) e'"
      "U = R \<and> TU = TR' \<or> U = [1] \<and> TU = [1] \<and> R = [] \<and> length D = 1"
      using Cons.prems by (auto simp: TR)
    from sl(6) show ?thesis
    proof
      assume "U = R \<and> TU = TR'"
      then show ?thesis using Cons.IH [of TU e' c'] Cons.prems(5) sl step False by (simp add: TR)
    next
      assume U: "U = [1] \<and> TU = [1] \<and> R = [] \<and> length D = 1"
      have "shape_length (mk_info (U @ D) (TU @ TD) 0 e' c') = Some (prod_list (U @ D))"
        using sl(3) by (intro shape_length_mk_info) (auto simp: permutable_def small_shape_def)
      then have "take_slices (prod_list D) (0, mk_info (U @ D) (TU @ TD) 0 e' c') = Some (mk_info (U @ D) (TU @ TD) 0 e' c')"
        using U by (subst take_slices.simps) simp
      then show ?thesis
        using step sl False U only_tensorI [of U D TU TD e' N c'] Cons.prems(3,5) by (simp add: TR)
    qed
  qed
qed


section \<open>The shape of a tensor\<close>

text \<open>A buffer that traverses the axes of a tensor in row-major order and has at most \<open>N\<close> axes; with the flag, its
  element-wise stride is right.\<close>

definition tensor_view :: "bool \<Rightarrow> nat \<Rightarrow> int list \<Rightarrow> int list \<Rightarrow> int list \<Rightarrow> bool" where
  "tensor_view q N D TD buf \<longleftrightarrow> (\<exists>S T off e c. buf = mk_info S T off e c \<and> length S \<le> N \<and> permutable S T \<and> same_lin False S T D TD \<and>
     (q \<longrightarrow> ews_right S T e c))"

lemma tensor_viewI: "permutable S T \<Longrightarrow> same_lin False S T D TD \<Longrightarrow> (q \<Longrightarrow> ews_right S T e c) \<Longrightarrow> length S \<le> N \<Longrightarrow>
  tensor_view q N D TD (mk_info S T off e c)"
  unfolding tensor_view_def by blast

lemma permutable_rev: "permutable S T \<Longrightarrow> permutable (rev S) (rev T)"
  by (simp add: permutable_def dims_ok_def small_shape_def pos_shape_rev prod_list_rev)

lemma permutable_pos: "permutable S T \<Longrightarrow> pos_shape S \<and> pos_shape T \<and> length T = length S"
  by (simp add: permutable_def dims_ok_def small_shape_def)

lemma list_all_rev: "list_all P (rev xs) = list_all P xs"
  by (simp add: list_all_iff)

lemma view_reversed:
  assumes "list_all ((=) 1) U" "length TU = length U" "permutable (U @ rev D) (TU @ rev TD)" "length TD = length D"
    and "length (U @ rev D) \<le> N"
  shows "tensor_view q N D TD (mk_info (rev (U @ rev D)) (rev (TU @ rev TD)) off (- 1) c)"
proof (rule tensor_viewI)
  have p: "pos_shape D" "pos_shape U" using permutable_pos [OF assms(3)] by (simp_all add: pos_shape_rev)
  have "same_lin False (D @ rev U) (TD @ rev TU) (D @ []) (TD @ [])"
    using assms p by (intro same_lin_append same_lin_refl same_lin_units) (simp_all add: list_all_rev pos_shape_rev)
  then show "same_lin False (rev (U @ rev D)) (rev (TU @ rev TD)) D TD" by simp
qed (rule permutable_rev [OF assms(3)], rule ews_right_none, use assms(5) in simp_all)

lemma view_plain:
  assumes "list_all ((=) 1) U" "length TU = length U" "permutable (U @ rev D) (TU @ rev TD)" "length TD = length D"
    and "length D = 1 \<or> list_all ((=) 1) D \<or> (\<exists>x. D = [x, 1])"
    and "slice_ews (U @ rev D) (TU @ rev TD) e" "length (U @ rev D) \<le> N"
  shows "tensor_view q N D TD (mk_info (U @ rev D) (TU @ rev TD) off e c)"
proof (rule tensor_viewI [OF assms(3)])
  show "ews_right (U @ rev D) (TU @ rev TD) e c"
    using permutable_pos [OF assms(3)] by (intro slice_ews_right [OF assms(6)]) simp
  have p: "pos_shape D" "pos_shape U" using permutable_pos [OF assms(3)] by (simp_all add: pos_shape_rev)
  have "same_lin False (rev D) (rev TD) D TD"
    using assms(5)
  proof (elim disjE exE)
    assume "length D = 1"
    then have "rev D = D" "rev TD = TD" using assms(4) by (auto simp: length_Suc_conv)
    then show ?thesis using assms(4) by (simp add: same_lin_refl)
  next
    assume "list_all ((=) 1) D"
    then have "same_lin False (rev D) (rev TD) [] []" "same_lin False D TD [] []"
      using assms(4) same_lin_units list_all_rev by (metis length_rev)+
    then show ?thesis using same_lin_trans same_lin_sym by blast
  next
    fix x assume D: "D = [x, 1]"
    then obtain a b where T: "TD = [a, b]" using assms(4) list_of_2 [of TD] by auto
    show ?thesis using D T by (auto simp: same_lin_def lin_def coords_def)
  qed
  then have "same_lin False (U @ rev D) (TU @ rev TD) ([] @ D) ([] @ TD)"
    using assms(1,2) p by (intro same_lin_append same_lin_units) (simp_all add: pos_shape_rev)
  then show "same_lin False (U @ rev D) (TU @ rev TD) D TD" by simp
qed (rule assms(7))

lemma is_row_eq:
  assumes "2 \<le> length S"
  shows "is_row k (mk_info S T off ews ord) = Some (k = 1 \<and> length S = 2 \<and> S ! 0 = 1)"
    and "isRowVector (mk_info S T off ews ord) = Some (length S = 2 \<and> S ! 0 = 1)"
proof -
  have "rd (S @ T @ [off, ews, ord]) 0 = Some (S ! 0)" using assms by (cases S) (simp_all add: rd_def)
  then show "is_row k (mk_info S T off ews ord) = Some (k = 1 \<and> length S = 2 \<and> S ! 0 = 1)"
    "isRowVector (mk_info S T off ews ord) = Some (length S = 2 \<and> S ! 0 = 1)"
    using assms by (auto simp: is_row_def isRowVector_def isVector_mk_info info_simps)
qed

lemma finish_slice_ok:
  assumes ok: "permutable (R @ rev D) (TR @ rev TD)" "length TR = length R" "length TD = length D" "D \<noteq> []"
      "2 \<le> length (R @ rev D)" "D \<noteq> [1]"
    and t: "t_dimensionLength t = int (length D)" "t_tadRank t = int (length D)" "t_tadIndex t = 0"
      "shape_prod tshape (int (length D)) = Some (prod_list D)"
    and e: "slice_ews (R @ rev D) (TR @ rev TD) e" and N: "length (R @ rev D) \<le> N"
  shows "\<exists>buf. finish_slice t 0 tshape (mk_info (R @ rev D) (TR @ rev TD) 0 e c) = Some buf \<and> tensor_view q N D TD buf"
proof -
  let ?S = "R @ rev D" and ?T = "TR @ rev TD"
  let ?b = "mk_info ?S ?T 0 e c"
  have p: "pos_shape R" "pos_shape D" "prod_list ?S \<le> 2147483647" "dims_ok ?S ?T" "pos_shape ?S"
    using ok(1) by (simp_all add: permutable_def small_shape_def pos_shape_rev)
  have P: "1 \<le> prod_list D" "0 < prod_list R" using p by (simp_all add: prod_list_ge1 prod_list_pos)
  have len: "shape_length ?b = Some (prod_list ?S)" using p by (intro shape_length_mk_info) auto
  have small: "to_int (prod_list ?S) = prod_list ?S"
    using p prod_list_pos [OF p(5)] by (simp add: to_int_id)
  have units: "list_all ((=) 1) R \<longleftrightarrow> prod_list R = 1"
    using prod_1_units p(1) unit_axes(2) by blast
  have vec: "length ?S = 2 \<and> (?S ! 0 = 1 \<or> ?S ! 1 = 1) \<longrightarrow> list_all ((=) 1) R"
  proof (intro impI)
    assume v: "length ?S = 2 \<and> (?S ! 0 = 1 \<or> ?S ! 1 = 1)"
    show "list_all ((=) 1) R"
    proof (cases R)
      case (Cons r R')
      then obtain x where "D = [x]" "R' = []" using v ok(4) by (cases D) auto
      then show ?thesis using v ok(6) Cons by auto
    qed simp
  qed
  define v :: int where "v = (if length ?S = 1 \<or> length ?S = 2 \<and> (?S ! 0 = 1 \<or> ?S ! 1 = 1) then 1 else 0)"
  have v: "isVector_buf ?b = Some v" unfolding v_def by (rule isVector_mk_info)
  have comp: "(if v \<noteq> 0 then prod_list ?S else prod_list D) = prod_list ?S \<longleftrightarrow> list_all ((=) 1) R"
  proof -
    have "prod_list ?S = prod_list R * prod_list D" by (simp add: prod_list_rev)
    then have "prod_list D = prod_list ?S \<longleftrightarrow> prod_list R = 1" using P by auto
    then show ?thesis using vec units ok(5) by (auto simp: v_def)
  qed
  have start: "finish_slice t 0 tshape ?b = (if list_all ((=) 1) R then do {
         row \<leftarrow> is_row (int (length D)) ?b;
         if row then Some ?b
         else if int (length D) > 1 then do {
           dims \<leftarrow> finalPermuteDims ?b;
           map_option fst (permuteShapeBufferInPlace ?b dims None) }
         else Some ?b }
       else do {
         lps \<leftarrow> TAD_lengthPerSlice ?b;
         if lps < 1 then Some ?b
         else do {
           offset \<leftarrow> div32 0 lps;
           if prod_list D = lps then do {
             ret2 \<leftarrow> sliceOfShapeBuffer offset ?b;
             dims \<leftarrow> finalPermuteDims ret2;
             isRowVector2 \<leftarrow> isRowVector ret2;
             if \<not> isRowVector2 then map_option fst (permuteShapeBufferInPlace ret2 dims None) else Some ret2 }
           else do {
             ret2 \<leftarrow> take_slices (prod_list D) (0, ?b);
             row \<leftarrow> is_row (int (length D)) ret2;
             if row then Some ret2
             else if int (length D) > 1 then do { dims \<leftarrow> finalPermuteDims ret2; permuteShapeBuffer ret2 dims }
             else Some ret2 } } })"
    unfolding finish_slice_def Let_def t v len Option.bind.bind_lunit small comp
    by (simp add: i32_def cong: if_cong)
  have one: "1 < int (length D) \<longleftrightarrow> 1 < length D" by linarith
  show ?thesis
  proof (cases "list_all ((=) 1) R")
    case True
    have "finish_slice t 0 tshape ?b = (if 1 < length D then Some (mk_info (rev ?S) (rev ?T) 0 (- 1) (order_of (rev ?S) (rev ?T))) else Some ?b)"
      using start True is_row_eq(1) [OF ok(5), of "int (length D)" ?T 0 e c] reverse_axes(1) [OF ok(1), of 0 e c]
        finalPermuteDims_eq [OF p(4), of 0 e c]
      by auto
    moreover have "length D = 1" if "\<not> 1 < length D" using that ok(4) by (cases D) auto
    ultimately show ?thesis
      using view_reversed [OF True ok(2,1,3) N] view_plain [OF True ok(2,1,3) _ e N] by auto
  next
    case False
    then obtain r R' t0 TR' where R: "R = r # R'" "TR = t0 # TR'" using ok(2) by (cases R; cases TR) auto
    have q: "1 \<le> prod_list (R' @ rev D)" "prod_list (R' @ rev D) \<le> 2147483647"
      using p prod_drop_le [OF p(5), of 1] prod_list_ge1 [of "R' @ rev D"] by (simp_all add: R)
    have lps: "TAD_lengthPerSlice ?b = Some (prod_list (R' @ rev D))"
      using TAD_lengthPerSlice_eq [OF p(4) _ p(5,3)] by (simp add: R)
    have zero: "div32 0 (prod_list (R' @ rev D)) = Some 0" using q by (simp add: div32_nonneg)
    have eq: "prod_list D = prod_list (R' @ rev D) \<longleftrightarrow> list_all ((=) 1) R'"
    proof -
      have "prod_list (R' @ rev D) = prod_list R' * prod_list D" by (simp add: prod_list_rev)
      then have "prod_list D = prod_list (R' @ rev D) \<longleftrightarrow> prod_list R' = 1" using P by auto
      then show ?thesis using prod_1_units p(1) unit_axes(2) by (auto simp: R)
    qed
    have fin: "finish_slice t 0 tshape ?b =
        (if list_all ((=) 1) R' then do {
           ret2 \<leftarrow> sliceOfShapeBuffer 0 ?b;
           dims \<leftarrow> finalPermuteDims ret2;
           isRowVector2 \<leftarrow> isRowVector ret2;
           if \<not> isRowVector2 then map_option fst (permuteShapeBufferInPlace ret2 dims None) else Some ret2 }
         else do {
           ret2 \<leftarrow> take_slices (prod_list D) (0, ?b);
           row \<leftarrow> is_row (int (length D)) ret2;
           if row then Some ret2
           else if int (length D) > 1 then do { dims \<leftarrow> finalPermuteDims ret2; permuteShapeBuffer ret2 dims }
           else Some ret2 })"
      using start False lps q(1) zero eq by simp
    show ?thesis
    proof (cases "list_all ((=) 1) R'")
      case True
      have "R' \<noteq> [] \<or> 2 \<le> length (rev D) \<or> r \<noteq> 1 \<and> rev D \<noteq> [1]"
        using False True ok(4,6) by (cases D) (auto simp: R Suc_le_eq)
      from first_slice_tensor [OF _ _ _ this, of t0 TR' "rev TD" e 0 c]
      obtain U TU e' c' where sl: "sliceOfShapeBuffer 0 ?b = Some (mk_info (U @ rev D) (TU @ rev TD) 0 e' c')"
        "length TU = length U" "permutable (U @ rev D) (TU @ rev TD)" "2 \<le> length (U @ rev D)"
        "slice_ews (U @ rev D) (TU @ rev TD) e'" "U = R' \<and> TU = TR' \<or> U = [1] \<and> TU = [1] \<and> R' = [] \<and> length (rev D) = 1"
        using ok(1,2,4) e by (auto simp: R)
      have U: "list_all ((=) 1) U" "length (U @ rev D) \<le> N" using sl(6) True N ok(5) by (auto simp: R)
      have "dims_ok (U @ rev D) (TU @ rev TD)" using sl(3) by (simp add: permutable_def)
      then have "finish_slice t 0 tshape ?b = (if length (U @ rev D) = 2 \<and> (U @ rev D) ! 0 = 1
          then Some (mk_info (U @ rev D) (TU @ rev TD) 0 e' c')
          else Some (mk_info (rev (U @ rev D)) (rev (TU @ rev TD)) 0 (- 1)
            (order_of (rev (U @ rev D)) (rev (TU @ rev TD)))))"
        using fin True sl(1) is_row_eq(2) [OF sl(4), of "TU @ rev TD" 0 e' c'] finalPermuteDims_eq
          reverse_axes(1) [OF sl(3), of 0 e' c'] by simp
      moreover have "length D = 1 \<or> list_all ((=) 1) D \<or> (\<exists>x. D = [x, 1])"
        if row: "length (U @ rev D) = 2 \<and> (U @ rev D) ! 0 = 1"
      proof (cases U)
        case Nil
        then obtain a b where "D = [a, b]" using row list_of_2 [of D] by auto
        then show ?thesis using row Nil by auto
      next
        case (Cons u U')
        then show ?thesis using row ok(4) by (cases D) auto
      qed
      ultimately show ?thesis
        using view_reversed [OF U(1) sl(2,3) ok(3) U(2)] view_plain [OF U(1) sl(2,3) ok(3) _ sl(5) U(2)] by auto
    next
      case False
      have "rev D \<noteq> []" "rev D \<noteq> [1]" using ok(4,6) by auto
      from take_slices_tensor [OF ok(1,2,5) this e N, of c]
      obtain buf where buf: "take_slices (prod_list D) (0, ?b) = Some buf" "only_tensor N (rev D) (rev TD) buf"
        by (auto simp: prod_list_rev)
      then obtain U TU e' c' where b: "buf = mk_info (U @ rev D) (TU @ rev TD) 0 e' c'" "list_all ((=) 1) U"
        "length TU = length U" "permutable (U @ rev D) (TU @ rev TD)" "2 \<le> length (U @ rev D)"
        "slice_ews (U @ rev D) (TU @ rev TD) e'" "length (U @ rev D) \<le> N"
        by (auto simp: only_tensor_def)
      let ?U = "U @ rev D" and ?TU = "TU @ rev TD"
      have "dims_ok ?U ?TU" using b(4) by (simp add: permutable_def)
      then have f: "finish_slice t 0 tshape ?b = (if 1 < length D then permuteShapeBuffer buf (reversal (length ?U)) else Some buf)"
        using fin False buf(1) is_row_eq(1) [OF b(5), of "int (length D)" ?TU 0 e' c'] finalPermuteDims_eq [of ?U ?TU 0 e' c']
        by (auto simp: b(1))
      show ?thesis
      proof (cases "1 < length D")
        case True
        show ?thesis
        proof (cases "?U = [1, 1]")
          case U: True
          then have "list_all ((=) 1) D"
          proof -
            have "list_all ((=) 1) (U @ rev D)" unfolding U by simp
            then show ?thesis by (simp add: list_all_rev)
          qed
          then show ?thesis
            using f True reverse_axes(3) [OF b(4) U, of 0 e' c'] view_plain [OF b(2,3,4) ok(3) _ b(6,7)] by (auto simp: b(1))
        next
          case n: False
          moreover have "?U \<noteq> []" "?U \<noteq> [1]" using b(5) by (metis list.size(3,4) One_nat_def not_numeral_le_zero Suc_1 Suc_n_not_le_n add_0)+
          ultimately have "?U \<notin> {[], [1], [1, 1]}" by blast
          then show ?thesis
            using f True reverse_axes(2) [OF b(4), of 0 e' c'] view_reversed [OF b(2,3,4) ok(3) b(7)] by (auto simp: b(1))
        qed
      next
        case n: False
        then have "length D = 1" using ok(4) by (cases D) auto
        then show ?thesis using f n view_plain [OF b(2,3,4) ok(3) _ b(6,7)] by (auto simp: b(1))
      qed
    qed
  qed
qed


section \<open>The axes of a tensor\<close>

text \<open>The axes that are not given, in ascending order.\<close>

definition other_dims :: "int list \<Rightarrow> nat \<Rightarrow> int list" where
  "other_dims dims n = map int (filter (\<lambda>k. int k \<notin> set dims) [0..<n])"

lemma selected_dims:
  assumes "index_set dims n" "sorted dims"
  shows "map int (filter (\<lambda>k. int k \<in> set dims) [0..<n]) = dims"
proof (rule sorted_distinct_set_unique)
  show "sorted (map int (filter (\<lambda>k. int k \<in> set dims) [0..<n]))"
    by (simp add: sorted_map sorted_wrt_filter)
  show "distinct (map int (filter (\<lambda>k. int k \<in> set dims) [0..<n]))"
    by (simp add: distinct_map inj_on_def)
  show "set (map int (filter (\<lambda>k. int k \<in> set dims) [0..<n])) = set dims"
  proof -
    have "x \<in> int ` {k. k < n \<and> int k \<in> set dims}" if "x \<in> set dims" for x
    proof -
      have "0 \<le> x" "x < int n" using that assms(1) by (auto simp: index_set_def)
      then show ?thesis using that by (intro image_eqI [of _ _ "nat x"]) auto
    qed
    then show ?thesis by auto
  qed
qed (use assms in \<open>simp_all add: index_set_def\<close>)

lemma tensor_perm:
  assumes "index_set dims n"
  shows "is_perm (other_dims dims n @ rev dims) n" "length (other_dims dims n) = n - length dims"
    "is_perm (other_dims dims n @ dims) n"
proof -
  show len: "length (other_dims dims n) = n - length dims"
    using card_index_set(2) [OF assms] by (simp add: other_dims_def)
  have "distinct (other_dims dims n)" "set (other_dims dims n) \<subseteq> {0..<int n}" "set (other_dims dims n) \<inter> set dims = {}"
    by (auto simp: other_dims_def distinct_map inj_on_def)
  then show "is_perm (other_dims dims n @ rev dims) n" "is_perm (other_dims dims n @ dims) n"
    using assms card_index_set(3) [OF assms] len by (auto simp: is_perm_def index_set_def)
qed

lemma permute_list_append: "permute_list (p @ q) xs = permute_list p xs @ permute_list q xs"
  by (simp add: permute_list_def)

lemma permute_list_rev: "permute_list (rev p) xs = rev (permute_list p xs)"
  by (simp add: permute_list_def rev_map)

lemma selected_entries:
  assumes "index_set dims (length sh)" "sorted dims"
  shows "map ((!) (sh @ xs)) (filter (\<lambda>k. int k \<in> set dims) [0..<length sh]) = permute_list dims sh"
proof -
  have "permute_list (map int (filter (\<lambda>k. int k \<in> set dims) [0..<length sh])) sh =
      map ((!) (sh @ xs)) (filter (\<lambda>k. int k \<in> set dims) [0..<length sh])"
    by (auto simp: permute_list_def nth_append)
  then show ?thesis by (simp only: selected_dims [OF assms])
qed

lemma tad_prod_permute:
  "index_set dims (length sh) \<Longrightarrow> sorted dims \<Longrightarrow> tad_prod sh dims = prod_list (permute_list dims sh)"
  using selected_entries [of dims sh "[]"] by (simp add: tad_prod_def)

lemma permutable_permute:
  assumes "permutable sh st" "is_perm p (length sh)"
  shows "permutable (permute_list p sh) (permute_list p st)"
  using assms is_perm_length [OF assms(2)]
  by (auto simp: permutable_def dims_ok_def small_shape_def pos_shape_permute_list prod_list_permute_list)

lemma sliceOffsetForTensor_zero:
  assumes "permutable sh st" "index_set dims (length sh)" "sorted dims" "length dims < length sh"
    and "\<not> (length sh = 2 \<and> (sh ! 0 = 1 \<or> sh ! 1 = 1))" "length sh \<noteq> 1"
  shows "sliceOffsetForTensor (int (length sh)) 0 (sh @ xs) (permute_list dims sh) (int (length dims)) dims (int (length dims)) = Some 0"
proof -
  let ?n = "length sh" and ?D = "permute_list dims sh"
  let ?r = "map ((!) (sh @ xs)) (filter (\<lambda>k. int k \<notin> set dims) [0..<?n])"
  have pos: "pos_shape sh" "prod_list sh \<le> 2147483647" "?n \<le> 2147483647"
    using assms(1) by (auto simp: permutable_def dims_ok_def small_shape_def)
  have r: "?r = map ((!) sh) (filter (\<lambda>k. int k \<notin> set dims) [0..<?n])" by (auto simp: nth_append)
  have D: "pos_shape ?D" "prod_list ?D \<le> prod_list sh"
    using tad_prod_le [OF pos(1), of dims] pos_shape_filter [OF pos(1)] tad_prod_permute [OF assms(2,3)]
      selected_entries [OF assms(2,3), of "[]"] by (auto simp: tad_prod_def) (metis pos_shape_filter)
  have PD: "shape_prodLong ?D (int (length dims)) = Some (prod_list ?D)"
    using shape_prodLong_eq [of "length dims" ?D] D pos(2) by simp
  have v: "isVector (sh @ xs) (int ?n) = Some 0"
    using isVector_eq [of ?n sh "sh @ xs"] assms(5,6) by simp
  have d: "i32 (int ?n - int (length dims)) = Some (int (?n - length dims))"
    using pos(3) assms(4) by (simp add: i32_def of_nat_diff)
  have rem: "removeIndex_new (sh @ xs) dims (int ?n) (int (length dims)) = Some ?r"
    using removeIndex_new_eq [OF assms(2), of "sh @ xs"] pos(3) by simp
  have "prod_list ?r \<le> prod_list sh" "pos_shape ?r"
    unfolding r using prod_filter_le [OF pos(1)] pos_shape_filter [OF pos(1)] by blast+
  moreover from this have "0 < prod_list ?r" by (simp add: prod_list_pos)
  ultimately have R: "shape_prod ?r (int (?n - length dims)) = Some (prod_list ?r)" "0 < prod_list ?r" "prod_list ?r \<le> 2147483647"
    using shape_prod_eq [of "?n - length dims" ?r] card_index_set(2) [OF assms(2)] pos(2) by simp_all
  have "lengthPerSlice (int ?n) (sh @ xs) dims (int (length dims)) = Some (prod_list ?r)"
    using v d rem R assms(4) by (simp add: lengthPerSlice_def)
  then show ?thesis
    using PD R by (simp add: sliceOffsetForTensor_def i32_def div32_nonneg)
qed

lemma sliced_tensor_ok:
  assumes sh: "permutable sh st" "index_set dims (length sh)" "sorted dims" "dims \<noteq> []" "length dims < length sh"
    and v: "\<not> (length sh = 2 \<and> (sh ! 0 = 1 \<or> sh ! 1 = 1))" and one: "\<And>d. dims = [d] \<Longrightarrow> sh ! nat d \<noteq> 1"
    and t: "t_shapeInfo t = mk_info sh st off ews ord" "t_dimension t = dims" "t_dimensionLength t = int (length dims)"
      "t_tadShape t = Unset" "t_tadIndex t = 0"
  shows "\<exists>buf. sliced_tensor t = Some (buf, t\<lparr>t_tadShape := Kept (permute_list dims sh), t_tadRank := int (length dims)\<rparr>) \<and>
     tensor_view q (length sh) (permute_list dims sh) (permute_list dims st) buf"
proof -
  let ?n = "length sh" and ?k = "length dims" and ?D = "permute_list dims sh" and ?TD = "permute_list dims st"
  let ?rem = "other_dims dims (length sh)"
  let ?p = "?rem @ rev dims" and ?s = "sh @ st @ [off, ews, ord]"
  have ok: "dims_ok sh st" "pos_shape sh" "prod_list sh \<le> 2147483647" "length st = ?n" "2 * int ?n + 4 \<le> 2147483647"
    using sh(1) by (auto simp: permutable_def dims_ok_def small_shape_def)
  have n: "2 \<le> ?n" using sh(4,5) by (cases dims) auto
  note perm = tensor_perm [OF sh(2)]
  have p: "permute_list ?p sh = permute_list ?rem sh @ rev ?D" "permute_list ?p st = permute_list ?rem st @ rev ?TD"
    by (simp_all add: permute_list_append permute_list_rev)
  have pp: "permutable (permute_list ?rem sh @ rev ?D) (permute_list ?rem st @ rev ?TD)"
    using permutable_permute [OF sh(1) perm(1)] by (simp add: p)
  obtain r0 R where R: "permute_list ?rem sh = r0 # R"
    using perm(2) sh(5) length_permute_list [of ?rem sh] by (cases "permute_list ?rem sh") (auto simp del: length_permute_list)
  obtain t0 TR where TR: "permute_list ?rem st = t0 # TR"
    using perm(2) sh(5) length_permute_list [of ?rem st] by (cases "permute_list ?rem st") (auto simp del: length_permute_list)
  have lR: "length TR = length R" "length R = ?n - ?k - 1"
    using R TR perm(2) by (metis length_Cons length_permute_list nat.inject, metis length_Cons length_permute_list diff_Suc_1)
  have set: "set (r0 # R @ rev ?D) = set sh"
    using set_permute_list [OF perm(1)] p(1) R by simp
  have cond: "R \<noteq> [] \<or> 2 \<le> length (rev ?D) \<or> r0 \<noteq> 1 \<and> rev ?D \<noteq> [1]"
  proof (cases "R = [] \<and> ?k = 1")
    case True
    then have "?n = 2" using lR n by simp
    moreover from this obtain a b where "sh = [a, b]" using list_of_2 by blast
    ultimately have one: "1 \<notin> set sh" using v by auto
    have "r0 \<in> set sh" "set (rev ?D) \<subseteq> set sh" unfolding set [symmetric] by auto
    then have "r0 \<noteq> 1" "rev ?D \<noteq> [1]" using one by (blast, metis insert_subset list.simps(15))
    then show ?thesis by simp
  qed (use sh(4) in \<open>cases dims; auto simp: Suc_le_eq\<close>)
  have a1: "tensorShape t = Some (?D, t\<lparr>t_tadShape := Kept ?D, t_tadRank := int ?k\<rparr>)"
    using keep_eq [OF sh(2), of ?s] ok selected_entries [OF sh(2,3), of "st @ [off, ews, ord]"] t
    by (simp add: tensorShape_def info_simps)
  have a2: "reverseCopy dims (int ?k) = Some (Some (rev dims))"
    using reverseCopy_eq [of ?k dims] sh(4) by simp
  have a3: "shape_range1 0 (int ?n) = Some (map int [0..<?n])"
    using shape_range_up [of 1 0 "int ?n"] n ok(5) by (simp add: shape_range1_def)
  have a4: "removeIndex_new (map int [0..<?n]) dims (int ?n) (int ?k) = Some ?rem"
  proof -
    have "map ((!) (map int [0..<?n])) (filter (\<lambda>k. int k \<notin> set dims) [0..<?n]) = ?rem"
      by (auto simp: other_dims_def)
    then show ?thesis using removeIndex_new_eq [OF sh(2), of "map int [0..<?n]"] ok(5) by simp
  qed
  have a5: "i32 (int ?n - int ?k) = Some (int (?n - ?k))"
    using sh(5) ok(5) by (simp add: i32_def of_nat_diff)
  have a6: "shape_concat ?rem (int (?n - ?k)) (rev dims) (int ?k) = Some ?p"
    using shape_concat_eq [of "?n - ?k" ?rem ?k "rev dims"] perm(2) sh(5) ok(5) by simp
  have a7: "permuteShapeBuffer (mk_info sh st off ews ord) ?p =
      Some (mk_info (r0 # R @ rev ?D) (t0 # TR @ rev ?TD) off (- 1) (order_of (r0 # R @ rev ?D) (t0 # TR @ rev ?TD)))"
  proof -
    have "sh \<noteq> [1, 1]" using v by auto
    then have "sh \<notin> {[], [1], [1, 1]}" using n by auto
    then show ?thesis using permuteShapeBuffer_eq [OF sh(1) perm(1)] p R TR by simp
  qed
  have a8: "length (r0 # R @ rev ?D) = ?n" using lR n sh(5) by simp
  have a9: "sliceOffsetForTensor (int ?n) 0 ?s ?D (int ?k) dims (int ?k) = Some 0"
    using sliceOffsetForTensor_zero [OF sh(1-3,5) v] n by simp
  have "permutable (r0 # R @ rev ?D) (t0 # TR @ rev ?TD)" "rev ?D \<noteq> []" using pp R TR sh(4) by (auto simp: permute_list_def)
  moreover have "slice_ews (r0 # R @ rev ?D) (t0 # TR @ rev ?TD) (- 1)" by (simp add: slice_ews_def)
  ultimately obtain U TU e' c' where sl: "sliceOfShapeBuffer 0 (mk_info (r0 # R @ rev ?D) (t0 # TR @ rev ?TD) off (- 1)
        (order_of (r0 # R @ rev ?D) (t0 # TR @ rev ?TD))) = Some (mk_info (U @ rev ?D) (TU @ rev ?TD) 0 e' c')"
      "U = R \<or> U = [1] \<and> length dims = 1"
      "length TU = length U" "permutable (U @ rev ?D) (TU @ rev ?TD)" "2 \<le> length (U @ rev ?D)"
      "slice_ews (U @ rev ?D) (TU @ rev ?TD) e'"
    using first_slice_tensor [OF _ lR(1) _ cond, of t0 "rev ?TD" "- 1" off "order_of (r0 # R @ rev ?D) (t0 # TR @ rev ?TD)"]
    by (metis length_permute_list length_rev)
  have N: "length (U @ rev ?D) \<le> ?n" using sl(2) lR n sh(5) by auto
  let ?t = "t\<lparr>t_tadShape := Kept ?D, t_tadRank := int ?k\<rparr>"
  have D1: "?D \<noteq> [1]"
  proof
    assume "?D = [1]"
    then obtain d where "dims = [d]" "sh ! nat d = 1" by (auto simp: permute_list_def)
    then show False using one by simp
  qed
  have D2: "shape_prod ?D (int (length ?D)) = Some (prod_list ?D)"
    using shape_prod_eq [of "length ?D" ?D] tad_prod_le [OF ok(2), of dims] ok(3) tad_prod_permute [OF sh(2,3)]
      permutable_pos [OF sl(4)] by (simp add: pos_shape_rev)
  obtain buf where fs: "finish_slice ?t 0 ?D (mk_info (U @ rev ?D) (TU @ rev ?TD) 0 e' c') = Some buf" "tensor_view q ?n ?D ?TD buf"
    using finish_slice_ok [OF sl(4,3), of ?t ?D e' ?n c' q] sl(6) sh(4) t sl(5) D1 D2 N by (auto simp: permute_list_def)
  then show ?thesis
    using a1 a2 a3 a4 a5 a6 a7 a8 a9 sl(1) t unfolding sliced_tensor_def by (simp add: info_simps)
qed


section \<open>Construction\<close>

lemma TAD_tadLength_eq: "TAD_tadLength = tadLength"
  by (intro ext) (simp add: TAD_tadLength_def tadLength_def)

lemma tadLength_any:
  assumes "dims_ok sh st" "small_shape sh" "index_set dims (length sh)"
  shows "tadLength (mk_info sh st off ews ord) dims (int (length dims)) = Some (tad_prod sh dims)"
proof (cases "length dims = 1")
  case True
  then obtain d where "dims = [d]" by (auto simp: length_Suc_conv)
  moreover from this have "0 \<le> d" "d < int (length sh)" using assms(3) by (auto simp: index_set_def)
  ultimately show ?thesis
    using tadLength_one [of "nat d" sh] tad_prod_one [of "nat d" sh] by (simp add: nat_less_iff)
qed (use tadLength_eq [OF assms] in simp)

definition is_vector :: "int list \<Rightarrow> bool" where
  "is_vector sh \<longleftrightarrow> length sh = 1 \<or> length sh = 2 \<and> (sh ! 0 = 1 \<or> sh ! 1 = 1)"

text \<open>The number of tensors, and whether an array is taken as a whole.\<close>

definition tad_count :: "int list \<Rightarrow> int list \<Rightarrow> int" where
  "tad_count sh dims = prod_list sh div tad_prod sh dims"

definition whole_array :: "int list \<Rightarrow> int \<Rightarrow> int list \<Rightarrow> bool" where
  "whole_array sh ews dims \<longleftrightarrow> (if is_vector sh then sh \<in> {[], [1], [1, 1]}
     else tad_count sh dims = 1 \<or> (length dims = length sh \<or> tad_count sh dims = prod_list sh) \<and> ews = 1)"

definition tad_of :: "int list \<Rightarrow> int list \<Rightarrow> int \<Rightarrow> int \<Rightarrow> int \<Rightarrow> int list \<Rightarrow> TAD" where
  "tad_of sh st off ews ord dims = empty_TAD\<lparr>t_shapeInfo := mk_info sh st off ews ord, t_dimension := dims,
     t_dimensionLength := int (length dims), t_rank := int (length sh), t_numTads := tad_count sh dims,
     t_wholeThing := whole_array sh ews dims\<rparr>"

lemma tad_count_props:
  assumes "small_shape sh" "index_set dims (length sh)"
  shows "tad_count sh dims * tad_prod sh dims = prod_list sh" "1 \<le> tad_count sh dims" "tad_count sh dims \<le> 2147483647"
    "0 < tad_prod sh dims" "0 < prod_list sh"
proof -
  have p: "0 < tad_prod sh dims" "0 < prod_list sh" "prod_list sh \<le> 2147483647"
    using assms(1) by (auto simp: small_shape_def tad_prod_pos prod_list_pos)
  show m: "tad_count sh dims * tad_prod sh dims = prod_list sh"
    using tad_prod_dvd by (simp add: tad_count_def)
  show "1 \<le> tad_count sh dims"
    using m p by (metis int_one_le_iff_zero_less mult_less_cancel_right mult_zero_left order_less_imp_le not_less)
  show "tad_count sh dims \<le> 2147483647"
    using div_le_self [of "prod_list sh" "tad_prod sh dims"] p by (simp add: tad_count_def)
  show "0 < tad_prod sh dims" "0 < prod_list sh" by (fact p)+
qed

lemma new_TAD_eq:
  assumes "permutable sh st" "index_set dims (length sh)" "dims \<noteq> []"
  shows "new_TAD (mk_info sh st off ews ord) dims (int (length dims)) = Some (tad_of sh st off ews ord dims)"
proof -
  have ok: "dims_ok sh st" "small_shape sh" "pos_shape sh" "prod_list sh \<le> 2147483647"
    using assms(1) by (auto simp: permutable_def small_shape_def)
  note c = tad_count_props [OF ok(2) assms(2)]
  have len: "shape_length (mk_info sh st off ews ord) = Some (prod_list sh)"
    using ok by (intro shape_length_mk_info) auto
  have "div64 (prod_list sh) (tad_prod sh dims) = Some (tad_count sh dims)"
    using c(4,5) ok(4) by (simp add: tad_count_def div64_nonneg)
  then have n: "TAD_tensorsAlongDimension (mk_info sh st off ews ord) dims (int (length dims)) = Some (tad_count sh dims)"
    using len tadLength_any [OF ok(1,2) assms(2)] c by (simp add: TAD_tensorsAlongDimension_def TAD_tadLength_eq to_int_id)
  show ?thesis
    using n assms(3) ok len
    by (auto simp: new_TAD_def TAD_init_def tad_of_def empty_TAD_def info_simps isVector_mk_info isScalar_mk_info
        is_vector_def whole_array_def)
qed

section \<open>The shape for every choice of dimensions\<close>

lemma copy_info:
  assumes "dims_ok S T"
  shows "copyOf_new (2 * int (length S) + 4) (mk_info S T off ews ord) = Some (mk_info S T off ews ord)"
proof -
  have "length (mk_info S T off ews ord) = nat (2 * int (length S) + 4)"
    using assms by (simp add: length_mk_info dims_ok_def nat_add_distrib nat_mult_distrib)
  then show ?thesis by (simp add: copyOf_new_def copyOf_def memcpy_int_def new_int_def)
qed

lemma isDimPermuted_sorted:
  assumes "sorted dims"
  shows "isDimPermuted dims (int (length dims)) = Some False"
proof -
  have "mret (\<lambda>i s. do {
         a \<leftarrow> rd dims i; b \<leftarrow> rd dims (i + 1);
         Some (if a > b then Inl True else Inr s) }) [0..int (length dims) - 2] () = Some (Inr ())"
  proof (rule mret_all_Inr)
    fix i assume "i \<in> set [0..int (length dims) - 2]"
    then have i: "0 \<le> i" "i + 1 < int (length dims)" by auto
    then have "Suc (nat i) < length dims" by linarith
    then have "dims ! nat i \<le> dims ! Suc (nat i)" using assms by (simp add: sorted_nth_mono)
    then show "do { a \<leftarrow> rd dims i; b \<leftarrow> rd dims (i + 1); Some (if a > b then Inl True else Inr ()) } = Some (Inr ())"
      using i by (simp add: rd_def nat_add_distrib)
  qed
  then show ?thesis by (simp add: isDimPermuted_def)
qed

lemma all_dims:
  assumes "index_set dims n" "sorted dims" "length dims = n" "length xs = n"
  shows "permute_list dims xs = xs"
proof (rule permute_list_id)
  have "is_perm dims n" using assms(1,3) by (simp add: is_perm_def index_set_def)
  then have "filter (\<lambda>k. int k \<in> set dims) [0..<n] = [0..<n]"
    by (auto simp: is_perm_set filter_id_conv)
  then have "dims = map int [0..<n]" using selected_dims [OF assms(1,2)] by simp
  then show "dims ! k = int k" if "k < length xs" for k using that assms(4) by simp
qed (use assms in simp)

lemma view_scalar:
  assumes "list_all ((=) 1) D" "length TD = length D" "1 \<le> N"
  shows "tensor_view q N D TD (mk_info [1] [1] off e c)"
proof (rule tensor_viewI)
  have "same_lin False [1] [1] [] []" "same_lin False D TD [] []"
    using assms by (auto intro: same_lin_units)
  then show "same_lin False [1] [1] D TD" using same_lin_trans same_lin_sym by blast
qed (use assms(3) in \<open>simp_all add: permutable_def dims_ok_def small_shape_def ews_right_def order_coords_def f_coords_def\<close>)

lemma scalar_info: "createScalarShapeInfo_new = Some (mk_info [1] [1] 0 1 99)"
  by code_simp

lemma tad_shape:
  assumes sh: "permutable sh st" "index_set dims (length sh)" "sorted dims" "dims \<noteq> []"
    and t_def: "t = tad_of sh st off ews ord dims"
  shows "\<exists>buf ts rnk. TAD_shapeInfoOnlyShapeAndStride t = Some (buf, t\<lparr>t_tadShape := ts, t_tadRank := rnk\<rparr>) \<and>
     (\<forall>s. ts \<noteq> Inside s) \<and> tensor_view (ews_right sh st ews ord) (length sh) (permute_list dims sh) (permute_list dims st) buf"
proof -
  let ?n = "length sh" and ?k = "length dims" and ?D = "permute_list dims sh" and ?TD = "permute_list dims st"
  let ?q = "ews_right sh st ews ord"
  let ?b = "mk_info sh st off ews ord"
  have ok: "dims_ok sh st" "small_shape sh" "pos_shape sh" "prod_list sh \<le> 2147483647" "length st = ?n" "2 * int ?n + 4 \<le> 2147483647"
    using sh(1) by (auto simp: permutable_def dims_ok_def small_shape_def)
  have t: "t_shapeInfo t = ?b" "t_dimension t = dims" "t_dimensionLength t = int ?k" "t_tadShape t = Unset"
    "t_tadIndex t = 0" "t_tadRank t = 0" "t_numTads t = tad_count sh dims" "t_wholeThing t = whole_array sh ews dims"
    by (simp_all add: t_def tad_of_def empty_TAD_def)
  have le: "?k \<le> ?n" using card_index_set(3) [OF sh(2)] .
  have d: "0 \<le> d \<and> d < int ?n" if "d \<in> set dims" for d using that sh(2) by (auto simp: index_set_def)
  have n: "1 \<le> ?n" using le sh(4) by (cases dims) auto
  have v: "isVector_buf ?b = Some (if is_vector sh then 1 else 0)"
    by (simp add: isVector_mk_info is_vector_def)
  have t_eq: "t\<lparr>t_tadShape := Unset, t_tadRank := 0\<rparr> = t" using t by simp
  have start: "TAD_shapeInfoOnlyShapeAndStride t =
      (if sh \<in> {[], [1], [1, 1]} then Some (mk_info [1] [1] 0 1 99, t)
       else if 1 < ?k \<and> is_vector sh then Some (?b, t)
       else if tad_count sh dims = 1 \<and> ?n = ?k then Some (?b, t)
       else if ?k = 1 then do {
         d \<leftarrow> rd dims 0;
         s1 \<leftarrow> (if d = 0 \<and> is_vector sh then rd (sh @ st @ [off, ews, ord]) 1 else Some 0);
         s0 \<leftarrow> (if d = 1 \<and> is_vector sh then rd (sh @ st @ [off, ews, ord]) 0 else Some 0);
         if d = 0 \<and> is_vector sh \<and> s1 = 1 then do {
           ret \<leftarrow> permuteShapeBuffer ?b [1, 0]; Some (ret, t) }
         else if d = 1 \<and> is_vector sh \<and> s0 = 1 then Some (?b, t)
         else do {
           sd \<leftarrow> rd (sh @ st @ [off, ews, ord]) d;
           if sd = 1 then Some (mk_info [1] [1] 0 1 99, t)
           else sliced_tensor t } }
       else sliced_tensor t)"
  proof -
    obtain d0 where d0: "rd dims 0 = Some d0" "d0 \<noteq> 2147483647"
      using sh(4) d [of "dims ! 0"] ok(6) by (cases dims) (auto simp: rd_def)
    have wh: "(if w \<and> int ?k = 1 then rd dims 0 else Some 0) \<bind> f = f x"
      if "f 0 = f x" "f d0 = f x" for w x and f :: "int \<Rightarrow> (int list \<times> TAD) option"
      using d0 that by simp
    have "shape_rank (mk_info [1] [1] 0 1 99) = Some 1" "shapeInfoLength 1 = Some 6"
      "wr (mk_info [1] [1] 0 1 99) 3 0 = Some (mk_info [1] [1] 0 1 99)"
      by (simp_all add: mk_info_def shape_rank_def rd_def shapeInfoLength_def i32_def wr_def)
    moreover have "copyOf_new 6 ?b = Some ?b" if "length sh = length dims" "Suc 0 = length dims"
      using copy_info [OF ok(1), of off ews ord] that(1) that(2) [symmetric] by simp
    ultimately show ?thesis
      unfolding TAD_shapeInfoOnlyShapeAndStride_def Let_def t v
      using ok sh(4) d0 isDimPermuted_sorted [OF sh(3)] copy_info [OF ok(1)]
      by (auto simp: info_simps isScalar_mk_info scalar_info of_nat_eq_iff cong: if_cong)
  qed
  have finish: "\<exists>buf ts rnk. Some (x, t) = Some (buf, t\<lparr>t_tadShape := ts, t_tadRank := rnk\<rparr>) \<and> (\<forall>s. ts \<noteq> Inside s) \<and>
      tensor_view ?q ?n ?D ?TD buf" if "tensor_view ?q ?n ?D ?TD x" for x
    using that t_eq by (intro exI [of _ x] exI [of _ Unset] exI [of _ 0]) auto
  have D1: "list_all ((=) 1) ?D" if "\<forall>x\<in>set sh. x = 1"
  proof -
    have "x \<in> set sh" if "x \<in> set ?D" for x
      using that d by (auto simp: permute_list_def nat_less_iff)
    then show ?thesis using that by (auto simp: list_all_iff)
  qed
  have whole: "tensor_view ?q ?n ?D ?TD ?b" if "?k = ?n"
    using all_dims [OF sh(2,3) that, of sh] all_dims [OF sh(2,3) that, of st] sh(1) ok(5)
    by (auto intro: tensor_viewI same_lin_refl)
  have one: "tad_count sh dims = 1" if "?k = ?n"
    using all_dims [OF sh(2,3) that, of sh] tad_prod_permute [OF sh(2,3)] prod_list_pos [OF ok(3)]
    by (simp add: tad_count_def)
  have sliced: "\<exists>buf ts rnk. sliced_tensor t = Some (buf, t\<lparr>t_tadShape := ts, t_tadRank := rnk\<rparr>) \<and> (\<forall>s. ts \<noteq> Inside s) \<and>
      tensor_view ?q ?n ?D ?TD buf"
    if "?k \<noteq> ?n" "\<not> (?n = 2 \<and> (sh ! 0 = 1 \<or> sh ! 1 = 1))" "\<And>d. dims = [d] \<Longrightarrow> sh ! nat d \<noteq> 1"
    using sliced_tensor_ok [OF sh, of t off ews ord ?q] that le t
    by (auto intro!: exI [of _ "Kept ?D"] exI [of _ "int ?k"])
  consider "sh \<in> {[], [1], [1, 1]}" | "sh \<notin> {[], [1], [1, 1]}" "?k = ?n"
    | "sh \<notin> {[], [1], [1, 1]}" "?k \<noteq> ?n" "1 < ?k" | "sh \<notin> {[], [1], [1, 1]}" "?k \<noteq> ?n" "?k = 1"
    using sh(4) by (cases dims) fastforce+
  then show ?thesis
  proof cases
    case 1
    then show ?thesis
      using start finish [OF view_scalar [OF D1 _ n]] by auto
  next
    case 2
    then show ?thesis using start finish [OF whole] one by auto
  next
    case 3
    then have "\<not> is_vector sh" using le by (auto simp: is_vector_def)
    then have nv: "\<not> (?n = 2 \<and> (sh ! 0 = 1 \<or> sh ! 1 = 1))" and "TAD_shapeInfoOnlyShapeAndStride t = sliced_tensor t"
      using start 3 by (auto simp: is_vector_def)
    moreover have "sh ! nat d \<noteq> 1" if "dims = [d]" for d using 3(3) that by simp
    ultimately show ?thesis using sliced [OF 3(2) nv] by simp
  next
    case 4
    then obtain a where dims: "dims = [a]" by (auto simp: length_Suc_conv)
    have a: "0 \<le> a" "a < int ?n" "2 \<le> ?n" using d [of a] 4 n by (auto simp: dims)
    have D: "?D = [sh ! nat a]" "?TD = [st ! nat a]" by (simp_all add: dims permute_list_def)
    have rda: "rd (sh @ st @ [off, ews, ord]) a = Some (sh ! nat a)"
      using a by (simp add: rd_def nth_append nat_less_iff)
    show ?thesis
    proof (cases "is_vector sh")
      case False
      then have nv: "\<not> (?n = 2 \<and> (sh ! 0 = 1 \<or> sh ! 1 = 1))"
        and eq: "TAD_shapeInfoOnlyShapeAndStride t =
          (if sh ! nat a = 1 then Some (mk_info [1] [1] 0 1 99, t) else sliced_tensor t)"
        using start 4 rda by (auto simp: dims rd_def is_vector_def)
      show ?thesis
      proof (cases "sh ! nat a = 1")
        case True
        then show ?thesis using eq finish [OF view_scalar [OF _ _ n], of 0 1 99] by (simp add: D)
      next
        case False
        then show ?thesis using eq sliced [OF 4(2) nv] by (simp add: dims)
      qed
    next
      case True
      then obtain x y p q where xy: "sh = [x, y]" "st = [p, q]" "x = 1 \<or> y = 1"
        using a(3) ok(5) list_of_2 [of sh] list_of_2 [of st] by (auto simp: is_vector_def)
      have pq: "permutable [y, x] [q, p]" using permutable_rev [OF sh(1)] xy by simp
      have u: "same_lin False ([1] @ [w]) ([s] @ [z]) ([] @ [w]) ([] @ [z])" if "0 < w" for w s z
        using that by (intro same_lin_append same_lin_units same_lin_refl) auto
      consider "a = 0" | "a = 1" using a xy by force
      then show ?thesis
      proof cases
        case a0: 1
        show ?thesis
        proof (cases "y = 1")
          case True
          have "is_perm [1, 0] (length [x, y])" by (auto simp: is_perm_def)
          then have "permuteShapeBuffer ?b [1, 0] = Some (mk_info [1, x] [q, p] off (- 1) (order_of [1, x] [q, p]))"
            using permuteShapeBuffer_eq [of "[x, y]" "[p, q]" "[1, 0]"] sh(1) 4 True xy
            by (simp add: permute_list_def)
          then have eq: "TAD_shapeInfoOnlyShapeAndStride t = Some (mk_info [1, x] [q, p] off (- 1) (order_of [1, x] [q, p]), t)"
            using start 4 True \<open>is_vector sh\<close> by (simp add: dims a0 rd_def xy)
          have "tensor_view ?q ?n ?D ?TD (mk_info [1, x] [q, p] off (- 1) (order_of [1, x] [q, p]))"
            using pq u [of x q p] ok(3) True xy by (intro tensor_viewI ews_right_none) (auto simp: dims permute_list_def a0)
          from finish [OF this] show ?thesis unfolding eq .
        next
          case False
          then have eq: "TAD_shapeInfoOnlyShapeAndStride t = Some (mk_info [1] [1] 0 1 99, t)"
            using start 4 \<open>is_vector sh\<close> xy(3) by (simp add: dims a0 rd_def xy(1,2))
          have "tensor_view ?q ?n ?D ?TD (mk_info [1] [1] 0 1 99)"
            using False xy by (intro view_scalar) (auto simp: dims permute_list_def a0)
          from finish [OF this] show ?thesis unfolding eq .
        qed
      next
        case a1: 2
        show ?thesis
        proof (cases "x = 1")
          case True
          then have eq: "TAD_shapeInfoOnlyShapeAndStride t = Some (?b, t)"
            using start 4 \<open>is_vector sh\<close> by (simp add: dims a1 rd_def xy(1,2))
          have "tensor_view ?q ?n ?D ?TD ?b"
            using sh(1) u [of y p q] ok(3) True xy by (auto intro!: tensor_viewI simp: dims permute_list_def a1)
          from finish [OF this] show ?thesis unfolding eq .
        next
          case False
          then have eq: "TAD_shapeInfoOnlyShapeAndStride t = Some (mk_info [1] [1] 0 1 99, t)"
            using start 4 \<open>is_vector sh\<close> xy(3) by (simp add: dims a1 rd_def xy(1,2))
          have "tensor_view ?q ?n ?D ?TD (mk_info [1] [1] 0 1 99)"
            using False xy by (intro view_scalar) (auto simp: dims permute_list_def a1)
          from finish [OF this] show ?thesis unfolding eq .
        qed
      qed
    qed
  qed
qed


section \<open>Coordinates\<close>

text \<open>The list of length \<open>n\<close> with the values \<open>vs\<close> at the positions \<open>p\<close> and 0 elsewhere.\<close>

definition scatter :: "nat \<Rightarrow> int list \<Rightarrow> int list \<Rightarrow> int list" where
  "scatter n p vs = map (\<lambda>k. case map_of (zip p vs) (int k) of Some v \<Rightarrow> v | None \<Rightarrow> 0) [0..<n]"

text \<open>The coordinates of element \<open>j\<close> of tensor \<open>i\<close>: those of \<open>i\<close> along the other dimensions and those of \<open>j\<close>
  along the given ones, both in row-major order.\<close>

definition tensor_coords :: "int list \<Rightarrow> int list \<Rightarrow> int \<Rightarrow> int \<Rightarrow> int list" where
  "tensor_coords sh dims i j = scatter (length sh) (other_dims dims (length sh) @ dims)
     (c_coords (permute_list (other_dims dims (length sh)) sh) i @ c_coords (permute_list dims sh) j)"

lemma length_scatter [simp]: "length (scatter n p vs) = n"
  by (simp add: scatter_def)

lemma map_of_zip_at:
  "distinct p \<Longrightarrow> length vs = length p \<Longrightarrow> k < length p \<Longrightarrow> map_of (zip p vs) (p ! k) = Some (vs ! k)"
  by (rule map_of_is_SomeI) (auto simp: set_zip)

lemma permute_scatter:
  assumes "distinct p" "set p \<subseteq> {0..<int n}" "length vs = length p"
  shows "permute_list p (scatter n p vs) = vs"
proof (rule nth_equalityI)
  fix k assume "k < length (permute_list p (scatter n p vs))"
  then have k: "k < length p" by simp
  then have "p ! k \<in> {0..<int n}" using assms(2) nth_mem by blast
  then have "nat (p ! k) < n" "int (nat (p ! k)) = p ! k" by auto
  then show "permute_list p (scatter n p vs) ! k = vs ! k"
    using k map_of_zip_at [OF assms(1,3) k] by (simp add: nth_permute_list scatter_def)
qed (use assms in simp)

lemma scatter_permute:
  assumes "is_perm p n" "length xs = n"
  shows "scatter n p (permute_list p xs) = xs"
proof (rule nth_equalityI)
  fix k assume "k < length (scatter n p (permute_list p xs))"
  then have k: "k < n" by simp
  then have "int k \<in> set p" using is_perm_set [OF assms(1)] by simp
  then obtain m where m: "m < length p" "p ! m = int k" by (auto simp: in_set_conv_nth)
  then have "map_of (zip p (permute_list p xs)) (int k) = Some (xs ! k)"
    using map_of_zip_at [of p "permute_list p xs" m] assms(1) by (simp add: is_perm_def nth_permute_list)
  then show "scatter n p (permute_list p xs) ! k = xs ! k" using k by (simp add: scatter_def)
qed (use assms in simp)

lemma scatter_zeros:
  assumes "length vs = length p"
  shows "scatter n (p @ q) (vs @ replicate (length q) 0) = scatter n p vs"
proof -
  have "(case map_of (zip q (replicate (length q) 0)) k of Some v \<Rightarrow> v | None \<Rightarrow> 0) = (0 :: int)" for k :: int
  proof (cases "map_of (zip q (replicate (length q) (0 :: int))) k")
    case (Some v)
    then have "(k, v) \<in> set (zip q (replicate (length q) 0))" by (rule map_of_SomeD)
    then show ?thesis using Some by (auto simp: set_zip)
  next
    case None
    show ?thesis unfolding None by simp
  qed
  moreover have "(case (f ++ g) k of Some v \<Rightarrow> v | None \<Rightarrow> 0) =
      (case g k of Some v \<Rightarrow> v | None \<Rightarrow> case f k of Some v \<Rightarrow> v | None \<Rightarrow> (0 :: int))" for f g :: "int \<Rightarrow> int option" and k
    by (simp add: map_add_def split: option.split)
  ultimately show ?thesis
    using assms by (simp add: scatter_def cong: option.case_cong)
qed

lemma scatter_step:
  assumes "distinct p" "set p \<subseteq> {0..<int n}" "length vs = length p" "k < length p"
  shows "wr (scatter n (take k p) (take k vs)) (p ! k) (vs ! k) = Some (scatter n (take (Suc k) p) (take (Suc k) vs))"
proof -
  have r: "0 \<le> p ! k" "p ! k < int n" using assms(2,4) nth_mem by fastforce+
  have out: "p ! k \<notin> set (take k p)"
    using assms(1,4) by (auto simp: in_set_conv_nth nth_eq_iff_index_eq)
  have "(scatter n (take k p) (take k vs))[nat (p ! k) := vs ! k] = scatter n (take (Suc k) p) (take (Suc k) vs)"
  proof (rule nth_equalityI)
    fix m assume "m < length ((scatter n (take k p) (take k vs))[nat (p ! k) := vs ! k])"
    then have m: "m < n" by simp
    have z: "zip (take (Suc k) p) (take (Suc k) vs) = zip (take k p) (take k vs) @ [(p ! k, vs ! k)]"
      using assms(3,4) by (simp add: take_Suc_conv_app_nth)
    show "(scatter n (take k p) (take k vs))[nat (p ! k) := vs ! k] ! m = scatter n (take (Suc k) p) (take (Suc k) vs) ! m"
    proof (cases "int m = p ! k")
      case True
      then have "map_of (zip (take k p) (take k vs)) (int m) = None"
        using out assms(3,4) by (simp add: map_of_zip_is_None)
      then show ?thesis using True m r by (auto simp: scatter_def z map_add_def nth_list_update)
    next
      case False
      then have "nat (p ! k) \<noteq> m" using r by auto
      then show ?thesis using False m by (auto simp: scatter_def z map_add_def split: option.splits)
    qed
  qed simp
  then show ?thesis using r by (simp add: wr_def)
qed

text \<open>The coordinates of all elements of all tensors are those of the array.\<close>

lemma tensor_coords_bij:
  assumes pos: "pos_shape sh" and dims: "index_set dims (length sh)"
  shows "bij_betw (\<lambda>(i, j). tensor_coords sh dims i j)
     ({0..<prod_list (permute_list (other_dims dims (length sh)) sh)} \<times> {0..<prod_list (permute_list dims sh)})
     {v. in_box sh v}"
proof -
  let ?rem = "other_dims dims (length sh)" and ?n = "length sh"
  let ?p = "?rem @ dims" and ?R = "permute_list ?rem sh" and ?D = "permute_list dims sh"
  have perm: "is_perm ?p ?n" using tensor_perm(3) [OF dims] .
  have RD: "permute_list ?p sh = ?R @ ?D" by (simp add: permute_list_append)
  have posRD: "pos_shape ?R" "pos_shape ?D"
    using pos_shape_permute_list [OF perm] pos by (simp_all add: RD)
  define inv_coords where "inv_coords v = (dot (take (length ?R) (permute_list ?p v)) (c_strides ?R),
      dot (drop (length ?R) (permute_list ?p v)) (c_strides ?D))" for v
  have forth: "permute_list ?p (tensor_coords sh dims i j) = c_coords ?R i @ c_coords ?D j" for i j
    unfolding tensor_coords_def
    using perm is_perm_length [OF perm] by (intro permute_scatter) (auto simp: is_perm_def)
  have box_perm: "in_box sh v \<longleftrightarrow> in_box (?R @ ?D) (permute_list ?p v)" if "length v = ?n" for v
  proof
    assume "in_box (?R @ ?D) (permute_list ?p v)"
    then have "0 \<le> v ! k \<and> v ! k < sh ! k" if k: "k < ?n" for k
    proof -
      have "int k \<in> set ?p" using is_perm_set [OF perm] k by simp
      then obtain m where m: "m < length ?p" "?p ! m = int k" by (metis in_set_conv_nth)
      have "in_box (permute_list ?p sh) (permute_list ?p v)" using \<open>in_box (?R @ ?D) _\<close> by (simp only: RD)
      from in_box_nth [OF this, of m] show ?thesis
        using m by (simp only: nth_permute_list length_permute_list nat_int)
    qed
    then show "in_box sh v" using that by (simp add: in_box_def list_all2_conv_all_nth)
  qed (use in_box_permute_list [OF perm] RD in simp)
  have inbox: "in_box sh (tensor_coords sh dims i j)"
    if "0 \<le> i" "i < prod_list ?R" "0 \<le> j" "j < prod_list ?D" for i j
  proof -
    have "in_box (?R @ ?D) (c_coords ?R i @ c_coords ?D j)"
      using c_coords_in_box [OF posRD(1) that(1,2)] c_coords_in_box [OF posRD(2) that(3,4)]
      by (simp add: in_box_def list_all2_appendI)
    then show ?thesis using box_perm [of "tensor_coords sh dims i j"] forth by (simp add: tensor_coords_def)
  qed
  have parts: "in_box ?R (take (length ?R) (permute_list ?p v)) \<and> in_box ?D (drop (length ?R) (permute_list ?p v))"
    if "in_box sh v" for v
  proof -
    have "in_box (?R @ ?D) (permute_list ?p v)" using in_box_permute_list [OF perm that] RD by simp
    then have b: "list_all2 (\<lambda>d i. 0 \<le> i \<and> i < d) (?R @ ?D) (permute_list ?p v)" by (simp add: in_box_def)
    show ?thesis
      using list_all2_takeI [OF b, of "length ?R"] list_all2_dropI [OF b, of "length ?R"] by (simp add: in_box_def)
  qed
  show ?thesis
  proof (rule bij_betw_byWitness [where f' = inv_coords])
    show "\<forall>x\<in>{0..<prod_list ?R} \<times> {0..<prod_list ?D}. inv_coords (case x of (i, j) \<Rightarrow> tensor_coords sh dims i j) = x"
      using forth posRD by (auto simp: inv_coords_def c_coords_dot)
    show "\<forall>v\<in>{v. in_box sh v}. (case inv_coords v of (i, j) \<Rightarrow> tensor_coords sh dims i j) = v"
    proof
      fix v assume "v \<in> {v. in_box sh v}"
      then have v: "in_box sh v" "length v = ?n" using in_box_length by auto
      have "c_coords ?R (fst (inv_coords v)) @ c_coords ?D (snd (inv_coords v)) = permute_list ?p v"
        using parts [OF v(1)] by (simp add: inv_coords_def c_coords_of_dot)
      then show "(case inv_coords v of (i, j) \<Rightarrow> tensor_coords sh dims i j) = v"
        using scatter_permute [OF perm v(2)] by (simp add: tensor_coords_def split_beta)
    qed
    show "(\<lambda>(i, j). tensor_coords sh dims i j) ` ({0..<prod_list ?R} \<times> {0..<prod_list ?D}) \<subseteq> {v. in_box sh v}"
      using inbox by auto
    show "inv_coords ` {v. in_box sh v} \<subseteq> {0..<prod_list ?R} \<times> {0..<prod_list ?D}"
      using parts c_linear_range by (fastforce simp: inv_coords_def)
  qed
qed

lemma tensor_coords_dot:
  assumes "index_set dims (length sh)" "length st = length sh"
  shows "dot (tensor_coords sh dims i j) st =
     dot (c_coords (permute_list (other_dims dims (length sh)) sh) i) (permute_list (other_dims dims (length sh)) st) +
     dot (c_coords (permute_list dims sh) j) (permute_list dims st)"
proof -
  let ?rem = "other_dims dims (length sh)"
  let ?p = "?rem @ dims"
  have perm: "is_perm ?p (length sh)" using tensor_perm(3) [OF assms(1)] .
  have "permute_list ?p (tensor_coords sh dims i j) =
      c_coords (permute_list ?rem sh) i @ c_coords (permute_list dims sh) j"
    unfolding tensor_coords_def
    using perm is_perm_length [OF perm] by (intro permute_scatter) (auto simp: is_perm_def)
  moreover have "length (tensor_coords sh dims i j) = length sh" by (simp add: tensor_coords_def)
  ultimately show ?thesis
    using dot_permute_list [OF perm, of "tensor_coords sh dims i j" st] assms(2)
    by (simp add: permute_list_append dot_append)
qed

end
