(* ===== verification/TadOffsets.thy ===== *)
theory TadOffsets
  imports TadShapes
begin

text \<open>
  The offsets of the tensors along given dimensions (\<open>TAD::createOffsets\<close>), and how they divide an array.
\<close>

section \<open>The start of a tensor\<close>

lemma tad2Sub_loop:
  assumes sh: "pos_shape sh" "prod_list sh \<le> 2147483647" "index_set dims (length sh)"
    and shp: "length sh \<le> length shp" "take (length sh) shp = sh"
  defines "m \<equiv> length sh - length dims"
  shows "mfor (\<lambda>i (leftOverIndexes, tadShape, len, leftOverIndex). do {
         found \<leftarrow> contains_index dims (int (length dims)) i;
         if \<not> found then do {
           leftOverIndexes \<leftarrow> wr leftOverIndexes leftOverIndex i;
           v \<leftarrow> rd shp i;
           tadShape \<leftarrow> wr tadShape leftOverIndex v;
           len \<leftarrow> i32 (len * v);
           Some (leftOverIndexes, tadShape, len, leftOverIndex + 1) }
         else Some (leftOverIndexes, tadShape, len, leftOverIndex) })
       [0..int (length sh) - 1] (replicate m undefined, replicate m undefined, 1, 0) =
    Some (other_dims dims (length sh), permute_list (other_dims dims (length sh)) sh,
      prod_list (permute_list (other_dims dims (length sh)) sh), int m)"
proof -
  let ?n = "length sh"
  define u :: int where "u = undefined"
  define F where "F k = filter (\<lambda>k. int k \<notin> set dims) [0..<k]" for k
  define g where "g k = (map int (F k) @ replicate (m - length (F k)) u, map ((!) sh) (F k) @ replicate (m - length (F k)) u,
      prod_list (map ((!) sh) (F k)), int (length (F k)))" for k
  have FS: "F (Suc k) = F k @ (if int k \<notin> set dims then [k] else [])" for k by (simp add: F_def)
  have Fn: "length (F ?n) = m" using card_index_set(2) [OF sh(3)] by (simp add: F_def m_def)
  have Fle: "length (F k) \<le> length (F l)" if "k \<le> l" for k l
    using upt_add_eq_append [of 0 k "l - k"] that by (simp add: F_def)
  have Fb: "prod_list (map ((!) sh) (F k)) \<le> 2147483647 \<and> 0 < prod_list (map ((!) sh) (F k))" if "k \<le> ?n" for k
  proof -
    have "map ((!) sh) (F k) = map ((!) (take k sh)) (filter (\<lambda>k. int k \<notin> set dims) [0..<length (take k sh)])"
      using that by (auto simp: F_def min_absorb1)
    then have "prod_list (map ((!) sh) (F k)) \<le> prod_list (take k sh)" "0 < prod_list (map ((!) sh) (F k))"
      using prod_filter_le [OF pos_shape_take [OF sh(1)]] prod_list_pos [OF pos_shape_filter [OF pos_shape_take [OF sh(1)]]]
      by metis+
    then show ?thesis using prod_take_le [OF sh(1), of k] sh(2) by linarith
  qed
  have "mfor (\<lambda>i (leftOverIndexes, tadShape, len, leftOverIndex). do {
         found \<leftarrow> contains_index dims (int (length dims)) i;
         if \<not> found then do {
           leftOverIndexes \<leftarrow> wr leftOverIndexes leftOverIndex i;
           v \<leftarrow> rd shp i;
           tadShape \<leftarrow> wr tadShape leftOverIndex v;
           len \<leftarrow> i32 (len * v);
           Some (leftOverIndexes, tadShape, len, leftOverIndex + 1) }
         else Some (leftOverIndexes, tadShape, len, leftOverIndex) })
       [0..int ?n - 1] (g 0) = Some (g ?n)"
  proof (rule mfor_trace)
    fix k assume k: "k < ?n"
    have v: "rd shp (int k) = Some (sh ! k)" using k shp by (metis less_le_trans nth_take rd_nat)
    show "(\<lambda>(leftOverIndexes, tadShape, len, leftOverIndex). do {
         found \<leftarrow> contains_index dims (int (length dims)) (int k);
         if \<not> found then do {
           leftOverIndexes \<leftarrow> wr leftOverIndexes leftOverIndex (int k);
           v \<leftarrow> rd shp (int k);
           tadShape \<leftarrow> wr tadShape leftOverIndex v;
           len \<leftarrow> i32 (len * v);
           Some (leftOverIndexes, tadShape, len, leftOverIndex + 1) }
         else Some (leftOverIndexes, tadShape, len, leftOverIndex) }) (g k) = Some (g (Suc k))"
    proof (cases "int k \<in> set dims")
      case True
      then show ?thesis by (simp add: g_def FS contains_index_eq)
    next
      case False
      let ?c = "length (F k)"
      have c: "?c < m" using Fle [of "Suc k" ?n] k False Fn by (simp add: FS)
      then have r: "replicate (m - ?c) u = u # replicate (m - Suc ?c) u" by (simp add: Suc_diff_Suc flip: replicate_Suc)
      have "i32 (prod_list (map ((!) sh) (F k)) * sh ! k) = Some (prod_list (map ((!) sh) (F k)) * sh ! k)"
        using Fb [of "Suc k"] k False by (simp add: FS i32_def)
      then show ?thesis
        using False c v by (simp add: g_def FS contains_index_eq wr_nat r list_update_append)
    qed
  qed
  moreover have "g 0 = (replicate m undefined, replicate m undefined, 1, 0)" by (simp add: g_def F_def u_def)
  moreover have "g ?n = (other_dims dims ?n, permute_list (other_dims dims ?n) sh, prod_list (permute_list (other_dims dims ?n) sh), int m)"
    using Fn by (simp add: g_def F_def other_dims_def permute_list_def comp_def)
  ultimately show ?thesis by simp
qed

lemma tad2Sub_eq:
  assumes sh: "permutable sh st" "index_set dims (length sh)"
    and t: "t_shapeInfo t = mk_info sh st off ews ord" "t_dimension t = dims" "t_dimensionLength t = int (length dims)"
    and i: "0 \<le> i" "i < prod_list (permute_list (other_dims dims (length sh)) sh)"
  shows "tad2Sub t i = Some (tensor_coords sh dims i 0)"
proof -
  let ?n = "length sh" and ?m = "length sh - length dims" and ?rem = "other_dims dims (length sh)"
  let ?R = "permute_list ?rem sh" and ?s = "sh @ st @ [off, ews, ord]"
  have ok: "pos_shape sh" "prod_list sh \<le> 2147483647" "2 * int ?n + 4 \<le> 2147483647"
    using sh(1) by (auto simp: permutable_def dims_ok_def small_shape_def)
  note perm = tensor_perm [OF sh(2)]
  have le: "length dims \<le> ?n" using card_index_set(3) [OF sh(2)] .
  have posRD: "pos_shape (?R @ permute_list dims sh)"
    using pos_shape_permute_list [OF perm(3)] ok(1) by (simp add: permute_list_append)
  have pR: "prod_list ?R \<le> 2147483647"
  proof -
    have "prod_list ?R * prod_list (permute_list dims sh) = prod_list sh"
      using prod_list_permute_list [OF perm(3)] by (simp add: permute_list_append)
    moreover have "1 \<le> prod_list (permute_list dims sh)" "0 < prod_list ?R"
      using posRD by (simp_all add: prod_list_ge1 prod_list_pos)
    ultimately show ?thesis using ok(2) by (metis mult_le_cancel_left1 not_less order_trans less_imp_le)
  qed
  have lm: "i32 (int ?n - int (length dims)) = Some (int ?m)"
    using le ok(3) by (simp add: i32_def of_nat_diff)
  have rd1: "distinct ?rem" "set ?rem \<subseteq> {0..<int ?n}" "length ?rem = ?m"
    using perm(2) by (auto simp: other_dims_def distinct_map inj_on_def)
  have sub: "ind2subC (int ?m) ?R i (prod_list ?R) (replicate ?n undefined) =
      Some (c_coords ?R i @ drop ?m (replicate ?n undefined))"
    using ind2subC_eq [of ?m ?R ?R "replicate ?n undefined" i] posRD pR i rd1(3) by simp
  define g where "g k = scatter ?n (take k ?rem) (take k (c_coords ?R i))" for k
  have "mfor (\<lambda>i' ret. do { j \<leftarrow> rd ?rem i'; v \<leftarrow> rd (c_coords ?R i @ drop ?m (replicate ?n undefined)) i'; wr ret j v })
      [0..int ?m - 1] (g 0) = Some (g ?m)"
  proof (rule mfor_trace)
    fix k assume k: "k < ?m"
    then show "do { j \<leftarrow> rd ?rem (int k); v \<leftarrow> rd (c_coords ?R i @ drop ?m (replicate ?n undefined)) (int k); wr (g k) j v } = Some (g (Suc k))"
      using scatter_step [OF rd1(1,2), of "c_coords ?R i" k] rd1(3) by (simp add: g_def nth_append)
  qed
  moreover have "g 0 = replicate ?n 0" by (simp add: g_def scatter_def map_replicate_const)
  moreover have "g ?m = tensor_coords sh dims i 0"
  proof -
    have "c_coords (permute_list dims sh) 0 = replicate (length dims) 0"
      using c_coords_0 [of "permute_list dims sh"] posRD by simp
    then show ?thesis
      using scatter_zeros [of "c_coords ?R i" ?rem ?n dims] rd1(3) by (simp add: g_def tensor_coords_def)
  qed
  ultimately show ?thesis
    using tad2Sub_loop [OF ok(1,2) sh(2), of ?s] lm sub t
    by (simp add: tad2Sub_def info_simps)
qed


section \<open>Offsets\<close>

text \<open>Where the tensors have one element, tensor \<open>i\<close> is element \<open>i\<close> of the array in row-major order.\<close>

lemma c_coords_nths:
  "pos_shape sh \<Longrightarrow> 0 \<le> x \<Longrightarrow> x < prod_list sh \<Longrightarrow> \<forall>k<length sh. k \<notin> A \<longrightarrow> sh ! k = 1 \<Longrightarrow>
   prod_list (nths sh A) = prod_list sh \<and> c_coords (nths sh A) x = nths (c_coords sh x) A"
proof (induction sh arbitrary: x A)
  case (Cons d ds)
  let ?A = "{j. Suc j \<in> A}" and ?P = "prod_list ds"
  have P: "0 < ?P" "pos_shape ds" using Cons.prems by (simp_all add: prod_list_pos)
  have "ds ! k = 1" if "k < length ds" "k \<notin> ?A" for k
    using Cons.prems(4) [rule_format, of "Suc k"] that by simp
  then have "\<forall>k<length ds. k \<notin> ?A \<longrightarrow> ds ! k = 1" by blast
  then have IH: "prod_list (nths ds ?A) = ?P" "\<And>y. 0 \<le> y \<Longrightarrow> y < ?P \<Longrightarrow> c_coords (nths ds ?A) y = nths (c_coords ds y) ?A"
    using Cons.IH [OF P(2), of 0 ?A] Cons.IH [OF P(2), of _ ?A] P by auto
  show ?case
  proof (cases "0 \<in> A")
    case True
    then show ?thesis using IH P by (simp add: nths_Cons)
  next
    case False
    then have "d = 1" using Cons.prems(4) by auto
    then have "x < ?P" using Cons.prems(3) by simp
    then show ?thesis using IH P False \<open>d = 1\<close> Cons.prems(2) by (simp add: nths_Cons)
  qed
qed simp

lemma nths_filter: "nths xs {k. P k} = map ((!) xs) (filter P [0..<length xs])"
proof (induction xs rule: rev_induct)
  case (snoc x xs)
  have "map ((!) (xs @ [x])) (filter P [0..<length xs]) = map ((!) xs) (filter P [0..<length xs])"
    by (auto simp: nth_append)
  then show ?case using snoc by (simp add: nths_append nths_singleton)
qed simp

lemma permute_others: "length xs = n \<Longrightarrow> permute_list (other_dims dims n) xs = nths xs {k. int k \<notin> set dims}"
  by (simp add: nths_filter other_dims_def permute_list_def comp_def)

lemma tensor_coords_single:
  assumes "pos_shape sh" "index_set dims (length sh)" "tad_prod sh dims = 1" "sorted dims" "0 \<le> x" "x < prod_list sh"
  shows "tensor_coords sh dims x 0 = c_coords sh x"
proof -
  let ?n = "length sh" and ?rem = "other_dims dims (length sh)"
  let ?p = "?rem @ dims" and ?v = "c_coords sh x"
  have perm: "is_perm ?p ?n" using tensor_perm(3) [OF assms(2)] .
  have D: "pos_shape (permute_list dims sh)"
    using pos_shape_permute_list [OF perm] assms(1) by (simp add: permute_list_append)
  have "prod_list (permute_list dims sh) = 1" using assms(3) tad_prod_permute [OF assms(2,4)] by simp
  from prod_1_units [OF D this] have units: "sh ! nat d = 1" if "d \<in> set dims" for d
    using that by (auto simp: permute_list_def list_all_iff)
  have u: "sh ! k = 1" if "int k \<in> set dims" for k using units [OF that] by simp
  have "c_coords (permute_list ?rem sh) x = permute_list ?rem ?v"
    using c_coords_nths [OF assms(1,5,6), of "{k. int k \<notin> set dims}"] u by (simp add: permute_others)
  moreover have "c_coords (permute_list dims sh) 0 = permute_list dims ?v"
  proof (rule nth_equalityI)
    fix k assume "k < length (c_coords (permute_list dims sh) 0)"
    then have k: "k < length dims" by simp
    have "dims ! k \<in> {0..<int ?n}" using k assms(2) nth_mem by (fastforce simp: index_set_def)
    then have "nat (dims ! k) < ?n" by auto
    moreover have "sh ! nat (dims ! k) = 1" using units k by simp
    ultimately have "?v ! nat (dims ! k) = 0"
      using in_box_nth [OF c_coords_in_box [OF assms(1,5,6)], of "nat (dims ! k)"] by simp
    then show "c_coords (permute_list dims sh) 0 ! k = permute_list dims ?v ! k"
      using k c_coords_0 [OF D] by (simp add: nth_permute_list)
  qed simp
  ultimately have "tensor_coords sh dims x 0 = scatter ?n ?p (permute_list ?p ?v)"
    by (simp add: tensor_coords_def permute_list_append)
  then show ?thesis using scatter_permute [OF perm, of ?v] by simp
qed

lemma tad_count_permute:
  assumes "pos_shape sh" "index_set dims (length sh)" "sorted dims"
  shows "tad_count sh dims = prod_list (permute_list (other_dims dims (length sh)) sh)"
proof -
  have "prod_list (permute_list (other_dims dims (length sh)) sh) * tad_prod sh dims = prod_list sh"
    using prod_list_permute_list [OF tensor_perm(3) [OF assms(2)]] tad_prod_permute [OF assms(2,3)]
    by (simp add: permute_list_append)
  then show ?thesis
    using tad_prod_pos [OF assms(1), of dims] by (metis nonzero_mult_div_cancel_right less_irrefl tad_count_def)
qed

text \<open>The arrays for which the shortcut of \<open>tadOffset\<close> is right: element \<open>x\<close> in row-major order is at offset \<open>x\<close>.\<close>

definition row_major :: "int list \<Rightarrow> int list \<Rightarrow> bool" where
  "row_major sh st \<longleftrightarrow> (\<forall>x. 0 \<le> x \<and> x < prod_list sh \<longrightarrow> dot (c_coords sh x) st = x)"

lemma whole_offset:
  assumes sh: "permutable sh st" "index_set dims (length sh)" "sorted dims" "dims \<noteq> []"
    and whole: "whole_array sh ews dims" "ews = 1 \<and> tad_prod sh dims = 1 \<longrightarrow> row_major sh st" and i: "0 \<le> i" "i < tad_count sh dims"
  shows "dot (tensor_coords sh dims i 0) st = i"
proof -
  have ok: "pos_shape sh" "small_shape sh" "length st = length sh"
    using sh(1) by (auto simp: permutable_def dims_ok_def small_shape_def)
  note c = tad_count_props [OF ok(2) sh(2)]
  have D: "pos_shape (permute_list dims sh)"
    using pos_shape_permute_list [OF tensor_perm(3) [OF sh(2)]] ok(1) by (simp add: permute_list_append)
  have R: "pos_shape (permute_list (other_dims dims (length sh)) sh)"
    using pos_shape_permute_list [OF tensor_perm(3) [OF sh(2)]] ok(1) by (simp add: permute_list_append)
  show ?thesis
  proof (cases "tad_count sh dims = 1")
    case True
    then have "i = 0" using i by simp
    then show ?thesis
      using tensor_coords_dot [OF sh(2) ok(3), of i 0] c_coords_0 [OF D] c_coords_0 [OF R] dot_zeros by simp
  next
    case False
    have "length dims \<noteq> length sh"
      using False all_dims [OF sh(2,3), of sh] tad_prod_permute [OF sh(2,3)] c(5) by (auto simp: tad_count_def)
    moreover have "sh \<notin> {[1], [1, 1]}"
    proof
      assume "sh \<in> {[1], [1, 1]}"
      then have "prod_list sh = 1" by auto
      then show False using c False by (metis dual_order.antisym dvd_triv_left zdvd_imp_le zero_less_one)
    qed
    moreover have "sh \<noteq> []" using sh(2,4) by (auto simp: index_set_def)
    ultimately have w: "tad_count sh dims = prod_list sh" "ews = 1"
      using whole(1) False by (auto simp: whole_array_def split: if_splits)
    then have "tad_prod sh dims = 1" using c(1,5) by simp
    then show ?thesis
      using tensor_coords_single [OF ok(1) sh(2) _ sh(3) i(1)] whole(2) w i by (simp add: row_major_def)
  qed
qed

lemma tadOffset_eq:
  assumes sh: "permutable sh st" "index_set dims (length sh)" "sorted dims" "dims \<noteq> []"
    and ext: "extent sh st \<le> 9223372036854775807" "ews = 1 \<and> tad_prod sh dims = 1 \<longrightarrow> row_major sh st"
    and t: "t_shapeInfo t = mk_info sh st off ews ord" "t_dimension t = dims" "t_dimensionLength t = int (length dims)"
      "t_wholeThing t = whole_array sh ews dims" "t_tadOnlyShapeInfo t = Some info"
    and i: "0 \<le> i" "i < tad_count sh dims"
  shows "tadOffset t i = Some (dot (tensor_coords sh dims i 0) st, t)"
proof (cases "whole_array sh ews dims")
  case True
  then show ?thesis using whole_offset [OF sh True ext(2) i] t by (simp add: tadOffset_def)
next
  case False
  let ?s = "sh @ st @ [off, ews, ord]" and ?v = "tensor_coords sh dims i 0"
  have ok: "pos_shape sh" "dims_ok sh st" "length st = length sh" "nonneg st"
    using sh(1) by (auto simp: permutable_def dims_ok_def small_shape_def pos_shape_def nonneg_def list_all_iff)
  have iR: "i < prod_list (permute_list (other_dims dims (length sh)) sh)"
    using i(2) tad_count_permute [OF ok(1) sh(2,3)] by simp
  have "pos_shape (permute_list dims sh)"
    using pos_shape_permute_list [OF tensor_perm(3) [OF sh(2)]] ok(1) by (simp add: permute_list_append)
  then have "0 < prod_list (permute_list dims sh)" by (simp add: prod_list_pos)
  then have box: "in_box sh ?v"
    using tensor_coords_bij [OF ok(1) sh(2)] iR i(1) by (fastforce simp: bij_betw_def)
  have "dot ?v st \<le> 9223372036854775807" using dot_le_extent [OF box ok(4)] ext(1) by linarith
  then have off: "getOffset 0 ?s (st @ [off, ews, ord]) ?v (int (length sh)) = Some (dot ?v st)"
    using getOffset_eq [of "length sh" sh ?s "st @ [off, ews, ord]" st ?v ?v 0] box ok(3,4) in_box_length [OF box] by simp
  have "0 \<le> dot ?v st" using dot_nonneg [OF in_box_nonneg [OF box] ok(4)] .
  then show ?thesis
    using False off tad2Sub_eq [OF sh(1,2) t(1-3) i(1) iR] t ok(2) by (simp add: tadOffset_def info_simps)
qed

lemma createOffsets_eq:
  assumes sh: "permutable sh st" "index_set dims (length sh)" "sorted dims" "dims \<noteq> []"
    and ext: "extent sh st \<le> 9223372036854775807" "ews = 1 \<and> tad_prod sh dims = 1 \<longrightarrow> row_major sh st"
    and t: "t_shapeInfo t = mk_info sh st off ews ord" "t_dimension t = dims" "t_dimensionLength t = int (length dims)"
      "t_wholeThing t = whole_array sh ews dims" "t_tadOnlyShapeInfo t = Some info" "t_numTads t = tad_count sh dims"
  shows "createOffsets t = Some (t\<lparr>t_tadOffsets :=
    Some (map (\<lambda>i. dot (tensor_coords sh dims (int i) 0) st) [0..<nat (tad_count sh dims)])\<rparr>)"
proof -
  define n where "n = nat (tad_count sh dims)"
  have ok: "small_shape sh" using sh(1) by (simp add: permutable_def)
  have n: "tad_count sh dims = int n" using tad_count_props(2) [OF ok sh(2)] by (simp add: n_def)
  define h where "h i = dot (tensor_coords sh dims (int i) 0) st" for i
  define g where "g k = (map h [0..<k] @ replicate (n - k) (undefined :: int), t)" for k
  have "mfor (\<lambda>i (offsets, t). do {
         (v, t) \<leftarrow> tadOffset t i;
         offsets \<leftarrow> wr offsets i v;
         Some (offsets, t) }) [0..int n - 1] (g 0) = Some (g n)"
  proof (rule mfor_trace)
    fix k assume k: "k < n"
    have "tadOffset t (int k) = Some (h k, t)"
      using tadOffset_eq [OF sh ext t(1-5), of "int k"] k n by (simp add: h_def)
    moreover have "replicate (n - k) (undefined :: int) = undefined # replicate (n - Suc k) undefined"
      using k by (simp add: Suc_diff_Suc flip: replicate_Suc)
    ultimately show "(\<lambda>(offsets, t). do {
         (v, t) \<leftarrow> tadOffset t (int k);
         offsets \<leftarrow> wr offsets (int k) v;
         Some (offsets, t) }) (g k) = Some (g (Suc k))"
      using k by (simp add: g_def wr_nat list_update_append)
  qed
  moreover have "g 0 = (replicate n undefined, t)" "g n = (map h [0..<n], t)" by (simp_all add: g_def)
  moreover have "nat (tad_count sh dims) = n" by (simp add: n_def)
  ultimately show ?thesis by (simp add: createOffsets_def t(6) n h_def)
qed

section \<open>Edge cases\<close>

text \<open>When tensors have one element and the array is contiguous, the offset of tensor \<open>i\<close> is taken to be \<open>i\<close>. In a
  column-major array that is another element than the one \<open>tad2Sub\<close> computes.\<close>

lemma column_major_single_elements:
  "do { t \<leftarrow> new_TAD (mk_info [3, 4, 1] [1, 3, 12] 0 1 102) [2] 1;
        t \<leftarrow> createTadOnlyShapeInfo t;
        map_option fst (tadOffset t 1) } = Some 1"
  "tad2Sub (tad_of [3, 4, 1] [1, 3, 12] 0 1 102 [2]) 1 = Some [0, 1, 0]"
  by code_simp+

text \<open>Computing the shape information a second time deletes a pointer into the middle of a buffer.\<close>

lemma second_shape_undefined:
  "do { t \<leftarrow> new_TAD (mk_info [2, 3] [3, 1] 0 1 99) [1] 1;
        t \<leftarrow> createTadOnlyShapeInfo t;
        createTadOnlyShapeInfo t } = None"
  by code_simp

section \<open>The tensors of an array\<close>

lemma tensors_bij:
  assumes "pos_shape sh" "index_set dims (length sh)" "sorted dims"
  shows "bij_betw (\<lambda>(i, j). tensor_coords sh dims i j) ({0..<tad_count sh dims} \<times> {0..<tad_prod sh dims}) {v. in_box sh v}"
  using tensor_coords_bij [OF assms(1,2)] tad_count_permute [OF assms] tad_prod_permute [OF assms(2,3)] by simp

text \<open>
  Shape information and offsets of the tensors along \<open>dims\<close>: element \<open>j\<close> of tensor \<open>i\<close>, in row-major order, is the
  element of the array with the coordinates of \<open>i\<close> along the other dimensions and those of \<open>j\<close> along the given ones.
\<close>

definition tensors_at :: "int list \<Rightarrow> int list \<Rightarrow> int list \<Rightarrow> int list \<Rightarrow> int list \<Rightarrow> int list \<Rightarrow> bool" where
  "tensors_at sh st dims S T offs \<longleftrightarrow> permutable S T \<and> length S \<le> length sh \<and> prod_list S = tad_prod sh dims \<and> int (length offs) = tad_count sh dims \<and>
     (\<forall>i j. 0 \<le> i \<and> i < tad_count sh dims \<and> 0 \<le> j \<and> j < tad_prod sh dims \<longrightarrow>
        offs ! nat i + dot (c_coords S j) T = dot (tensor_coords sh dims i j) st)"

lemma tensors_of_array:
  assumes "permutable sh st" "index_set dims (length sh)" "sorted dims" "dims \<noteq> []"
    and "extent sh st \<le> 9223372036854775807" "ews = 1 \<and> tad_prod sh dims = 1 \<longrightarrow> row_major sh st"
  shows "\<exists>t S T o' e c offs.
     do { t \<leftarrow> new_TAD (mk_info sh st off ews ord) dims (int (length dims));
          t \<leftarrow> createTadOnlyShapeInfo t;
          createOffsets t } = Some t \<and>
     t_tadOnlyShapeInfo t = Some (mk_info S T o' e c) \<and> t_tadOffsets t = Some offs \<and> t_dimensionLength t = int (length dims) \<and>
     tensors_at sh st dims S T offs \<and> (ews_right sh st ews ord \<longrightarrow> ews_right S T e c)"
proof -
  define t0 where "t0 = tad_of sh st off ews ord dims"
  have ok: "pos_shape sh" "length st = length sh" "small_shape sh"
    using assms(1) by (auto simp: permutable_def dims_ok_def small_shape_def)
  obtain buf ts rnk where shape: "TAD_shapeInfoOnlyShapeAndStride t0 = Some (buf, t0\<lparr>t_tadShape := ts, t_tadRank := rnk\<rparr>)"
    "\<forall>s. ts \<noteq> Inside s" "tensor_view (ews_right sh st ews ord) (length sh) (permute_list dims sh) (permute_list dims st) buf"
    using tad_shape [OF assms(1-4) t0_def] by blast
  obtain S T o' e c where buf: "buf = mk_info S T o' e c" "permutable S T"
      "same_lin False S T (permute_list dims sh) (permute_list dims st)"
      "ews_right sh st ews ord \<longrightarrow> ews_right S T e c" "length S \<le> length sh"
    using shape(3) by (auto simp: tensor_view_def)
  have "dims_ok S T" using buf(2) by (simp add: permutable_def)
  define t1 where "t1 = t0\<lparr>t_tadShape := Inside (S @ T @ [o', e, c]), t_tadRank := rnk, t_tadOnlyShapeInfo := Some buf,
      t_tadStride := Some (T @ [o', e, c])\<rparr>"
  have t1: "createTadOnlyShapeInfo t0 = Some t1"
    using shape(1,2) \<open>dims_ok S T\<close> by (cases ts) (auto simp: createTadOnlyShapeInfo_def buf(1) info_simps t1_def)
  have f1: "t_shapeInfo t1 = mk_info sh st off ews ord" "t_dimension t1 = dims" "t_dimensionLength t1 = int (length dims)"
    "t_wholeThing t1 = whole_array sh ews dims" "t_tadOnlyShapeInfo t1 = Some buf" "t_numTads t1 = tad_count sh dims"
    by (simp_all add: t1_def t0_def tad_of_def)
  let ?offs = "map (\<lambda>i. dot (tensor_coords sh dims (int i) 0) st) [0..<nat (tad_count sh dims)]"
  have n: "int (length ?offs) = prod_list (permute_list (other_dims dims (length sh)) sh)"
    using tad_count_props(2) [OF ok(3) assms(2)] tad_count_permute [OF ok(1) assms(2,3)] by simp
  have pS: "prod_list S = prod_list (permute_list dims sh)" using buf(3) by (simp add: same_lin_def)
  have D: "pos_shape (permute_list dims sh)"
    using pos_shape_permute_list [OF tensor_perm(3) [OF assms(2)]] ok(1) by (simp add: permute_list_append)
  have elem: "?offs ! nat i + dot (c_coords S j) T = dot (tensor_coords sh dims i j) st"
    if "0 \<le> i" "i < int (length ?offs)" "0 \<le> j" "j < prod_list S" for i j
  proof -
    have "dot (c_coords S j) T = dot (c_coords (permute_list dims sh) j) (permute_list dims st)"
      using buf(3) that(3,4) by (simp add: same_lin_def lin_def coords_def)
    moreover have "dot (c_coords (permute_list dims sh) 0) (permute_list dims st) = 0"
      using c_coords_0 [OF D] dot_zeros by simp
    moreover have "?offs ! nat i = dot (tensor_coords sh dims i 0) st"
    proof -
      have "nat i < nat (tad_count sh dims)" using that(1,2) by (auto split: if_splits)
      then show ?thesis using that(1) by simp
    qed
    ultimately show ?thesis
      using tensor_coords_dot [OF assms(2) ok(2), of i j] tensor_coords_dot [OF assms(2) ok(2), of i 0] by simp
  qed
  have run: "do { t \<leftarrow> new_TAD (mk_info sh st off ews ord) dims (int (length dims));
          t \<leftarrow> createTadOnlyShapeInfo t;
          createOffsets t } = Some (t1\<lparr>t_tadOffsets := Some ?offs\<rparr>)"
    using new_TAD_eq [OF assms(1,2,4)] t1 createOffsets_eq [OF assms f1] by (simp add: t0_def)
  have len: "int (length ?offs) = tad_count sh dims" using tad_count_props(2) [OF ok(3) assms(2)] by simp
  have pT: "prod_list S = tad_prod sh dims" using pS tad_prod_permute [OF assms(2,3)] by simp
  have "tensors_at sh st dims S T ?offs"
    unfolding tensors_at_def using buf(2,5) pT len elem by (metis (no_types, lifting))
  then show ?thesis
    using run f1(3,5) buf(1,4)
    by (intro exI [of _ "t1\<lparr>t_tadOffsets := Some ?offs\<rparr>"] exI [of _ S] exI [of _ T] exI [of _ o'] exI [of _ e] exI [of _ c]
        exI [of _ ?offs]) simp
qed

text \<open>C2: The tensors along a set of dimensions divide an array: offset \<open>i\<close> of \<open>createOffsets\<close> and the shape
  information of \<open>createTadOnlyShapeInfo\<close> address element \<open>j\<close> of tensor \<open>i\<close>, whose coordinates are those of \<open>i\<close> along
  the other dimensions and those of \<open>j\<close> along the given ones, and every element of the array is met exactly once.
  This holds for all strides and orders, with axes of length one, scalars and vectors included; only where the tensors
  have one element and the array claims to be contiguous it must be so in row-major order.\<close>

theorem tensors_divide_array:
  assumes "permutable sh st" "index_set dims (length sh)" "sorted dims" "dims \<noteq> []"
    and "extent sh st \<le> 9223372036854775807" "ews = 1 \<and> tad_prod sh dims = 1 \<longrightarrow> row_major sh st"
  shows "\<exists>t S T o' e c offs.
     do { t \<leftarrow> new_TAD (mk_info sh st off ews ord) dims (int (length dims));
          t \<leftarrow> createTadOnlyShapeInfo t;
          createOffsets t } = Some t \<and>
     t_tadOnlyShapeInfo t = Some (mk_info S T o' e c) \<and> t_tadOffsets t = Some offs \<and>
     (\<forall>i j. 0 \<le> i \<and> i < int (length offs) \<and> 0 \<le> j \<and> j < prod_list S \<longrightarrow>
        offs ! nat i + dot (c_coords S j) T = dot (tensor_coords sh dims i j) st) \<and>
     bij_betw (\<lambda>(i, j). tensor_coords sh dims i j) ({0..<int (length offs)} \<times> {0..<prod_list S}) {v. in_box sh v}"
proof -
  obtain t S T o' e c offs where t:
     "do { t \<leftarrow> new_TAD (mk_info sh st off ews ord) dims (int (length dims));
          t \<leftarrow> createTadOnlyShapeInfo t;
          createOffsets t } = Some t"
     "t_tadOnlyShapeInfo t = Some (mk_info S T o' e c)" "t_tadOffsets t = Some offs" "tensors_at sh st dims S T offs"
    using tensors_of_array [OF assms, of off ord] by blast
  have "pos_shape sh" using assms(1) by (simp add: permutable_def small_shape_def)
  then have "bij_betw (\<lambda>(i, j). tensor_coords sh dims i j) ({0..<int (length offs)} \<times> {0..<prod_list S}) {v. in_box sh v}"
    using tensors_bij [OF _ assms(2,3)] t(4) by (simp add: tensors_at_def)
  then show ?thesis
    using t by (intro exI [of _ t] exI [of _ S] exI [of _ T] exI [of _ o'] exI [of _ e] exI [of _ c] exI [of _ offs])
      (simp add: tensors_at_def)
qed

theorem tensors_divide_array_witness:
  "\<exists>t S T o' e c offs.
     do { t \<leftarrow> new_TAD (mk_info [2, 1, 3] [3, 3, 1] 0 1 99) [0, 1] 2;
          t \<leftarrow> createTadOnlyShapeInfo t;
          createOffsets t } = Some t \<and>
     t_tadOnlyShapeInfo t = Some (mk_info S T o' e c) \<and> t_tadOffsets t = Some offs \<and>
     (\<forall>i j. 0 \<le> i \<and> i < int (length offs) \<and> 0 \<le> j \<and> j < prod_list S \<longrightarrow>
        offs ! nat i + dot (c_coords S j) T = dot (tensor_coords [2, 1, 3] [0, 1] i j) [3, 3, 1]) \<and>
     bij_betw (\<lambda>(i, j). tensor_coords [2, 1, 3] [0, 1] i j) ({0..<int (length offs)} \<times> {0..<prod_list S})
       {v. in_box [2, 1, 3] v}"
proof -
  have "row_major [2, 1, 3] [3, 3, 1]" by (auto simp: row_major_def)
  then show ?thesis
    using tensors_divide_array [of "[2, 1, 3]" "[3, 3, 1]" "[0, 1]" 1 0 99]
    by (simp add: permutable_def dims_ok_def small_shape_def index_set_def extent_def)
qed

end
