(* ===== verification/TadLoops.thy ===== *)
theory TadLoops
  imports ReduceLoops ScalarLoops TadOffsets
begin

text \<open>
  The loops along dimensions: reductions (\<open>exec\<close> of \<open>include/loops/reduce.h\<close>), transforms with one scalar per tensor
  (\<open>include/loops/cpu/scalar.cpp\<close>) and broadcasting (\<open>include/loops/broadcasting.h\<close>). They take shape information and
  offsets of the tensors from the caller or compute them with the class \<open>TAD\<close>.
\<close>

section \<open>The code\<close>

text \<open>
  The tensors of the caller, or those of a new \<open>TAD\<close> when one of the two pointers is null. The flag says that there is
  something to do: \<open>exec\<close> of \<open>reduce.h\<close> returns when the \<open>TAD\<close> has no dimensions.
\<close>

definition tads_for :: "int list \<Rightarrow> int list option \<Rightarrow> int list option \<Rightarrow> int list \<Rightarrow> int \<Rightarrow> (int list \<times> int list \<times> bool) option" where
  "tads_for xShapeInfo tadShapeInfo tadOffs dimension dimensionLength = (case (tadShapeInfo, tadOffs) of
     (Some info, Some offsets) \<Rightarrow> Some (info, offsets, True)
   | _ \<Rightarrow> do {
       tad \<leftarrow> new_TAD xShapeInfo dimension dimensionLength;
       tad \<leftarrow> createTadOnlyShapeInfo tad;
       tad \<leftarrow> createOffsets tad;
       info \<leftarrow> t_tadOnlyShapeInfo tad;
       offsets \<leftarrow> t_tadOffsets tad;
       Some (info, offsets, 1 \<le> t_dimensionLength tad) })"

text \<open>\<open>shape::length(xShapeInfo) / tadLength\<close>.\<close>

definition tad_numbers :: "int list \<Rightarrow> int list \<Rightarrow> int \<Rightarrow> (int \<times> int) option" where
  "tad_numbers xShapeInfo dimension dimensionLength = do {
     len \<leftarrow> tadLength xShapeInfo dimension dimensionLength;
     n \<leftarrow> shape_length xShapeInfo;
     q \<leftarrow> div64 n len;
     Some (len, to_int q) }"

text \<open>The reduction of one tensor, with its element-wise stride and by coordinates.\<close>

definition reduce_tad_strided :: "'t reduction \<Rightarrow> position \<Rightarrow> int list \<Rightarrow> int \<Rightarrow> int \<Rightarrow> position \<Rightarrow> int \<Rightarrow> 't buffers \<Rightarrow> 't buffers option" where
  "reduce_tad_strided r x tadOffsets tadEWS len result i m = do {
     offset \<leftarrow> rd tadOffsets i;
     let iter = moved x offset;
     start \<leftarrow> startingValue r m iter;
     start \<leftarrow> (if tadEWS = 1 then mfor (\<lambda>j start. accumulate r m (moved iter j) start) [0..len - 1] start
       else mfor (\<lambda>j start. do { k \<leftarrow> i32 (j * tadEWS); accumulate r m (moved iter k) start }) [0..len - 1] start);
     store m (moved result i) (postProcess r start len) }"

definition reduce_tad_coords :: "'t reduction \<Rightarrow> position \<Rightarrow> int list \<Rightarrow> int \<Rightarrow> int list \<Rightarrow> int list \<Rightarrow> int \<Rightarrow> position \<Rightarrow> int \<Rightarrow>
    't buffers \<Rightarrow> 't buffers option" where
  "reduce_tad_coords r x tadOffsets tadRank tadShape tadStride len result i m = do {
     offset \<leftarrow> rd tadOffsets i;
     start \<leftarrow> startingValue r m (moved x offset);
     start \<leftarrow> mfor (\<lambda>j start. do {
         xOffset \<leftarrow> offset_ind2subC tadRank tadShape tadStride offset j;
         accumulate r m (moved x xOffset) start }) [0..len - 1] start;
     store m (moved result i) (postProcess r start len) }"

text \<open>\<open>special\<close> is the member \<open>execSpecial\<close> of a class that requires special accumulation.\<close>

definition reduce_exec :: "runtime \<Rightarrow> 't reduction \<Rightarrow> ('t buffers \<Rightarrow> 't buffers option) option \<Rightarrow> position \<Rightarrow> int list \<Rightarrow> position \<Rightarrow>
    int list \<Rightarrow> int list option \<Rightarrow> int \<Rightarrow> int list option \<Rightarrow> int list option \<Rightarrow> 't buffers \<Rightarrow> 't buffers option" where
  "reduce_exec R r special x xShapeInfo result resultShapeInfo dimension dimensionLength tadShapeInfo tadOffs m = do {
     n \<leftarrow> shape_length resultShapeInfo;
     let resultLength = to_int n;
     rnk \<leftarrow> shape_rank xShapeInfo;
     case dimension of
       None \<Rightarrow> do { v \<leftarrow> reduce_scalar R r m x xShapeInfo; store m result v }
     | Some dimension \<Rightarrow>
       if resultLength = 1 \<or> dimensionLength = rnk then do { v \<leftarrow> reduce_scalar R r m x xShapeInfo; store m result v }
       else case special of
         Some f \<Rightarrow> f m
       | None \<Rightarrow> do {
           (info, offsets, go) \<leftarrow> tads_for xShapeInfo tadShapeInfo tadOffs dimension dimensionLength;
           if \<not> go then Some m
           else do {
             (len, numTads) \<leftarrow> tad_numbers xShapeInfo dimension dimensionLength;
             tadEWS \<leftarrow> shape_ews info;
             _ \<leftarrow> thread_count R resultLength (tadThreshold R);
             vector \<leftarrow> isVector_buf info;
             scalar \<leftarrow> isScalar info;
             if tadEWS > 0 \<and> (numTads = 1 \<or> vector \<noteq> 0 \<or> scalar \<noteq> 0) then
               parallel_for R (reduce_tad_strided r x offsets tadEWS len result) resultLength m
             else do {
               tadShape \<leftarrow> shapeOf info;
               tadStride \<leftarrow> shape_stride info;
               tadRank \<leftarrow> shape_rank info;
               parallel_for R (reduce_tad_coords r x offsets tadRank tadShape tadStride len result) resultLength m } } } }"

text \<open>
  One scalar per tensor. The shape information of the tensors comes from the caller. The stride of the result is read
  from the shape information of the input.
\<close>

definition scalar_tads :: "runtime \<Rightarrow> ('t \<Rightarrow> 't \<Rightarrow> 't) \<Rightarrow> position \<Rightarrow> int list \<Rightarrow> position \<Rightarrow> position \<Rightarrow> int list \<Rightarrow> int \<Rightarrow>
    int list \<Rightarrow> int list \<Rightarrow> (int list \<times> int list) option \<Rightarrow> 't buffers \<Rightarrow> 't buffers option" where
  "scalar_tads R opf x xShapeInfo z scalars dimension dimensionLength tadShapeInfo tadOffsets tadsZ m = do {
     let tadOffsetsZ = (case tadsZ of None \<Rightarrow> tadOffsets | Some (_, offsetsZ) \<Rightarrow> offsetsZ);
     tadEWS \<leftarrow> shape_ews tadShapeInfo;
     zEWS \<leftarrow> shape_ews tadShapeInfo;
     (len, numTads) \<leftarrow> tad_numbers xShapeInfo dimension dimensionLength;
     _ \<leftarrow> thread_count R numTads (tadThreshold R);
     parallel_for R (\<lambda>r m. do {
       offset \<leftarrow> rd tadOffsets r;
       offsetZ \<leftarrow> rd tadOffsetsZ r;
       scalar \<leftarrow> load m (moved scalars r);
       if tadEWS \<ge> 1 \<and> zEWS \<ge> 1 then
         (if tadEWS = 1 \<and> zEWS = 1
          then mfor (\<lambda>f. scalar_cell opf scalar (moved (moved x offset) f) (moved (moved z offsetZ) f)) [0..len - 1] m
          else mfor (\<lambda>f m. do {
            k \<leftarrow> i32 (f * zEWS);
            j \<leftarrow> i32 (f * tadEWS);
            scalar_cell opf scalar (moved (moved x offset) j) (moved (moved z offsetZ) k) m }) [0..len - 1] m)
       else Some m }) numTads m }"

text \<open>Linear index to coordinates to offset, in row-major or column-major order.\<close>

definition offset_in_order :: "bool \<Rightarrow> int \<Rightarrow> int list \<Rightarrow> int list \<Rightarrow> int \<Rightarrow> int \<Rightarrow> int option" where
  "offset_in_order c rnk shp str base i = do {
     coord \<leftarrow> (if c then ind2subC_infer rnk shp i (replicate 32 undefined) else ind2sub_infer rnk shp i (replicate 32 undefined));
     getOffset base shp str coord rnk }"

text \<open>Broadcasting: the operation on every tensor of \<open>x\<close> and the array \<open>y\<close>.\<close>

definition broadcast_tad_strided :: "('t \<Rightarrow> 't \<Rightarrow> 't) \<Rightarrow> position \<Rightarrow> int \<Rightarrow> position \<Rightarrow> int \<Rightarrow> position \<Rightarrow> int \<Rightarrow> int \<Rightarrow>
    't buffers \<Rightarrow> 't buffers option" where
  "broadcast_tad_strided opf oX tadEWS y yEWS oRes zEWS len m =
     (if tadEWS = 1 \<and> yEWS = 1 \<and> zEWS = 1 then mfor (\<lambda>f. op_cell opf (moved oX f) (moved y f) (moved oRes f)) [0..len - 1] m
      else mfor (\<lambda>f m. do {
        k \<leftarrow> i32 (f * zEWS);
        i \<leftarrow> i32 (f * tadEWS);
        j \<leftarrow> i32 (f * yEWS);
        op_cell opf (moved oX i) (moved y j) (moved oRes k) m }) [0..len - 1] m)"

definition broadcast_tad_coords :: "('t \<Rightarrow> 't \<Rightarrow> 't) \<Rightarrow> position \<Rightarrow> int list \<Rightarrow> int \<Rightarrow> position \<Rightarrow> int list \<Rightarrow> position \<Rightarrow> int list \<Rightarrow> int \<Rightarrow> int \<Rightarrow>
    't buffers \<Rightarrow> 't buffers option" where
  "broadcast_tad_coords opf x tadShapeInfo offset y yShapeInfo result tadShapeInfoZ offsetZ len m = do {
     zShape \<leftarrow> shapeOf tadShapeInfoZ;
     zStride \<leftarrow> shape_stride tadShapeInfoZ;
     zRank \<leftarrow> shape_rank tadShapeInfoZ;
     xShape \<leftarrow> shapeOf tadShapeInfo;
     xStride \<leftarrow> shape_stride tadShapeInfo;
     xRank \<leftarrow> shape_rank tadShapeInfo;
     yShape \<leftarrow> shapeOf yShapeInfo;
     yStride \<leftarrow> shape_stride yShapeInfo;
     yRank \<leftarrow> shape_rank yShapeInfo;
     xOrder \<leftarrow> shape_order tadShapeInfo;
     zOrder \<leftarrow> shape_order tadShapeInfoZ;
     mfor (\<lambda>f m. do {
       xOffset \<leftarrow> offset_in_order (xOrder = 99) xRank xShape xStride offset f;
       yOffset \<leftarrow> offset_in_order (xOrder = 99) yRank yShape yStride 0 f;
       zOffset \<leftarrow> offset_in_order (zOrder = 99) zRank zShape zStride offsetZ f;
       op_cell opf (moved x xOffset) (moved y yOffset) (moved result zOffset) m }) [0..len - 1] m }"

definition broadcast_exec :: "runtime \<Rightarrow> ('t \<Rightarrow> 't \<Rightarrow> 't) \<Rightarrow> position \<Rightarrow> int list \<Rightarrow> position \<Rightarrow> int list \<Rightarrow> position \<Rightarrow> int list \<Rightarrow> int \<Rightarrow>
    int list option \<Rightarrow> int list option \<Rightarrow> (int list \<times> int list) option \<Rightarrow> 't buffers \<Rightarrow> 't buffers option" where
  "broadcast_exec R opf x xShapeInfo y yShapeInfo result dimension dimensionLength tadShapeInfo tadOffs tadsZ m = do {
     (info, offsets, _) \<leftarrow> tads_for xShapeInfo tadShapeInfo tadOffs dimension dimensionLength;
     tadEWS \<leftarrow> shape_ews info;
     (len, tads) \<leftarrow> tad_numbers xShapeInfo dimension dimensionLength;
     yEWS \<leftarrow> shape_ews yShapeInfo;
     let (infoZ, offsetsZ) = (case tadsZ of None \<Rightarrow> (info, offsets) | Some p \<Rightarrow> p);
     zEWS \<leftarrow> shape_ews infoZ;
     _ \<leftarrow> thread_count R tads (tadThreshold R);
     parallel_for R (\<lambda>i m. do {
       offset \<leftarrow> rd offsets i;
       offsetZ \<leftarrow> rd offsetsZ i;
       if tadEWS > 0 \<and> yEWS > 0 \<and> zEWS > 0 \<and> dimensionLength = 1
       then broadcast_tad_strided opf (moved x offset) tadEWS y yEWS (moved result offsetZ) zEWS len m
       else broadcast_tad_coords opf x info offset y yShapeInfo result infoZ offsetZ len m }) tads m }"

section \<open>The tensors of an array\<close>

lemma tads_for_eq:
  assumes "permutable sh st" "index_set dims (length sh)" "sorted dims" "dims \<noteq> []"
    and "extent sh st \<le> 9223372036854775807" "ews = 1 \<and> tad_prod sh dims = 1 \<longrightarrow> row_major sh st" "ews_right sh st ews ord"
    and "tadShapeInfo = None \<or> tadOffs = None"
  shows "\<exists>S T o' e c offs. tads_for (mk_info sh st off ews ord) tadShapeInfo tadOffs dims (int (length dims)) =
      Some (mk_info S T o' e c, offs, True) \<and> tensors_at sh st dims S T offs \<and> ews_right S T e c"
proof -
  obtain t S T o' e c offs where t:
     "do { t \<leftarrow> new_TAD (mk_info sh st off ews ord) dims (int (length dims));
          t \<leftarrow> createTadOnlyShapeInfo t;
          createOffsets t } = Some t"
     "t_tadOnlyShapeInfo t = Some (mk_info S T o' e c)" "t_tadOffsets t = Some offs" "t_dimensionLength t = int (length dims)"
     "tensors_at sh st dims S T offs" "ews_right S T e c"
    using tensors_of_array [OF assms(1-6), of off ord] assms(7) by blast
  have len: "1 \<le> int (length dims)" using assms(4) by (cases dims) auto
  have "tads_for (mk_info sh st off ews ord) tadShapeInfo tadOffs dims (int (length dims)) =
      (do { t \<leftarrow> new_TAD (mk_info sh st off ews ord) dims (int (length dims));
          t \<leftarrow> createTadOnlyShapeInfo t;
          createOffsets t } \<bind> (\<lambda>tad. do {
       info \<leftarrow> t_tadOnlyShapeInfo tad;
       offsets \<leftarrow> t_tadOffsets tad;
       Some (info, offsets, 1 \<le> t_dimensionLength tad) }))"
    using assms(8) by (auto simp: tads_for_def split: option.splits)
  then have "tads_for (mk_info sh st off ews ord) tadShapeInfo tadOffs dims (int (length dims)) =
      Some (mk_info S T o' e c, offs, True)"
    unfolding t(1) using t(2-4) len by simp
  then show ?thesis using t(5,6) by blast
qed

lemma tad_numbers_eq:
  assumes "small_shape sh" "dims_ok sh st" "index_set dims (length sh)"
  shows "tad_numbers (mk_info sh st off ews ord) dims (int (length dims)) = Some (tad_prod sh dims, tad_count sh dims)"
proof -
  note c = tad_count_props [OF assms(1,3)]
  have n: "prod_list sh \<le> 2147483647" "pos_shape sh" using assms(1) by (simp_all add: small_shape_def)
  have "shape_length (mk_info sh st off ews ord) = Some (prod_list sh)"
    using assms(2) n by (intro shape_length_mk_info) auto
  moreover have "div64 (prod_list sh) (tad_prod sh dims) = Some (tad_count sh dims)"
    using c(4,5) n(1) by (simp add: tad_count_def div64_nonneg)
  ultimately show ?thesis
    using tadLength_any [OF assms(2,1,3)] c by (simp add: tad_numbers_def to_int_id)
qed

text \<open>An array with its tensors.\<close>

definition tensor_operand :: "'t buffers \<Rightarrow> position \<Rightarrow> int list \<Rightarrow> int list \<Rightarrow> int \<Rightarrow> int \<Rightarrow> int list \<Rightarrow> int list \<Rightarrow> int list \<Rightarrow> int list \<Rightarrow> bool" where
  "tensor_operand m x sh st ews ord dims S T offs \<longleftrightarrow>
     array_at m x sh st ews ord \<and> index_set dims (length sh) \<and> sorted dims \<and> tensors_at sh st dims S T offs"

lemma tensor_operand_dims:
  assumes "tensor_operand m x sh st ews ord dims S T offs"
  shows "array_at m x sh st ews ord" "index_set dims (length sh)" "sorted dims" "tensors_at sh st dims S T offs"
    "pos_shape sh" "pos_shape S" "prod_list S = tad_prod sh dims" "prod_list S \<le> 2147483647" "small_shape S"
    "length T = length S" "length S \<le> 32" "nonneg T" "dims_ok S T" "int (length offs) = tad_count sh dims"
    "small_shape sh" "dims_ok sh st" "tad_count sh dims \<le> 2147483647" "1 \<le> tad_count sh dims"
proof -
  show a: "array_at m x sh st ews ord" "index_set dims (length sh)" "sorted dims" "tensors_at sh st dims S T offs"
    using assms by (simp_all add: tensor_operand_def)
  show "pos_shape sh" "small_shape sh" "dims_ok sh st"
    using a(1) array_at_dims [OF a(1)] by (simp_all add: array_at_def small_shape_def)
  then show "tad_count sh dims \<le> 2147483647" "1 \<le> tad_count sh dims" using tad_count_props a(2) by auto
  show "pos_shape S" "prod_list S = tad_prod sh dims" "prod_list S \<le> 2147483647" "small_shape S" "length T = length S"
    "length S \<le> 32" "dims_ok S T" "int (length offs) = tad_count sh dims"
    using a(1,4) by (auto simp: tensors_at_def permutable_def small_shape_def dims_ok_def array_at_def)
  have "pos_shape T" using a(4) by (simp add: tensors_at_def permutable_def)
  then show "nonneg T" by (induction T) auto
qed

lemma tensor_box:
  assumes "tensor_operand m x sh st ews ord dims S T offs"
    and "i \<in> set [0..tad_count sh dims - 1]" "j \<in> set [0..tad_prod sh dims - 1]"
  shows "in_box sh (tensor_coords sh dims i j)"
proof -
  note t = tensor_operand_dims [OF assms(1)]
  have "(i, j) \<in> {0..<tad_count sh dims} \<times> {0..<tad_prod sh dims}" using assms(2,3) by auto
  then show ?thesis using bij_betw_apply [OF tensors_bij [OF t(5,2,3)]] by fastforce
qed

lemma tensor_position:
  assumes "tensor_operand m x sh st ews ord dims S T offs"
    and "i \<in> set [0..tad_count sh dims - 1]" "j \<in> set [0..tad_prod sh dims - 1]"
  shows "moved x (offs ! nat i + dot (c_coords S j) T) = at_coord x st (tensor_coords sh dims i j)"
    and "rd offs i = Some (offs ! nat i)"
proof -
  note t = tensor_operand_dims [OF assms(1)]
  have "offs ! nat i + dot (c_coords S j) T = dot (tensor_coords sh dims i j) st"
    using t(4) assms(2,3) by (simp add: tensors_at_def)
  then show "moved x (offs ! nat i + dot (c_coords S j) T) = at_coord x st (tensor_coords sh dims i j)"
    by (simp add: at_coord_def)
  show "rd offs i = Some (offs ! nat i)" using t(14) assms(2) by (intro rd_Some) auto
qed

text \<open>The offsets of the tensors and of the elements in them are ints.\<close>

lemma tensor_bounds:
  assumes "tensor_operand m x sh st ews ord dims S T offs" "i \<in> set [0..tad_count sh dims - 1]"
  shows "0 \<le> offs ! nat i" "offs ! nat i + extent S T \<le> 2147483647"
proof -
  note t = tensor_operand_dims [OF assms(1)]
  have sum: "0 \<le> offs ! nat i + dot v T \<and> offs ! nat i + dot v T \<le> 2147483647" if "in_box S v" for v
  proof -
    define j where "j = dot v (c_strides S)"
    have j: "c_coords S j = v" "0 \<le> j" "j < prod_list S"
      using c_coords_of_dot [OF that] c_linear_range [OF that] by (simp_all add: j_def)
    then have "j \<in> set [0..tad_prod sh dims - 1]" using t(7) by simp
    from tensor_position(1) [OF assms this] tensor_box [OF assms this]
    show ?thesis using array_at_valid(2,3) [OF t(1)] by (auto simp: j(1) at_coord_def moved_def)
  qed
  have "in_box S (c_coords S 0)" using t(6) prod_list_pos [OF t(6)] by (intro c_coords_in_box) auto
  from sum [OF this] show "0 \<le> offs ! nat i" using c_coords_0 [OF t(6)] dot_zeros by simp
  have "in_box S (map (\<lambda>d. d - 1) S)" using t(6) by (induction S) auto
  from sum [OF this] show "offs ! nat i + extent S T \<le> 2147483647" by (simp add: extent_def)
qed

lemma ind2sub_infer_eq:
  assumes "n = length sh" "n \<le> length shp" "take n shp = sh" "n \<le> length ret"
    and "small_shape sh" "0 \<le> x" "x < prod_list sh"
  shows "ind2sub_infer (int n) shp x ret = Some (f_coords sh x @ drop n ret)"
  using ind2sub_eq [OF assms(1-4)] shape_prodLong_eq [of n shp] assms prod_list_pos [of sh]
  by (simp add: ind2sub_infer_def to_int_id small_shape_def)

text \<open>The position of an element when an array or a tensor is traversed in some order.\<close>

lemma offset_in_order_eq:
  assumes "small_shape sh" "length st = length sh" "length sh \<le> 32" "nonneg st" "0 \<le> base" "base + extent sh st \<le> 2147483647"
    and "i \<in> set [0..prod_list sh - 1]"
  shows "offset_in_order c (int (length sh)) (sh @ ws) (st @ vs) base i =
      Some (base + dot (if c then c_coords sh i else f_coords sh i) st)"
proof -
  have sh: "pos_shape sh" "0 \<le> i" "i < prod_list sh" using assms(1,7) by (auto simp: small_shape_def)
  let ?c = "if c then c_coords sh i else f_coords sh i"
  have box: "in_box sh ?c" using sh c_coords_in_box f_coords_in_box by simp
  have "(if c then ind2subC_infer (int (length sh)) (sh @ ws) i (replicate 32 undefined)
      else ind2sub_infer (int (length sh)) (sh @ ws) i (replicate 32 undefined)) = Some (?c @ drop (length sh) (replicate 32 undefined))"
    using ind2subC_infer_eq [of "length sh" sh "sh @ ws" "replicate 32 undefined" i]
      ind2sub_infer_eq [of "length sh" sh "sh @ ws" "replicate 32 undefined" i] assms(1,3) sh by simp
  moreover have "getOffset base (sh @ ws) (st @ vs) (?c @ drop (length sh) (replicate 32 undefined)) (int (length sh)) =
      Some (base + dot ?c st)"
    using box assms(2,4,5,6) dot_le_extent [OF box assms(4)] in_box_length [OF box] by (intro getOffset_eq) auto
  ultimately show ?thesis by (simp add: offset_in_order_def)
qed

lemma tensor_offset:
  assumes "tensor_operand m x sh st ews ord dims S T offs" "i \<in> set [0..tad_count sh dims - 1]"
    and "j \<in> set [0..tad_prod sh dims - 1]"
  shows "offset_in_order c (int (length S)) (S @ ws) (T @ vs) (offs ! nat i) j =
      Some (offs ! nat i + dot (if c then c_coords S j else f_coords S j) T)"
proof -
  note t = tensor_operand_dims [OF assms(1)]
  show ?thesis using assms(3) by (intro offset_in_order_eq t tensor_bounds [OF assms(1,2)]) (simp only: t(7))
qed

lemma offset_ind2subC_order: "offset_ind2subC rnk shp str base i = offset_in_order True rnk shp str base i"
  by (simp add: offset_ind2subC_def offset_in_order_def)

text \<open>With at most one axis longer than one the two orders agree.\<close>

definition one_axis :: "int list \<Rightarrow> bool" where
  "one_axis S \<longleftrightarrow> length (filter (\<lambda>d. d \<noteq> 1) S) \<le> 1"

lemma one_axis_dot: "one_axis S \<Longrightarrow> in_box S v \<Longrightarrow> dot v (c_strides S) = sum_list v"
proof (induction S arbitrary: v)
  case (Cons d S)
  then obtain i w where v: "v = i # w" by (cases v) auto
  have box: "in_box S w" "0 \<le> i" "i < d" using Cons.prems(2) by (simp_all add: v)
  show ?case
  proof (cases "d = 1")
    case True
    then show ?thesis using Cons box by (simp add: v one_axis_def)
  next
    case False
    then have units: "\<forall>d\<in>set S. d = 1" using Cons.prems(1) by (simp add: one_axis_def filter_empty_conv)
    then have "prod_list S = 1" by (induction S) auto
    moreover have "one_axis S" using units by (simp add: one_axis_def)
    ultimately show ?thesis using Cons.IH [OF _ box(1)] by (simp add: v)
  qed
qed simp

lemma one_axis_orders:
  assumes "one_axis S" "pos_shape S" "0 \<le> j" "j < prod_list S"
  shows "f_coords S j = c_coords S j"
proof -
  let ?v = "c_coords S j"
  have box: "in_box S ?v" using c_coords_in_box assms by simp
  have "one_axis (rev S)" using assms(1) by (simp add: one_axis_def rev_filter [symmetric])
  moreover have "in_box (rev S) (rev ?v)" using box by (simp add: in_box_rev)
  ultimately have "dot ?v (f_strides S) = sum_list ?v"
    using one_axis_dot [of "rev S" "rev ?v"] in_box_length [OF box] by (simp add: f_dot_rev)
  moreover have "sum_list ?v = j" using one_axis_dot [OF assms(1) box] c_coords_dot [OF assms(2-4)] by simp
  ultimately show ?thesis using f_coords_of_dot [OF box] by simp
qed

text \<open>The row-major index of the element that is met as number \<open>f\<close> in an order.\<close>

definition tensor_index :: "int \<Rightarrow> int list \<Rightarrow> int \<Rightarrow> int" where
  "tensor_index c S f = dot (order_coords c S f) (c_strides S)"

lemma tensor_index_coords:
  "pos_shape S \<Longrightarrow> f \<in> set [0..prod_list S - 1] \<Longrightarrow> c_coords S (tensor_index c S f) = order_coords c S f"
  using c_coords_of_dot [OF order_coords_in_box] by (simp add: tensor_index_def)

lemma tensor_index_bij:
  assumes "pos_shape S"
  shows "bij_betw (tensor_index c S) (set [0..prod_list S - 1]) (set [0..prod_list S - 1])"
proof -
  have "bij_betw (\<lambda>v. dot v (c_strides S)) {v. in_box S v} (set [0..prod_list S - 1])"
    by (rule bij_betw_byWitness [where f' = "c_coords S"])
      (use assms c_linear_range in \<open>auto simp: c_coords_dot c_coords_of_dot c_coords_in_box\<close>)
  from bij_betw_trans [OF order_coords_bij [OF assms, of c] this]
  show ?thesis by (simp add: comp_def tensor_index_def [abs_def])
qed

lemma tensor_index_plain:
  assumes "c = 99 \<or> one_axis S" "pos_shape S" "f \<in> set [0..prod_list S - 1]"
  shows "tensor_index c S f = f"
proof -
  have "order_coords c S f = c_coords S f" using assms one_axis_orders [of S f] by (auto simp: order_coords_def)
  then show ?thesis using c_coords_dot assms(2,3) by (simp add: tensor_index_def)
qed

lemma vector_one_axis:
  assumes "pos_shape S" "isVector_buf (mk_info S T off e c) = Some v" "v \<noteq> 0"
  shows "one_axis S"
proof -
  have "length S = 1 \<or> length S = 2 \<and> (S ! 0 = 1 \<or> S ! 1 = 1)"
    using assms(2,3) by (auto simp: isVector_mk_info split: if_splits)
  then show ?thesis by (auto simp: one_axis_def length_Suc_conv numeral_2_eq_2)
qed

text \<open>With a right element-wise stride, element \<open>f\<close> is \<open>f\<close> strides away, and the product is an int.\<close>

lemma tensor_stride:
  assumes "tensor_operand m x sh st ews ord dims S T offs" "ews_right S T e c" "1 \<le> e"
    and "i \<in> set [0..tad_count sh dims - 1]" "f \<in> set [0..tad_prod sh dims - 1]"
  shows "moved (moved x (offs ! nat i)) (f * e) = at_coord x st (tensor_coords sh dims i (tensor_index c S f))"
    and "i32 (f * e) = Some (f * e)"
proof -
  note t = tensor_operand_dims [OF assms(1)]
  have f: "f \<in> set [0..prod_list S - 1]" using assms(5) t(7) by simp
  have j: "tensor_index c S f \<in> set [0..tad_prod sh dims - 1]"
    using bij_betw_apply [OF tensor_index_bij [OF t(6)] f] t(7) by simp
  have d: "dot (c_coords S (tensor_index c S f)) T = f * e"
    using assms(2,3) f unfolding tensor_index_coords [OF t(6) f] ews_right_def by simp
  then show "moved (moved x (offs ! nat i)) (f * e) = at_coord x st (tensor_coords sh dims i (tensor_index c S f))"
    using tensor_position(1) [OF assms(1,4) j] by (simp add: moved_def add.assoc)
  have "in_box S (order_coords c S f)" using f t(6) by (rule order_coords_in_box [rotated])
  then have "0 \<le> f * e" "f * e \<le> 2147483647"
    using dot_le_extent [of S "order_coords c S f" T] t(12) tensor_bounds [OF assms(1,4)] f assms(3)
    by (auto simp: d tensor_index_coords [OF t(6) f, symmetric])
  then show "i32 (f * e) = Some (f * e)" by (simp add: i32_def)
qed

section \<open>Reductions\<close>

text \<open>Where the result is: its cells are no cells of the input.\<close>

definition result_apart :: "'t buffers \<Rightarrow> position \<Rightarrow> int list \<Rightarrow> int list \<Rightarrow> position \<Rightarrow> int \<Rightarrow> bool" where
  "result_apart m x sh st z n \<longleftrightarrow> (\<forall>i\<in>set [0..n - 1]. valid m (moved z i) \<and> (\<forall>c. in_box sh c \<longrightarrow> at_coord x st c \<noteq> moved z i))"

definition tensor_reduced :: "'t reduction \<Rightarrow> ('t \<Rightarrow> 't) \<Rightarrow> 't buffers \<Rightarrow> position \<Rightarrow> int list \<Rightarrow> int list \<Rightarrow> int list \<Rightarrow> int \<Rightarrow> 't" where
  "tensor_reduced r f m x sh st dims i =
     postProcess r (reduced r (map (\<lambda>j. cell m (at_coord x st (tensor_coords sh dims i j))) [0..tad_prod sh dims - 1])
       (f (cell m (at_coord x st (tensor_coords sh dims i 0))))) (tad_prod sh dims)"

lemma reduce_tad_loop:
  assumes t: "tensor_operand m x sh st ews ord dims S T offs" and "result_apart m x sh st z (tad_count sh dims)"
    and start: "\<And>m p. valid m p \<Longrightarrow> startingValue r m p = Some (f (cell m p))"
    and i: "i \<in> set [0..tad_count sh dims - 1]" and m': "same_but m m' (moved z ` (set [0..tad_count sh dims - 1] - {i}))"
    and body: "\<And>j s. j \<in> set [0..tad_prod sh dims - 1] \<Longrightarrow>
      body j s = accumulate r m' (at_coord x st (tensor_coords sh dims i j)) s"
  shows "(do { start \<leftarrow> startingValue r m' (moved x (offs ! nat i));
      start \<leftarrow> mfor body [0..tad_prod sh dims - 1] start;
      store m' (moved z i) (postProcess r start (tad_prod sh dims)) }) =
    store m' (moved z i) (tensor_reduced r f m x sh st dims i)"
proof -
  note d = tensor_operand_dims [OF t]
  let ?p = "\<lambda>j. at_coord x st (tensor_coords sh dims i j)"
  have pos: "valid m (?p j) \<and> ?p j \<notin> moved z ` (set [0..tad_count sh dims - 1] - {i})"
    if "j \<in> set [0..tad_prod sh dims - 1]" for j
    using array_at_valid(1) [OF d(1) tensor_box [OF t i that]] tensor_box [OF t i that] assms(2)
    by (auto simp: result_apart_def)
  have load: "load m' (?p j) = Some (cell m (?p j))" if "j \<in> set [0..tad_prod sh dims - 1]" for j
    using same_but_load [OF m'] pos [OF that] by blast
  have P: "0 \<in> set [0..tad_prod sh dims - 1]" using prod_list_pos [OF d(6)] d(7) by simp
  have "c_coords S 0 = replicate (length S) 0" using c_coords_0 [OF d(6)] .
  then have "moved x (offs ! nat i) = ?p 0" using tensor_position(1) [OF t i P] dot_zeros by simp
  moreover have "startingValue r m' (?p 0) = Some (f (cell m (?p 0)))"
    using start [of m' "?p 0"] pos [OF P] same_but_valid [OF m'] same_but_cell [OF m'] by simp
  moreover have "mfor body [0..tad_prod sh dims - 1] (f (cell m (?p 0))) =
      Some (reduced r (map (\<lambda>j. cell m (?p j)) [0..tad_prod sh dims - 1]) (f (cell m (?p 0))))"
    by (rule accumulate_loop [of _ m' ?p, OF load body])
  ultimately show ?thesis by (simp add: tensor_reduced_def)
qed

lemma reduce_tads_ok:
  assumes t: "tensor_operand m x sh st ews ord dims S T offs" and z: "result_apart m x sh st z (tad_count sh dims)"
    and start: "\<And>m p. valid m p \<Longrightarrow> startingValue r m p = Some (f (cell m p))"
    and "runtime_ok R"
    and body: "\<And>i m'. i \<in> set [0..tad_count sh dims - 1] \<Longrightarrow>
      same_but m m' (moved z ` (set [0..tad_count sh dims - 1] - {i})) \<Longrightarrow>
      body i m' = store m' (moved z i) (tensor_reduced r f m x sh st dims i)"
  shows "\<exists>m'. parallel_for R body (tad_count sh dims) m = Some m' \<and>
    results m (set [0..tad_count sh dims - 1]) (moved z) (tensor_reduced r f m x sh st dims) m'"
proof -
  obtain xs where xs: "parallel_for R body (tad_count sh dims) m = mfor body xs m" "distinct xs"
      "set xs = set [0..tad_count sh dims - 1]"
    by (rule parallel_forE [OF assms(4)])
  have "\<exists>m'. mfor body xs m = Some m' \<and> results m (set xs) (moved z) (tensor_reduced r f m x sh st dims) m'"
  proof (rule elementwise [OF xs(2)])
    show "inj_on (moved z) (set xs)" by (simp add: inj_on_def moved_def)
    show "valid m (moved z i)" if "i \<in> set xs" for i
      using z that unfolding xs(3) result_apart_def by blast
    show "body i m' = store m' (moved z i) (tensor_reduced r f m x sh st dims i)"
      if "i \<in> set xs" "same_but m m' (moved z ` (set xs - {i}))" for i m'
      using body that unfolding xs(3) by blast
  qed
  then show ?thesis unfolding xs(1,3) .
qed

lemma reduce_tad_strided_eq:
  assumes t: "tensor_operand m x sh st ews ord dims S T offs" and z: "result_apart m x sh st z (tad_count sh dims)"
    and start: "\<And>m p. valid m p \<Longrightarrow> startingValue r m p = Some (f (cell m p))"
    and e: "ews_right S T e c" "1 \<le> e" "c = 99 \<or> one_axis S"
    and i: "i \<in> set [0..tad_count sh dims - 1]" and m': "same_but m m' (moved z ` (set [0..tad_count sh dims - 1] - {i}))"
  shows "reduce_tad_strided r x offs e (tad_prod sh dims) z i m' = store m' (moved z i) (tensor_reduced r f m x sh st dims i)"
proof -
  have rdi: "rd offs i = Some (offs ! nat i)"
    using tensor_operand_dims(14) [OF t] i by (intro rd_Some) auto
  let ?body = "\<lambda>j start. do { k \<leftarrow> i32 (j * e); accumulate r m' (moved (moved x (offs ! nat i)) k) start }"
  have body: "?body j s = accumulate r m' (at_coord x st (tensor_coords sh dims i j)) s"
    if "j \<in> set [0..tad_prod sh dims - 1]" for j s
    using tensor_stride [OF t e(1,2) i that] tensor_index_plain [OF e(3)] tensor_operand_dims(6,7) [OF t] that by simp
  have "reduce_tad_strided r x offs e (tad_prod sh dims) z i m' = (do { start \<leftarrow> startingValue r m' (moved x (offs ! nat i));
      start \<leftarrow> mfor ?body [0..tad_prod sh dims - 1] start;
      store m' (moved z i) (postProcess r start (tad_prod sh dims)) })"
  proof (cases "e = 1")
    case True
    have "mfor (\<lambda>j start. accumulate r m' (moved (moved x (offs ! nat i)) j) start) [0..tad_prod sh dims - 1] s =
        mfor ?body [0..tad_prod sh dims - 1] s" for s
      using tensor_stride(2) [OF t e(1,2) i] by (intro mfor_cong) (simp_all add: True)
    then show ?thesis using True by (simp add: reduce_tad_strided_def rdi Let_def)
  qed (simp add: reduce_tad_strided_def rdi Let_def)
  also have "\<dots> = store m' (moved z i) (tensor_reduced r f m x sh st dims i)"
    by (rule reduce_tad_loop [OF t z start i m' body])
  finally show ?thesis .
qed

lemma reduce_tad_coords_eq:
  assumes t: "tensor_operand m x sh st ews ord dims S T offs" and z: "result_apart m x sh st z (tad_count sh dims)"
    and start: "\<And>m p. valid m p \<Longrightarrow> startingValue r m p = Some (f (cell m p))"
    and i: "i \<in> set [0..tad_count sh dims - 1]" and m': "same_but m m' (moved z ` (set [0..tad_count sh dims - 1] - {i}))"
  shows "reduce_tad_coords r x offs (int (length S)) (S @ ws) (T @ vs) (tad_prod sh dims) z i m' =
    store m' (moved z i) (tensor_reduced r f m x sh st dims i)"
proof -
  have rdi: "rd offs i = Some (offs ! nat i)"
    using tensor_operand_dims(14) [OF t] i by (intro rd_Some) auto
  have body: "(do { k \<leftarrow> offset_ind2subC (int (length S)) (S @ ws) (T @ vs) (offs ! nat i) j; accumulate r m' (moved x k) s }) =
      accumulate r m' (at_coord x st (tensor_coords sh dims i j)) s" if "j \<in> set [0..tad_prod sh dims - 1]" for j s
    using tensor_offset [OF t i that, of True ws vs] tensor_position(1) [OF t i that] by (simp add: offset_ind2subC_order)
  show ?thesis
    unfolding reduce_tad_coords_def rdi Option.bind.bind_lunit
    by (rule reduce_tad_loop [OF t z start i m' body])
qed

text \<open>C7: A reduction along dimensions puts, for every coordinate along the other dimensions, the reduction of the elements
  that share it into the result, in their order, for every schedule of the threads, and changes nothing else. The
  tensors are those of the class \<open>TAD\<close>, whatever strides, order and axes of length one the array has; only where they
  have one element and the array claims to be contiguous it must be so in row-major order.\<close>

theorem reduce_exec_correct:
  assumes "array_at m x sh st ews ord" "permutable sh st" "ews = 1 \<and> tad_prod sh dims = 1 \<longrightarrow> row_major sh st"
    and "index_set dims (length sh)" "sorted dims" "dims \<noteq> []" "length dims \<noteq> length sh"
    and "small_shape zsh" "dims_ok zsh zst" "prod_list zsh = tad_count sh dims" "tad_count sh dims \<noteq> 1"
    and "result_apart m x sh st z (tad_count sh dims)"
    and "\<And>m p. valid m p \<Longrightarrow> startingValue r m p = Some (f (cell m p))" "runtime_ok R"
    and "tadShapeInfo = None \<or> tadOffs = None"
  shows "\<exists>m'. reduce_exec R r None x (mk_info sh st off ews ord) z (mk_info zsh zst zoff zews zord) (Some dims)
      (int (length dims)) tadShapeInfo tadOffs m = Some m' \<and>
    (\<forall>i. 0 \<le> i \<and> i < tad_count sh dims \<longrightarrow> cell m' (moved z i) = tensor_reduced r f m x sh st dims i) \<and>
    same_but m m' (moved z ` {0..<tad_count sh dims})"
proof -
  let ?X = "mk_info sh st off ews ord" and ?Z = "mk_info zsh zst zoff zews zord"
  have a: "extent sh st \<le> 9223372036854775807" "ews_right sh st ews ord" using assms(1) by (simp_all add: array_at_def)
  obtain S T o' e c offs where tads: "tads_for ?X tadShapeInfo tadOffs dims (int (length dims)) = Some (mk_info S T o' e c, offs, True)"
      "tensors_at sh st dims S T offs" "ews_right S T e c"
    using tads_for_eq [OF assms(2,4-6) a(1) assms(3) a(2) assms(15), of off] by blast
  have t: "tensor_operand m x sh st ews ord dims S T offs"
    using assms(1,4,5) tads(2) by (simp add: tensor_operand_def)
  note d = tensor_operand_dims [OF t]
  have n: "shape_length ?Z = Some (tad_count sh dims)"
    using shape_length_mk_info [of zsh zst] assms(8,10) by (simp add: small_shape_def)
  have to: "to_int (tad_count sh dims) = tad_count sh dims" using d(17,18) by (simp add: to_int_id)
  obtain k where k: "thread_count R (tad_count sh dims) (tadThreshold R) = Some k"
    using thread_count_ok [OF assms(14), of "tad_count sh dims" "tadThreshold R"] d(17,18) assms(14) by (auto simp: runtime_ok_def)
  obtain v w where vw: "isVector_buf (mk_info S T o' e c) = Some v" "isScalar (mk_info S T o' e c) = Some w"
    by (simp add: isVector_mk_info isScalar_mk_info)
  define fast where "fast \<longleftrightarrow> e > 0 \<and> (v \<noteq> 0 \<or> w \<noteq> 0)"
  define body where "body = (if fast then reduce_tad_strided r x offs e (tad_prod sh dims) z
    else reduce_tad_coords r x offs (int (length S)) (S @ T @ [o', e, c]) (T @ [o', e, c]) (tad_prod sh dims) z)"
  have run: "reduce_exec R r None x ?X z ?Z (Some dims) (int (length dims)) tadShapeInfo tadOffs m =
      parallel_for R body (tad_count sh dims) m"
    using n to tads(1) tad_numbers_eq [OF d(15,16,2)] k vw d(13,16) assms(7,11)
    by (auto simp: reduce_exec_def info_simps body_def fast_def Let_def cong: if_cong)
  have axis: "one_axis S" if fast
    using that vector_one_axis [OF d(6) vw(1)] vw(2)
    by (auto simp: fast_def isScalar_mk_info one_axis_def split: if_splits)
  have "body i m' = store m' (moved z i) (tensor_reduced r f m x sh st dims i)"
    if "i \<in> set [0..tad_count sh dims - 1]" "same_but m m' (moved z ` (set [0..tad_count sh dims - 1] - {i}))" for i m'
    using reduce_tad_strided_eq [OF t assms(12,13) tads(3) _ _ that] reduce_tad_coords_eq [OF t assms(12,13) that] axis
    by (auto simp: body_def fast_def)
  from reduce_tads_ok [OF t assms(12,13,14) this]
  obtain m' where "parallel_for R body (tad_count sh dims) m = Some m'"
    "results m (set [0..tad_count sh dims - 1]) (moved z) (tensor_reduced r f m x sh st dims) m'" by blast
  moreover have "set [0..tad_count sh dims - 1] = {0..<tad_count sh dims}" by auto
  ultimately show ?thesis using run by (auto simp: results_def)
qed

text \<open>The row sums of a column-major matrix.\<close>

theorem reduce_exec_correct_witness:
  "\<exists>m'. reduce_exec example_runtime \<lparr>startingValue = \<lambda>_ _. Some 0, op_of = \<lambda>v. v, update_of = (+), postProcess = \<lambda>v _. v\<rparr> None
      (0, 0) (mk_info [2, 3] [1, 2] 0 1 102) (1, 0) (mk_info [2, 1] [1, 1] 0 1 99) (Some [1]) 1 None None
      ((\<lambda>_. [])(0 := [1, 2, 3, 4, 5, 6 :: int], 1 := [0, 0])) = Some m' \<and> cell m' (1, 1) = 12"
proof -
  let ?r = "\<lparr>startingValue = \<lambda>_ _. Some 0, op_of = \<lambda>v. v, update_of = (+), postProcess = \<lambda>v _. v\<rparr> :: int reduction"
  let ?m = "(\<lambda>_. [])(0 := [1, 2, 3, 4, 5, 6 :: int], 1 := [0, 0])"
  have count: "tad_count [2, 3] [1] = 2" "tad_prod [2, 3] [1] = 3" by (simp_all add: tad_count_def tad_prod_def)
  have "array_at ?m (0, 0) [2, 3] [1, 2] 1 102"
    by (simp add: array_at_def ews_right_def small_shape_def extent_def order_coords_def f_coords_def upto.simps)
  moreover have "result_apart ?m (0, 0) [2, 3] [1, 2] (1, 0) 2"
    by (auto simp: result_apart_def valid_def moved_def at_coord_def)
  ultimately have "\<exists>m'. reduce_exec example_runtime ?r None (0, 0) (mk_info [2, 3] [1, 2] 0 1 102) (1, 0)
      (mk_info [2, 1] [1, 1] 0 1 99) (Some [1]) (int (length [1 :: int])) None None ?m = Some m' \<and>
    (\<forall>i. 0 \<le> i \<and> i < tad_count [2, 3] [1] \<longrightarrow>
      cell m' (moved (1, 0) i) = tensor_reduced ?r (\<lambda>_. 0) ?m (0, 0) [2, 3] [1, 2] [1] i) \<and>
    same_but ?m m' (moved (1, 0) ` {0..<tad_count [2, 3] [1]})"
    by (intro reduce_exec_correct [where ews = 1 and ord = 102])
      (simp_all add: permutable_def dims_ok_def small_shape_def index_set_def count example_runtime_ok)
  then obtain m' where m': "reduce_exec example_runtime ?r None (0, 0) (mk_info [2, 3] [1, 2] 0 1 102) (1, 0)
      (mk_info [2, 1] [1, 1] 0 1 99) (Some [1]) 1 None None ?m = Some m'"
    "\<forall>i. 0 \<le> i \<and> i < 2 \<longrightarrow> cell m' (moved (1, 0) i) = tensor_reduced ?r (\<lambda>_. 0) ?m (0, 0) [2, 3] [1, 2] [1] i"
    by (auto simp: count)
  have "tensor_reduced ?r (\<lambda>_. 0) ?m (0, 0) [2, 3] [1, 2] [1] 1 = 12" by code_simp
  then have "cell m' (1, 1) = 12" using spec [OF m'(2), of 1] by (simp add: moved_def)
  then show ?thesis using m'(1) by blast
qed

section \<open>One tensor per iteration\<close>

text \<open>Iterations that each compute a block of cells, from the cells of no other block.\<close>

lemma blockwise:
  assumes "distinct xs" "inj_on (\<lambda>(i, j). w i j) (set xs \<times> Y)"
    and "\<And>i m'. i \<in> set xs \<Longrightarrow> same_but m m' ((\<lambda>(i, j). w i j) ` ((set xs - {i}) \<times> Y)) \<Longrightarrow>
      \<exists>m''. body i m' = Some m'' \<and> results m' Y (w i) (v i) m''"
    and "\<And>i j. i \<in> set xs \<Longrightarrow> j \<in> Y \<Longrightarrow> valid m (w i j)"
  shows "\<exists>m'. mfor body xs m = Some m' \<and> results m (set xs \<times> Y) (\<lambda>(i, j). w i j) (\<lambda>(i, j). v i j) m'"
  using assms
proof (induction xs rule: rev_induct)
  case Nil
  then show ?case by (simp add: results_def)
next
  case (snoc x xs)
  have "\<exists>m''. body i m' = Some m'' \<and> results m' Y (w i) (v i) m''"
    if "i \<in> set xs" "same_but m m' ((\<lambda>(i, j). w i j) ` ((set xs - {i}) \<times> Y))" for i m'
  proof -
    have "(\<lambda>(i, j). w i j) ` ((set xs - {i}) \<times> Y) \<subseteq> (\<lambda>(i, j). w i j) ` ((set (xs @ [x]) - {i}) \<times> Y)" by auto
    then show ?thesis using snoc.prems(3) [of i m'] that same_but_mono by fastforce
  qed
  moreover have "inj_on (\<lambda>(i, j). w i j) (set xs \<times> Y)"
    using snoc.prems(2) by (rule inj_on_subset) auto
  ultimately obtain m1 where m1: "mfor body xs m = Some m1" "results m (set xs \<times> Y) (\<lambda>(i, j). w i j) (\<lambda>(i, j). v i j) m1"
    using snoc.IH snoc.prems(1,4) by fastforce
  then have s1: "same_but m m1 ((\<lambda>(i, j). w i j) ` (set xs \<times> Y))" by (simp add: results_def)
  have "set (xs @ [x]) - {x} = set xs" using snoc.prems(1) by auto
  then obtain m2 where m2: "body x m1 = Some m2" "results m1 Y (w x) (v x) m2"
    using snoc.prems(3) [of x m1] s1 by auto
  then have s2: "same_but m1 m2 (w x ` Y)" by (simp add: results_def)
  have "cell m2 (w i j) = v i j" if "i \<in> set xs" "j \<in> Y" for i j
  proof -
    have "w i j \<notin> w x ` Y"
    proof
      assume "w i j \<in> w x ` Y"
      then obtain k where "k \<in> Y" "w i j = w x k" by blast
      then have "(i, j) = (x, k)" using inj_onD [OF snoc.prems(2), of "(i, j)" "(x, k)"] that by simp
      then show False using snoc.prems(1) that(1) by simp
    qed
    moreover have "valid m1 (w i j)" using snoc.prems(4) that same_but_valid [OF s1] by simp
    ultimately show ?thesis using same_but_cell [OF s2] m1(2) that by (simp add: results_def)
  qed
  moreover have "cell m2 (w x j) = v x j" if "j \<in> Y" for j using m2(2) that by (simp add: results_def)
  moreover have "same_but m m2 ((\<lambda>(i, j). w i j) ` (set (xs @ [x]) \<times> Y))"
  proof -
    have "(\<lambda>(i, j). w i j) ` (set xs \<times> Y) \<union> w x ` Y = (\<lambda>(i, j). w i j) ` (set (xs @ [x]) \<times> Y)" by force
    then show ?thesis using same_but_trans [OF s1 s2] by simp
  qed
  ultimately show ?case using m1(1) m2(1) by (intro exI [of _ m2]) (auto simp: mfor_append results_def)
qed

text \<open>
  A loop over the tensors of an array and, inside, over the elements of a tensor in the order \<open>g\<close>. The outer body
  may read what is no cell of the array first.
\<close>

lemma tensor_loop:
  assumes z: "array_at m z sh st ews ord" "separate sh st" and dims: "index_set dims (length sh)" "sorted dims"
    and "runtime_ok R" and g: "bij_betw g (set [0..tad_prod sh dims - 1]) (set [0..tad_prod sh dims - 1])"
    and outer: "\<And>i m'. i \<in> set [0..tad_count sh dims - 1] \<Longrightarrow> same_but m m' (at_coord z st ` {c. in_box sh c}) \<Longrightarrow>
      body i m' = mfor (inner i) [0..tad_prod sh dims - 1] m'"
    and inner: "\<And>i f m'. i \<in> set [0..tad_count sh dims - 1] \<Longrightarrow> f \<in> set [0..tad_prod sh dims - 1] \<Longrightarrow>
      same_but m m' (at_coord z st ` {c. in_box sh c \<and> c \<noteq> tensor_coords sh dims i (g f)}) \<Longrightarrow>
      inner i f m' = store m' (at_coord z st (tensor_coords sh dims i (g f))) (v i (g f))"
  shows "\<exists>m'. parallel_for R body (tad_count sh dims) m = Some m' \<and> same_but m m' (at_coord z st ` {c. in_box sh c}) \<and>
    (\<forall>i j. 0 \<le> i \<and> i < tad_count sh dims \<and> 0 \<le> j \<and> j < tad_prod sh dims \<longrightarrow>
      cell m' (at_coord z st (tensor_coords sh dims i j)) = v i j)"
proof -
  let ?I = "set [0..tad_count sh dims - 1]" and ?J = "set [0..tad_prod sh dims - 1]"
  let ?w = "\<lambda>i j. at_coord z st (tensor_coords sh dims i j)"
  have pos: "pos_shape sh" using z(1) by (simp add: array_at_def small_shape_def)
  have sets: "?I = {0..<tad_count sh dims}" "?J = {0..<tad_prod sh dims}" by auto
  have bij: "bij_betw (\<lambda>(i, j). tensor_coords sh dims i j) (?I \<times> ?J) {c. in_box sh c}"
    using tensors_bij [OF pos dims] by (simp only: sets)
  then have box: "in_box sh (tensor_coords sh dims i j)" if "i \<in> ?I" "j \<in> ?J" for i j
    using that bij_betw_apply [OF bij, of "(i, j)"] by simp
  have same: "i = i' \<and> j = j'" if "i \<in> ?I" "j \<in> ?J" "i' \<in> ?I" "j' \<in> ?J"
      "tensor_coords sh dims i j = tensor_coords sh dims i' j'" for i j i' j'
    using inj_onD [OF bij_betw_imp_inj_on [OF bij], of "(i, j)" "(i', j')"] that by simp
  have inj: "inj_on (at_coord z st) {c. in_box sh c}"
    using z(2) by (auto simp: separate_def inj_on_def at_coord_def moved_def)
  have "inj_on (at_coord z st \<circ> (\<lambda>(i, j). tensor_coords sh dims i j)) (?I \<times> ?J)"
    using bij inj by (auto simp: bij_betw_def intro: comp_inj_on)
  then have injw: "inj_on (\<lambda>(i, j). ?w i j) (?I \<times> ?J)" by (simp add: comp_def case_prod_beta')
  obtain xs where xs: "parallel_for R body (tad_count sh dims) m = mfor body xs m" "distinct xs" "set xs = ?I"
    by (rule parallel_forE [OF assms(5)])
  have gJ: "g f \<in> ?J" if "f \<in> ?J" for f using bij_betw_apply [OF g that] .
  have image: "(\<lambda>(i, j). ?w i j) ` (?I \<times> ?J) = at_coord z st ` {c. in_box sh c}"
  proof -
    have "(\<lambda>(i, j). ?w i j) = at_coord z st \<circ> (\<lambda>(i, j). tensor_coords sh dims i j)" by (simp add: fun_eq_iff)
    then show ?thesis by (simp only: image_comp [symmetric] bij_betw_imp_surj_on [OF bij])
  qed
  have "\<exists>m'. mfor body xs m = Some m' \<and> results m (set xs \<times> ?J) (\<lambda>(i, j). ?w i j) (\<lambda>(i, j). v i j) m'"
  proof (rule blockwise [OF xs(2)], unfold xs(3))
    fix i m' assume i: "i \<in> ?I" and m': "same_but m m' ((\<lambda>(i, j). ?w i j) ` ((?I - {i}) \<times> ?J))"
    have sub: "(\<lambda>(i, j). ?w i j) ` ((?I - {i}) \<times> ?J) \<subseteq> at_coord z st ` {c. in_box sh c}"
      unfolding image [symmetric] by (rule image_mono) auto
    have "\<exists>m''. mfor (inner i) [0..tad_prod sh dims - 1] m' = Some m'' \<and>
        results m' ?J (\<lambda>f. ?w i (g f)) (\<lambda>f. v i (g f)) m''"
    proof (rule elementwise)
      show "inj_on (\<lambda>f. ?w i (g f)) ?J"
      proof (rule inj_onI)
        fix f k assume fk: "f \<in> ?J" "k \<in> ?J" "?w i (g f) = ?w i (g k)"
        then have "g f = g k" using inj_onD [OF injw, of "(i, g f)" "(i, g k)"] i gJ by simp
        then show "f = k" using g fk(1,2) unfolding bij_betw_def inj_on_def by blast
      qed
      show "valid m' (?w i (g f))" if "f \<in> ?J" for f
        using array_at_valid(1) [OF z(1) box [OF i gJ [OF that]]] same_but_valid [OF m'] by simp
      fix f m'' assume f: "f \<in> ?J" and m'': "same_but m' m'' ((\<lambda>f. ?w i (g f)) ` (?J - {f}))"
      have "(\<lambda>(i, j). ?w i j) ` ((?I - {i}) \<times> ?J) \<union> (\<lambda>f. ?w i (g f)) ` (?J - {f}) \<subseteq>
          at_coord z st ` {c. in_box sh c \<and> c \<noteq> tensor_coords sh dims i (g f)}"
      proof (rule Un_least; rule subsetI)
        fix p assume "p \<in> (\<lambda>(i, j). ?w i j) ` ((?I - {i}) \<times> ?J)"
        then obtain i' j where "(i', j) \<in> (?I - {i}) \<times> ?J" and p: "p = ?w i' j" by (elim imageE) (metis (no_types, lifting) case_prod_conv surj_pair)
        then have ij: "i' \<in> ?I" "i' \<noteq> i" "j \<in> ?J" "p = ?w i' j" by blast+
        then have "tensor_coords sh dims i' j \<noteq> tensor_coords sh dims i (g f)" using same [OF ij(1,3) i gJ [OF f]] by blast
        then show "p \<in> at_coord z st ` {c. in_box sh c \<and> c \<noteq> tensor_coords sh dims i (g f)}"
          using box [OF ij(1,3)] ij(4) by blast
      next
        fix p assume "p \<in> (\<lambda>f. ?w i (g f)) ` (?J - {f})"
        then obtain k where k: "k \<in> ?J" "k \<noteq> f" "p = ?w i (g k)" by blast
        have "g k \<noteq> g f" using k(1,2) f g by (auto simp: bij_betw_def inj_on_def)
        then have "tensor_coords sh dims i (g k) \<noteq> tensor_coords sh dims i (g f)"
          using same [OF i gJ [OF k(1)] i gJ [OF f]] by blast
        then show "p \<in> at_coord z st ` {c. in_box sh c \<and> c \<noteq> tensor_coords sh dims i (g f)}"
          using box [OF i gJ [OF k(1)]] k(3) by blast
      qed
      then show "inner i f m'' = store m'' (?w i (g f)) (v i (g f))"
        using inner [OF i f same_but_mono [OF same_but_trans [OF m' m'']]] by blast
    qed simp
    then obtain m'' where m'': "mfor (inner i) [0..tad_prod sh dims - 1] m' = Some m''"
        "results m' ?J (\<lambda>f. ?w i (g f)) (\<lambda>f. v i (g f)) m''" by blast
    have "results m' (g ` ?J) (?w i) (v i) m''" using m''(2) by (simp add: results_def image_image)
    then have "results m' ?J (?w i) (v i) m''" using g by (simp add: bij_betw_def)
    then show "\<exists>m''. body i m' = Some m'' \<and> results m' ?J (?w i) (v i) m''"
      using outer [OF i same_but_mono [OF m' sub]] m''(1) by simp
  qed (use injw array_at_valid(1) [OF z(1) box] in auto)
  then obtain m' where m': "mfor body xs m = Some m'" "results m (?I \<times> ?J) (\<lambda>(i, j). ?w i j) (\<lambda>(i, j). v i j) m'"
    unfolding xs(3) by blast
  have "same_but m m' (at_coord z st ` {c. in_box sh c})" using m'(2) unfolding results_def image by blast
  moreover have "cell m' (?w i j) = v i j" if "i \<in> ?I" "j \<in> ?J" for i j
    using m'(2) that unfolding results_def by fastforce
  ultimately show ?thesis using xs(1) m'(1) by auto
qed

section \<open>Transforms and broadcasting\<close>

text \<open>C9: The transform with one scalar per tensor computes every element of the result from the element with the same
  coordinates and the scalar of its tensor, and changes nothing else, also in place, for every order of the arrays and of
  the threads. The tensors of the input must have an element-wise stride of at least 1, and those of the result the same
  one in the same order of their elements: the code computes nothing without the first (\<open>scalar_tads_skips\<close>) and does not
  look at the second (\<open>scalar_tads_input_stride\<close>).\<close>

theorem scalar_tads_elementwise:
  assumes "tensor_operand m x sh st ex ox dims S T offs" "ews_right S T e c" "1 \<le> e"
    and "tensor_operand m z sh stz ez oz dims S Tz offsz" "ews_right S Tz e c"
    and "offsz = (case tadsZ of None \<Rightarrow> offs | Some (_, offsetsZ) \<Rightarrow> offsetsZ)"
    and "separate sh stz" "no_clash sh z stz x st" "runtime_ok R"
    and "\<And>i. 0 \<le> i \<Longrightarrow> i < tad_count sh dims \<Longrightarrow> valid m (moved s i) \<and> (\<forall>c. in_box sh c \<longrightarrow> at_coord z stz c \<noteq> moved s i)"
  shows "\<exists>m'. scalar_tads R opf x (mk_info sh st off ex ox) z s dims (int (length dims)) (mk_info S T o' e c) offs tadsZ m = Some m' \<and>
    same_but m m' (at_coord z stz ` {c. in_box sh c}) \<and>
    (\<forall>i j. 0 \<le> i \<and> i < tad_count sh dims \<and> 0 \<le> j \<and> j < tad_prod sh dims \<longrightarrow>
      cell m' (at_coord z stz (tensor_coords sh dims i j)) =
      opf (cell m (at_coord x st (tensor_coords sh dims i j))) (cell m (moved s i)))"
proof -
  note t = tensor_operand_dims [OF assms(1)]
  note tz = tensor_operand_dims [OF assms(4)]
  let ?P = "tad_prod sh dims"
  let ?c = "\<lambda>i f. tensor_coords sh dims i (tensor_index c S f)"
  define inner where "inner i f = scalar_cell opf (cell m (moved s i))
      (moved (moved x (offs ! nat i)) (f * e)) (moved (moved z (offsz ! nat i)) (f * e))" for i f
  define body where "body r m = (do {
       offset \<leftarrow> rd offs r;
       offsetZ \<leftarrow> rd offsz r;
       scalar \<leftarrow> load m (moved s r);
       if e = 1
       then mfor (\<lambda>f. scalar_cell opf scalar (moved (moved x offset) f) (moved (moved z offsetZ) f)) [0..?P - 1] m
       else mfor (\<lambda>f m. do {
            k \<leftarrow> i32 (f * e);
            j \<leftarrow> i32 (f * e);
            scalar_cell opf scalar (moved (moved x offset) j) (moved (moved z offsetZ) k) m }) [0..?P - 1] m })" for r m
  obtain k where "thread_count R (tad_count sh dims) (tadThreshold R) = Some k"
    using thread_count_ok [OF assms(9), of "tad_count sh dims" "tadThreshold R"] t(17,18) assms(9) by (auto simp: runtime_ok_def)
  then have run: "scalar_tads R opf x (mk_info sh st off ex ox) z s dims (int (length dims)) (mk_info S T o' e c) offs tadsZ m =
      parallel_for R body (tad_count sh dims) m"
    using tad_numbers_eq [OF t(15,16,2)] t(13) assms(3)
    by (simp add: scalar_tads_def info_simps body_def [abs_def] assms(6) cong: if_cong)
  have outer: "body i m' = mfor (inner i) [0..?P - 1] m'"
    if "i \<in> set [0..tad_count sh dims - 1]" "same_but m m' (at_coord z stz ` {c. in_box sh c})" for i m'
  proof -
    have "valid m (moved s i)" "moved s i \<notin> at_coord z stz ` {c. in_box sh c}"
      using assms(10) [of i] that(1) by auto
    then have "load m' (moved s i) = Some (cell m (moved s i))" using same_but_load [OF that(2)] by blast
    moreover have "rd offs i = Some (offs ! nat i)" "rd offsz i = Some (offsz ! nat i)"
      using t(14) tz(14) that(1) by (simp_all add: rd_Some)
    moreover have "mfor (\<lambda>f m. do {
            k \<leftarrow> i32 (f * e);
            j \<leftarrow> i32 (f * e);
            scalar_cell opf (cell m' (moved s i)) (moved (moved x (offs ! nat i)) j) (moved (moved z (offsz ! nat i)) k) m }) [0..?P - 1] m0 =
        mfor (\<lambda>f. scalar_cell opf (cell m' (moved s i))
          (moved (moved x (offs ! nat i)) (f * e)) (moved (moved z (offsz ! nat i)) (f * e))) [0..?P - 1] m0" for m0 m'
      using tensor_stride(2) [OF assms(1-3) that(1)] by (intro mfor_cong) simp_all
    ultimately show ?thesis by (simp add: body_def inner_def [abs_def])
  qed
  have inner: "inner i f m' = store m' (at_coord z stz (?c i f))
      (opf (cell m (at_coord x st (?c i f))) (cell m (moved s i)))"
    if "i \<in> set [0..tad_count sh dims - 1]" "f \<in> set [0..?P - 1]"
      "same_but m m' (at_coord z stz ` {c. in_box sh c \<and> c \<noteq> ?c i f})" for i f m'
  proof -
    have "tensor_index c S f \<in> set [0..?P - 1]"
      using bij_betw_apply [OF tensor_index_bij [OF t(6)], of f c] that(2) unfolding t(7) by blast
    from tensor_box [OF assms(1) that(1) this]
    have "load m' (at_coord x st (?c i f)) = Some (cell m (at_coord x st (?c i f)))"
      by (rule load_source [OF t(1) assms(8) _ that(3)])
    then show ?thesis
      using tensor_stride(1) [OF assms(1-3) that(1,2)] tensor_stride(1) [OF assms(4,5,3) that(1,2)]
      by (simp add: inner_def scalar_cell_def)
  qed
  have "bij_betw (tensor_index c S) (set [0..?P - 1]) (set [0..?P - 1])"
    using tensor_index_bij [OF t(6), of c] by (simp only: t(7))
  from tensor_loop [where v = "\<lambda>i j. opf (cell m (at_coord x st (tensor_coords sh dims i j))) (cell m (moved s i))",
      OF tz(1) assms(7) t(2,3) assms(9) this outer inner]
  show ?thesis unfolding run .
qed

text \<open>A number for every row of a column-major matrix, into a result with gaps between the rows.\<close>

theorem scalar_tads_elementwise_witness:
  "\<exists>m'. scalar_tads example_runtime (+) (0, 0) (mk_info [2, 2] [1, 2] 0 1 102) (2, 0) (1, 0) [1] 1
      (mk_info [1, 2] [1, 2] 0 2 99) [0, 1] (Some (mk_info [1, 2] [1, 2] 0 2 99, [0, 3]))
      ((\<lambda>_. [])(0 := [1, 2, 3, 4 :: int], 1 := [10, 20], 2 := [0, 0, 0, 0, 0, 0])) = Some m' \<and> cell m' (2, 5) = 24"
proof -
  let ?m = "(\<lambda>_. [])(0 := [1, 2, 3, 4 :: int], 1 := [10, 20], 2 := [0, 0, 0, 0, 0, 0])"
  let ?Z = "Some (mk_info [1, 2] [1, 2] 0 2 99, [0, 3])"
  have sh: "pos_shape [2, 2]" by simp
  have count: "tad_count [2, 2] [1] = 2" "tad_prod [2, 2] [1] = 2" by (simp_all add: tad_count_def tad_prod_def)
  have a: "array_at ?m (0, 0) [2, 2] [1, 2] 1 102" "array_at ?m (2, 0) [2, 2] [3, 2] 0 99"
    by (simp_all add: array_at_def ews_right_def small_shape_def extent_def order_coords_def f_coords_def upto.simps)
  have two: "i = 0 \<or> i = 1" if "0 \<le> i" "i < 2" for i :: int using that by linarith
  have "[0, 1] ! nat i + dot (c_coords [1, 2] j) [1, 2] = dot (tensor_coords [2, 2] [1] i j) [1, 2 :: int]"
    "[0, 3] ! nat i + dot (c_coords [1, 2] j) [1, 2] = dot (tensor_coords [2, 2] [1] i j) [3, 2 :: int]"
    if "0 \<le> i" "i < 2" "0 \<le> j" "j < 2" for i j :: int
    using two [OF that(1,2)] two [OF that(3,4)] by (elim disjE; hypsubst; code_simp)+
  then have "tensors_at [2, 2] [1, 2] [1] [1, 2] [1, 2] [0, 1]" "tensors_at [2, 2] [3, 2] [1] [1, 2] [1, 2] [0, 3]"
    by (simp_all add: tensors_at_def permutable_def dims_ok_def small_shape_def count)
  then have "tensor_operand ?m (0, 0) [2, 2] [1, 2] 1 102 [1] [1, 2] [1, 2] [0, 1]"
    "tensor_operand ?m (2, 0) [2, 2] [3, 2] 0 99 [1] [1, 2] [1, 2] [0, 3]"
    using a by (simp_all add: tensor_operand_def index_set_def)
  moreover have "ews_right [1, 2] [1, 2] 2 99" by (simp add: ews_right_def order_coords_def)
  moreover have "separate [2, 2] [3, 2]" by (simp add: separate_iff [OF sh] upto.simps)
  moreover have "no_clash [2, 2] (2, 0) [3, 2] (0, 0) [1, 2]"
    by (simp add: no_clash_iff [OF sh] upto.simps at_coord_def moved_def)
  moreover have "valid ?m (moved (1, 0) i) \<and> (\<forall>c. in_box [2, 2] c \<longrightarrow> at_coord (2, 0) [3, 2] c \<noteq> moved (1, 0) i)"
    if "0 \<le> i" "i < tad_count [2, 2] [1]" for i
    using that by (simp add: count valid_def moved_def at_coord_def)
  ultimately have "\<exists>m'. scalar_tads example_runtime (+) (0, 0) (mk_info [2, 2] [1, 2] 0 1 102) (2, 0) (1, 0) [1] (int (length [1 :: int]))
      (mk_info [1, 2] [1, 2] 0 2 99) [0, 1] ?Z ?m = Some m' \<and>
    same_but ?m m' (at_coord (2, 0) [3, 2] ` {c. in_box [2, 2] c}) \<and>
    (\<forall>i j. 0 \<le> i \<and> i < tad_count [2, 2] [1] \<and> 0 \<le> j \<and> j < tad_prod [2, 2] [1] \<longrightarrow>
      cell m' (at_coord (2, 0) [3, 2] (tensor_coords [2, 2] [1] i j)) =
      cell ?m (at_coord (0, 0) [1, 2] (tensor_coords [2, 2] [1] i j)) + cell ?m (moved (1, 0) i))"
    by (intro scalar_tads_elementwise [where Tz = "[1, 2]" and offsz = "[0, 3]" and ez = 0 and oz = 99] example_runtime_ok) simp_all
  then obtain m' where m': "scalar_tads example_runtime (+) (0, 0) (mk_info [2, 2] [1, 2] 0 1 102) (2, 0) (1, 0) [1] 1
      (mk_info [1, 2] [1, 2] 0 2 99) [0, 1] ?Z ?m = Some m'"
    "cell m' (at_coord (2, 0) [3, 2] (tensor_coords [2, 2] [1] 1 1)) =
      cell ?m (at_coord (0, 0) [1, 2] (tensor_coords [2, 2] [1] 1 1)) + cell ?m (moved (1, 0) 1)"
    by (auto simp: count)
  moreover have "at_coord (2, 0) [3, 2] (tensor_coords [2, 2] [1] 1 1) = (2, 5)"
    "at_coord (0, 0) [1, 2] (tensor_coords [2, 2] [1] 1 1) = (0, 3)" by code_simp+
  ultimately have "cell m' (2, 5) = 24" by (simp add: cell_def moved_def)
  then show ?thesis using m'(1) by blast
qed

text \<open>
  The tensors that \<open>TAD\<close> describes along two of three dimensions have no element-wise stride. The loop then prints a
  message and computes nothing.
\<close>

lemma scalar_tads_skips:
  "(do { (info, offsets, _) \<leftarrow> tads_for (mk_info [2, 2, 1] [2, 1, 1] 0 1 99) None None [0, 1] 2;
         m \<leftarrow> scalar_tads example_runtime (+) (0, 0) (mk_info [2, 2, 1] [2, 1, 1] 0 1 99) (0, 0) (1, 0) [0, 1] 2
           info offsets None ((\<lambda>_. [])(0 := [1, 2, 3, 4 :: int], 1 := [10]));
         Some (m 0) }) = Some [1, 2, 3, 4]"
  by code_simp

text \<open>
  The result has another stride than the input: its stride is taken from the input, so that the second element of a row
  is written between the first and the place it belongs to.
\<close>

lemma scalar_tads_input_stride:
  "(do { m \<leftarrow> scalar_tads example_runtime (+) (0, 0) (mk_info [2, 2] [2, 1] 0 1 99) (1, 0) (2, 0) [1] 1
           (mk_info [1, 2] [1, 1] 0 1 99) [0, 2] (Some (mk_info [1, 2] [1, 2] 0 2 99, [0, 4]))
           ((\<lambda>_. [])(0 := [1, 2, 3, 4 :: int], 1 := [0, 0, 0, 0, 0, 0, 0], 2 := [10, 20]));
         Some (m 1) }) = Some [11, 12, 0, 0, 23, 24, 0]"
  by code_simp

text \<open>The operands of broadcasting: the array, the one that is spread over its tensors, the result, and the orders in
  which the loops may traverse them: row-major, or any when there is one axis.\<close>

definition spread_operand :: "'t buffers \<Rightarrow> position \<Rightarrow> int list \<Rightarrow> int list \<Rightarrow> int \<Rightarrow> int \<Rightarrow> int \<Rightarrow> bool" where
  "spread_operand m y shy sty ey oy c \<longleftrightarrow> array_at m y shy sty ey oy \<and> (one_axis shy \<or> c = 99 \<and> oy = 99)"

lemma spread_stride:
  assumes "spread_operand m y shy sty ey oy c" "1 \<le> ey" "f \<in> set [0..prod_list shy - 1]"
  shows "moved y (f * ey) = at_coord y sty (c_coords shy f)" "i32 (f * ey) = Some (f * ey)"
proof -
  have y: "array_at m y shy sty ey oy" and o: "oy = 99 \<or> one_axis shy" using assms(1) by (auto simp: spread_operand_def)
  have pos: "pos_shape shy" using y by (simp add: array_at_def small_shape_def)
  have f: "0 \<le> f" "f < prod_list shy" using assms(3) by auto
  have c: "order_coords oy shy f = c_coords shy f"
    using o one_axis_orders [OF _ pos f] by (auto simp: order_coords_def)
  then show p: "moved y (f * ey) = at_coord y sty (c_coords shy f)" using array_at_ews [OF y assms(2,3)] by simp
  have box: "in_box shy (c_coords shy f)" using c_coords_in_box [OF pos f] .
  have "f * ey = dot (c_coords shy f) sty" using p by (simp add: moved_def at_coord_def)
  then show "i32 (f * ey) = Some (f * ey)" using array_at_valid(2,3) [OF y box] by (simp add: i32_def)
qed

lemma spread_offset:
  assumes "spread_operand m y shy sty ey oy c" "f \<in> set [0..prod_list shy - 1]" "b \<longleftrightarrow> to_char c = 99"
  shows "offset_in_order b (int (length shy)) (shy @ ws) (sty @ vs) 0 f = Some (dot (c_coords shy f) sty)"
proof -
  have y: "array_at m y shy sty ey oy" and o: "b \<or> one_axis shy"
    using assms(1,3) by (auto simp: spread_operand_def to_char_def)
  have sh: "small_shape shy" "length sty = length shy" "length shy \<le> 32" "nonneg sty" "0 + extent shy sty \<le> 2147483647"
    "pos_shape shy"
    using y by (simp_all add: array_at_def small_shape_def)
  have "(if b then c_coords shy f else f_coords shy f) = c_coords shy f"
    using o one_axis_orders [OF _ sh(6), of f] assms(2) by auto
  then show ?thesis using offset_in_order_eq [OF sh(1-4) _ sh(5) assms(2), of b ws vs] by simp
qed

lemma tensor_plain_offset:
  assumes "tensor_operand m x sh st ews ord dims S T offs" "c = 99 \<or> one_axis S" "b \<longleftrightarrow> to_char c = 99"
    and "i \<in> set [0..tad_count sh dims - 1]" "f \<in> set [0..tad_prod sh dims - 1]"
  shows "offset_in_order b (int (length S)) (S @ ws) (T @ vs) (offs ! nat i) f = Some (offs ! nat i + dot (c_coords S f) T)"
proof -
  note t = tensor_operand_dims [OF assms(1)]
  have "b \<or> one_axis S" using assms(2,3) by (auto simp: to_char_def)
  then have "(if b then c_coords S f else f_coords S f) = c_coords S f"
    using one_axis_orders [OF _ t(6), of f] assms(5) t(7) by auto
  then show ?thesis using tensor_offset [OF assms(1,4,5), of b ws vs] by simp
qed

lemma tensor_plain_stride:
  assumes "tensor_operand m x sh st ews ord dims S T offs" "ews_right S T e c" "1 \<le> e" "c = 99 \<or> one_axis S"
    and "i \<in> set [0..tad_count sh dims - 1]" "f \<in> set [0..tad_prod sh dims - 1]"
  shows "moved (moved x (offs ! nat i)) (f * e) = at_coord x st (tensor_coords sh dims i f)"
proof -
  note t = tensor_operand_dims [OF assms(1)]
  have "tensor_index c S f = f" using tensor_index_plain [OF assms(4) t(6)] assms(6) t(7) by simp
  then show ?thesis using tensor_stride(1) [OF assms(1-3,5,6)] by simp
qed

text \<open>C8: Broadcasting computes, for every coordinate, the operation on the element of the first array and the element of
  the second one that has the same place in its tensor, and changes nothing else, also in place, for every schedule of
  the threads, with tensors of the caller or of a new \<open>TAD\<close>, when the tensors and the second array are row-major or have one
  axis longer than one.\<close>

theorem broadcast_exec_elementwise:
  assumes "tads_for (mk_info sh stx offx ex ox) tadShapeInfo tadOffs dims (int (length dims)) = Some (mk_info S T o1 e c, offs, go)"
    and "(case tadsZ of None \<Rightarrow> (mk_info S T o1 e c, offs) | Some p \<Rightarrow> p) = (mk_info Sz Tz o2 ez' cz, offsZ)"
    and "tensor_operand m x sh stx ex ox dims S T offs" "ews_right S T e c" "c = 99 \<or> one_axis S"
    and "tensor_operand m z sh stz ez oz dims Sz Tz offsZ" "ews_right Sz Tz ez' cz" "cz = 99 \<or> one_axis Sz"
    and "spread_operand m y shy sty ey oy c" "prod_list shy = tad_prod sh dims"
    and "separate sh stz" "no_clash sh z stz x stx" "runtime_ok R"
    and "\<And>c d. in_box sh c \<Longrightarrow> in_box shy d \<Longrightarrow> at_coord z stz c \<noteq> at_coord y sty d"
  shows "\<exists>m'. broadcast_exec R opf x (mk_info sh stx offx ex ox) y (mk_info shy sty offy ey oy) z dims (int (length dims))
      tadShapeInfo tadOffs tadsZ m = Some m' \<and>
    same_but m m' (at_coord z stz ` {c. in_box sh c}) \<and>
    (\<forall>i j. 0 \<le> i \<and> i < tad_count sh dims \<and> 0 \<le> j \<and> j < tad_prod sh dims \<longrightarrow>
      cell m' (at_coord z stz (tensor_coords sh dims i j)) =
      opf (cell m (at_coord x stx (tensor_coords sh dims i j))) (cell m (at_coord y sty (c_coords shy j))))"
proof -
  note t = tensor_operand_dims [OF assms(3)] and tz = tensor_operand_dims [OF assms(6)]
  let ?P = "tad_prod sh dims" and ?n = "tad_count sh dims"
  have y: "array_at m y shy sty ey oy" using assms(9) by (simp add: spread_operand_def)
  have dy: "dims_ok shy sty" "pos_shape shy" using array_at_dims [OF y] y by (simp_all add: array_at_def small_shape_def)
  define body where "body i m = (do {
       offset \<leftarrow> rd offs i;
       offsetZ \<leftarrow> rd offsZ i;
       if e > 0 \<and> ey > 0 \<and> ez' > 0 \<and> length dims = 1
       then broadcast_tad_strided opf (moved x offset) e y ey (moved z offsetZ) ez' ?P m
       else broadcast_tad_coords opf x (mk_info S T o1 e c) offset y (mk_info shy sty offy ey oy) z (mk_info Sz Tz o2 ez' cz) offsetZ ?P m })"
    for i m
  obtain k where k: "thread_count R ?n (tadThreshold R) = Some k"
    using thread_count_ok [OF assms(13), of ?n "tadThreshold R"] t(17,18) assms(13) by (auto simp: runtime_ok_def)
  have run: "broadcast_exec R opf x (mk_info sh stx offx ex ox) y (mk_info shy sty offy ey oy) z dims (int (length dims))
      tadShapeInfo tadOffs tadsZ m = parallel_for R body ?n m"
    using k tad_numbers_eq [OF t(15,16,2)] t(13) tz(13) dy(1)
    by (simp add: broadcast_exec_def assms(1,2) info_simps body_def [abs_def])
  define inner where "inner i f = op_cell opf (at_coord x stx (tensor_coords sh dims i f))
      (at_coord y sty (c_coords shy f)) (at_coord z stz (tensor_coords sh dims i f))" for i f
  have outer: "body i m' = mfor (inner i) [0..?P - 1] m'" if i: "i \<in> set [0..?n - 1]" for i m'
  proof -
    have rdi: "rd offs i = Some (offs ! nat i)" "rd offsZ i = Some (offsZ ! nat i)"
      using t(14) tz(14) i by (auto intro: rd_Some)
    have strided: "broadcast_tad_strided opf (moved x (offs ! nat i)) e y ey (moved z (offsZ ! nat i)) ez' ?P m' =
        mfor (inner i) [0..?P - 1] m'" if "e > 0" "ey > 0" "ez' > 0"
    proof -
      have pos: "1 \<le> e" "1 \<le> ey" "1 \<le> ez'" using that by simp_all
      have at: "moved (moved x (offs ! nat i)) (f * e) = at_coord x stx (tensor_coords sh dims i f)"
        "moved (moved z (offsZ ! nat i)) (f * ez') = at_coord z stz (tensor_coords sh dims i f)"
        "moved y (f * ey) = at_coord y sty (c_coords shy f)"
        "i32 (f * e) = Some (f * e)" "i32 (f * ez') = Some (f * ez')" "i32 (f * ey) = Some (f * ey)"
        if "f \<in> set [0..?P - 1]" for f
        using tensor_plain_stride [OF assms(3,4) pos(1) assms(5) i that] tensor_plain_stride [OF assms(6,7) pos(3) assms(8) i that]
          tensor_stride(2) [OF assms(3,4) pos(1) i that] tensor_stride(2) [OF assms(6,7) pos(3) i that]
          spread_stride [OF assms(9) pos(2)] that assms(10) by simp_all
      show ?thesis
      proof (cases "e = 1 \<and> ey = 1 \<and> ez' = 1")
        case True
        have "mfor (\<lambda>f. op_cell opf (moved (moved x (offs ! nat i)) f) (moved y f) (moved (moved z (offsZ ! nat i)) f)) [0..?P - 1] m' =
          mfor (inner i) [0..?P - 1] m'"
          using at(1-3) True by (intro mfor_cong) (simp_all add: inner_def)
        then show ?thesis using True by (simp add: broadcast_tad_strided_def)
      next
        case False
        have "mfor (\<lambda>f m. do {
            k \<leftarrow> i32 (f * ez');
            i' \<leftarrow> i32 (f * e);
            j \<leftarrow> i32 (f * ey);
            op_cell opf (moved (moved x (offs ! nat i)) i') (moved y j) (moved (moved z (offsZ ! nat i)) k) m }) [0..?P - 1] m' =
          mfor (inner i) [0..?P - 1] m'"
          using at by (intro mfor_cong) (simp_all add: inner_def)
        then show ?thesis using False by (auto simp: broadcast_tad_strided_def)
      qed
    qed
    have coords: "broadcast_tad_coords opf x (mk_info S T o1 e c) (offs ! nat i) y (mk_info shy sty offy ey oy) z
        (mk_info Sz Tz o2 ez' cz) (offsZ ! nat i) ?P m' = mfor (inner i) [0..?P - 1] m'"
    proof -
      have "mfor (\<lambda>f m. do {
          xOffset \<leftarrow> offset_in_order (to_char c = 99) (int (length S)) (S @ T @ [o1, e, c]) (T @ [o1, e, c]) (offs ! nat i) f;
          yOffset \<leftarrow> offset_in_order (to_char c = 99) (int (length shy)) (shy @ sty @ [offy, ey, oy]) (sty @ [offy, ey, oy]) 0 f;
          zOffset \<leftarrow> offset_in_order (to_char cz = 99) (int (length Sz)) (Sz @ Tz @ [o2, ez', cz]) (Tz @ [o2, ez', cz]) (offsZ ! nat i) f;
          op_cell opf (moved x xOffset) (moved y yOffset) (moved z zOffset) m }) [0..?P - 1] m' =
        mfor (inner i) [0..?P - 1] m'"
      proof (rule mfor_cong)
        fix f m0 assume f: "f \<in> set [0..?P - 1]"
        then have "f \<in> set [0..prod_list shy - 1]" using assms(10) by simp
        from tensor_plain_offset [OF assms(3,5) refl i f] tensor_plain_offset [OF assms(6,8) refl i f]
          spread_offset [OF assms(9) this refl]
        show "(do {
          xOffset \<leftarrow> offset_in_order (to_char c = 99) (int (length S)) (S @ T @ [o1, e, c]) (T @ [o1, e, c]) (offs ! nat i) f;
          yOffset \<leftarrow> offset_in_order (to_char c = 99) (int (length shy)) (shy @ sty @ [offy, ey, oy]) (sty @ [offy, ey, oy]) 0 f;
          zOffset \<leftarrow> offset_in_order (to_char cz = 99) (int (length Sz)) (Sz @ Tz @ [o2, ez', cz]) (Tz @ [o2, ez', cz]) (offsZ ! nat i) f;
          op_cell opf (moved x xOffset) (moved y yOffset) (moved z zOffset) m0 }) = inner i f m0"
          using tensor_position(1) [OF assms(3) i f] tensor_position(1) [OF assms(6) i f]
          by (simp add: inner_def at_coord_def [of y])
      qed simp_all
      then show ?thesis
        using t(13) tz(13) dy(1) by (simp add: broadcast_tad_coords_def info_simps)
    qed
    show ?thesis using strided coords by (simp add: body_def rdi)
  qed
  have inner: "inner i f m' = store m' (at_coord z stz (tensor_coords sh dims i (id f)))
      (opf (cell m (at_coord x stx (tensor_coords sh dims i (id f)))) (cell m (at_coord y sty (c_coords shy (id f)))))"
    if "i \<in> set [0..?n - 1]" "f \<in> set [0..?P - 1]"
      "same_but m m' (at_coord z stz ` {c. in_box sh c \<and> c \<noteq> tensor_coords sh dims i (id f)})" for i f m'
  proof -
    have x: "load m' (at_coord x stx (tensor_coords sh dims i f)) = Some (cell m (at_coord x stx (tensor_coords sh dims i f)))"
      using load_source [OF t(1) assms(12) tensor_box [OF assms(3) that(1,2)]] that(3) by simp
    have box: "in_box shy (c_coords shy f)" using c_coords_in_box [OF dy(2)] that(2) assms(10) by simp
    have "at_coord y sty (c_coords shy f) \<notin> at_coord z stz ` {c. in_box sh c \<and> c \<noteq> tensor_coords sh dims i (id f)}"
    proof
      assume "at_coord y sty (c_coords shy f) \<in> at_coord z stz ` {c. in_box sh c \<and> c \<noteq> tensor_coords sh dims i (id f)}"
      then obtain d where "in_box sh d" "at_coord y sty (c_coords shy f) = at_coord z stz d" by blast
      then show False using assms(14) [OF _ box, of d] by simp
    qed
    from same_but_load [OF that(3) array_at_valid(1) [OF y box] this]
    show ?thesis using x by (simp add: inner_def op_cell_def)
  qed
  have "bij_betw id (set [0..?P - 1]) (set [0..?P - 1])" by (rule bij_betw_id)
  from tensor_loop [where g = id and v = "\<lambda>i j. opf (cell m (at_coord x stx (tensor_coords sh dims i j))) (cell m (at_coord y sty (c_coords shy j)))",
      OF tz(1) assms(11) t(2,3) assms(13) this outer inner]
  show ?thesis unfolding run by simp
qed

text \<open>A row added to every row of a matrix, in place, with the tensors of a new \<open>TAD\<close>.\<close>

theorem broadcast_exec_elementwise_witness:
  "\<exists>m'. broadcast_exec example_runtime (+) (0, 0) (mk_info [2, 2] [2, 1] 0 1 99) (1, 0) (mk_info [1, 2] [2, 1] 0 1 99) (0, 0) [1] 1
      None None None ((\<lambda>_. [])(0 := [1, 2, 3, 4 :: int], 1 := [10, 20])) = Some m' \<and> cell m' (0, 2) = 13"
proof -
  let ?m = "(\<lambda>_. [])(0 := [1, 2, 3, 4 :: int], 1 := [10, 20])"
  have sh: "pos_shape [2, 2]" by simp
  have count: "tad_count [2, 2] [1] = 2" "tad_prod [2, 2] [1] = 2" by (simp_all add: tad_count_def tad_prod_def)
  have x: "array_at ?m (0, 0) [2, 2] [2, 1] 1 99" and y: "array_at ?m (1, 0) [1, 2] [2, 1] 1 99"
    by (simp_all add: array_at_def ews_right_def small_shape_def extent_def order_coords_def upto.simps)
  have two: "i = 0 \<or> i = 1" if "0 \<le> i" "i < 2" for i :: int using that by linarith
  have "[0, 2] ! nat i + dot (c_coords [1, 2] j) [1, 1] = dot (tensor_coords [2, 2] [1] i j) [2, 1 :: int]"
    if "0 \<le> i" "i < 2" "0 \<le> j" "j < 2" for i j :: int
    using two [OF that(1,2)] two [OF that(3,4)] by (elim disjE; hypsubst; code_simp)
  then have "tensors_at [2, 2] [2, 1] [1] [1, 2] [1, 1] [0, 2]"
    by (simp add: tensors_at_def permutable_def dims_ok_def small_shape_def count)
  then have t: "tensor_operand ?m (0, 0) [2, 2] [2, 1] 1 99 [1] [1, 2] [1, 1] [0, 2]"
    using x by (simp add: tensor_operand_def index_set_def)
  have e: "ews_right [1, 2] [1, 1] 1 102" by (simp add: ews_right_def order_coords_def f_coords_def upto.simps)
  have "spread_operand ?m (1, 0) [1, 2] [2, 1] 1 99 102" using y by (simp add: spread_operand_def one_axis_def)
  moreover have "separate [2, 2] [2, 1]" by (simp add: separate_iff [OF sh] upto.simps)
  moreover have "no_clash [2, 2] (0, 0) [2, 1] (0, 0) [2, 1]"
    by (simp add: no_clash_iff [OF sh] upto.simps at_coord_def moved_def)
  moreover have "tads_for (mk_info [2, 2] [2, 1] 0 1 99) None None [1] (int (length [1 :: int])) = Some (mk_info [1, 2] [1, 1] 0 1 102, [0, 2], True)"
    by code_simp
  ultimately have "\<exists>m'. broadcast_exec example_runtime (+) (0, 0) (mk_info [2, 2] [2, 1] 0 1 99) (1, 0) (mk_info [1, 2] [2, 1] 0 1 99)
      (0, 0) [1] (int (length [1 :: int])) None None None ?m = Some m' \<and>
    same_but ?m m' (at_coord (0, 0) [2, 1] ` {c. in_box [2, 2] c}) \<and>
    (\<forall>i j. 0 \<le> i \<and> i < tad_count [2, 2] [1] \<and> 0 \<le> j \<and> j < tad_prod [2, 2] [1] \<longrightarrow>
      cell m' (at_coord (0, 0) [2, 1] (tensor_coords [2, 2] [1] i j)) =
      cell ?m (at_coord (0, 0) [2, 1] (tensor_coords [2, 2] [1] i j)) + cell ?m (at_coord (1, 0) [2, 1] (c_coords [1, 2] j)))"
    using t e
    by (intro broadcast_exec_elementwise [where S = "[1, 2]" and T = "[1, 1]" and e = 1 and c = 102 and offs = "[0, 2]" and oz = 99
          and Sz = "[1, 2]" and Tz = "[1, 1]" and ez' = 1 and cz = 102 and offsZ = "[0, 2]" and ez = 1 and go = True and ?o1.0 = 0 and ?o2.0 = 0]
        example_runtime_ok)
      (simp_all add: one_axis_def count at_coord_def moved_def)
  then obtain m' where m': "broadcast_exec example_runtime (+) (0, 0) (mk_info [2, 2] [2, 1] 0 1 99) (1, 0) (mk_info [1, 2] [2, 1] 0 1 99)
      (0, 0) [1] 1 None None None ?m = Some m'"
    "cell m' (at_coord (0, 0) [2, 1] (tensor_coords [2, 2] [1] 1 0)) =
      cell ?m (at_coord (0, 0) [2, 1] (tensor_coords [2, 2] [1] 1 0)) + cell ?m (at_coord (1, 0) [2, 1] (c_coords [1, 2] 0))"
    by (auto simp: count)
  moreover have "at_coord (0, 0) [2, 1] (tensor_coords [2, 2] [1] 1 0) = (0, 2)" "at_coord (1, 0) [2, 1] (c_coords [1, 2] 0) = (1, 0)"
    by code_simp+
  ultimately have "cell m' (0, 2) = 13" by (simp add: cell_def)
  then show ?thesis using m'(1) by blast
qed

text \<open>
  A column-major array and a row-major result: input and result are traversed in their own orders, so that the sum of
  two matrices comes out transposed.
\<close>

lemma broadcast_mixed_orders:
  "(do { (info, offsets, _) \<leftarrow> tads_for (mk_info [2, 2, 1] [1, 2, 4] 0 1 102) None None [0, 1] 2;
         tadsZ \<leftarrow> tads_for (mk_info [2, 2, 1] [2, 1, 1] 0 1 99) None None [0, 1] 2;
         m \<leftarrow> broadcast_exec example_runtime (+) (0, 0) (mk_info [2, 2, 1] [1, 2, 4] 0 1 102) (1, 0) (mk_info [2, 2] [2, 1] 0 1 99)
           (2, 0) [0, 1] 2 (Some info) (Some offsets) (Some (fst tadsZ, fst (snd tadsZ)))
           ((\<lambda>_. [])(0 := [1, 2, 3, 4 :: int], 1 := [10, 20, 30, 40], 2 := [0, 0, 0, 0]));
         Some (m 2) }) = Some [11, 32, 23, 44]"
  by code_simp

end
