(* ===== verification/TransformLoops.thy ===== *)
theory TransformLoops
  imports ScalarLoops
begin

text \<open>
  Transforms of one array (\<open>include/loops/transform.h\<close>): an operation on every element. The operation is an argument, and
  so is \<open>execSpecial\<close> of the operations that do not work element by element.
\<close>

section \<open>The code\<close>

text \<open>\<open>result[k] = OpType::op(dx[i], extraParams)\<close>.\<close>

definition transform_cell :: "('t \<Rightarrow> 't) \<Rightarrow> position \<Rightarrow> position \<Rightarrow> 't buffers \<Rightarrow> 't buffers option" where
  "transform_cell f dx result m = do { a \<leftarrow> load m dx; store m result (f a) }"

definition transform_indexes :: "runtime \<Rightarrow> ('t \<Rightarrow> 't) \<Rightarrow> position \<Rightarrow> int list \<Rightarrow> position \<Rightarrow> int list \<Rightarrow> int list \<Rightarrow>
    't buffers \<Rightarrow> 't buffers option" where
  "transform_indexes R f dx xShapeInfo result indexes resultIndexes m = do {
     n \<leftarrow> shape_length xShapeInfo;
     parallel_for R (\<lambda>i m. do {
       k \<leftarrow> rd resultIndexes i;
       j \<leftarrow> rd indexes i;
       transform_cell f (moved dx j) (moved result k) m }) (to_int n) m }"

text \<open>
  Here the bounds of the threads are ints, unlike in the pairwise loops. The index is \<open>Nd4jIndex\<close>, so its product with
  a stride has 64 bits.
\<close>

definition thread_region_int :: "runtime \<Rightarrow> (int \<Rightarrow> 's \<Rightarrow> 's option) \<Rightarrow> int \<Rightarrow> int \<Rightarrow> int \<Rightarrow> 's \<Rightarrow> 's option" where
  "thread_region_int R body span threads n s = do {
     parts \<leftarrow> those (map (\<lambda>tid. do {
         start \<leftarrow> i32 (span * tid);
         end' \<leftarrow> i32 (span * (tid + 1));
         Some [start..(if end' > n then n else end') - 1] }) [0..omp_team R threads - 1]);
     mfor body (omp_schedule R (concat parts)) s }"

definition transform_strided :: "runtime \<Rightarrow> ('t \<Rightarrow> 't) \<Rightarrow> position \<Rightarrow> int \<Rightarrow> position \<Rightarrow> int \<Rightarrow> int \<Rightarrow> 't buffers \<Rightarrow> 't buffers option" where
  "transform_strided R f dx xStride result resultStride n m = do {
     threads \<leftarrow> thread_count R n (elementwiseThreshold R);
     q \<leftarrow> div32 n threads;
     span \<leftarrow> i32 (q + 8);
     if xStride = 1 \<and> resultStride = 1
     then thread_region_int R (\<lambda>i. transform_cell f (moved dx i) (moved result i)) span threads n m
     else thread_region_int R (\<lambda>i m. do {
       k \<leftarrow> i64 (i * resultStride);
       j \<leftarrow> i64 (i * xStride);
       transform_cell f (moved dx j) (moved result k) m }) span threads n m }"

definition transform_exec :: "runtime \<Rightarrow> ('t \<Rightarrow> 't) \<Rightarrow> ('t buffers \<Rightarrow> 't buffers option) option \<Rightarrow> position \<Rightarrow> int list \<Rightarrow> position \<Rightarrow>
    int list \<Rightarrow> 't buffers \<Rightarrow> 't buffers option" where
  "transform_exec R f special dx xShapeInfo result resultShapeInfo m = (case special of
     Some g \<Rightarrow> g m
   | None \<Rightarrow> do {
       n \<leftarrow> shape_length xShapeInfo;
       xEws \<leftarrow> shape_ews xShapeInfo;
       resultEws \<leftarrow> shape_ews resultShapeInfo;
       xOrder \<leftarrow> shape_order xShapeInfo;
       resultOrder \<leftarrow> shape_order resultShapeInfo;
       if xEws \<ge> 1 \<and> resultEws \<ge> 1 \<and> xOrder = resultOrder then transform_strided R f dx xEws result resultEws (to_int n) m
       else do {
         xShape \<leftarrow> shapeOf xShapeInfo;
         xStride \<leftarrow> shape_stride xShapeInfo;
         resultStride \<leftarrow> shape_stride resultShapeInfo;
         rnk \<leftarrow> shape_rank xShapeInfo;
         it \<leftarrow> PrepareTwoRawArrayIter rnk xShape [snd dx, snd result] [xStride, resultStride]
           (replicate 32 undefined) (replicate 2 (replicate 32 undefined));
         raw_iterate (\<lambda>ps. case ps of [px, pz] \<Rightarrow> transform_cell f (fst dx, px) (fst result, pz) | _ \<Rightarrow> \<lambda>_. None) it m } })"

section \<open>Lemmas\<close>

lemma transform_cell_eq: "transform_cell f x z = scalar_cell (\<lambda>a _. f a) undefined x z"
  by (simp add: fun_eq_iff transform_cell_def scalar_cell_def)

lemma thread_region_int_eq:
  assumes "0 < span" "span * threads \<le> 2147483647" "omp_team R threads = threads"
  shows "thread_region_int R body span threads n s = thread_region R body span threads n s"
proof -
  have "(do { start \<leftarrow> i32 (span * tid); end' \<leftarrow> i32 (span * (tid + 1)); Some [start..(if end' > n then n else end') - 1] }) =
      (do { start \<leftarrow> i64 (span * tid); end' \<leftarrow> i64 (span * (tid + 1)); Some [start..(if end' > n then n else end') - 1] })"
    if "tid \<in> set [0..threads - 1]" for tid
  proof -
    have "0 \<le> span * tid" "span * tid \<le> span * threads" "0 \<le> span * (tid + 1)" "span * (tid + 1) \<le> span * threads"
      using assms(1) that by simp_all
    then show ?thesis using assms(2) by (simp add: i32_def i64_def)
  qed
  then have "map (\<lambda>tid. do { start \<leftarrow> i32 (span * tid); end' \<leftarrow> i32 (span * (tid + 1));
        Some [start..(if end' > n then n else end') - 1] }) [0..threads - 1] =
      map (\<lambda>tid. do { start \<leftarrow> i64 (span * tid); end' \<leftarrow> i64 (span * (tid + 1));
        Some [start..(if end' > n then n else end') - 1] }) [0..threads - 1]"
    by (rule map_cong [OF refl])
  then show ?thesis by (simp only: thread_region_int_def thread_region_def assms(3))
qed

lemma transform_strided_ok:
  assumes "unary_operands m sh x stx ex ox z stz ez oz" "runtime_ok R" "1 \<le> ex" "1 \<le> ez" "oz = ox"
    and "prod_list sh + 8 * omp_max_threads R \<le> 2147483647"
  shows "\<exists>m'. transform_strided R f x ex z ez (prod_list sh) m = Some m' \<and> unary_done f m sh x stx z stz m'"
proof -
  have ops: "array_at m x sh stx ex ox" "array_at m z sh stz ez oz" "pos_shape sh" "prod_list sh \<le> 2147483647"
    using assms(1) by (simp_all add: unary_operands_def array_at_def small_shape_def)
  let ?n = "prod_list sh"
  have n: "1 \<le> ?n" using prod_list_ge1 [OF ops(3)] .
  obtain threads where th: "thread_count R ?n (elementwiseThreshold R) = Some threads" "1 \<le> threads"
    "threads \<le> omp_max_threads R" "omp_team R threads = threads"
    using thread_count_ok [OF assms(2), of ?n "elementwiseThreshold R"] n ops(4) assms(2) by (auto simp: runtime_ok_def)
  define span where "span = ?n div threads + 8"
  have e: "?n div threads * threads + ?n mod threads = ?n" by (rule div_mult_mod_eq)
  have q: "0 \<le> ?n div threads" "0 \<le> ?n mod threads" "?n mod threads < threads"
    using n th(2) by (simp_all add: pos_imp_zdiv_nonneg_iff)
  have span: "0 < span" "?n \<le> span * threads" "span * threads \<le> 2147483647"
  proof -
    have f: "span * threads = ?n div threads * threads + 8 * threads" by (simp only: span_def distrib_right)
    show "0 < span" using q(1) by (simp add: span_def)
    show "?n \<le> span * threads" unfolding f using e q(3) th(2) by linarith
    show "span * threads \<le> 2147483647" unfolding f using e q(2) th(3) assms(6) by linarith
  qed
  have "i32 (?n div threads + 8) = Some span"
  proof -
    have "span \<le> span * threads" using span(1) th(2) mult_left_mono [of 1 threads span] by simp
    then have "span \<le> 2147483647" using span(3) by (rule order_trans)
    then have "i32 span = Some span" using span by (simp add: i32_def)
    then show ?thesis by (simp only: span_def)
  qed
  moreover have "div32 ?n threads = Some (?n div threads)" using n th(2) ops(4) by (simp add: div32_nonneg)
  moreover define body where "body = (if ex = 1 \<and> ez = 1
      then (\<lambda>i. transform_cell f (moved x i) (moved z i))
      else (\<lambda>i m. do {
        k \<leftarrow> i64 (i * ez);
        j \<leftarrow> i64 (i * ex);
        transform_cell f (moved x j) (moved z k) m }))"
  ultimately have run: "transform_strided R f x ex z ez ?n m = thread_region R body span threads ?n m"
    using th(1) by (simp add: transform_strided_def thread_region_int_eq [OF span(1,3) th(4)])
  have "span * (threads + 1) \<le> 9223372036854775807"
  proof -
    have "span \<le> span * threads" using span(1) th(2) mult_left_mono [of 1 threads span] by simp
    then show ?thesis using span(3) by (simp add: algebra_simps)
  qed
  then obtain xs where xs: "thread_region R body span threads ?n m = mfor body xs m" "distinct xs" "set xs = set [0..?n - 1]"
    using thread_region_eq [OF span(1) _ span(2) _ assms(2) th(4), of body m] th(2) by auto
  have body: "body i m' = scalar_cell (\<lambda>a _. f a) undefined (at_coord x stx (order_coords ox sh i)) (at_coord z stz (order_coords ox sh i)) m'"
    if "i \<in> set [0..?n - 1]" for i m'
    using ews_wide [OF ops(1) assms(3) that] ews_wide [OF ops(2) assms(4) that]
      array_at_ews [OF ops(1) assms(3) that] array_at_ews [OF ops(2) assms(4) that] assms(5)
    by (auto simp: body_def transform_cell_eq)
  have "\<exists>m'. mfor body xs m = Some m' \<and> unary_done f m sh x stx z stz m'"
    using body xs(3) order_coords_bij [OF ops(3), of ox]
      unary_loop [OF assms(1) xs(2), where opf = "\<lambda>a _. f a" and s = undefined and c = "order_coords ox sh"]
    by (simp only: xs(3))
  then show ?thesis unfolding run xs(1) .
qed

section \<open>Properties\<close>

text \<open>C40: A transform of an array computes every element of the result from the element with the same coordinates and
  changes nothing else, for all strides and orders, also in place, for every division of the loop among threads whose
  bounds are ints.\<close>

theorem transform_exec_elementwise:
  assumes "unary_operands m sh x stx ex ox z stz ez oz" "runtime_ok R"
    and "prod_list sh + 8 * omp_max_threads R \<le> 2147483647"
  shows "\<exists>m'. transform_exec R f None x (mk_info sh stx fx ex ox) z (mk_info sh stz fz ez oz) m = Some m' \<and>
    (\<forall>c. in_box sh c \<longrightarrow> cell m' (at_coord z stz c) = f (cell m (at_coord x stx c))) \<and>
    same_but m m' (at_coord z stz ` {c. in_box sh c})"
proof -
  have ops: "array_at m x sh stx ex ox" "array_at m z sh stz ez oz" "pos_shape sh" "prod_list sh \<le> 2147483647"
    using assms(1) by (simp_all add: unary_operands_def array_at_def small_shape_def)
  have orders: "to_char ox = ox" "to_char oz = oz" using ops(1,2) by (auto simp: array_at_def to_char_def)
  note dims = array_at_dims [OF ops(1)] array_at_dims [OF ops(2)]
  have n: "to_int (prod_list sh) = prod_list sh" using prod_list_ge1 [OF ops(3)] ops(4) by (simp add: to_int_id)
  let ?X = "mk_info sh stx fx ex ox" and ?Z = "mk_info sh stz fz ez oz"
  have "\<exists>m'. transform_exec R f None x ?X z ?Z m = Some m' \<and> unary_done f m sh x stx z stz m'"
  proof (cases "ex \<ge> 1 \<and> ez \<ge> 1 \<and> ox = oz")
    case True
    then have "transform_exec R f None x ?X z ?Z m = transform_strided R f x ex z ez (prod_list sh) m"
      using ops dims n by (simp add: transform_exec_def info_simps)
    then show ?thesis using transform_strided_ok [OF assms(1,2) _ _ _ assms(3)] True by simp
  next
    case False
    then show ?thesis
      using scalar_raw_ok [OF assms(1), of fx fz "\<lambda>a _. f a" undefined] dims ops
      by (auto simp: transform_exec_def info_simps orders transform_cell_eq)
  qed
  then show ?thesis by (auto simp: unary_done_def results_def)
qed

text \<open>A column-major matrix, negated into a row-major one.\<close>

theorem transform_exec_elementwise_witness:
  "\<exists>m'. transform_exec example_runtime uminus None (0, 0) (mk_info [2, 2] [1, 2] 0 1 102) (0, 4) (mk_info [2, 2] [2, 1] 0 1 99)
      ((\<lambda>_. [])(0 := [1, 2, 3, 4, 0, 0, 0, 0 :: int])) = Some m' \<and> cell m' (0, 5) = - 3"
proof -
  let ?m = "(\<lambda>_. [])(0 := [1, 2, 3, 4, 0, 0, 0, 0 :: int])"
  have sh: "pos_shape [2, 2]" by simp
  have "array_at ?m (0, 0) [2, 2] [1, 2] 1 102" "array_at ?m (0, 4) [2, 2] [2, 1] 1 99"
    by (simp_all add: array_at_def ews_right_def small_shape_def extent_def order_coords_def f_coords_def upto.simps)
  moreover have "separate [2, 2] [2, 1]" by (simp add: separate_iff [OF sh] upto.simps)
  moreover have "no_clash [2, 2] (0, 4) [2, 1] (0, 0) [1, 2]"
    by (simp add: no_clash_iff [OF sh] upto.simps at_coord_def moved_def)
  ultimately have "unary_operands ?m [2, 2] (0, 0) [1, 2] 1 102 (0, 4) [2, 1] 1 99"
    by (simp add: unary_operands_def)
  from transform_exec_elementwise [OF this example_runtime_ok, where f = uminus and fx = 0 and fz = 0]
  obtain m' where m': "transform_exec example_runtime uminus None (0, 0) (mk_info [2, 2] [1, 2] 0 1 102) (0, 4)
      (mk_info [2, 2] [2, 1] 0 1 99) ?m = Some m'"
    "\<forall>c. in_box [2, 2] c \<longrightarrow> cell m' (at_coord (0, 4) [2, 1] c) = - cell ?m (at_coord (0, 0) [1, 2] c)"
    by (auto simp: example_runtime_def)
  then have "cell m' (0, 5) = - 3"
    using spec [OF m'(2), of "[0, 1]"] by (simp add: at_coord_def moved_def cell_def)
  then show ?thesis using m'(1) by blast
qed

text \<open>
  The bounds of the threads are computed in \<open>int\<close>: with a length close to the largest int the end of the last thread
  overflows, although the loop would have stopped at the length.
\<close>

lemma transform_bounds_overflow:
  assumes "omp_max_threads R = 2" "omp_team R 2 = 2" "elementwiseThreshold R = 1000"
  shows "transform_strided R f x 1 z 1 2147483647 m = None"
proof -
  have "thread_count R 2147483647 1000 = Some 2" by (simp add: thread_count_def assms(1) div64_nonneg to_int_id)
  moreover have "[0..1] = [0, 1 :: int]" by (simp add: upto.simps)
  ultimately show ?thesis
    by (simp add: transform_strided_def assms(2,3) div32_nonneg thread_region_int_def i32_def)
qed

end
