(* ===== verification/Heap.thy ===== *)
theory Heap
  imports Prelude
begin

text \<open>
  The C heap as the workspaces use it: blocks with a size, \<open>malloc\<close>, which returns a fresh block or
  the null pointer, and \<open>free\<close>, which is undefined on anything but a live block or null. The locale
  \<open>allocator\<close> is the contract of a function that hands out memory regions.
\<close>

section \<open>Blocks\<close>

text \<open>\<open>h_room\<close> bounds what \<open>malloc\<close> can still give; beyond it \<open>malloc\<close> answers null.\<close>

record heap =
  h_live :: "nat \<Rightarrow> int option"
  h_fresh :: nat
  h_room :: int

definition malloc :: "heap \<Rightarrow> int \<Rightarrow> nat option \<times> heap" where
  "malloc h n =
     (if 0 \<le> n \<and> n \<le> h_room h
      then (Some (h_fresh h), h\<lparr>h_live := (h_live h)(h_fresh h \<mapsto> n), h_fresh := Suc (h_fresh h),
                                h_room := h_room h - n\<rparr>)
      else (None, h))"

definition free :: "heap \<Rightarrow> nat option \<Rightarrow> heap option" where
  "free h p = (case p of None \<Rightarrow> Some h
     | Some b \<Rightarrow> (case h_live h b of None \<Rightarrow> None
         | Some n \<Rightarrow> Some (h\<lparr>h_live := (h_live h)(b := None), h_room := h_room h + n\<rparr>)))"

definition heap_ok :: "heap \<Rightarrow> bool" where
  "heap_ok h \<longleftrightarrow> (\<forall>b. h_live h b \<noteq> None \<longrightarrow> b < h_fresh h) \<and> (\<forall>b n. h_live h b = Some n \<longrightarrow> 0 \<le> n)"

text \<open>The contract of giving objects back: what is live can be released once.\<close>

locale disposal =
  fixes release :: "'h \<Rightarrow> nat \<Rightarrow> 'h option"
    and ok :: "'h \<Rightarrow> bool"
    and live :: "'h \<Rightarrow> nat \<Rightarrow> 'v option"
  assumes release_live: "ok h \<Longrightarrow> live h b \<noteq> None \<Longrightarrow>
      \<exists>h'. release h b = Some h' \<and> live h' = (live h)(b := None) \<and> ok h'"
    and release_dead: "live h b = None \<Longrightarrow> release h b = None"
begin

text \<open>Releasing a list of distinct live objects.\<close>

lemma release_all:
  assumes "ok h" "distinct bs" "\<And>b. b \<in> set bs \<Longrightarrow> live h b \<noteq> None"
  shows "\<exists>h'. mfor (\<lambda>b h. release h b) bs h = Some h' \<and> ok h' \<and>
    live h' = (\<lambda>b. if b \<in> set bs then None else live h b)"
  using assms
proof (induction bs arbitrary: h)
  case (Cons b bs)
  obtain h1 where h1: "release h b = Some h1" "live h1 = (live h)(b := None)" "ok h1"
    using release_live [of h b] Cons.prems by auto
  have "\<exists>h'. mfor (\<lambda>b h. release h b) bs h1 = Some h' \<and> ok h' \<and>
      live h' = (\<lambda>b. if b \<in> set bs then None else live h1 b)"
    using Cons.prems h1 by (intro Cons.IH) auto
  then show ?case using h1 by (auto simp: fun_eq_iff)
qed auto

text \<open>No list that names an object twice, or one that is not live, can be released.\<close>

lemma release_all_Some:
  assumes "ok h" "mfor (\<lambda>b h. release h b) bs h = Some h'"
  shows "distinct bs \<and> (\<forall>b\<in>set bs. live h b \<noteq> None)"
  using assms
proof (induction bs arbitrary: h)
  case (Cons b bs)
  then obtain h1 where r: "release h b = Some h1" "mfor (\<lambda>b h. release h b) bs h1 = Some h'"
    by (auto split: bind_splits)
  then have b: "live h b \<noteq> None" using release_dead [of h b] by auto
  then have h1: "live h1 = (live h)(b := None)" "ok h1"
    using release_live [OF Cons.prems(1) b] r(1) by auto
  then show ?case using Cons.IH [OF h1(2) r(2)] b by (auto split: if_splits)
qed simp

lemma release_all_iff:
  "ok h \<Longrightarrow> mfor (\<lambda>b h. release h b) bs h \<noteq> None \<longleftrightarrow> distinct bs \<and> (\<forall>b\<in>set bs. live h b \<noteq> None)"
  using release_all [of h bs] release_all_Some [of h bs] by blast

end

text \<open>The laws the clients of the C heap rely on.\<close>

locale heap_laws =
  fixes alloc :: "heap \<Rightarrow> int \<Rightarrow> nat option \<times> heap"
    and release :: "heap \<Rightarrow> nat option \<Rightarrow> heap option"
    and ok :: "heap \<Rightarrow> bool"
    and live :: "heap \<Rightarrow> nat \<Rightarrow> int option"
  assumes alloc_live: "ok h \<Longrightarrow> alloc h n = (Some b, h') \<Longrightarrow>
      live h b = None \<and> live h' = (live h)(b \<mapsto> n) \<and> ok h' \<and> 0 \<le> n"
    and alloc_null: "alloc h n = (None, h') \<Longrightarrow> h' = h"
    and release_block: "ok h \<Longrightarrow> live h b \<noteq> None \<Longrightarrow>
      \<exists>h'. release h (Some b) = Some h' \<and> live h' = (live h)(b := None) \<and> ok h'"
    and release_twice: "live h b = None \<Longrightarrow> release h (Some b) = None"
    and release_null: "release h None = Some h"
begin

lemma alloc_keeps: "ok h \<Longrightarrow> alloc h n = (Some b, h') \<Longrightarrow> live h c = Some m \<Longrightarrow> live h' c = Some m"
  using alloc_live [of h n b h'] by (auto split: if_splits)

lemma alloc_distinct: "ok h \<Longrightarrow> alloc h n = (Some b, h') \<Longrightarrow> live h c = Some m \<Longrightarrow> b \<noteq> c"
  using alloc_live [of h n b h'] by auto

end

sublocale heap_laws \<subseteq> blocks: disposal "\<lambda>h b. release h (Some b)" ok live
  by unfold_locales (use release_block release_twice in auto)

interpretation c_heap: heap_laws malloc free heap_ok h_live
  by unfold_locales
    (auto simp: malloc_def free_def heap_ok_def less_Suc_eq split: if_splits option.splits)

section \<open>Regions\<close>

text \<open>A region: the block, the first byte, the number of bytes.\<close>

type_synonym region = "nat \<times> int \<times> int"

definition disjoint :: "region \<Rightarrow> region \<Rightarrow> bool" where
  "disjoint r r' = (case (r, r') of ((b, s, n), (b', s', n')) \<Rightarrow>
     b \<noteq> b' \<or> s + n \<le> s' \<or> s' + n' \<le> s)"

definition region_live :: "heap \<Rightarrow> region \<Rightarrow> bool" where
  "region_live h r = (case r of (b, s, n) \<Rightarrow>
     (case h_live h b of None \<Rightarrow> False | Some m \<Rightarrow> 0 \<le> s \<and> 0 < n \<and> s + n \<le> m))"

lemma disjoint_sym: "disjoint r r' = disjoint r' r"
  by (auto simp: disjoint_def split: prod.splits)

primrec pairwise_disjoint :: "region list \<Rightarrow> bool" where
  "pairwise_disjoint [] = True"
| "pairwise_disjoint (r # rs) \<longleftrightarrow> list_all (disjoint r) rs \<and> pairwise_disjoint rs"

text \<open>Serving a list of requests; it ends early when a request is refused.\<close>

primrec alloc_all :: "('s \<Rightarrow> int \<Rightarrow> (region \<times> 's) option) \<Rightarrow> 's \<Rightarrow> int list \<Rightarrow> (region list \<times> 's) option" where
  "alloc_all alloc s [] = Some ([], s)"
| "alloc_all alloc s (n # ns) = do {
     (r, s) \<leftarrow> alloc s n;
     (rs, s) \<leftarrow> alloc_all alloc s ns;
     Some (r # rs, s) }"

text \<open>The contract of an allocator: \<open>inv s R\<close> relates a state to the regions in use.\<close>

locale allocator =
  fixes inv :: "'s \<Rightarrow> region list \<Rightarrow> bool"
    and alloc :: "'s \<Rightarrow> int \<Rightarrow> (region \<times> 's) option"
  assumes alloc_inv: "inv s R \<Longrightarrow> alloc s n = Some (r, s') \<Longrightarrow> inv s' (r # R)"
    and alloc_length: "inv s R \<Longrightarrow> alloc s n = Some (r, s') \<Longrightarrow> snd (snd r) = n"
    and inv_disjoint: "inv s R \<Longrightarrow> pairwise_disjoint R"
begin

lemma alloc_all_inv:
  "inv s R \<Longrightarrow> alloc_all alloc s ns = Some (rs, s') \<Longrightarrow>
   inv s' (rev rs @ R) \<and> map (\<lambda>r. snd (snd r)) rs = ns"
proof (induction ns arbitrary: s R rs)
  case (Cons n ns)
  then obtain r s1 rs1 where "alloc s n = Some (r, s1)" "alloc_all alloc s1 ns = Some (rs1, s')" "rs = r # rs1"
    by (auto split: bind_splits)
  then show ?case
    using Cons.IH [of s1 "r # R" rs1] alloc_inv [OF Cons.prems(1)] alloc_length [OF Cons.prems(1)] by auto
qed auto

lemma pairwise_append:
  "pairwise_disjoint (xs @ ys) \<longleftrightarrow>
   pairwise_disjoint xs \<and> pairwise_disjoint ys \<and> (\<forall>x\<in>set xs. \<forall>y\<in>set ys. disjoint x y)"
  by (induction xs) (auto simp: list_all_iff)

lemma pairwise_rev: "pairwise_disjoint (rev xs) = pairwise_disjoint xs"
  by (induction xs) (auto simp: pairwise_append list_all_iff disjoint_sym)

lemma alloc_all_disjoint:
  assumes "inv s R" "alloc_all alloc s ns = Some (rs, s')"
  shows "pairwise_disjoint rs \<and> (\<forall>r\<in>set rs. \<forall>r'\<in>set R. disjoint r r')"
proof -
  have "pairwise_disjoint (rev rs @ R)"
    using alloc_all_inv [OF assms] inv_disjoint by blast
  then show ?thesis by (simp add: pairwise_append pairwise_rev)
qed

end

end
