(* ===== verification/Workspace.thy ===== *)
theory Workspace
  imports Heap
begin

text \<open>
  The CPU workspace (\<open>include/memory/cpu/Workspace.cpp\<close>): a bump allocator over one block,
  with spills to the heap when the block is full, that is regrown between cycles from the
  number of bytes the last cycle asked for. The operations change the pair of the C
  heap and the workspace; exceptions keep the state they leave behind.
\<close>

section \<open>The code\<close>

record workspace =
  ws_ptrHost :: "nat option"
  ws_allocatedHost :: bool
  ws_offset :: int
  ws_initialSize :: int
  ws_currentSize :: int
  ws_externalized :: bool
  ws_spills :: "nat list"
  ws_spillsSize :: int
  ws_cycleAllocations :: int

datatype MemoryType = HOST | DEVICE

type_synonym ws_state = "heap \<times> workspace"
type_synonym 'a ws_result = "((exn + 'a) \<times> ws_state) option"

text \<open>The constructor from external memory leaves the members without initialiser unset when the size is
  not positive.\<close>

definition new_Workspace_external :: "nat option \<Rightarrow> int \<Rightarrow> workspace" where
  "new_Workspace_external pointerHost sizeHost =
     (let w = \<lparr>ws_ptrHost = None, ws_allocatedHost = False, ws_offset = undefined, ws_initialSize = 0,
               ws_currentSize = 0, ws_externalized = False, ws_spills = [], ws_spillsSize = undefined,
               ws_cycleAllocations = undefined\<rparr> in
      if sizeHost > 0
      then w\<lparr>ws_ptrHost := pointerHost, ws_initialSize := sizeHost, ws_currentSize := sizeHost,
             ws_offset := 0, ws_cycleAllocations := 0, ws_spillsSize := 0, ws_externalized := True\<rparr>
      else w)"

definition new_Workspace :: "heap \<Rightarrow> int \<Rightarrow> (exn + workspace) \<times> heap" where
  "new_Workspace h initialSize =
     (let w = \<lparr>ws_ptrHost = None, ws_allocatedHost = False, ws_offset = 0, ws_initialSize = initialSize,
               ws_currentSize = initialSize, ws_externalized = False, ws_spills = [], ws_spillsSize = 0,
               ws_cycleAllocations = 0\<rparr> in
      if initialSize > 0
      then (case malloc h initialSize of
              (None, h) \<Rightarrow> (Inl Bad_alloc, h)
            | (Some p, h) \<Rightarrow> (Inr (w\<lparr>ws_ptrHost := Some p, ws_allocatedHost := True\<rparr>), h))
      else (Inr w, h))"

definition ws_init :: "ws_state \<Rightarrow> int \<Rightarrow> unit ws_result" where
  "ws_init s bytes = (case s of (h, w) \<Rightarrow>
     if ws_currentSize w < bytes then do {
       h \<leftarrow> (if ws_allocatedHost w \<and> \<not> ws_externalized w then free h (ws_ptrHost w) else Some h);
       (case malloc h bytes of
          (None, h) \<Rightarrow> Some (Inl Bad_alloc, h, w\<lparr>ws_ptrHost := None\<rparr>)
        | (Some p, h) \<Rightarrow> Some (Inr (), h, w\<lparr>ws_ptrHost := Some p, ws_currentSize := bytes,
                                          ws_allocatedHost := True\<rparr>)) }
     else Some (Inr (), s))"

definition expandBy :: "ws_state \<Rightarrow> int \<Rightarrow> unit ws_result" where
  "expandBy s numBytes = do { n \<leftarrow> i64 (ws_currentSize (snd s) + numBytes); ws_init s n }"

definition expandTo :: "ws_state \<Rightarrow> int \<Rightarrow> unit ws_result" where
  "expandTo s numBytes = ws_init s numBytes"

definition freeSpills :: "ws_state \<Rightarrow> ws_state option" where
  "freeSpills s = (case s of (h, w) \<Rightarrow>
     let w = w\<lparr>ws_spillsSize := 0\<rparr> in
     if length (ws_spills w) < 1 then Some (h, w)
     else do {
       h \<leftarrow> mfor (\<lambda>v h. free h (Some v)) (ws_spills w) h;
       Some (h, w\<lparr>ws_spills := []\<rparr>) })"

definition delete_Workspace :: "ws_state \<Rightarrow> heap option" where
  "delete_Workspace s = (case s of (h, w) \<Rightarrow> do {
     h \<leftarrow> (if ws_allocatedHost w \<and> \<not> ws_externalized w then free h (ws_ptrHost w) else Some h);
     s \<leftarrow> freeSpills (h, w);
     Some (fst s) })"

definition getCurrentOffset :: "workspace \<Rightarrow> int" where
  "getCurrentOffset w = ws_offset w"

definition getUsedSize :: "workspace \<Rightarrow> int" where
  "getUsedSize w = getCurrentOffset w"

definition getCurrentSize :: "workspace \<Rightarrow> int" where
  "getCurrentSize w = ws_currentSize w"

definition getSpilledSize :: "workspace \<Rightarrow> int" where
  "getSpilledSize w = ws_spillsSize w"

definition getAllocatedSize :: "workspace \<Rightarrow> int option" where
  "getAllocatedSize w = i64 (getCurrentSize w + getSpilledSize w)"

text \<open>A returned pointer is a block and a byte offset; offsetting the null pointer is undefined.\<close>

definition allocateBytes :: "ws_state \<Rightarrow> int \<Rightarrow> (nat \<times> int) ws_result" where
  "allocateBytes s numBytes = (case s of (h, w) \<Rightarrow>
     if numBytes < 1 then
       Some (Inl (Invalid_argument ''Number of bytes for allocation should be positive''), s)
     else do {
       let w = w\<lparr>ws_cycleAllocations := wrap64 (ws_cycleAllocations w + numBytes)\<rparr>;
       t \<leftarrow> i64 (ws_offset w + numBytes);
       if t > ws_currentSize w then
         (case malloc h numBytes of
            (None, h) \<Rightarrow> Some (Inl Bad_alloc, h, w)
          | (Some p, h) \<Rightarrow> Some (Inr (p, 0), h,
              w\<lparr>ws_spills := ws_spills w @ [p], ws_spillsSize := wrap64 (ws_spillsSize w + numBytes)\<rparr>))
       else do {
         b \<leftarrow> ws_ptrHost w;
         Some (Inr (b, ws_offset w), h, w\<lparr>ws_offset := wrap64 (ws_offset w + numBytes)\<rparr>) } })"

definition allocateBytes_type :: "ws_state \<Rightarrow> MemoryType \<Rightarrow> int \<Rightarrow> (nat \<times> int) ws_result" where
  "allocateBytes_type s type numBytes =
     (if type = DEVICE then Some (Inl (Thrown ''CPU backend doesn't have device memory''), s)
      else allocateBytes s numBytes)"

definition scopeIn :: "ws_state \<Rightarrow> unit ws_result" where
  "scopeIn s = do {
     s \<leftarrow> freeSpills s;
     (r, s) \<leftarrow> ws_init s (ws_cycleAllocations (snd s));
     (case r of Inl e \<Rightarrow> Some (Inl e, s)
      | Inr _ \<Rightarrow> Some (Inr (), fst s, (snd s)\<lparr>ws_cycleAllocations := 0\<rparr>)) }"

definition scopeOut :: "ws_state \<Rightarrow> ws_state" where
  "scopeOut s = (fst s, (snd s)\<lparr>ws_offset := 0\<rparr>)"

definition clone_Workspace :: "ws_state \<Rightarrow> (exn + workspace) \<times> heap" where
  "clone_Workspace s =
     new_Workspace (fst s) (max (getCurrentSize (snd s)) (ws_cycleAllocations (snd s)))"

section \<open>The invariant\<close>

text \<open>
  The spills are distinct live blocks, none of them the main block, and \<open>spillsSize\<close> is their size; the main
  block is live and large enough; sizes fit their types.
\<close>

definition ws_ok :: "ws_state \<Rightarrow> bool" where
  "ws_ok s = (case s of (h, w) \<Rightarrow> heap_ok h \<and>
     0 \<le> ws_offset w \<and> ws_offset w \<le> ws_currentSize w \<and> ws_currentSize w \<le> 9223372036854775807 \<and>
     (0 < ws_currentSize w \<longrightarrow> (\<exists>b m. ws_ptrHost w = Some b \<and> h_live h b = Some m \<and> ws_currentSize w \<le> m)) \<and>
     (ws_allocatedHost w \<longrightarrow> ws_ptrHost w \<noteq> None) \<and>
     (\<forall>b. ws_ptrHost w = Some b \<longrightarrow> b \<notin> set (ws_spills w) \<and> h_live h b \<noteq> None) \<and>
     distinct (ws_spills w) \<and> (\<forall>b\<in>set (ws_spills w). h_live h b \<noteq> None))"

text \<open>The regions handed out since the last \<open>scopeOut\<close> are disjoint and live, those in the main block lie
  below the offset, the others are whole spills.\<close>

definition ws_owns :: "ws_state \<Rightarrow> region list \<Rightarrow> bool" where
  "ws_owns s R = (ws_ok s \<and> pairwise_disjoint R \<and> (\<forall>r\<in>set R. region_live (fst s) r) \<and>
     (\<forall>(b, o', n)\<in>set R. (ws_ptrHost (snd s) = Some b \<and> o' + n \<le> ws_offset (snd s)) \<or> b \<in> set (ws_spills (snd s))))"

text \<open>A request that was served, as an allocator.\<close>

definition ws_alloc :: "ws_state \<Rightarrow> int \<Rightarrow> (region \<times> ws_state) option" where
  "ws_alloc s n = do {
     (r, s) \<leftarrow> allocateBytes s n;
     (case r of Inl _ \<Rightarrow> None | Inr (b, o') \<Rightarrow> Some ((b, o', n), s)) }"

text \<open>The three outcomes of a well-formed request.\<close>

lemma allocateBytes_cases:
  assumes "ws_ok (h, w)" "0 < n" "ws_offset w + n \<le> 9223372036854775807"
  obtains (refused) "allocateBytes (h, w) n =
      Some (Inl Bad_alloc, h, w\<lparr>ws_cycleAllocations := wrap64 (ws_cycleAllocations w + n)\<rparr>)"
    "ws_currentSize w < ws_offset w + n" "malloc h n = (None, h)"
  | (spilled) b h' where "allocateBytes (h, w) n =
      Some (Inr (b, 0), h', w\<lparr>ws_cycleAllocations := wrap64 (ws_cycleAllocations w + n),
        ws_spills := ws_spills w @ [b], ws_spillsSize := wrap64 (ws_spillsSize w + n)\<rparr>)"
    "malloc h n = (Some b, h')" "ws_currentSize w < ws_offset w + n"
  | (bumped) b where "allocateBytes (h, w) n =
      Some (Inr (b, ws_offset w), h, w\<lparr>ws_cycleAllocations := wrap64 (ws_cycleAllocations w + n),
        ws_offset := ws_offset w + n\<rparr>)"
    "ws_ptrHost w = Some b" "ws_offset w + n \<le> ws_currentSize w"
proof -
  have t: "i64 (ws_offset w + n) = Some (ws_offset w + n)" "wrap64 (ws_offset w + n) = ws_offset w + n"
    using assms by (auto simp: ws_ok_def i64_def wrap64_id)
  show thesis
  proof (cases "ws_currentSize w < ws_offset w + n")
    case True
    show thesis
    proof (cases "malloc h n")
      case (Pair p h')
      show thesis
      proof (cases p)
        case None
        then have "h' = h" using c_heap.alloc_null Pair by blast
        then show thesis
          using refused True None Pair t assms(2) by (simp add: allocateBytes_def)
      next
        case (Some b)
        then show thesis
          using spilled [of b h'] True Pair t assms(2) by (simp add: allocateBytes_def)
      qed
    qed
  next
    case False
    then have "0 < ws_currentSize w" using assms by (auto simp: ws_ok_def)
    then obtain b where "ws_ptrHost w = Some b" using assms(1) by (auto simp: ws_ok_def)
    then show thesis
      using bumped [of b] False t assms(2) by (simp add: allocateBytes_def)
  qed
qed

section \<open>Allocation\<close>

lemma region_live_spill: "h_live h b = Some n \<Longrightarrow> 0 < n \<Longrightarrow> region_live h (b, 0, n)"
  by (simp add: region_live_def)

lemma region_live_mono:
  assumes "region_live h r" "\<And>b m. h_live h b = Some m \<Longrightarrow> h_live h' b = Some m"
  shows "region_live h' r"
  using assms by (auto simp: region_live_def split: prod.splits option.splits)

lemma ws_alloc_owns:
  assumes owns: "ws_owns s R" and alloc: "ws_alloc s n = Some (r, s')"
    and n: "ws_offset (snd s) + n \<le> 9223372036854775807"
  shows "ws_owns s' (r # R)"
proof -
  obtain h w where s: "s = (h, w)" by (cases s)
  have ok: "ws_ok (h, w)" using owns s by (simp add: ws_owns_def)
  have n0: "0 < n"
    using alloc by (auto simp: ws_alloc_def allocateBytes_def s split: if_splits)
  show ?thesis
    using ok n0 n [unfolded s snd_conv]
  proof (cases rule: allocateBytes_cases)
    case refused
    then show ?thesis using alloc s by (simp add: ws_alloc_def)
  next
    case (spilled b h')
    have hk: "heap_ok h" using ok by (simp add: ws_ok_def)
    have l: "h_live h b = None" "h_live h' = (h_live h)(b \<mapsto> n)" "heap_ok h'"
      using c_heap.alloc_live [OF hk spilled(2)] by auto
    have r: "r = (b, 0, n)" "s' = (h', w\<lparr>ws_cycleAllocations := wrap64 (ws_cycleAllocations w + n),
        ws_spills := ws_spills w @ [b], ws_spillsSize := wrap64 (ws_spillsSize w + n)\<rparr>)"
      using alloc s spilled(1) by (auto simp: ws_alloc_def)
    have keep: "h_live h c = Some m \<Longrightarrow> h_live h' c = Some m" for c m
      using l by (auto split: if_splits)
    have fresh: "b \<notin> set (ws_spills w)" "ws_ptrHost w \<noteq> Some b"
      using ok l(1) by (auto simp: ws_ok_def)
    have "ws_ok s'"
      using ok l fresh by (auto simp: ws_ok_def r split: if_splits)
    moreover have "list_all (disjoint r) R"
      using owns l(1) by (auto simp: list_all_iff ws_owns_def s r disjoint_def region_live_def split: option.splits)
    moreover have "region_live h' r" using l n0 by (simp add: r region_live_def)
    ultimately show ?thesis
      using owns region_live_mono [of h _ h'] keep by (auto simp: ws_owns_def s r)
  next
    case (bumped b)
    have r: "r = (b, ws_offset w, n)" "s' = (h, w\<lparr>ws_cycleAllocations := wrap64 (ws_cycleAllocations w + n),
        ws_offset := ws_offset w + n\<rparr>)"
      using alloc s bumped(1) by (auto simp: ws_alloc_def)
    have "ws_ok s'" using ok bumped n0 by (simp add: ws_ok_def r)
    moreover have "list_all (disjoint r) R"
      using owns bumped ok by (auto simp: list_all_iff ws_owns_def s r disjoint_def ws_ok_def)
    moreover have "region_live h r"
      using ok bumped n0 by (auto simp: ws_ok_def r region_live_def)
    ultimately show ?thesis
      using owns n0 bumped(2) by (auto simp: ws_owns_def s r)
  qed
qed

text \<open>The workspace as an allocator, for requests that keep the offset in range.\<close>

definition ws_alloc_bounded :: "ws_state \<Rightarrow> int \<Rightarrow> (region \<times> ws_state) option" where
  "ws_alloc_bounded s n =
     (if ws_offset (snd s) + n \<le> 9223372036854775807 then ws_alloc s n else None)"

interpretation ws_allocator: allocator ws_owns ws_alloc_bounded
proof unfold_locales
  fix s R n r s' assume "ws_owns s R" "ws_alloc_bounded s n = Some (r, s')"
  then show "ws_owns s' (r # R)"
    using ws_alloc_owns by (auto simp: ws_alloc_bounded_def split: if_splits)
next
  fix s R n r s' assume "ws_alloc_bounded s n = Some (r, s')"
  then show "snd (snd r) = n"
    by (auto simp: ws_alloc_bounded_def ws_alloc_def split: if_splits bind_splits sum.splits prod.splits)
next
  fix s R assume "ws_owns s R" then show "pairwise_disjoint R" by (simp add: ws_owns_def)
qed

section \<open>Cycles\<close>

lemma freeSpills_ok:
  assumes "ws_ok (h, w)"
  shows "\<exists>h'. freeSpills (h, w) = Some (h', w\<lparr>ws_spillsSize := 0, ws_spills := []\<rparr>) \<and>
    ws_ok (h', w\<lparr>ws_spillsSize := 0, ws_spills := []\<rparr>) \<and>
    h_live h' = h_live h |` (- set (ws_spills w))"
proof (cases "ws_spills w = []")
  case True
  then have "w\<lparr>ws_spillsSize := 0\<rparr> = w\<lparr>ws_spillsSize := 0, ws_spills := []\<rparr>" by simp
  then show ?thesis using True assms by (simp add: freeSpills_def ws_ok_def restrict_map_def)
next
  case False
  have ok: "heap_ok h" "distinct (ws_spills w)" "\<And>b. b \<in> set (ws_spills w) \<Longrightarrow> h_live h b \<noteq> None"
    using assms by (auto simp: ws_ok_def)
  obtain h' where h': "mfor (\<lambda>b h. free h (Some b)) (ws_spills w) h = Some h'" "heap_ok h'"
    "h_live h' = (\<lambda>b. if b \<in> set (ws_spills w) then None else h_live h b)"
    using c_heap.blocks.release_all [OF ok] by blast
  have "ws_ok (h', w\<lparr>ws_spillsSize := 0, ws_spills := []\<rparr>)"
    using assms h'(2,3) by (auto simp: ws_ok_def)
  then show ?thesis
    using h'(1,3) False by (auto simp: freeSpills_def Let_def Suc_le_eq restrict_map_def fun_eq_iff)
qed

text \<open>The block that the workspace has to free.\<close>

definition own_block :: "workspace \<Rightarrow> nat set" where
  "own_block w = {b. ws_allocatedHost w \<and> \<not> ws_externalized w \<and> ws_ptrHost w = Some b}"

text \<open>Growing: no undefined behaviour; unless the heap is exhausted, the workspace is well formed and has the requested size.\<close>

lemma ws_init_ok:
  assumes "ws_ok (h, w)" "bytes \<le> 9223372036854775807"
  obtains (grown) h' w' where "ws_init (h, w) bytes = Some (Inr (), h', w')" "ws_ok (h', w')"
    "bytes \<le> ws_currentSize w'" "ws_currentSize w \<le> ws_currentSize w'"
    "ws_offset w' = ws_offset w" "ws_spills w' = ws_spills w"
    "ws_cycleAllocations w' = ws_cycleAllocations w" "ws_spillsSize w' = ws_spillsSize w"
    "if bytes \<le> ws_currentSize w then h' = h \<and> w' = w
     else \<exists>b. b \<notin> dom (h_live h |` (- own_block w)) \<and>
       h_live h' = (h_live h |` (- own_block w))(b \<mapsto> bytes) \<and>
       ws_ptrHost w' = Some b \<and> ws_currentSize w' = bytes"
  | (exhausted) h' w' where "ws_init (h, w) bytes = Some (Inl Bad_alloc, h', w')" "ws_currentSize w < bytes"
    "h_live h' = (h_live h |` (- own_block w))" "malloc h' bytes = (None, h')"
    "ws_offset w' = ws_offset w" "ws_spills w' = ws_spills w" "ws_spillsSize w' = ws_spillsSize w"
proof (cases "ws_currentSize w < bytes")
  case False
  then show thesis using grown [of h w] assms by (simp add: ws_init_def)
next
  case True
  have hk: "heap_ok h" using assms(1) by (simp add: ws_ok_def)
  let ?free = "ws_allocatedHost w \<and> \<not> ws_externalized w"
  obtain h1 where h1: "(if ?free then free h (ws_ptrHost w) else Some h) = Some h1" "heap_ok h1"
    "\<And>b. b \<in> set (ws_spills w) \<Longrightarrow> h_live h1 b \<noteq> None" "h_live h1 = (h_live h |` (- own_block w))"
  proof (cases ?free)
    case f: True
    then obtain b where b: "ws_ptrHost w = Some b" "h_live h b \<noteq> None" "b \<notin> set (ws_spills w)"
      using assms(1) by (auto simp: ws_ok_def)
    then obtain h1 where "free h (Some b) = Some h1" "h_live h1 = (h_live h)(b := None)" "heap_ok h1"
      using c_heap.blocks.release_live [OF hk] by blast
    moreover have "h_live h1 c \<noteq> None" if "c \<in> set (ws_spills w)" for c
      using calculation(2) that b(3) assms(1) by (auto simp: ws_ok_def)
    moreover have "(h_live h)(b := None) = (h_live h |` (- own_block w))"
      using b(1) f by (auto simp: own_block_def restrict_map_def)
    ultimately show thesis using that [of h1] b(1) f by simp
  next
    case False
    then have "h_live h = h_live h |` (- own_block w)" by (auto simp: own_block_def restrict_map_def)
    then show thesis using that [of h] hk assms(1) False by (auto simp: ws_ok_def)
  qed
  show thesis
  proof (cases "malloc h1 bytes")
    case (Pair p h2)
    show thesis
    proof (cases p)
      case None
      moreover from None have "h2 = h1" using c_heap.alloc_null Pair by blast
      ultimately show thesis
        using exhausted [of h1 "w\<lparr>ws_ptrHost := None\<rparr>"] True h1(1,4) Pair by (simp add: ws_init_def)
    next
      case (Some b)
      have l: "h_live h1 b = None" "h_live h2 = (h_live h1)(b \<mapsto> bytes)" "heap_ok h2"
        using c_heap.alloc_live [OF h1(2)] Pair Some by auto
      let ?w = "w\<lparr>ws_ptrHost := Some b, ws_currentSize := bytes, ws_allocatedHost := True\<rparr>"
      have "b \<notin> set (ws_spills w)" using h1(3) [of b] l(1) by auto
      then have "ws_ok (h2, ?w)"
        using assms True l h1(3) by (auto simp: ws_ok_def)
      moreover have "b \<notin> dom (h_live h |` (- own_block w))" using h1(4) l(1) by (auto simp: restrict_map_def split: if_splits)
      ultimately show thesis
        using grown [of h2 ?w] True h1(1,4) l(2) Pair Some by (simp add: ws_init_def)
    qed
  qed
qed

text \<open>Requests that fit the rest of the block are served from it.\<close>

lemma alloc_all_bumps:
  assumes "ws_ok (h, w)" "list_all (\<lambda>n. 0 < n) ns" "ws_offset w + sum_list ns \<le> ws_currentSize w"
  shows "\<exists>rs w'. alloc_all ws_alloc_bounded (h, w) ns = Some (rs, h, w') \<and> ws_spills w' = ws_spills w \<and>
    ws_ptrHost w' = ws_ptrHost w \<and> ws_offset w' = ws_offset w + sum_list ns \<and>
    (\<forall>r\<in>set rs. ws_ptrHost w = Some (fst r))"
  using assms
proof (induction ns arbitrary: w)
  case (Cons n ns)
  have nn: "0 \<le> sum_list ns" using Cons.prems(2) by (intro sum_list_nonneg) (auto simp: list_all_iff)
  have n: "0 < n" "ws_offset w + n \<le> ws_currentSize w" "ws_currentSize w \<le> 9223372036854775807"
    using Cons.prems nn by (auto simp: ws_ok_def)
  then have lim: "ws_offset w + n \<le> 9223372036854775807" by simp
  let ?w = "w\<lparr>ws_cycleAllocations := wrap64 (ws_cycleAllocations w + n), ws_offset := ws_offset w + n\<rparr>"
  from Cons.prems(1) n(1) lim obtain b where b: "ws_ptrHost w = Some b"
    "ws_alloc_bounded (h, w) n = Some ((b, ws_offset w, n), h, ?w)"
  proof (cases rule: allocateBytes_cases)
    case (bumped b)
    then show thesis using that [of b] lim by (simp add: ws_alloc_bounded_def ws_alloc_def)
  qed (use n in simp_all)
  have "ws_ok (h, ?w)" using Cons.prems n by (simp add: ws_ok_def)
  then have "\<exists>rs w'. alloc_all ws_alloc_bounded (h, ?w) ns = Some (rs, h, w') \<and> ws_spills w' = ws_spills ?w \<and>
    ws_ptrHost w' = ws_ptrHost ?w \<and> ws_offset w' = ws_offset ?w + sum_list ns \<and>
    (\<forall>r\<in>set rs. ws_ptrHost ?w = Some (fst r))"
    using Cons.prems by (intro Cons.IH) simp_all
  then obtain rs w' where "alloc_all ws_alloc_bounded (h, ?w) ns = Some (rs, h, w')"
    "ws_spills w' = ws_spills w" "ws_ptrHost w' = ws_ptrHost w"
    "ws_offset w' = ws_offset w + n + sum_list ns" "\<forall>r\<in>set rs. ws_ptrHost w = Some (fst r)"
    by (elim exE conjE) simp
  then show ?case using b
    by (intro exI [of _ "(b, ws_offset w, n) # rs"] exI [of _ w']) simp
qed auto

text \<open>\<open>cycleAllocations\<close> counts the bytes requested since the last \<open>scopeIn\<close>, spilled or not.\<close>

lemma alloc_all_cycle:
  assumes "ws_ok s" "list_all (\<lambda>n. 0 < n) ns" "alloc_all ws_alloc_bounded s ns = Some (rs, s')"
    and "0 \<le> ws_cycleAllocations (snd s)" "ws_cycleAllocations (snd s) + sum_list ns \<le> 9223372036854775807"
  shows "ws_ok s' \<and> ws_cycleAllocations (snd s') = ws_cycleAllocations (snd s) + sum_list ns"
  using assms
proof (induction ns arbitrary: s rs)
  case (Cons n ns)
  obtain r s1 rs1 where s1: "ws_alloc_bounded s n = Some (r, s1)"
    "alloc_all ws_alloc_bounded s1 ns = Some (rs1, s')"
    using Cons.prems(3) by (auto split: bind_splits)
  have nn: "0 \<le> sum_list ns" using Cons.prems(2) by (intro sum_list_nonneg) (auto simp: list_all_iff)
  obtain h w where s: "s = (h, w)" by (cases s)
  have lim: "ws_offset w + n \<le> 9223372036854775807" "ws_alloc (h, w) n = Some (r, s1)"
    using s1(1) by (auto simp: ws_alloc_bounded_def s split: if_splits)
  have n: "0 < n" using Cons.prems(2) by simp
  have "ws_owns (h, w) []" using Cons.prems(1) by (simp add: ws_owns_def s)
  then have ok1: "ws_ok s1" using ws_alloc_owns [of "(h, w)" "[]"] lim by (auto simp: ws_owns_def)
  have wr: "wrap64 (ws_cycleAllocations w + n) = ws_cycleAllocations w + n"
    using Cons.prems nn s n by (intro wrap64_id) auto
  from Cons.prems(1) [unfolded s] n lim(1)
  have c1: "ws_cycleAllocations (snd s1) = ws_cycleAllocations w + n"
    by (cases rule: allocateBytes_cases) (use lim(2) wr in \<open>auto simp: ws_alloc_def\<close>)
  have "ws_ok s' \<and> ws_cycleAllocations (snd s') = ws_cycleAllocations (snd s1) + sum_list ns"
    using Cons.prems s1 ok1 c1 s n by (intro Cons.IH) auto
  then show ?case using c1 s by simp
qed auto

section \<open>Interleaved allocations\<close>

text \<open>
  \<open>allocateBytes\<close> called from several threads, with positive requests of at most \<open>largest\<close> bytes. The atomic actions are the
  count of the cycle, the section under the allocation mutex (the test and, when it fits, the bump), \<open>malloc\<close>, the push
  under the spill mutex, and the count of the spills. The sum of the test is one of \<open>Nd4jIndex\<close>; a thread whose sum
  overflows, or that offsets a null pointer, is \<open>Undefined\<close>. A thread for which \<open>malloc\<close> fails throws and is idle again. The
  last component lists the regions returned so far.
\<close>

datatype pc = Idle | Counted int | Spilling int | Malloced int nat | Pushed int nat | Undefined

type_synonym par_state = "ws_state \<times> (nat \<Rightarrow> pc) \<times> region list"

inductive alloc_step :: "int \<Rightarrow> par_state \<Rightarrow> par_state \<Rightarrow> bool" for largest where
  count: "pcs t = Idle \<Longrightarrow> 0 < n \<Longrightarrow> n \<le> largest \<Longrightarrow>
    alloc_step largest ((h, w), pcs, R)
      ((h, w\<lparr>ws_cycleAllocations := wrap64 (ws_cycleAllocations w + n)\<rparr>), pcs(t := Counted n), R)"
| overflow: "pcs t = Counted n \<Longrightarrow> i64 (ws_offset w + n) = None \<Longrightarrow>
    alloc_step largest ((h, w), pcs, R) ((h, w), pcs(t := Undefined), R)"
| bump: "pcs t = Counted n \<Longrightarrow> i64 (ws_offset w + n) = Some k \<Longrightarrow> k \<le> ws_currentSize w \<Longrightarrow> ws_ptrHost w = Some b \<Longrightarrow>
    alloc_step largest ((h, w), pcs, R)
      ((h, w\<lparr>ws_offset := wrap64 (ws_offset w + n)\<rparr>), pcs(t := Idle), (b, ws_offset w, n) # R)"
| null: "pcs t = Counted n \<Longrightarrow> i64 (ws_offset w + n) = Some k \<Longrightarrow> k \<le> ws_currentSize w \<Longrightarrow> ws_ptrHost w = None \<Longrightarrow>
    alloc_step largest ((h, w), pcs, R) ((h, w), pcs(t := Undefined), R)"
| full: "pcs t = Counted n \<Longrightarrow> i64 (ws_offset w + n) = Some k \<Longrightarrow> ws_currentSize w < k \<Longrightarrow>
    alloc_step largest ((h, w), pcs, R) ((h, w), pcs(t := Spilling n), R)"
| exhausted: "pcs t = Spilling n \<Longrightarrow> malloc h n = (None, h') \<Longrightarrow>
    alloc_step largest ((h, w), pcs, R) ((h', w), pcs(t := Idle), R)"
| malloc: "pcs t = Spilling n \<Longrightarrow> malloc h n = (Some b, h') \<Longrightarrow>
    alloc_step largest ((h, w), pcs, R) ((h', w), pcs(t := Malloced n b), R)"
| push: "pcs t = Malloced n b \<Longrightarrow>
    alloc_step largest ((h, w), pcs, R) ((h, w\<lparr>ws_spills := ws_spills w @ [b]\<rparr>), pcs(t := Pushed n b), R)"
| return: "pcs t = Pushed n b \<Longrightarrow>
    alloc_step largest ((h, w), pcs, R)
      ((h, w\<lparr>ws_spillsSize := wrap64 (ws_spillsSize w + n)\<rparr>), pcs(t := Idle), (b, 0, n) # R)"

inductive_cases alloc_stepE: "alloc_step largest s s'"

text \<open>The block a thread holds between \<open>malloc\<close> and its return.\<close>

fun holds :: "pc \<Rightarrow> (nat \<times> int) option" where
  "holds (Malloced n b) = Some (b, n)"
| "holds (Pushed n b) = Some (b, n)"
| "holds _ = None"

definition par_inv :: "int \<Rightarrow> par_state \<Rightarrow> bool" where
  "par_inv largest S = (case S of (s, pcs, R) \<Rightarrow> ws_owns s R \<and>
     ws_currentSize (snd s) + largest \<le> 9223372036854775807 \<and> (\<forall>t. pcs t \<noteq> Undefined) \<and>
     (\<forall>t n. pcs t = Counted n \<or> pcs t = Spilling n \<longrightarrow> 0 < n \<and> n \<le> largest) \<and>
     (\<forall>t b n. holds (pcs t) = Some (b, n) \<longrightarrow>
        0 < n \<and> h_live (fst s) b = Some n \<and> ws_ptrHost (snd s) \<noteq> Some b \<and> b \<notin> fst ` set R) \<and>
     (\<forall>t b n. pcs t = Malloced n b \<longrightarrow> b \<notin> set (ws_spills (snd s))) \<and>
     (\<forall>t b n. pcs t = Pushed n b \<longrightarrow> b \<in> set (ws_spills (snd s))) \<and>
     (\<forall>t t' b n n'. holds (pcs t) = Some (b, n) \<longrightarrow> holds (pcs t') = Some (b, n') \<longrightarrow> t = t'))"

lemma owns_irrelevant:
  "ws_owns (h, w\<lparr>ws_cycleAllocations := c\<rparr>) R = ws_owns (h, w) R"
  "ws_owns (h, w\<lparr>ws_spillsSize := c\<rparr>) R = ws_owns (h, w) R"
  by (simp_all add: ws_owns_def ws_ok_def)

lemma par_inv_dest:
  assumes "par_inv largest ((h, w), pcs, R)"
  shows "ws_owns (h, w) R"
    and "pcs t = Counted n \<or> pcs t = Spilling n \<Longrightarrow> 0 < n \<and> n \<le> largest"
    and "holds (pcs t) = Some (b, n) \<Longrightarrow>
      0 < n \<and> h_live h b = Some n \<and> ws_ptrHost w \<noteq> Some b \<and> b \<notin> fst ` set R"
    and "pcs t = Malloced n b \<Longrightarrow> b \<notin> set (ws_spills w)"
    and "pcs t = Pushed n b \<Longrightarrow> b \<in> set (ws_spills w)"
    and "holds (pcs t) = Some (b, n) \<Longrightarrow> holds (pcs t') = Some (b, n') \<Longrightarrow> t = t'"
    and "pcs t \<noteq> Undefined" "ws_currentSize w + largest \<le> 9223372036854775807"
  using assms unfolding par_inv_def prod.case fst_conv snd_conv by blast+

lemma par_invI:
  assumes "ws_owns (h, w) R"
    and "\<And>t n. pcs t = Counted n \<or> pcs t = Spilling n \<Longrightarrow> 0 < n \<and> n \<le> largest"
    and "\<And>t b n. holds (pcs t) = Some (b, n) \<Longrightarrow>
      0 < n \<and> h_live h b = Some n \<and> ws_ptrHost w \<noteq> Some b \<and> b \<notin> fst ` set R"
    and "\<And>t b n. pcs t = Malloced n b \<Longrightarrow> b \<notin> set (ws_spills w)"
    and "\<And>t b n. pcs t = Pushed n b \<Longrightarrow> b \<in> set (ws_spills w)"
    and "\<And>t t' b n n'. holds (pcs t) = Some (b, n) \<Longrightarrow> holds (pcs t') = Some (b, n') \<Longrightarrow> t = t'"
    and "\<And>t. pcs t \<noteq> Undefined" "ws_currentSize w + largest \<le> 9223372036854775807"
  shows "par_inv largest ((h, w), pcs, R)"
  using assms unfolding par_inv_def prod.case fst_conv snd_conv by blast

text \<open>Changing one thread to a control point without a block.\<close>

lemma par_inv_upd:
  assumes inv: "par_inv largest ((h, w), pcs, R)" and "ws_owns (h', w') R'" and "holds c = None"
    and "\<And>n. c = Counted n \<or> c = Spilling n \<Longrightarrow> 0 < n \<and> n \<le> largest"
    and "h' = h" "ws_ptrHost w' = ws_ptrHost w" "ws_spills w' = ws_spills w"
    and "\<And>t' b n. t' \<noteq> t \<Longrightarrow> holds (pcs t') = Some (b, n) \<Longrightarrow> b \<notin> fst ` set R'"
    and "c \<noteq> Undefined" "ws_currentSize w' = ws_currentSize w"
  shows "par_inv largest ((h', w'), pcs(t := c), R')"
proof (rule par_invI)
  fix t' n assume "(pcs(t := c)) t' = Counted n \<or> (pcs(t := c)) t' = Spilling n"
  then show "0 < n \<and> n \<le> largest" using assms(4) par_inv_dest(2) [OF inv, of t' n] by (cases "t' = t") auto
next
  fix t' b n assume "holds ((pcs(t := c)) t') = Some (b, n)"
  then show "0 < n \<and> h_live h' b = Some n \<and> ws_ptrHost w' \<noteq> Some b \<and> b \<notin> fst ` set R'"
    using assms(3,5,6) assms(8) [of t' b n] par_inv_dest(3) [OF inv, of t' b n] by (cases "t' = t") auto
next
  fix t' b n assume "(pcs(t := c)) t' = Malloced n b"
  then show "b \<notin> set (ws_spills w')"
    using assms(3,7) par_inv_dest(4) [OF inv, of t' n b] by (cases "t' = t") auto
next
  fix t' b n assume "(pcs(t := c)) t' = Pushed n b"
  then show "b \<in> set (ws_spills w')"
    using assms(3,7) par_inv_dest(5) [OF inv, of t' n b] by (cases "t' = t") auto
next
  fix t1 t2 b n n' assume "holds ((pcs(t := c)) t1) = Some (b, n)" "holds ((pcs(t := c)) t2) = Some (b, n')"
  then show "t1 = t2"
    using assms(3) par_inv_dest(6) [OF inv, of t1 b n t2 n'] by (cases "t1 = t"; cases "t2 = t") auto
next
  show "(pcs(t := c)) t' \<noteq> Undefined" for t' using assms(9) par_inv_dest(7) [OF inv, of t'] by (cases "t' = t") auto
  show "ws_currentSize w' + largest \<le> 9223372036854775807" using assms(10) par_inv_dest(8) [OF inv] by simp
qed (fact assms(2))

text \<open>Changing one thread to a control point that holds block \<open>b\<close>, which no other thread holds.\<close>

lemma par_inv_upd_holds:
  assumes inv: "par_inv largest ((h, w), pcs, R)" and owns: "ws_owns (h', w') R" and c: "holds c = Some (b, n)"
    and b: "0 < n" "h_live h' b = Some n" "ws_ptrHost w \<noteq> Some b" "b \<notin> fst ` set R"
    and same: "ws_ptrHost w' = ws_ptrHost w"
    and keep: "\<And>c m. h_live h c = Some m \<Longrightarrow> h_live h' c = Some m"
    and others: "\<And>t' m. t' \<noteq> t \<Longrightarrow> holds (pcs t') \<noteq> Some (b, m)"
    and spills: "set (ws_spills w') = (if c = Pushed n b then insert b (set (ws_spills w)) else set (ws_spills w))"
    and fresh: "b \<notin> set (ws_spills w)" and size: "ws_currentSize w' = ws_currentSize w"
  shows "par_inv largest ((h', w'), pcs(t := c), R)"
proof (rule par_invI)
  have cc: "c = Malloced n b \<or> c = Pushed n b" using c by (cases c) auto
  {
    fix t' m assume "(pcs(t := c)) t' = Counted m \<or> (pcs(t := c)) t' = Spilling m"
    then show "0 < m \<and> m \<le> largest" using cc par_inv_dest(2) [OF inv, of t' m] by (cases "t' = t") auto
  next
    fix t' b' m assume "holds ((pcs(t := c)) t') = Some (b', m)"
    then show "0 < m \<and> h_live h' b' = Some m \<and> ws_ptrHost w' \<noteq> Some b' \<and> b' \<notin> fst ` set R"
      using c b same keep par_inv_dest(3) [OF inv, of t' b' m] by (cases "t' = t") auto
  next
    fix t' b' m assume "(pcs(t := c)) t' = Malloced m b'"
    then show "b' \<notin> set (ws_spills w')"
      using cc fresh spills others [of t' m] par_inv_dest(4) [OF inv, of t' m b']
      by (cases "t' = t"; cases "b' = b") (auto split: if_splits)
  next
    fix t' b' m assume "(pcs(t := c)) t' = Pushed m b'"
    then show "b' \<in> set (ws_spills w')"
      using cc spills par_inv_dest(5) [OF inv, of t' m b'] by (cases "t' = t") (auto split: if_splits)
  next
    fix t1 t2 b' m m' assume "holds ((pcs(t := c)) t1) = Some (b', m)" "holds ((pcs(t := c)) t2) = Some (b', m')"
    then show "t1 = t2"
      using c others [of t1 m] others [of t2 m'] par_inv_dest(6) [OF inv, of t1 b' m t2 m']
      by (cases "t1 = t"; cases "t2 = t") auto
  next
    show "(pcs(t := c)) t' \<noteq> Undefined" for t' using cc par_inv_dest(7) [OF inv, of t'] by (cases "t' = t") auto
    show "ws_currentSize w' + largest \<le> 9223372036854775807" using size par_inv_dest(8) [OF inv] by simp
  }
qed (fact owns)

lemma par_inv_step:
  assumes "alloc_step largest S S'" "par_inv largest S"
  shows "par_inv largest S'"
  using assms
proof (cases rule: alloc_step.cases)
  case (count pcs t n h w R)
  note inv = assms(2) [unfolded count(1)]
  show ?thesis unfolding count(2)
    by (rule par_inv_upd [OF inv]) (use par_inv_dest(1,3) [OF inv] count in \<open>auto simp: owns_irrelevant\<close>)
next
  case (overflow pcs t n w h R)
  note inv = assms(2) [unfolded overflow(1)]
  have "ws_ok (h, w)" using par_inv_dest(1) [OF inv] by (simp add: ws_owns_def)
  then have "i64 (ws_offset w + n) \<noteq> None"
    using par_inv_dest(2) [OF inv, of t n] par_inv_dest(8) [OF inv] overflow(3) by (simp add: ws_ok_def i64_def)
  then show ?thesis using overflow(4) by simp
next
  case (null pcs t n w k h R)
  note inv = assms(2) [unfolded null(1)]
  have "ws_ok (h, w)" using par_inv_dest(1) [OF inv] by (simp add: ws_owns_def)
  then have "ws_ptrHost w \<noteq> None"
    using par_inv_dest(2) [OF inv, of t n] null(3-5) by (auto simp: ws_ok_def i64_def split: if_splits)
  then show ?thesis using null(6) by simp
next
  case (bump pcs t n w k b h R)
  note inv = assms(2) [unfolded bump(1)]
  have own: "ws_owns (h, w) R" and n: "0 < n" using par_inv_dest(1,2) [OF inv] bump by auto
  have ok: "ws_ok (h, w)" using own by (simp add: ws_owns_def)
  have k: "wrap64 (ws_offset w + n) = ws_offset w + n" "ws_offset w + n \<le> ws_currentSize w"
    using bump(4,5) by (auto simp: i64_def wrap64_id split: if_splits)
  have "ws_ok (h, w\<lparr>ws_offset := ws_offset w + n\<rparr>)" using ok k n by (simp add: ws_ok_def)
  moreover have "region_live h (b, ws_offset w, n)"
    using ok bump(6) k n by (auto simp: ws_ok_def region_live_def)
  moreover have "list_all (disjoint (b, ws_offset w, n)) R"
    using own ok bump(6) by (auto simp: list_all_iff ws_owns_def disjoint_def ws_ok_def)
  ultimately have "ws_owns (h, w\<lparr>ws_offset := ws_offset w + n\<rparr>) ((b, ws_offset w, n) # R)"
    using own n bump(6) by (auto simp: ws_owns_def)
  then show ?thesis unfolding bump(2) k(1)
    by (rule par_inv_upd [OF inv]) (use par_inv_dest(3) [OF inv] bump(6) in auto)
next
  case (full pcs t n w k h R)
  note inv = assms(2) [unfolded full(1)]
  show ?thesis unfolding full(2)
    by (rule par_inv_upd [OF inv]) (use par_inv_dest(1-3) [OF inv] full in auto)
next
  case (exhausted pcs t n h h' w R)
  note inv = assms(2) [unfolded exhausted(1)]
  have "h' = h" using c_heap.alloc_null exhausted(4) by blast
  then show ?thesis unfolding exhausted(2)
    by (intro par_inv_upd [OF inv]) (use par_inv_dest(1,3) [OF inv] in auto)
next
  case (malloc pcs t n h b h' w R)
  note inv = assms(2) [unfolded malloc(1)]
  have own: "ws_owns (h, w) R" and n: "0 < n" using par_inv_dest(1,2) [OF inv] malloc by auto
  have ok: "ws_ok (h, w)" using own by (simp add: ws_owns_def)
  then have hk: "heap_ok h" by (simp add: ws_ok_def)
  have l: "h_live h b = None" "h_live h' = (h_live h)(b \<mapsto> n)" "heap_ok h'"
    using c_heap.alloc_live [OF hk malloc(4)] by auto
  have keep: "h_live h c = Some m \<Longrightarrow> h_live h' c = Some m" for c m using l by (auto split: if_splits)
  have "ws_ok (h', w)" using ok l by (auto simp: ws_ok_def split: if_splits)
  then have own': "ws_owns (h', w) R"
    using own region_live_mono [of h _ h'] keep by (auto simp: ws_owns_def)
  have fresh: "ws_ptrHost w \<noteq> Some b" "b \<notin> set (ws_spills w)" "b \<notin> fst ` set R"
    using ok own l(1) by (auto simp: ws_ok_def ws_owns_def region_live_def split: option.splits)
  have other: "holds (pcs t') \<noteq> Some (b, m)" for t' m
    using par_inv_dest(3) [OF inv, of t' b m] l(1) by auto
  show ?thesis unfolding malloc(2)
    by (rule par_inv_upd_holds [OF inv own', of _ b n]) (use n fresh other keep l in auto)
next
  case (push pcs t n b h w R)
  note inv = assms(2) [unfolded push(1)]
  have own: "ws_owns (h, w) R" by (rule par_inv_dest(1) [OF inv])
  have b: "0 < n" "h_live h b = Some n" "ws_ptrHost w \<noteq> Some b" "b \<notin> fst ` set R" "b \<notin> set (ws_spills w)"
    using par_inv_dest(3,4) [OF inv, of t] push(3) by auto
  have own': "ws_owns (h, w\<lparr>ws_spills := ws_spills w @ [b]\<rparr>) R"
    using own b by (auto simp: ws_owns_def ws_ok_def)
  have other: "holds (pcs t') \<noteq> Some (b, m)" if "t' \<noteq> t" for t' m
    using par_inv_dest(6) [OF inv, of t b n t' m] push(3) that by auto
  show ?thesis unfolding push(2)
    by (rule par_inv_upd_holds [OF inv own', of _ b n]) (use b other in auto)
next
  case (return pcs t n b h w R)
  note inv = assms(2) [unfolded return(1)]
  have own: "ws_owns (h, w) R" by (rule par_inv_dest(1) [OF inv])
  have b: "0 < n" "h_live h b = Some n" "b \<notin> fst ` set R" "b \<in> set (ws_spills w)"
    using par_inv_dest(3,5) [OF inv, of t] return(3) by auto
  have "list_all (disjoint (b, 0, n)) R"
    using b(3) by (force simp: list_all_iff disjoint_def)
  moreover have "region_live h (b, 0, n)" using b by (simp add: region_live_def)
  ultimately have own': "ws_owns (h, w\<lparr>ws_spillsSize := wrap64 (ws_spillsSize w + n)\<rparr>) ((b, 0, n) # R)"
    using own b unfolding owns_irrelevant by (auto simp: ws_owns_def)
  have other: "holds (pcs t') \<noteq> Some (b, m)" if "t' \<noteq> t" for t' m
    using par_inv_dest(6) [OF inv, of t b n t' m] return(3) that by auto
  show ?thesis unfolding return(2)
    by (rule par_inv_upd [OF inv own']) (use par_inv_dest(3) [OF inv] other in auto)
qed

lemma par_inv_reachable:
  assumes "(alloc_step largest)\<^sup>*\<^sup>* S S'" "par_inv largest S"
  shows "par_inv largest S'"
  using assms by (induction rule: rtranclp_induct) (auto intro: par_inv_step)

lemma par_inv_start:
  "ws_ok s \<Longrightarrow> ws_currentSize (snd s) + largest \<le> 9223372036854775807 \<Longrightarrow> par_inv largest (s, \<lambda>_. Idle, [])"
  by (simp add: par_inv_def ws_owns_def)

section \<open>Scopes and lifetime\<close>

lemma scopeOut_ok: "ws_ok s \<Longrightarrow> ws_ok (scopeOut s)"
  by (auto simp: ws_ok_def scopeOut_def)

lemma scopeIn_ok:
  assumes "ws_ok (h, w)" "ws_cycleAllocations w \<le> 9223372036854775807"
  obtains (grown) h' w' where "scopeIn (h, w) = Some (Inr (), h', w')" "ws_ok (h', w')"
    "ws_spills w' = []" "ws_spillsSize w' = 0" "ws_cycleAllocations w' = 0" "ws_offset w' = ws_offset w"
    "ws_cycleAllocations w \<le> ws_currentSize w'" "ws_currentSize w \<le> ws_currentSize w'"
    "if ws_cycleAllocations w \<le> ws_currentSize w
     then h_live h' = h_live h |` (- set (ws_spills w)) \<and>
       ws_ptrHost w' = ws_ptrHost w \<and> ws_currentSize w' = ws_currentSize w
     else \<exists>b. b \<notin> dom (h_live h |` (- set (ws_spills w) - own_block w)) \<and>
       h_live h' = (h_live h |` (- set (ws_spills w) - own_block w))(b \<mapsto> ws_cycleAllocations w) \<and>
       ws_ptrHost w' = Some b \<and> ws_currentSize w' = ws_cycleAllocations w"
  | (exhausted) h' w' where "scopeIn (h, w) = Some (Inl Bad_alloc, h', w')" "ws_currentSize w < ws_cycleAllocations w"
    "h_live h' = (h_live h |` (- set (ws_spills w) - own_block w))"
    "malloc h' (ws_cycleAllocations w) = (None, h')" "ws_offset w' = ws_offset w" "ws_spills w' = []" "ws_spillsSize w' = 0"
proof -
  let ?w = "w\<lparr>ws_spillsSize := 0, ws_spills := []\<rparr>"
  obtain h1 where h1: "freeSpills (h, w) = Some (h1, ?w)" "ws_ok (h1, ?w)"
    "h_live h1 = h_live h |` (- set (ws_spills w))"
    using freeSpills_ok [OF assms(1)] by blast
  have own: "h_live h1 |` (- own_block ?w) =
      (h_live h |` (- set (ws_spills w) - own_block w))"
    by (auto simp: h1(3) own_block_def restrict_map_def fun_eq_iff)
  have "ws_cycleAllocations ?w \<le> 9223372036854775807" using assms(2) by simp
  with h1(2) show thesis
  proof (cases rule: ws_init_ok)
    case (grown h2 w2)
    let ?w2 = "w2\<lparr>ws_cycleAllocations := 0\<rparr>"
    have "scopeIn (h, w) = Some (Inr (), h2, ?w2)" using h1(1) grown(1) by (simp add: scopeIn_def)
    moreover have "ws_ok (h2, ?w2)" using grown(2) by (simp add: ws_ok_def)
    moreover have "if ws_cycleAllocations w \<le> ws_currentSize w then h2 = h1 \<and> w2 = ?w
     else \<exists>b. b \<notin> dom (h_live h |` (- set (ws_spills w) - own_block w)) \<and>
       h_live h2 = (h_live h |` (- set (ws_spills w) - own_block w))(b \<mapsto> ws_cycleAllocations w) \<and>
       ws_ptrHost w2 = Some b \<and> ws_currentSize w2 = ws_cycleAllocations w"
      using grown(9) [unfolded own] by (auto split: if_splits)
    ultimately show thesis
      using that(1) [of h2 ?w2] grown(3-8) h1(3) by (simp split: if_splits)
  next
    case (exhausted h2 w2)
    then show thesis using that(2) [of h2 w2] h1(1) unfolding own by (simp add: scopeIn_def)
  qed
qed

lemma delete_Workspace_ok:
  assumes "ws_ok (h, w)"
  shows "\<exists>h'. delete_Workspace (h, w) = Some h' \<and> heap_ok h' \<and>
    (\<forall>b. h_live h' b = (if b \<in> set (ws_spills w) \<or>
        ws_allocatedHost w \<and> \<not> ws_externalized w \<and> ws_ptrHost w = Some b then None else h_live h b))"
proof -
  have ok: "heap_ok h" "distinct (ws_spills w)" "\<And>b. b \<in> set (ws_spills w) \<Longrightarrow> h_live h b \<noteq> None"
    and ptr: "\<And>b. ws_ptrHost w = Some b \<Longrightarrow> b \<notin> set (ws_spills w) \<and> h_live h b \<noteq> None"
    and alloc: "ws_allocatedHost w \<Longrightarrow> ws_ptrHost w \<noteq> None"
    using assms by (auto simp: ws_ok_def)
  let ?free = "ws_allocatedHost w \<and> \<not> ws_externalized w"
  obtain h1 where h1: "(if ?free then free h (ws_ptrHost w) else Some h) = Some h1" "heap_ok h1"
    "\<And>b. h_live h1 b = (if ?free \<and> ws_ptrHost w = Some b then None else h_live h b)"
  proof (cases ?free)
    case True
    then obtain b where b: "ws_ptrHost w = Some b" using alloc by auto
    then obtain h1 where "free h (Some b) = Some h1" "h_live h1 = (h_live h)(b := None)" "heap_ok h1"
      using c_heap.blocks.release_live [OF ok(1), of b] ptr by blast
    then show thesis using that [of h1] b True by auto
  next
    case False
    then show thesis using that [of h] ok(1) by auto
  qed
  have "h_live h1 b \<noteq> None" if "b \<in> set (ws_spills w)" for b
    using ok(3) [OF that] ptr [of b] that h1(3) [of b] by auto
  then obtain h2 where h2: "mfor (\<lambda>b h. free h (Some b)) (ws_spills w) h1 = Some h2" "heap_ok h2"
    "h_live h2 = (\<lambda>b. if b \<in> set (ws_spills w) then None else h_live h1 b)"
    using c_heap.blocks.release_all [OF h1(2) ok(2)] by blast
  have "delete_Workspace (h, w) = Some h2"
  proof (cases "ws_spills w = []")
    case True
    then show ?thesis using h1(1) h2(1) by (simp add: delete_Workspace_def freeSpills_def Let_def)
  next
    case False
    then show ?thesis using h1(1) h2(1) by (simp add: delete_Workspace_def freeSpills_def Let_def Suc_le_eq)
  qed
  then show ?thesis using h2(2,3) h1(3) by auto
qed

text \<open>A fresh workspace on an empty heap with room for \<open>room\<close> bytes.\<close>

definition empty_heap :: "int \<Rightarrow> heap" where
  "empty_heap room = \<lparr>h_live = \<lambda>_. None, h_fresh = 0, h_room = room\<rparr>"

definition start_state :: "int \<Rightarrow> int \<Rightarrow> ws_state option" where
  "start_state room sz = (case new_Workspace (empty_heap room) sz of
     (Inl _, _) \<Rightarrow> None | (Inr w, h) \<Rightarrow> Some (h, w))"

lemma new_Workspace_ok:
  assumes "heap_ok h" "0 \<le> sz" "sz \<le> 9223372036854775807" "new_Workspace h sz = (Inr w, h')"
  shows "ws_ok (h', w) \<and> ws_currentSize w = sz \<and> ws_cycleAllocations w = 0"
proof (cases "0 < sz")
  case True
  then obtain b where m: "malloc h sz = (Some b, h')"
    and w: "w = \<lparr>ws_ptrHost = Some b, ws_allocatedHost = True, ws_offset = 0, ws_initialSize = sz,
               ws_currentSize = sz, ws_externalized = False, ws_spills = [], ws_spillsSize = 0,
               ws_cycleAllocations = 0\<rparr>"
    using assms(4) by (auto simp: new_Workspace_def Let_def split: prod.splits option.splits)
  show ?thesis
    using c_heap.alloc_live [OF assms(1) m] assms(2,3) by (simp add: w ws_ok_def)
next
  case False
  then show ?thesis using assms by (auto simp: new_Workspace_def Let_def ws_ok_def)
qed

lemma start_state_ok:
  assumes "start_state room sz = Some s" "0 \<le> sz" "sz \<le> 9223372036854775807"
  shows "ws_ok s" "ws_currentSize (snd s) = sz" "ws_cycleAllocations (snd s) = 0"
proof -
  have "heap_ok (empty_heap room)" by (simp add: heap_ok_def empty_heap_def)
  moreover obtain w h where "new_Workspace (empty_heap room) sz = (Inr w, h)" "s = (h, w)"
    using assms(1) by (auto simp: start_state_def split: prod.splits sum.splits)
  ultimately show "ws_ok s" "ws_currentSize (snd s) = sz" "ws_cycleAllocations (snd s) = 0"
    using new_Workspace_ok [of "empty_heap room" sz w h] assms(2,3) by simp_all
qed

section \<open>Edge cases\<close>

text \<open>When the heap is exhausted, \<open>init\<close> has freed the old block and keeps the old size with a null pointer:
  the next request within that size offsets the null pointer.\<close>

lemma failed_growth_dangles:
  "(do { s \<leftarrow> start_state 100 8;
         (r, s) \<leftarrow> allocateBytes s 4;
         (r, s) \<leftarrow> expandTo s 200;
         (case r of Inl Bad_alloc \<Rightarrow> allocateBytes s 4 | _ \<Rightarrow> Some (Inr (0, 0), s)) }) = None"
  by code_simp

text \<open>Growing in the middle of a cycle frees the block the cycle's regions lie in.\<close>

lemma growth_frees_regions_in_use:
  "(do { s \<leftarrow> start_state 100 8;
         (r, s) \<leftarrow> allocateBytes s 4;
         (_, s') \<leftarrow> expandTo s 16;
         (case r of Inr (b, o') \<Rightarrow> Some (region_live (fst s) (b, o', 4), region_live (fst s') (b, o', 4))
          | Inl _ \<Rightarrow> None) }) = Some (True, False)"
  by code_simp

text \<open>A workspace on external memory that has grown never frees the block it allocated.\<close>

lemma external_growth_leaks:
  "(do { let h = (empty_heap 100)\<lparr>h_live := (\<lambda>_. None)(0 \<mapsto> 4), h_fresh := 1\<rparr>;
         (r, s) \<leftarrow> expandTo (h, new_Workspace_external (Some 0) 4) 8;
         h \<leftarrow> delete_Workspace s;
         Some (h_live h 1) }) = Some (Some 8)"
  by code_simp

section \<open>Properties\<close>

text \<open>C12: Whatever sequence of requests a well-formed workspace serves, from its block or from spills, the returned
  regions have the requested lengths, lie inside live memory and do not overlap, and the workspace stays
  well formed.\<close>

theorem workspace_regions_disjoint:
  assumes "ws_ok s" "alloc_all ws_alloc_bounded s ns = Some (rs, s')"
  shows "ws_ok s' \<and> map (\<lambda>r. snd (snd r)) rs = ns \<and> pairwise_disjoint rs \<and>
         (\<forall>r\<in>set rs. region_live (fst s') r)"
proof -
  have own: "ws_owns s []" using assms(1) by (simp add: ws_owns_def)
  have "ws_owns s' (rev rs)" "map (\<lambda>r. snd (snd r)) rs = ns"
    using ws_allocator.alloc_all_inv [OF own assms(2)] by auto
  then show ?thesis
    using ws_allocator.alloc_all_disjoint [OF own assms(2)] by (simp add: ws_owns_def)
qed

theorem workspace_regions_disjoint_witness:
  "\<exists>s rs s'. start_state 100 8 = Some s \<and> alloc_all ws_alloc_bounded s [4, 16, 4] = Some (rs, s') \<and>
     pairwise_disjoint rs \<and> (\<forall>r\<in>set rs. region_live (fst s') r)"
proof -
  have "(case start_state 100 8 of None \<Rightarrow> False
     | Some s \<Rightarrow> alloc_all ws_alloc_bounded s [4, 16, 4] \<bind> (\<lambda>_. Some ()) = Some ())"
    by code_simp
  then obtain s rs s' where s: "start_state 100 8 = Some s"
    "alloc_all ws_alloc_bounded s [4, 16, 4] = Some (rs, s')"
    by (cases "start_state 100 8") (auto simp del: alloc_all.simps split: bind_splits)
  have "ws_ok s" by (rule start_state_ok(1) [OF s(1)]) simp_all
  from workspace_regions_disjoint [OF this s(2)] s show ?thesis by blast
qed

text \<open>C14: The second cycle runs without spills: after a cycle of requests, \<open>scopeOut\<close> and a \<open>scopeIn\<close>
  that did not run out of memory, every sequence of requests with at most the bytes of that cycle is served
  from the block, without touching the heap.\<close>

theorem second_cycle_no_spills:
  assumes "ws_ok s" "ws_cycleAllocations (snd s) = 0" "list_all (\<lambda>n. 0 < n) ns"
    and "sum_list ns \<le> 9223372036854775807" "alloc_all ws_alloc_bounded s ns = Some (rs, s1)"
    and "scopeIn (scopeOut s1) = Some (Inr (), s2)" "list_all (\<lambda>n. 0 < n) ms" "sum_list ms \<le> sum_list ns"
  shows "\<exists>rs' s3. alloc_all ws_alloc_bounded s2 ms = Some (rs', s3) \<and> fst s3 = fst s2 \<and> ws_spills (snd s3) = []"
proof -
  have c: "ws_ok s1" "ws_cycleAllocations (snd s1) = sum_list ns"
    using alloc_all_cycle [OF assms(1,3,5)] assms(2,4) by auto
  obtain h w where out: "scopeOut s1 = (h, w)" by (cases "scopeOut s1")
  have w: "ws_ok (h, w)" "ws_cycleAllocations w = sum_list ns" "ws_offset w = 0"
    using scopeOut_ok [OF c(1)] c(2) out by (auto simp: scopeOut_def)
  have "ws_cycleAllocations w \<le> 9223372036854775807" using w(2) assms(4) by simp
  with w(1) show ?thesis
  proof (cases rule: scopeIn_ok)
    case (grown h2 w2)
    then have s2: "s2 = (h2, w2)" using assms(6) out by simp
    have "ws_offset w2 + sum_list ms \<le> ws_currentSize w2" using grown w assms(8) by simp
    from alloc_all_bumps [OF grown(2) assms(7) this] show ?thesis
      using grown(3) s2 by fastforce
  next
    case (exhausted h2 w2)
    then show ?thesis using assms(6) out by simp
  qed
qed

theorem second_cycle_no_spills_witness:
  "\<exists>s rs s1 s2 rs' s3. start_state 100 4 = Some s \<and> alloc_all ws_alloc_bounded s [4, 8] = Some (rs, s1) \<and>
     scopeIn (scopeOut s1) = Some (Inr (), s2) \<and>
     alloc_all ws_alloc_bounded s2 [8, 2, 2] = Some (rs', s3) \<and> fst s3 = fst s2 \<and> ws_spills (snd s3) = []"
proof -
  have "(case start_state 100 4 of None \<Rightarrow> False
     | Some s \<Rightarrow> (case alloc_all ws_alloc_bounded s [4, 8] of None \<Rightarrow> False
        | Some (rs, s1) \<Rightarrow> map_option fst (scopeIn (scopeOut s1)) = Some (Inr ())))"
    by code_simp
  then obtain s rs s1 s2 where s: "start_state 100 4 = Some s"
    "alloc_all ws_alloc_bounded s [4, 8] = Some (rs, s1)" "scopeIn (scopeOut s1) = Some (Inr (), s2)"
    by (cases "start_state 100 4", simp) (auto simp del: alloc_all.simps split: option.splits)
  have ok: "ws_ok s" "ws_cycleAllocations (snd s) = 0" by (rule start_state_ok [OF s(1)], simp_all)+
  from second_cycle_no_spills [OF ok _ _ s(2,3), of "[8, 2, 2]"]
  obtain rs' s3 where "alloc_all ws_alloc_bounded s2 [8, 2, 2] = Some (rs', s3)" "fst s3 = fst s2"
    "ws_spills (snd s3) = []" by (auto simp del: alloc_all.simps)
  with s show ?thesis by blast
qed

text \<open>C16: Every outcome of a request: a non-positive length throws and changes nothing; otherwise the bytes are counted, and
  the request is served from the block exactly when it fits, and else by a new block of the heap or by \<open>bad_alloc\<close>.\<close>

theorem allocateBytes_outcomes:
  assumes "ws_ok (h, w)" "ws_offset w + n \<le> 9223372036854775807"
  shows "\<exists>r h' w'. allocateBytes (h, w) n = Some (r, h', w') \<and>
    (if n < 1 then (\<exists>m. r = Inl (Invalid_argument m)) \<and> h' = h \<and> w' = w
     else ws_cycleAllocations w' = wrap64 (ws_cycleAllocations w + n) \<and>
       (if ws_offset w + n \<le> ws_currentSize w
        then (\<exists>b. ws_ptrHost w = Some b \<and> r = Inr (b, ws_offset w)) \<and> h' = h \<and>
          ws_offset w' = ws_offset w + n \<and> ws_spills w' = ws_spills w
        else ws_offset w' = ws_offset w \<and>
          (r = Inl Bad_alloc \<and> h' = h \<and> malloc h n = (None, h) \<and> ws_spills w' = ws_spills w \<or>
           (\<exists>b. r = Inr (b, 0) \<and> h_live h b = None \<and> h_live h' = (h_live h)(b \<mapsto> n) \<and> ws_spills w' = ws_spills w @ [b]))))"
proof (cases "n < 1")
  case True
  then show ?thesis by (simp add: allocateBytes_def)
next
  case False
  then have "0 < n" by simp
  with assms(1) show ?thesis using assms(2)
  proof (cases rule: allocateBytes_cases)
    case (spilled b h')
    have "heap_ok h" using assms(1) by (simp add: ws_ok_def)
    then show ?thesis using c_heap.alloc_live [OF _ spilled(2)] spilled False by auto
  qed (use False in auto)
qed

theorem allocateBytes_outcomes_witness:
  "\<exists>h w r b h' w'. start_state 100 8 = Some (h, w) \<and> allocateBytes (h, w) 12 = Some (r, h', w') \<and>
     r = Inr (b, 0) \<and> ws_spills w' = [b] \<and> h_live h' = (h_live h)(b \<mapsto> 12)"
proof -
  have "(case start_state 100 8 of None \<Rightarrow> False
     | Some (h, w) \<Rightarrow> ws_offset w = 0 \<and> ws_currentSize w = 8 \<and> ws_spills w = [] \<and> fst (malloc h 12) \<noteq> None)" by code_simp
  then obtain h w where s: "start_state 100 8 = Some (h, w)" "ws_offset w = 0" "ws_currentSize w = 8" "ws_spills w = []"
    "fst (malloc h 12) \<noteq> None" by (auto split: option.splits)
  have "ws_offset w + 12 \<le> 9223372036854775807" using s(2) by simp
  from allocateBytes_outcomes [OF start_state_ok(1) [OF s(1)] this]
  obtain r h' w' where "allocateBytes (h, w) 12 = Some (r, h', w')"
    "\<exists>b. r = Inr (b, 0) \<and> h_live h' = (h_live h)(b \<mapsto> 12) \<and> ws_spills w' = [b]"
    using s(2-5) by auto
  then show ?thesis using s(1) by blast
qed



text \<open>C18: The destructor of a well-formed workspace frees each spill once and nothing else but its own block, which it frees
  unless the workspace was given external memory. (After external memory was outgrown the block is the workspace's own and is
  not freed either, see \<open>external_growth_leaks\<close>.)\<close>

theorem delete_Workspace_frees_all:
  assumes "ws_ok (h, w)"
  shows "\<exists>h'. delete_Workspace (h, w) = Some h' \<and>
    (\<forall>b. h_live h' b = (if b \<in> set (ws_spills w) \<or>
        ws_allocatedHost w \<and> \<not> ws_externalized w \<and> ws_ptrHost w = Some b then None else h_live h b))"
  using delete_Workspace_ok [OF assms] by blast

theorem delete_Workspace_frees_all_witness:
  "\<exists>h'. start_state 100 8 \<bind> delete_Workspace = Some h'"
proof -
  have "start_state 100 8 \<bind> (\<lambda>_. Some ()) = Some ()" by code_simp
  then obtain h w where s: "start_state 100 8 = Some (h, w)" by (auto split: bind_splits)
  from delete_Workspace_frees_all [OF start_state_ok(1) [OF s]] show ?thesis using s by auto
qed

text \<open>C15: Concurrent requests: in every interleaving of the atomic steps of \<open>allocateBytes\<close> from any number of threads, the
  regions returned so far do not overlap and lie inside live memory, and no thread meets an overflow or a null pointer,
  when the largest request and the size of the block together fit \<open>Nd4jIndex\<close>.\<close>

theorem interleaved_allocations_disjoint:
  assumes "ws_ok s" "ws_currentSize (snd s) + largest \<le> 9223372036854775807"
    and "(alloc_step largest)\<^sup>*\<^sup>* (s, \<lambda>_. Idle, []) (s', pcs, R)"
  shows "pairwise_disjoint R \<and> (\<forall>r\<in>set R. region_live (fst s') r) \<and> (\<forall>t. pcs t \<noteq> Undefined)"
proof -
  have "par_inv largest (s', pcs, R)" by (rule par_inv_reachable [OF assms(3) par_inv_start [OF assms(1,2)]])
  then show ?thesis by (simp add: par_inv_def ws_owns_def)
qed

text \<open>Two threads: the second overtakes the first one and gets the front of the block, the first one gets a spill.\<close>

theorem interleaved_allocations_disjoint_witness:
  "\<exists>s s' pcs b c. start_state 100 8 = Some s \<and>
     (alloc_step 6)\<^sup>*\<^sup>* (s, \<lambda>_. Idle, []) (s', pcs, [(c, 0, 6), (b, 0, 4)]) \<and> disjoint (c, 0, 6) (b, 0, 4) \<and> region_live (fst s') (b, 0, 4)"
proof -
  have "start_state 100 8 \<bind> (\<lambda>_. Some ()) = Some ()" by code_simp
  then obtain h w where s: "start_state 100 8 = Some (h, w)" by (auto split: bind_splits)
  have off: "ws_offset w = 0" "ws_currentSize w = 8" "ws_ptrHost w \<noteq> None" "ws_cycleAllocations w = 0" "ws_spills w = []"
      "ws_spillsSize w = 0" "h_room h = 92"
    using start_state_ok(2) [OF s] s
    by (auto simp: start_state_def new_Workspace_def malloc_def empty_heap_def Let_def)
  then obtain b where b: "ws_ptrHost w = Some b" by auto
  obtain c h' where c: "malloc h 6 = (Some c, h')" using off(7) by (simp add: malloc_def)
  define w1 where "w1 = w\<lparr>ws_cycleAllocations := 6\<rparr>"
  define w2 where "w2 = w1\<lparr>ws_cycleAllocations := 10\<rparr>"
  define w3 where "w3 = w2\<lparr>ws_offset := 4\<rparr>"
  define w4 where "w4 = w3\<lparr>ws_spills := [c]\<rparr>"
  define w5 where "w5 = w4\<lparr>ws_spillsSize := 6\<rparr>"
  let ?p1 = "(\<lambda>_. Idle)(0 := Counted 6)" and ?R = "[(b, 0, 4)]"
  let ?p2 = "?p1(1 := Counted 4)"
  let ?p3 = "?p2(1 := Idle)"
  let ?p4 = "?p3(0 := Spilling 6)"
  let ?p5 = "?p4(0 := Malloced 6 c)"
  let ?p6 = "?p5(0 := Pushed 6 c)"
  let ?p7 = "?p6(0 := Idle)"
  have "alloc_step 6 ((h, w), \<lambda>_. Idle, []) ((h, w1), ?p1, [])"
    using alloc_step.count [of "\<lambda>_. Idle" 0 6 6 h w "[]"] by (simp add: w1_def off wrap64_def)
  moreover have "alloc_step 6 ((h, w1), ?p1, []) ((h, w2), ?p2, [])"
    using alloc_step.count [of ?p1 1 4 6 h w1 "[]"] by (simp add: w2_def w1_def wrap64_def)
  moreover have "alloc_step 6 ((h, w2), ?p2, []) ((h, w3), ?p3, ?R)"
    using alloc_step.bump [of ?p2 1 4 w2 4 b 6 h "[]"] by (simp add: w3_def w2_def w1_def off b i64_def wrap64_def)
  moreover have "alloc_step 6 ((h, w3), ?p3, ?R) ((h, w3), ?p4, ?R)"
    using alloc_step.full [of ?p3 0 6 w3 10 6 h ?R] by (simp add: w3_def w2_def w1_def off i64_def)
  moreover have "alloc_step 6 ((h, w3), ?p4, ?R) ((h', w3), ?p5, ?R)"
    using alloc_step.malloc [of ?p4 0 6 h c h' 6 w3 ?R] c by simp
  moreover have "alloc_step 6 ((h', w3), ?p5, ?R) ((h', w4), ?p6, ?R)"
    using alloc_step.push [of ?p5 0 6 c 6 h' w3 ?R] by (simp add: w4_def w3_def w2_def w1_def off)
  moreover have "alloc_step 6 ((h', w4), ?p6, ?R) ((h', w5), ?p7, (c, 0, 6) # ?R)"
    using alloc_step.return [of ?p6 0 6 c 6 h' w4 ?R] by (simp add: w5_def w4_def w3_def w2_def w1_def off wrap64_def)
  ultimately have run: "(alloc_step 6)\<^sup>*\<^sup>* ((h, w), \<lambda>_. Idle, []) ((h', w5), ?p7, (c, 0, 6) # ?R)"
    by (meson converse_rtranclp_into_rtranclp r_into_rtranclp)
  have "ws_ok (h, w)" by (rule start_state_ok(1) [OF s]) simp_all
  from interleaved_allocations_disjoint [OF this _ run] off(2)
  have "disjoint (c, 0, 6) (b, 0, 4)" "region_live h' (b, 0, 4)" by simp_all
  then show ?thesis using s run
    by (intro exI [of _ "(h, w)"] exI [of _ "(h', w5)"] exI [of _ ?p7] exI [of _ b] exI [of _ c]) simp
qed

end
