(* ===== verification/Cells.thy ===== *)
theory Cells
  imports Prelude
begin

text \<open>
  Interfaces of the keyed stores of the graph classes: cells that are written and read by
  key, where a read may insert a missing entry, as \<open>operator[]\<close> of \<open>std::map\<close> does.
\<close>

section \<open>Cells that are read and written by key\<close>

text \<open>The contract of a getter that may insert a missing entry and the setter that belongs to it.\<close>

locale keyed_cells =
  fixes getter :: "'s \<Rightarrow> 'k \<Rightarrow> 'v \<times> 's"
    and setter :: "'s \<Rightarrow> 'k \<Rightarrow> 'v \<Rightarrow> 's"
  assumes get_set: "fst (getter (setter s k v) j) = (if j = k then v else fst (getter s j))"
    and get_get: "fst (getter (snd (getter s k)) j) = fst (getter s j)"
begin

text \<open>The last write to a key is what its getter answers, whatever was asked in between.\<close>

definition act :: "'s \<Rightarrow> 'k \<times> 'v option \<Rightarrow> 's" where
  "act s a = (case a of (k, None) \<Rightarrow> snd (getter s k) | (k, Some v) \<Rightarrow> setter s k v)"

lemma last_write_wins:
  "fst (getter (foldl act s acts) j) =
     (case map_of (rev [(k, v). (k, Some v) \<leftarrow> acts]) j of None \<Rightarrow> fst (getter s j) | Some v \<Rightarrow> v)"
proof (induction acts rule: rev_induct)
  case (snoc a acts)
  then show ?case by (cases a; cases "snd a") (simp_all add: act_def get_set get_get)
qed simp

end

end
