(* ===== verification/FlowPath.thy ===== *)
theory FlowPath
  imports Cells
begin

text \<open>
  The flow path of a graph execution (\<open>include/graph/impl/FlowPath.cpp\<close>) with the states of its nodes
  (\<open>NodeState.cpp\<close>) and frames (\<open>FrameState.cpp\<close>): which nodes are active and executed, the branch
  taken at a node, and the rewind position of a loop frame. A \<open>std::map\<close> is a partial map; the
  operations that insert a missing entry return the changed map, queries included. The
  profile that a flow path owns is not part of the model.
\<close>

section \<open>The states of nodes and frames\<close>

record NodeState =
  ns_inner :: int
  ns_outer :: int
  ns_active :: bool
  ns_executed :: bool
  ns_branch :: int
  ns_id :: int

definition new_NodeState :: "int \<Rightarrow> NodeState" where
  "new_NodeState id' = \<lparr>ns_inner = 0, ns_outer = 0, ns_active = True, ns_executed = False, ns_branch = 0, ns_id = id'\<rparr>"

record FrameState =
  fs_name :: string
  fs_id :: int
  fs_numberOfCycles :: int
  fs_activated :: bool
  fs_rewindPlanned :: bool
  fs_rewindPosition :: int

definition new_FrameState :: "int \<Rightarrow> FrameState" where
  "new_FrameState id' = \<lparr>fs_name = [], fs_id = id', fs_numberOfCycles = 0, fs_activated = False,
     fs_rewindPlanned = False, fs_rewindPosition = - 1\<rparr>"

definition FrameState_setRewindPositionOnce :: "FrameState \<Rightarrow> int \<Rightarrow> FrameState" where
  "FrameState_setRewindPositionOnce f pos = (if fs_rewindPosition f < 0 then f\<lparr>fs_rewindPosition := pos\<rparr> else f)"

definition FrameState_incrementNumberOfCycles :: "FrameState \<Rightarrow> FrameState option" where
  "FrameState_incrementNumberOfCycles f = do {
     n \<leftarrow> i32 (fs_numberOfCycles f + 1);
     Some (f\<lparr>fs_numberOfCycles := n\<rparr>) }"

section \<open>The flow path\<close>

record FlowPath =
  fp_states :: "int \<Rightarrow> NodeState option"
  fp_frames :: "int \<Rightarrow> FrameState option"

definition new_FlowPath :: FlowPath where
  "new_FlowPath = \<lparr>fp_states = \<lambda>_. None, fp_frames = \<lambda>_. None\<rparr>"

text \<open>\<open>m[k]\<close> on a \<open>std::map\<close>: the entry, inserted with the default value when there is none.\<close>

definition map_ref :: "('k \<Rightarrow> 'v option) \<Rightarrow> 'k \<Rightarrow> 'v \<Rightarrow> 'v" where
  "map_ref m k d = (case m k of None \<Rightarrow> d | Some v \<Rightarrow> v)"

definition ensureNode :: "FlowPath \<Rightarrow> int \<Rightarrow> FlowPath" where
  "ensureNode p nodeId =
     (if fp_states p nodeId = None then p\<lparr>fp_states := (fp_states p)(nodeId \<mapsto> new_NodeState nodeId)\<rparr> else p)"

definition ensureFrame :: "FlowPath \<Rightarrow> int \<Rightarrow> FlowPath" where
  "ensureFrame p frameId =
     (if fp_frames p frameId = None then p\<lparr>fp_frames := (fp_frames p)(frameId \<mapsto> new_FrameState frameId)\<rparr> else p)"

text \<open>\<open>_states[nodeId]\<close> and \<open>_frames[frameId]\<close>, to read and to change.\<close>

definition nodeAt :: "FlowPath \<Rightarrow> int \<Rightarrow> NodeState" where
  "nodeAt p nodeId = map_ref (fp_states p) nodeId (new_NodeState 0)"

definition setNode :: "FlowPath \<Rightarrow> int \<Rightarrow> NodeState \<Rightarrow> FlowPath" where
  "setNode p nodeId s = p\<lparr>fp_states := (fp_states p)(nodeId \<mapsto> s)\<rparr>"

definition frameAt :: "FlowPath \<Rightarrow> int \<Rightarrow> FrameState" where
  "frameAt p frameId = map_ref (fp_frames p) frameId (new_FrameState 0)"

definition setFrame :: "FlowPath \<Rightarrow> int \<Rightarrow> FrameState \<Rightarrow> FlowPath" where
  "setFrame p frameId s = p\<lparr>fp_frames := (fp_frames p)(frameId \<mapsto> s)\<rparr>"

subsection \<open>Nodes\<close>

definition setInnerTime :: "FlowPath \<Rightarrow> int \<Rightarrow> int \<Rightarrow> FlowPath" where
  "setInnerTime p nodeId time = (let p = ensureNode p nodeId in
     setNode p nodeId ((nodeAt p nodeId)\<lparr>ns_inner := time\<rparr>))"

definition setOuterTime :: "FlowPath \<Rightarrow> int \<Rightarrow> int \<Rightarrow> FlowPath" where
  "setOuterTime p nodeId time = (let p = ensureNode p nodeId in
     setNode p nodeId ((nodeAt p nodeId)\<lparr>ns_outer := time\<rparr>))"

definition innerTime :: "FlowPath \<Rightarrow> int \<Rightarrow> int \<times> FlowPath" where
  "innerTime p nodeId = (let p = ensureNode p nodeId in (ns_inner (nodeAt p nodeId), p))"

definition outerTime :: "FlowPath \<Rightarrow> int \<Rightarrow> int \<times> FlowPath" where
  "outerTime p nodeId = (let p = ensureNode p nodeId in (ns_outer (nodeAt p nodeId), p))"

definition isNodeActive :: "FlowPath \<Rightarrow> int \<Rightarrow> bool \<times> FlowPath" where
  "isNodeActive p nodeId = (let p = ensureNode p nodeId in (ns_active (nodeAt p nodeId), p))"

definition markNodeActive :: "FlowPath \<Rightarrow> int \<Rightarrow> bool \<Rightarrow> FlowPath" where
  "markNodeActive p nodeId isActive = (let p = ensureNode p nodeId in
     setNode p nodeId ((nodeAt p nodeId)\<lparr>ns_active := isActive\<rparr>))"

definition flow_branch :: "FlowPath \<Rightarrow> int \<Rightarrow> int \<times> FlowPath" where
  "flow_branch p nodeId = (let p = ensureNode p nodeId in (ns_branch (nodeAt p nodeId), p))"

definition markBranch :: "FlowPath \<Rightarrow> int \<Rightarrow> int \<Rightarrow> FlowPath" where
  "markBranch p nodeId index = (let p = ensureNode p nodeId in
     setNode p nodeId ((nodeAt p nodeId)\<lparr>ns_branch := index\<rparr>))"

text \<open>These two do not call \<open>ensureNode\<close>: a missing node is inserted with the id 0.\<close>

definition wasExecuted :: "FlowPath \<Rightarrow> int \<Rightarrow> bool \<times> FlowPath" where
  "wasExecuted p nodeId = (ns_executed (nodeAt p nodeId), setNode p nodeId (nodeAt p nodeId))"

definition markExecuted :: "FlowPath \<Rightarrow> int \<Rightarrow> bool \<Rightarrow> FlowPath" where
  "markExecuted p nodeId executed = setNode p nodeId ((nodeAt p nodeId)\<lparr>ns_executed := executed\<rparr>)"

subsection \<open>Frames\<close>

text \<open>The frame ids are \<open>Nd4jIndex\<close>, but \<open>ensureFrame\<close> takes an \<open>int\<close>: its argument is narrowed.\<close>

definition isFrameActive :: "FlowPath \<Rightarrow> int \<Rightarrow> bool \<times> FlowPath" where
  "isFrameActive p frameId = (let p = ensureFrame p (to_int frameId) in
     (fs_activated (frameAt p frameId), setFrame p frameId (frameAt p frameId)))"

definition markFrameActive :: "FlowPath \<Rightarrow> int \<Rightarrow> bool \<Rightarrow> FlowPath" where
  "markFrameActive p frameId isActive = (let p = ensureFrame p (to_int frameId) in
     setFrame p frameId ((frameAt p frameId)\<lparr>fs_activated := isActive\<rparr>))"

definition isRewindPlanned :: "FlowPath \<Rightarrow> int \<Rightarrow> bool \<times> FlowPath" where
  "isRewindPlanned p frameId = (fs_rewindPlanned (frameAt p frameId), setFrame p frameId (frameAt p frameId))"

definition planRewind :: "FlowPath \<Rightarrow> int \<Rightarrow> bool \<Rightarrow> FlowPath" where
  "planRewind p frameId reallyRewind = setFrame p frameId ((frameAt p frameId)\<lparr>fs_rewindPlanned := reallyRewind\<rparr>)"

definition getRewindPosition :: "FlowPath \<Rightarrow> int \<Rightarrow> int \<times> FlowPath" where
  "getRewindPosition p frameId = (fs_rewindPosition (frameAt p frameId), setFrame p frameId (frameAt p frameId))"

definition setRewindPosition :: "FlowPath \<Rightarrow> int \<Rightarrow> int \<Rightarrow> FlowPath" where
  "setRewindPosition p frameId position = setFrame p frameId ((frameAt p frameId)\<lparr>fs_rewindPosition := position\<rparr>)"

definition setRewindPositionOnce :: "FlowPath \<Rightarrow> int \<Rightarrow> int \<Rightarrow> FlowPath" where
  "setRewindPositionOnce p frameId position =
     setFrame p frameId (FrameState_setRewindPositionOnce (frameAt p frameId) position)"

definition registerFrame :: "FlowPath \<Rightarrow> int \<Rightarrow> FlowPath" where
  "registerFrame p frameId = (if fp_frames p frameId = None then ensureFrame p (to_int frameId) else p)"

definition forgetFrame :: "FlowPath \<Rightarrow> int \<Rightarrow> FlowPath" where
  "forgetFrame p frameId =
     (if fp_frames p frameId \<noteq> None then p\<lparr>fp_frames := (fp_frames p)(frameId := None)\<rparr> else p)"

definition incrementNumberOfCycles :: "FlowPath \<Rightarrow> int \<Rightarrow> FlowPath option" where
  "incrementNumberOfCycles p frameId = do {
     f \<leftarrow> FrameState_incrementNumberOfCycles (frameAt p frameId);
     Some (setFrame p frameId f) }"

definition getNumberOfCycles :: "FlowPath \<Rightarrow> int \<Rightarrow> int \<times> FlowPath" where
  "getNumberOfCycles p frameId = (fs_numberOfCycles (frameAt p frameId), setFrame p frameId (frameAt p frameId))"

section \<open>What a flow path holds\<close>

text \<open>The entries a reader can see: the ids are never read, and a missing entry reads as a default one.\<close>

definition node_view :: "FlowPath \<Rightarrow> int \<Rightarrow> NodeState" where
  "node_view p n = (nodeAt p n)\<lparr>ns_id := 0\<rparr>"

definition frame_view :: "FlowPath \<Rightarrow> int \<Rightarrow> FrameState" where
  "frame_view p f = (frameAt p f)\<lparr>fs_id := 0\<rparr>"

named_theorems flow_simps \<open>what can be seen after an operation\<close>

lemma nodeAt_setNode [flow_simps]: "nodeAt (setNode p n s) k = (if k = n then s else nodeAt p k)"
  by (simp add: nodeAt_def setNode_def map_ref_def)

lemma frameAt_setNode [flow_simps]: "frameAt (setNode p n s) k = frameAt p k"
  by (simp add: frameAt_def setNode_def)

lemma frameAt_setFrame [flow_simps]: "frameAt (setFrame p f s) k = (if k = f then s else frameAt p k)"
  by (simp add: frameAt_def setFrame_def map_ref_def)

lemma nodeAt_setFrame [flow_simps]: "nodeAt (setFrame p f s) k = nodeAt p k"
  by (simp add: nodeAt_def setFrame_def)

lemma nodeAt_ensureNode [flow_simps]:
  "ns_inner (nodeAt (ensureNode p n) k) = ns_inner (nodeAt p k)"
  "ns_outer (nodeAt (ensureNode p n) k) = ns_outer (nodeAt p k)"
  "ns_active (nodeAt (ensureNode p n) k) = ns_active (nodeAt p k)"
  "ns_executed (nodeAt (ensureNode p n) k) = ns_executed (nodeAt p k)"
  "ns_branch (nodeAt (ensureNode p n) k) = ns_branch (nodeAt p k)"
  "(nodeAt (ensureNode p n) k)\<lparr>ns_id := 0\<rparr> = (nodeAt p k)\<lparr>ns_id := 0\<rparr>"
  by (simp_all add: nodeAt_def ensureNode_def map_ref_def new_NodeState_def)

lemma frameAt_ensureNode [flow_simps]: "frameAt (ensureNode p n) k = frameAt p k"
  by (simp add: frameAt_def ensureNode_def)

lemma frameAt_ensureFrame [flow_simps]:
  "fs_numberOfCycles (frameAt (ensureFrame p f) k) = fs_numberOfCycles (frameAt p k)"
  "fs_activated (frameAt (ensureFrame p f) k) = fs_activated (frameAt p k)"
  "fs_rewindPlanned (frameAt (ensureFrame p f) k) = fs_rewindPlanned (frameAt p k)"
  "fs_rewindPosition (frameAt (ensureFrame p f) k) = fs_rewindPosition (frameAt p k)"
  "(frameAt (ensureFrame p f) k)\<lparr>fs_id := 0\<rparr> = (frameAt p k)\<lparr>fs_id := 0\<rparr>"
  by (simp_all add: frameAt_def ensureFrame_def map_ref_def new_FrameState_def)

lemma nodeAt_ensureFrame [flow_simps]: "nodeAt (ensureFrame p f) k = nodeAt p k"
  by (simp add: nodeAt_def ensureFrame_def)

lemma nodeAt_forgetFrame [flow_simps]: "nodeAt (forgetFrame p f) k = nodeAt p k"
  by (simp add: nodeAt_def forgetFrame_def)

lemma frameAt_forgetFrame [flow_simps]:
  "frameAt (forgetFrame p f) k = (if k = f then new_FrameState 0 else frameAt p k)"
  by (auto simp: frameAt_def forgetFrame_def map_ref_def)

lemmas flow_node_defs = setInnerTime_def setOuterTime_def innerTime_def outerTime_def isNodeActive_def
  markNodeActive_def flow_branch_def markBranch_def wasExecuted_def markExecuted_def

lemmas flow_frame_defs = isFrameActive_def markFrameActive_def isRewindPlanned_def planRewind_def
  getRewindPosition_def setRewindPosition_def setRewindPositionOnce_def registerFrame_def
  incrementNumberOfCycles_def getNumberOfCycles_def

section \<open>The fields of nodes and frames as keyed cells\<close>

interpretation inner_times: keyed_cells innerTime setInnerTime
  by unfold_locales (simp_all add: flow_node_defs flow_simps Let_def)

interpretation outer_times: keyed_cells outerTime setOuterTime
  by unfold_locales (simp_all add: flow_node_defs flow_simps Let_def)

interpretation active_nodes: keyed_cells isNodeActive markNodeActive
  by unfold_locales (simp_all add: flow_node_defs flow_simps Let_def)

interpretation executed_nodes: keyed_cells wasExecuted markExecuted
  by unfold_locales (simp_all add: flow_node_defs flow_simps Let_def)

interpretation branches: keyed_cells flow_branch markBranch
  by unfold_locales (simp_all add: flow_node_defs flow_simps Let_def)

interpretation active_frames: keyed_cells isFrameActive markFrameActive
  by unfold_locales (simp_all add: flow_frame_defs flow_simps Let_def)

interpretation planned_rewinds: keyed_cells isRewindPlanned planRewind
  by unfold_locales (simp_all add: flow_frame_defs flow_simps)

interpretation rewind_positions: keyed_cells getRewindPosition setRewindPosition
  by unfold_locales (simp_all add: flow_frame_defs flow_simps)


section \<open>The abstract flow path\<close>

text \<open>The specification: total functions from node and frame ids, with a step per operation.\<close>

record flow_spec =
  sp_node :: "int \<Rightarrow> NodeState"
  sp_frame :: "int \<Rightarrow> FrameState"

definition flow_abs :: "FlowPath \<Rightarrow> flow_spec" where
  "flow_abs p = \<lparr>sp_node = node_view p, sp_frame = frame_view p\<rparr>"

datatype flow_op =
    SetInnerTime int int | SetOuterTime int int | InnerTime int | OuterTime int
  | IsNodeActive int | MarkNodeActive int bool | WasExecuted int | MarkExecuted int bool
  | GetBranch int | MarkBranch int int
  | RegisterFrame int | ForgetFrame int | IsFrameActive int | MarkFrameActive int bool
  | IsRewindPlanned int | PlanRewind int bool | GetRewindPosition int | SetRewindPosition int int
  | SetRewindPositionOnce int int | IncrementNumberOfCycles int | GetNumberOfCycles int

datatype answer = Done | Bool_answer bool | Int_answer int

fun flow_step :: "FlowPath \<Rightarrow> flow_op \<Rightarrow> (answer \<times> FlowPath) option" where
  "flow_step p (SetInnerTime n t) = Some (Done, setInnerTime p n t)"
| "flow_step p (SetOuterTime n t) = Some (Done, setOuterTime p n t)"
| "flow_step p (InnerTime n) = Some (apfst Int_answer (innerTime p n))"
| "flow_step p (OuterTime n) = Some (apfst Int_answer (outerTime p n))"
| "flow_step p (IsNodeActive n) = Some (apfst Bool_answer (isNodeActive p n))"
| "flow_step p (MarkNodeActive n b) = Some (Done, markNodeActive p n b)"
| "flow_step p (WasExecuted n) = Some (apfst Bool_answer (wasExecuted p n))"
| "flow_step p (MarkExecuted n b) = Some (Done, markExecuted p n b)"
| "flow_step p (GetBranch n) = Some (apfst Int_answer (flow_branch p n))"
| "flow_step p (MarkBranch n i) = Some (Done, markBranch p n i)"
| "flow_step p (RegisterFrame f) = Some (Done, registerFrame p f)"
| "flow_step p (ForgetFrame f) = Some (Done, forgetFrame p f)"
| "flow_step p (IsFrameActive f) = Some (apfst Bool_answer (isFrameActive p f))"
| "flow_step p (MarkFrameActive f b) = Some (Done, markFrameActive p f b)"
| "flow_step p (IsRewindPlanned f) = Some (apfst Bool_answer (isRewindPlanned p f))"
| "flow_step p (PlanRewind f b) = Some (Done, planRewind p f b)"
| "flow_step p (GetRewindPosition f) = Some (apfst Int_answer (getRewindPosition p f))"
| "flow_step p (SetRewindPosition f i) = Some (Done, setRewindPosition p f i)"
| "flow_step p (SetRewindPositionOnce f i) = Some (Done, setRewindPositionOnce p f i)"
| "flow_step p (IncrementNumberOfCycles f) = map_option (Pair Done) (incrementNumberOfCycles p f)"
| "flow_step p (GetNumberOfCycles f) = Some (apfst Int_answer (getNumberOfCycles p f))"

text \<open>Changing one entry of a total function.\<close>

definition upd_node :: "flow_spec \<Rightarrow> int \<Rightarrow> (NodeState \<Rightarrow> NodeState) \<Rightarrow> flow_spec" where
  "upd_node s n g = s\<lparr>sp_node := (sp_node s)(n := g (sp_node s n))\<rparr>"

definition upd_frame :: "flow_spec \<Rightarrow> int \<Rightarrow> (FrameState \<Rightarrow> FrameState) \<Rightarrow> flow_spec" where
  "upd_frame s f g = s\<lparr>sp_frame := (sp_frame s)(f := g (sp_frame s f))\<rparr>"

fun spec_step :: "flow_spec \<Rightarrow> flow_op \<Rightarrow> (answer \<times> flow_spec) option" where
  "spec_step s (SetInnerTime n t) = Some (Done, upd_node s n (ns_inner_update (\<lambda>_. t)))"
| "spec_step s (SetOuterTime n t) = Some (Done, upd_node s n (ns_outer_update (\<lambda>_. t)))"
| "spec_step s (InnerTime n) = Some (Int_answer (ns_inner (sp_node s n)), s)"
| "spec_step s (OuterTime n) = Some (Int_answer (ns_outer (sp_node s n)), s)"
| "spec_step s (IsNodeActive n) = Some (Bool_answer (ns_active (sp_node s n)), s)"
| "spec_step s (MarkNodeActive n b) = Some (Done, upd_node s n (ns_active_update (\<lambda>_. b)))"
| "spec_step s (WasExecuted n) = Some (Bool_answer (ns_executed (sp_node s n)), s)"
| "spec_step s (MarkExecuted n b) = Some (Done, upd_node s n (ns_executed_update (\<lambda>_. b)))"
| "spec_step s (GetBranch n) = Some (Int_answer (ns_branch (sp_node s n)), s)"
| "spec_step s (MarkBranch n i) = Some (Done, upd_node s n (ns_branch_update (\<lambda>_. i)))"
| "spec_step s (RegisterFrame f) = Some (Done, s)"
| "spec_step s (ForgetFrame f) = Some (Done, upd_frame s f (\<lambda>_. new_FrameState 0))"
| "spec_step s (IsFrameActive f) = Some (Bool_answer (fs_activated (sp_frame s f)), s)"
| "spec_step s (MarkFrameActive f b) = Some (Done, upd_frame s f (fs_activated_update (\<lambda>_. b)))"
| "spec_step s (IsRewindPlanned f) = Some (Bool_answer (fs_rewindPlanned (sp_frame s f)), s)"
| "spec_step s (PlanRewind f b) = Some (Done, upd_frame s f (fs_rewindPlanned_update (\<lambda>_. b)))"
| "spec_step s (GetRewindPosition f) = Some (Int_answer (fs_rewindPosition (sp_frame s f)), s)"
| "spec_step s (SetRewindPosition f i) = Some (Done, upd_frame s f (fs_rewindPosition_update (\<lambda>_. i)))"
| "spec_step s (SetRewindPositionOnce f i) =
     Some (Done, upd_frame s f (fs_rewindPosition_update (\<lambda>r. if r < 0 then i else r)))"
| "spec_step s (IncrementNumberOfCycles f) =
     map_option (\<lambda>n. (Done, upd_frame s f (fs_numberOfCycles_update (\<lambda>_. n))))
       (i32 (fs_numberOfCycles (sp_frame s f) + 1))"
| "spec_step s (GetNumberOfCycles f) = Some (Int_answer (fs_numberOfCycles (sp_frame s f)), s)"

text \<open>Runs of operations with their answers, for a step function of either kind.\<close>

primrec run_ops :: "('s \<Rightarrow> 'o \<Rightarrow> ('a \<times> 's) option) \<Rightarrow> 's \<Rightarrow> 'o list \<Rightarrow> ('a list \<times> 's) option" where
  "run_ops step s [] = Some ([], s)"
| "run_ops step s (x # xs) = do {
     (a, s) \<leftarrow> step s x;
     (as, s) \<leftarrow> run_ops step s xs;
     Some (a # as, s) }"

lemma view_setNode [flow_simps]: "node_view (setNode p n s) = (node_view p)(n := s\<lparr>ns_id := 0\<rparr>)"
  by (auto simp: node_view_def flow_simps)

lemma view_ensureNode [flow_simps]: "node_view (ensureNode p n) = node_view p"
  by (auto simp: node_view_def flow_simps)

lemma frame_view_setFrame [flow_simps]: "frame_view (setFrame p f s) = (frame_view p)(f := s\<lparr>fs_id := 0\<rparr>)"
  by (auto simp: frame_view_def flow_simps)

lemma frame_view_ensureFrame [flow_simps]: "frame_view (ensureFrame p f) = frame_view p"
  by (auto simp: frame_view_def flow_simps)

lemma views_other [flow_simps]:
  "frame_view (setNode p n s) = frame_view p" "frame_view (ensureNode p n) = frame_view p"
  "node_view (setFrame p f t) = node_view p" "node_view (ensureFrame p f) = node_view p"
  "node_view (forgetFrame p f) = node_view p"
  "frame_view (forgetFrame p f) = (frame_view p)(f := new_FrameState 0)"
  by (auto simp: node_view_def frame_view_def flow_simps new_FrameState_def)

lemma node_view_fields [flow_simps]:
  "ns_inner (node_view p n) = ns_inner (nodeAt p n)" "ns_outer (node_view p n) = ns_outer (nodeAt p n)"
  "ns_active (node_view p n) = ns_active (nodeAt p n)" "ns_executed (node_view p n) = ns_executed (nodeAt p n)"
  "ns_branch (node_view p n) = ns_branch (nodeAt p n)" "ns_id (node_view p n) = 0"
  by (simp_all add: node_view_def)

lemma frame_view_fields [flow_simps]:
  "fs_name (frame_view p n) = fs_name (frameAt p n)"
  "fs_numberOfCycles (frame_view p n) = fs_numberOfCycles (frameAt p n)"
  "fs_activated (frame_view p n) = fs_activated (frameAt p n)"
  "fs_rewindPlanned (frame_view p n) = fs_rewindPlanned (frameAt p n)"
  "fs_rewindPosition (frame_view p n) = fs_rewindPosition (frameAt p n)" "fs_id (frame_view p n) = 0"
  by (simp_all add: frame_view_def)

lemma frameAt_name [flow_simps]: "fs_name (frameAt (ensureFrame p f) k) = fs_name (frameAt p k)"
  by (simp add: frameAt_def ensureFrame_def map_ref_def new_FrameState_def)

lemma frame_view_self [flow_simps]: "(frame_view p)(f := (frameAt p f)\<lparr>fs_id := 0\<rparr>) = frame_view p"
  "(node_view p)(n := (nodeAt p n)\<lparr>ns_id := 0\<rparr>) = node_view p"
  by (auto simp: frame_view_def node_view_def)

lemma flow_step_refines: "map_option (apsnd flow_abs) (flow_step p x) = spec_step (flow_abs p) x"
proof (cases x)
  case (IncrementNumberOfCycles f)
  then show ?thesis
    by (cases "i32 (fs_numberOfCycles (frameAt p f) + 1)")
      (auto simp: flow_frame_defs flow_simps flow_abs_def upd_frame_def FrameState_incrementNumberOfCycles_def fun_eq_iff
         intro!: FrameState.equality)
next
  case (SetRewindPositionOnce f i)
  then show ?thesis
    by (auto simp: flow_frame_defs flow_simps flow_abs_def upd_frame_def FrameState_setRewindPositionOnce_def fun_eq_iff
         intro!: FrameState.equality)
qed (auto simp: flow_node_defs flow_frame_defs flow_simps flow_abs_def upd_node_def upd_frame_def Let_def fun_eq_iff
       intro!: NodeState.equality FrameState.equality)

lemma run_ops_abs:
  assumes "\<And>s x. map_option (apsnd h) (step s x) = step' (h s) x"
  shows "map_option (apsnd h) (run_ops step s xs) = run_ops step' (h s) xs"
proof (induction xs arbitrary: s)
  case (Cons x xs)
  show ?case
  proof (cases "step s x")
    case None
    then show ?thesis using assms [of s x] by simp
  next
    case (Some r)
    obtain a s1 where r: "r = (a, s1)" by (cases r)
    then have "step' (h s) x = Some (a, h s1)" using assms [of s x] Some by (simp add: eq_commute)
    then show ?thesis using Some r Cons.IH [of s1]
      by (cases "run_ops step s1 xs") (auto simp: eq_commute)
  qed
qed simp

text \<open>The operations that give a frame a new rewind position whatever the old one is.\<close>

fun resets :: "int \<Rightarrow> flow_op \<Rightarrow> bool" where
  "resets f (ForgetFrame g) = (g = f)"
| "resets f (SetRewindPosition g i) = (g = f)"
| "resets f x = False"

lemma flow_step_position:
  assumes "flow_step p x = Some (a, p')" "\<not> resets f x" "fs_rewindPosition (frameAt p f) = pos" "0 \<le> pos"
  shows "fs_rewindPosition (frameAt p' f) = pos"
  using assms
  by (cases x) (auto simp: flow_node_defs flow_frame_defs flow_simps Let_def apfst_def map_prod_def
      FrameState_setRewindPositionOnce_def FrameState_incrementNumberOfCycles_def split: bind_splits)

lemma run_ops_position:
  assumes "0 \<le> pos" "list_all (\<lambda>x. \<not> resets f x) ops" "fs_rewindPosition (frameAt p f) = pos"
    and "run_ops flow_step p ops = Some (as, p')"
  shows "fs_rewindPosition (frameAt p' f) = pos"
  using assms(2-4)
proof (induction ops arbitrary: p as)
  case (Cons x ops)
  then obtain a p1 as' where "flow_step p x = Some (a, p1)" "run_ops flow_step p1 ops = Some (as', p')"
    by (auto split: bind_splits)
  then show ?case using Cons flow_step_position [of p x a p1 f pos] assms(1) by simp
qed simp

section \<open>Edge cases\<close>

text \<open>\<open>registerFrame\<close> with a frame id beyond \<open>int\<close> registers another frame, which \<open>forgetFrame\<close> does not
  remove.\<close>

lemma registerFrame_narrows:
  "fp_frames (registerFrame new_FlowPath 4294967301) 4294967301 = None \<and>
   fp_frames (forgetFrame (registerFrame new_FlowPath 4294967301) 4294967301) 5 \<noteq> None"
  by code_simp

section \<open>Properties\<close>

text \<open>C20: A flow path behaves as total functions from node and frame ids to their states: every sequence of operations,
  queries that insert missing entries included, gives the answers of the specification and ends in a state
  that shows the same entries, or overflows a cycle counter exactly when the specification does.\<close>

theorem flow_path_refines:
  "map_option (apsnd flow_abs) (run_ops flow_step p ops) = run_ops spec_step (flow_abs p) ops"
  by (rule run_ops_abs) (rule flow_step_refines)

text \<open>C24: The rewind position first planned with \<open>setRewindPositionOnce\<close> in a frame that has none stays until
  the frame is forgotten or its position is set again, whatever other operations run in between: further
  \<open>setRewindPositionOnce\<close> of the same frame included.\<close>

theorem first_rewind_position_stays:
  assumes "fst (getRewindPosition p f) < 0" "0 \<le> pos" "list_all (\<lambda>x. \<not> resets f x) ops"
    and "run_ops flow_step p (SetRewindPositionOnce f pos # ops) = Some (as, p')"
  shows "fst (getRewindPosition p' f) = pos"
proof -
  have "fs_rewindPosition (frameAt (setRewindPositionOnce p f pos) f) = pos"
    using assms(1) by (simp add: flow_frame_defs flow_simps FrameState_setRewindPositionOnce_def)
  moreover obtain as' where "run_ops flow_step (setRewindPositionOnce p f pos) ops = Some (as', p')"
    using assms(4) by (auto split: bind_splits)
  ultimately show ?thesis
    using run_ops_position [of pos f ops _ as' p'] assms(2,3) by (simp add: getRewindPosition_def)
qed

theorem first_rewind_position_stays_witness:
  "fst (getRewindPosition (snd (the (run_ops flow_step new_FlowPath
     [SetRewindPositionOnce 7 3, MarkFrameActive 7 True, SetRewindPositionOnce 7 5, ForgetFrame 8]))) 7) = 3"
proof -
  obtain as p' where run: "run_ops flow_step new_FlowPath
      (SetRewindPositionOnce 7 3 # [MarkFrameActive 7 True, SetRewindPositionOnce 7 5, ForgetFrame 8]) = Some (as, p')"
    by auto
  have "fst (getRewindPosition new_FlowPath 7) < 0" by code_simp
  from first_rewind_position_stays [OF this _ _ run] show ?thesis
    unfolding run by simp
qed

end
