(* ===== verification/Objects.thy ===== *)
theory Objects
  imports Heap
begin

text \<open>
  The C++ objects of the graph classes: a pool holds the live objects of one class by address;
  \<open>new\<close> makes one at a fresh address, \<open>delete\<close> ends its life, and using or deleting an
  object that is not live is undefined. A pointer is an \<open>option\<close>, with \<open>None\<close> the null pointer.
\<close>

section \<open>Pools\<close>

record 'a pool =
  p_live :: "nat \<Rightarrow> 'a option"
  p_fresh :: nat

type_synonym pointer = "nat option"

definition empty_pool :: "'a pool" where
  "empty_pool = \<lparr>p_live = \<lambda>_. None, p_fresh = 0\<rparr>"

definition new_object :: "'a \<Rightarrow> 'a pool \<Rightarrow> nat \<times> 'a pool" where
  "new_object x P = (p_fresh P, P\<lparr>p_live := (p_live P)(p_fresh P \<mapsto> x), p_fresh := Suc (p_fresh P)\<rparr>)"

definition delete_object :: "'a pool \<Rightarrow> nat \<Rightarrow> 'a pool option" where
  "delete_object P a = (if p_live P a = None then None else Some (P\<lparr>p_live := (p_live P)(a := None)\<rparr>))"

text \<open>\<open>delete p\<close>, where the null pointer is allowed.\<close>

definition delete_ptr :: "'a pool \<Rightarrow> pointer \<Rightarrow> 'a pool option" where
  "delete_ptr P p = (case p of None \<Rightarrow> Some P | Some a \<Rightarrow> delete_object P a)"

text \<open>\<open>*p\<close>, to read and to change.\<close>

definition deref :: "'a pool \<Rightarrow> pointer \<Rightarrow> 'a option" where
  "deref P p = (case p of None \<Rightarrow> None | Some a \<Rightarrow> p_live P a)"

definition assign_object :: "'a pool \<Rightarrow> pointer \<Rightarrow> 'a \<Rightarrow> 'a pool option" where
  "assign_object P p x = (case p of None \<Rightarrow> None
     | Some a \<Rightarrow> if p_live P a = None then None else Some (P\<lparr>p_live := (p_live P)(a \<mapsto> x)\<rparr>))"

definition pool_ok :: "'a pool \<Rightarrow> bool" where
  "pool_ok P \<longleftrightarrow> (\<forall>a. p_live P a \<noteq> None \<longrightarrow> a < p_fresh P)"

section \<open>Laws\<close>

named_theorems pool_simps \<open>pools after an operation\<close>

lemma deref_simps [pool_simps]: "deref P None = None" "deref P (Some a) = p_live P a"
  by (simp_all add: deref_def)

lemma delete_ptr_simps [pool_simps]: "delete_ptr P None = Some P" "delete_ptr P (Some a) = delete_object P a"
  by (simp_all add: delete_ptr_def)

lemma new_object_live [pool_simps]:
  "p_live (snd (new_object x P)) = (p_live P)(fst (new_object x P) \<mapsto> x)"
  "fst (new_object x P) = p_fresh P"
  by (simp_all add: new_object_def)

lemma new_object_fresh:
  "pool_ok P \<Longrightarrow> new_object x P = (a, P') \<Longrightarrow>
   p_live P a = None \<and> p_live P' = (p_live P)(a \<mapsto> x) \<and> pool_ok P'"
  by (auto simp: new_object_def pool_ok_def less_Suc_eq)

lemma assign_object_live [pool_simps]:
  "p_live P a = Some y \<Longrightarrow> assign_object P (Some a) x = Some (P\<lparr>p_live := (p_live P)(a \<mapsto> x)\<rparr>)"
  by (simp add: assign_object_def)

lemma pool_ok_update: "pool_ok P \<Longrightarrow> p_live P a = Some y \<Longrightarrow> pool_ok (P\<lparr>p_live := (p_live P)(a \<mapsto> x)\<rparr>)"
  by (auto simp: pool_ok_def)

lemma pool_ok_empty [simp]: "pool_ok empty_pool"
  by (simp add: pool_ok_def empty_pool_def)

interpretation pools: disposal delete_object pool_ok p_live
  by unfold_locales (auto simp: delete_object_def pool_ok_def)

end
