(* ===== verification/Stash.thy ===== *)
theory Stash
  imports Objects Cells "HOL-Library.Char_ord" "HOL-Library.List_Lexorder"
begin

text \<open>
  The stash of a variable space (\<open>include/graph/impl/Stash.cpp\<close>): arrays kept between ops under a node id
  and a name, and deleted with the stash. \<open>KeyPair\<close> is ordered by its \<open>operator<\<close>, which the
  \<open>std::map\<close> of the stash uses; it is an instance of the library's linear orders.
\<close>

section \<open>Keys\<close>

datatype KeyPair = KeyPair (kp_node: int) (kp_name: string)

text \<open>The constructor makes a \<open>std::string\<close> of its C string; of the null pointer that is undefined.\<close>

definition new_KeyPair :: "int \<Rightarrow> string option \<Rightarrow> KeyPair option" where
  "new_KeyPair node name = (case name of None \<Rightarrow> None | Some s \<Rightarrow> Some (KeyPair node s))"

definition KeyPair_less :: "KeyPair \<Rightarrow> KeyPair \<Rightarrow> bool" where
  "KeyPair_less this other =
     (if kp_node this < kp_node other then True
      else if kp_node this > kp_node other then False
      else kp_name this < kp_name other)"

instantiation KeyPair :: linorder
begin

definition less_KeyPair_def: "a < b = KeyPair_less a b"

definition less_eq_KeyPair_def: "a \<le> b = (a = b \<or> KeyPair_less a b)" for a b :: KeyPair

instance
proof
  fix a b c :: KeyPair
  show "(a < b) = (a \<le> b \<and> \<not> b \<le> a)" "a \<le> a" "a \<le> b \<or> b \<le> a"
    "a \<le> b \<Longrightarrow> b \<le> a \<Longrightarrow> a = b" "a \<le> b \<Longrightarrow> b \<le> c \<Longrightarrow> a \<le> c"
    by (cases a; cases b; cases c;
        force simp: less_KeyPair_def less_eq_KeyPair_def KeyPair_less_def split: if_splits)+
qed

end

section \<open>The stash\<close>

record Stash =
  st_stash :: "KeyPair \<Rightarrow> pointer option"
  st_handles :: "pointer list"

definition new_Stash :: Stash where
  "new_Stash = \<lparr>st_stash = \<lambda>_. None, st_handles = []\<rparr>"

definition checkStash :: "Stash \<Rightarrow> int \<Rightarrow> string option \<Rightarrow> bool option" where
  "checkStash s nodeId name = do {
     kp \<leftarrow> new_KeyPair nodeId name;
     Some (st_stash s kp \<noteq> None) }"

text \<open>\<open>_stash[kp]\<close> inserts a null pointer when there is no entry.\<close>

definition extractArray :: "Stash \<Rightarrow> int \<Rightarrow> string option \<Rightarrow> (pointer \<times> Stash) option" where
  "extractArray s nodeId name = do {
     kp \<leftarrow> new_KeyPair nodeId name;
     (case st_stash s kp of
        None \<Rightarrow> Some (None, s\<lparr>st_stash := (st_stash s)(kp \<mapsto> None)\<rparr>)
      | Some p \<Rightarrow> Some (p, s)) }"

definition storeArray :: "Stash \<Rightarrow> int \<Rightarrow> string option \<Rightarrow> pointer \<Rightarrow> Stash option" where
  "storeArray s nodeId name array = do {
     kp \<leftarrow> new_KeyPair nodeId name;
     Some (s\<lparr>st_stash := (st_stash s)(kp \<mapsto> array), st_handles := st_handles s @ [array]\<rparr>) }"

text \<open>\<open>clear\<close> and the destructor delete the arrays of the pool \<open>A\<close>.\<close>

definition clear_Stash :: "'a pool \<Rightarrow> Stash \<Rightarrow> ('a pool \<times> Stash) option" where
  "clear_Stash A s = do {
     A \<leftarrow> mfor (\<lambda>v A. delete_ptr A v) (st_handles s) A;
     Some (A, s\<lparr>st_handles := [], st_stash := \<lambda>_. None\<rparr>) }"

definition delete_Stash :: "'a pool \<Rightarrow> Stash \<Rightarrow> 'a pool option" where
  "delete_Stash A s = (if length (st_handles s) > 0 then map_option fst (clear_Stash A s) else Some A)"

section \<open>Laws\<close>

text \<open>With the key in hand, the stash is a store of keyed cells.\<close>

definition stash_get :: "Stash \<Rightarrow> int \<times> string \<Rightarrow> pointer \<times> Stash" where
  "stash_get s k = (case k of (n, name) \<Rightarrow> the (extractArray s n (Some name)))"

definition stash_put :: "Stash \<Rightarrow> int \<times> string \<Rightarrow> pointer \<Rightarrow> Stash" where
  "stash_put s k p = (case k of (n, name) \<Rightarrow> the (storeArray s n (Some name) p))"

interpretation stashed: keyed_cells stash_get stash_put
  by unfold_locales
    (auto simp: stash_get_def stash_put_def extractArray_def storeArray_def new_KeyPair_def
      split: option.splits if_splits)

text \<open>Deleting pointers is deleting the objects behind those that are not null.\<close>

lemma delete_ptrs_eq:
  "mfor (\<lambda>v A. delete_ptr A v) ps A = mfor (\<lambda>a A. delete_object A a) (List.map_filter id ps) A"
proof (induction ps arbitrary: A)
  case (Cons p ps)
  then show ?case
    by (cases p) (auto simp: List.map_filter_simps pool_simps cong: Option.bind_cong)
qed (simp add: List.map_filter_simps)

lemma storeArray_eq:
  "storeArray s n (Some name) p = Some (stash_put s (n, name) p)"
  "st_handles (stash_put s k p) = st_handles s @ [p]"
  by (auto simp: stash_put_def storeArray_def new_KeyPair_def split: prod.splits)

lemma extractArray_eq: "extractArray s n (Some name) = Some (stash_get s (n, name))"
  by (auto simp: stash_get_def extractArray_def new_KeyPair_def split: option.splits)

lemma stores_eq:
  "mfor (\<lambda>((n, name), p) s. storeArray s n (Some name) p) ws s =
     Some (foldl stashed.act s (map (\<lambda>(k, p). (k, Some p)) ws))"
  by (induction ws arbitrary: s) (auto simp: storeArray_eq stashed.act_def)

lemma stores_handles:
  "st_handles (foldl stashed.act s (map (\<lambda>(k, p). (k, Some p)) ws)) = st_handles s @ map snd ws"
  by (induction ws arbitrary: s) (auto simp: storeArray_eq stashed.act_def)

lemma stores_last:
  "fst (stash_get (foldl stashed.act s (map (\<lambda>(k, p). (k, Some p)) ws)) k) =
     (case map_of (rev ws) k of None \<Rightarrow> fst (stash_get s k) | Some p \<Rightarrow> p)"
proof -
  have "[(k, v). (k, Some v) \<leftarrow> map (\<lambda>(k, p). (k, Some p)) ws] = ws" by (induction ws) auto
  then show ?thesis by (subst stashed.last_write_wins) (simp only:)
qed

text \<open>Destroying a stash is deleting its arrays.\<close>

lemma delete_Stash_eq:
  "delete_Stash A s = mfor (\<lambda>a A. delete_object A a) (List.map_filter id (st_handles s)) A"
proof (cases "st_handles s = []")
  case True
  then show ?thesis by (simp add: delete_Stash_def List.map_filter_simps)
next
  case False
  then show ?thesis
    by (cases "mfor (\<lambda>a A. delete_object A a) (List.map_filter id (st_handles s)) A")
      (simp_all add: delete_Stash_def clear_Stash_def delete_ptrs_eq)
qed

section \<open>Edge cases\<close>

text \<open>Asking for an array that was never stored makes \<open>checkStash\<close> find it afterwards.\<close>

lemma extractArray_inserts:
  "(do { (p, s) \<leftarrow> extractArray new_Stash 1 (Some ''a'');
         b \<leftarrow> checkStash s 1 (Some ''a'');
         Some (p, b) }) = Some (None, True)"
  by code_simp

text \<open>An array stored under two names is deleted twice by the destructor.\<close>

lemma stored_twice_deleted_twice:
  "(do { s \<leftarrow> storeArray new_Stash 1 (Some ''a'') (Some 0);
         s \<leftarrow> storeArray s 1 (Some ''b'') (Some 0);
         delete_Stash (snd (new_object () empty_pool)) s }) = None"
  by code_simp

section \<open>Properties\<close>

text \<open>C33: \<open>operator<\<close> of the keys is a strict linear order, so that the map of a stash tells any two different
  keys apart.\<close>

theorem KeyPair_less_linear:
  "transp KeyPair_less \<and> irreflp KeyPair_less \<and> totalp KeyPair_less"
proof (intro conjI)
  show "transp KeyPair_less"
    by (rule transpI) (simp add: less_KeyPair_def [symmetric])
  show "irreflp KeyPair_less"
    by (rule irreflpI) (simp add: less_KeyPair_def [symmetric])
  show "totalp KeyPair_less"
    by (rule totalpI) (auto simp: less_KeyPair_def [symmetric])
qed

text \<open>After any sequence of stores into a new stash, \<open>extractArray\<close> answers the array stored last under the key, or
  the null pointer when there is none, and the handles are the stored arrays in order.\<close>

theorem stash_keeps_arrays:
  "\<exists>s. mfor (\<lambda>((n, name), p) s. storeArray s n (Some name) p) ws new_Stash = Some s \<and>
     st_handles s = map snd ws \<and>
     (\<forall>n name. map_option fst (extractArray s n (Some name)) =
        Some (case map_of (rev ws) (n, name) of None \<Rightarrow> None | Some p \<Rightarrow> p))"
proof -
  have "fst (stash_get new_Stash k) = None" for k
    by (cases k) (simp add: stash_get_def extractArray_def new_KeyPair_def new_Stash_def)
  moreover have "st_handles new_Stash = []" by (simp add: new_Stash_def)
  ultimately show ?thesis
    by (simp add: stores_eq extractArray_eq stores_handles stores_last split: option.split)
qed

text \<open>C25: The destructor of a stash is defined exactly when its arrays are live and no array was stored twice; then it
  deletes them and no other array.\<close>

theorem delete_Stash_deletes_once:
  assumes "pool_ok A"
  shows "let arrays = List.map_filter id (st_handles s);
             ok = distinct arrays \<and> list_all (\<lambda>a. p_live A a \<noteq> None) arrays in
    (case delete_Stash A s of
       None \<Rightarrow> \<not> ok
     | Some A' \<Rightarrow> ok \<and> p_live A' = (\<lambda>a. if a \<in> set arrays then None else p_live A a))"
proof (cases "delete_Stash A s")
  case None
  then show ?thesis
    using pools.release_all_iff [OF assms, of "List.map_filter id (st_handles s)"]
    by (simp add: delete_Stash_eq Let_def list_all_iff)
next
  case (Some A')
  then have m: "mfor (\<lambda>a A. delete_object A a) (List.map_filter id (st_handles s)) A = Some A'"
    by (simp add: delete_Stash_eq)
  have "distinct (List.map_filter id (st_handles s)) \<and>
      (\<forall>a\<in>set (List.map_filter id (st_handles s)). p_live A a \<noteq> None)"
    by (rule pools.release_all_Some [OF assms m])
  then show ?thesis
    using pools.release_all [OF assms, of "List.map_filter id (st_handles s)"] m Some
    by (auto simp: Let_def list_all_iff)
qed

theorem delete_Stash_deletes_once_witness:
  "\<exists>s. storeArray new_Stash 1 (Some ''a'') (Some 0) = Some s \<and>
     delete_Stash (snd (new_object () empty_pool)) s \<noteq> None"
proof -
  have ok: "pool_ok (snd (new_object () empty_pool))" by (simp add: pool_ok_def new_object_def empty_pool_def)
  obtain s where s: "storeArray new_Stash 1 (Some ''a'') (Some 0) = Some s" by (auto simp: storeArray_eq)
  then have "st_handles s = [Some 0]" by (auto simp: storeArray_eq new_Stash_def)
  then show ?thesis
    using delete_Stash_deletes_once [OF ok, of s] s
    by (auto simp: List.map_filter_simps pool_simps empty_pool_def Let_def split: option.splits)
qed

end
