(* ===== verification/NDArray.thy ===== *)
theory NDArray
  imports Permute Reshape
begin

text \<open>
  The inline accessors of \<open>NDArray\<close> (\<open>blas/NDArray.h\<close>): an array is a buffer with a shapeInfo buffer, and
  its elements are reached by linear index or by coordinates. A buffer is the list of its cells; a
  reference \<open>T&\<close> to a cell is the index of the cell. The functions that throw return a sum, with
  the exception on the left. \<open>dup\<close> and \<open>assign\<close> (\<open>blas/cpu/NDArray.cpp\<close>) take the native loops they call as arguments.
\<close>

section \<open>The array\<close>

record 't ndarray =
  nd_buffer :: "'t list option"
  nd_shapeInfo :: "int list option"

type_synonym 'a result = "(exn + 'a) option"

definition ordering :: "'t ndarray \<Rightarrow> int option" where
  "ordering a = do { si \<leftarrow> nd_shapeInfo a; shape_order si }"

definition nd_shapeOf :: "'t ndarray \<Rightarrow> int list option" where
  "nd_shapeOf a = do { si \<leftarrow> nd_shapeInfo a; shapeOf si }"

definition stridesOf :: "'t ndarray \<Rightarrow> int list option" where
  "stridesOf a = do { si \<leftarrow> nd_shapeInfo a; shape_stride si }"

definition rankOf :: "'t ndarray \<Rightarrow> int option" where
  "rankOf a = do { si \<leftarrow> nd_shapeInfo a; shape_rank si }"

definition lengthOf :: "'t ndarray \<Rightarrow> int option" where
  "lengthOf a = do { si \<leftarrow> nd_shapeInfo a; shape_length si }"

definition rows :: "'t ndarray \<Rightarrow> int option" where
  "rows a = do { s \<leftarrow> nd_shapeOf a; rd s 0 }"

definition columns :: "'t ndarray \<Rightarrow> int option" where
  "columns a = do { s \<leftarrow> nd_shapeOf a; rd s 1 }"

definition nd_ews :: "'t ndarray \<Rightarrow> int option" where
  "nd_ews a = do { si \<leftarrow> nd_shapeInfo a; shape_ews si }"

definition nonNull :: "'t ndarray \<Rightarrow> bool" where
  "nonNull a \<longleftrightarrow> nd_buffer a \<noteq> None \<and> nd_shapeInfo a \<noteq> None"

text \<open>Sizes from the end for negative dimensions.\<close>

definition nd_sizeAt :: "'t ndarray \<Rightarrow> int \<Rightarrow> int result" where
  "nd_sizeAt a dim = do {
     r \<leftarrow> rankOf a;
     si \<leftarrow> nd_shapeInfo a;
     if dim \<ge> r \<or> dim < - r then Some (Inl (Thrown ''Bad size index requested''))
     else if dim \<ge> 0 then do { v \<leftarrow> rd si (1 + dim); Some (Inr v) }
     else do { v \<leftarrow> rd si (1 + (r + dim)); Some (Inr v) } }"

definition nd_isScalar :: "'t ndarray \<Rightarrow> bool option" where
  "nd_isScalar a = do { si \<leftarrow> nd_shapeInfo a; r \<leftarrow> isScalar si; Some (r \<noteq> 0) }"

definition nd_isMatrix :: "'t ndarray \<Rightarrow> bool option" where
  "nd_isMatrix a = do { si \<leftarrow> nd_shapeInfo a; r \<leftarrow> isMatrix_buf si; Some (r \<noteq> 0) }"

definition nd_isVector :: "'t ndarray \<Rightarrow> bool option" where
  "nd_isVector a = do {
     s \<leftarrow> nd_isScalar a;
     if s then Some False
     else do { si \<leftarrow> nd_shapeInfo a; r \<leftarrow> isVector_buf si; Some (r \<noteq> 0) } }"

definition nd_isColumnVector :: "'t ndarray \<Rightarrow> bool option" where
  "nd_isColumnVector a = do {
     s \<leftarrow> nd_isScalar a;
     if s then Some False else do { si \<leftarrow> nd_shapeInfo a; isColumnVector si } }"

definition nd_isRowVector :: "'t ndarray \<Rightarrow> bool option" where
  "nd_isRowVector a = do {
     si \<leftarrow> nd_shapeInfo a;
     r \<leftarrow> shape_rank si;
     if r = 1 then Some True
     else do { s \<leftarrow> nd_isScalar a; if s then Some False else isRowVector si } }"

text \<open>The product with \<open>sizeof(int)\<close> is unsigned, and so is the sum, which is stored as \<open>Nd4jIndex\<close>.\<close>

definition memoryFootprint :: "int \<Rightarrow> 't ndarray \<Rightarrow> int option" where
  "memoryFootprint sizeOfT a = do {
     n \<leftarrow> lengthOf a;
     sz \<leftarrow> i64 (n * sizeOfT);
     r \<leftarrow> rankOf a;
     t \<leftarrow> i32 (r * 2);
     t \<leftarrow> i32 (t + 4);
     Some (wrap64 (sz + t * 4)) }"

section \<open>Element access\<close>

text \<open>The cell at the coordinates: the common end of the operators with coordinates.\<close>

definition cell_at :: "'t ndarray \<Rightarrow> int list \<Rightarrow> int option" where
  "cell_at a idx = do {
     s \<leftarrow> nd_shapeOf a;
     t \<leftarrow> stridesOf a;
     r \<leftarrow> rankOf a;
     xOffset \<leftarrow> getOffset 0 s t idx r;
     buffer \<leftarrow> nd_buffer a;
     _ \<leftarrow> rd buffer xOffset;
     Some xOffset }"

definition value_at :: "'t ndarray \<Rightarrow> int \<Rightarrow> 't option" where
  "value_at a k = do { buffer \<leftarrow> nd_buffer a; rd buffer k }"

text \<open>\<open>operator()(i)\<close> for reading.\<close>

definition op_at :: "'t ndarray \<Rightarrow> int \<Rightarrow> 't result" where
  "op_at a i = do {
     n \<leftarrow> lengthOf a;
     if i \<ge> n then Some (Inl (Invalid_argument ''NDArray::operator(i): dinput index is out of array length !''))
     else do {
       e \<leftarrow> nd_ews a;
       ord \<leftarrow> ordering a;
       if e = 1 \<and> ord = 99 then do { v \<leftarrow> value_at a i; Some (Inr v) }
       else if e > 1 \<and> ord = 99 then do { k \<leftarrow> i64 (i * e); v \<leftarrow> value_at a k; Some (Inr v) }
       else do {
         idx \<leftarrow> new_int 32;
         r \<leftarrow> rankOf a;
         s \<leftarrow> nd_shapeOf a;
         t \<leftarrow> stridesOf a;
         idx \<leftarrow> ind2subC_infer r s (to_int i) idx;
         k \<leftarrow> getOffset 0 s t idx r;
         v \<leftarrow> value_at a k;
         Some (Inr v) } } }"

text \<open>\<open>operator()(i)\<close> for writing.\<close>

definition op_at_ref :: "'t ndarray \<Rightarrow> int \<Rightarrow> int result" where
  "op_at_ref a i = do {
     n \<leftarrow> lengthOf a;
     if i \<ge> n then Some (Inl (Invalid_argument ''NDArray::operator(i): input index is out of array length !''))
     else do {
       e \<leftarrow> nd_ews a;
       ord \<leftarrow> ordering a;
       if e = 1 \<and> ord = 99 then do { _ \<leftarrow> value_at a i; Some (Inr i) }
       else if e > 1 \<and> ord = 99 then do { k \<leftarrow> i64 (i * e); _ \<leftarrow> value_at a k; Some (Inr k) }
       else do {
         idx \<leftarrow> new_int 32;
         r \<leftarrow> rankOf a;
         s \<leftarrow> nd_shapeOf a;
         t \<leftarrow> stridesOf a;
         idx \<leftarrow> ind2subC_infer r s (to_int i) idx;
         k \<leftarrow> getOffset 0 s t idx r;
         _ \<leftarrow> value_at a k;
         Some (Inr k) } } }"

text \<open>\<open>shapeOf()[k] <= x\<close>, as the guards of the operators with coordinates read it.\<close>

definition beyond :: "'t ndarray \<Rightarrow> int \<Rightarrow> int \<Rightarrow> bool option" where
  "beyond a k x = do { s \<leftarrow> nd_shapeOf a; d \<leftarrow> rd s k; Some (x \<ge> d) }"

text \<open>The guards: the rank, then one comparison after another until one holds.\<close>

fun any_beyond :: "'t ndarray \<Rightarrow> (int \<times> int) list \<Rightarrow> bool option" where
  "any_beyond a [] = Some False"
| "any_beyond a ((k, x) # rest) = do {
     b \<leftarrow> beyond a k x;
     if b then Some True else any_beyond a rest }"

definition op_at2 :: "'t ndarray \<Rightarrow> int \<Rightarrow> int \<Rightarrow> 't result" where
  "op_at2 a i j = do {
     r \<leftarrow> rankOf a;
     bad \<leftarrow> (if r \<noteq> 2 then Some True else any_beyond a [(0, i), (1, j)]);
     if bad then Some (Inl (Invalid_argument ''NDArray::operator(i,j): one of input indexes is out of array length or rank!=2 !''))
     else do { k \<leftarrow> cell_at a [i, j]; v \<leftarrow> value_at a k; Some (Inr v) } }"

definition op_at2_ref :: "'t ndarray \<Rightarrow> int \<Rightarrow> int \<Rightarrow> int result" where
  "op_at2_ref a i j = do {
     r \<leftarrow> rankOf a;
     bad \<leftarrow> (if r \<noteq> 2 then Some True else any_beyond a [(0, i), (1, j)]);
     if bad then Some (Inl (Invalid_argument ''NDArray::operator(i,j): one of input indexes is out of array length or rank!=2 !''))
     else do { k \<leftarrow> cell_at a [i, j]; Some (Inr k) } }"

text \<open>The reading operator with three coordinates compares \<open>j\<close>, not \<open>k\<close>, with the last axis.\<close>

definition op_at3 :: "'t ndarray \<Rightarrow> int \<Rightarrow> int \<Rightarrow> int \<Rightarrow> 't result" where
  "op_at3 a i j k = do {
     r \<leftarrow> rankOf a;
     bad \<leftarrow> (if r \<noteq> 3 then Some True else any_beyond a [(0, i), (1, j), (2, j)]);
     if bad then Some (Inl (Invalid_argument ''NDArray::operator(i,j,k): one of input indexes is out of array length or rank!=3 !''))
     else do { c \<leftarrow> cell_at a [i, j, k]; v \<leftarrow> value_at a c; Some (Inr v) } }"

definition op_at3_ref :: "'t ndarray \<Rightarrow> int \<Rightarrow> int \<Rightarrow> int \<Rightarrow> int result" where
  "op_at3_ref a i j k = do {
     r \<leftarrow> rankOf a;
     bad \<leftarrow> (if r \<noteq> 3 then Some True else any_beyond a [(0, i), (1, j), (2, k)]);
     if bad then Some (Inl (Invalid_argument ''NDArray::operator(i,j,k): one of input indexes is out of array length or rank!=3 !''))
     else do { c \<leftarrow> cell_at a [i, j, k]; Some (Inr c) } }"

definition op_at4 :: "'t ndarray \<Rightarrow> int \<Rightarrow> int \<Rightarrow> int \<Rightarrow> int \<Rightarrow> 't result" where
  "op_at4 a t u v w = do {
     r \<leftarrow> rankOf a;
     bad \<leftarrow> (if r \<noteq> 4 then Some True else any_beyond a [(0, t), (1, u), (2, v), (3, w)]);
     if bad then Some (Inl (Invalid_argument ''NDArray::operator(t,u,v,w): one of input indexes is out of array length or rank!=4 !''))
     else do { c \<leftarrow> cell_at a [t, u, v, w]; x \<leftarrow> value_at a c; Some (Inr x) } }"

definition op_at4_ref :: "'t ndarray \<Rightarrow> int \<Rightarrow> int \<Rightarrow> int \<Rightarrow> int \<Rightarrow> int result" where
  "op_at4_ref a t u v w = do {
     r \<leftarrow> rankOf a;
     bad \<leftarrow> (if r \<noteq> 4 then Some True else any_beyond a [(0, t), (1, u), (2, v), (3, w)]);
     if bad then Some (Inl (Invalid_argument ''NDArray::operator(t,u,v,w): one of input indexes is out of array length or rank!=4 !''))
     else do { c \<leftarrow> cell_at a [t, u, v, w]; Some (Inr c) } }"

definition getScalar :: "'t ndarray \<Rightarrow> int \<Rightarrow> 't result" where
  "getScalar a i = op_at a i"

definition getIndexedScalar :: "'t ndarray \<Rightarrow> int \<Rightarrow> 't result" where
  "getIndexedScalar a i = op_at a i"

definition getScalar2 :: "'t ndarray \<Rightarrow> int \<Rightarrow> int \<Rightarrow> 't result" where
  "getScalar2 a i j = op_at2 a i j"

definition getScalar3 :: "'t ndarray \<Rightarrow> int \<Rightarrow> int \<Rightarrow> int \<Rightarrow> 't result" where
  "getScalar3 a i j k = op_at3 a i j k"

text \<open>Storing through a reference.\<close>

definition store_at :: "'t ndarray \<Rightarrow> int result \<Rightarrow> 't \<Rightarrow> 't ndarray result" where
  "store_at a ref v = do {
     q \<leftarrow> ref;
     (case q of
        Inl e \<Rightarrow> Some (Inl e)
      | Inr k \<Rightarrow> do {
          buffer \<leftarrow> nd_buffer a;
          buffer \<leftarrow> wr buffer k v;
          Some (Inr (a\<lparr>nd_buffer := Some buffer\<rparr>)) }) }"

definition putScalar :: "'t ndarray \<Rightarrow> int \<Rightarrow> 't \<Rightarrow> 't ndarray result" where
  "putScalar a i v = store_at a (op_at_ref a i) v"

definition putIndexedScalar :: "'t ndarray \<Rightarrow> int \<Rightarrow> 't \<Rightarrow> 't ndarray result" where
  "putIndexedScalar a i v = store_at a (op_at_ref a i) v"

definition putScalar2 :: "'t ndarray \<Rightarrow> int \<Rightarrow> int \<Rightarrow> 't \<Rightarrow> 't ndarray result" where
  "putScalar2 a i j v = store_at a (op_at2_ref a i j) v"

definition putScalar3 :: "'t ndarray \<Rightarrow> int \<Rightarrow> int \<Rightarrow> int \<Rightarrow> 't \<Rightarrow> 't ndarray result" where
  "putScalar3 a i j k v = store_at a (op_at3_ref a i j k) v"

section \<open>Copies\<close>

text \<open>\<open>assign\<close>: scalars are copied or broadcast, contiguous arrays of one order with \<open>memcpy\<close>, others with a
  native loop. The arguments are \<open>execScalar(13, ..)\<close> and \<open>execPairwiseTransform(1, ..)\<close> on the target array.\<close>

definition nd_assign :: "('t ndarray \<Rightarrow> 't \<Rightarrow> 't ndarray option) \<Rightarrow> ('t ndarray \<Rightarrow> 't ndarray \<Rightarrow> 't ndarray option) \<Rightarrow>
    't ndarray \<Rightarrow> 't ndarray \<Rightarrow> 't ndarray result" where
  "nd_assign execScalar execPairwise this other = do {
     s \<leftarrow> nd_isScalar this;
     s' \<leftarrow> nd_isScalar other;
     if s \<and> s' then do {
       v \<leftarrow> value_at other 0;
       buffer \<leftarrow> nd_buffer this;
       buffer \<leftarrow> wr buffer 0 v;
       Some (Inr (this\<lparr>nd_buffer := Some buffer\<rparr>)) }
     else if s' then do { v \<leftarrow> value_at other 0; r \<leftarrow> execScalar this v; Some (Inr r) }
     else do {
       n \<leftarrow> lengthOf this;
       n' \<leftarrow> lengthOf other;
       if n' \<noteq> n then Some (Inl (Thrown ''Lengths of arrays are mismatched''))
       else do {
         ord \<leftarrow> ordering this;
         ord' \<leftarrow> ordering other;
         e \<leftarrow> nd_ews this;
         e' \<leftarrow> nd_ews other;
         if ord = ord' \<and> e = 1 \<and> e' = 1 then do {
           from' \<leftarrow> nd_buffer other;
           to \<leftarrow> nd_buffer this;
           if 0 \<le> n \<and> n \<le> int (length from') \<and> n \<le> int (length to)
           then Some (Inr (this\<lparr>nd_buffer := Some (take (nat n) from' @ drop (nat n) to)\<rparr>))
           else None }
         else do { r \<leftarrow> execPairwise this other; Some (Inr r) } } } }"

text \<open>\<open>dup\<close> of an array outside workspaces; the order 97 is \<open>'a'\<close>, the order of the array itself.\<close>

definition dup :: "('t ndarray \<Rightarrow> 't \<Rightarrow> 't ndarray option) \<Rightarrow> ('t ndarray \<Rightarrow> 't ndarray \<Rightarrow> 't ndarray option) \<Rightarrow>
    't ndarray \<Rightarrow> int \<Rightarrow> 't ndarray result" where
  "dup execScalar execPairwise a newOrder = do {
     newLength \<leftarrow> lengthOf a;
     ord \<leftarrow> (if newOrder = 97 then ordering a else Some newOrder);
     _ \<leftarrow> (if 0 \<le> newLength then Some () else None);
     r \<leftarrow> rankOf a;
     s \<leftarrow> nd_shapeOf a;
     newShapeInfo \<leftarrow> (if ord = 102 then shapeBufferFortran r s else shapeBuffer r s);
     newShapeInfo \<leftarrow> wr newShapeInfo (r * 2 + 2) 1;
     nd_assign execScalar execPairwise
       \<lparr>nd_buffer = Some (replicate (nat newLength) undefined), nd_shapeInfo = Some newShapeInfo\<rparr> a }"

section \<open>Well-formed arrays\<close>

text \<open>The offset of the element with the linear index \<open>x\<close>.\<close>

definition elem :: "int list \<Rightarrow> int list \<Rightarrow> int \<Rightarrow> int" where
  "elem sh st x = dot (c_coords sh x) st"

text \<open>An array of shape \<open>sh\<close> and strides \<open>st\<close>: every element lies in the buffer, and a positive
  element-wise stride in C order is the distance of consecutive elements.\<close>

definition shaped :: "int list \<Rightarrow> int list \<Rightarrow> 't ndarray \<Rightarrow> bool" where
  "shaped sh st a \<longleftrightarrow> small_shape sh \<and> dims_ok sh st \<and> length sh \<le> 32 \<and> nonneg st \<and>
     (\<exists>off e ord buf. nd_shapeInfo a = Some (mk_info sh st off e ord) \<and> nd_buffer a = Some buf \<and>
        extent sh st < int (length buf) \<and> int (length buf) \<le> 9223372036854775807 \<and>
        (to_char ord = 99 \<longrightarrow> 1 \<le> e \<longrightarrow> (\<forall>x. 0 \<le> x \<longrightarrow> x < prod_list sh \<longrightarrow> elem sh st x = e * x)))"

lemma shapedE:
  assumes "shaped sh st a"
  obtains off e ord buf where "nd_shapeInfo a = Some (mk_info sh st off e ord)" "nd_buffer a = Some buf"
    "extent sh st < int (length buf)" "int (length buf) \<le> 9223372036854775807"
    "\<And>x. to_char ord = 99 \<Longrightarrow> 1 \<le> e \<Longrightarrow> 0 \<le> x \<Longrightarrow> x < prod_list sh \<Longrightarrow> elem sh st x = e * x"
    "small_shape sh" "dims_ok sh st" "length sh \<le> 32" "nonneg st" "pos_shape sh" "prod_list sh \<le> 2147483647"
proof -
  from assms obtain off e ord buf where "nd_shapeInfo a = Some (mk_info sh st off e ord)" "nd_buffer a = Some buf"
    "extent sh st < int (length buf)" "int (length buf) \<le> 9223372036854775807"
    "\<And>x. to_char ord = 99 \<Longrightarrow> 1 \<le> e \<Longrightarrow> 0 \<le> x \<Longrightarrow> x < prod_list sh \<Longrightarrow> elem sh st x = e * x"
    "small_shape sh" "dims_ok sh st" "length sh \<le> 32" "nonneg st"
    unfolding shaped_def by blast
  then show thesis using that [of off e ord buf] by (simp add: small_shape_def)
qed

text \<open>A contiguous array in C order.\<close>

lemma shaped_c:
  assumes "small_shape sh" "2 * int (length sh) + 4 \<le> 2147483647" "length sh \<le> 32"
    and "nd_shapeInfo a = Some (mk_info sh (c_strides sh) off 1 99)" "nd_buffer a = Some buf"
    and "int (length buf) = prod_list sh"
  shows "shaped sh (c_strides sh) a"
proof -
  have pos: "pos_shape sh" using assms(1) by (simp add: small_shape_def)
  have "extent sh (c_strides sh) < prod_list sh"
  proof -
    have "in_box sh (map (\<lambda>d. d - 1) sh)" using pos by (induction sh) auto
    then show ?thesis using c_linear_range [of sh "map (\<lambda>d. d - 1) sh"] by (simp add: extent_def)
  qed
  then show ?thesis
    unfolding shaped_def using assms pos
    by (intro conjI exI [of _ off] exI [of _ 1] exI [of _ 99] exI [of _ buf])
      (auto simp: dims_ok_def nonneg_c_strides c_coords_dot small_shape_def elem_def)
qed

named_theorems nd_simps \<open>reading a well-formed array\<close>

lemma shaped_reads:
  assumes "nd_shapeInfo a = Some (mk_info sh st off e ord)" "small_shape sh" "dims_ok sh st"
  shows "rankOf a = Some (int (length sh))" "lengthOf a = Some (prod_list sh)" "nd_ews a = Some e"
    "ordering a = Some (to_char ord)" "nd_shapeOf a = Some (sh @ st @ [off, e, ord])"
    "stridesOf a = Some (st @ [off, e, ord])"
  using assms
  by (simp_all add: rankOf_def lengthOf_def nd_ews_def ordering_def nd_shapeOf_def stridesOf_def info_simps small_shape_def)

lemma offset_in_buffer:
  assumes "shaped sh st a" "in_box sh idx"
  shows "\<exists>buf. nd_buffer a = Some buf \<and> 0 \<le> dot idx st \<and> dot idx st < int (length buf)"
proof -
  obtain off e ord buf where "nd_buffer a = Some buf" "extent sh st < int (length buf)" "nonneg st"
    by (rule shapedE [OF assms(1)])
  then show ?thesis
    using dot_le_extent [OF assms(2), of st] dot_nonneg [OF in_box_nonneg [OF assms(2)], of st] by auto
qed

lemma cell_at_eq:
  assumes "shaped sh st a" "in_box sh idx"
  shows "cell_at a idx = Some (dot idx st)"
proof -
  obtain off e ord buf where a: "nd_shapeInfo a = Some (mk_info sh st off e ord)" "nd_buffer a = Some buf"
    "int (length buf) \<le> 9223372036854775807" "small_shape sh" "dims_ok sh st" "nonneg st"
    by (rule shapedE [OF assms(1)])
  have o: "0 \<le> dot idx st" "dot idx st < int (length buf)"
    using offset_in_buffer [OF assms] a(2) by auto
  have "getOffset 0 (sh @ st @ [off, e, ord]) (st @ [off, e, ord]) idx (int (length sh)) = Some (0 + dot idx st)"
    using a o assms(2) by (intro getOffset_eq) (auto simp: dims_ok_def in_box_length)
  then show ?thesis
    using shaped_reads [OF a(1,4,5)] a(2) o by (simp add: cell_at_def rd_def)
qed

lemma elem_in_buffer:
  assumes "shaped sh st a" "0 \<le> x" "x < prod_list sh"
  shows "\<exists>buf. nd_buffer a = Some buf \<and> 0 \<le> elem sh st x \<and> elem sh st x < int (length buf)"
  using offset_in_buffer [OF assms(1) c_coords_in_box [OF _ assms(2,3)]] shapedE [OF assms(1)]
  by (auto simp: elem_def)

lemma op_at_ref_eq:
  assumes "shaped sh st a" "0 \<le> x" "x < prod_list sh"
  shows "op_at_ref a x = Some (Inr (elem sh st x))"
proof -
  obtain off e ord buf where a: "nd_shapeInfo a = Some (mk_info sh st off e ord)" "nd_buffer a = Some buf"
    and len: "int (length buf) \<le> 9223372036854775807" "prod_list sh \<le> 2147483647"
    and ok: "small_shape sh" "dims_ok sh st" "nonneg st" "pos_shape sh" "length sh \<le> 32"
    and ews: "\<And>x. to_char ord = 99 \<Longrightarrow> 1 \<le> e \<Longrightarrow> 0 \<le> x \<Longrightarrow> x < prod_list sh \<Longrightarrow> elem sh st x = e * x"
    by (rule shapedE [OF assms(1)]) (rule that; assumption)
  have o: "0 \<le> elem sh st x" "elem sh st x < int (length buf)"
    using elem_in_buffer [OF assms] a(2) by auto
  note reads = shaped_reads [OF a(1) ok(1,2)]
  have v: "value_at a (elem sh st x) = Some (buf ! nat (elem sh st x))"
    using o a(2) by (simp add: value_at_def rd_def)
  show ?thesis
  proof (cases "1 \<le> e \<and> to_char ord = 99")
    case True
    then have eq: "elem sh st x = e * x" using ews assms(2,3) by simp
    then have "i64 (x * e) = Some (elem sh st x)"
      using o len by (simp add: i64_def mult.commute)
    then show ?thesis
      using True eq v assms(3) by (cases "e = 1") (simp_all add: op_at_ref_def reads)
  next
    case False
    have "ind2subC_infer (int (length sh)) (sh @ st @ [off, e, ord]) x (replicate 32 undefined) =
        Some (c_coords sh x @ drop (length sh) (replicate 32 undefined))"
      using ok assms by (intro ind2subC_infer_eq) auto
    moreover have "getOffset 0 (sh @ st @ [off, e, ord]) (st @ [off, e, ord])
        (c_coords sh x @ drop (length sh) (replicate 32 undefined)) (int (length sh)) =
        Some (0 + dot (c_coords sh x) st)"
      using ok assms(2,3) o len c_coords_in_box [OF ok(4) assms(2,3)]
      by (intro getOffset_eq) (auto simp: dims_ok_def elem_def)
    moreover have "to_int x = x" using assms(2,3) len by (simp add: to_int_id)
    moreover have "new_int 32 = Some (replicate 32 undefined)" by (simp add: new_int_def)
    ultimately show ?thesis
      using False v assms(3) by (auto simp: op_at_ref_def reads elem_def)
  qed
qed

lemma op_at_of_ref:
  "op_at_ref a i = Some (Inr k) \<Longrightarrow> op_at a i = map_option Inr (value_at a k)"
  by (auto simp: op_at_def op_at_ref_def bind_eq_Some_conv split: if_split_asm)

lemma op_at_eq:
  assumes "shaped sh st a" "0 \<le> x" "x < prod_list sh"
  shows "op_at a x = map_option Inr (value_at a (elem sh st x))"
  by (rule op_at_of_ref) (rule op_at_ref_eq [OF assms])

lemma op_at_beyond:
  assumes "shaped sh st a" "prod_list sh \<le> x"
  shows "\<exists>m. op_at a x = Some (Inl (Invalid_argument m))" "\<exists>m. op_at_ref a x = Some (Inl (Invalid_argument m))"
proof -
  obtain off e ord where a: "nd_shapeInfo a = Some (mk_info sh st off e ord)" "small_shape sh" "dims_ok sh st"
    by (rule shapedE [OF assms(1)])
  show "\<exists>m. op_at a x = Some (Inl (Invalid_argument m))" "\<exists>m. op_at_ref a x = Some (Inl (Invalid_argument m))"
    using assms(2) by (simp_all add: op_at_def op_at_ref_def shaped_reads [OF a])
qed

text \<open>Coordinates inside the shape pass the guards.\<close>

lemma beyond_eq:
  assumes "shaped sh st a" "k < length sh"
  shows "beyond a (int k) x = Some (sh ! k \<le> x)"
proof -
  obtain off e ord where a: "nd_shapeInfo a = Some (mk_info sh st off e ord)" "small_shape sh" "dims_ok sh st"
    by (rule shapedE [OF assms(1)])
  show ?thesis
    using assms(2) by (simp add: beyond_def shaped_reads [OF a] rd_def nth_append del: of_nat_Suc)
qed

lemma c_strides_dots:
  "dot [i, j] (c_strides [d, e]) = i * e + j"
  "dot [i, j, k] (c_strides [d, e, f]) = i * (e * f) + (j * f + k)"
  "dot [i, j, k, l] (c_strides [d, e, f, g]) = i * (e * (f * g)) + (j * (f * g) + (k * g + l))"
  by simp_all

lemma coordinates_to_linear:
  assumes "shaped sh st a" "in_box sh idx"
  defines "x \<equiv> dot idx (c_strides sh)"
  shows "op_at_ref a x = Some (Inr (dot idx st))" "op_at a x = map_option Inr (value_at a (dot idx st))"
proof -
  have x: "0 \<le> x" "x < prod_list sh" "elem sh st x = dot idx st"
    using c_linear_range [OF assms(2)] c_coords_of_dot [OF assms(2)] by (simp_all add: x_def elem_def)
  show "op_at_ref a x = Some (Inr (dot idx st))" "op_at a x = map_option Inr (value_at a (dot idx st))"
    using op_at_ref_eq [OF assms(1) x(1,2)] op_at_eq [OF assms(1) x(1,2)] by (simp_all add: x(3))
qed

lemma guards_eq:
  assumes "shaped sh st a"
  shows "rankOf a = Some (int (length sh))"
    and "0 < length sh \<Longrightarrow> beyond a 0 x = Some (sh ! 0 \<le> x)"
    and "1 < length sh \<Longrightarrow> beyond a 1 x = Some (sh ! 1 \<le> x)"
    and "2 < length sh \<Longrightarrow> beyond a 2 x = Some (sh ! 2 \<le> x)"
    and "3 < length sh \<Longrightarrow> beyond a 3 x = Some (sh ! 3 \<le> x)"
proof -
  obtain off e ord where a: "nd_shapeInfo a = Some (mk_info sh st off e ord)" "small_shape sh" "dims_ok sh st"
    by (rule shapedE [OF assms(1)])
  show "rankOf a = Some (int (length sh))" by (rule shaped_reads [OF a])
qed (use beyond_eq [OF assms(1), of 0 x] beyond_eq [OF assms(1), of 1 x] beyond_eq [OF assms(1), of 2 x]
      beyond_eq [OF assms(1), of 3 x] in simp_all)

lemma op_at2_eq:
  assumes "shaped [d, e] st a" "in_box [d, e] [i, j]"
  shows "op_at2 a i j = map_option Inr (value_at a (dot [i, j] st))" "op_at2_ref a i j = Some (Inr (dot [i, j] st))"
  using assms(2) cell_at_eq [OF assms] guards_eq [OF assms(1)]
  by (cases "value_at a (dot [i, j] st)", simp_all add: op_at2_def op_at2_ref_def)

lemma op_at3_ref_eq:
  assumes "shaped [d, e, f] st a" "in_box [d, e, f] [i, j, k]"
  shows "op_at3_ref a i j k = Some (Inr (dot [i, j, k] st))"
  using assms(2) cell_at_eq [OF assms] guards_eq [OF assms(1)] by (simp add: op_at3_ref_def)

lemma op_at3_eq:
  assumes "shaped [d, e, f] st a" "in_box [d, e, f] [i, j, k]"
  shows "j < f \<Longrightarrow> op_at3 a i j k = map_option Inr (value_at a (dot [i, j, k] st))"
    and "f \<le> j \<Longrightarrow> \<exists>msg. op_at3 a i j k = Some (Inl (Invalid_argument msg))"
  using assms(2) cell_at_eq [OF assms] guards_eq [OF assms(1)]
  by (cases "value_at a (dot [i, j, k] st)", simp_all add: op_at3_def)

lemma op_at4_eq:
  assumes "shaped [d, e, f, g] st a" "in_box [d, e, f, g] [t, u, v, w]"
  shows "op_at4 a t u v w = map_option Inr (value_at a (dot [t, u, v, w] st))"
    "op_at4_ref a t u v w = Some (Inr (dot [t, u, v, w] st))"
  using assms(2) cell_at_eq [OF assms] guards_eq [OF assms(1)]
  by (cases "value_at a (dot [t, u, v, w] st)", simp_all add: op_at4_def op_at4_ref_def)

text \<open>Writing a cell keeps the array well formed.\<close>

lemma shaped_write:
  assumes "shaped sh st a" "nd_buffer a = Some buf" "length buf' = length buf"
  shows "shaped sh st (a\<lparr>nd_buffer := Some buf'\<rparr>)"
  using assms by (auto simp: shaped_def)

text \<open>Copying a contiguous array in C order.\<close>

lemma nd_isScalar_eq:
  "nd_shapeInfo a = Some (mk_info sh st off e ord) \<Longrightarrow> nd_isScalar a = Some (sh \<in> {[], [1], [1, 1]})"
  by (simp add: nd_isScalar_def isScalar_mk_info)

lemma assign_contiguous:
  assumes "small_shape sh" "dims_ok sh st" "dims_ok sh st'"
    and "nd_shapeInfo a = Some (mk_info sh st off 1 99)" "nd_buffer a = Some buf" "int (length buf) = prod_list sh"
    and "nd_shapeInfo t = Some (mk_info sh st' off' 1 99)" "nd_buffer t = Some buf'" "length buf' = length buf"
  shows "nd_assign eS eP t a = Some (Inr (t\<lparr>nd_buffer := Some buf\<rparr>))"
proof (cases "sh \<in> {[], [1], [1, 1]}")
  case True
  then have "prod_list sh = 1" by auto
  then obtain x y where "buf = [x]" "buf' = [y]" using assms(6,9) by (auto simp: length_Suc_conv)
  then show ?thesis
    using True assms(4,5,7,8) by (auto simp: nd_assign_def nd_isScalar_eq value_at_def rd_def wr_def)
next
  case False
  then show ?thesis
    using assms by (simp add: nd_assign_def nd_isScalar_eq shaped_reads to_char_def)
qed

lemma dup_contiguous:
  assumes "small_shape sh" "dims_ok sh st"
    and "nd_shapeInfo a = Some (mk_info sh st off 1 99)" "nd_buffer a = Some buf" "int (length buf) = prod_list sh"
  shows "dup eS eP a 97 = Some (Inr \<lparr>nd_buffer = Some buf,
           nd_shapeInfo = Some (mk_info sh (code_c_strides sh) 0 1 99)\<rparr>)"
proof -
  have dims: "dims_ok sh (code_c_strides sh)" "length st = length sh" using assms(2) by (auto simp: dims_ok_def)
  let ?new = "\<lparr>nd_buffer = Some (replicate (nat (prod_list sh)) undefined),
    nd_shapeInfo = Some (mk_info sh (code_c_strides sh) 0 1 99)\<rparr>"
  obtain e where e: "shapeBuffer (int (length sh)) (sh @ st @ [off, 1, 99]) = Some (mk_info sh (code_c_strides sh) 0 e 99)"
    using shapeBuffer_cases [OF assms(1), of "sh @ st @ [off, 1, 99]"] assms(2) by (auto simp: dims_ok_def)
  have w: "wr (mk_info sh (code_c_strides sh) 0 e 99) (int (length sh) * 2 + 2) 1 = Some (mk_info sh (code_c_strides sh) 0 1 99)"
    using wr_tail_mk_info(2) [of "code_c_strides sh" sh 0 e 99 1] by (simp add: algebra_simps)
  have len: "nat (prod_list sh) = length buf" using assms(5) by linarith
  have "nd_assign eS eP ?new a = Some (Inr (?new\<lparr>nd_buffer := Some buf\<rparr>))"
    using assign_contiguous [OF assms(1,2) dims(1) assms(3,4,5), of ?new 0 "replicate (nat (prod_list sh)) undefined" eS eP]
      len by simp
  then show ?thesis
    using assms e w by (simp add: dup_def shaped_reads to_char_def)
qed

section \<open>Edge cases\<close>

text \<open>An array of shape \<open>[1, 3, 2]\<close>.\<close>

definition array_132 :: "int ndarray" where
  "array_132 = \<lparr>nd_buffer = Some [10, 11, 12, 13, 14, 15],
     nd_shapeInfo = Some [3, 1, 3, 2, 6, 2, 1, 0, 1, 99]\<rparr>"

text \<open>Reading with three coordinates rejects an element that exists and writing accepts.\<close>

lemma op_at3_rejects_valid:
  "(case op_at3 array_132 0 2 1 of Some (Inl _) \<Rightarrow> True | _ \<Rightarrow> False) \<and> op_at3_ref array_132 0 2 1 = Some (Inr 5)"
  by code_simp

text \<open>And it accepts a last coordinate beyond the axis, for which \<open>getOffset\<close> answers -1.\<close>

lemma op_at3_reads_before: "op_at3 array_132 0 0 2 = None"
  by code_simp

text \<open>The linear index is only compared with the length: a negative one reads before the buffer.\<close>

lemma op_at_negative: "op_at array_132 (- 1) = None"
  by code_simp

section \<open>Properties\<close>

text \<open>C19: Element access by linear index: inside the length, whether through the element-wise stride or through coordinates,
  it reaches the cell at the row-major coordinates of the index, which lies in the buffer; from the length on
  it throws.\<close>

theorem linear_access:
  assumes "shaped sh st a" "nd_buffer a = Some buf" "0 \<le> x"
  shows "if x < prod_list sh
    then op_at a x = Some (Inr (buf ! nat (dot (c_coords sh x) st))) \<and>
         op_at_ref a x = Some (Inr (dot (c_coords sh x) st)) \<and>
         0 \<le> dot (c_coords sh x) st \<and> dot (c_coords sh x) st < int (length buf)
    else (\<exists>m. op_at a x = Some (Inl (Invalid_argument m))) \<and> (\<exists>m. op_at_ref a x = Some (Inl (Invalid_argument m)))"
proof (cases "x < prod_list sh")
  case True
  then show ?thesis
    using op_at_eq [OF assms(1,3)] op_at_ref_eq [OF assms(1,3)] elem_in_buffer [OF assms(1,3)] assms(2)
    by (auto simp: elem_def value_at_def rd_def)
next
  case False
  then show ?thesis using op_at_beyond [OF assms(1), of x] by simp
qed

lemma shaped_132: "shaped [1, 3, 2] [6, 2, 1] array_132"
  using shaped_c [of "[1, 3, 2]" array_132 0 "[10, 11, 12, 13, 14, 15]"]
  by (simp add: array_132_def mk_info_def small_shape_def)

theorem linear_access_witness:
  "op_at array_132 4 = Some (Inr 14) \<and> (\<exists>m. op_at array_132 6 = Some (Inl (Invalid_argument m)))"
  using linear_access [OF shaped_132, of "[10, 11, 12, 13, 14, 15]" 4]
    linear_access [OF shaped_132, of "[10, 11, 12, 13, 14, 15]" 6]
  by (simp add: array_132_def)

text \<open>C21: For coordinates inside the shape, access by two or four coordinates, and by three for writing, reaches the same
  cell as access by the row-major linear index of the coordinates. Reading with three coordinates does so exactly when the
  middle coordinate is below the last axis, which is what the code compares it with, and throws otherwise.\<close>

theorem coordinate_access:
  assumes "shaped sh st a" "in_box sh idx"
  shows "let x = dot idx (c_strides sh) in
    (case idx of
       [i, j] \<Rightarrow> op_at2 a i j = op_at a x \<and> op_at2_ref a i j = op_at_ref a x
     | [i, j, k] \<Rightarrow> op_at3_ref a i j k = op_at_ref a x \<and>
         (if j < sh ! 2 then op_at3 a i j k = op_at a x else \<exists>msg. op_at3 a i j k = Some (Inl (Invalid_argument msg)))
     | [t, u, v, w] \<Rightarrow> op_at4 a t u v w = op_at a x \<and> op_at4_ref a t u v w = op_at_ref a x
     | _ \<Rightarrow> True)"
proof -
  note lin = coordinates_to_linear [OF assms]
  have len: "length sh = length idx" using in_box_length [OF assms(2)] by simp
  consider "length idx \<notin> {2, 3, 4}" | "length idx = 2" | "length idx = 3" | "length idx = 4" by auto
  then show ?thesis
  proof cases
    case 1
    then show ?thesis by (auto simp: Let_def split: list.split)
  next
    case 2
    then obtain i j d e where "idx = [i, j]" "sh = [d, e]"
      using len by (auto simp: numeral_2_eq_2 length_Suc_conv)
    then show ?thesis using op_at2_eq [of d e st a i j] lin assms by (simp add: Let_def del: dot_simps in_box_simps)
  next
    case 3
    then obtain i j k d e f where "idx = [i, j, k]" "sh = [d, e, f]"
      using len by (auto simp: numeral_3_eq_3 length_Suc_conv)
    then show ?thesis using op_at3_ref_eq [of d e f st a i j k] op_at3_eq [of d e f st a i j k] lin assms
      by (simp add: Let_def del: dot_simps in_box_simps)
  next
    case 4
    then obtain t u v w d e f g where "idx = [t, u, v, w]" "sh = [d, e, f, g]"
      using len by (auto simp: numeral_eq_Suc length_Suc_conv)
    then show ?thesis using op_at4_eq [of d e f g st a t u v w] lin assms by (simp add: Let_def del: dot_simps in_box_simps)
  qed
qed

theorem coordinate_access_witness:
  "op_at3_ref array_132 0 2 1 = op_at_ref array_132 5 \<and> op_at3 array_132 0 1 1 = op_at array_132 3 \<and>
   (\<exists>msg. op_at3 array_132 0 2 1 = Some (Inl (Invalid_argument msg)))"
  using coordinate_access [OF shaped_132, of "[0, 2, 1]"] coordinate_access [OF shaped_132, of "[0, 1, 1]"] by simp

text \<open>C23: \<open>dup\<close> of a contiguous array in C order is a well-formed contiguous array with the same elements, whatever the native
  loops do.\<close>

theorem dup_same_elements:
  assumes "small_shape sh" "dims_ok sh (c_strides sh)" "length sh \<le> 32"
    and "nd_shapeInfo a = Some (mk_info sh (c_strides sh) off 1 99)" "nd_buffer a = Some buf" "int (length buf) = prod_list sh"
    and "0 \<le> x" "x < prod_list sh"
  shows "\<exists>r. dup execScalar execPairwise a 97 = Some (Inr r) \<and> shaped sh (code_c_strides sh) r \<and>
    op_at r x = op_at a x"
proof -
  let ?r = "\<lparr>nd_buffer = Some buf, nd_shapeInfo = Some (mk_info sh (code_c_strides sh) 0 1 99)\<rparr>"
  have a: "shaped sh (c_strides sh) a"
    using assms by (intro shaped_c) (auto simp: dims_ok_def)
  have pos: "pos_shape sh" using assms(1) by (simp add: small_shape_def)
  have e: "elem sh (code_c_strides sh) y = elem sh (c_strides sh) y" if "0 \<le> y" "y < prod_list sh" for y
    using dot_code_c [OF c_coords_in_box [OF pos that]] by (simp add: elem_def)
  have "extent sh (code_c_strides sh) = extent sh (c_strides sh)"
  proof -
    have "in_box sh (map (\<lambda>d. d - 1) sh)" using pos by (induction sh) auto
    then show ?thesis using dot_code_c by (simp add: extent_def)
  qed
  moreover have "extent sh (c_strides sh) < int (length buf)" "int (length buf) \<le> 9223372036854775807"
    using shapedE [OF a] assms(5) by auto
  moreover have "elem sh (c_strides sh) y = y" if "0 \<le> y" "y < prod_list sh" for y
    using c_coords_dot [OF pos that] by (simp add: elem_def)
  ultimately have r: "shaped sh (code_c_strides sh) ?r"
    unfolding shaped_def using assms(1,2,3) pos e
    by (intro conjI exI [of _ 0] exI [of _ 1] exI [of _ 99] exI [of _ buf])
      (simp_all add: dims_ok_def nonneg_code_strides)
  have "op_at ?r x = op_at a x"
    using op_at_eq [OF r assms(7,8)] op_at_eq [OF a assms(7,8)] e [OF assms(7,8)] assms(5) by (simp add: value_at_def)
  then show ?thesis using dup_contiguous [OF assms(1,2,4,5,6)] r by blast
qed

theorem dup_same_elements_witness:
  "\<exists>r. dup (\<lambda>_ _. None) (\<lambda>_ _. None) array_132 97 = Some (Inr r) \<and> op_at r 4 = op_at array_132 4"
  using dup_same_elements [of "[1, 3, 2]" array_132 0 "[10, 11, 12, 13, 14, 15]" 4]
  by (auto simp: small_shape_def dims_ok_def array_132_def mk_info_def)

text \<open>C22: In an array whose elements lie in different cells, storing an element by linear index changes that element
  and no other.\<close>

theorem put_then_get:
  assumes "shaped sh st a" "inj_on (\<lambda>x. dot (c_coords sh x) st) {0..<prod_list sh}"
    and "0 \<le> x" "x < prod_list sh" "0 \<le> y" "y < prod_list sh"
  shows "\<exists>a'. putScalar a x v = Some (Inr a') \<and> shaped sh st a' \<and>
    getScalar a' y = (if y = x then Some (Inr v) else getScalar a y)"
proof -
  obtain buf where buf: "nd_buffer a = Some buf" "0 \<le> elem sh st x" "elem sh st x < int (length buf)"
    using elem_in_buffer [OF assms(1,3,4)] by auto
  let ?a = "a\<lparr>nd_buffer := Some (buf[nat (elem sh st x) := v])\<rparr>"
  have put: "putScalar a x v = Some (Inr ?a)"
    using buf op_at_ref_eq [OF assms(1,3,4)] by (simp add: putScalar_def store_at_def wr_def)
  have ok: "shaped sh st ?a" by (rule shaped_write [OF assms(1) buf(1)]) simp
  have y: "0 \<le> elem sh st y" "elem sh st y < int (length buf)"
    using elem_in_buffer [OF assms(1,5,6)] buf(1) by auto
  have "elem sh st y = elem sh st x \<longleftrightarrow> y = x"
    using inj_on_eq_iff [OF assms(2), of y x] assms(3-6) by (simp add: elem_def)
  then have "nat (elem sh st y) = nat (elem sh st x) \<longleftrightarrow> y = x" using y buf by auto
  then show ?thesis
    using put ok y buf op_at_eq [OF ok assms(5,6)] op_at_eq [OF assms(1,5,6)]
    by (auto simp: getScalar_def value_at_def rd_def)
qed

theorem put_then_get_witness:
  "\<exists>a'. putScalar array_132 2 99 = Some (Inr a') \<and> getScalar a' 3 = getScalar array_132 3"
proof -
  have "inj_on (\<lambda>x. dot (c_coords [1, 3, 2] x) [6, 2, 1]) {0..<6}"
    using c_coords_dot [of "[1, 3, 2]"] by (auto simp: inj_on_def)
  then show ?thesis
    using put_then_get [OF shaped_132, of 2 3 99] by auto
qed

end
