(* ===== verification/OrdMap.thy ===== *)
theory OrdMap
  imports Prelude
begin

text \<open>
  \<open>std::map\<close>: the list of its entries in ascending order of the keys, which is the order its iterators
  visit them. Lookup is \<open>map_of\<close>.
\<close>

section \<open>Operations\<close>

fun map_put :: "'k::linorder \<Rightarrow> 'v \<Rightarrow> ('k \<times> 'v) list \<Rightarrow> ('k \<times> 'v) list" where
  "map_put k v [] = [(k, v)]"
| "map_put k v ((k', v') # m) =
     (if k < k' then (k, v) # (k', v') # m
      else if k = k' then (k, v) # m
      else (k', v') # map_put k v m)"

definition map_count :: "'k \<Rightarrow> ('k \<times> 'v) list \<Rightarrow> nat" where
  "map_count k m = (if map_of m k = None then 0 else 1)"

definition map_ok :: "('k::linorder \<times> 'v) list \<Rightarrow> bool" where
  "map_ok m \<longleftrightarrow> sorted_wrt (<) (map fst m)"

section \<open>Laws\<close>

named_theorems map_simps \<open>maps after an operation\<close>

lemma map_put_keys [map_simps]: "fst ` set (map_put k v m) = insert k (fst ` set m)"
  by (induction k v m rule: map_put.induct) auto

lemma map_of_put [map_simps]: "map_ok m \<Longrightarrow> map_of (map_put k v m) = (map_of m)(k \<mapsto> v)"
proof (induction k v m rule: map_put.induct)
  case (2 k v k' v' m)
  have "map_of m k' = None" if "map_ok ((k', v') # m)"
    using that by (auto simp: map_ok_def map_of_eq_None_iff)
  then show ?case using 2 by (auto simp: map_ok_def fun_eq_iff)
qed (simp add: fun_eq_iff)

lemma map_ok_put [map_simps]: "map_ok m \<Longrightarrow> map_ok (map_put k v m)"
proof (induction k v m rule: map_put.induct)
  case (2 k v k' v' m)
  then show ?case using map_put_keys [of k v m] by (auto simp: map_ok_def)
qed (simp add: map_ok_def)

lemma map_ok_distinct: "map_ok m \<Longrightarrow> distinct (map fst m)"
  unfolding map_ok_def by (induction m) auto

lemma map_ok_Nil [simp]: "map_ok []"
  by (simp add: map_ok_def)

lemma map_of_Some_set: "map_ok m \<Longrightarrow> map_of m k = Some v \<longleftrightarrow> (k, v) \<in> set m"
  by (simp add: map_ok_distinct)

lemma map_count_0 [simp]: "map_count k m = 0 \<longleftrightarrow> map_of m k = None"
  by (simp add: map_count_def)

lemma map_count_pos [simp]: "map_count k m > 0 \<longleftrightarrow> map_of m k \<noteq> None"
  by (simp add: map_count_def)

lemma length_map_put:
  "map_ok m \<Longrightarrow> length (map_put k v m) = (if map_of m k = None then Suc (length m) else length m)"
proof (induction k v m rule: map_put.induct)
  case (2 k v k' v' m)
  have "map_of m k = None" if "map_ok ((k', v') # m)" "k < k'"
    using that by (auto simp: map_ok_def map_of_eq_None_iff dest: less_trans)
  then show ?case using 2 by (auto simp: map_ok_def)
qed simp

text \<open>The values: replacing the value of one key.\<close>

lemma map_values_put:
  "map_ok m \<Longrightarrow> snd ` set (map_put k v m) = insert v {w. \<exists>j. j \<noteq> k \<and> map_of m j = Some w}"
  using map_of_Some_set [OF map_ok_put, of m k v] by (force simp: map_of_put image_iff split: if_splits)

text \<open>Distinct values stay distinct when the new one is fresh.\<close>

definition map_inj :: "('k \<times> 'v) list \<Rightarrow> bool" where
  "map_inj m \<longleftrightarrow> distinct (map snd m)"

lemma map_inj_iff:
  assumes "map_ok m"
  shows "map_inj m \<longleftrightarrow> (\<forall>j k v. map_of m j = Some v \<longrightarrow> map_of m k = Some v \<longrightarrow> j = k)"
proof -
  have "inj_on snd (set m) \<longleftrightarrow> (\<forall>j k v. (j, v) \<in> set m \<longrightarrow> (k, v) \<in> set m \<longrightarrow> j = k)"
    by (force simp: inj_on_def)
  moreover have "distinct m" using map_ok_distinct [OF assms] by (simp add: distinct_map)
  ultimately show ?thesis
    by (simp add: map_inj_def distinct_map map_of_Some_set [OF assms])
qed

lemma map_inj_put:
  assumes "map_ok m" "map_inj m" "v \<notin> snd ` set m"
  shows "map_inj (map_put k v m)"
proof -
  have "map_of m j \<noteq> Some v" for j using assms(3) map_of_Some_set [OF assms(1)] by force
  then show ?thesis
    using assms(2) by (auto simp: map_inj_iff [OF assms(1)] map_inj_iff [OF map_ok_put [OF assms(1)]] map_of_put [OF assms(1)])
qed

end
