(* ===== verification/NDArrayLists.thy ===== *)
theory NDArrayLists
  imports NDArray Objects OrdMap
begin

text \<open>
  \<open>NDArrayList\<close> (\<open>include/array/impl/NDArrayList.cpp\<close>): numbered chunks of one reference shape, except for the
  first axis. The list owns its chunks: a write deletes the chunk it replaces, the destructor deletes
  all. The arrays live in a pool, chunks are pointers. \<open>stack\<close>, \<open>unstack\<close>, \<open>pick\<close> and
  \<open>equals\<close> run graph ops and native loops and are not part of the model.
\<close>

section \<open>The code\<close>

record NDArrayList =
  nl_id :: "int \<times> int"
  nl_name :: string
  nl_chunks :: "(int \<times> pointer) list"
  nl_elements :: int
  nl_counter :: int
  nl_shape :: "int list"
  nl_axis :: int
  nl_expandable :: bool
  nl_height :: int

type_synonym 't list_state = "'t ndarray pool \<times> NDArrayList"

definition new_NDArrayList :: "int \<Rightarrow> bool \<Rightarrow> NDArrayList" where
  "new_NDArrayList height expandable = \<lparr>nl_id = (0, 0), nl_name = [], nl_chunks = [], nl_elements = 0,
     nl_counter = 0, nl_shape = [], nl_axis = 0, nl_expandable = expandable, nl_height = height\<rparr>"

definition delete_NDArrayList :: "'t list_state \<Rightarrow> 't ndarray pool option" where
  "delete_NDArrayList s = (case s of (A, l) \<Rightarrow> mfor (\<lambda>(_, p) A. delete_ptr A p) (nl_chunks l) A)"

definition readRaw :: "NDArrayList \<Rightarrow> int \<Rightarrow> exn + pointer" where
  "readRaw l idx =
     (case map_of (nl_chunks l) idx of
        None \<Rightarrow> Inl (Thrown ''Bad index'')
      | Some p \<Rightarrow> Inr p)"

text \<open>\<open>read\<close> is a new array, a copy of the chunk.\<close>

definition read_chunk :: "('t ndarray \<Rightarrow> 't \<Rightarrow> 't ndarray option) \<Rightarrow> ('t ndarray \<Rightarrow> 't ndarray \<Rightarrow> 't ndarray option) \<Rightarrow>
    't list_state \<Rightarrow> int \<Rightarrow> (pointer \<times> 't ndarray pool) result" where
  "read_chunk execScalar execPairwise s idx = (case s of (A, l) \<Rightarrow>
     (case readRaw l idx of
        Inl e \<Rightarrow> Some (Inl e)
      | Inr p \<Rightarrow> do {
          a \<leftarrow> deref A p;
          q \<leftarrow> dup execScalar execPairwise a 97;
          (case q of
             Inl e \<Rightarrow> Some (Inl e)
           | Inr r \<Rightarrow> let (b, A) = new_object r A in Some (Inr (Some b, A))) }))"

text \<open>\<open>array->sizeAt(e)\<close> in the loops of \<open>write\<close>, where \<open>e\<close> is below the rank and it does not throw.\<close>

definition size_below_rank :: "'t ndarray \<Rightarrow> int \<Rightarrow> int option" where
  "size_below_rank a e = do { q \<leftarrow> nd_sizeAt a e; (case q of Inl _ \<Rightarrow> None | Inr v \<Rightarrow> Some v) }"

definition list_write :: "'t list_state \<Rightarrow> int \<Rightarrow> pointer \<Rightarrow> (int \<times> 't list_state) option" where
  "list_write s idx array = (case s of (A, l) \<Rightarrow> do {
     (A, l) \<leftarrow>
       (if map_count idx (nl_chunks l) = 0 then Some (A, l\<lparr>nl_elements := to_int (nl_elements l + 1)\<rparr>)
        else do {
          c \<leftarrow> map_of (nl_chunks l) idx;
          A \<leftarrow> delete_ptr A c;
          Some (A, l) });
     if length (nl_chunks l) = 0 then do {
       a \<leftarrow> deref A array;
       r \<leftarrow> rankOf a;
       shp \<leftarrow> mfor (\<lambda>e shp. do { v \<leftarrow> size_below_rank a e; Some (shp @ [v]) }) [0..r - 1] (nl_shape l);
       Some (0, A, l\<lparr>nl_shape := shp, nl_chunks := map_put idx array (nl_chunks l)\<rparr>) }
     else do {
       a \<leftarrow> deref A array;
       r \<leftarrow> rankOf a;
       if r \<noteq> int (length (nl_shape l)) then Some (32, A, l)
       else do {
         q \<leftarrow> mret (\<lambda>e u. do {
             d \<leftarrow> rd (nl_shape l) e;
             v \<leftarrow> size_below_rank a e;
             Some (if d \<noteq> v then Inl () else Inr u) }) [1..r - 1] ();
         (case q of
            Inl _ \<Rightarrow> Some (32, A, l)
          | Inr _ \<Rightarrow> Some (0, A, l\<lparr>nl_chunks := map_put idx array (nl_chunks l)\<rparr>)) } } })"

definition list_counter :: "NDArrayList \<Rightarrow> int \<times> NDArrayList" where
  "list_counter l = (nl_counter l, l\<lparr>nl_counter := to_int (nl_counter l + 1)\<rparr>)"

definition list_elements :: "NDArrayList \<Rightarrow> int" where
  "list_elements l = nl_elements l"

definition list_height :: "NDArrayList \<Rightarrow> int" where
  "list_height l = (if nl_height l \<noteq> 0 then nl_height l else to_int (int (length (nl_chunks l))))"

definition isWritten :: "NDArrayList \<Rightarrow> int \<Rightarrow> bool" where
  "isWritten l index = (if map_count index (nl_chunks l) > 0 then True else False)"

definition clone_NDArrayList ::
    "('t ndarray \<Rightarrow> 't \<Rightarrow> 't ndarray option) \<Rightarrow> ('t ndarray \<Rightarrow> 't ndarray \<Rightarrow> 't ndarray option) \<Rightarrow>
     't list_state \<Rightarrow> 't list_state result" where
  "clone_NDArrayList execScalar execPairwise s = (case s of (A, l) \<Rightarrow>
     let l' = (new_NDArrayList (nl_height l) (nl_expandable l))
           \<lparr>nl_axis := nl_axis l, nl_id := nl_id l, nl_name := nl_name l, nl_elements := nl_elements l\<rparr> in
     do {
       q \<leftarrow> mret (\<lambda>(i, p) (A, l'). do {
           a \<leftarrow> deref A p;
           q \<leftarrow> dup execScalar execPairwise a 97;
           (case q of
              Inl e \<Rightarrow> Some (Inl e)
            | Inr r \<Rightarrow> let (b, A) = new_object r A in
                Some (Inr (A, l'\<lparr>nl_chunks := map_put i (Some b) (nl_chunks l')\<rparr>))) }) (nl_chunks l) (A, l');
       Some q })"

section \<open>The invariant\<close>

text \<open>An array of shape \<open>sh\<close>, and a shape the list can take.\<close>

definition nd_dims :: "'t ndarray \<Rightarrow> int list \<Rightarrow> bool" where
  "nd_dims a sh \<longleftrightarrow> (\<exists>st off e ord. nd_shapeInfo a = Some (mk_info sh st off e ord) \<and> dims_ok sh st)"

definition fits :: "int list \<Rightarrow> NDArrayList \<Rightarrow> bool" where
  "fits sh l \<longleftrightarrow> (if nl_chunks l = [] then nl_shape l = []
     else length sh = length (nl_shape l) \<and> tl sh = tl (nl_shape l))"

text \<open>The chunks are different live arrays of the reference shape, and \<open>elements\<close> counts them.\<close>

definition chunk_ok :: "'t ndarray pool \<Rightarrow> NDArrayList \<Rightarrow> pointer \<Rightarrow> bool" where
  "chunk_ok A l p \<longleftrightarrow> (\<exists>b arr sh. p = Some b \<and> p_live A b = Some arr \<and> nd_dims arr sh \<and> fits sh l)"

definition list_ok :: "'t list_state \<Rightarrow> bool" where
  "list_ok s \<longleftrightarrow> (case s of (A, l) \<Rightarrow> pool_ok A \<and> map_ok (nl_chunks l) \<and> map_inj (nl_chunks l) \<and>
     (\<forall>p\<in>snd ` set (nl_chunks l). chunk_ok A l p) \<and> nl_elements l = int (length (nl_chunks l)) \<and>
     (nl_chunks l = [] \<longrightarrow> nl_shape l = []))"

lemma nd_dims_reads:
  assumes "nd_dims a sh"
  shows "rankOf a = Some (int (length sh))"
    and "k < length sh \<Longrightarrow> size_below_rank a (int k) = Some (sh ! k)"
  using assms
  by (auto simp: nd_dims_def rankOf_def info_simps size_below_rank_def nd_sizeAt_def rd_shape_mk_info)

lemma push_shape_loop:
  assumes "nd_dims a sh"
  shows "mfor (\<lambda>e shp. do { v \<leftarrow> size_below_rank a e; Some (shp @ [v]) }) [0..int (length sh) - 1] s = Some (s @ sh)"
proof -
  have "mfor (\<lambda>e shp. do { v \<leftarrow> size_below_rank a e; Some (shp @ [v]) }) [0..int (length sh) - 1] (s @ take 0 sh) =
      Some (s @ take (length sh) sh)"
    by (rule mfor_trace) (simp add: nd_dims_reads [OF assms] take_Suc_conv_app_nth)
  then show ?thesis by simp
qed

lemma set_upto_from_one: "set [1..int n - 1] = int ` {1..<n}"
proof -
  have "x \<in> int ` {1..<n}" if "1 \<le> x" "x \<le> int n - 1" for x
    using that by (intro image_eqI [of _ _ "nat x"]) auto
  then show ?thesis by auto
qed

lemma tl_eq_iff_nth:
  assumes "length xs = length ys"
  shows "(\<exists>k\<in>{1..<length xs}. xs ! k \<noteq> ys ! k) \<longleftrightarrow> tl xs \<noteq> tl ys"
proof (cases xs)
  case Nil
  then show ?thesis using assms by simp
next
  case (Cons x xs')
  then obtain y ys' where ys: "ys = y # ys'" "length xs' = length ys'" using assms by (cases ys) auto
  have "Suc ` {..<length xs'} = {1..<length xs}"
    using Cons by (simp add: image_Suc_atLeastLessThan lessThan_atLeast0)
  then have "(\<exists>k\<in>{1..<length xs}. xs ! k \<noteq> ys ! k) \<longleftrightarrow> (\<exists>k\<in>Suc ` {..<length xs'}. xs ! k \<noteq> ys ! k)"
    by (simp only:)
  also have "\<dots> \<longleftrightarrow> tl xs \<noteq> tl ys"
    using ys by (simp add: Cons list_eq_iff_nth_eq [of xs'] Bex_def)
  finally show ?thesis .
qed

lemma compare_shape_loop:
  assumes "nd_dims a sh" "length shp = length sh"
  shows "mret (\<lambda>e u. do { d \<leftarrow> rd shp e; v \<leftarrow> size_below_rank a e; Some (if d \<noteq> v then Inl () else Inr u) })
    [1..int (length sh) - 1] () = Some (if tl sh = tl shp then Inr () else Inl ())"
proof -
  have "mret (\<lambda>e u. do { d \<leftarrow> rd shp e; v \<leftarrow> size_below_rank a e; Some (if d \<noteq> v then Inl () else Inr u) })
    [1..int (length sh) - 1] () =
    Some (if \<exists>e\<in>set [1..int (length sh) - 1]. shp ! nat e \<noteq> sh ! nat e then Inl () else Inr ())"
  proof (rule mret_search)
    fix e assume "e \<in> set [1..int (length sh) - 1]"
    then obtain k where "e = int k" "k < length sh" unfolding set_upto_from_one by auto
    then show "(do { d \<leftarrow> rd shp e; v \<leftarrow> size_below_rank a e; Some (if d \<noteq> v then Inl () else Inr ()) }) =
        Some (if shp ! nat e \<noteq> sh ! nat e then Inl () else Inr ())"
      using assms(2) by (simp add: nd_dims_reads [OF assms(1)])
  qed
  then show ?thesis
    using tl_eq_iff_nth [of shp sh] assms(2) by (auto simp: set_upto_from_one simp del: set_upto)
qed

section \<open>Operations\<close>

text \<open>What a write does to the pool.\<close>

definition without :: "'a pool \<Rightarrow> pointer option \<Rightarrow> nat \<Rightarrow> 'a option" where
  "without A c = (case c of Some (Some b) \<Rightarrow> (p_live A)(b := None) | _ \<Rightarrow> p_live A)"

lemma delete_chunk:
  assumes "list_ok (A, l)" "map_of (nl_chunks l) idx = Some p"
  shows "\<exists>A'. delete_ptr A p = Some A' \<and> p_live A' = without A (Some p) \<and> pool_ok A'"
proof -
  have "chunk_ok A l p" "pool_ok A"
    using assms map_of_SomeD [OF assms(2)] by (force simp: list_ok_def)+
  then obtain b where "p = Some b" "p_live A b \<noteq> None" by (auto simp: chunk_ok_def)
  then show ?thesis
    using pools.release_live [OF \<open>pool_ok A\<close>, of b] by (simp add: pool_simps without_def)
qed

lemma chunks_after_write:
  assumes ok: "list_ok (A, l)" and new: "p_live A a = Some arr" "nd_dims arr sh" "Some a \<notin> snd ` set (nl_chunks l)"
    and fit: "fits sh l"
    and A': "pool_ok A'" "p_live A' = without A (map_of (nl_chunks l) idx)"
    and l': "l' = l\<lparr>nl_elements := int (length (map_put idx (Some a) (nl_chunks l))),
      nl_shape := (if nl_chunks l = [] then sh else nl_shape l), nl_chunks := map_put idx (Some a) (nl_chunks l)\<rparr>"
  shows "list_ok (A', l')"
proof -
  have m: "map_ok (nl_chunks l)" "map_inj (nl_chunks l)" "\<And>p. p \<in> snd ` set (nl_chunks l) \<Longrightarrow> chunk_ok A l p"
    using ok by (auto simp: list_ok_def)
  have put: "map_ok (nl_chunks l')" "map_inj (nl_chunks l')" "nl_chunks l' \<noteq> []"
    using map_ok_put [OF m(1)] map_inj_put [OF m(1,2) new(3)] map_put_keys [of idx "Some a" "nl_chunks l"]
    by (auto simp: l')
  have fits': "fits sh' l'" if "fits sh' l" "nl_chunks l = [] \<Longrightarrow> sh' = sh" for sh'
    using that fit put(3) by (auto simp: fits_def l' split: if_splits)
  have "chunk_ok A' l' p" if "p \<in> snd ` set (nl_chunks l')" for p
  proof -
    have "p = Some a \<or> (\<exists>j. j \<noteq> idx \<and> map_of (nl_chunks l) j = Some p)"
      using that map_values_put [OF m(1), of idx "Some a"] by (auto simp: l')
    then show ?thesis
    proof
      assume "p = Some a"
      moreover have "p_live A' a = Some arr"
        using A'(2) new(1,3) map_of_SomeD [of "nl_chunks l" idx "Some a"]
        by (force simp: without_def split: option.splits)
      ultimately show ?thesis using new(2) fits' [OF fit] by (auto simp: chunk_ok_def)
    next
      assume "\<exists>j. j \<noteq> idx \<and> map_of (nl_chunks l) j = Some p"
      then obtain j where j: "j \<noteq> idx" "map_of (nl_chunks l) j = Some p" by auto
      then have "p \<in> snd ` set (nl_chunks l)" by (force dest: map_of_SomeD)
      then obtain b arr' sh' where b: "p = Some b" "p_live A b = Some arr'" "nd_dims arr' sh'" "fits sh' l"
        using m(3) [of p] by (auto simp: chunk_ok_def)
      have "map_of (nl_chunks l) idx \<noteq> Some (Some b)"
        using m(2) j b(1) unfolding map_inj_iff [OF m(1)] by auto
      then have "p_live A' b = Some arr'" using A'(2) b(2) by (auto simp: without_def split: option.splits)
      moreover have "nl_chunks l \<noteq> []" using j(2) by auto
      ultimately show ?thesis using b fits' [OF b(4)] by (auto simp: chunk_ok_def)
    qed
  qed
  then show ?thesis using A'(1) put by (auto simp: list_ok_def l')
qed

text \<open>A write of a matching array that the list does not hold yet.\<close>

lemma list_write_ok:
  assumes "list_ok (A, l)" "p_live A a = Some arr" "nd_dims arr sh" "Some a \<notin> snd ` set (nl_chunks l)"
    and "fits sh l" "length (nl_chunks l) < 2147483647"
  shows "\<exists>A' l'. list_write (A, l) idx (Some a) = Some (0, A', l') \<and> list_ok (A', l') \<and>
    nl_chunks l' = map_put idx (Some a) (nl_chunks l) \<and> p_live A' = without A (map_of (nl_chunks l) idx)"
proof -
  let ?m = "nl_chunks l"
  have m: "map_ok ?m" "pool_ok A" "nl_elements l = int (length ?m)" using assms(1) by (auto simp: list_ok_def)
  note len = length_map_put [OF m(1), of idx "Some a"]
  define l' where "l' = l\<lparr>nl_elements := int (length (map_put idx (Some a) ?m)),
      nl_shape := (if ?m = [] then sh else nl_shape l), nl_chunks := map_put idx (Some a) ?m\<rparr>"
  obtain A' where A': "(if map_of ?m idx = None then Some A else do { c \<leftarrow> map_of ?m idx; delete_ptr A c }) = Some A'"
    "p_live A' = without A (map_of ?m idx)" "pool_ok A'"
    using delete_chunk [OF assms(1), of idx] m(2) by (cases "map_of ?m idx") (auto simp: without_def)
  have live: "p_live A' a = Some arr"
    using A'(2) assms(2,4) map_of_SomeD [of ?m idx "Some a"] by (force simp: without_def split: option.splits)
  have e: "to_int (int (length ?m) + 1) = int (length ?m) + 1" using assms(6) by (simp add: to_int_id)
  have "list_write (A, l) idx (Some a) = Some (0, A', l')"
  proof (cases "?m = []")
    case True
    then have "nl_shape l = []" using assms(5) by (simp add: fits_def)
    then show ?thesis
      using True A' live e push_shape_loop [OF assms(3), of "[]"]
      by (simp add: list_write_def l'_def m(3) pool_simps nd_dims_reads(1) [OF assms(3)])
  next
    case False
    then have "length (nl_shape l) = length sh" "tl sh = tl (nl_shape l)" using assms(5) by (auto simp: fits_def)
    then show ?thesis
      using False A'(1) live e len compare_shape_loop [OF assms(3), of "nl_shape l"]
      by (cases "map_of ?m idx") (auto simp: list_write_def l'_def m(3) pool_simps nd_dims_reads(1) [OF assms(3)]
        bind_eq_Some_conv)
  qed
  then show ?thesis
    using chunks_after_write [OF assms(1-5) A'(3,2) l'_def] A'(2) by (auto simp: l'_def)
qed

text \<open>The destructor deletes the chunks and nothing else.\<close>

lemma delete_NDArrayList_ok:
  assumes "list_ok (A, l)"
  shows "\<exists>A'. delete_NDArrayList (A, l) = Some A' \<and>
    p_live A' = (\<lambda>b. if Some b \<in> snd ` set (nl_chunks l) then None else p_live A b)"
proof -
  let ?bs = "map (\<lambda>(_, p). the p) (nl_chunks l)"
  have some: "\<exists>b. p = Some b \<and> p_live A b \<noteq> None" if "(i, p) \<in> set (nl_chunks l)" for i p
    using assms that by (force simp: list_ok_def chunk_ok_def)
  have eq: "mfor (\<lambda>(_, p) A. delete_ptr A p) cs B = mfor (\<lambda>b A. delete_object A b) (map (\<lambda>(_, p). the p) cs) B"
    if "set cs \<subseteq> set (nl_chunks l)" for cs and B :: "'a ndarray pool"
    using that
  proof (induction cs arbitrary: B)
    case (Cons c cs)
    obtain i p where "c = (i, p)" by (cases c)
    moreover from this obtain b where "p = Some b" using some [of i p] Cons.prems by auto
    ultimately show ?case using Cons by (auto simp: pool_simps cong: Option.bind_cong)
  qed simp
  have inj: "distinct (map snd (nl_chunks l))" "pool_ok A" using assms by (auto simp: list_ok_def map_inj_def)
  have "?bs = map the (map snd (nl_chunks l))" by (simp add: case_prod_beta)
  moreover have "inj_on the (set (map snd (nl_chunks l)))"
  proof (rule inj_onI)
    fix p q assume "p \<in> set (map snd (nl_chunks l))" "q \<in> set (map snd (nl_chunks l))" "the p = the q"
    moreover from this obtain i j where "(i, p) \<in> set (nl_chunks l)" "(j, q) \<in> set (nl_chunks l)" by auto
    ultimately show "p = q" using some [of i p] some [of j q] by auto
  qed
  ultimately have "distinct ?bs" using inj(1) by (simp only: distinct_map)
  then obtain A' where "mfor (\<lambda>b A. delete_object A b) ?bs A = Some A'"
    "p_live A' = (\<lambda>b. if b \<in> set ?bs then None else p_live A b)"
    using pools.release_all [OF inj(2), of ?bs] some by fastforce
  moreover have "b \<in> set ?bs \<longleftrightarrow> Some b \<in> snd ` set (nl_chunks l)" for b
    using some by force
  ultimately show ?thesis using eq [of "nl_chunks l" A] by (simp add: delete_NDArrayList_def)
qed

section \<open>Edge cases\<close>

definition zeros :: "int list \<Rightarrow> int ndarray" where
  "zeros sh = \<lparr>nd_buffer = Some (replicate (nat (prod_list sh)) 0), nd_shapeInfo = Some (mk_info sh (c_strides sh) 0 1 99)\<rparr>"

text \<open>A pool with the arrays of the given shapes at the addresses 0, 1, ...\<close>

definition arrays_of :: "int list list \<Rightarrow> int ndarray pool" where
  "arrays_of shs = fold (\<lambda>sh A. snd (new_object (zeros sh) A)) shs empty_pool"

text \<open>Replacing a chunk by an array of another shape is refused after the old chunk is deleted: the
  destructor deletes it again.\<close>

lemma refused_write_dangles:
  "(do { (_, s) \<leftarrow> list_write (arrays_of [[2, 3], [2, 4]], new_NDArrayList 0 True) 0 (Some 0);
         (status, s) \<leftarrow> list_write s 0 (Some 1);
         Some (status, delete_NDArrayList s = None) }) = Some (32, True)"
  by code_simp

text \<open>A refused write to a new index is counted as an element.\<close>

lemma refused_write_counts:
  "(do { (_, s) \<leftarrow> list_write (arrays_of [[2, 3], [2, 4]], new_NDArrayList 0 True) 0 (Some 0);
         (status, A, l) \<leftarrow> list_write s 1 (Some 1);
         Some (status, list_elements l, isWritten l 1) }) = Some (32, 2, False)"
  by code_simp

text \<open>A clone forgets the reference shape and refuses every further array.\<close>

lemma clone_refuses_writes:
  "(do { (_, s) \<leftarrow> list_write (arrays_of [[2, 3], [2, 3]], new_NDArrayList 0 True) 0 (Some 0);
         q \<leftarrow> clone_NDArrayList (\<lambda>_ _. None) (\<lambda>_ _. None) s;
         (case q of Inl _ \<Rightarrow> None | Inr (A, l) \<Rightarrow> do {
            (status, _) \<leftarrow> list_write (A, l) 1 (Some 1);
            Some status }) }) = Some 32"
  by code_simp

section \<open>Properties\<close>

text \<open>C32: A write of a live array of the reference shape succeeds, deletes the chunk it replaces and no other array, and
  keeps the list well formed: afterwards the index holds the array and every other index what it held
  before, and \<open>elements\<close> counts the chunks.\<close>

theorem list_write_reads_back:
  assumes "list_ok (A, l)" "p_live A a = Some arr" "nd_dims arr sh" "Some a \<notin> snd ` set (nl_chunks l)"
    and "fits sh l" "length (nl_chunks l) < 2147483647"
  shows "\<exists>A' l'. list_write (A, l) idx (Some a) = Some (0, A', l') \<and> list_ok (A', l') \<and>
    readRaw l' j = (if j = idx then Inr (Some a) else readRaw l j) \<and>
    isWritten l' j = (j = idx \<or> isWritten l j) \<and>
    list_elements l' = int (length (nl_chunks l')) \<and>
    p_live A' = without A (map_of (nl_chunks l) idx)"
proof -
  obtain A' l' where w: "list_write (A, l) idx (Some a) = Some (0, A', l')" "list_ok (A', l')"
    "nl_chunks l' = map_put idx (Some a) (nl_chunks l)" "p_live A' = without A (map_of (nl_chunks l) idx)"
    using list_write_ok [OF assms] by blast
  have "map_of (nl_chunks l') = (map_of (nl_chunks l))(idx \<mapsto> Some a)"
    using assms(1) w(3) by (simp add: list_ok_def map_of_put)
  moreover have "list_elements l' = int (length (nl_chunks l'))"
    using w(2) by (simp add: list_ok_def list_elements_def)
  ultimately show ?thesis
    using w by (auto simp: readRaw_def isWritten_def map_count_def)
qed

lemma new_list_ok: "pool_ok A \<Longrightarrow> list_ok (A, new_NDArrayList h b)"
  by (simp add: list_ok_def new_NDArrayList_def map_inj_def)

lemma arrays_of_example:
  "pool_ok (arrays_of [[2, 3]])" "p_live (arrays_of [[2, 3]]) 0 = Some (zeros [2, 3])" "nd_dims (zeros [2, 3]) [2, 3]"
  by (simp_all add: arrays_of_def new_object_def empty_pool_def pool_ok_def zeros_def nd_dims_def dims_ok_def)
    (rule exI [of _ "[3, 1]"], auto)

theorem list_write_reads_back_witness:
  "\<exists>A' l'. list_write (arrays_of [[2, 3]], new_NDArrayList 0 True) 5 (Some 0) = Some (0, A', l') \<and>
     readRaw l' 5 = Inr (Some 0)"
  using list_write_reads_back [OF new_list_ok [OF arrays_of_example(1), of 0 True] arrays_of_example(2,3), of 5 5]
  by (simp add: new_NDArrayList_def fits_def) blast

text \<open>The destructor of a well-formed list deletes each of its chunks once and no other array.\<close>

theorem delete_NDArrayList_deletes_chunks:
  assumes "list_ok (A, l)"
  shows "\<exists>A'. delete_NDArrayList (A, l) = Some A' \<and>
    p_live A' = (\<lambda>b. if Some b \<in> snd ` set (nl_chunks l) then None else p_live A b)"
  by (rule delete_NDArrayList_ok [OF assms])

theorem delete_NDArrayList_deletes_chunks_witness:
  "\<exists>A'. delete_NDArrayList (arrays_of [[2, 3]], new_NDArrayList 0 True) = Some A'"
  using delete_NDArrayList_deletes_chunks [OF new_list_ok [OF arrays_of_example(1), of 0 True]] by blast

end
