(* ===== verification/Variables.thy ===== *)
theory Variables
  imports NDArrayLists
begin

text \<open>
  \<open>Variable\<close> (\<open>include/graph/impl/Variable.cpp\<close>): what a node of a graph reads and writes. A variable refers to an array
  or a list of arrays by pointer and may own its array. The memory of the graph classes is a pool for each class:
  arrays, array lists, variables, random generators and the buffers of the generators.
\<close>

section \<open>Memory\<close>

datatype VariableType = NDARRAY | ARRAY_LIST | FLOW

record Variable =
  v_id :: int
  v_index :: int
  v_ndarray :: pointer
  v_name :: string
  v_external :: bool
  v_readOnly :: bool
  v_placeholder :: bool
  v_removable :: bool
  v_list :: pointer
  v_variableType :: VariableType

record 't memory =
  m_arrays :: "'t ndarray pool"
  m_lists :: "NDArrayList pool"
  m_vars :: "Variable pool"
  m_rngs :: "pointer pool"
  m_buffers :: "unit pool"

definition empty_memory :: "'t memory" where
  "empty_memory = \<lparr>m_arrays = empty_pool, m_lists = empty_pool, m_vars = empty_pool,
     m_rngs = empty_pool, m_buffers = empty_pool\<rparr>"

text \<open>One computation after another, where the first may throw.\<close>

definition ebind :: "'a result \<Rightarrow> ('a \<Rightarrow> 'b result) \<Rightarrow> 'b result" where
  "ebind m f = (case m of None \<Rightarrow> None | Some (Inl e) \<Rightarrow> Some (Inl e) | Some (Inr x) \<Rightarrow> f x)"

lemma ebind_simps [simp]:
  "ebind None f = None" "ebind (Some (Inl e)) f = Some (Inl e)" "ebind (Some (Inr x)) f = f x"
  by (simp_all add: ebind_def)

lemma ebind_Inr_iff: "ebind m f = Some (Inr y) \<longleftrightarrow> (\<exists>x. m = Some (Inr x) \<and> f x = Some (Inr y))"
  by (auto simp: ebind_def split: option.split sum.split)

lemma ebind_cong [fundef_cong]: "m = m' \<Longrightarrow> (\<And>x. m' = Some (Inr x) \<Longrightarrow> f x = f' x) \<Longrightarrow> ebind m f = ebind m' f'"
  by (auto simp: ebind_def split: option.split sum.split)

text \<open>The variable at an address.\<close>

definition var_at :: "'t memory \<Rightarrow> nat \<Rightarrow> Variable option" where
  "var_at M v = p_live (m_vars M) v"

definition set_var :: "'t memory \<Rightarrow> nat \<Rightarrow> Variable \<Rightarrow> 't memory" where
  "set_var M v x = M\<lparr>m_vars := (m_vars M)\<lparr>p_live := (p_live (m_vars M))(v \<mapsto> x)\<rparr>\<rparr>"

definition new_var :: "Variable \<Rightarrow> 't memory \<Rightarrow> nat \<times> 't memory" where
  "new_var x M = (let (v, V) = new_object x (m_vars M) in (v, M\<lparr>m_vars := V\<rparr>))"

section \<open>The code\<close>

definition Variable_placeholder :: "bool \<Rightarrow> Variable" where
  "Variable_placeholder placeholder = \<lparr>v_id = 0, v_index = 0, v_ndarray = None, v_name = [], v_external = False,
     v_readOnly = False, v_placeholder = placeholder, v_removable = True, v_list = None, v_variableType = NDARRAY\<rparr>"

definition Variable_array :: "pointer \<Rightarrow> string option \<Rightarrow> Variable" where
  "Variable_array array name =
     (let x = (Variable_placeholder False)\<lparr>v_ndarray := array, v_external := False, v_readOnly := False\<rparr>;
          x = (case name of None \<Rightarrow> x | Some n \<Rightarrow> x\<lparr>v_name := n\<rparr>) in
      if v_ndarray x \<noteq> None then x\<lparr>v_variableType := NDARRAY\<rparr> else x)"

definition Variable_id :: "pointer \<Rightarrow> string option \<Rightarrow> int \<Rightarrow> int \<Rightarrow> Variable" where
  "Variable_id array name id' idx = (Variable_array array name)\<lparr>v_id := id', v_index := idx\<rparr>"

definition hasNDArray :: "Variable \<Rightarrow> bool" where
  "hasNDArray x \<longleftrightarrow> v_variableType x = NDARRAY \<and> v_ndarray x \<noteq> None"

definition hasNDArrayList :: "Variable \<Rightarrow> bool" where
  "hasNDArrayList x \<longleftrightarrow> v_variableType x = ARRAY_LIST \<and> v_list x \<noteq> None"

definition var_isEmpty :: "'t memory \<Rightarrow> Variable \<Rightarrow> bool option" where
  "var_isEmpty M x =
     (if v_variableType x = NDARRAY then
        (if v_ndarray x = None then Some True
         else do { a \<leftarrow> deref (m_arrays M) (v_ndarray x); Some (\<not> nonNull a) })
      else if v_variableType x = ARRAY_LIST then Some (v_list x = None)
      else Some False)"

definition setNDArray :: "Variable \<Rightarrow> pointer \<Rightarrow> Variable" where
  "setNDArray x array = x\<lparr>v_variableType := NDARRAY, v_ndarray := array\<rparr>"

definition setNDArrayList :: "Variable \<Rightarrow> pointer \<Rightarrow> Variable" where
  "setNDArrayList x lst = x\<lparr>v_variableType := ARRAY_LIST, v_list := lst\<rparr>"

definition setId :: "Variable \<Rightarrow> int \<Rightarrow> int \<Rightarrow> Variable" where
  "setId x id' idx = x\<lparr>v_id := id', v_index := idx\<rparr>"

definition setId1 :: "Variable \<Rightarrow> int \<Rightarrow> Variable" where
  "setId1 x id' = x\<lparr>v_id := id'\<rparr>"

definition setIndex :: "Variable \<Rightarrow> int \<Rightarrow> Variable" where
  "setIndex x idx = x\<lparr>v_index := idx\<rparr>"

definition setName :: "Variable \<Rightarrow> string \<Rightarrow> Variable" where
  "setName x name = x\<lparr>v_name := name\<rparr>"

definition markExternal :: "Variable \<Rightarrow> bool \<Rightarrow> Variable" where
  "markExternal x reallyExternal = x\<lparr>v_external := reallyExternal\<rparr>"

definition markRemovable :: "Variable \<Rightarrow> bool \<Rightarrow> Variable" where
  "markRemovable x reallyRemovable = x\<lparr>v_removable := reallyRemovable\<rparr>"

definition markReadOnly :: "Variable \<Rightarrow> bool \<Rightarrow> Variable" where
  "markReadOnly x reallyReadOnly = x\<lparr>v_readOnly := reallyReadOnly\<rparr>"

definition setVariableType :: "Variable \<Rightarrow> VariableType \<Rightarrow> Variable" where
  "setVariableType x variableType = x\<lparr>v_variableType := variableType\<rparr>"

text \<open>Both getters answer the pointer whatever the type of the variable; a wrong type is only logged.\<close>

definition getNDArray :: "Variable \<Rightarrow> pointer" where
  "getNDArray x = v_ndarray x"

definition getNDArrayList :: "Variable \<Rightarrow> pointer" where
  "getNDArrayList x = v_list x"

text \<open>\<open>clone\<close> copies neither \<open>_removable\<close> nor \<open>_variableType\<close>. The copy of the array has the order of the array.\<close>

definition clone_Variable :: "('t ndarray \<Rightarrow> 't \<Rightarrow> 't ndarray option) \<Rightarrow> ('t ndarray \<Rightarrow> 't ndarray \<Rightarrow> 't ndarray option) \<Rightarrow>
    't memory \<Rightarrow> Variable \<Rightarrow> (nat \<times> 't memory) result" where
  "clone_Variable execScalar execPairwise M this =
     (let res = (Variable_placeholder (v_placeholder this))
           \<lparr>v_external := v_external this, v_id := v_id this, v_readOnly := v_readOnly this,
            v_name := v_name this, v_index := v_index this\<rparr> in
      ebind
        (if v_ndarray this \<noteq> None then do {
           a \<leftarrow> deref (m_arrays M) (v_ndarray this);
           ord \<leftarrow> ordering a;
           ebind (dup execScalar execPairwise a ord) (\<lambda>b.
             let (p, A) = new_object b (m_arrays M) in
             Some (Inr (M\<lparr>m_arrays := A\<rparr>, res\<lparr>v_ndarray := Some p\<rparr>))) }
         else Some (Inr (M, res)))
        (\<lambda>(M, res). ebind
           (if v_list this \<noteq> None then do {
              l \<leftarrow> deref (m_lists M) (v_list this);
              ebind (clone_NDArrayList execScalar execPairwise (m_arrays M, l)) (\<lambda>(A, l').
                let (p, L) = new_object l' (m_lists M) in
                Some (Inr (M\<lparr>m_arrays := A, m_lists := L\<rparr>, res\<lparr>v_list := Some p\<rparr>))) }
            else Some (Inr (M, res)))
           (\<lambda>(M, res). Some (Inr (new_var res M)))))"

text \<open>\<open>delete p\<close> of a variable: the destructor deletes the array of a removable variable, then the object goes.\<close>

definition delete_Variable :: "'t memory \<Rightarrow> nat \<Rightarrow> 't memory option" where
  "delete_Variable M p = do {
     x \<leftarrow> var_at M p;
     A \<leftarrow> (if v_variableType x = NDARRAY \<and> v_ndarray x \<noteq> None \<and> v_removable x
           then delete_ptr (m_arrays M) (v_ndarray x) else Some (m_arrays M));
     V \<leftarrow> delete_object (m_vars M) p;
     Some (M\<lparr>m_arrays := A, m_vars := V\<rparr>) }"

section \<open>Ownership\<close>

text \<open>The array a variable deletes.\<close>

definition owned :: "Variable \<Rightarrow> pointer" where
  "owned x = (if v_variableType x = NDARRAY \<and> v_removable x then v_ndarray x else None)"

definition memory_ok :: "'t memory \<Rightarrow> bool" where
  "memory_ok M \<longleftrightarrow> pool_ok (m_arrays M) \<and> pool_ok (m_lists M) \<and> pool_ok (m_vars M)"

text \<open>The variables \<open>vs\<close> are live and different, and each array one of them deletes is live and deleted
  by no other.\<close>

definition owners :: "'t memory \<Rightarrow> nat list \<Rightarrow> nat list" where
  "owners M vs = List.map_filter (\<lambda>v. case var_at M v of None \<Rightarrow> None | Some x \<Rightarrow> owned x) vs"

definition vars_ok :: "'t memory \<Rightarrow> nat list \<Rightarrow> bool" where
  "vars_ok M vs \<longleftrightarrow> memory_ok M \<and> distinct vs \<and> (\<forall>v\<in>set vs. var_at M v \<noteq> None) \<and>
     distinct (owners M vs) \<and> (\<forall>a\<in>set (owners M vs). p_live (m_arrays M) a \<noteq> None)"

lemma owners_simps [simp]:
  "owners M [] = []"
  "owners M (v # vs) = (case var_at M v of None \<Rightarrow> owners M vs
     | Some x \<Rightarrow> (case owned x of None \<Rightarrow> owners M vs | Some a \<Rightarrow> a # owners M vs))"
  by (auto simp: owners_def List.map_filter_simps split: option.splits)

lemma owners_append [simp]: "owners M (vs @ ws) = owners M vs @ owners M ws"
  by (induction vs) (auto split: option.splits)

lemma owners_cong: "(\<And>v. v \<in> set vs \<Longrightarrow> var_at M v = var_at M' v) \<Longrightarrow> owners M vs = owners M' vs"
  by (induction vs) (auto split: option.splits)

text \<open>Deleting variables leaves the other pools alone.\<close>

definition same_rest :: "'t memory \<Rightarrow> 't memory \<Rightarrow> bool" where
  "same_rest M M' \<longleftrightarrow> m_lists M' = m_lists M \<and> m_rngs M' = m_rngs M \<and> m_buffers M' = m_buffers M"

lemma delete_Variable_ok:
  assumes "vars_ok M (v # vs)"
  shows "\<exists>M'. delete_Variable M v = Some M' \<and> vars_ok M' vs \<and>
    p_live (m_vars M') = (p_live (m_vars M))(v := None) \<and>
    p_live (m_arrays M') = (\<lambda>a. if a \<in> set (owners M [v]) then None else p_live (m_arrays M) a) \<and>
    same_rest M M' \<and> pool_ok (m_arrays M')"
proof -
  obtain x where x: "var_at M v = Some x" using assms by (auto simp: vars_ok_def)
  have ok: "pool_ok (m_arrays M)" "pool_ok (m_vars M)" "pool_ok (m_lists M)" "v \<notin> set vs" "distinct vs"
    using assms by (auto simp: vars_ok_def memory_ok_def)
  obtain V where V: "delete_object (m_vars M) v = Some V" "p_live V = (p_live (m_vars M))(v := None)" "pool_ok V"
    using pools.release_live [OF ok(2), of v] x by (auto simp: var_at_def)
  have same: "var_at (M\<lparr>m_arrays := A, m_vars := V\<rparr>) w = var_at M w" if "w \<noteq> v" for w and A :: "'a ndarray pool"
    using that V(2) by (simp add: var_at_def)
  have own: "owners (M\<lparr>m_arrays := A, m_vars := V\<rparr>) vs = owners M vs" for A :: "'a ndarray pool"
    by (intro owners_cong same) (use ok(4) in auto)
  show ?thesis
  proof (cases "owned x")
    case None
    then have "delete_Variable M v = Some (M\<lparr>m_vars := V\<rparr>)"
      using x V(1) by (auto simp: delete_Variable_def owned_def split: if_splits)
    moreover have "vars_ok (M\<lparr>m_arrays := m_arrays M, m_vars := V\<rparr>) vs"
      using assms own [of "m_arrays M"] same [of _ "m_arrays M"] ok V(3) None x
      by (auto simp: vars_ok_def memory_ok_def) (metis option.distinct(1))
    ultimately show ?thesis using V(2) None x ok(1) by (auto simp: same_rest_def)
  next
    case (Some a)
    then have a: "p_live (m_arrays M) a \<noteq> None" "a \<notin> set (owners M vs)" "distinct (owners M vs)"
      using assms x by (auto simp: vars_ok_def)
    obtain A where A: "delete_object (m_arrays M) a = Some A" "p_live A = (p_live (m_arrays M))(a := None)" "pool_ok A"
      using pools.release_live [OF ok(1) a(1)] by auto
    have "delete_Variable M v = Some (M\<lparr>m_arrays := A, m_vars := V\<rparr>)"
      using x V(1) A(1) Some by (auto simp: delete_Variable_def owned_def pool_simps split: if_splits)
    moreover have "vars_ok (M\<lparr>m_arrays := A, m_vars := V\<rparr>) vs"
      using assms own [of A] same [of _ A] ok V(3) A(2,3) a x Some
      by (auto simp: vars_ok_def memory_ok_def) (metis option.distinct(1))
    ultimately show ?thesis using V(2) A(2,3) Some x by (auto simp: fun_eq_iff same_rest_def)
  qed
qed

text \<open>Deleting well-formed variables one after another.\<close>

lemma delete_Variables_ok:
  assumes "vars_ok M vs"
  shows "\<exists>M'. mfor (\<lambda>v M. delete_Variable M v) vs M = Some M' \<and>
    p_live (m_vars M') = (\<lambda>v. if v \<in> set vs then None else p_live (m_vars M) v) \<and>
    p_live (m_arrays M') = (\<lambda>a. if a \<in> set (owners M vs) then None else p_live (m_arrays M) a) \<and>
    same_rest M M' \<and> pool_ok (m_arrays M')"
  using assms
proof (induction vs arbitrary: M)
  case (Cons v vs)
  obtain M1 where M1: "delete_Variable M v = Some M1" "vars_ok M1 vs"
    "p_live (m_vars M1) = (p_live (m_vars M))(v := None)"
    "p_live (m_arrays M1) = (\<lambda>a. if a \<in> set (owners M [v]) then None else p_live (m_arrays M) a)"
    "same_rest M M1"
    using delete_Variable_ok [OF Cons.prems] by blast
  have "v \<notin> set vs" using Cons.prems by (simp add: vars_ok_def)
  then have "owners M1 vs = owners M vs" using M1(3) by (intro owners_cong) (auto simp: var_at_def)
  moreover have "owners M (v # vs) = owners M [v] @ owners M vs" using owners_append [of M "[v]" vs] by simp
  moreover obtain M' where "mfor (\<lambda>v M. delete_Variable M v) vs M1 = Some M'"
    "p_live (m_vars M') = (\<lambda>v. if v \<in> set vs then None else p_live (m_vars M1) v)"
    "p_live (m_arrays M') = (\<lambda>a. if a \<in> set (owners M1 vs) then None else p_live (m_arrays M1) a)"
    "same_rest M1 M'" "pool_ok (m_arrays M')"
    using Cons.IH [OF M1(2)] by blast
  ultimately show ?case using M1 by (auto simp: fun_eq_iff same_rest_def)
qed (auto simp: same_rest_def vars_ok_def memory_ok_def)

end
