(* ===== verification/VariableSpaces.thy ===== *)
theory VariableSpaces
  imports Variables Stash "HOL-Library.Product_Lexorder" "HOL-Library.Multiset"
begin

text \<open>
  \<open>VariableSpace\<close> (\<open>include/graph/impl/VariableSpace.cpp\<close>): the variables of a graph by node id and
  output index, by id alone, and by name. A space deletes every variable that was put into it, the lists it
  tracks and its stash. The mutex of the source is not modelled: one operation runs at a time.
\<close>

section \<open>State\<close>

record VariableSpace =
  vs_rng :: pointer
  vs_stash :: Stash
  vs_paired :: "((int \<times> int) \<times> nat) list"
  vs_symbolic :: "(string \<times> nat) list"
  vs_variables :: "(int \<times> nat) list"
  vs_external :: "nat list"
  vs_internal :: "nat list"
  vs_lists :: "pointer list"
  vs_placeholders :: "nat list"
  vs_auto_counter :: int
  vs_temporary :: "(int \<times> nat) list"
  vs_handles :: "nat list"
  vs_flow :: pointer

definition new_VariableSpace :: VariableSpace where
  "new_VariableSpace = \<lparr>vs_rng = None, vs_stash = new_Stash, vs_paired = [], vs_symbolic = [], vs_variables = [],
     vs_external = [], vs_internal = [], vs_lists = [], vs_placeholders = [], vs_auto_counter = -1,
     vs_temporary = [], vs_handles = [], vs_flow = None\<rparr>"

section \<open>Lookup\<close>

definition hasVariable_symbol :: "VariableSpace \<Rightarrow> string \<Rightarrow> bool" where
  "hasVariable_symbol s symbol \<longleftrightarrow> map_count symbol (vs_symbolic s) = 1"

definition hasVariable_id :: "VariableSpace \<Rightarrow> int \<Rightarrow> bool" where
  "hasVariable_id s id' \<longleftrightarrow> map_count id' (vs_variables s) = 1 \<or> map_count id' (vs_temporary s) = 1"

definition hasVariable :: "VariableSpace \<Rightarrow> int \<times> int \<Rightarrow> bool" where
  "hasVariable s pair \<longleftrightarrow> map_count pair (vs_paired s) > 0"

definition hasVariable_at :: "VariableSpace \<Rightarrow> int \<Rightarrow> int \<Rightarrow> bool" where
  "hasVariable_at s id' idx = hasVariable s (id', idx)"

text \<open>\<open>std::map::at\<close> throws when the key is missing.\<close>

definition map_at :: "('k \<times> nat) list \<Rightarrow> 'k \<Rightarrow> exn + nat" where
  "map_at m k = (case map_of m k of None \<Rightarrow> Inl Out_of_range | Some v \<Rightarrow> Inr v)"

definition getVariable_symbol :: "VariableSpace \<Rightarrow> string \<Rightarrow> exn + pointer" where
  "getVariable_symbol s symbol = map_sum id Some (map_at (vs_symbolic s) symbol)"

definition getVariable_id :: "VariableSpace \<Rightarrow> int \<Rightarrow> exn + pointer" where
  "getVariable_id s id' =
     (if id' < 0 then map_sum id Some (map_at (vs_variables s) id')
      else map_sum id Some (map_at (vs_temporary s) id'))"

definition getVariable :: "VariableSpace \<Rightarrow> int \<times> int \<Rightarrow> exn + pointer" where
  "getVariable s pair =
     (if fst pair < 0 then getVariable_id s (fst pair)
      else if map_count pair (vs_paired s) > 0 then map_sum id Some (map_at (vs_paired s) pair)
      else if hasVariable_id s (fst pair) \<and> snd pair = 0 then getVariable_id s (fst pair)
      else Inr None)"

definition getVariable_at :: "VariableSpace \<Rightarrow> int \<Rightarrow> int \<Rightarrow> exn + pointer" where
  "getVariable_at s id' idx = getVariable s (id', idx)"

text \<open>\<open>var->isExternal()\<close> of a variable just looked up.\<close>

definition is_external :: "'t memory \<Rightarrow> exn + pointer \<Rightarrow> bool result" where
  "is_external M q = ebind (Some q) (\<lambda>var. do { x \<leftarrow> deref (m_vars M) var; Some (Inr (v_external x)) })"

definition hasExternalVariable_id :: "'t memory \<Rightarrow> VariableSpace \<Rightarrow> int \<Rightarrow> bool result" where
  "hasExternalVariable_id M s id' =
     (if \<not> hasVariable_id s id' then Some (Inr False) else is_external M (getVariable_id s id'))"

definition hasExternalVariable :: "'t memory \<Rightarrow> VariableSpace \<Rightarrow> int \<times> int \<Rightarrow> bool result" where
  "hasExternalVariable M s pair =
     (if \<not> hasVariable s pair then Some (Inr False) else is_external M (getVariable s pair))"

definition hasExternalVariable_symbol :: "'t memory \<Rightarrow> VariableSpace \<Rightarrow> string \<Rightarrow> bool result" where
  "hasExternalVariable_symbol M s symbol =
     (if \<not> hasVariable_symbol s symbol then Some (Inr False) else is_external M (getVariable_symbol s symbol))"

definition numberOfPlaceholders :: "VariableSpace \<Rightarrow> int" where
  "numberOfPlaceholders s = to_int (int (length (vs_placeholders s)))"

section \<open>Writing\<close>

type_synonym 't space = "'t memory \<times> VariableSpace"

definition silentPutVariable :: "VariableSpace \<Rightarrow> int \<times> int \<Rightarrow> nat \<Rightarrow> VariableSpace" where
  "silentPutVariable s pair variable = s\<lparr>vs_paired := map_put pair variable (vs_paired s)\<rparr>"

text \<open>A variable that has a name is found under it.\<close>

definition put_symbolic :: "VariableSpace \<Rightarrow> Variable \<Rightarrow> nat \<Rightarrow> VariableSpace" where
  "put_symbolic s x variable =
     (if length (v_name x) \<noteq> 0 then s\<lparr>vs_symbolic := map_put (v_name x) variable (vs_symbolic s)\<rparr> else s)"

definition putVariable_id :: "'t space \<Rightarrow> int \<Rightarrow> nat \<Rightarrow> 't space result" where
  "putVariable_id S id' variable = (case S of (M, s) \<Rightarrow>
     if map_count id' (vs_variables s) > 0 \<or> map_count id' (vs_temporary s) > 0 then
       ebind (Some (if id' < 0 then map_at (vs_variables s) id' else map_at (vs_temporary s) id')) (\<lambda>local. do {
         l \<leftarrow> var_at M local;
         if getNDArray l = None then do {
           x \<leftarrow> var_at M variable;
           if getNDArray x \<noteq> None then Some (Inr (set_var M local (setNDArray l (getNDArray x)), s))
           else Some (Inr (M, s)) }
         else Some (Inr (M, s)) })
     else do {
       let s = s\<lparr>vs_handles := vs_handles s @ [variable]\<rparr>;
       s \<leftarrow> (if vs_auto_counter s \<ge> id' then do { c \<leftarrow> i32 (id' - 1); Some (s\<lparr>vs_auto_counter := c\<rparr>) } else Some s);
       x \<leftarrow> var_at M variable;
       let M = set_var M variable (setId1 x id');
       let s = put_symbolic s x variable;
       let s = (if id' < 0 then s\<lparr>vs_external := vs_external s @ [variable], vs_variables := map_put id' variable (vs_variables s)\<rparr>
                else s\<lparr>vs_internal := vs_internal s @ [variable], vs_temporary := map_put id' variable (vs_temporary s)\<rparr>);
       let s = (if \<not> hasVariable s (id', 0) then
                  (let s = silentPutVariable s (id', 0) variable in
                   if v_placeholder x then s\<lparr>vs_placeholders := vs_placeholders s @ [variable]\<rparr> else s)
                else s);
       Some (Inr (M, s)) })"

definition putVariable :: "'t space \<Rightarrow> int \<times> int \<Rightarrow> nat \<Rightarrow> 't space result" where
  "putVariable S pair variable = (case S of (M, s) \<Rightarrow> do {
     let s = silentPutVariable s pair variable;
     x \<leftarrow> var_at M variable;
     let s = (if v_placeholder x then s\<lparr>vs_placeholders := vs_placeholders s @ [variable]\<rparr> else s);
     if snd pair = 0 \<and> \<not> hasVariable_id s (fst pair) then putVariable_id (M, s) (fst pair) variable
     else do {
       let s = put_symbolic s x variable;
       Some (Inr (M, s\<lparr>vs_handles := vs_handles s @ [variable]\<rparr>)) } })"

definition putVariable_at :: "'t space \<Rightarrow> int \<Rightarrow> int \<Rightarrow> nat \<Rightarrow> 't space result" where
  "putVariable_at S node idx variable = putVariable S (node, idx) variable"

definition putVariable_array :: "'t space \<Rightarrow> int \<times> int \<Rightarrow> pointer \<Rightarrow> 't space result" where
  "putVariable_array S pair array = (case S of (M, s) \<Rightarrow>
     let (v, M) = new_var (Variable_id array None (fst pair) (snd pair)) M in putVariable (M, s) pair v)"

definition putVariable_array_at :: "'t space \<Rightarrow> int \<Rightarrow> int \<Rightarrow> pointer \<Rightarrow> 't space result" where
  "putVariable_array_at S node idx array = putVariable_array S (node, idx) array"

definition putVariable_array_id :: "'t space \<Rightarrow> int \<Rightarrow> pointer \<Rightarrow> 't space result" where
  "putVariable_array_id S id' array = (case S of (M, s) \<Rightarrow>
     let (v, M) = new_var (Variable_array array None) M in putVariable_id (M, s) id' v)"

definition putOutputVariable :: "'t space \<Rightarrow> nat \<Rightarrow> 't space result" where
  "putOutputVariable S variable = do { x \<leftarrow> var_at (fst S) variable; putVariable_id S (v_id x) variable }"

definition trackList :: "VariableSpace \<Rightarrow> pointer \<Rightarrow> VariableSpace" where
  "trackList s lst = s\<lparr>vs_lists := vs_lists s @ [lst]\<rparr>"

text \<open>\<open>injectVariable\<close> takes a key as it is.\<close>

definition injectVariable :: "'t memory \<Rightarrow> VariableSpace \<Rightarrow> int \<times> int \<Rightarrow> nat \<Rightarrow> VariableSpace option" where
  "injectVariable M s pair variable = do {
     let s = (if snd pair = 0 then
                (if fst pair < 0 then s\<lparr>vs_variables := map_put (fst pair) variable (vs_variables s)\<rparr>
                 else s\<lparr>vs_temporary := map_put (fst pair) variable (vs_temporary s)\<rparr>)
              else s);
     x \<leftarrow> var_at M variable;
     let s = put_symbolic s x variable;
     let s = s\<lparr>vs_paired := map_put pair variable (vs_paired s)\<rparr>;
     Some (s\<lparr>vs_handles := vs_handles s @ [variable]\<rparr>) }"

section \<open>Memory in use\<close>

definition footprint :: "int \<Rightarrow> 't memory \<Rightarrow> nat list \<Rightarrow> int option" where
  "footprint sizeOfT M vs = mfor (\<lambda>n t. do {
     x \<leftarrow> var_at M n;
     a \<leftarrow> deref (m_arrays M) (getNDArray x);
     b \<leftarrow> memoryFootprint sizeOfT a;
     i64 (t + b) }) vs 0"

definition externalMemory :: "int \<Rightarrow> 't space \<Rightarrow> int option" where
  "externalMemory sizeOfT S = footprint sizeOfT (fst S) (vs_external (snd S))"

definition internalMemory :: "int \<Rightarrow> 't space \<Rightarrow> int option" where
  "internalMemory sizeOfT S = footprint sizeOfT (fst S) (vs_internal (snd S))"

definition totalMemory :: "int \<Rightarrow> 't space \<Rightarrow> int option" where
  "totalMemory sizeOfT S = do { e \<leftarrow> externalMemory sizeOfT S; i \<leftarrow> internalMemory sizeOfT S; i64 (e + i) }"

definition externalEntries :: "VariableSpace \<Rightarrow> int" where
  "externalEntries s = to_int (int (length (vs_external s)))"

definition internalEntries :: "VariableSpace \<Rightarrow> int" where
  "internalEntries s = to_int (int (length (vs_internal s)))"

definition totalEntries :: "VariableSpace \<Rightarrow> int option" where
  "totalEntries s = i32 (externalEntries s + internalEntries s)"

section \<open>Copies and destruction\<close>

text \<open>Clones of the variables of \<open>other\<close> go into a space: a new one for \<open>clone\<close>, another one for
  the assignment, which does nothing on the space itself.\<close>

definition inject_clones :: "('t ndarray \<Rightarrow> 't \<Rightarrow> 't ndarray option) \<Rightarrow> ('t ndarray \<Rightarrow> 't ndarray \<Rightarrow> 't ndarray option) \<Rightarrow>
    't space \<Rightarrow> VariableSpace \<Rightarrow> 't space result" where
  "inject_clones execScalar execPairwise S other = mret (\<lambda>(pair, v) (M, s). do {
     x \<leftarrow> var_at M v;
     ebind (clone_Variable execScalar execPairwise M x) (\<lambda>(clonedVar, M). do {
       s \<leftarrow> injectVariable M s pair clonedVar;
       Some (Inr (M, s)) }) }) (vs_paired other) S"

definition clone_VariableSpace :: "('t ndarray \<Rightarrow> 't \<Rightarrow> 't ndarray option) \<Rightarrow> ('t ndarray \<Rightarrow> 't ndarray \<Rightarrow> 't ndarray option) \<Rightarrow>
    't space \<Rightarrow> 't space result" where
  "clone_VariableSpace execScalar execPairwise S =
     inject_clones execScalar execPairwise (fst S, new_VariableSpace) (snd S)"

definition assign_VariableSpace :: "('t ndarray \<Rightarrow> 't \<Rightarrow> 't ndarray option) \<Rightarrow> ('t ndarray \<Rightarrow> 't ndarray \<Rightarrow> 't ndarray option) \<Rightarrow>
    't space \<Rightarrow> VariableSpace option \<Rightarrow> 't space result" where
  "assign_VariableSpace execScalar execPairwise S other =
     (case other of None \<Rightarrow> Some (Inr S)
      | Some other \<Rightarrow> inject_clones execScalar execPairwise S other)"

definition delete_list :: "'t memory \<Rightarrow> pointer \<Rightarrow> 't memory option" where
  "delete_list M p = (case p of None \<Rightarrow> Some M
     | Some b \<Rightarrow> do {
         l \<leftarrow> p_live (m_lists M) b;
         A \<leftarrow> delete_NDArrayList (m_arrays M, l);
         L \<leftarrow> delete_object (m_lists M) b;
         Some (M\<lparr>m_arrays := A, m_lists := L\<rparr>) })"

text \<open>The destructor; the stash, a member, is destroyed after its body.\<close>

definition delete_VariableSpace :: "'t space \<Rightarrow> 't memory option" where
  "delete_VariableSpace S = (case S of (M, s) \<Rightarrow> do {
     M \<leftarrow> mfor (\<lambda>p M. delete_Variable M p) (vs_handles s) M;
     M \<leftarrow> mfor (\<lambda>p M. delete_list M p) (vs_lists s) M;
     M \<leftarrow> (case vs_rng s of None \<Rightarrow> Some M
           | Some r \<Rightarrow> do {
               b \<leftarrow> p_live (m_rngs M) r;
               B \<leftarrow> delete_ptr (m_buffers M) b;
               R \<leftarrow> delete_object (m_rngs M) r;
               Some (M\<lparr>m_buffers := B, m_rngs := R\<rparr>) });
     A \<leftarrow> delete_Stash (m_arrays M) (vs_stash s);
     Some (M\<lparr>m_arrays := A\<rparr>) })"

definition setRNG :: "VariableSpace \<Rightarrow> pointer \<Rightarrow> VariableSpace" where
  "setRNG s rng = s\<lparr>vs_rng := rng\<rparr>"

definition setFlowPath :: "VariableSpace \<Rightarrow> pointer \<Rightarrow> VariableSpace" where
  "setFlowPath s flow = s\<lparr>vs_flow := flow\<rparr>"

section \<open>The invariant\<close>

text \<open>Every variable the space knows is one of its handles, which are different live variables that own
  different arrays; ids of variables are negative, those of temporary ones are not, and both are paired
  with index 0.\<close>

definition known :: "('k \<times> nat) list \<Rightarrow> nat list \<Rightarrow> bool" where
  "known m vs \<longleftrightarrow> (\<forall>k v. map_of m k = Some v \<longrightarrow> v \<in> set vs)"

definition space_ok :: "'t space \<Rightarrow> bool" where
  "space_ok S \<longleftrightarrow> (case S of (M, s) \<Rightarrow>
     map_ok (vs_paired s) \<and> map_ok (vs_symbolic s) \<and> map_ok (vs_variables s) \<and> map_ok (vs_temporary s) \<and>
     (\<forall>i v. map_of (vs_variables s) i = Some v \<longrightarrow> i < 0) \<and> (\<forall>i v. map_of (vs_temporary s) i = Some v \<longrightarrow> 0 \<le> i) \<and>
     (\<forall>i. hasVariable_id s i \<longrightarrow> hasVariable s (i, 0)) \<and>
     known (vs_paired s) (vs_handles s) \<and> known (vs_symbolic s) (vs_handles s) \<and>
     known (vs_variables s) (vs_handles s) \<and> known (vs_temporary s) (vs_handles s) \<and>
     set (vs_external s) \<union> set (vs_internal s) \<union> set (vs_placeholders s) \<subseteq> set (vs_handles s) \<and>
     vars_ok M (vs_handles s))"

lemma known_put: "map_ok m \<Longrightarrow> known m vs \<Longrightarrow> v \<in> set vs \<Longrightarrow> known (map_put k v m) vs"
  by (auto simp: known_def map_of_put)

lemma known_append: "known m vs \<Longrightarrow> known m (vs @ ws)"
  by (auto simp: known_def)

lemma vars_ok_mset: "mset vs = mset ws \<Longrightarrow> vars_ok M vs \<longleftrightarrow> vars_ok M ws"
proof -
  assume eq: "mset vs = mset ws"
  have "mset (owners M vs) = mset (owners M ws)"
    using eq by (simp add: owners_def List.map_filter_def)
  then show ?thesis
    using eq by (metis vars_ok_def mset_eq_imp_distinct_iff mset_eq_setD)
qed

text \<open>A variable may change in everything but what it owns.\<close>

lemma owners_set_var:
  assumes "var_at M v = Some x" "owned y = owned x"
  shows "owners (set_var M v y) vs = owners M vs"
  by (induction vs) (use assms in \<open>auto simp: var_at_def set_var_def split: option.splits\<close>)

lemma vars_ok_set_var:
  assumes "var_at M v = Some x" "owned y = owned x" "vars_ok M vs"
  shows "vars_ok (set_var M v y) vs"
proof -
  have "memory_ok (set_var M v y)"
    using assms pool_ok_update [of "m_vars M" v x y] by (auto simp: vars_ok_def memory_ok_def set_var_def var_at_def)
  then show ?thesis
    using assms owners_set_var [OF assms(1,2), of vs]
    by (auto simp: vars_ok_def) (auto simp: set_var_def var_at_def)
qed

lemma hasVariable_iff: "hasVariable s k \<longleftrightarrow> map_of (vs_paired s) k \<noteq> None"
  by (simp add: hasVariable_def map_count_def)

lemma hasVariable_id_iff: "hasVariable_id s i \<longleftrightarrow> map_of (vs_variables s) i \<noteq> None \<or> map_of (vs_temporary s) i \<noteq> None"
  by (simp add: hasVariable_id_def map_count_def)

text \<open>For a node, which has no negative id, the space answers what is paired with the key.\<close>

lemma getVariable_node:
  assumes "space_ok (M, s)" "0 \<le> fst k"
  shows "getVariable s k = Inr (map_of (vs_paired s) k)"
proof -
  have "hasVariable_id s (fst k) \<Longrightarrow> snd k = 0 \<Longrightarrow> map_of (vs_paired s) k \<noteq> None"
    using assms(1) by (cases k) (auto simp: space_ok_def hasVariable_iff)
  then show ?thesis
    using assms(2) by (auto simp: getVariable_def map_at_def split: option.splits)
qed

text \<open>Well-formedness after the parts of a put.\<close>

lemma space_ok_paired:
  assumes "space_ok (M, s)" "v \<in> set (vs_handles s)"
  shows "space_ok (M, silentPutVariable s k v)"
  using assms known_put [of "vs_paired s"]
  by (auto simp: space_ok_def silentPutVariable_def map_ok_put hasVariable_iff hasVariable_id_iff map_of_put)

lemma space_ok_symbolic:
  assumes "space_ok (M, s)" "v \<in> set (vs_handles s)"
  shows "space_ok (M, put_symbolic s x v)"
  using assms known_put [of "vs_symbolic s"]
  by (auto simp: space_ok_def put_symbolic_def map_ok_put hasVariable_iff hasVariable_id_iff)

lemma space_ok_handles:
  assumes "space_ok (M, s)" "vars_ok M (v # vs_handles s)"
  shows "space_ok (M, s\<lparr>vs_handles := vs_handles s @ [v]\<rparr>)"
proof -
  have "vars_ok M (vs_handles s @ [v])"
    using assms(2) vars_ok_mset [of "vs_handles s @ [v]" "v # vs_handles s" M] by simp
  then show ?thesis using assms(1) by (auto simp: space_ok_def hasVariable_iff hasVariable_id_iff known_append)
qed

text \<open>A put under the key of a node, as one step after the other.\<close>

definition add_placeholder :: "VariableSpace \<Rightarrow> Variable \<Rightarrow> nat \<Rightarrow> VariableSpace" where
  "add_placeholder s x v = (if v_placeholder x then s\<lparr>vs_placeholders := vs_placeholders s @ [v]\<rparr> else s)"

definition add_temporary :: "VariableSpace \<Rightarrow> int \<Rightarrow> nat \<Rightarrow> VariableSpace" where
  "add_temporary s i v = s\<lparr>vs_auto_counter := (if vs_auto_counter s \<ge> i then i - 1 else vs_auto_counter s),
     vs_internal := vs_internal s @ [v], vs_temporary := map_put i v (vs_temporary s)\<rparr>"

definition put_node :: "VariableSpace \<Rightarrow> int \<times> int \<Rightarrow> Variable \<Rightarrow> nat \<Rightarrow> VariableSpace" where
  "put_node s k x v =
     (let s' = put_symbolic (add_placeholder (silentPutVariable (s\<lparr>vs_handles := vs_handles s @ [v]\<rparr>) k v) x v) x v in
      if snd k = 0 \<and> \<not> hasVariable_id s (fst k) then add_temporary s' (fst k) v else s')"

lemmas step_defs = silentPutVariable_def put_symbolic_def add_placeholder_def add_temporary_def

lemma space_ok_placeholder:
  "space_ok (M, s) \<Longrightarrow> v \<in> set (vs_handles s) \<Longrightarrow> space_ok (M, add_placeholder s x v)"
  by (auto simp: space_ok_def hasVariable_iff hasVariable_id_iff add_placeholder_def)

lemma space_ok_temporary:
  assumes "space_ok (M, s)" "v \<in> set (vs_handles s)" "0 \<le> i" "hasVariable s (i, 0)"
  shows "space_ok (M, add_temporary s i v)"
  using assms known_put [of "vs_temporary s"]
  by (auto simp: space_ok_def add_temporary_def map_ok_put hasVariable_iff hasVariable_id_iff map_of_put)

lemma step_fields [simp]:
  "vs_handles (silentPutVariable s k v) = vs_handles s" "vs_handles (put_symbolic s x v) = vs_handles s"
  "vs_handles (add_placeholder s x v) = vs_handles s" "vs_handles (add_temporary s i v) = vs_handles s"
  "vs_paired (silentPutVariable s k v) = map_put k v (vs_paired s)" "vs_paired (put_symbolic s x v) = vs_paired s"
  "vs_paired (add_placeholder s x v) = vs_paired s" "vs_paired (add_temporary s i v) = vs_paired s"
  "vs_temporary (silentPutVariable s k v) = vs_temporary s" "vs_temporary (put_symbolic s x v) = vs_temporary s"
  "vs_temporary (add_placeholder s x v) = vs_temporary s" "vs_temporary (add_temporary s i v) = map_put i v (vs_temporary s)"
  "vs_variables (silentPutVariable s k v) = vs_variables s" "vs_variables (put_symbolic s x v) = vs_variables s"
  "vs_variables (add_placeholder s x v) = vs_variables s" "vs_variables (add_temporary s i v) = vs_variables s"
  by (simp_all add: step_defs)

lemma hasVariable_id_frame:
  "hasVariable_id (s\<lparr>vs_paired := m\<rparr>) i = hasVariable_id s i"
  "hasVariable_id (s\<lparr>vs_paired := m, vs_placeholders := ps\<rparr>) i = hasVariable_id s i"
  by (simp_all add: hasVariable_id_def)

lemma putVariable_eq:
  assumes "map_ok (vs_paired s)" "0 \<le> fst k" "fst k < 2 ^ 31" "var_at M v = Some x"
  shows "putVariable (M, s) k v =
    Some (Inr (if snd k = 0 \<and> \<not> hasVariable_id s (fst k) then set_var M v (setId1 x (fst k)) else M, put_node s k x v))"
proof -
  have c: "i32 (fst k - 1) = Some (fst k - 1)" using assms(2,3) by (intro i32_Some) auto
  show ?thesis
  proof (cases "snd k = 0 \<and> \<not> hasVariable_id s (fst k)")
    case True
    then have "k = (fst k, 0)" by (cases k) auto
    then have "map_of (map_put k v (vs_paired s)) (fst k, 0) = Some v" using assms(1) by (simp add: map_of_put)
    then show ?thesis
      using True assms(2,4) c
      by (cases "v_placeholder x"; cases "fst k \<le> vs_auto_counter s"; cases "v_name x = []")
        (simp_all add: putVariable_def putVariable_id_def put_node_def step_defs hasVariable_id_iff hasVariable_iff Let_def)
  next
    case False
    then show ?thesis
      using assms(4)
      by (cases "v_placeholder x"; cases "v_name x = []"; cases "snd k = 0")
        (simp_all add: putVariable_def put_node_def step_defs Let_def hasVariable_id_frame)
  qed
qed

lemma put_node_fields:
  "vs_paired (put_node s k x v) = map_put k v (vs_paired s)"
  "vs_handles (put_node s k x v) = vs_handles s @ [v]"
  by (simp_all add: put_node_def Let_def)

lemma put_node_ok:
  assumes "space_ok (M, s)" "vars_ok M (v # vs_handles s)" "0 \<le> fst k"
  shows "space_ok (M, put_node s k x v)"
proof -
  let ?s = "put_symbolic (add_placeholder (silentPutVariable (s\<lparr>vs_handles := vs_handles s @ [v]\<rparr>) k v) x v) x v"
  have ok: "space_ok (M, ?s)"
    by (intro space_ok_symbolic space_ok_placeholder space_ok_paired space_ok_handles assms) auto
  have "hasVariable ?s k" using assms(1) by (simp add: hasVariable_iff space_ok_def map_of_put)
  then have "space_ok (M, add_temporary ?s (fst k) v)" if "snd k = 0"
    using that assms(3) by (intro space_ok_temporary ok) (auto, cases k, auto)
  then show ?thesis using ok by (auto simp: put_node_def Let_def)
qed

text \<open>What every put under the key of a node promises.\<close>

lemma putVariable_node:
  assumes "space_ok (M, s)" "vars_ok M (v # vs_handles s)" "0 \<le> fst k" "fst k < 2 ^ 31"
  shows "\<exists>M' s'. putVariable (M, s) k v = Some (Inr (M', s')) \<and> space_ok (M', s') \<and>
    vs_paired s' = map_put k v (vs_paired s) \<and> vs_handles s' = vs_handles s @ [v] \<and>
    (\<forall>ws. vars_ok M ws \<longrightarrow> vars_ok M' ws)"
proof -
  obtain x where x: "var_at M v = Some x" using assms(2) by (auto simp: vars_ok_def)
  have ok: "space_ok (M, put_node s k x v)" using put_node_ok [OF assms(1-3)] .
  have keep: "vars_ok (set_var M v (setId1 x i)) ws" if "vars_ok M ws" for i ws
    using vars_ok_set_var [OF x _ that] by (simp add: setId1_def owned_def)
  show ?thesis
    using putVariable_eq [OF _ assms(3,4) x, of s] assms(1) ok keep put_node_fields(1,2) [of s k x v]
    by (auto simp: space_ok_def)
qed

section \<open>The contract of a store of variables\<close>

text \<open>
  What the ops of a graph rely on, with the spaces and the proxies as providers: a variable that was put
  under the key of a node is read back, and other keys keep their variables.
  \<open>fresh\<close> says which variables may still be put.
\<close>

definition node_key :: "int \<times> int \<Rightarrow> bool" where
  "node_key k \<longleftrightarrow> 0 \<le> fst k \<and> fst k < 2 ^ 31"

locale variable_store =
  fixes inv :: "'s \<Rightarrow> bool"
    and fresh :: "'s \<Rightarrow> nat list \<Rightarrow> bool"
    and has :: "'s \<Rightarrow> int \<times> int \<Rightarrow> bool"
    and get :: "'s \<Rightarrow> int \<times> int \<Rightarrow> exn + pointer"
    and put :: "'s \<Rightarrow> int \<times> int \<Rightarrow> nat \<Rightarrow> (exn + 's) option"
  assumes get_has: "inv S \<Longrightarrow> node_key k \<Longrightarrow> has S k \<Longrightarrow> \<exists>v. get S k = Inr (Some v)"
    and put_ok: "inv S \<Longrightarrow> node_key k \<Longrightarrow> fresh S (v # vs) \<Longrightarrow>
      \<exists>S'. put S k v = Some (Inr S') \<and> inv S' \<and> fresh S' vs \<and> has S' k \<and> get S' k = Inr (Some v) \<and>
        (\<forall>j. node_key j \<longrightarrow> j \<noteq> k \<longrightarrow> has S' j = has S j \<and> get S' j = get S j)"
begin

text \<open>A run of puts: every key answers the last variable put under it.\<close>

lemma puts_ok:
  assumes "inv S" "fresh S (map snd kvs @ vs)" "\<forall>k\<in>fst ` set kvs. node_key k"
  shows "\<exists>S'. mret (\<lambda>(k, v) S. put S k v) kvs S = Some (Inr S') \<and> inv S' \<and> fresh S' vs \<and>
    (\<forall>j. node_key j \<longrightarrow> (case map_of (rev kvs) j of
        Some v \<Rightarrow> has S' j \<and> get S' j = Inr (Some v)
      | None \<Rightarrow> has S' j = has S j \<and> get S' j = get S j))"
  using assms
proof (induction kvs arbitrary: S)
  case (Cons kv kvs)
  obtain k v where kv: "kv = (k, v)" by (cases kv)
  obtain S1 where S1: "put S k v = Some (Inr S1)" "inv S1" "fresh S1 (map snd kvs @ vs)" "has S1 k"
    "get S1 k = Inr (Some v)" "\<forall>j. node_key j \<longrightarrow> j \<noteq> k \<longrightarrow> has S1 j = has S j \<and> get S1 j = get S j"
    using put_ok [of S k v "map snd kvs @ vs"] Cons.prems by (auto simp: kv)
  obtain S2 where S2: "mret (\<lambda>(k, v) S. put S k v) kvs S1 = Some (Inr S2)" "inv S2" "fresh S2 vs"
    "\<forall>j. node_key j \<longrightarrow> (case map_of (rev kvs) j of
        Some v \<Rightarrow> has S2 j \<and> get S2 j = Inr (Some v) | None \<Rightarrow> has S2 j = has S1 j \<and> get S2 j = get S1 j)"
    using Cons.IH [OF S1(2,3)] Cons.prems(3) by auto
  have "case map_of (rev (kv # kvs)) j of
        Some v \<Rightarrow> has S2 j \<and> get S2 j = Inr (Some v) | None \<Rightarrow> has S2 j = has S j \<and> get S2 j = get S j"
    if "node_key j" for j
    using S2(4) [rule_format, OF that] S1(4,5) S1(6) [rule_format, OF that]
    by (auto simp: kv map_add_def split: option.splits)
  then show ?case using S1(1) S2(1-3) by (auto simp: kv)
qed auto

end

definition space_fresh :: "'t space \<Rightarrow> nat list \<Rightarrow> bool" where
  "space_fresh S vs \<longleftrightarrow> vars_ok (fst S) (vs @ vs_handles (snd S))"

lemma vars_ok_append: "vars_ok M (vs @ ws) \<Longrightarrow> vars_ok M ws"
  by (auto simp: vars_ok_def)

lemma vars_ok_first: "vars_ok M (v # vs @ ws) \<Longrightarrow> vars_ok M (v # ws)"
  using vars_ok_mset [of "v # vs @ ws" "vs @ v # ws" M] vars_ok_append [of M vs "v # ws"] by simp

lemma space_put_get:
  assumes "space_ok S" "node_key k" "space_fresh S (v # vs)"
  shows "\<exists>S'. putVariable S k v = Some (Inr S') \<and> space_ok S' \<and> space_fresh S' vs \<and>
    hasVariable (snd S') k \<and> getVariable (snd S') k = Inr (Some v) \<and>
    (\<forall>j. node_key j \<longrightarrow> j \<noteq> k \<longrightarrow> hasVariable (snd S') j = hasVariable (snd S) j \<and>
       getVariable (snd S') j = getVariable (snd S) j)"
proof -
  obtain M s where S: "S = (M, s)" by (cases S)
  have fr: "vars_ok M (v # vs @ vs_handles s)" using assms(3) by (simp add: S space_fresh_def)
  obtain M' s' where s': "putVariable (M, s) k v = Some (Inr (M', s'))" "space_ok (M', s')"
    "vs_paired s' = map_put k v (vs_paired s)" "vs_handles s' = vs_handles s @ [v]"
    "\<And>ws. vars_ok M ws \<Longrightarrow> vars_ok M' ws"
    using putVariable_node [of M s v k] assms(1,2) vars_ok_first [OF fr] by (auto simp: S node_key_def)
  have "vars_ok M' (vs @ vs_handles s')"
    using s'(5) [OF fr] vars_ok_mset [of "vs @ vs_handles s'" "v # vs @ vs_handles s" M'] by (simp add: s'(4))
  moreover have "map_ok (vs_paired s)" using assms(1) by (simp add: S space_ok_def)
  ultimately show ?thesis
    using s' assms getVariable_node [of M s] getVariable_node [of M' s']
    by (auto simp: S space_fresh_def hasVariable_iff map_of_put node_key_def)
qed

interpretation space: variable_store space_ok space_fresh "\<lambda>S. hasVariable (snd S)" "\<lambda>S. getVariable (snd S)" putVariable
proof
  fix S :: "'t space" and k v vs
  show "space_ok S \<Longrightarrow> node_key k \<Longrightarrow> hasVariable (snd S) k \<Longrightarrow> \<exists>v. getVariable (snd S) k = Inr (Some v)"
    by (cases S) (auto simp: getVariable_node node_key_def hasVariable_iff)
  show "space_ok S \<Longrightarrow> node_key k \<Longrightarrow> space_fresh S (v # vs) \<Longrightarrow>
    \<exists>S'. putVariable S k v = Some (Inr S') \<and> space_ok S' \<and> space_fresh S' vs \<and>
      hasVariable (snd S') k \<and> getVariable (snd S') k = Inr (Some v) \<and>
      (\<forall>j. node_key j \<longrightarrow> j \<noteq> k \<longrightarrow> hasVariable (snd S') j = hasVariable (snd S) j \<and>
         getVariable (snd S') j = getVariable (snd S) j)"
    by (rule space_put_get)
qed

section \<open>Destruction\<close>

text \<open>The arrays a space deletes: those its variables own, the chunks of its lists, its stash.\<close>

definition list_arrays :: "'t memory \<Rightarrow> pointer \<Rightarrow> nat list" where
  "list_arrays M p = (case p of None \<Rightarrow> [] | Some b \<Rightarrow>
     (case p_live (m_lists M) b of None \<Rightarrow> [] | Some l \<Rightarrow> List.map_filter snd (nl_chunks l)))"

definition space_arrays :: "'t space \<Rightarrow> nat list" where
  "space_arrays S = (case S of (M, s) \<Rightarrow>
     owners M (vs_handles s) @ concat (map (list_arrays M) (vs_lists s)) @ List.map_filter id (st_handles (vs_stash s)))"

definition pointers_ok :: "'a pool \<Rightarrow> pointer list \<Rightarrow> bool" where
  "pointers_ok P ps \<longleftrightarrow> distinct (List.map_filter id ps) \<and> (\<forall>p\<in>set ps. \<forall>b. p = Some b \<longrightarrow> p_live P b \<noteq> None)"

lemma map_filter_id_iff: "b \<in> set (List.map_filter id ps) \<longleftrightarrow> Some b \<in> set ps"
  by (induction ps) (auto simp: List.map_filter_simps split: option.splits)

definition rng_ok :: "'t memory \<Rightarrow> pointer \<Rightarrow> bool" where
  "rng_ok M r \<longleftrightarrow> (case r of None \<Rightarrow> True | Some a \<Rightarrow>
     (case p_live (m_rngs M) a of None \<Rightarrow> False | Some b \<Rightarrow> b = None \<or> p_live (m_buffers M) (the b) \<noteq> None))"

definition deletable :: "'t space \<Rightarrow> bool" where
  "deletable S \<longleftrightarrow> (case S of (M, s) \<Rightarrow>
     vars_ok M (vs_handles s) \<and> pointers_ok (m_lists M) (vs_lists s) \<and> rng_ok M (vs_rng s) \<and>
     distinct (space_arrays S) \<and> (\<forall>a\<in>set (space_arrays S). p_live (m_arrays M) a \<noteq> None))"

lemma delete_NDArrayList_eq:
  "delete_NDArrayList (A, l) = mfor (\<lambda>a A. delete_object A a) (List.map_filter snd (nl_chunks l)) A"
proof -
  have "mfor (\<lambda>(_, p) A. delete_ptr A p) cs A = mfor (\<lambda>a A. delete_object A a) (List.map_filter snd cs) A" for cs :: "(int \<times> pointer) list"
    by (induction cs arbitrary: A)
      (auto simp: List.map_filter_simps pool_simps split: option.splits cong: Option.bind_cong)
  then show ?thesis by (simp add: delete_NDArrayList_def)
qed

lemma delete_lists_ok:
  assumes "pool_ok (m_arrays M)" "pool_ok (m_lists M)" "pointers_ok (m_lists M) ps"
    "distinct (concat (map (list_arrays M) ps))"
    "\<forall>a\<in>set (concat (map (list_arrays M) ps)). p_live (m_arrays M) a \<noteq> None"
  shows "\<exists>A L. mfor (\<lambda>p M. delete_list M p) ps M = Some (M\<lparr>m_arrays := A, m_lists := L\<rparr>) \<and> pool_ok A \<and>
    p_live A = (\<lambda>a. if a \<in> set (concat (map (list_arrays M) ps)) then None else p_live (m_arrays M) a) \<and>
    p_live L = (\<lambda>b. if Some b \<in> set ps then None else p_live (m_lists M) b)"
  using assms
proof (induction ps arbitrary: M)
  case Nil
  then show ?case by (intro exI [of _ "m_arrays M"] exI [of _ "m_lists M"]) auto
next
  case (Cons p ps)
  show ?case
  proof (cases p)
    case None
    then show ?thesis
      using Cons.IH [of M] Cons.prems by (auto simp: delete_list_def list_arrays_def pointers_ok_def List.map_filter_simps)
  next
    case (Some b)
    then obtain l where l: "p_live (m_lists M) b = Some l" using Cons.prems(3) by (auto simp: pointers_ok_def)
    let ?as = "List.map_filter snd (nl_chunks l)"
    have as: "list_arrays M p = ?as" using l Some by (simp add: list_arrays_def)
    obtain A where A: "delete_NDArrayList (m_arrays M, l) = Some A" "pool_ok A"
      "p_live A = (\<lambda>a. if a \<in> set ?as then None else p_live (m_arrays M) a)"
      using pools.release_all [OF Cons.prems(1), of ?as] Cons.prems(4,5) as by (auto simp: delete_NDArrayList_eq)
    obtain L where L: "delete_object (m_lists M) b = Some L" "p_live L = (p_live (m_lists M))(b := None)" "pool_ok L"
      using pools.release_live [OF Cons.prems(2), of b] l by auto
    let ?M = "M\<lparr>m_arrays := A, m_lists := L\<rparr>"
    have ps: "Some b \<notin> set ps" "pointers_ok (m_lists M) ps"
      using Cons.prems(3) Some by (auto simp: pointers_ok_def List.map_filter_simps map_filter_id_iff)
    have same: "map (list_arrays ?M) ps = map (list_arrays M) ps"
      using ps(1) L(2) by (auto simp: list_arrays_def split: option.splits)
    have disj: "set ?as \<inter> set (concat (map (list_arrays M) ps)) = {}" using Cons.prems(4) as by auto
    have "pointers_ok L ps" using ps L(2) by (auto simp: pointers_ok_def)
    moreover have "\<forall>a\<in>set (concat (map (list_arrays M) ps)). p_live A a \<noteq> None"
      using disj Cons.prems(5) A(3) by auto
    ultimately obtain A' L' where IH: "mfor (\<lambda>p M. delete_list M p) ps ?M = Some (?M\<lparr>m_arrays := A', m_lists := L'\<rparr>)" "pool_ok A'"
      "p_live A' = (\<lambda>a. if a \<in> set (concat (map (list_arrays M) ps)) then None else p_live A a)"
      "p_live L' = (\<lambda>b. if Some b \<in> set ps then None else p_live L b)"
      using Cons.IH [of ?M] A(2) L(3) Cons.prems(4) by (auto simp: same cong: if_cong)
    have "delete_list M p = Some ?M" using Some l A(1) L(1) by (simp add: delete_list_def)
    then show ?thesis
      using IH A(3) L(2) as Some by (intro exI [of _ A'] exI [of _ L']) (auto simp: fun_eq_iff)
  qed
qed

lemma delete_VariableSpace_ok:
  assumes "deletable (M, s)"
  shows "\<exists>M'. delete_VariableSpace (M, s) = Some M' \<and>
    p_live (m_arrays M') = (\<lambda>a. if a \<in> set (space_arrays (M, s)) then None else p_live (m_arrays M) a) \<and>
    p_live (m_vars M') = (\<lambda>v. if v \<in> set (vs_handles s) then None else p_live (m_vars M) v) \<and>
    p_live (m_lists M') = (\<lambda>b. if Some b \<in> set (vs_lists s) then None else p_live (m_lists M) b)"
proof -
  let ?st = "List.map_filter id (st_handles (vs_stash s))"
  have ok: "vars_ok M (vs_handles s)" "pointers_ok (m_lists M) (vs_lists s)" "rng_ok M (vs_rng s)"
    "distinct (owners M (vs_handles s) @ concat (map (list_arrays M) (vs_lists s)) @ ?st)"
    "\<forall>a\<in>set (owners M (vs_handles s) @ concat (map (list_arrays M) (vs_lists s)) @ ?st). p_live (m_arrays M) a \<noteq> None"
    using assms by (auto simp: deletable_def space_arrays_def)
  obtain M1 where M1: "mfor (\<lambda>v M. delete_Variable M v) (vs_handles s) M = Some M1"
    "p_live (m_vars M1) = (\<lambda>v. if v \<in> set (vs_handles s) then None else p_live (m_vars M) v)"
    "p_live (m_arrays M1) = (\<lambda>a. if a \<in> set (owners M (vs_handles s)) then None else p_live (m_arrays M) a)"
    "m_lists M1 = m_lists M" "m_rngs M1 = m_rngs M" "m_buffers M1 = m_buffers M" "pool_ok (m_arrays M1)"
    using delete_Variables_ok [OF ok(1)] by (auto simp: same_rest_def)
  have same: "list_arrays M1 = list_arrays M" by (simp add: list_arrays_def M1(4) fun_eq_iff split: option.split)
  have disj: "set (owners M (vs_handles s)) \<inter> set (concat (map (list_arrays M) (vs_lists s)) @ ?st) = {}"
    "set (concat (map (list_arrays M) (vs_lists s))) \<inter> set ?st = {}"
    using ok(4) by auto
  have lists_ok: "pool_ok (m_lists M)" "distinct (concat (map (list_arrays M) (vs_lists s)))"
    "\<forall>a\<in>set (concat (map (list_arrays M) (vs_lists s))). p_live (m_arrays M1) a \<noteq> None"
    using ok(1,4,5) disj(1) M1(3) by (auto simp: vars_ok_def memory_ok_def)
  obtain A L where M2: "mfor (\<lambda>p M. delete_list M p) (vs_lists s) M1 = Some (M1\<lparr>m_arrays := A, m_lists := L\<rparr>)" "pool_ok A"
    "p_live A = (\<lambda>a. if a \<in> set (concat (map (list_arrays M) (vs_lists s))) then None else p_live (m_arrays M1) a)"
    "p_live L = (\<lambda>b. if Some b \<in> set (vs_lists s) then None else p_live (m_lists M) b)"
    using delete_lists_ok [of M1 "vs_lists s", unfolded same M1(4), OF M1(7) lists_ok(1) ok(2) lists_ok(2,3)] by blast
  obtain B R where M3: "(case vs_rng s of None \<Rightarrow> Some (M1\<lparr>m_arrays := A, m_lists := L\<rparr>)
       | Some r \<Rightarrow> do {
           b \<leftarrow> p_live (m_rngs (M1\<lparr>m_arrays := A, m_lists := L\<rparr>)) r;
           B \<leftarrow> delete_ptr (m_buffers (M1\<lparr>m_arrays := A, m_lists := L\<rparr>)) b;
           R \<leftarrow> delete_object (m_rngs (M1\<lparr>m_arrays := A, m_lists := L\<rparr>)) r;
           Some (M1\<lparr>m_arrays := A, m_lists := L, m_buffers := B, m_rngs := R\<rparr>) }) =
      Some (M1\<lparr>m_arrays := A, m_lists := L, m_buffers := B, m_rngs := R\<rparr>)"
  proof (cases "vs_rng s")
    case None
    then show ?thesis using that [of "m_rngs M1" "m_buffers M1"] by simp
  next
    case (Some r)
    then obtain b where b: "p_live (m_rngs M) r = Some b" "b = None \<or> p_live (m_buffers M) (the b) \<noteq> None"
      using ok(3) by (auto simp: rng_ok_def split: option.splits)
    obtain B where "delete_ptr (m_buffers M) b = Some B"
      using b(2) by (cases b) (auto simp: pool_simps delete_object_def)
    moreover obtain R where "delete_object (m_rngs M) r = Some R" using b(1) by (simp add: delete_object_def)
    ultimately show ?thesis using that [of R B] b(1) M1(5,6) Some by simp
  qed
  have "\<forall>a\<in>set ?st. p_live A a \<noteq> None" "distinct ?st" using ok(4,5) disj M2(3) M1(3) by auto
  then obtain A' where A': "delete_Stash A (vs_stash s) = Some A'"
    "p_live A' = (\<lambda>a. if a \<in> set ?st then None else p_live A a)"
    using pools.release_all [OF M2(2), of ?st]
    by (auto simp: delete_Stash_eq)
  have "delete_VariableSpace (M, s) = Some (M1\<lparr>m_arrays := A', m_lists := L, m_buffers := B, m_rngs := R\<rparr>)"
    unfolding delete_VariableSpace_def using M1(1) M2(1) M3 A'(1) by simp
  then show ?thesis
    using M1(2,3) M2(3,4) A'(2) by (auto simp: space_arrays_def fun_eq_iff)
qed

section \<open>Edge cases\<close>

text \<open>A memory with arrays of the given shapes, and variables on the arrays with these addresses.\<close>

definition memory_of :: "int list list \<Rightarrow> nat list \<Rightarrow> int memory" where
  "memory_of shs as = fold (\<lambda>a M. snd (new_var (Variable_array (Some a) None) M)) as
     (empty_memory\<lparr>m_arrays := arrays_of shs\<rparr>)"

text \<open>A second put under a negative id changes the pairs, but the lookup of a negative id goes to the variables: the
  new variable is not found under its key.\<close>

lemma second_put_invisible:
  "(do { q \<leftarrow> ebind (putVariable (memory_of [[2, 2], [2, 2]] [0, 1], new_VariableSpace) (-1, 0) 0)
            (\<lambda>S. putVariable S (-1, 0) 1);
         (case q of Inl e \<Rightarrow> None
          | Inr (M, s) \<Rightarrow> Some (map_of (vs_paired s) (-1, 0), getVariable s (-1, 0))) }) = Some (Some 1, Inr (Some 0))"
  by code_simp

text \<open>Output 1 of a negative id is there, but asking for it throws.\<close>

lemma has_but_get_throws:
  "(do { q \<leftarrow> putVariable (memory_of [[2, 2]] [0], new_VariableSpace) (-1, 1) 0;
         (case q of Inl e \<Rightarrow> None
          | Inr (M, s) \<Rightarrow> Some (hasVariable s (-1, 1), getVariable s (-1, 1))) }) = Some (True, Inl Out_of_range)"
  by code_simp

text \<open>A variable that is put under two keys is deleted twice by the destructor.\<close>

lemma put_twice_deleted_twice:
  "(do { q \<leftarrow> ebind (putVariable (memory_of [[2, 2]] [0], new_VariableSpace) (1, 0) 0)
            (\<lambda>S. putVariable S (1, 1) 0);
         (case q of Inl e \<Rightarrow> None
          | Inr S \<Rightarrow> Some (delete_VariableSpace S = None)) }) = Some True"
  by code_simp

text \<open>A put of an array for an id whose variable has none shares the array: with both variables removable, who deletes
  the refused variable leaves the space with a dangling array.\<close>

lemma refused_variable_shares:
  "(do { let M = memory_of [[2, 2]] [0];
         let (v, M) = new_var (Variable_array None None) M;
         q \<leftarrow> ebind (putVariable_id (M, new_VariableSpace) 3 v) (\<lambda>S. putVariable_id S 3 0);
         (case q of Inl e \<Rightarrow> None
          | Inr (M, s) \<Rightarrow> do {
              M \<leftarrow> delete_Variable M 0;
              Some (delete_VariableSpace (M, s) = None) }) }) = Some True"
  by code_simp

text \<open>The clone of a variable that holds a list does not have it.\<close>

lemma clone_forgets_list:
  "(do { let (p, L) = new_object (new_NDArrayList 0 True) empty_pool;
         let x = setNDArrayList (Variable_placeholder False) (Some p);
         q \<leftarrow> clone_Variable (\<lambda>a _. Some a) (\<lambda>a _. Some a) (empty_memory\<lparr>m_lists := L\<rparr> :: int memory) x;
         (case q of Inl e \<Rightarrow> None
          | Inr (v, M) \<Rightarrow> do { y \<leftarrow> var_at M v; Some (hasNDArrayList x, hasNDArrayList y, v_list y) }) }) =
   Some (True, False, Some 1)"
  by code_simp

section \<open>Properties\<close>

text \<open>C26: Any number of fresh variables can be put under keys of nodes. The last variable put under a key is the one the
  space answers for it, keys that were not used keep theirs, and the space stays well-formed.\<close>

theorem space_reads_back:
  assumes "space_ok S" "space_fresh S (map snd kvs)" "\<forall>k\<in>fst ` set kvs. node_key k"
  shows "\<exists>S'. mret (\<lambda>(k, v) S. putVariable S k v) kvs S = Some (Inr S') \<and> space_ok S' \<and>
    (\<forall>j. node_key j \<longrightarrow> (case map_of (rev kvs) j of
        Some v \<Rightarrow> hasVariable (snd S') j \<and> getVariable (snd S') j = Inr (Some v)
      | None \<Rightarrow> hasVariable (snd S') j = hasVariable (snd S) j \<and> getVariable (snd S') j = getVariable (snd S) j))"
  using space.puts_ok [of S kvs "[]"] assms by (simp only: append_Nil2) blast

lemma new_space_ok: "memory_ok M \<Longrightarrow> space_ok (M, new_VariableSpace)"
  by (simp add: space_ok_def new_VariableSpace_def known_def hasVariable_id_iff vars_ok_def)

lemma memory_of_example: "vars_ok (memory_of [[2, 3], [2, 3]] [0, 1]) [0, 1]"
  by (simp add: vars_ok_def memory_ok_def memory_of_def arrays_of_def new_var_def new_object_def empty_pool_def
      empty_memory_def var_at_def pool_ok_def owned_def Variable_array_def Variable_placeholder_def)

theorem space_reads_back_witness:
  "\<exists>M s. mret (\<lambda>(k, v) S. putVariable S k v) [((7, 0), 0), ((7, 1), 1)] (memory_of [[2, 3], [2, 3]] [0, 1], new_VariableSpace) =
     Some (Inr (M, s)) \<and> getVariable s (7, 0) = Inr (Some 0) \<and> getVariable s (7, 1) = Inr (Some 1)"
proof -
  have ok: "space_ok (memory_of [[2, 3], [2, 3]] [0, 1], new_VariableSpace)"
    using memory_of_example by (intro new_space_ok) (simp add: vars_ok_def)
  have fresh: "space_fresh (memory_of [[2, 3], [2, 3]] [0, 1], new_VariableSpace) (map snd [((7, 0), 0), ((7, 1), 1)])"
    using memory_of_example by (simp add: space_fresh_def new_VariableSpace_def)
  have keys: "\<forall>k\<in>fst ` set [((7 :: int, 0 :: int), 0 :: nat), ((7, 1), 1)]. node_key k" by (simp add: node_key_def)
  obtain M s where S: "mret (\<lambda>(k, v) S. putVariable S k v) [((7, 0), 0), ((7, 1), 1)]
      (memory_of [[2, 3], [2, 3]] [0, 1], new_VariableSpace) = Some (Inr (M, s))"
    "\<forall>j. node_key j \<longrightarrow> (case map_of (rev [((7, 0), 0), ((7, 1), 1)]) j of
        Some v \<Rightarrow> hasVariable s j \<and> getVariable s j = Inr (Some v)
      | None \<Rightarrow> hasVariable s j = hasVariable new_VariableSpace j \<and> getVariable s j = getVariable new_VariableSpace j)"
    using space_reads_back [OF ok fresh keys] unfolding split_paired_Ex snd_conv by blast
  then show ?thesis using S(2) [rule_format, of "(7, 0)"] S(2) [rule_format, of "(7, 1)"] by (auto simp: node_key_def)
qed

text \<open>C27: The destructor of a space whose variables, lists and stash name different arrays deletes each of its
  variables, lists and arrays once, and nothing else.\<close>

theorem delete_VariableSpace_deletes_once:
  assumes "deletable (M, s)"
  shows "\<exists>M'. delete_VariableSpace (M, s) = Some M' \<and>
    p_live (m_arrays M') = (\<lambda>a. if a \<in> set (space_arrays (M, s)) then None else p_live (m_arrays M) a) \<and>
    p_live (m_vars M') = (\<lambda>v. if v \<in> set (vs_handles s) then None else p_live (m_vars M) v) \<and>
    p_live (m_lists M') = (\<lambda>b. if Some b \<in> set (vs_lists s) then None else p_live (m_lists M) b)"
  by (rule delete_VariableSpace_ok [OF assms])

theorem delete_VariableSpace_deletes_once_witness:
  "\<exists>M'. delete_VariableSpace (memory_of [[2, 3], [2, 3]] [0, 1], new_VariableSpace\<lparr>vs_handles := [0, 1]\<rparr>) = Some M' \<and>
     p_live (m_arrays M') 0 = None"
proof -
  let ?M = "memory_of [[2, 3], [2, 3]] [0, 1]"
  have "deletable (?M, new_VariableSpace\<lparr>vs_handles := [0, 1]\<rparr>)"
    using memory_of_example
    by (simp add: deletable_def pointers_ok_def rng_ok_def space_arrays_def new_VariableSpace_def new_Stash_def
        vars_ok_def List.map_filter_simps)
  moreover have "owners ?M [0, 1] = [0, 1]" by code_simp
  ultimately show ?thesis
    using delete_VariableSpace_deletes_once [of ?M "new_VariableSpace\<lparr>vs_handles := [0, 1]\<rparr>"]
    by (auto simp: space_arrays_def)
qed

end
