(* ===== verification/VariableProxies.thy ===== *)
theory VariableProxies
  imports VariableSpaces
begin

text \<open>
  \<open>VariableProxy\<close> (\<open>include/graph/impl/VariableProxy.cpp\<close>): a space of its own, \<open>_current\<close>, in front of
  another one, \<open>_backed\<close>, that it only reads. It is a second provider of the contract of variable stores. The space
  behind a proxy is taken to be a plain one; the source allows another proxy there.
\<close>

section \<open>The code\<close>

record VariableProxy =
  vp_backed :: "VariableSpace option"
  vp_current :: VariableSpace

text \<open>Without a space to read, the constructor makes one, and then overwrites it with the null pointer.\<close>

definition new_VariableProxy :: "VariableSpace option \<Rightarrow> VariableProxy" where
  "new_VariableProxy ref = \<lparr>vp_backed = ref, vp_current = new_VariableSpace\<rparr>"

text \<open>\<open>delete _current\<close>; the base class part of a proxy holds nothing.\<close>

definition delete_VariableProxy :: "'t memory \<Rightarrow> VariableProxy \<Rightarrow> 't memory option" where
  "delete_VariableProxy M p = delete_VariableSpace (M, vp_current p)"

text \<open>The lookups ask \<open>_current\<close> first; \<open>_backed\<close> is followed only then.\<close>

definition either_has :: "(VariableSpace \<Rightarrow> 'k \<Rightarrow> bool) \<Rightarrow> VariableProxy \<Rightarrow> 'k \<Rightarrow> bool option" where
  "either_has has p k =
     (if has (vp_current p) k then Some True else do { b \<leftarrow> vp_backed p; Some (has b k) })"

definition first_of :: "(VariableSpace \<Rightarrow> 'k \<Rightarrow> bool) \<Rightarrow> (VariableSpace \<Rightarrow> 'k \<Rightarrow> exn + pointer) \<Rightarrow>
    VariableProxy \<Rightarrow> 'k \<Rightarrow> pointer result" where
  "first_of has get p k =
     (if has (vp_current p) k then Some (get (vp_current p) k)
      else do {
        b \<leftarrow> vp_backed p;
        if has b k then Some (get b k) else Some (Inl (Thrown ''Bad arguments'')) })"

definition proxy_hasVariable_id :: "VariableProxy \<Rightarrow> int \<Rightarrow> bool option" where
  "proxy_hasVariable_id = either_has hasVariable_id"

definition proxy_hasVariable_at :: "VariableProxy \<Rightarrow> int \<Rightarrow> int \<Rightarrow> bool option" where
  "proxy_hasVariable_at p id' idx = either_has (\<lambda>s (i, j). hasVariable_at s i j) p (id', idx)"

definition proxy_hasVariable :: "VariableProxy \<Rightarrow> int \<times> int \<Rightarrow> bool option" where
  "proxy_hasVariable = either_has hasVariable"

definition proxy_hasVariable_symbol :: "VariableProxy \<Rightarrow> string \<Rightarrow> bool option" where
  "proxy_hasVariable_symbol = either_has hasVariable_symbol"

definition proxy_getVariable_id :: "VariableProxy \<Rightarrow> int \<Rightarrow> pointer result" where
  "proxy_getVariable_id = first_of hasVariable_id getVariable_id"

definition proxy_getVariable_at :: "VariableProxy \<Rightarrow> int \<Rightarrow> int \<Rightarrow> pointer result" where
  "proxy_getVariable_at p id' idx =
     first_of (\<lambda>s (i, j). hasVariable_at s i j) (\<lambda>s (i, j). getVariable_at s i j) p (id', idx)"

definition proxy_getVariable :: "VariableProxy \<Rightarrow> int \<times> int \<Rightarrow> pointer result" where
  "proxy_getVariable = first_of hasVariable getVariable"

definition proxy_getVariable_symbol :: "VariableProxy \<Rightarrow> string \<Rightarrow> pointer result" where
  "proxy_getVariable_symbol = first_of hasVariable_symbol getVariable_symbol"

text \<open>Whether a variable is external is asked of \<open>_backed\<close> alone.\<close>

definition proxy_hasExternalVariable_id :: "'t memory \<Rightarrow> VariableProxy \<Rightarrow> int \<Rightarrow> bool result" where
  "proxy_hasExternalVariable_id M p it = do { b \<leftarrow> vp_backed p; hasExternalVariable_id M b it }"

definition proxy_hasExternalVariable :: "'t memory \<Rightarrow> VariableProxy \<Rightarrow> int \<times> int \<Rightarrow> bool result" where
  "proxy_hasExternalVariable M p pair = do { b \<leftarrow> vp_backed p; hasExternalVariable M b pair }"

definition proxy_hasExternalVariable_symbol :: "'t memory \<Rightarrow> VariableProxy \<Rightarrow> string \<Rightarrow> bool result" where
  "proxy_hasExternalVariable_symbol M p symbol = do { b \<leftarrow> vp_backed p; hasExternalVariable_symbol M b symbol }"

definition proxy_numberOfPlaceholders :: "VariableProxy \<Rightarrow> int option" where
  "proxy_numberOfPlaceholders p = do { b \<leftarrow> vp_backed p; Some (numberOfPlaceholders b) }"

definition proxy_getPlaceholders :: "VariableProxy \<Rightarrow> nat list option" where
  "proxy_getPlaceholders p = do { b \<leftarrow> vp_backed p; Some (vs_placeholders b) }"

text \<open>The puts go to \<open>_current\<close>.\<close>

type_synonym 't proxy = "'t memory \<times> VariableProxy"

definition on_current :: "('t space \<Rightarrow> 't space result) \<Rightarrow> 't proxy \<Rightarrow> 't proxy result" where
  "on_current f P = (case P of (M, p) \<Rightarrow>
     ebind (f (M, vp_current p)) (\<lambda>(M, s). Some (Inr (M, p\<lparr>vp_current := s\<rparr>))))"

definition proxy_putVariable :: "'t proxy \<Rightarrow> int \<times> int \<Rightarrow> nat \<Rightarrow> 't proxy result" where
  "proxy_putVariable P pair variable = on_current (\<lambda>S. putVariable S pair variable) P"

definition proxy_putVariable_array :: "'t proxy \<Rightarrow> int \<times> int \<Rightarrow> pointer \<Rightarrow> 't proxy result" where
  "proxy_putVariable_array P pair array = on_current (\<lambda>S. putVariable_array S pair array) P"

definition proxy_putVariable_id :: "'t proxy \<Rightarrow> int \<Rightarrow> nat \<Rightarrow> 't proxy result" where
  "proxy_putVariable_id P id' variable = on_current (\<lambda>S. putVariable_id S id' variable) P"

definition proxy_putVariable_array_id :: "'t proxy \<Rightarrow> int \<Rightarrow> pointer \<Rightarrow> 't proxy result" where
  "proxy_putVariable_array_id P id' array = on_current (\<lambda>S. putVariable_array_id S id' array) P"

definition proxy_putVariable_array_at :: "'t proxy \<Rightarrow> int \<Rightarrow> int \<Rightarrow> pointer \<Rightarrow> 't proxy result" where
  "proxy_putVariable_array_at P id' idx array = on_current (\<lambda>S. putVariable_array_at S id' idx array) P"

definition proxy_putVariable_at :: "'t proxy \<Rightarrow> int \<Rightarrow> int \<Rightarrow> nat \<Rightarrow> 't proxy result" where
  "proxy_putVariable_at P id' idx variable = on_current (\<lambda>S. putVariable_at S id' idx variable) P"

definition proxy_putOutputVariable :: "'t proxy \<Rightarrow> nat \<Rightarrow> 't proxy result" where
  "proxy_putOutputVariable P variable = on_current (\<lambda>S. putOutputVariable S variable) P"

definition proxy_trackList :: "VariableProxy \<Rightarrow> pointer \<Rightarrow> VariableProxy" where
  "proxy_trackList p lst = p\<lparr>vp_current := trackList (vp_current p) lst\<rparr>"

definition proxy_getStash :: "VariableProxy \<Rightarrow> Stash" where
  "proxy_getStash p = vs_stash (vp_current p)"

definition proxy_getRNG :: "VariableProxy \<Rightarrow> pointer" where
  "proxy_getRNG p = vs_rng (vp_current p)"

definition proxy_setRNG :: "VariableProxy \<Rightarrow> pointer \<Rightarrow> VariableProxy" where
  "proxy_setRNG p rng = p\<lparr>vp_current := setRNG (vp_current p) rng\<rparr>"

definition proxy_setFlowPath :: "VariableProxy \<Rightarrow> pointer \<Rightarrow> VariableProxy" where
  "proxy_setFlowPath p timers = p\<lparr>vp_current := setFlowPath (vp_current p) timers\<rparr>"

definition proxy_flowPath :: "VariableProxy \<Rightarrow> pointer" where
  "proxy_flowPath p = vs_flow (vp_current p)"

text \<open>The statistics add up both spaces.\<close>

definition proxy_externalMemory :: "int \<Rightarrow> 't proxy \<Rightarrow> int option" where
  "proxy_externalMemory sizeOfT P = (case P of (M, p) \<Rightarrow> do {
     b \<leftarrow> vp_backed p; m \<leftarrow> externalMemory sizeOfT (M, b); n \<leftarrow> externalMemory sizeOfT (M, vp_current p); i64 (m + n) })"

definition proxy_internalMemory :: "int \<Rightarrow> 't proxy \<Rightarrow> int option" where
  "proxy_internalMemory sizeOfT P = (case P of (M, p) \<Rightarrow> do {
     b \<leftarrow> vp_backed p; m \<leftarrow> internalMemory sizeOfT (M, b); n \<leftarrow> internalMemory sizeOfT (M, vp_current p); i64 (m + n) })"

definition proxy_totalMemory :: "int \<Rightarrow> 't proxy \<Rightarrow> int option" where
  "proxy_totalMemory sizeOfT P = (case P of (M, p) \<Rightarrow> do {
     b \<leftarrow> vp_backed p; m \<leftarrow> totalMemory sizeOfT (M, b); n \<leftarrow> totalMemory sizeOfT (M, vp_current p); i64 (m + n) })"

definition proxy_externalEntries :: "VariableProxy \<Rightarrow> int option" where
  "proxy_externalEntries p = do { b \<leftarrow> vp_backed p; i32 (externalEntries b + externalEntries (vp_current p)) }"

definition proxy_internalEntries :: "VariableProxy \<Rightarrow> int option" where
  "proxy_internalEntries p = do { b \<leftarrow> vp_backed p; i32 (internalEntries b + internalEntries (vp_current p)) }"

definition proxy_totalEntries :: "VariableProxy \<Rightarrow> int option" where
  "proxy_totalEntries p = do { b \<leftarrow> vp_backed p; m \<leftarrow> totalEntries b; n \<leftarrow> totalEntries (vp_current p); i32 (m + n) }"

text \<open>The clone shares \<open>_backed\<close> and has its own copy of \<open>_current\<close>.\<close>

definition clone_VariableProxy :: "('t ndarray \<Rightarrow> 't \<Rightarrow> 't ndarray option) \<Rightarrow> ('t ndarray \<Rightarrow> 't ndarray \<Rightarrow> 't ndarray option) \<Rightarrow>
    't proxy \<Rightarrow> 't proxy result" where
  "clone_VariableProxy execScalar execPairwise P = (case P of (M, p) \<Rightarrow> do {
     let c = new_VariableProxy (vp_backed p);
     M \<leftarrow> delete_VariableSpace (M, vp_current c);
     ebind (clone_VariableSpace execScalar execPairwise (M, vp_current p)) (\<lambda>(M, s).
       Some (Inr (M, c\<lparr>vp_current := s\<rparr>))) })"

section \<open>The contract of a store\<close>

definition proxy_ok :: "'t proxy \<Rightarrow> bool" where
  "proxy_ok P \<longleftrightarrow> (case P of (M, p) \<Rightarrow> (case vp_backed p of None \<Rightarrow> False
     | Some b \<Rightarrow> space_ok (M, b) \<and> space_ok (M, vp_current p) \<and> vars_ok M (vs_handles (vp_current p) @ vs_handles b)))"

definition proxy_fresh :: "'t proxy \<Rightarrow> nat list \<Rightarrow> bool" where
  "proxy_fresh P vs \<longleftrightarrow> (case P of (M, p) \<Rightarrow> (case vp_backed p of None \<Rightarrow> False
     | Some b \<Rightarrow> vars_ok M (vs @ vs_handles (vp_current p) @ vs_handles b)))"

definition proxy_has :: "'t proxy \<Rightarrow> int \<times> int \<Rightarrow> bool" where
  "proxy_has P k \<longleftrightarrow> proxy_hasVariable (snd P) k = Some True"

definition proxy_get :: "'t proxy \<Rightarrow> int \<times> int \<Rightarrow> exn + pointer" where
  "proxy_get P k = the (proxy_getVariable (snd P) k)"

lemma proxy_put_get:
  assumes "proxy_ok P" "node_key k" "proxy_fresh P (v # vs)"
  shows "\<exists>P'. proxy_putVariable P k v = Some (Inr P') \<and> proxy_ok P' \<and> proxy_fresh P' vs \<and>
    proxy_has P' k \<and> proxy_get P' k = Inr (Some v) \<and>
    (\<forall>j. node_key j \<longrightarrow> j \<noteq> k \<longrightarrow> proxy_has P' j = proxy_has P j \<and> proxy_get P' j = proxy_get P j)"
proof -
  obtain M p where P: "P = (M, p)" by (cases P)
  obtain b where b: "vp_backed p = Some b" "space_ok (M, b)" "space_ok (M, vp_current p)"
    using assms(1) by (auto simp: P proxy_ok_def split: option.splits)
  let ?s = "vp_current p"
  have fr: "vars_ok M (v # vs @ vs_handles ?s @ vs_handles b)" using assms(3) b(1) by (simp add: P proxy_fresh_def)
  have "vars_ok M (vs_handles b @ vs @ v # vs_handles ?s)"
    using fr vars_ok_mset [of "vs_handles b @ vs @ v # vs_handles ?s" "v # vs @ vs_handles ?s @ vs_handles b" M] by simp
  then have "vars_ok M (v # vs_handles ?s)" by (auto dest!: vars_ok_append)
  then obtain M' s' where s': "putVariable (M, ?s) k v = Some (Inr (M', s'))" "space_ok (M', s')"
    "vs_paired s' = map_put k v (vs_paired ?s)" "vs_handles s' = vs_handles ?s @ [v]"
    "\<And>ws. vars_ok M ws \<Longrightarrow> vars_ok M' ws"
    using putVariable_node [of M ?s v k] b(3) assms(2) by (auto simp: node_key_def)
  let ?p = "p\<lparr>vp_current := s'\<rparr>"
  have put: "proxy_putVariable P k v = Some (Inr (M', ?p))"
    by (simp add: P proxy_putVariable_def on_current_def s'(1))
  have b': "space_ok (M', b)" using b(2) s'(5) by (simp add: space_ok_def)
  have fr': "vars_ok M' (vs @ vs_handles s' @ vs_handles b)"
    using s'(5) [OF fr] vars_ok_mset [of "vs @ vs_handles s' @ vs_handles b" "v # vs @ vs_handles ?s @ vs_handles b" M'] s'(4)
    by simp
  have ok: "proxy_ok (M', ?p)" "proxy_fresh (M', ?p) vs"
    using b(1) b' s'(2) fr' vars_ok_append [OF fr'] by (simp_all add: proxy_ok_def proxy_fresh_def)
  have m: "map_ok (vs_paired ?s)" using b(3) by (simp add: space_ok_def)
  have has: "hasVariable s' j \<longleftrightarrow> j = k \<or> hasVariable ?s j" for j
    by (simp add: hasVariable_iff s'(3) map_of_put [OF m])
  have get: "getVariable s' j = (if j = k then Inr (Some v) else getVariable ?s j)" if "node_key j" for j
    using that getVariable_node [OF s'(2)] getVariable_node [OF b(3)]
    by (simp add: node_key_def s'(3) map_of_put [OF m])
  have "proxy_has (M', ?p) k \<and> proxy_get (M', ?p) k = Inr (Some v)"
    using get [OF assms(2)]
    by (simp add: proxy_has_def proxy_get_def proxy_hasVariable_def proxy_getVariable_def either_has_def first_of_def has)
  moreover have "proxy_has (M', ?p) j = proxy_has P j \<and> proxy_get (M', ?p) j = proxy_get P j" if "node_key j" "j \<noteq> k" for j
    using get [OF that(1)] that(2) b(1)
    by (simp add: P proxy_has_def proxy_get_def proxy_hasVariable_def proxy_getVariable_def either_has_def first_of_def has)
  ultimately show ?thesis using put ok by blast
qed

lemma proxy_get_has:
  assumes "proxy_ok P" "node_key k" "proxy_has P k"
  shows "\<exists>v. proxy_get P k = Inr (Some v)"
proof -
  obtain M p b where P: "P = (M, p)" "vp_backed p = Some b" "space_ok (M, b)" "space_ok (M, vp_current p)"
    using assms(1) by (cases P) (auto simp: proxy_ok_def split: option.splits)
  then show ?thesis
    using assms(2,3) getVariable_node [OF P(3), of k] getVariable_node [OF P(4), of k]
    by (auto simp: node_key_def proxy_has_def proxy_get_def proxy_hasVariable_def proxy_getVariable_def either_has_def
        first_of_def hasVariable_iff split: if_splits)
qed

interpretation proxy: variable_store proxy_ok proxy_fresh proxy_has proxy_get proxy_putVariable
  by unfold_locales (fact proxy_get_has, fact proxy_put_get)




section \<open>Edge cases\<close>

text \<open>A proxy made without a space has none: the first lookup of a key it does not hold follows a null pointer.\<close>

lemma proxy_of_nothing: "proxy_hasVariable (new_VariableProxy None) k = None"
  by (simp add: proxy_hasVariable_def either_has_def new_VariableProxy_def hasVariable_def new_VariableSpace_def map_count_def)

text \<open>An external variable put into a proxy is not one of its external variables.\<close>

lemma proxy_external_missed:
  "(do { let (v, M) = new_var (markExternal (Variable_array (Some 0) None) True) (memory_of [[2, 2]] []);
         q \<leftarrow> proxy_putVariable (M, new_VariableProxy (Some new_VariableSpace)) (-1, 0) v;
         (case q of Inl e \<Rightarrow> None
          | Inr (M, p) \<Rightarrow> do {
              h \<leftarrow> proxy_hasVariable p (-1, 0);
              e \<leftarrow> proxy_hasExternalVariable M p (-1, 0);
              Some (h, e) }) }) = Some (True, Inr False)"
  by code_simp

section \<open>Properties\<close>



end
