(* ===== verification/Nodes.thy ===== *)
theory Nodes
  imports VariableSpaces FlowPath
begin

text \<open>
  Nodes of a graph (\<open>include/graph/impl/Node.cpp\<close>), the prototype of the context their op runs in
  (\<open>ContextPrototype.cpp\<close>), and the context itself (\<open>Context.cpp\<close>): the op's inputs and its access to the variable space.
  Ops are known by their descriptor only. Left out of a node: the scalar, the dimensions, the class of the op and its
  extra parameters, which only ops read; and embedded graphs.
\<close>

section \<open>Op descriptors and context prototypes\<close>

record OpDescriptor =
  od_opNum :: int
  od_opName :: string
  od_numberOfInputs :: int
  od_numberOfOutputs :: int
  od_divergent :: bool
  od_allowsInplace :: bool
  od_tArgs :: int
  od_iArgs :: int
  od_scalar :: bool
  od_logic :: bool

text \<open>The constructors: of a logical op, a boolean op, an op, an op with arguments, a divergent op, a divergent op with
  arguments. The hash of the name, the class of the op and the type of its inputs are not part of the model.\<close>

definition OpDescriptor_default :: OpDescriptor where
  "OpDescriptor_default = \<lparr>od_opNum = 0, od_opName = [], od_numberOfInputs = 1, od_numberOfOutputs = 1, od_divergent = False,
     od_allowsInplace = True, od_tArgs = 0, od_iArgs = 0, od_scalar = False, od_logic = False\<rparr>"

definition OpDescriptor_logic :: "string \<Rightarrow> bool \<Rightarrow> OpDescriptor" where
  "OpDescriptor_logic opName isLogic = OpDescriptor_default\<lparr>od_logic := isLogic, od_opName := opName\<rparr>"

definition OpDescriptor_boolean :: "int \<Rightarrow> string \<Rightarrow> bool \<Rightarrow> OpDescriptor" where
  "OpDescriptor_boolean numInputs opName scalar =
     OpDescriptor_default\<lparr>od_numberOfInputs := numInputs, od_numberOfOutputs := 1, od_opName := opName, od_scalar := scalar\<rparr>"

definition new_OpDescriptor :: "int \<Rightarrow> int \<Rightarrow> string \<Rightarrow> bool \<Rightarrow> OpDescriptor" where
  "new_OpDescriptor numInputs numOutputs opName allowsInplace =
     OpDescriptor_default\<lparr>od_numberOfInputs := numInputs, od_numberOfOutputs := numOutputs, od_opName := opName,
       od_allowsInplace := allowsInplace, od_divergent := False\<rparr>"

definition OpDescriptor_configurable :: "int \<Rightarrow> int \<Rightarrow> string \<Rightarrow> bool \<Rightarrow> int \<Rightarrow> int \<Rightarrow> OpDescriptor" where
  "OpDescriptor_configurable numInputs numOutputs opName allowsInplace tArgs iArgs =
     (new_OpDescriptor numInputs numOutputs opName allowsInplace)\<lparr>od_tArgs := tArgs, od_iArgs := iArgs\<rparr>"

definition OpDescriptor_divergent :: "int \<Rightarrow> int \<Rightarrow> string \<Rightarrow> bool \<Rightarrow> bool \<Rightarrow> OpDescriptor" where
  "OpDescriptor_divergent numInputs numOutputs opName allowsInplace divergent =
     (new_OpDescriptor numInputs numOutputs opName allowsInplace)\<lparr>od_divergent := divergent\<rparr>"

definition OpDescriptor_divergent_configurable :: "int \<Rightarrow> int \<Rightarrow> string \<Rightarrow> bool \<Rightarrow> bool \<Rightarrow> int \<Rightarrow> int \<Rightarrow> OpDescriptor" where
  "OpDescriptor_divergent_configurable numInputs numOutputs opName allowsInplace divergent tArgs iArgs =
     (OpDescriptor_configurable numInputs numOutputs opName allowsInplace tArgs iArgs)\<lparr>od_divergent := divergent\<rparr>"

record 't ContextPrototype =
  cp_inputs :: "(int \<times> int) list"
  cp_nodeId :: int
  cp_tArgs :: "'t list"
  cp_iArgs :: "int list"
  cp_isInplace :: bool
  cp_opNum :: int

definition new_ContextPrototype :: "int \<Rightarrow> bool \<Rightarrow> 't ContextPrototype" where
  "new_ContextPrototype nodeId inPlace = \<lparr>cp_inputs = [], cp_nodeId = nodeId, cp_tArgs = [], cp_iArgs = [],
     cp_isInplace = inPlace, cp_opNum = -1\<rparr>"

definition cp_pickInput :: "'t ContextPrototype \<Rightarrow> int \<times> int \<Rightarrow> 't ContextPrototype" where
  "cp_pickInput c p = c\<lparr>cp_inputs := cp_inputs c @ [p]\<rparr>"

definition cp_pickInput_at :: "'t ContextPrototype \<Rightarrow> int \<Rightarrow> int \<Rightarrow> 't ContextPrototype" where
  "cp_pickInput_at c input index = cp_pickInput c (input, index)"

definition cp_pickInput_id :: "'t ContextPrototype \<Rightarrow> int \<Rightarrow> 't ContextPrototype" where
  "cp_pickInput_id c input = c\<lparr>cp_inputs := cp_inputs c @ [(input, 0)]\<rparr>"

definition fillInputs :: "'t ContextPrototype \<Rightarrow> int list \<Rightarrow> 't ContextPrototype" where
  "fillInputs c inputs = foldl cp_pickInput_id c inputs"

definition hasVariablesFilled :: "'t ContextPrototype \<Rightarrow> bool" where
  "hasVariablesFilled c \<longleftrightarrow> length (cp_inputs c) > 0"

definition cp_input :: "'t ContextPrototype \<Rightarrow> int \<Rightarrow> exn + (int \<times> int)" where
  "cp_input c idx = (if 0 \<le> idx \<and> idx < int (length (cp_inputs c)) then Inr (cp_inputs c ! nat idx) else Inl Out_of_range)"

definition cp_markInplace :: "'t ContextPrototype \<Rightarrow> bool \<Rightarrow> 't ContextPrototype" where
  "cp_markInplace c reallyInplace = c\<lparr>cp_isInplace := reallyInplace\<rparr>"

definition cp_setOpNum :: "'t ContextPrototype \<Rightarrow> int \<Rightarrow> 't ContextPrototype" where
  "cp_setOpNum c opNum = c\<lparr>cp_opNum := opNum\<rparr>"

definition clone_ContextPrototype :: "'t ContextPrototype \<Rightarrow> 't ContextPrototype" where
  "clone_ContextPrototype c =
     (let clone = (new_ContextPrototype (cp_nodeId c) (cp_isInplace c))\<lparr>cp_opNum := cp_opNum c\<rparr>;
          clone = foldl (\<lambda>k v. k\<lparr>cp_inputs := cp_inputs k @ [v]\<rparr>) clone (cp_inputs c);
          clone = foldl (\<lambda>k v. k\<lparr>cp_tArgs := cp_tArgs k @ [v]\<rparr>) clone (cp_tArgs c) in
      foldl (\<lambda>k v. k\<lparr>cp_iArgs := cp_iArgs k @ [v]\<rparr>) clone (cp_iArgs c))"

section \<open>Nodes\<close>

datatype OpType = OpType_TRANSFORM | OpType_ACCUMULATION | OpType_INDEX_ACCUMULATION | OpType_SCALAR | OpType_BROADCAST
  | OpType_PAIRWISE | OpType_ACCUMULATION3 | OpType_SUMMARYSTATS | OpType_SHAPE | OpType_AGGREGATION | OpType_RANDOM
  | OpType_CUSTOM | OpType_GRAPH | OpType_VARIABLE | OpType_BOOLEAN | OpType_LOGIC

record 't Node =
  n_opType :: OpType
  n_protoContext :: "'t ContextPrototype option"
  n_opNum :: int
  n_id :: int
  n_input :: "(int \<times> int) list"
  n_output :: "(int \<times> int) list"
  n_referencedBy :: "int list"
  n_name :: string
  n_layer :: int
  n_hasExternalOutputs :: bool
  n_hasExternalInputs :: bool
  n_hasInternalOutputs :: bool
  n_hasInternalInputs :: bool
  n_isInplace :: bool
  n_isDeductable :: bool
  n_customOp :: "OpDescriptor option"
  n_active :: bool
  n_scope_id :: int
  n_scope_name :: string
  n_rewindNode :: int
  n_rewindLayer :: "int \<times> int"
  n_frameId :: int

text \<open>The getters of the source read these fields.\<close>

definition pickInput_pair :: "'t Node \<Rightarrow> int \<times> int \<Rightarrow> 't Node" where
  "pickInput_pair n pair = n\<lparr>n_input := n_input n @ [pair]\<rparr>"

definition pickInput_at :: "'t Node \<Rightarrow> int \<Rightarrow> int \<Rightarrow> 't Node" where
  "pickInput_at n inputId outputId = pickInput_pair n (inputId, outputId)"

definition pickInput :: "'t Node \<Rightarrow> int \<Rightarrow> 't Node" where
  "pickInput n inputId =
     (let n = pickInput_at n inputId 0 in
      if inputId < 0 then n\<lparr>n_hasExternalInputs := True\<rparr> else n\<lparr>n_hasInternalInputs := True\<rparr>)"

definition pickExternalOutput :: "'t Node \<Rightarrow> int \<Rightarrow> 't Node" where
  "pickExternalOutput n outputId = n\<lparr>n_output := n_output n @ [(outputId, 0)], n_hasExternalOutputs := True\<rparr>"

definition pickOutput_at :: "'t Node \<Rightarrow> int \<Rightarrow> int \<Rightarrow> 't Node" where
  "pickOutput_at n nodeId outputId = n\<lparr>n_output := n_output n @ [(nodeId, outputId)]\<rparr>"

definition pickOutput :: "'t Node \<Rightarrow> int \<Rightarrow> 't Node" where
  "pickOutput n outputId =
     (let n = n\<lparr>n_output := n_output n @ [(outputId, 0)]\<rparr> in
      if outputId < 0 then n\<lparr>n_hasExternalOutputs := True\<rparr> else n\<lparr>n_hasInternalOutputs := True\<rparr>)"

definition pickOutputOnce :: "'t Node \<Rightarrow> int \<Rightarrow> 't Node" where
  "pickOutputOnce n outputId = (if (outputId, 0) \<notin> set (n_output n) then pickOutput n outputId else n)"

definition hasCustomOp :: "'t Node \<Rightarrow> bool" where
  "hasCustomOp n \<longleftrightarrow> n_customOp n \<noteq> None"

definition isDivergencePoint :: "'t Node \<Rightarrow> bool" where
  "isDivergencePoint n =
     (case n_customOp n of
        Some d \<Rightarrow> od_divergent d
      | None \<Rightarrow> if n_opType n = OpType_LOGIC \<and> n_opNum n = 30 then True else False)"

definition node_markInplace :: "'t Node \<Rightarrow> bool \<Rightarrow> 't Node" where
  "node_markInplace n reallyInplace =
     n\<lparr>n_isInplace := reallyInplace, n_protoContext := map_option (\<lambda>c. cp_markInplace c reallyInplace) (n_protoContext n)\<rparr>"

definition setActive :: "'t Node \<Rightarrow> bool \<Rightarrow> 't Node" where
  "setActive n reallyActive = n\<lparr>n_active := reallyActive\<rparr>"

definition setFrameId :: "'t Node \<Rightarrow> int \<Rightarrow> 't Node" where
  "setFrameId n frameId = n\<lparr>n_frameId := frameId\<rparr>"

definition setLayer :: "'t Node \<Rightarrow> int \<Rightarrow> 't Node" where
  "setLayer n layer = n\<lparr>n_layer := layer\<rparr>"

definition setRewindNode :: "'t Node \<Rightarrow> int \<Rightarrow> 't Node" where
  "setRewindNode n nodeId = n\<lparr>n_rewindNode := nodeId\<rparr>"

definition setRewindLayer :: "'t Node \<Rightarrow> int \<Rightarrow> int \<Rightarrow> 't Node" where
  "setRewindLayer n layerId stepId = n\<lparr>n_rewindLayer := (layerId, stepId)\<rparr>"

definition setScopeInfo :: "'t Node \<Rightarrow> int \<Rightarrow> string option \<Rightarrow> 't Node" where
  "setScopeInfo n id' name =
     (let n = n\<lparr>n_scope_id := id'\<rparr> in (case name of None \<Rightarrow> n | Some s \<Rightarrow> n\<lparr>n_scope_name := s\<rparr>))"

definition isScoped :: "'t Node \<Rightarrow> bool" where
  "isScoped n \<longleftrightarrow> n_scope_id n \<noteq> 0"

definition addReference :: "'t Node \<Rightarrow> int \<Rightarrow> 't Node" where
  "addReference n nodeId = n\<lparr>n_referencedBy := n_referencedBy n @ [nodeId]\<rparr>"

definition totalReferences :: "'t Node \<Rightarrow> int" where
  "totalReferences n = to_int (int (length (n_referencedBy n)))"

definition setContextPrototype :: "'t Node \<Rightarrow> 't ContextPrototype \<Rightarrow> exn + 't Node" where
  "setContextPrototype n block =
     (if n_protoContext n \<noteq> None then Inl (Thrown ''Block already exists'') else Inr (n\<lparr>n_protoContext := Some block\<rparr>))"

definition getContextPrototype :: "'t Node \<Rightarrow> 't ContextPrototype \<times> 't Node" where
  "getContextPrototype n =
     (let c = (case n_protoContext n of None \<Rightarrow> new_ContextPrototype (n_id n) False | Some c \<Rightarrow> c);
          c = (if cp_inputs c = [] then foldl cp_pickInput c (n_input n) else c) in
      (c, n\<lparr>n_protoContext := Some c\<rparr>))"

definition setCustomOp :: "'t Node \<Rightarrow> OpDescriptor option \<Rightarrow> 't Node" where
  "setCustomOp n customOp =
     (let n = n\<lparr>n_customOp := customOp\<rparr> in
      (case customOp of
         None \<Rightarrow> n
       | Some d \<Rightarrow> if od_divergent d then n\<lparr>n_isInplace := True\<rparr> else n))"

text \<open>The constructor. \<open>buildOp\<close> is \<open>buildOpByType\<close>, which makes the op of a legacy op number.\<close>

definition legacy_op :: "OpType \<Rightarrow> bool" where
  "legacy_op opType \<longleftrightarrow> opType = OpType_BROADCAST \<or> opType = OpType_INDEX_ACCUMULATION \<or> opType = OpType_SUMMARYSTATS \<or>
     opType = OpType_ACCUMULATION \<or> opType = OpType_ACCUMULATION3 \<or> opType = OpType_TRANSFORM \<or>
     opType = OpType_RANDOM \<or> opType = OpType_PAIRWISE \<or> opType = OpType_SCALAR"

definition new_Node :: "(OpType \<Rightarrow> int \<Rightarrow> int \<Rightarrow> int \<Rightarrow> int \<Rightarrow> exn + OpDescriptor) \<Rightarrow> OpType \<Rightarrow> int \<Rightarrow> int \<Rightarrow> int list \<Rightarrow>
    int list \<Rightarrow> int list \<Rightarrow> 't list \<Rightarrow> int list \<Rightarrow> exn + 't Node" where
  "new_Node buildOp opType opNum id' input output dimensions tArgs iArgs =
     (let n = \<lparr>n_opType = opType, n_protoContext = None, n_opNum = opNum, n_id = id', n_input = [], n_output = [],
            n_referencedBy = [], n_name = [], n_layer = -1, n_hasExternalOutputs = False, n_hasExternalInputs = False,
            n_hasInternalOutputs = False, n_hasInternalInputs = False, n_isInplace = False, n_isDeductable = False,
            n_customOp = None, n_active = True, n_scope_id = 0, n_scope_name = [], n_rewindNode = -1,
            n_rewindLayer = (-1, -1), n_frameId = -1\<rparr>;
          n = foldl pickInput n input;
          n = foldl pickOutput n output;
          n = (if (opType = OpType_TRANSFORM \<or> opType = OpType_SCALAR \<or> opType = OpType_BROADCAST) \<and> length (n_output n) \<le> 1
               then n\<lparr>n_isInplace := True\<rparr> else n) in
      if legacy_op opType then
        (let n = n\<lparr>n_isDeductable := True\<rparr>;
             block = (new_ContextPrototype id' False)\<lparr>cp_iArgs := dimensions @ iArgs, cp_tArgs := tArgs\<rparr>;
             n = n\<lparr>n_protoContext := Some block\<rparr> in
         map_sum id (\<lambda>op. setCustomOp n (Some op))
           (buildOp opType (int (length input)) (int (length (cp_iArgs block))) (int (length (cp_tArgs block))) opNum))
      else if opType = OpType_CUSTOM then
        Inr (n\<lparr>n_protoContext := Some ((new_ContextPrototype id' False)\<lparr>cp_iArgs := iArgs, cp_tArgs := tArgs\<rparr>)\<rparr>)
      else Inr n)"

section \<open>Contexts\<close>

text \<open>A context is a copy of the prototype of its node, next to the variable space that it works on.\<close>

type_synonym 't Context = "'t ContextPrototype"

definition new_Context :: "'t ContextPrototype option \<Rightarrow> 't Context" where
  "new_Context prototype =
     (case prototype of
        None \<Rightarrow> new_ContextPrototype 1 False
      | Some p \<Rightarrow> \<lparr>cp_inputs = cp_inputs p, cp_nodeId = cp_nodeId p, cp_tArgs = cp_tArgs p, cp_iArgs = cp_iArgs p,
          cp_isInplace = cp_isInplace p, cp_opNum = cp_opNum p\<rparr>)"

definition ctx_variable :: "VariableSpace \<Rightarrow> int \<times> int \<Rightarrow> exn + pointer" where
  "ctx_variable s p = (if \<not> hasVariable s p then Inl (Thrown ''Bad variable'') else getVariable s p)"

text \<open>The index is compared as an unsigned number: a negative one is too large.\<close>

definition ctx_getVariable :: "'t Context \<Rightarrow> VariableSpace \<Rightarrow> int \<Rightarrow> exn + pointer" where
  "ctx_getVariable c s idx =
     (if idx < 0 \<or> idx \<ge> int (length (cp_inputs c)) then Inl (Thrown ''Bad index'')
      else ctx_variable s (cp_inputs c ! nat idx))"

definition ctx_variable_at :: "VariableSpace \<Rightarrow> int \<Rightarrow> int \<Rightarrow> exn + pointer" where
  "ctx_variable_at s node idx = ctx_variable s (node, idx)"

definition ctx_variable_list :: "VariableSpace \<Rightarrow> int list \<Rightarrow> exn + pointer" where
  "ctx_variable_list s p =
     (if length p \<noteq> 2 then Inl (Thrown ''Variable address should have size of 2'')
      else ctx_variable s (p ! 0, p ! 1))"

text \<open>An array becomes the value of a variable: the array it had is deleted when the variable owns it.\<close>

definition pushNDArrayToVariableSpace :: "'t space \<Rightarrow> int \<times> int \<Rightarrow> pointer \<Rightarrow> bool \<Rightarrow> 't space result" where
  "pushNDArrayToVariableSpace S pair array removable = (case S of (M, s) \<Rightarrow>
     if \<not> hasVariable s pair then
       (let (v, M) = new_var (Variable_id array None (fst pair) (snd pair)) M in
        ebind (putVariable (M, s) pair v) (\<lambda>(M, s). do {
          x \<leftarrow> var_at M v;
          Some (Inr (set_var M v (markRemovable x removable), s)) }))
     else
       ebind (Some (getVariable s pair)) (\<lambda>p. do {
         v \<leftarrow> p;
         x \<leftarrow> var_at M v;
         if getNDArray x \<noteq> array then do {
           A \<leftarrow> (if v_removable x \<and> getNDArray x \<noteq> None then delete_ptr (m_arrays M) (getNDArray x) else Some (m_arrays M));
           Some (Inr (set_var (M\<lparr>m_arrays := A\<rparr>) v (markRemovable (setNDArray x array) removable), s)) }
         else Some (Inr (M, s)) }))"

definition pushNDArrayToVariableSpace_at :: "'t space \<Rightarrow> int \<Rightarrow> int \<Rightarrow> pointer \<Rightarrow> bool \<Rightarrow> 't space result" where
  "pushNDArrayToVariableSpace_at S nodeId index array removable =
     pushNDArrayToVariableSpace S (nodeId, index) array removable"

definition pushNDArrayListToVariableSpace :: "'t space \<Rightarrow> int \<times> int \<Rightarrow> pointer \<Rightarrow> bool \<Rightarrow> 't space result" where
  "pushNDArrayListToVariableSpace S pair lst track = (case S of (M, s) \<Rightarrow>
     ebind
       (if \<not> hasVariable s pair then
          (let (v, M) = new_var (setNDArrayList (Variable_id None None (fst pair) (snd pair)) lst) M in
           putVariable (M, s) pair v)
        else
          ebind (Some (getVariable s pair)) (\<lambda>p. do {
            v \<leftarrow> p;
            x \<leftarrow> var_at M v;
            Some (Inr (set_var M v (setNDArrayList x lst), s)) }))
       (\<lambda>(M, s). Some (Inr (M, if track then trackList s lst else s))))"

definition pushNDArrayListToVariableSpace_at :: "'t space \<Rightarrow> int \<Rightarrow> int \<Rightarrow> pointer \<Rightarrow> bool \<Rightarrow> 't space result" where
  "pushNDArrayListToVariableSpace_at S nodeId index lst track =
     pushNDArrayListToVariableSpace S (nodeId, index) lst track"

definition ensureVariable :: "'t Context \<Rightarrow> 't space \<Rightarrow> int \<Rightarrow> (pointer \<times> 't space) result" where
  "ensureVariable c S idx = (case S of (M, s) \<Rightarrow>
     let pair = (cp_nodeId c, idx) in
     if \<not> hasVariable s pair then
       (let (v, M) = new_var (Variable_id None None (cp_nodeId c) idx) M in
        ebind (putVariable (M, s) pair v) (\<lambda>S. Some (Inr (Some v, S))))
     else ebind (Some (getVariable s pair)) (\<lambda>p. Some (Inr (p, (M, s)))))"

definition isValueAvailable :: "'t Context \<Rightarrow> 't space \<Rightarrow> int \<Rightarrow> (bool \<times> 't space) result" where
  "isValueAvailable c S idx =
     ebind (ensureVariable c S idx) (\<lambda>(p, (M, s)). do {
       x \<leftarrow> deref (m_vars M) p;
       Some (Inr (if v_variableType x = NDARRAY then getNDArray x \<noteq> None
                  else if v_variableType x = ARRAY_LIST then getNDArrayList x \<noteq> None
                  else False, (M, s))) })"

text \<open>The branch of a divergent op, kept by the flow path.\<close>

definition getBranch :: "'t Context \<Rightarrow> FlowPath option \<Rightarrow> (int \<times> FlowPath) option" where
  "getBranch c flow = do { p \<leftarrow> flow; Some (flow_branch p (cp_nodeId c)) }"

definition setBranch :: "'t Context \<Rightarrow> FlowPath option \<Rightarrow> int \<Rightarrow> FlowPath option" where
  "setBranch c flow branch = map_option (\<lambda>p. markBranch p (cp_nodeId c) branch) flow"

end
