(* ===== verification/Contexts.thy ===== *)
theory Contexts
  imports Nodes
begin

text \<open>
  What a context promises to its op: an array pushed under an output of the node becomes the value of its variable,
  whatever that variable owned before is deleted, and the variable space stays well-formed.
\<close>

section \<open>Changing what a variable owns\<close>

lemma vars_ok_change:
  assumes ok: "vars_ok M vs" and v: "v \<in> set vs" "var_at M v = Some x"
    and A: "pool_ok A" "\<And>b. p_live (m_arrays M) b \<noteq> None \<Longrightarrow> owned x \<noteq> Some b \<Longrightarrow> p_live A b \<noteq> None"
    and y: "\<And>a. owned y = Some a \<Longrightarrow> a \<notin> set (owners M vs) \<and> p_live A a \<noteq> None"
  shows "vars_ok (set_var (M\<lparr>m_arrays := A\<rparr>) v y) vs"
proof -
  let ?M = "set_var (M\<lparr>m_arrays := A\<rparr>) v y"
  obtain us ws where vs: "vs = us @ v # ws" using split_list [OF v(1)] by blast
  have d: "v \<notin> set us" "v \<notin> set ws" using ok by (auto simp: vars_ok_def vs)
  have rest: "owners ?M zs = owners M zs" if "v \<notin> set zs" for zs
    using that by (intro owners_cong) (auto simp: var_at_def set_var_def)
  have new: "distinct (owners ?M [v])" "a \<in> set (owners ?M [v]) \<Longrightarrow> owned y = Some a"
    and old: "a \<in> set (owners M [v]) \<longleftrightarrow> owned x = Some a" for a
    using v(2) by (auto simp: var_at_def set_var_def split: option.splits)
  have split: "owners N vs = owners N us @ owners N [v] @ owners N ws" for N :: "'a memory"
    using owners_append [of N us "[v] @ ws"] owners_append [of N "[v]" ws] by (simp add: vs)
  have dist: "distinct (owners M us @ owners M [v] @ owners M ws)"
    "\<forall>a\<in>set (owners M us @ owners M [v] @ owners M ws). p_live (m_arrays M) a \<noteq> None"
    using ok split [of M] by (auto simp: vars_ok_def)
  have disj: "a \<notin> set (owners M us @ owners M ws)" if "a \<in> set (owners ?M [v])" for a
    using y [OF new(2) [OF that]] split [of M] by (simp del: owners_simps)
  then have "distinct (owners M us @ owners ?M [v] @ owners M ws)"
    using dist(1) new(1) by (auto simp del: owners_simps)
  moreover have "p_live A a \<noteq> None" if a: "a \<in> set (owners M us @ owners ?M [v] @ owners M ws)" for a
  proof (cases "a \<in> set (owners ?M [v])")
    case True
    then show ?thesis using y [OF new(2)] by blast
  next
    case False
    then have "a \<in> set (owners M us @ owners M ws)" using a by simp
    moreover from this have "owned x \<noteq> Some a" using dist(1) old [of a] by (auto simp del: owners_simps)
    ultimately show ?thesis using dist(2) A(2) [of a] by (auto simp del: owners_simps)
  qed
  moreover have "memory_ok ?M"
    using ok v(2) A(1) pool_ok_update [of "m_vars M" v x y] by (auto simp: vars_ok_def memory_ok_def set_var_def var_at_def)
  ultimately show ?thesis
    using ok split [of ?M] rest [OF d(1)] rest [OF d(2)]
    by (auto simp: vars_ok_def var_at_def set_var_def simp del: owners_simps)
qed

section \<open>Pushing an array\<close>

text \<open>The variables of a space do not point to the array \<open>a\<close>.\<close>

definition unused :: "'t memory \<Rightarrow> nat list \<Rightarrow> nat \<Rightarrow> bool" where
  "unused M vs a \<longleftrightarrow> (\<forall>v\<in>set vs. \<forall>x. var_at M v = Some x \<longrightarrow> getNDArray x \<noteq> Some a)"

lemma unused_owners: "unused M vs a \<Longrightarrow> a \<notin> set (owners M vs)"
  by (induction vs) (auto simp: unused_def owned_def getNDArray_def split: option.splits if_splits)

definition array_vars :: "'t memory \<Rightarrow> nat list \<Rightarrow> bool" where
  "array_vars M vs \<longleftrightarrow> (\<forall>v\<in>set vs. \<forall>x. var_at M v = Some x \<longrightarrow> v_variableType x = NDARRAY)"

definition replaced :: "'t space \<Rightarrow> int \<times> int \<Rightarrow> pointer" where
  "replaced S k = (case map_of (vs_paired (snd S)) k of None \<Rightarrow> None
     | Some v \<Rightarrow> (case var_at (fst S) v of None \<Rightarrow> None | Some x \<Rightarrow> owned x))"

text \<open>
  What a put under \<open>k\<close> leaves alone in a space: what an op reads under other keys, the names, the external variables, the
  ids of other nodes, the placeholders, the lists and the stash.
\<close>

definition other_keys_same :: "int \<times> int \<Rightarrow> VariableSpace \<Rightarrow> VariableSpace \<Rightarrow> bool" where
  "other_keys_same k s s' \<longleftrightarrow>
     (\<forall>j. j \<noteq> k \<longrightarrow> ctx_variable s' j = ctx_variable s j) \<and> vs_symbolic s' = vs_symbolic s \<and>
     vs_variables s' = vs_variables s \<and> (\<forall>i. i \<noteq> fst k \<longrightarrow> map_of (vs_temporary s') i = map_of (vs_temporary s) i) \<and>
     vs_external s' = vs_external s \<and> vs_placeholders s' = vs_placeholders s \<and> vs_lists s' = vs_lists s \<and>
     vs_stash s' = vs_stash s"

lemma other_keys_refl: "other_keys_same k s s"
  by (simp add: other_keys_same_def)

lemma put_node_same:
  assumes "map_ok (vs_paired s)" "map_ok (vs_temporary s)" "0 \<le> fst k" "v_name x = []" "\<not> v_placeholder x"
  shows "other_keys_same k s (put_node s k x v)"
proof -
  let ?s = "put_node s k x v"
  have same: "vs_paired ?s = map_put k v (vs_paired s)" "vs_variables ?s = vs_variables s"
    "vs_symbolic ?s = vs_symbolic s" "vs_external ?s = vs_external s" "vs_placeholders ?s = vs_placeholders s"
    "vs_lists ?s = vs_lists s" "vs_stash ?s = vs_stash s"
    "i \<noteq> fst k \<Longrightarrow> map_of (vs_temporary ?s) i = map_of (vs_temporary s) i" for i
    using assms by (auto simp: put_node_def step_defs Let_def map_of_put)
  have "getVariable ?s j = getVariable s j" if "j \<noteq> k" "hasVariable s j" for j
    using that assms(1) same(1,2)
    by (simp add: getVariable_def getVariable_id_def hasVariable_def map_count_def map_at_def map_of_put)
  then have "ctx_variable ?s j = ctx_variable s j" if "j \<noteq> k" for j
    using that assms(1) by (simp add: ctx_variable_def hasVariable_iff same(1) map_of_put)
  then show ?thesis using same by (simp add: other_keys_same_def)
qed

lemma space_ok_vars: "space_ok (M, s) \<Longrightarrow> vars_ok M' (vs_handles s) \<Longrightarrow> space_ok (M', s)"
  by (simp add: space_ok_def)

lemma handle_of_pair: "space_ok (M, s) \<Longrightarrow> map_of (vs_paired s) k = Some v \<Longrightarrow> v \<in> set (vs_handles s)"
  unfolding space_ok_def known_def by blast

lemma push_existing:
  assumes ok: "space_ok (M, s)" "node_key k" and v: "map_of (vs_paired s) k = Some v"
    and a: "p_live (m_arrays M) a \<noteq> None" "unused M (vs_handles s) a" and ar: "array_vars M (vs_handles s)"
  shows "\<exists>M' x. pushNDArrayToVariableSpace (M, s) k (Some a) r = Some (Inr (M', s)) \<and> space_ok (M', s) \<and>
    getVariable s k = Inr (Some v) \<and> var_at M' v = Some x \<and> getNDArray x = Some a \<and> v_removable x = r \<and>
    p_live (m_arrays M') = (\<lambda>b. if replaced (M, s) k = Some b then None else p_live (m_arrays M) b) \<and>
    (\<forall>w. w \<noteq> v \<longrightarrow> var_at M' w = var_at M w)"
proof -
  have get: "getVariable s k = Inr (Some v)" using getVariable_node [OF ok(1)] ok(2) v by (simp add: node_key_def)
  have vars: "vars_ok M (vs_handles s)" "v \<in> set (vs_handles s)"
    using ok(1) handle_of_pair [OF ok(1) v] by (auto simp: space_ok_def)
  then obtain x where x: "var_at M v = Some x" by (auto simp: vars_ok_def)
  let ?y = "markRemovable (setNDArray x (Some a)) r"
  have own: "owned x = (if v_removable x then getNDArray x else None)" "replaced (M, s) k = owned x"
    using ar x v vars(2) by (auto simp: array_vars_def owned_def getNDArray_def replaced_def)
  have ne: "getNDArray x \<noteq> Some a" "a \<notin> set (owners M (vs_handles s))"
    using a(2) x vars(2) unused_owners [OF a(2)] by (auto simp: unused_def)
  have live: "b \<in> set (owners M (vs_handles s))" if "owned x = Some b" for b
    using that x vars(2) by (auto simp: owners_def List.map_filter_def image_iff)
  have "\<exists>A. (if v_removable x \<and> getNDArray x \<noteq> None then delete_ptr (m_arrays M) (getNDArray x) else Some (m_arrays M)) = Some A \<and>
      pool_ok A \<and> p_live A = (\<lambda>b. if owned x = Some b then None else p_live (m_arrays M) b)"
  proof (cases "owned x")
    case None
    then show ?thesis using own(1) vars(1) by (auto simp: vars_ok_def memory_ok_def split: if_splits)
  next
    case (Some b)
    then have "p_live (m_arrays M) b \<noteq> None" "pool_ok (m_arrays M)"
      using live vars(1) by (auto simp: vars_ok_def memory_ok_def)
    then show ?thesis using pools.release_live [of "m_arrays M" b] Some own(1) by (auto simp: pool_simps split: if_splits)
  qed
  then obtain A where A: "(if v_removable x \<and> getNDArray x \<noteq> None then delete_ptr (m_arrays M) (getNDArray x) else Some (m_arrays M)) = Some A"
    "pool_ok A" "p_live A = (\<lambda>b. if owned x = Some b then None else p_live (m_arrays M) b)" by blast
  let ?M = "set_var (M\<lparr>m_arrays := A\<rparr>) v ?y"
  have push: "pushNDArrayToVariableSpace (M, s) k (Some a) r = Some (Inr (?M, s))"
    using v get x A(1) ne(1) by (simp add: pushNDArrayToVariableSpace_def hasVariable_iff)
  have "vars_ok ?M (vs_handles s)"
  proof (rule vars_ok_change [OF vars(1,2) x A(2)])
    show "p_live A b \<noteq> None" if "p_live (m_arrays M) b \<noteq> None" "owned x \<noteq> Some b" for b
      using that A(3) by simp
    show "b \<notin> set (owners M (vs_handles s)) \<and> p_live A b \<noteq> None" if "owned ?y = Some b" for b
      using that ne a(1) A(3) own(1) by (auto simp: owned_def markRemovable_def setNDArray_def getNDArray_def split: if_splits)
  qed
  then have "space_ok (?M, s)" by (rule space_ok_vars [OF ok(1)])
  then show ?thesis
    using push get A(3) own(2)
    by (auto simp: var_at_def set_var_def markRemovable_def setNDArray_def getNDArray_def)
qed

text \<open>A new variable.\<close>

lemma new_var_ok:
  assumes ok: "vars_ok M vs" and x: "\<And>a. owned x = Some a \<Longrightarrow> a \<notin> set (owners M vs) \<and> p_live (m_arrays M) a \<noteq> None"
    and new: "new_var x M = (v, M1)"
  shows "vars_ok M1 (v # vs)" "var_at M1 v = Some x" "m_arrays M1 = m_arrays M"
    "\<And>w. w \<in> set vs \<Longrightarrow> var_at M1 w = var_at M w"
proof -
  obtain V where V: "new_object x (m_vars M) = (v, V)" "M1 = M\<lparr>m_vars := V\<rparr>"
    using new by (auto simp: new_var_def split: prod.splits)
  have "pool_ok (m_vars M)" using ok by (auto simp: vars_ok_def memory_ok_def)
  note fresh = new_object_fresh [OF this V(1)]
  have v: "v \<notin> set vs" using ok fresh by (auto simp: vars_ok_def var_at_def)
  show at: "var_at M1 v = Some x" "m_arrays M1 = m_arrays M" using fresh by (simp_all add: V(2) var_at_def)
  show same: "var_at M1 w = var_at M w" if "w \<in> set vs" for w
    using that v fresh by (auto simp: V(2) var_at_def)
  then have "owners M1 vs = owners M vs" by (intro owners_cong)
  then show "vars_ok M1 (v # vs)"
    using ok x v same at fresh by (auto simp: vars_ok_def memory_ok_def V(2) split: option.splits)
qed

lemma push_new:
  assumes ok: "space_ok (M, s)" "node_key k" and v: "map_of (vs_paired s) k = None"
    and a: "p_live (m_arrays M) a \<noteq> None" "unused M (vs_handles s) a"
  shows "\<exists>M' s' v x. pushNDArrayToVariableSpace (M, s) k (Some a) r = Some (Inr (M', s')) \<and> space_ok (M', s') \<and>
    getVariable s' k = Inr (Some v) \<and> var_at M' v = Some x \<and> getNDArray x = Some a \<and> v_removable x = r \<and>
    m_arrays M' = m_arrays M \<and> other_keys_same k s s' \<and> (\<forall>w\<in>set (vs_handles s). var_at M' w = var_at M w)"
proof -
  let ?x = "Variable_id (Some a) None (fst k) (snd k)"
  have x: "owned ?x = Some a" "getNDArray ?x = Some a" "v_variableType ?x = NDARRAY" "v_removable ?x"
    by (simp_all add: Variable_id_def Variable_array_def Variable_placeholder_def owned_def getNDArray_def)
  obtain v M1 where new: "new_var ?x M = (v, M1)" by (cases "new_var ?x M")
  have "vars_ok M (vs_handles s)" using ok(1) by (simp add: space_ok_def)
  note M1 = new_var_ok [OF this _ new]
  have fresh: "vars_ok M1 (v # vs_handles s)" "var_at M1 v = Some ?x" "m_arrays M1 = m_arrays M"
    using M1 x(1) a(1) unused_owners [OF a(2)] by auto
  then have "vars_ok M1 (vs_handles s)" using vars_ok_append [of M1 "[v]" "vs_handles s"] by simp
  then have ok1: "space_ok (M1, s)" by (rule space_ok_vars [OF ok(1)])
  have key: "0 \<le> fst k" "fst k < 2 ^ 31" using ok(2) by (auto simp: node_key_def)
  let ?s = "put_node s k ?x v"
  let ?y = "if snd k = 0 \<and> \<not> hasVariable_id s (fst k) then setId1 ?x (fst k) else ?x"
  let ?M2 = "if snd k = 0 \<and> \<not> hasVariable_id s (fst k) then set_var M1 v (setId1 ?x (fst k)) else M1"
  have put: "putVariable (M1, s) k v = Some (Inr (?M2, ?s))"
    using putVariable_eq [OF _ key fresh(2)] ok(1) by (simp add: space_ok_def)
  have y: "var_at ?M2 v = Some ?y" "m_arrays ?M2 = m_arrays M" "owned ?y = Some a" "getNDArray ?y = Some a" "v_removable ?y"
      "v_variableType ?y = NDARRAY"
    using fresh(2,3) x by (auto simp: var_at_def set_var_def setId1_def getNDArray_def owned_def)
  have s1: "space_ok (M1, ?s)" using put_node_ok [OF ok1 fresh(1) key(1)] .
  moreover have "vars_ok ?M2 (vs_handles ?s)"
    using s1 vars_ok_set_var [OF fresh(2), of "setId1 ?x (fst k)"] by (auto simp: space_ok_def setId1_def owned_def)
  ultimately have s2: "space_ok (?M2, ?s)" by (rule space_ok_vars)
  let ?M3 = "set_var ?M2 v (markRemovable ?y r)"
  have push: "pushNDArrayToVariableSpace (M, s) k (Some a) r = Some (Inr (?M3, ?s))"
    using v new put y(1) by (simp add: pushNDArrayToVariableSpace_def hasVariable_iff)
  have "vars_ok ?M3 (vs_handles ?s)"
  proof (cases r)
    case True
    then have "owned (markRemovable ?y r) = owned ?y" using y(5) by (simp add: markRemovable_def owned_def)
    then show ?thesis using vars_ok_set_var [OF y(1), of "markRemovable ?y r"] s2 by (simp add: space_ok_def)
  next
    case False
    have "pool_ok (m_arrays ?M2)" using s2 by (auto simp: space_ok_def vars_ok_def memory_ok_def)
    moreover have "v \<in> set (vs_handles ?s)" by (simp add: put_node_fields)
    ultimately have "vars_ok (set_var (?M2\<lparr>m_arrays := m_arrays ?M2\<rparr>) v (markRemovable ?y r)) (vs_handles ?s)"
      using False s2 by (intro vars_ok_change [OF _ _ y(1)]) (auto simp: space_ok_def owned_def markRemovable_def)
    then show ?thesis by simp
  qed
  then have s3: "space_ok (?M3, ?s)" by (rule space_ok_vars [OF s2])
  have "getVariable ?s k = Inr (Some v)"
    using getVariable_node [OF s3 key(1)] ok(1) by (simp add: put_node_fields space_ok_def map_of_put)
  moreover have "var_at ?M3 v = Some (markRemovable ?y r)" "m_arrays ?M3 = m_arrays M"
    "getNDArray (markRemovable ?y r) = Some a" "v_removable (markRemovable ?y r) = r"
    using y by (auto simp: var_at_def set_var_def markRemovable_def getNDArray_def)
  moreover have "other_keys_same k s ?s"
    using ok(1) key(1) by (intro put_node_same) (simp_all add: space_ok_def Variable_id_def Variable_array_def Variable_placeholder_def)
  moreover have "var_at ?M3 w = var_at M w" if "w \<in> set (vs_handles s)" for w
  proof -
    have "w \<noteq> v" using that fresh(1) by (auto simp: vars_ok_def)
    moreover have "var_at M1 w = var_at M w"
      using that by (intro M1(4)) (use x(1) a(1) unused_owners [OF a(2)] in auto)
    ultimately show ?thesis by (auto simp: var_at_def set_var_def)
  qed
  ultimately show ?thesis using push s3 by blast
qed

section \<open>Property\<close>

text \<open>C31: After an array that no variable holds has been pushed under an output of a node, an op finds it in the variable
  there, with the given ownership. The array that this variable owned before is deleted and no other; the other variables
  of the space, what an op reads under any other key, the names and the external variables stay what they were, and the
  space stays well-formed.\<close>

theorem pushed_array_is_read:
  assumes "space_ok (M, s)" "node_key k" "p_live (m_arrays M) a \<noteq> None" "unused M (vs_handles s) a"
    "array_vars M (vs_handles s)"
  shows "\<exists>M' s' v x. pushNDArrayToVariableSpace (M, s) k (Some a) r = Some (Inr (M', s')) \<and> space_ok (M', s') \<and>
    ctx_variable s' k = Inr (Some v) \<and> var_at M' v = Some x \<and> getNDArray x = Some a \<and> v_removable x = r \<and>
    p_live (m_arrays M') = (\<lambda>b. if replaced (M, s) k = Some b then None else p_live (m_arrays M) b) \<and>
    other_keys_same k s s' \<and> (\<forall>w\<in>set (vs_handles s). w \<noteq> v \<longrightarrow> var_at M' w = var_at M w)"
proof (cases "map_of (vs_paired s) k")
  case None
  then have "replaced (M, s) k = None" by (simp add: replaced_def)
  moreover obtain M' s' v x where *: "pushNDArrayToVariableSpace (M, s) k (Some a) r = Some (Inr (M', s'))" "space_ok (M', s')"
    "getVariable s' k = Inr (Some v)" "var_at M' v = Some x" "getNDArray x = Some a" "v_removable x = r"
    "m_arrays M' = m_arrays M" "other_keys_same k s s'" "\<forall>w\<in>set (vs_handles s). var_at M' w = var_at M w"
    using push_new [OF assms(1,2) None assms(3,4), of r] by blast
  moreover have "hasVariable s' k"
    using *(3) assms(2) getVariable_node [OF *(2), of k] by (cases "map_of (vs_paired s') k") (simp_all add: node_key_def hasVariable_iff)
  ultimately show ?thesis
    by (intro exI [of _ M'] exI [of _ s'] exI [of _ v] exI [of _ x]) (simp add: ctx_variable_def)
next
  case (Some v)
  then have has: "hasVariable s k" by (simp add: hasVariable_iff)
  obtain M' x where "pushNDArrayToVariableSpace (M, s) k (Some a) r = Some (Inr (M', s))" "space_ok (M', s)"
    "getVariable s k = Inr (Some v)" "var_at M' v = Some x" "getNDArray x = Some a" "v_removable x = r"
    "p_live (m_arrays M') = (\<lambda>b. if replaced (M, s) k = Some b then None else p_live (m_arrays M) b)"
    "\<forall>w. w \<noteq> v \<longrightarrow> var_at M' w = var_at M w"
    using push_existing [OF assms(1,2) Some assms(3-5), of r] by blast
  then show ?thesis
    using has by (intro exI [of _ M'] exI [of _ s] exI [of _ v] exI [of _ x]) (simp add: ctx_variable_def other_keys_refl)
qed

theorem pushed_array_is_read_witness:
  "\<exists>M s v x. pushNDArrayToVariableSpace (memory_of [[2, 3], [2, 3]] [0], new_VariableSpace) (7, 1) (Some 1) False =
     Some (Inr (M, s)) \<and> ctx_variable s (7, 1) = Inr (Some v) \<and> var_at M v = Some x \<and> getNDArray x = Some 1"
proof -
  have "vars_ok (memory_of [[2, 3], [2, 3]] [0]) []"
    by (simp add: vars_ok_def memory_ok_def memory_of_def arrays_of_def new_var_def new_object_def empty_pool_def
        empty_memory_def pool_ok_def)
  then have "space_ok (memory_of [[2, 3], [2, 3]] [0], new_VariableSpace)"
    by (intro new_space_ok) (simp add: vars_ok_def)
  moreover have "p_live (m_arrays (memory_of [[2, 3], [2, 3]] [0])) 1 \<noteq> None" by code_simp
  ultimately show ?thesis
    using pushed_array_is_read [of "memory_of [[2, 3], [2, 3]] [0]" new_VariableSpace "(7, 1)" 1 False]
    by (auto simp: node_key_def unused_def array_vars_def new_VariableSpace_def)
qed

end
