(* ===== verification/DeclarableOps.thy ===== *)
theory DeclarableOps
  imports Contexts
begin

text \<open>
  What every op does around its own computation (\<open>include/ops/declarable/impl/DeclarableOp.cpp\<close>,
  \<open>BooleanOp.cpp\<close>, \<open>LogicOp.cpp\<close>): its inputs and arguments are validated, its outputs are allocated, and it
  runs. The shape function and the body of an op are arguments, as are the element type and the native loops: they
  form a record. Arrays are outside workspaces; nothing is profiled.
\<close>

section \<open>What is given\<close>

text \<open>\<open>k_base\<close> is the base class of an op. The shape function gets the shapes of the inputs, which may be null, and answers those of the outputs. The body
  answers a status, the branch it has chosen with \<open>setBranch\<close>, if any, and the memory and space after it.\<close>

datatype OpBase = DeclarableOp | BooleanOp | DeclarableListOp

record 't kernels =
  k_base :: "OpDescriptor \<Rightarrow> OpBase"
  k_zero :: 't
  k_one :: 't
  k_isZero :: "'t \<Rightarrow> bool"
  k_execScalar :: "'t ndarray \<Rightarrow> 't \<Rightarrow> 't ndarray option"
  k_execPairwise :: "'t ndarray \<Rightarrow> 't ndarray \<Rightarrow> 't ndarray option"
  k_shape :: "OpDescriptor \<Rightarrow> int list option list \<Rightarrow> 't Context \<Rightarrow> 't space \<Rightarrow> int list list result"
  k_body :: "OpDescriptor \<Rightarrow> 't Context \<Rightarrow> 't space \<Rightarrow> (int \<times> int option \<times> 't space) result"
  k_elapsed :: "int \<Rightarrow> int"

text \<open>The values of the statuses used here (\<open>include/pointercast.h\<close>).\<close>

abbreviation (input) ND4J_STATUS_OK :: int where "ND4J_STATUS_OK \<equiv> 0"
abbreviation (input) ND4J_STATUS_BAD_INPUT :: int where "ND4J_STATUS_BAD_INPUT \<equiv> 1"
abbreviation (input) ND4J_STATUS_BAD_PARAMS :: int where "ND4J_STATUS_BAD_PARAMS \<equiv> 4"
abbreviation (input) ND4J_STATUS_VALIDATION :: int where "ND4J_STATUS_VALIDATION \<equiv> 20"
abbreviation (input) ND4J_STATUS_BAD_LENGTH :: int where "ND4J_STATUS_BAD_LENGTH \<equiv> 31"
abbreviation (input) ND4J_STATUS_BAD_DIMENSIONS :: int where "ND4J_STATUS_BAD_DIMENSIONS \<equiv> 32"
abbreviation (input) ND4J_STATUS_BAD_ORDER :: int where "ND4J_STATUS_BAD_ORDER \<equiv> 33"
abbreviation (input) ND4J_STATUS_KERNEL_FAILURE :: int where "ND4J_STATUS_KERNEL_FAILURE \<equiv> 50"
abbreviation (input) ND4J_STATUS_TRUE :: int where "ND4J_STATUS_TRUE \<equiv> 100"
abbreviation (input) ND4J_STATUS_FALSE :: int where "ND4J_STATUS_FALSE \<equiv> 101"

text \<open>Checks one after another: the first status that is not OK is the answer.\<close>

fun checks :: "('a \<Rightarrow> int result) \<Rightarrow> 'a list \<Rightarrow> int result" where
  "checks f [] = Some (Inr ND4J_STATUS_OK)"
| "checks f (x # xs) = ebind (f x) (\<lambda>s. if s \<noteq> ND4J_STATUS_OK then Some (Inr s) else checks f xs)"

section \<open>Validation\<close>

definition validateArguments :: "OpDescriptor \<Rightarrow> 't Context \<Rightarrow> int" where
  "validateArguments d block =
     (if od_tArgs d > 0 \<and> to_int (int (length (cp_tArgs block))) < od_tArgs d then ND4J_STATUS_BAD_PARAMS
      else if od_tArgs d = -1 \<and> length (cp_tArgs block) = 0 then ND4J_STATUS_BAD_PARAMS
      else if od_iArgs d > 0 \<and> to_int (int (length (cp_iArgs block))) < od_iArgs d then ND4J_STATUS_BAD_PARAMS
      else if od_iArgs d = -1 \<and> length (cp_iArgs block) = 0 then ND4J_STATUS_BAD_PARAMS
      else ND4J_STATUS_OK)"

definition validateNonEmptyInput :: "OpDescriptor \<Rightarrow> 't Context \<Rightarrow> 't space \<Rightarrow> int result" where
  "validateNonEmptyInput d block S = (case S of (M, s) \<Rightarrow>
     if od_numberOfInputs d = -2 \<or> od_numberOfInputs d = 0 then Some (Inr ND4J_STATUS_OK)
     else if length (cp_inputs block) < 1 then Some (Inr ND4J_STATUS_BAD_INPUT)
     else checks (\<lambda>p. ebind (Some (ctx_variable s p)) (\<lambda>v.
         if v = None then Some (Inr ND4J_STATUS_BAD_INPUT)
         else do {
           x \<leftarrow> deref (m_vars M) v;
           if v_variableType x = NDARRAY then
             (if getNDArray x = None then Some (Inr ND4J_STATUS_BAD_INPUT)
              else do {
                a \<leftarrow> deref (m_arrays M) (getNDArray x);
                Some (Inr (if nonNull a then ND4J_STATUS_OK else ND4J_STATUS_BAD_INPUT)) })
           else Some (Inr ND4J_STATUS_OK) })) (cp_inputs block))"

text \<open>The array of a variable of the context: reading a null one is undefined.\<close>

definition array_of :: "'t memory \<Rightarrow> exn + pointer \<Rightarrow> 't ndarray result" where
  "array_of M q = ebind (Some q) (\<lambda>v. do {
     x \<leftarrow> deref (m_vars M) v;
     a \<leftarrow> deref (m_arrays M) (getNDArray x);
     Some (Inr a) })"

definition validateInputDimensions :: "'t Context \<Rightarrow> 't space \<Rightarrow> int \<Rightarrow> int result" where
  "validateInputDimensions block S rnk = (case S of (M, s) \<Rightarrow>
     if length (cp_inputs block) = 0 then Some (Inr ND4J_STATUS_OK)
     else checks (\<lambda>p. ebind (Some (ctx_variable s p)) (\<lambda>v. do {
         x \<leftarrow> deref (m_vars M) v;
         if getNDArray x = None then Some (Inr ND4J_STATUS_BAD_INPUT)
         else do {
           a \<leftarrow> deref (m_arrays M) (getNDArray x);
           r \<leftarrow> rankOf a;
           Some (Inr (if r \<noteq> rnk then ND4J_STATUS_BAD_DIMENSIONS else ND4J_STATUS_OK)) } })) (cp_inputs block))"

definition validateInput2D :: "'t Context \<Rightarrow> 't space \<Rightarrow> int result" where
  "validateInput2D block S = validateInputDimensions block S 2"

definition validateInput3D :: "'t Context \<Rightarrow> 't space \<Rightarrow> int result" where
  "validateInput3D block S = validateInputDimensions block S 3"

definition validateInput4D :: "'t Context \<Rightarrow> 't space \<Rightarrow> int result" where
  "validateInput4D block S = validateInputDimensions block S 4"

text \<open>The array of the first input is read only when there is another one to compare it with, itself included.\<close>

definition validateOrdersMatch :: "'t Context \<Rightarrow> 't space \<Rightarrow> int result" where
  "validateOrdersMatch block S = (case S of (M, s) \<Rightarrow>
     if length (cp_inputs block) = 0 then Some (Inr ND4J_STATUS_OK)
     else ebind (array_of M (ctx_getVariable block s 0)) (\<lambda>a0.
       checks (\<lambda>p. ebind (array_of M (ctx_variable s p)) (\<lambda>a. do {
         o0 \<leftarrow> ordering a0;
         o1 \<leftarrow> ordering a;
         Some (Inr (if o0 \<noteq> o1 then ND4J_STATUS_BAD_ORDER else ND4J_STATUS_OK)) })) (cp_inputs block)))"

definition validateInputDimensionsMatch :: "'t Context \<Rightarrow> 't space \<Rightarrow> int result" where
  "validateInputDimensionsMatch block S = (case S of (M, s) \<Rightarrow>
     if length (cp_inputs block) = 0 then Some (Inr ND4J_STATUS_OK)
     else ebind (array_of M (ctx_getVariable block s 0)) (\<lambda>a0.
       checks (\<lambda>p. ebind (array_of M (ctx_variable s p)) (\<lambda>a. do {
         i0 \<leftarrow> nd_shapeInfo a0;
         i1 \<leftarrow> nd_shapeInfo a;
         b \<leftarrow> equalsSoft i0 i1;
         Some (Inr (if \<not> b then ND4J_STATUS_BAD_DIMENSIONS else ND4J_STATUS_OK)) })) (cp_inputs block)))"

definition validateInputLengthMatch :: "'t Context \<Rightarrow> 't space \<Rightarrow> int result" where
  "validateInputLengthMatch block S = (case S of (M, s) \<Rightarrow>
     if length (cp_inputs block) = 0 then Some (Inr ND4J_STATUS_OK)
     else ebind (array_of M (ctx_getVariable block s 0)) (\<lambda>a0. do {
       l0 \<leftarrow> lengthOf a0;
       checks (\<lambda>e. ebind (array_of M (ctx_getVariable block s e)) (\<lambda>a. do {
         l \<leftarrow> lengthOf a;
         Some (Inr (if l0 \<noteq> l then ND4J_STATUS_BAD_LENGTH else ND4J_STATUS_OK)) })) [0..int (length (cp_inputs block)) - 1] }))"

section \<open>Outputs\<close>

text \<open>A new array of zeros with a given shape buffer.\<close>

definition new_NDArray_shape :: "'t \<Rightarrow> int list \<Rightarrow> bool \<Rightarrow> 't ndarray option" where
  "new_NDArray_shape zero shapeInfo copyStrides = do {
     n \<leftarrow> shape_length shapeInfo;
     let arrLength = to_int n;
     shapeLength \<leftarrow> shapeInfoLength_buf shapeInfo;
     _ \<leftarrow> (if 0 \<le> arrLength then Some () else None);
     b \<leftarrow> shapeInfoByteLength_buf shapeInfo;
     let si = replicate (nat shapeLength) undefined;
     si \<leftarrow> memcpy_int si shapeInfo (b div 4);
     si \<leftarrow> (if \<not> copyStrides then do { ord \<leftarrow> shape_order si; updateStrides si ord } else Some si);
     Some \<lparr>nd_buffer = Some (replicate (nat arrLength) zero), nd_shapeInfo = Some si\<rparr> }"

text \<open>The shapes of the inputs that are arrays.\<close>

definition input_shapes :: "'t Context \<Rightarrow> 't space \<Rightarrow> (int list option) list result" where
  "input_shapes block S = (case S of (M, s) \<Rightarrow>
     mret (\<lambda>p inSha. ebind (Some (ctx_variable s p)) (\<lambda>v. do {
       x \<leftarrow> deref (m_vars M) v;
       if v_variableType x = NDARRAY then do {
         a \<leftarrow> deref (m_arrays M) (getNDArray x);
         Some (Inr (inSha @ [nd_shapeInfo a])) }
       else Some (Inr inSha) })) (cp_inputs block) [])"

text \<open>One output: an array is allocated for it when it has no value.\<close>

definition prepare_output :: "'t kernels \<Rightarrow> 't Context \<Rightarrow> int list \<Rightarrow> int \<times> 't space \<Rightarrow> (int \<times> 't space) result" where
  "prepare_output K block out st = (case st of (cnt, S) \<Rightarrow>
     ebind (isValueAvailable block S cnt) (\<lambda>(b, (M, s)).
       if \<not> b then do {
         a \<leftarrow> new_NDArray_shape (k_zero K) out True;
         let (outArr, A) = new_object a (m_arrays M);
         ebind (pushNDArrayToVariableSpace (M\<lparr>m_arrays := A\<rparr>, s) (cp_nodeId block, cnt) (Some outArr) True)
           (\<lambda>S. Some (Inr (cnt + 1, S))) }
       else Some (Inr (cnt + 1, (M, s)))))"

text \<open>A \<open>LogicOp\<close> has no outputs and refuses to run: the executioner handles it.\<close>

definition calculateOutputShape :: "'t kernels \<Rightarrow> OpDescriptor \<Rightarrow> int list option list \<Rightarrow> 't Context \<Rightarrow> 't space \<Rightarrow> int list list result" where
  "calculateOutputShape K d inSha block S = (if od_logic d then Some (Inr []) else k_shape K d inSha block S)"

definition prepareOutputs_op :: "'t kernels \<Rightarrow> OpDescriptor \<Rightarrow> 't Context \<Rightarrow> 't space \<Rightarrow> 't space result" where
  "prepareOutputs_op K d block S =
     (if cp_isInplace block then Some (Inr S)
      else ebind (input_shapes block S) (\<lambda>inSha.
        ebind (calculateOutputShape K d inSha block S) (\<lambda>outSha.
          ebind (mret (prepare_output K block) outSha (0, S)) (\<lambda>(_, S). Some (Inr S)))))"

text \<open>The array that output \<open>inputId\<close> is written to.\<close>

definition getZ :: "'t Context \<Rightarrow> 't space \<Rightarrow> int \<Rightarrow> (pointer \<times> 't space) result" where
  "getZ ctx S inputId = (case S of (M, s) \<Rightarrow>
     let pair = (cp_nodeId ctx, inputId) in
     if cp_isInplace ctx then
       ebind (Some (ctx_getVariable ctx s inputId)) (\<lambda>p. do {
         x \<leftarrow> deref (m_vars M) p;
         let z = getNDArray x;
         ebind (if \<not> hasVariable s pair then (let (v, M) = new_var (Variable_array None None) M in putVariable (M, s) pair v)
                else Some (Inr (M, s)))
           (\<lambda>(M, s). ebind (Some (getVariable s pair)) (\<lambda>q. do {
             v \<leftarrow> q;
             y \<leftarrow> var_at M v;
             Some (Inr (z, (set_var M v (setNDArray (markRemovable y False) z), s))) })) })
     else
       ebind (Some (ctx_variable s pair)) (\<lambda>p. do {
         x \<leftarrow> deref (m_vars M) p;
         if getNDArray x \<noteq> None then do {
           a \<leftarrow> deref (m_arrays M) (getNDArray x);
           Some (Inr (if nonNull a then getNDArray x else None, (M, s))) }
         else Some (Inr (None, (M, s))) }))"

definition storeResult :: "'t Context \<Rightarrow> 't space \<Rightarrow> int \<Rightarrow> pointer \<Rightarrow> 't space result" where
  "storeResult ctx S outputNumber array =
     pushNDArrayToVariableSpace_at S (cp_nodeId ctx) outputNumber array (\<not> cp_isInplace ctx)"

definition overwriteResult :: "'t Context \<Rightarrow> 't space \<Rightarrow> int \<Rightarrow> pointer \<Rightarrow> 't space result" where
  "overwriteResult block S outputIdx array =
     pushNDArrayToVariableSpace_at S (cp_nodeId block) outputIdx array True"

definition overwriteResult_list :: "'t Context \<Rightarrow> 't space \<Rightarrow> int \<Rightarrow> pointer \<Rightarrow> 't space result" where
  "overwriteResult_list block S outputIdx lst =
     pushNDArrayListToVariableSpace_at S (cp_nodeId block) outputIdx lst True"

text \<open>An output with a given shape buffer; the length is compared, not the shape.\<close>

definition allocateResult :: "'t Context \<Rightarrow> 't space \<Rightarrow> int list \<Rightarrow> 't space result" where
  "allocateResult block S shp = (case S of (M, s) \<Rightarrow>
     ebind (Some (ctx_variable_at s (cp_nodeId block) 0)) (\<lambda>p. do {
       len \<leftarrow> shape_length shp;
       n \<leftarrow> shapeInfoLength_buf shp;
       b \<leftarrow> shapeInfoByteLength_buf shp;
       si \<leftarrow> memcpy_int (replicate (nat n) undefined) shp (b div 4);
       v \<leftarrow> p;
       x \<leftarrow> var_at M v;
       A \<leftarrow> (if getNDArray x = None then Some (Some (m_arrays M))
             else do {
               a \<leftarrow> deref (m_arrays M) (getNDArray x);
               l \<leftarrow> lengthOf a;
               if l \<noteq> len then do { A \<leftarrow> delete_ptr (m_arrays M) (getNDArray x); Some (Some A) } else Some None });
       (case A of
          None \<Rightarrow> Some (Inr (M, s))
        | Some A \<Rightarrow> do {
            _ \<leftarrow> (if 0 \<le> len then Some () else None);
            let (z, A) = new_object \<lparr>nd_buffer = Some (replicate (nat len) undefined), nd_shapeInfo = Some si\<rparr> A;
            Some (Inr (set_var (M\<lparr>m_arrays := A\<rparr>) v (setNDArray x (Some z)), s)) }) }))"

section \<open>Execution\<close>

definition validateAndExecute :: "'t kernels \<Rightarrow> OpDescriptor \<Rightarrow> 't Context \<Rightarrow> 't space \<Rightarrow> (int \<times> int option \<times> 't space) result" where
  "validateAndExecute K d block S =
     (if od_logic d then Some (Inr (ND4J_STATUS_BAD_INPUT, None, S)) else k_body K d block S)"

text \<open>\<open>REQUIRE_OK\<close>: a check that fails ends the execution with one status.\<close>

definition op_execute :: "'t kernels \<Rightarrow> OpDescriptor \<Rightarrow> 't Context \<Rightarrow> 't space \<Rightarrow> (int \<times> int option \<times> 't space) result" where
  "op_execute K d block S =
     ebind (validateNonEmptyInput d block S) (\<lambda>st.
       if st \<noteq> ND4J_STATUS_OK then Some (Inr (ND4J_STATUS_VALIDATION, None, S))
       else if validateArguments d block \<noteq> ND4J_STATUS_OK then Some (Inr (ND4J_STATUS_VALIDATION, None, S))
       else ebind (prepareOutputs_op K d block S) (validateAndExecute K d block))"

text \<open>Boolean ops have one scalar for each output, and tell their result by their status.\<close>

definition scalar_shape :: "int list" where
  "scalar_shape = [2, 1, 1, 1, 1, 0, 1, 99]"

definition boolean_output :: "'t kernels \<Rightarrow> 't Context \<Rightarrow> int \<Rightarrow> 't space \<Rightarrow> 't space result" where
  "boolean_output K ctx e S = (case S of (M, s) \<Rightarrow>
     let pair = (cp_nodeId ctx, e) in
     ebind (if \<not> hasVariable s pair then (let (v, M) = new_var (Variable_array None None) M in putVariable (M, s) pair v)
            else Some (Inr (M, s)))
       (\<lambda>(M, s). ebind (Some (ctx_variable s pair)) (\<lambda>p. do {
         v \<leftarrow> p;
         x \<leftarrow> var_at M v;
         if getNDArray x = None then
           (let (z, A) = new_object \<lparr>nd_buffer = Some [k_zero K], nd_shapeInfo = Some scalar_shape\<rparr> (m_arrays M) in
            Some (Inr (set_var (M\<lparr>m_arrays := A\<rparr>) v (markRemovable (setNDArray x (Some z)) True), s)))
         else Some (Inr (M, s)) })))"

definition prepareOutputs_boolean :: "'t kernels \<Rightarrow> OpDescriptor \<Rightarrow> 't Context \<Rightarrow> 't space \<Rightarrow> 't space result" where
  "prepareOutputs_boolean K d ctx S = mret (boolean_output K ctx) [0..od_numberOfOutputs d - 1] S"

definition boolean_execute :: "'t kernels \<Rightarrow> OpDescriptor \<Rightarrow> 't Context \<Rightarrow> 't space \<Rightarrow> (int \<times> int option \<times> 't space) result" where
  "boolean_execute K d block S =
     ebind (validateNonEmptyInput d block S) (\<lambda>st.
       if st \<noteq> ND4J_STATUS_OK then Some (Inr (ND4J_STATUS_VALIDATION, None, S))
       else if validateArguments d block \<noteq> ND4J_STATUS_OK then Some (Inr (ND4J_STATUS_VALIDATION, None, S))
       else ebind (prepareOutputs_boolean K d block S) (\<lambda>S.
         ebind (validateAndExecute K d block S) (\<lambda>(status, branch, (M, s)).
           ebind (Some (ctx_variable s (cp_nodeId block, 0))) (\<lambda>p. do {
             x \<leftarrow> deref (m_vars M) p;
             a \<leftarrow> deref (m_arrays M) (getNDArray x);
             ebind (putScalar a 0 (if status = ND4J_STATUS_TRUE then k_one K else k_zero K)) (\<lambda>a. do {
               A \<leftarrow> assign_object (m_arrays M) (getNDArray x) a;
               Some (Inr (if status = ND4J_STATUS_FALSE \<or> status = ND4J_STATUS_TRUE then ND4J_STATUS_OK
                          else ND4J_STATUS_KERNEL_FAILURE, branch, (M\<lparr>m_arrays := A\<rparr>, s))) }) }))))"

definition evaluate :: "'t kernels \<Rightarrow> OpDescriptor \<Rightarrow> 't Context \<Rightarrow> 't space \<Rightarrow> (bool \<times> 't space) result" where
  "evaluate K d block S =
     ebind (validateNonEmptyInput d block S) (\<lambda>st.
       if st \<noteq> ND4J_STATUS_OK then Some (Inl (Thrown ''Bad inputs''))
       else ebind (validateAndExecute K d block S) (\<lambda>(status, _, S).
         if status = ND4J_STATUS_TRUE then Some (Inr (True, S))
         else if status = ND4J_STATUS_FALSE then Some (Inr (False, S))
         else Some (Inl (Thrown ''Internal error''))))"

text \<open>Ops on lists validate their arguments only. An op runs the way its base class does.\<close>

definition list_execute :: "'t kernels \<Rightarrow> OpDescriptor \<Rightarrow> 't Context \<Rightarrow> 't space \<Rightarrow> (int \<times> int option \<times> 't space) result" where
  "list_execute K d block S =
     (if validateArguments d block \<noteq> ND4J_STATUS_OK then Some (Inr (ND4J_STATUS_VALIDATION, None, S))
      else validateAndExecute K d block S)"

definition run_op :: "'t kernels \<Rightarrow> OpDescriptor \<Rightarrow> 't Context \<Rightarrow> 't space \<Rightarrow> (int \<times> int option \<times> 't space) result" where
  "run_op K d block S = (case k_base K d of
       DeclarableOp \<Rightarrow> op_execute K d block S
     | BooleanOp \<Rightarrow> boolean_execute K d block S
     | DeclarableListOp \<Rightarrow> list_execute K d block S)"

text \<open>The body of the op \<open>Switch\<close> (\<open>flow_control_ops.cpp\<close>): a copy of the signal goes to the branch that the condition
  selects.\<close>

definition switch_body :: "'t kernels \<Rightarrow> 't Context \<Rightarrow> 't space \<Rightarrow> (int \<times> int option \<times> 't space) result" where
  "switch_body K block S = (case S of (M, s) \<Rightarrow>
     ebind (Some (ctx_getVariable block s 0)) (\<lambda>p. do {
       x \<leftarrow> deref (m_vars M) p;
       ebind (array_of M (ctx_getVariable block s 1)) (\<lambda>condition.
         ebind (getScalar condition 0) (\<lambda>v.
           let branch = (if k_isZero K v then 0 else 1) in do {
             input \<leftarrow> deref (m_arrays M) (getNDArray x);
             ebind (dup (k_execScalar K) (k_execPairwise K) input 97) (\<lambda>b.
               let (z, A) = new_object b (m_arrays M) in
               ebind (storeResult block (M\<lparr>m_arrays := A\<rparr>, s) branch (Some z)) (\<lambda>S.
                 Some (Inr (ND4J_STATUS_OK, Some branch, S)))) })) }))"

section \<open>Execution on arrays\<close>

text \<open>Inputs become the external variables -1, -2, ..., outputs the outputs of node 1; none of them is removable. Null
  inputs are left out.\<close>

definition put_input :: "pointer \<Rightarrow> int \<times> int list \<times> 't space \<Rightarrow> (int \<times> int list \<times> 't space) result" where
  "put_input v st = (case st of (cnt, ins, (M, s)) \<Rightarrow>
     if v = None then Some (Inr (cnt, ins, (M, s)))
     else
       (let (w, M) = new_var (markRemovable (Variable_array v None) False) M in
        ebind (putVariable_id (M, s) cnt w) (\<lambda>S. do {
          c \<leftarrow> i32 (cnt - 1);
          Some (Inr (c, ins @ [cnt], S)) })))"

definition put_result :: "pointer \<Rightarrow> int \<times> 't space \<Rightarrow> (int \<times> 't space) result" where
  "put_result v st = (case st of (et, (M, s)) \<Rightarrow>
     (let (w, M) = new_var (markRemovable (Variable_array v None) False) M in
      ebind (putVariable (M, s) (1, et) w) (\<lambda>S. do {
        e \<leftarrow> i32 (et + 1);
        Some (Inr (e, S)) })))"

definition op_context :: "int list \<Rightarrow> 't list \<Rightarrow> int list \<Rightarrow> bool \<Rightarrow> 't Context" where
  "op_context ins tArgs iArgs isInplace =
     (let block = cp_markInplace (fillInputs (new_ContextPrototype 1 False) ins) isInplace in
      block\<lparr>cp_tArgs := cp_tArgs block @ tArgs, cp_iArgs := cp_iArgs block @ iArgs\<rparr>)"

text \<open>The variable space is local: it ends with the call.\<close>

definition execute_arrays :: "'t kernels \<Rightarrow> OpDescriptor \<Rightarrow> 't memory \<Rightarrow> pointer list \<Rightarrow> pointer list \<Rightarrow> 't list \<Rightarrow>
    int list \<Rightarrow> bool \<Rightarrow> (int \<times> 't memory) result" where
  "execute_arrays K d M inputs outputs tArgs iArgs isInplace =
     ebind (mret put_input inputs (-1, [], (M, new_VariableSpace))) (\<lambda>(_, ins, S).
       ebind (mret put_result outputs (0, S)) (\<lambda>(_, S).
         ebind (op_execute K d (op_context ins tArgs iArgs isInplace) S) (\<lambda>(result, _, S). do {
           M \<leftarrow> delete_VariableSpace S;
           Some (Inr (result, M)) })))"

record ResultSet =
  rs_content :: "pointer list"
  rs_status :: int
  rs_removable :: bool

definition new_ResultSet :: ResultSet where
  "new_ResultSet = \<lparr>rs_content = [], rs_status = ND4J_STATUS_OK, rs_removable = True\<rparr>"

definition ResultSet_push_back :: "ResultSet \<Rightarrow> pointer \<Rightarrow> ResultSet" where
  "ResultSet_push_back r array = r\<lparr>rs_content := rs_content r @ [array]\<rparr>"

definition ResultSet_setStatus :: "ResultSet \<Rightarrow> int \<Rightarrow> ResultSet" where
  "ResultSet_setStatus r status = r\<lparr>rs_status := status\<rparr>"

definition setNonRemovable :: "ResultSet \<Rightarrow> ResultSet" where
  "setNonRemovable r = r\<lparr>rs_removable := False\<rparr>"

definition ResultSet_at :: "ResultSet \<Rightarrow> int \<Rightarrow> exn + pointer" where
  "ResultSet_at r idx = (if 0 \<le> idx \<and> idx < int (length (rs_content r)) then Inr (rs_content r ! nat idx) else Inl Out_of_range)"

definition ResultSet_size :: "ResultSet \<Rightarrow> int" where
  "ResultSet_size r = to_int (int (length (rs_content r)))"

definition ResultSet_purge :: "ResultSet \<Rightarrow> ResultSet" where
  "ResultSet_purge r = r\<lparr>rs_content := []\<rparr>"

definition delete_ResultSet :: "'t ndarray pool \<Rightarrow> ResultSet \<Rightarrow> 't ndarray pool option" where
  "delete_ResultSet A r = (if rs_removable r then mfor (\<lambda>v A. delete_ptr A v) (rs_content r) A else Some A)"

text \<open>The outputs of node 1 are collected up to the first that is missing, and taken from the space.\<close>

fun collect_results :: "nat \<Rightarrow> int \<Rightarrow> 't space \<Rightarrow> ResultSet \<Rightarrow> ('t space \<times> ResultSet) result" where
  "collect_results 0 e S r = Some (Inr (S, r))"
| "collect_results (Suc n) e (M, s) r =
     (if hasVariable s (1, e) then
        ebind (Some (getVariable s (1, e))) (\<lambda>p. do {
          v \<leftarrow> p;
          x \<leftarrow> var_at M v;
          _ \<leftarrow> deref (m_arrays M) (getNDArray x);
          collect_results n (e + 1) (set_var M v (markRemovable x False), s) (ResultSet_push_back r (getNDArray x)) })
      else Some (Inr ((M, s), r)))"

definition execute_results :: "'t kernels \<Rightarrow> OpDescriptor \<Rightarrow> 't memory \<Rightarrow> pointer list \<Rightarrow> 't list \<Rightarrow>
    int list \<Rightarrow> bool \<Rightarrow> (ResultSet \<times> 't memory) result" where
  "execute_results K d M inputs tArgs iArgs isInplace =
     (let arrayList = (if isInplace then setNonRemovable new_ResultSet else new_ResultSet) in
      ebind (mret put_input inputs (-1, [], (M, new_VariableSpace))) (\<lambda>(_, ins, S).
        ebind (op_execute K d (op_context ins tArgs iArgs isInplace) S) (\<lambda>(status, _, S).
          let arrayList = ResultSet_setStatus arrayList status in
          ebind (if status \<noteq> ND4J_STATUS_OK then Some (Inr (S, arrayList)) else collect_results 65536 0 S arrayList)
            (\<lambda>(S, r). do {
              M \<leftarrow> delete_VariableSpace S;
              Some (Inr (r, M)) }))))"

end
