(* ===== verification/Graphs.thy ===== *)
theory Graphs
  imports Contexts
begin

text \<open>
  Graphs (\<open>include/graph/impl/Graph.cpp\<close>): nodes are added one by one and placed into layers, the onion, in an order
  in which they can be executed. The node objects are a pool of the graph; the vectors and maps of the source
  hold their addresses. The traces of the source, written when the environment is verbose, are not modelled, but for
  the reads that they make in any case.
\<close>

section \<open>State\<close>

datatype OutputMode = OutputMode_IMPLICIT | OutputMode_EXPLICIT | OutputMode_EXPLICIT_AND_IMPLICIT
  | OutputMode_VARIABLE_SPACE | OutputMode_OPTIMIZED

record Scope =
  sc_id :: int
  sc_name :: string
  sc_nodes :: "nat list"

definition new_Scope :: "int \<Rightarrow> string option \<Rightarrow> Scope" where
  "new_Scope id' name = \<lparr>sc_id = id', sc_name = (case name of None \<Rightarrow> [] | Some s \<Rightarrow> s), sc_nodes = []\<rparr>"

definition Scope_push_back :: "Scope \<Rightarrow> nat \<Rightarrow> Scope" where
  "Scope_push_back c node = c\<lparr>sc_nodes := sc_nodes c @ [node]\<rparr>"

definition Scope_size :: "Scope \<Rightarrow> int" where
  "Scope_size c = to_int (int (length (sc_nodes c)))"

definition forgetNodes :: "Scope \<Rightarrow> Scope" where
  "forgetNodes c = c\<lparr>sc_nodes := []\<rparr>"

text \<open>The objects of a graph: \<open>g_memory\<close> holds the arrays and variables of its space, \<open>g_pool\<close> its nodes. A scope is
  a position in \<open>g_scopes\<close>.\<close>

record 't Graph =
  g_memory :: "'t memory"
  g_pool :: "'t Node pool"
  g_outputMode :: OutputMode
  g_variableSpace :: VariableSpace
  g_handles :: "nat list"
  g_nodes :: "int list"
  g_mapped :: "(int \<times> nat) list"
  g_onion :: "(int \<times> nat list) list"
  g_unmapped :: "(int \<times> nat) list"
  g_unmappedMap :: "int list"
  g_built :: bool
  g_output :: "int list"
  g_autos :: "int list"
  g_mappedScopes :: "(int \<times> nat) list"
  g_scopes :: "Scope list"

definition node_at :: "'t Graph \<Rightarrow> nat \<Rightarrow> 't Node option" where
  "node_at G p = p_live (g_pool G) p"

definition set_node :: "'t Graph \<Rightarrow> nat \<Rightarrow> 't Node \<Rightarrow> 't Graph" where
  "set_node G p n = G\<lparr>g_pool := (g_pool G)\<lparr>p_live := (p_live (g_pool G))(p \<mapsto> n)\<rparr>\<rparr>"

text \<open>An operation on the variable space of a graph.\<close>

definition on_space :: "('t space \<Rightarrow> 't space result) \<Rightarrow> 't Graph \<Rightarrow> 't Graph result" where
  "on_space f G =
     ebind (f (g_memory G, g_variableSpace G)) (\<lambda>(M, s). Some (Inr (G\<lparr>g_memory := M, g_variableSpace := s\<rparr>)))"

section \<open>Placing nodes\<close>

definition hasNode :: "'t Graph \<Rightarrow> int \<Rightarrow> bool" where
  "hasNode G id' \<longleftrightarrow> map_count id' (g_mapped G) > 0"

definition nodeById :: "'t Graph \<Rightarrow> int \<Rightarrow> exn + nat" where
  "nodeById G id' = map_at (g_mapped G) id'"

definition hasScope :: "'t Graph \<Rightarrow> int \<Rightarrow> bool" where
  "hasScope G id' \<longleftrightarrow> map_count id' (g_mappedScopes G) > 0"

definition scopeById :: "'t Graph \<Rightarrow> int \<Rightarrow> exn + nat" where
  "scopeById G id' =
     (if map_count id' (g_mappedScopes G) = 0 then Inl (Thrown ''Non-existent Scope was requested'')
      else map_at (g_mappedScopes G) id')"

definition expandOnion :: "'t Graph \<Rightarrow> int \<Rightarrow> 't Graph" where
  "expandOnion G newLayer =
     (if map_count newLayer (g_onion G) > 0 then G else G\<lparr>g_onion := map_put newLayer [] (g_onion G)\<rparr>)"

definition injectNode :: "'t Graph \<Rightarrow> nat \<Rightarrow> 't Graph result" where
  "injectNode G node = do {
     n \<leftarrow> node_at G node;
     if n_layer n < 0 then Some (Inl (Runtime_error ''Only nodes with non-negative layer defined can be inserted''))
     else if map_count (n_id n) (g_mapped G) > 0 then Some (Inr G)
     else (case map_of (g_onion G) (n_layer n) of
         None \<Rightarrow> Some (Inl Out_of_range)
       | Some layer \<Rightarrow> Some (Inr (G\<lparr>g_onion := map_put (n_layer n) (layer @ [node]) (g_onion G),
           g_mapped := map_put (n_id n) node (g_mapped G)\<rparr>))) }"

definition pushToOutputOnce :: "'t Graph \<Rightarrow> int \<Rightarrow> 't Graph" where
  "pushToOutputOnce G id' = (if id' \<notin> set (g_output G) then G\<lparr>g_output := g_output G @ [id']\<rparr> else G)"

definition addOutput :: "'t Graph \<Rightarrow> int \<Rightarrow> 't Graph" where
  "addOutput G id' =
     (if g_outputMode G = OutputMode_EXPLICIT \<or> g_outputMode G = OutputMode_EXPLICIT_AND_IMPLICIT
      then pushToOutputOnce G id' else G)"

section \<open>Adding a node\<close>

text \<open>The prototype of the context of an op node gets the inputs of the node.\<close>

definition attach_block :: "'t Node \<Rightarrow> 't Node" where
  "attach_block n =
     (let n = (if n_protoContext n = None then n\<lparr>n_protoContext := Some (new_ContextPrototype (n_id n) False)\<rparr>
               else snd (getContextPrototype n)) in
      (case n_protoContext n of
         None \<Rightarrow> n
       | Some block \<Rightarrow> if hasVariablesFilled block then n
           else n\<lparr>n_protoContext := Some (foldl cp_pickInput block (n_input n))\<rparr>))"

text \<open>A new variable for output \<open>e\<close> of a node.\<close>

definition put_output :: "int \<Rightarrow> int \<Rightarrow> bool \<Rightarrow> 't space \<Rightarrow> 't space result" where
  "put_output id' e keep S = (case S of (M, s) \<Rightarrow>
     let x = Variable_id None None id' e;
         (v, M) = new_var (if keep then markRemovable x False else x) M in
     putVariable (M, s) (id', e) v)"

text \<open>The outputs of a node that is an external variable with an array: the state of the node shares the array.\<close>

definition share_external :: "nat \<Rightarrow> int \<times> int \<Rightarrow> 't space \<Rightarrow> 't space result" where
  "share_external nodeState out S = (case S of (M, s) \<Rightarrow>
     if fst out < 0 then
       ebind (Some (getVariable s out)) (\<lambda>p. do {
         ext \<leftarrow> deref (m_vars M) p;
         if hasNDArray ext then do {
           x \<leftarrow> var_at M nodeState;
           Some (Inr (set_var M nodeState (markRemovable (setNDArray x (getNDArray ext)) False), s)) }
         else Some (Inr (M, s)) })
     else Some (Inr (M, s)))"

text \<open>The variables a node will write. The state of a node is not removable, whether the node works in place or not:
  the \<open>if\<close> of the source ends in an empty statement.\<close>

definition add_variables :: "'t Graph \<Rightarrow> nat \<Rightarrow> 't Graph result" where
  "add_variables G node = do {
     n \<leftarrow> node_at G node;
     let (nodeState, M) = new_var (markRemovable (setName (Variable_id None (Some (n_name n)) (n_id n) 0) (n_name n)) False) (g_memory G);
     let G = G\<lparr>g_memory := M, g_handles := g_handles G @ [node], g_nodes := g_nodes G @ [n_id n]\<rparr>;
     ebind (on_space (\<lambda>S. putVariable_id S (n_id n) nodeState) G) (\<lambda>G.
       if n_opType n = OpType_LOGIC \<and> n_opNum n = 0 then
         on_space (mret (\<lambda>e S. put_output (n_id n) e False S) [0..int (length (n_input n)) - 3]) G
       else (case n_customOp n of
           None \<Rightarrow> Some (Inr G)
         | Some op \<Rightarrow>
             (let G = set_node G node (attach_block n) in
              if od_numberOfOutputs op > 1 then
                on_space (mret (\<lambda>e S. put_output (n_id n) e (n_isInplace n) S) [1..od_numberOfOutputs op - 1]) G
              else on_space (mret (share_external nodeState) (n_output n)) G))) }"

text \<open>A node without outputs gets its variable as an output.\<close>

definition add_auto_output :: "'t Graph \<Rightarrow> 't Node \<Rightarrow> 't Graph result" where
  "add_auto_output G n =
     ebind (if \<not> hasVariable_id (g_variableSpace G) (n_id n)
            then (let (v, M) = new_var (Variable_array None None) (g_memory G) in Some (Inr (Some v, G\<lparr>g_memory := M\<rparr>)))
            else ebind (Some (getVariable_id (g_variableSpace G) (n_id n))) (\<lambda>p. Some (Inr (p, G))))
       (\<lambda>(p, G). do {
          v \<leftarrow> p;
          x \<leftarrow> var_at (g_memory G) v;
          let x = setName (setId1 x (n_id n)) (n_name n);
          let G = G\<lparr>g_memory := set_var (g_memory G) v x\<rparr>;
          ebind (on_space (\<lambda>S. putOutputVariable S v) G) (\<lambda>G. Some (Inr (G\<lparr>g_autos := g_autos G @ [v_id x]\<rparr>))) })"

definition add_outputs :: "'t Graph \<Rightarrow> nat \<Rightarrow> 't Graph result" where
  "add_outputs G node = do {
     n \<leftarrow> node_at G node;
     let G = (if g_outputMode G = OutputMode_VARIABLE_SPACE \<and> n_hasInternalOutputs n then pushToOutputOnce G (n_id n) else G);
     if n_output n = [] \<or> length (n_output n) = 1 \<and> fst (hd (n_output n)) = 0 then add_auto_output G n
     else if n_hasExternalOutputs n \<and> \<not> n_hasInternalOutputs n \<and>
         (g_outputMode G = OutputMode_IMPLICIT \<or> g_outputMode G = OutputMode_EXPLICIT_AND_IMPLICIT) then
       Some (Inr (foldl (\<lambda>G (i, _). if i < 0 then pushToOutputOnce G i else G) G (n_output n)))
     else Some (Inr G) }"

text \<open>Where the node goes: into its scope, into a layer when that is known, or to the unmapped nodes.\<close>

definition place_node :: "'t Graph \<Rightarrow> nat \<Rightarrow> 't Graph result" where
  "place_node G node = do {
     n \<leftarrow> node_at G node;
     let unmapped = Some (Inr (G\<lparr>
       g_unmapped := (if map_count (n_id n) (g_unmapped G) > 0 then g_unmapped G else map_put (n_id n) node (g_unmapped G)),
       g_unmappedMap := g_unmappedMap G @ [n_id n]\<rparr>));
     if isScoped n then
       (case map_of (g_mappedScopes G) (n_scope_id n) of
          None \<Rightarrow> Some (Inl (Invalid_argument ''Unknown scope requested''))
        | Some i \<Rightarrow> Some (Inr (G\<lparr>g_scopes := (g_scopes G)[i := Scope_push_back (g_scopes G ! i) node]\<rparr>)))
     else if n_hasExternalInputs n \<and> \<not> n_hasInternalInputs n then
       injectNode (set_node G node (setLayer n 0)) node
     else if n_hasInternalInputs n \<and> \<not> n_hasExternalInputs n \<and> length (n_input n) = 1 then
       (case map_of (g_mapped G) (fst (hd (n_input n))) of
          None \<Rightarrow> unmapped
        | Some p \<Rightarrow> do {
            parent \<leftarrow> node_at G p;
            nLayer \<leftarrow> i32 (n_layer parent + 1);
            let G = expandOnion G nLayer;
            injectNode (set_node G node (setLayer n nLayer)) node })
     else unmapped }"

definition addNode :: "'t Graph \<Rightarrow> nat \<Rightarrow> 't Graph result" where
  "addNode G node = do {
     n \<leftarrow> node_at G node;
     let G = G\<lparr>g_built := False\<rparr>;
     let G = (if n_opType n = OpType_LOGIC \<and> n_opNum n = 10 then
                G\<lparr>g_mappedScopes := map_put (n_id n) (length (g_scopes G)) (g_mappedScopes G),
                  g_scopes := g_scopes G @ [new_Scope (n_id n) (Some (n_name n))]\<rparr>
              else G);
     ebind (add_variables G node) (\<lambda>G. ebind (add_outputs G node) (\<lambda>G. place_node G node)) }"

section \<open>Building the graph\<close>

text \<open>The nodes used by no other node become outputs in the implicit mode; in the mode of the variable space, all of
  them and the external variables do.\<close>

definition mapped_nodes :: "'t Graph \<Rightarrow> nat list" where
  "mapped_nodes G = List.map_filter (\<lambda>v. map_of (g_mapped G) v) (g_nodes G)"

definition pick_outputs :: "'t Graph \<Rightarrow> int \<Rightarrow> 't Graph option" where
  "pick_outputs G v = (case map_of (g_mapped G) v of
     None \<Rightarrow> Some G
   | Some p \<Rightarrow> do {
       n \<leftarrow> node_at G p;
       mfor (\<lambda>inP G. (case map_of (g_mapped G) (fst inP) of
           None \<Rightarrow> Some G
         | Some q \<Rightarrow> do { m \<leftarrow> node_at G q; Some (set_node G q (pickOutputOnce m v)) })) (n_input n) G })"

definition prepareOutputs :: "'t Graph \<Rightarrow> 't Graph option" where
  "prepareOutputs G =
     (if g_outputMode G = OutputMode_VARIABLE_SPACE then do {
        G \<leftarrow> mfor (\<lambda>v G. do { x \<leftarrow> var_at (g_memory G) v; Some (pushToOutputOnce G (v_id x)) }) (vs_external (g_variableSpace G)) G;
        mfor (\<lambda>p G. do { n \<leftarrow> node_at G p; Some (pushToOutputOnce G (n_id n)) }) (mapped_nodes G) G }
      else if g_outputMode G = OutputMode_IMPLICIT then do {
        G \<leftarrow> mfor (\<lambda>v G. pick_outputs G v) (g_nodes G) G;
        mfor (\<lambda>p G. do {
          n \<leftarrow> node_at G p;
          Some (if \<not> n_hasInternalOutputs n then pushToOutputOnce G (n_id n) else G) }) (mapped_nodes G) G }
      else Some G)"

text \<open>A node found to be placeable goes to the end of a layer.\<close>

definition map_to_layer :: "'t Graph \<Rightarrow> nat \<Rightarrow> int \<Rightarrow> 't Graph result" where
  "map_to_layer G node layer = do {
     n \<leftarrow> node_at G node;
     let G = expandOnion G layer;
     let G = set_node G node (setLayer n layer);
     ebind (injectNode G node) (\<lambda>G. do {
       n \<leftarrow> node_at G node;
       Some (Inr (if hasCustomOp n then set_node G node (attach_block n) else G)) }) }"

text \<open>The layer below all placed inputs, and whether an input is missing (\<open>None\<close>).\<close>

definition input_layer :: "'t Graph \<Rightarrow> 't Node \<Rightarrow> (int option) result" where
  "input_layer G n = mret (\<lambda>(nodeId, _) acc. (case acc of
       None \<Rightarrow> Some (Inr None)
     | Some maxLayer \<Rightarrow>
         (case map_of (g_mapped G) nodeId of
            Some p \<Rightarrow> do { i \<leftarrow> node_at G p; Some (Inr (Some (if maxLayer < n_layer i then n_layer i else maxLayer))) }
          | None \<Rightarrow>
              if n_opType n = OpType_LOGIC then Some (Inr (Some maxLayer))
              else if nodeId > 0 then
                ebind (hasExternalVariable_id (g_memory G) (g_variableSpace G) nodeId) (\<lambda>ext.
                  Some (Inr (if \<not> ext then None else Some maxLayer)))
              else Some (Inr (Some maxLayer))))) (n_input n) (Some 0)"

text \<open>One step of the pass over the unmapped nodes: \<open>c\<close> counts them, \<open>queue\<close> lists those that were placed.\<close>

definition build_step :: "nat \<Rightarrow> nat \<times> 't Graph \<times> int list \<Rightarrow> (nat \<times> 't Graph \<times> int list) result" where
  "build_step node st = (case st of (c, G, queue) \<Rightarrow>
     if c \<ge> length (g_unmappedMap G) then Some (Inl Out_of_range)
     else do {
       n \<leftarrow> node_at G node;
       (case n_input n of
          [(iNode, _)] \<Rightarrow>
            ebind (if iNode < 0 then Some (Inr True) else hasExternalVariable_id (g_memory G) (g_variableSpace G) iNode) (\<lambda>ext.
              if ext then
                ebind (map_to_layer G node (to_int (int (length (g_onion G))))) (\<lambda>G. Some (Inr (Suc c, G, queue @ [n_id n])))
              else (case map_of (g_mapped G) iNode of
                  None \<Rightarrow> Some (Inr (Suc c, G, queue))
                | Some p \<Rightarrow> do {
                    parent \<leftarrow> node_at G p;
                    maxLayer \<leftarrow> i32 (n_layer parent + 1);
                    ebind (map_to_layer G node maxLayer) (\<lambda>G. Some (Inr (Suc c, G, queue @ [n_id n, n_id n]))) }))
        | _ \<Rightarrow>
            ebind (input_layer G n) (\<lambda>r. (case r of
                None \<Rightarrow> Some (Inr (Suc c, G, queue))
              | Some l \<Rightarrow> do {
                  maxLayer \<leftarrow> i32 (l + 1);
                  ebind (map_to_layer G node maxLayer) (\<lambda>G. Some (Inr (Suc c, G, queue @ [n_id n]))) }))) })"

definition build_pass :: "'t Graph \<Rightarrow> 't Graph result" where
  "build_pass G =
     ebind (mret (\<lambda>(_, node). build_step node) (g_unmapped G) (0, G, [])) (\<lambda>(_, G, queue).
       Some (Inr (G\<lparr>g_unmapped := filter (\<lambda>(k, _). k \<notin> set queue) (g_unmapped G)\<rparr>)))"

function build_loop :: "nat \<Rightarrow> nat \<Rightarrow> 't Graph \<Rightarrow> 't Graph result" where
  "build_loop buildLimit buildCnt G =
     (if g_unmapped G = [] then Some (Inr G)
      else ebind (build_pass G) (\<lambda>G.
        if Suc buildCnt > buildLimit then Some (Inl (Thrown ''Unable to build graph''))
        else build_loop buildLimit (Suc buildCnt) G))"
  by pat_completeness auto

termination
  by (relation "measure (\<lambda>(l, c, _). l - c)") auto

declare build_loop.simps [simp del]

definition buildGraph :: "'t Graph \<Rightarrow> 't Graph result" where
  "buildGraph G =
     (if g_built G then map_option Inr (prepareOutputs G)
      else if length (g_unmapped G) > length (g_unmappedMap G) then Some (Inl Out_of_range)
      else ebind (build_loop (2 * length (g_unmapped G)) 0 G) (\<lambda>G.
        map_option Inr (prepareOutputs (G\<lparr>g_built := True\<rparr>))))"

definition fetchOutputs :: "'t Graph \<Rightarrow> exn + pointer list" where
  "fetchOutputs G = foldl (\<lambda>res i. (case res of Inl e \<Rightarrow> Inl e
     | Inr vs \<Rightarrow> map_sum id (\<lambda>v. vs @ [v]) (getVariable_id (g_variableSpace G) i))) (Inr []) (g_output G)"

definition rootNodes :: "'t Graph \<Rightarrow> exn + int" where
  "rootNodes G = (case map_of (g_onion G) 0 of None \<Rightarrow> Inl Out_of_range | Some l \<Rightarrow> Inr (to_int (int (length l))))"

definition totalNodes :: "'t Graph \<Rightarrow> (int \<times> 't Graph) result" where
  "totalNodes G = ebind (if g_built G then Some (Inr G) else buildGraph G) (\<lambda>G. Some (Inr (to_int (int (length (g_mapped G))), G)))"

text \<open>Nodes may work in place when no node that they read is read by another one.\<close>

definition reference_inputs :: "'t Graph \<Rightarrow> 't Graph option" where
  "reference_inputs G = mfor (\<lambda>p G. do {
     n \<leftarrow> node_at G p;
     mfor (\<lambda>(i, _) G. (case map_of (g_mapped G) i of
         None \<Rightarrow> Some G
       | Some q \<Rightarrow> do { m \<leftarrow> node_at G q; Some (set_node G q (addReference m (n_id n))) })) (n_input n) G }) (mapped_nodes G) G"

definition shared_input :: "'t Graph \<Rightarrow> 't Node \<Rightarrow> bool option" where
  "shared_input G n = mfor (\<lambda>(i, _) found. (case map_of (g_mapped G) i of
       None \<Rightarrow> Some found
     | Some q \<Rightarrow> if found then Some True else do { m \<leftarrow> node_at G q; Some (totalReferences m > 1) })) (n_input n) False"

definition tagInplaceNodes :: "'t Graph \<Rightarrow> 't Graph result" where
  "tagInplaceNodes G =
     ebind (if \<not> g_built G then buildGraph G else Some (Inr G)) (\<lambda>G. do {
       buildRef \<leftarrow> mfor (\<lambda>p found. if found then Some True else do {
           n \<leftarrow> node_at G p; Some (totalReferences n = 0) }) (mapped_nodes G) False;
       G \<leftarrow> (if buildRef then reference_inputs G else Some G);
       G \<leftarrow> mfor (\<lambda>p G. do {
           n \<leftarrow> node_at G p;
           (case n_customOp n of
              None \<Rightarrow> Some G
            | Some op \<Rightarrow> if od_allowsInplace op then do {
                  shared \<leftarrow> shared_input G n;
                  Some (set_node G p (node_markInplace n (\<not> shared))) }
                else Some G) }) (mapped_nodes G) G;
       Some (Inr G) })"

text \<open>The destructor deletes the nodes of the maps and the scopes, and the variable space.\<close>

definition delete_Scope :: "'t Node pool \<Rightarrow> Scope \<Rightarrow> 't Node pool option" where
  "delete_Scope P c = mfor (\<lambda>v P. delete_object P v) (sc_nodes c) P"

definition delete_Graph :: "'t Graph \<Rightarrow> ('t memory \<times> 't Node pool) option" where
  "delete_Graph G = do {
     P \<leftarrow> mfor (\<lambda>(_, v) P. delete_object P v) (g_mapped G) (g_pool G);
     P \<leftarrow> mfor (\<lambda>(_, v) P. delete_object P v) (g_unmapped G) P;
     P \<leftarrow> mfor (\<lambda>c P. delete_Scope P c) (g_scopes G) P;
     M \<leftarrow> delete_VariableSpace (g_memory G, g_variableSpace G);
     Some (M, P) }"

text \<open>The layer 0 is there from the start. The variables and nodes of a serialised graph are added by the other operations; the random generator that the constructor makes is taken to be in \<open>s\<close>.\<close>

definition new_Graph :: "'t memory \<Rightarrow> VariableSpace \<Rightarrow> OutputMode \<Rightarrow> 't Graph" where
  "new_Graph M s mode = expandOnion \<lparr>g_memory = M, g_pool = empty_pool, g_outputMode = mode, g_variableSpace = s,
     g_handles = [], g_nodes = [], g_mapped = [], g_onion = [], g_unmapped = [], g_unmappedMap = [], g_built = False,
     g_output = [], g_autos = [], g_mappedScopes = [], g_scopes = []\<rparr> 0"

section \<open>Loading a graph\<close>

text \<open>The rest of the constructor: the variables, outputs and nodes of a serialised graph, made from it by constructors that are not
  part of the model, are put in the order they have there. A node goes to the layer of its position unless
  \<open>addNode\<close> finds another one.\<close>

definition load_variable :: "(int \<times> int) \<times> Variable \<Rightarrow> 't Graph \<Rightarrow> 't Graph result" where
  "load_variable v G = (case v of (pair, x) \<Rightarrow>
     let (var, M) = new_var x (g_memory G) in
     ebind (on_space (\<lambda>S. putVariable S pair var) (G\<lparr>g_memory := M\<rparr>)) (\<lambda>G. do {
       x \<leftarrow> var_at (g_memory G) var;
       Some (Inr (if g_outputMode G = OutputMode_VARIABLE_SPACE then pushToOutputOnce G (v_id x) else G)) }))"

definition load_output :: "int \<times> int \<Rightarrow> 't Graph \<Rightarrow> 't Graph result" where
  "load_output vp G =
     (if \<not> hasVariable (g_variableSpace G) vp then Some (Inl (Thrown ''Non-existent variable requested''))
      else Some (Inr (pushToOutputOnce G (fst vp))))"

definition load_node :: "'t Node \<Rightarrow> int \<times> 't Graph \<Rightarrow> (int \<times> 't Graph) result" where
  "load_node n st = (case st of (e, G) \<Rightarrow>
     let (nnode, P) = new_object n (g_pool G);
         G = expandOnion (G\<lparr>g_pool := P\<rparr>) e;
         G = set_node G nnode (setLayer n e) in
     ebind (addNode G nnode) (\<lambda>G. ebind (injectNode G nnode) (\<lambda>G.
       Some (Inr (e + 1, G\<lparr>g_unmapped := filter (\<lambda>(k, _). k \<noteq> n_id n) (g_unmapped G)\<rparr>)))))"

definition load_graph :: "'t memory \<Rightarrow> VariableSpace \<Rightarrow> OutputMode \<Rightarrow> bool \<Rightarrow> ((int \<times> int) \<times> Variable) list \<Rightarrow> (int \<times> int) list \<Rightarrow>
    't Node list \<Rightarrow> 't Graph result" where
  "load_graph M s mode forwardOnly variables outputs nodes =
     ebind (mret load_variable variables (new_Graph M s mode)) (\<lambda>G.
     ebind (if mode = OutputMode_EXPLICIT \<or> mode = OutputMode_EXPLICIT_AND_IMPLICIT then mret load_output outputs G else Some (Inr G)) (\<lambda>G.
     ebind (mret load_node nodes (0, G)) (\<lambda>(_, G).
       let G = (if nodes \<noteq> [] then G\<lparr>g_built := True\<rparr> else G) in
       if forwardOnly \<and> mode = OutputMode_OPTIMIZED then tagInplaceNodes G else Some (Inr G))))"

end
