(* ===== verification/Logic.thy ===== *)
theory Logic
  imports DeclarableOps Graphs
begin

text \<open>
  The execution of one node of a graph: \<open>executeFlatNode\<close> (\<open>blas/cpu/GraphExecutioner.cpp\<close>) for ops and the
  classes of \<open>include/graph/execution/impl\<close> for logic nodes. A session is a graph, with its own variable space,
  and the flow paths that exist; \<open>vs_flow\<close> of the space points to one of them. Embedded graphs are not modelled.
\<close>

section \<open>State\<close>

type_synonym 't session = "'t Graph \<times> FlowPath pool"

text \<open>The calls on the flow path of the space: with no flow path, or a deleted one, they are undefined.\<close>

definition flow_do :: "(FlowPath \<Rightarrow> FlowPath) \<Rightarrow> 't session \<Rightarrow> 't session option" where
  "flow_do f X = (case X of (G, F) \<Rightarrow> do {
     p \<leftarrow> deref F (vs_flow (g_variableSpace G));
     F \<leftarrow> assign_object F (vs_flow (g_variableSpace G)) (f p);
     Some (G, F) })"

definition flow_ask :: "(FlowPath \<Rightarrow> 'a \<times> FlowPath) \<Rightarrow> 't session \<Rightarrow> ('a \<times> 't session) option" where
  "flow_ask f X = (case X of (G, F) \<Rightarrow> do {
     p \<leftarrow> deref F (vs_flow (g_variableSpace G));
     F \<leftarrow> assign_object F (vs_flow (g_variableSpace G)) (snd (f p));
     Some (fst (f p), (G, F)) })"

text \<open>An operation on the variable space of a session.\<close>

definition in_space :: "('t space \<Rightarrow> 't space result) \<Rightarrow> 't session \<Rightarrow> 't session result" where
  "in_space f X = (case X of (G, F) \<Rightarrow> ebind (on_space f G) (\<lambda>G. Some (Inr (G, F))))"

definition space_of :: "'t session \<Rightarrow> 't space" where
  "space_of X = (g_memory (fst X), g_variableSpace (fst X))"

section \<open>Ops\<close>

text \<open>\<open>target->assign(source)\<close>.\<close>

definition assign_array :: "'t kernels \<Rightarrow> 't memory \<Rightarrow> pointer \<Rightarrow> pointer \<Rightarrow> 't memory result" where
  "assign_array K M target source = do {
     a \<leftarrow> deref (m_arrays M) target;
     b \<leftarrow> deref (m_arrays M) source;
     ebind (nd_assign (k_execScalar K) (k_execPairwise K) a b) (\<lambda>a. do {
       A \<leftarrow> assign_object (m_arrays M) target a;
       Some (Inr (M\<lparr>m_arrays := A\<rparr>)) }) }"

text \<open>The result of a node is copied to an external variable among its outputs.\<close>

definition propagate :: "'t kernels \<Rightarrow> int \<Rightarrow> int \<times> int \<Rightarrow> 't space \<Rightarrow> 't space result" where
  "propagate K nodeId v S = (case S of (M, s) \<Rightarrow>
     ebind (hasExternalVariable_id M s (fst v)) (\<lambda>ext.
       if ext then
         ebind (Some (getVariable_id s (fst v))) (\<lambda>p. ebind (Some (getVariable_id s nodeId)) (\<lambda>q. do {
           x \<leftarrow> deref (m_vars M) p;
           y \<leftarrow> deref (m_vars M) q;
           ebind (assign_array K M (getNDArray x) (getNDArray y)) (\<lambda>M. Some (Inr (M, s))) }))
       else Some (Inr (M, s))))"

text \<open>
  The part of \<open>executeFlatNode\<close> for a node with an op, with the context that is made for it at the start of the function;
  a node without an op does nothing. Nodes with an embedded graph are not modelled.
\<close>

definition executeFlatNode :: "'t kernels \<Rightarrow> nat \<Rightarrow> 't session \<Rightarrow> (int \<times> 't session) result" where
  "executeFlatNode K node X = (case X of (G, F) \<Rightarrow> do {
     n \<leftarrow> node_at G node;
     let (proto, n) = getContextPrototype n;
     let context = new_Context (Some proto);
     let G = set_node G node n;
     (case n_customOp n of
        None \<Rightarrow> Some (Inr (ND4J_STATUS_OK, (G, F)))
      | Some d \<Rightarrow> ebind (run_op K d context (g_memory G, g_variableSpace G)) (\<lambda>(status, branch, (M, s)). do {
          let G = G\<lparr>g_memory := M, g_variableSpace := s\<rparr>;
          F \<leftarrow> (case (branch, vs_flow s) of
                  (Some b, Some f) \<Rightarrow> do {
                    p \<leftarrow> p_live F f;
                    q \<leftarrow> setBranch context (Some p) b;
                    assign_object F (Some f) q }
                | _ \<Rightarrow> Some F);
          if status \<noteq> ND4J_STATUS_OK then Some (Inr (status, (G, F)))
          else if n_hasExternalOutputs n then
            ebind (in_space (mret (propagate K (n_id n)) (n_output n)) (G, F)) (\<lambda>X. Some (Inr (status, X)))
          else Some (Inr (status, (G, F))) })) })"

section \<open>Logic nodes\<close>

text \<open>Output \<open>e\<close> of a node gets a variable when it has none.\<close>

definition ensure_output :: "int \<Rightarrow> int \<Rightarrow> 't space \<Rightarrow> 't space result" where
  "ensure_output id' e S = (case S of (M, s) \<Rightarrow>
     if \<not> hasVariable s (id', e) then (let (v, M) = new_var (Variable_id None None id' e) M in putVariable (M, s) (id', e) v)
     else Some (Inr (M, s)))"

text \<open>Output \<open>e\<close> of a node refers to an array it does not own.\<close>

definition publish :: "int \<times> int \<Rightarrow> pointer \<Rightarrow> 't space \<Rightarrow> 't space result" where
  "publish pair input S = (case S of (M, s) \<Rightarrow>
     ebind (Some (getVariable s pair)) (\<lambda>p. do {
       v \<leftarrow> p;
       x \<leftarrow> var_at M v;
       Some (Inr (set_var M v (markRemovable (setNDArray x input) False), s)) }))"

text \<open>The array of the variable at an address of the inputs.\<close>

definition input_array :: "'t Context \<Rightarrow> 't space \<Rightarrow> int \<Rightarrow> pointer result" where
  "input_array ctx S idx = (case S of (M, s) \<Rightarrow>
     ebind (Some (ctx_getVariable ctx s idx)) (\<lambda>p. do { x \<leftarrow> deref (m_vars M) p; Some (Inr (getNDArray x)) }))"

text \<open>Whether the first element of an array is zero.\<close>

definition is_zero :: "'t kernels \<Rightarrow> 't memory \<Rightarrow> pointer \<Rightarrow> bool result" where
  "is_zero K M p = do { a \<leftarrow> deref (m_arrays M) p; ebind (getScalar a 0) (\<lambda>v. Some (Inr (k_isZero K v))) }"

text \<open>The variable of the node, or a new one that is not put anywhere, refers to the array of another variable. The old
  array is deleted first when \<open>del\<close> says so, and the new one printed when \<open>shown\<close> does: then it must be there.\<close>

definition share_array :: "bool \<Rightarrow> bool \<Rightarrow> 't Node \<Rightarrow> int \<times> int \<Rightarrow> 't space \<Rightarrow> 't space result" where
  "share_array del shown n inputAddr S = (case S of (M, s) \<Rightarrow>
     ebind (Some (getVariable s inputAddr)) (\<lambda>var.
       ebind (if hasVariable_at s (n_id n) 0 then map_option (map_sum id (\<lambda>v. (v, M))) (Some (getVariable_at s (n_id n) 0))
              else (let (v, M) = new_var (Variable_id None (Some (n_name n)) (n_id n) 0) M in Some (Inr (Some v, M))))
         (\<lambda>(lvar, M). do {
            v \<leftarrow> lvar;
            y \<leftarrow> var_at M v;
            A \<leftarrow> (if del \<and> hasNDArray y then delete_ptr (m_arrays M) (getNDArray y) else Some (m_arrays M));
            x \<leftarrow> deref (m_vars M) var;
            _ \<leftarrow> (if shown then map_option (\<lambda>_. ()) (deref A (getNDArray x)) else Some ());
            Some (Inr (set_var (M\<lparr>m_arrays := A\<rparr>) v (markReadOnly (setNDArray y (getNDArray x)) True), s)) })))"

text \<open>The first input that has an array is shared.\<close>

fun share_first :: "bool \<Rightarrow> 't Node \<Rightarrow> (int \<times> int) list \<Rightarrow> 't space \<Rightarrow> 't space result" where
  "share_first del n [] S = Some (Inr S)"
| "share_first del n (inputAddr # rest) S =
     (if hasVariable (snd S) inputAddr then
        ebind (Some (getVariable (snd S) inputAddr)) (\<lambda>p. do {
          x \<leftarrow> deref (m_vars (fst S)) p;
          if \<not> hasNDArray x then share_first del n rest S else share_array del False n inputAddr S })
      else share_first del n rest S)"

definition LogicEnter :: "nat \<Rightarrow> 't session \<Rightarrow> (int \<times> 't session) result" where
  "LogicEnter node X = do {
     n \<leftarrow> node_at (fst X) node;
     ebind (in_space (share_first False n (n_input n)) X) (\<lambda>X. Some (Inr (ND4J_STATUS_OK, X))) }"

definition LogicNextIteration :: "nat \<Rightarrow> 't session \<Rightarrow> (int \<times> 't session) result" where
  "LogicNextIteration node X = do {
     n \<leftarrow> node_at (fst X) node;
     (case n_input n of
        [] \<Rightarrow> Some (Inl Out_of_range)
      | inputAddr # _ \<Rightarrow> ebind (in_space (share_array False False n inputAddr) X) (\<lambda>X. Some (Inr (ND4J_STATUS_OK, X)))) }"

text \<open>The context of a node, whose prototype is made on demand.\<close>

definition node_context :: "nat \<Rightarrow> 't session \<Rightarrow> ('t Context \<times> 't session) option" where
  "node_context node X = do {
     n \<leftarrow> node_at (fst X) node;
     let (proto, n) = getContextPrototype n;
     Some (new_Context (Some proto), (set_node (fst X) node n, snd X)) }"

definition LogicExit :: "nat \<Rightarrow> 't session \<Rightarrow> (int \<times> 't session) result" where
  "LogicExit node X = do {
     (ctx, X) \<leftarrow> node_context node X;
     n \<leftarrow> node_at (fst X) node;
     ebind (input_array ctx (space_of X) 0) (\<lambda>input.
       ebind (in_space (ensure_output (n_id n) 0) X) (\<lambda>X.
         ebind (in_space (publish (n_id n, 0) input) X) (\<lambda>X. Some (Inr (ND4J_STATUS_OK, X))))) }"

text \<open>The condition is read, but nothing depends on it.\<close>

definition LogicLoopCond :: "'t kernels \<Rightarrow> nat \<Rightarrow> 't session \<Rightarrow> (int \<times> 't session) result" where
  "LogicLoopCond K node X = do {
     (ctx, X) \<leftarrow> node_context node X;
     n \<leftarrow> node_at (fst X) node;
     ebind (input_array ctx (space_of X) 0) (\<lambda>input.
       ebind (in_space (ensure_output (n_id n) 0) X) (\<lambda>X.
         ebind (in_space (publish (n_id n, 0) input) X) (\<lambda>X.
           ebind (is_zero K (g_memory (fst X)) input) (\<lambda>_. Some (Inr (ND4J_STATUS_OK, X)))))) }"

text \<open>A merge whose second input is a \<open>NextIteration\<close> node belongs to a loop: it takes the second input once that node was
  executed, the first one otherwise. It tells the node where to rewind to. Other merges take the first input that
  has an array.\<close>

definition merge_is_while :: "'t Graph \<Rightarrow> int \<Rightarrow> (nat option) result" where
  "merge_is_while G id' =
     (if hasNode G id' then
        ebind (Some (nodeById G id')) (\<lambda>p. do {
          m \<leftarrow> node_at G p;
          Some (Inr (if n_opType m = OpType_LOGIC \<and> n_opNum m = 80 then Some p else None)) })
      else Some (Inr None))"

definition LogicMerge :: "nat \<Rightarrow> 't session \<Rightarrow> (int \<times> 't session) result" where
  "LogicMerge node X = do {
     n \<leftarrow> node_at (fst X) node;
     (case n_input n of
        inputAddr0 # inputAddr1 # _ \<Rightarrow>
          ebind (merge_is_while (fst X) (fst inputAddr1)) (\<lambda>second. (case second of
              Some p \<Rightarrow> do {
                m \<leftarrow> node_at (fst X) p;
                let X = (set_node (fst X) p (setRewindNode (setRewindLayer m (n_layer n) 0) (n_id n)), snd X);
                X \<leftarrow> (if n_frameId n \<ge> 0 then flow_do (\<lambda>p. markFrameActive p (n_frameId n) True) X else Some X);
                let hasVar = hasVariable (g_variableSpace (fst X)) inputAddr1;
                (executed, X) \<leftarrow> (if hasVar then flow_ask (\<lambda>p. wasExecuted p (fst inputAddr1)) X else Some (False, X));
                if executed then
                  ebind (in_space (share_array False True n inputAddr1) X) (\<lambda>X. do {
                    X \<leftarrow> flow_do (\<lambda>p. markExecuted p (fst inputAddr1) False) X;
                    Some (Inr (ND4J_STATUS_OK, X)) })
                else ebind (in_space (share_array False False n inputAddr0) X) (\<lambda>X. Some (Inr (ND4J_STATUS_OK, X))) }
            | None \<Rightarrow> ebind (in_space (share_first True n (n_input n)) X) (\<lambda>X. Some (Inr (ND4J_STATUS_OK, X)))))
      | _ \<Rightarrow> Some (Inl Out_of_range)) }"

text \<open>The nodes of a scope, executed in turn whatever they answer; the id of the last one.\<close>

fun run_scope :: "'t kernels \<Rightarrow> nat list \<Rightarrow> int \<Rightarrow> 't session \<Rightarrow> (int \<times> 't session) result" where
  "run_scope K [] lastNode X = Some (Inr (lastNode, X))"
| "run_scope K (v # vs) lastNode X =
     ebind (executeFlatNode K v X) (\<lambda>(_, X). do { n \<leftarrow> node_at (fst X) v; run_scope K vs (n_id n) X })"

definition scope_nodes :: "'t Graph \<Rightarrow> int \<Rightarrow> exn + nat list" where
  "scope_nodes G id' = map_sum id (\<lambda>i. sc_nodes (g_scopes G ! i)) (scopeById G id')"

text \<open>The array of the variable of a node, by its id.\<close>

definition result_array :: "'t session \<Rightarrow> int \<Rightarrow> pointer result" where
  "result_array X id' = (case space_of X of (M, s) \<Rightarrow>
     ebind (Some (getVariable_id s id')) (\<lambda>p. do { x \<leftarrow> deref (m_vars M) p; Some (Inr (getNDArray x)) }))"

text \<open>The signal goes to the output that the condition selects: output 0 when it is zero. The condition is the
  result of a scope, or the second input.\<close>

definition switch_to :: "'t kernels \<Rightarrow> int \<Rightarrow> pointer \<Rightarrow> pointer \<Rightarrow> 't session \<Rightarrow> (int \<times> 't session) result" where
  "switch_to K id' input boolean X =
     ebind (in_space (ensure_output id' 0) X) (\<lambda>X.
       ebind (in_space (ensure_output id' 1) X) (\<lambda>X.
         ebind (is_zero K (g_memory (fst X)) boolean) (\<lambda>z.
           let branch = (if z then 0 else 1) in do {
             X \<leftarrow> flow_do (\<lambda>p. markBranch p id' branch) X;
             ebind (in_space (publish (id', branch) input) X) (\<lambda>X. Some (Inr (ND4J_STATUS_OK, X))) })))"

definition LogicSwitch :: "'t kernels \<Rightarrow> nat \<Rightarrow> 't session \<Rightarrow> (int \<times> 't session) result" where
  "LogicSwitch K node X = do {
     (ctx, X) \<leftarrow> node_context node X;
     n \<leftarrow> node_at (fst X) node;
     (case n_input n of
        [] \<Rightarrow> Some (Inl Out_of_range)
      | (scopeConditionIndex, _) # _ \<Rightarrow>
          if hasScope (fst X) scopeConditionIndex then
            ebind (Some (ctx_getVariable ctx (g_variableSpace (fst X)) 1)) (\<lambda>input.
              ebind (Some (scope_nodes (fst X) scopeConditionIndex)) (\<lambda>nodes.
                ebind (run_scope K nodes 0 X) (\<lambda>(lastNode, X).
                  ebind (result_array X lastNode) (\<lambda>result. do {
                    x \<leftarrow> deref (m_vars (g_memory (fst X))) input;
                    switch_to K (n_id n) (getNDArray x) result X }))))
          else
            ebind (input_array ctx (space_of X) 0) (\<lambda>input.
              ebind (input_array ctx (space_of X) 1) (\<lambda>boolean. do {
                _ \<leftarrow> deref (m_arrays (g_memory (fst X))) input;
                _ \<leftarrow> deref (m_arrays (g_memory (fst X))) boolean;
                switch_to K (n_id n) input boolean X }))) }"

section \<open>Scoped logic nodes\<close>

text \<open>Input \<open>e\<close> is copied to output \<open>e\<close> of the node, when that has no array yet.\<close>

definition copy_input :: "'t kernels \<Rightarrow> 't Node \<Rightarrow> int \<Rightarrow> 't space \<Rightarrow> 't space result" where
  "copy_input K n e S =
     ebind (ensure_output (n_id n) e S) (\<lambda>(M, s).
       if e \<ge> int (length (n_input n)) then Some (Inl Out_of_range)
       else ebind (Some (getVariable s (n_input n ! nat e))) (\<lambda>inputVar.
         ebind (Some (getVariable s (n_id n, e))) (\<lambda>innerVar. do {
           v \<leftarrow> innerVar;
           y \<leftarrow> var_at M v;
           if hasNDArray y then Some (Inr (M, s))
           else do {
             x \<leftarrow> deref (m_vars M) inputVar;
             if hasNDArray x then do {
               a \<leftarrow> deref (m_arrays M) (getNDArray x);
               ebind (dup (k_execScalar K) (k_execPairwise K) a 97) (\<lambda>b.
                 let (z, A) = new_object b (m_arrays M) in
                 Some (Inr (set_var (M\<lparr>m_arrays := A\<rparr>) v (setNDArray y (Some z)), s))) }
             else Some (Inr (M, s)) } })))"

definition input_scope :: "'t Node \<Rightarrow> int \<Rightarrow> exn + int" where
  "input_scope n i = (if 0 \<le> i \<and> i < int (length (n_input n)) then Inr (fst (n_input n ! nat i)) else Inl Out_of_range)"

text \<open>A return assigns its inputs to the variables of its outputs, numbered in turn.\<close>

definition return_input :: "'t kernels \<Rightarrow> 't Node \<Rightarrow> int \<Rightarrow> 't space \<Rightarrow> 't space result" where
  "return_input K n e S = (case S of (M, s) \<Rightarrow>
     if e \<ge> int (length (n_output n)) then Some (Inl Out_of_range)
     else ebind (Some (getVariable s (n_input n ! nat e))) (\<lambda>varIn.
       ebind (Some (getVariable s (fst (n_output n ! nat e), e))) (\<lambda>varOut. do {
         x \<leftarrow> deref (m_vars M) varOut;
         y \<leftarrow> deref (m_vars M) varIn;
         ebind (assign_array K M (getNDArray x) (getNDArray y)) (\<lambda>M. Some (Inr (M, s))) })))"

definition LogicReturn :: "'t kernels \<Rightarrow> nat \<Rightarrow> 't session \<Rightarrow> (int \<times> 't session) result" where
  "LogicReturn K node X = do {
     n \<leftarrow> node_at (fst X) node;
     ebind (in_space (mret (return_input K n) [0..int (length (n_input n)) - 1]) X) (\<lambda>X. Some (Inr (ND4J_STATUS_OK, X))) }"

definition LogicExpose :: "'t session \<Rightarrow> (int \<times> 't session) result" where
  "LogicExpose X = Some (Inr (ND4J_STATUS_OK, X))"

definition LogicScope :: "'t session \<Rightarrow> (int \<times> 't session) result" where
  "LogicScope X = Some (Inr (ND4J_STATUS_OK, X))"

text \<open>The branch of a conditional: all nodes but the last one run; the last one may be a return. The answer is the id of the
  last node, when its outputs are to be taken.\<close>

definition run_branch :: "'t kernels \<Rightarrow> nat list \<Rightarrow> 't session \<Rightarrow> (int option \<times> 't session) result" where
  "run_branch K nodes X =
     (if nodes = [] then Some (Inl Out_of_range)
      else ebind (run_scope K (butlast nodes) 0 X) (\<lambda>(lastNode, X). do {
        n \<leftarrow> node_at (fst X) (last nodes);
        if n_opType n = OpType_LOGIC \<and> n_opNum n = 40 then
          ebind (LogicReturn K (last nodes) X) (\<lambda>(_, X). Some (Inr (None, X)))
        else ebind (executeFlatNode K (last nodes) X) (\<lambda>(_, X). Some (Inr (Some (n_id n), X))) }))"

fun transfer_outputs :: "nat \<Rightarrow> int \<Rightarrow> int \<Rightarrow> int \<Rightarrow> 't space \<Rightarrow> 't space result" where
  "transfer_outputs 0 e lastNode id' S = Some (Inr S)"
| "transfer_outputs (Suc k) e lastNode id' (M, s) =
     (if hasVariable s (lastNode, e) then
        ebind (Some (getVariable s (lastNode, e))) (\<lambda>p. do {
          x \<leftarrow> deref (m_vars M) p;
          let (v, M) = new_var (markRemovable (setId (Variable_array (getNDArray x) None) lastNode e) False) M;
          ebind (putVariable (M, s) (id', e) v) (\<lambda>S. transfer_outputs k (e + 1) lastNode id' S) })
      else Some (Inr (M, s)))"

text \<open>The last three inputs are the scopes of the condition and of the branches. With fewer than three inputs their
  number, which is unsigned, wraps around; the loop ends by reading beyond the inputs.\<close>

definition LogicConditional :: "'t kernels \<Rightarrow> nat \<Rightarrow> 't session \<Rightarrow> (int \<times> 't session) result" where
  "LogicConditional K node X = do {
     n \<leftarrow> node_at (fst X) node;
     let size = int (length (n_input n));
     ebind (in_space (mret (copy_input K n) [0..if size < 3 then size else size - 4]) X) (\<lambda>X.
       ebind (Some (input_scope n (size - 3))) (\<lambda>scopeConditionIndex.
       ebind (Some (input_scope n (size - 2))) (\<lambda>scopeFalseIndex.
       ebind (Some (input_scope n (size - 1))) (\<lambda>scopeTrueIndex.
       ebind (Some (scope_nodes (fst X) scopeConditionIndex)) (\<lambda>nodes.
       ebind (run_scope K nodes 0 X) (\<lambda>(lastNode, X).
       ebind (result_array X lastNode) (\<lambda>result.
       ebind (is_zero K (g_memory (fst X)) result) (\<lambda>z.
       ebind (Some (scope_nodes (fst X) (if z then scopeFalseIndex else scopeTrueIndex))) (\<lambda>nodes.
       ebind (run_branch K nodes X) (\<lambda>(lastNode, X). (case lastNode of
           None \<Rightarrow> Some (Inr (ND4J_STATUS_OK, X))
         | Some l \<Rightarrow> ebind (in_space (transfer_outputs 65536 0 l (n_id n)) X) (\<lambda>X.
             Some (Inr (ND4J_STATUS_OK, X)))))))))))))) }"

text \<open>The nodes of a scope of a loop: logic nodes fall back to \<open>logic\<close>, whose status is ignored; an op that fails ends the
  loop. The answer is the status, and the id of the last node.\<close>

fun loop_scope :: "'t kernels \<Rightarrow> (nat \<Rightarrow> 't session \<Rightarrow> (int \<times> 't session) result) \<Rightarrow> nat list \<Rightarrow> int \<Rightarrow> 't session \<Rightarrow>
    (int \<times> int \<times> 't session) result" where
  "loop_scope K logic [] lastNode X = Some (Inr (ND4J_STATUS_OK, lastNode, X))"
| "loop_scope K logic (v # vs) lastNode X = do {
     n \<leftarrow> node_at (fst X) v;
     ebind (if n_opType n = OpType_LOGIC then ebind (logic v X) (\<lambda>(_, X). Some (Inr (ND4J_STATUS_OK, X)))
            else executeFlatNode K v X)
       (\<lambda>(status, X). if status \<noteq> ND4J_STATUS_OK then Some (Inr (status, lastNode, X))
          else do { n \<leftarrow> node_at (fst X) v; loop_scope K logic vs (n_id n) X }) }"

text \<open>One round: the condition, and the body when it holds. \<open>Some\<close> status ends the loop.\<close>

definition while_step :: "'t kernels \<Rightarrow> (nat \<Rightarrow> 't session \<Rightarrow> (int \<times> 't session) result) \<Rightarrow> nat list \<Rightarrow> int \<Rightarrow> 't session \<Rightarrow>
    (int option \<times> 't session) result" where
  "while_step K logic conditionNodes scopeBodyIndex X =
     ebind (loop_scope K logic conditionNodes 0 X) (\<lambda>(status, lastNode, X).
       if status \<noteq> ND4J_STATUS_OK then Some (Inr (Some status, X))
       else if \<not> hasVariable_id (g_variableSpace (fst X)) lastNode then Some (Inr (Some ND4J_STATUS_KERNEL_FAILURE, X))
       else ebind (result_array X lastNode) (\<lambda>result.
         ebind (is_zero K (g_memory (fst X)) result) (\<lambda>z.
           if z then Some (Inr (Some ND4J_STATUS_OK, X))
           else ebind (Some (scope_nodes (fst X) scopeBodyIndex)) (\<lambda>nodes.
             if nodes = [] then Some (Inl Out_of_range)
             else ebind (loop_scope K logic (butlast nodes) 0 X) (\<lambda>(status, _, X).
               if status \<noteq> ND4J_STATUS_OK then Some (Inr (Some status, X))
               else ebind (LogicReturn K (last nodes) X) (\<lambda>(_, X). Some (Inr (None, X))))))))"

function while_loop :: "('s \<Rightarrow> (int option \<times> 's) result) \<Rightarrow> int \<Rightarrow> 's \<Rightarrow> (int \<times> 's) result" where
  "while_loop step breaker X =
     (if breaker < 10000000 then
        ebind (step X) (\<lambda>(r, X). (case r of
            Some status \<Rightarrow> Some (Inr (status, X))
          | None \<Rightarrow> while_loop step (breaker + 1) X))
      else Some (Inr (ND4J_STATUS_KERNEL_FAILURE, X)))"
  by pat_completeness auto

termination
  by (relation "measure (\<lambda>(_, b, _). nat (10000000 - b))") auto

declare while_loop.simps [simp del]

definition LogicWhile :: "'t kernels \<Rightarrow> (nat \<Rightarrow> 't session \<Rightarrow> (int \<times> 't session) result) \<Rightarrow> nat \<Rightarrow> 't session \<Rightarrow>
    (int \<times> 't session) result" where
  "LogicWhile K logic node X = do {
     n \<leftarrow> node_at (fst X) node;
     let inputs = to_int (int (length (n_input n)));
     if inputs < 3 then Some (Inr (ND4J_STATUS_BAD_INPUT, X))
     else ebind (in_space (mret (copy_input K n) [0..inputs - 3]) X) (\<lambda>X.
       ebind (Some (input_scope n (inputs - 2))) (\<lambda>scopeConditionIndex.
       ebind (Some (input_scope n (inputs - 1))) (\<lambda>scopeBodyIndex.
       ebind (Some (scope_nodes (fst X) scopeConditionIndex)) (\<lambda>nodes.
         while_loop (while_step K logic nodes scopeBodyIndex) 0 X)))) }"

text \<open>\<open>LogicExecutor::processNode\<close>. A loop may run another one in its scopes: the number is the depth of the
  stack, and running out of it is undefined.\<close>

fun processNode :: "'t kernels \<Rightarrow> nat \<Rightarrow> nat \<Rightarrow> 't session \<Rightarrow> (int \<times> 't session) result" where
  "processNode K 0 node X = None"
| "processNode K (Suc depth) node X = do {
     n \<leftarrow> node_at (fst X) node;
     if n_opNum n = 0 then LogicWhile K (processNode K depth) node X
     else if n_opNum n = 10 then LogicScope X
     else if n_opNum n = 20 then LogicConditional K node X
     else if n_opNum n = 30 then LogicSwitch K node X
     else if n_opNum n = 40 then LogicReturn K node X
     else if n_opNum n = 50 then LogicExpose X
     else if n_opNum n = 60 then LogicMerge node X
     else if n_opNum n = 70 then LogicLoopCond K node X
     else if n_opNum n = 80 then LogicNextIteration node X
     else if n_opNum n = 90 then LogicExit node X
     else if n_opNum n = 100 then LogicEnter node X
     else Some (Inr (ND4J_STATUS_BAD_INPUT, X)) }"

end
