(* ===== verification/Execution.thy ===== *)
theory Execution
  imports Logic
begin

text \<open>
  The execution of a graph (\<open>GraphExecutioner::execute\<close>, \<open>blas/cpu/GraphExecutioner.cpp\<close>) on its own variable
  space: the layers of the graph in turn, skipping nodes that depend on inactive ones or on the branch not taken,
  with the frames of loops and the rewinds between layers. The number of visits of nodes is limited to 10000.
  Profiling, traces and the workspace of the space are not modelled; the clock is an argument.
\<close>

section \<open>Before a node\<close>

text \<open>Where the execution stands between two nodes: the deque of frames, whether the last one was left, the session.\<close>

type_synonym 't place = "int list \<times> bool \<times> 't session"

text \<open>How the loop over nodes goes on.\<close>

datatype control = Continue | Rewind int | Return int

definition leave_frame :: "'t place \<Rightarrow> 't place option" where
  "leave_frame st = (case st of (frames, leftFrame, X) \<Rightarrow>
     if leftFrame then
       (if frames = [] then None
        else do {
          X \<leftarrow> flow_do (\<lambda>p. markFrameActive p (last frames) False) X;
          X \<leftarrow> flow_do (\<lambda>p. forgetFrame p (last frames)) X;
          Some (butlast frames, False, X) })
     else Some (frames, leftFrame, X))"

text \<open>A merge is skipped when both inputs are inactive. It is not marked as inactive itself.\<close>

definition skip_merge :: "'t Node \<Rightarrow> 't session \<Rightarrow> (bool \<times> 't session) result" where
  "skip_merge n X = (case n_input n of
       (i0, _) # (i1, _) # _ \<Rightarrow> do {
         (a0, X) \<leftarrow> flow_ask (\<lambda>p. isNodeActive p i0) X;
         (a1, X) \<leftarrow> (if a0 then Some (True, X) else flow_ask (\<lambda>p. isNodeActive p i1) X);
         Some (Inr (\<not> a0 \<and> \<not> a1, X)) }
     | _ \<Rightarrow> Some (Inl Out_of_range))"

text \<open>Other nodes are skipped when one of their inputs is inactive, or is the output of a divergent node that went
  another way.\<close>

fun skip_inputs :: "int \<Rightarrow> (int \<times> int) list \<Rightarrow> 't session \<Rightarrow> (bool \<times> 't session) result" where
  "skip_inputs id' [] X = Some (Inr (False, X))"
| "skip_inputs id' ((i, out) # rest) X =
     ebind (if i < 0 then Some (Inr True) else hasExternalVariable_id (g_memory (fst X)) (g_variableSpace (fst X)) i) (\<lambda>ext.
       if ext then skip_inputs id' rest X
       else (case map_of (g_mapped (fst X)) i of
           None \<Rightarrow> Some (Inl Out_of_range)
         | Some prevNode \<Rightarrow> do {
             (active, X) \<leftarrow> flow_ask (\<lambda>p. isNodeActive p i) X;
             if \<not> active then do {
               X \<leftarrow> flow_do (\<lambda>p. markNodeActive p id' False) X;
               Some (Inr (True, X)) }
             else do {
               m \<leftarrow> node_at (fst X) prevNode;
               if isDivergencePoint m then do {
                 (b, X) \<leftarrow> flow_ask (\<lambda>p. flow_branch p i) X;
                 if b \<noteq> out then do {
                   X \<leftarrow> flow_do (\<lambda>p. markNodeActive p id' False) X;
                   Some (Inr (True, X)) }
                 else skip_inputs id' rest X }
               else skip_inputs id' rest X } }))"

definition skip_node :: "'t Node \<Rightarrow> 't session \<Rightarrow> (bool \<times> 't session) result" where
  "skip_node n X =
     (if n_opType n = OpType_LOGIC \<and> n_opNum n = 60 then skip_merge n X else skip_inputs (n_id n) (n_input n) X)"

section \<open>A node\<close>

text \<open>A node that was executed is tagged.\<close>

definition executed :: "int \<Rightarrow> 't place \<Rightarrow> (control \<times> 't place) result" where
  "executed id' st = (case st of (frames, leftFrame, X) \<Rightarrow> do {
     X \<leftarrow> flow_do (\<lambda>p. markExecuted p id' True) X;
     Some (Inr (Continue, (frames, leftFrame, X))) })"

text \<open>A status that is not OK ends the execution.\<close>

definition with_status :: "(int \<times> 't session) result \<Rightarrow> int list \<Rightarrow> bool \<Rightarrow>
    ('t session \<Rightarrow> (control \<times> 't place) result) \<Rightarrow> (control \<times> 't place) result" where
  "with_status r frames leftFrame f =
     ebind r (\<lambda>(status, X). if status \<noteq> ND4J_STATUS_OK then Some (Inr (Return status, (frames, leftFrame, X))) else f X)"

definition visit_enter :: "'t kernels \<Rightarrow> nat \<Rightarrow> nat \<Rightarrow> 't Node \<Rightarrow> 't place \<Rightarrow> (control \<times> 't place) result" where
  "visit_enter K depth node n st = (case st of (frames, leftFrame, X) \<Rightarrow>
     let frame_id = n_frameId n in do {
       (frames, X) \<leftarrow> (if frames = [] \<or> last frames \<noteq> frame_id then do {
           X \<leftarrow> flow_do (\<lambda>p. registerFrame p frame_id) X; Some (frames @ [frame_id], X) }
         else Some (frames, X));
       with_status (processNode K depth node X) frames leftFrame (\<lambda>X. executed (n_id n) (frames, leftFrame, X)) })"

definition visit_next :: "'t kernels \<Rightarrow> nat \<Rightarrow> nat \<Rightarrow> 't Node \<Rightarrow> 't place \<Rightarrow> (control \<times> 't place) result" where
  "visit_next K depth node n st = (case st of (frames, leftFrame, X) \<Rightarrow>
     if n_input n = [] then Some (Inl Out_of_range)
     else with_status (processNode K depth node X) frames leftFrame (\<lambda>X.
       if frames = [] then None
       else let frame_id = last frames in do {
         X \<leftarrow> flow_do (\<lambda>p. markNodeActive p (n_id n) True) X;
         X \<leftarrow> flow_do (\<lambda>p. markExecuted p (n_id n) True) X;
         (planned, X) \<leftarrow> flow_ask (\<lambda>p. isRewindPlanned p frame_id) X;
         if \<not> planned then do {
           n \<leftarrow> node_at (fst X) node;
           X \<leftarrow> flow_do (\<lambda>p. planRewind p frame_id True) X;
           position \<leftarrow> i32 (fst (n_rewindLayer n) - 1);
           X \<leftarrow> flow_do (\<lambda>p. setRewindPositionOnce p frame_id position) X;
           Some (Inr (Continue, (frames, leftFrame, X))) }
         else executed (n_id n) (frames, leftFrame, X) }))"

definition visit_exit :: "'t kernels \<Rightarrow> nat \<Rightarrow> nat \<Rightarrow> 't Node \<Rightarrow> 't place \<Rightarrow> (control \<times> 't place) result" where
  "visit_exit K depth node n st = (case st of (frames, leftFrame, X) \<Rightarrow>
     if frames = [] then None
     else let frame_id = last frames in do {
       (active, X) \<leftarrow> flow_ask (\<lambda>p. isFrameActive p frame_id) X;
       if \<not> active then do {
         X \<leftarrow> flow_do (\<lambda>p. markNodeActive p (n_id n) False) X;
         Some (Inr (Continue, (frames, True, X))) }
       else do {
         (planned, X) \<leftarrow> flow_ask (\<lambda>p. isRewindPlanned p frame_id) X;
         if planned then do {
           (position, X) \<leftarrow> flow_ask (\<lambda>p. getRewindPosition p frame_id) X;
           X \<leftarrow> flow_do (\<lambda>p. setRewindPosition p frame_id (-1)) X;
           X \<leftarrow> flow_do (\<lambda>p. planRewind p frame_id False) X;
           Some (Inr (Rewind (to_int position), (frames, leftFrame, X))) }
         else with_status (processNode K depth node X) frames leftFrame (\<lambda>X. executed (n_id n) (frames, True, X)) } })"

definition visit_op :: "'t kernels \<Rightarrow> int \<Rightarrow> nat \<Rightarrow> 't Node \<Rightarrow> 't place \<Rightarrow> (control \<times> 't place) result" where
  "visit_op K time node n st = (case st of (frames, leftFrame, X) \<Rightarrow>
     ebind (executeFlatNode K node X) (\<lambda>(status, X). do {
       X \<leftarrow> flow_do (\<lambda>p. setOuterTime p (n_id n) (k_elapsed K time)) X;
       if status \<noteq> ND4J_STATUS_OK then Some (Inr (Return status, (frames, leftFrame, X)))
       else do {
         X \<leftarrow> (if isDivergencePoint n then map_option snd (flow_ask (\<lambda>p. flow_branch p (n_id n)) X) else Some X);
         executed (n_id n) (frames, leftFrame, X) } }))"

text \<open>A node that is not skipped: it gets the frame it is in, becomes active and runs.\<close>

definition run_node :: "'t kernels \<Rightarrow> nat \<Rightarrow> int \<Rightarrow> nat \<Rightarrow> 't place \<Rightarrow> (control \<times> 't place) result" where
  "run_node K depth time node st = (case st of (frames, leftFrame, X) \<Rightarrow> do {
     n \<leftarrow> node_at (fst X) node;
     let n = (if frames \<noteq> [] \<and> n_frameId n < 0 then setFrameId n (last frames) else n);
     let X = (set_node (fst X) node n, snd X);
     X \<leftarrow> flow_do (\<lambda>p. markNodeActive p (n_id n) True) X;
     if n_opType n = OpType_LOGIC then
       (if n_opNum n = 100 then visit_enter K depth node n (frames, leftFrame, X)
        else if n_opNum n = 80 then visit_next K depth node n (frames, leftFrame, X)
        else if n_opNum n = 90 then visit_exit K depth node n (frames, leftFrame, X)
        else with_status (processNode K depth node X) frames leftFrame (\<lambda>X. executed (n_id n) (frames, leftFrame, X)))
     else visit_op K time node n (frames, leftFrame, X) })"

definition visit :: "'t kernels \<Rightarrow> nat \<Rightarrow> int \<Rightarrow> nat \<Rightarrow> 't place \<Rightarrow> (control \<times> 't place) result" where
  "visit K depth time node st = do {
     n \<leftarrow> node_at (fst (snd (snd st))) node;
     if n_opType n = OpType_LOGIC \<and> n_opNum n = 90 then run_node K depth time node st
     else do {
       (frames, leftFrame, X) \<leftarrow> leave_frame st;
       ebind (skip_node n X) (\<lambda>(shouldSkip, X).
         if shouldSkip then Some (Inr (Continue, (frames, leftFrame, X)))
         else run_node K depth time node (frames, leftFrame, X)) } }"

section \<open>The layers\<close>

definition layer_of :: "'t Graph \<Rightarrow> int \<Rightarrow> nat list" where
  "layer_of G l = (case map_of (g_onion G) l of None \<Rightarrow> [] | Some ps \<Rightarrow> ps)"

text \<open>The loop over the layers and the nodes of a layer, \<open>n\<close> of layer \<open>l\<close> being next. No node changes the layers.
  The answer is the status that the loop was left with, or \<open>None\<close> at its end.\<close>

function run_layers :: "'t kernels \<Rightarrow> nat \<Rightarrow> int \<Rightarrow> nat \<Rightarrow> int \<Rightarrow> 't place \<Rightarrow> (int option \<times> 't session) result" where
  "run_layers K depth l n exec_counter st = (case st of (frames, leftFrame, X) \<Rightarrow>
     if l < to_int (int (length (g_onion (fst X)))) then
       (if n < length (layer_of (fst X) l) then
          (if exec_counter + 1 > 10000 then Some (Inr (Some ND4J_STATUS_KERNEL_FAILURE, X))
           else ebind (visit K depth (exec_counter + 1) (layer_of (fst X) l ! n) st) (\<lambda>(c, st). (case c of
               Continue \<Rightarrow> run_layers K depth l (n + 1) (exec_counter + 1) st
             | Rewind l' \<Rightarrow> do { l'' \<leftarrow> i32 (l' + 1); run_layers K depth l'' 0 (exec_counter + 1) st }
             | Return status \<Rightarrow> Some (Inr (Some status, snd (snd st))))))
        else run_layers K depth (l + 1) 0 exec_counter st)
     else Some (Inr (None, X)))"
  by pat_completeness auto

termination
  by (relation "measures [\<lambda>(_, _, l, n, c, st). nat (10000 - c),
        \<lambda>(_, _, l, n, c, st). nat (to_int (int (length (g_onion (fst (snd (snd st)))))) - l)]") auto

declare run_layers.simps [simp del]

text \<open>The execution. A space without a flow path gets one, which is deleted at the end; the space keeps the pointer.\<close>

definition ensure_flow :: "'t session \<Rightarrow> bool \<times> 't session" where
  "ensure_flow X = (case X of (G, F) \<Rightarrow> (case vs_flow (g_variableSpace G) of
       Some _ \<Rightarrow> (False, (G, F))
     | None \<Rightarrow> (let (f, F) = new_object new_FlowPath F in
         (True, (G\<lparr>g_variableSpace := setFlowPath (g_variableSpace G) (Some f)\<rparr>, F)))))"

definition execute :: "'t kernels \<Rightarrow> nat \<Rightarrow> 't session \<Rightarrow> (int \<times> 't session) result" where
  "execute K depth X = (case ensure_flow X of (tempFlow, (G, F)) \<Rightarrow>
     ebind (buildGraph G) (\<lambda>G.
       ebind (run_layers K depth 0 0 0 ([], False, (G, F))) (\<lambda>(r, (G', F)). (case r of
           Some status \<Rightarrow> Some (Inr (status, (G', F)))
         | None \<Rightarrow> do {
             F \<leftarrow> (if tempFlow then delete_ptr F (vs_flow (g_variableSpace G)) else Some F);
             Some (Inr (ND4J_STATUS_OK, (G', F))) }))))"

end
