(* ===== verification/OpFrames.thy ===== *)
theory OpFrames
  imports DeclarableOps
begin

text \<open>
  What an op leaves alone: the ids of a variable space stay bound to live variables, and the space keeps its
  flow path, as long as the body of the op does so.
\<close>

section \<open>Spaces whose ids are bound to live variables\<close>

definition ids_live :: "'t space \<Rightarrow> bool" where
  "ids_live S \<longleftrightarrow> (case S of (M, s) \<Rightarrow>
     map_ok (vs_variables s) \<and> map_ok (vs_temporary s) \<and>
     (\<forall>i v. map_of (vs_variables s) i = Some v \<longrightarrow> i < 0 \<and> var_at M v \<noteq> None) \<and>
     (\<forall>i v. map_of (vs_temporary s) i = Some v \<longrightarrow> 0 \<le> i \<and> var_at M v \<noteq> None))"

definition vars_grow :: "'t memory \<Rightarrow> 't memory \<Rightarrow> bool" where
  "vars_grow M M' \<longleftrightarrow> (\<forall>v. var_at M v \<noteq> None \<longrightarrow> var_at M' v \<noteq> None)"

definition keeps :: "'t space \<Rightarrow> 't space \<Rightarrow> bool" where
  "keeps S S' \<longleftrightarrow> (ids_live S \<longrightarrow> ids_live S') \<and> vs_flow (snd S') = vs_flow (snd S) \<and> vars_grow (fst S) (fst S')"

lemma keeps_refl [simp, intro]: "keeps S S"
  by (simp add: keeps_def vars_grow_def)

lemma keeps_trans [trans]: "keeps S S' \<Longrightarrow> keeps S' S'' \<Longrightarrow> keeps S S''"
  by (simp add: keeps_def vars_grow_def)

lemma external_defined:
  assumes "ids_live (M, s)"
  shows "\<exists>b. hasExternalVariable_id M s i = Some (Inr b)"
proof (cases "hasVariable_id s i")
  case True
  then obtain v where "getVariable_id s i = Inr (Some v)" "var_at M v \<noteq> None"
    using assms by (fastforce simp: hasVariable_id_iff getVariable_id_def map_at_def ids_live_def)
  then show ?thesis by (auto simp: hasExternalVariable_id_def is_external_def var_at_def pool_simps)
next
  case False
  then show ?thesis by (intro exI [of _ False]) (simp add: hasExternalVariable_id_def)
qed

section \<open>Steps\<close>

named_theorems keeps_intros \<open>steps that keep the ids live\<close>

lemma grow_refl [simp, intro]: "vars_grow M M"
  by (simp add: vars_grow_def)

lemma grow_set_var [simp, intro]: "vars_grow M (set_var M v x)"
  by (simp add: vars_grow_def var_at_def set_var_def)

lemma grow_arrays [simp, intro]: "vars_grow M (M\<lparr>m_arrays := A\<rparr>)"
  by (simp add: vars_grow_def var_at_def)

lemma grow_new_var: "new_var x M = (v, M') \<Longrightarrow> vars_grow M M' \<and> var_at M' v \<noteq> None"
  by (auto simp: vars_grow_def var_at_def new_var_def new_object_def)

lemma grow_trans: "vars_grow M M' \<Longrightarrow> vars_grow M' M'' \<Longrightarrow> vars_grow M M''"
  by (simp add: vars_grow_def)

lemma keeps_memory: "vars_grow M M' \<Longrightarrow> keeps (M, s) (M', s)"
  by (auto simp: keeps_def ids_live_def vars_grow_def)

lemma keeps_fields:
  assumes "vs_variables s' = vs_variables s" "vs_temporary s' = vs_temporary s" "vs_flow s' = vs_flow s" "vars_grow M M'"
  shows "keeps (M, s) (M', s')"
  using assms by (auto simp: keeps_def ids_live_def vars_grow_def)

lemma put_symbolic_fields [simp]:
  "vs_variables (put_symbolic s x v) = vs_variables s" "vs_temporary (put_symbolic s x v) = vs_temporary s"
  "vs_flow (put_symbolic s x v) = vs_flow s" "vs_paired (put_symbolic s x v) = vs_paired s"
  by (simp_all add: put_symbolic_def)

lemma silentPutVariable_fields [simp]:
  "vs_variables (silentPutVariable s p v) = vs_variables s" "vs_temporary (silentPutVariable s p v) = vs_temporary s"
  "vs_flow (silentPutVariable s p v) = vs_flow s"
  by (simp_all add: silentPutVariable_def)

lemma keeps_putVariable_id:
  assumes "putVariable_id (M, s) i v = Some (Inr S')" "var_at M v \<noteq> None"
  shows "keeps (M, s) S'"
proof (cases "map_count i (vs_variables s) > 0 \<or> map_count i (vs_temporary s) > 0")
  case True
  let ?q = "if i < 0 then map_at (vs_variables s) i else map_at (vs_temporary s) i"
  from True assms(1) obtain w l x where "?q = Inr w" "var_at M w = Some l"
    "S' = (M, s) \<or> S' = (set_var M w (setNDArray l (getNDArray x)), s)"
    unfolding putVariable_id_def by (cases ?q) (auto simp: bind_eq_Some_conv split: if_splits)
  then show ?thesis by (auto intro!: keeps_memory)
next
  case False
  then obtain x where x: "var_at M v = Some x" using assms(2) by blast
  have grow: "vars_grow M (set_var M v (setId1 x i))" by simp
  obtain s' where s': "S' = (set_var M v (setId1 x i), s')" "vs_flow s' = vs_flow s"
    "vs_variables s' = (if i < 0 then map_put i v (vs_variables s) else vs_variables s)"
    "vs_temporary s' = (if i < 0 then vs_temporary s else map_put i v (vs_temporary s))"
    using assms(1) False x unfolding putVariable_id_def
    by (auto simp: Let_def split: bind_splits if_splits)
  show ?thesis
    using grow x unfolding s'(1) keeps_def ids_live_def
    by (auto simp: s'(2-4) map_ok_put map_of_put vars_grow_def var_at_def set_var_def split: if_splits)
qed

lemma keeps_putVariable:
  assumes "putVariable (M, s) k v = Some (Inr S')" "var_at M v \<noteq> None"
  shows "keeps (M, s) S'"
proof -
  obtain x where x: "var_at M v = Some x" using assms(2) by blast
  let ?s = "silentPutVariable s k v"
  let ?s' = "if v_placeholder x then ?s\<lparr>vs_placeholders := vs_placeholders ?s @ [v]\<rparr> else ?s"
  have first: "keeps (M, s) (M, ?s')" by (rule keeps_fields) (simp_all add: vars_grow_def)
  show ?thesis
  proof (cases "snd k = 0 \<and> \<not> hasVariable_id ?s' (fst k)")
    case True
    then have "putVariable_id (M, ?s') (fst k) v = Some (Inr S')"
      using assms(1) x by (simp add: putVariable_def Let_def)
    from keeps_putVariable_id [OF this] assms(2) first show ?thesis using keeps_trans by blast
  next
    case False
    then have "S' = (M, (put_symbolic ?s' x v)\<lparr>vs_handles := vs_handles (put_symbolic ?s' x v) @ [v]\<rparr>)"
      using assms(1) x unfolding putVariable_def by (auto simp: Let_def)
    then show ?thesis by (auto intro!: keeps_fields simp: vars_grow_def)
  qed
qed

lemma keeps_put_new:
  assumes "new_var x M = (v, M')" "putVariable (M', s) k v = Some (Inr S')"
  shows "keeps (M, s) S'"
  using keeps_memory [of M M' s] keeps_putVariable [OF assms(2)] grow_new_var [OF assms(1)] keeps_trans by blast

lemma keeps_mret:
  assumes "\<And>x S S'. f x S = Some (Inr S') \<Longrightarrow> keeps (g S) (g S')" "mret f xs S = Some (Inr S')"
  shows "keeps (g S) (g S')"
  using assms(2)
proof (induction xs arbitrary: S)
  case (Cons x xs)
  then obtain S1 where "f x S = Some (Inr S1)" "mret f xs S1 = Some (Inr S')"
    by (auto split: bind_splits sum.splits)
  then show ?case using Cons.IH assms(1) keeps_trans by blast
qed simp

lemma keeps_push:
  assumes "pushNDArrayToVariableSpace (M, s) k a r = Some (Inr S')"
  shows "keeps (M, s) S'"
proof (cases "hasVariable s k")
  case True
  then show ?thesis
    using assms unfolding pushNDArrayToVariableSpace_def
    by (auto simp: ebind_Inr_iff bind_eq_Some_conv intro!: keeps_memory split: if_splits)
      (auto intro: grow_trans)
next
  case False
  obtain v M1 where v: "new_var (Variable_id a None (fst k) (snd k)) M = (v, M1)" by force
  with False assms obtain M2 s2 x where 2: "putVariable (M1, s) k v = Some (Inr (M2, s2))" "S' = (set_var M2 v x, s2)"
    unfolding pushNDArrayToVariableSpace_def by (auto simp: ebind_Inr_iff bind_eq_Some_conv)
  have "keeps (M, s) (M2, s2)" by (rule keeps_put_new [OF v 2(1)])
  then show ?thesis unfolding 2(2) by (rule keeps_trans) (rule keeps_memory, simp)
qed

lemma keeps_ensureVariable:
  assumes "ensureVariable c (M, s) e = Some (Inr (p, S'))"
  shows "keeps (M, s) S'"
proof (cases "hasVariable s (cp_nodeId c, e)")
  case True
  then show ?thesis using assms by (auto simp: ensureVariable_def ebind_Inr_iff Let_def)
next
  case False
  obtain v M1 where v: "new_var (Variable_id None None (cp_nodeId c) e) M = (v, M1)" by force
  with False assms have "putVariable (M1, s) (cp_nodeId c, e) v = Some (Inr S')"
    by (auto simp: ensureVariable_def ebind_Inr_iff Let_def)
  then show ?thesis by (rule keeps_put_new [OF v])
qed

lemma keeps_prepare_output:
  assumes "prepare_output K block out (c, S) = Some (Inr (c', S'))"
  shows "keeps S S'"
proof -
  obtain M s where S: "S = (M, s)" by force
  from assms obtain b M1 s1 where 1: "isValueAvailable block (M, s) c = Some (Inr (b, (M1, s1)))"
    and 2: "(if \<not> b then do {
         a \<leftarrow> new_NDArray_shape (k_zero K) out True;
         let (outArr, A) = new_object a (m_arrays M1);
         ebind (pushNDArrayToVariableSpace (M1\<lparr>m_arrays := A\<rparr>, s1) (cp_nodeId block, c) (Some outArr) True)
           (\<lambda>S. Some (Inr (c + 1, S))) }
       else Some (Inr (c + 1, (M1, s1)))) = Some (Inr (c', S'))"
    by (fastforce simp: prepare_output_def S ebind_Inr_iff)
  have rest: "\<exists>A z. pushNDArrayToVariableSpace (M1\<lparr>m_arrays := A\<rparr>, s1) (cp_nodeId block, c) (Some z) True = Some (Inr S')" if nb: "\<not> b"
  proof -
    from 2 nb obtain a where "(let (outArr, A) = new_object a (m_arrays M1) in
         ebind (pushNDArrayToVariableSpace (M1\<lparr>m_arrays := A\<rparr>, s1) (cp_nodeId block, c) (Some outArr) True)
           (\<lambda>S. Some (Inr (c + 1, S)))) = Some (Inr (c', S'))"
      by (simp only: simp_thms if_True bind_eq_Some_conv) blast
    then show ?thesis by (cases "new_object a (m_arrays M1)") (auto simp: ebind_Inr_iff)
  qed
  obtain p where "ensureVariable block (M, s) c = Some (Inr (p, (M1, s1)))"
    using 1 by (auto simp: isValueAvailable_def ebind_Inr_iff bind_eq_Some_conv)
  then have k: "keeps S (M1, s1)" unfolding S by (rule keeps_ensureVariable)
  show ?thesis
  proof (cases b)
    case True
    then show ?thesis using k 2 by simp
  next
    case False
    then obtain A z where "pushNDArrayToVariableSpace (M1\<lparr>m_arrays := A\<rparr>, s1) (cp_nodeId block, c) (Some z) True = Some (Inr S')"
      using rest by blast
    then have "keeps (M1\<lparr>m_arrays := A\<rparr>, s1) S'" by (rule keeps_push)
    moreover have "keeps (M1, s1) (M1\<lparr>m_arrays := A\<rparr>, s1)" by (rule keeps_memory) simp
    ultimately show ?thesis using k keeps_trans by blast
  qed
qed

lemma keeps_prepareOutputs:
  assumes "prepareOutputs_op K d block S = Some (Inr S')"
  shows "keeps S S'"
proof (cases "cp_isInplace block")
  case True
  then show ?thesis using assms by (simp add: prepareOutputs_op_def)
next
  case False
  then obtain outSha c where "mret (prepare_output K block) outSha (0, S) = Some (Inr (c, S'))"
    using assms by (auto simp: prepareOutputs_op_def ebind_Inr_iff)
  from keeps_mret [where g = snd, OF _ this] keeps_prepare_output show ?thesis by fastforce
qed

section \<open>Ops\<close>

text \<open>A body that keeps what the code of every op leaves alone.\<close>

definition tame :: "'t kernels \<Rightarrow> bool" where
  "tame K \<longleftrightarrow> (\<forall>d ctx S st br S'. k_body K d ctx S = Some (Inr (st, br, S')) \<longrightarrow> keeps S S')"

lemma keeps_body: "tame K \<Longrightarrow> validateAndExecute K d block S = Some (Inr (st, br, S')) \<Longrightarrow> keeps S S'"
  unfolding tame_def validateAndExecute_def by (cases "od_logic d") (simp_all only: if_True if_False, auto)

lemma keeps_op_execute:
  assumes "tame K" "op_execute K d block S = Some (Inr (st, br, S'))"
  shows "keeps S S'"
proof -
  from assms(2) have "S' = S \<or> (\<exists>S1. prepareOutputs_op K d block S = Some (Inr S1) \<and> validateAndExecute K d block S1 = Some (Inr (st, br, S')))"
    unfolding op_execute_def ebind_Inr_iff by (auto split: if_splits simp: ebind_Inr_iff)
  then show ?thesis using keeps_prepareOutputs keeps_body [OF assms(1)] keeps_trans by blast
qed

lemma keeps_boolean_output:
  assumes "boolean_output K ctx e S = Some (Inr S')"
  shows "keeps S S'"
proof -
  obtain M s where S: "S = (M, s)" by force
  let ?k = "(cp_nodeId ctx, e)"
  let ?put = "if \<not> hasVariable s ?k then (let (v, M) = new_var (Variable_array None None) M in putVariable (M, s) ?k v) else Some (Inr (M, s))"
  from assms obtain M1 s1 where 1: "?put = Some (Inr (M1, s1))"
    and 2: "\<exists>A v x. S' = (set_var (M1\<lparr>m_arrays := A\<rparr>) v x, s1) \<or> S' = (M1, s1)"
    unfolding S boolean_output_def by (fastforce simp: ebind_Inr_iff bind_eq_Some_conv Let_def split: if_splits prod.splits)
  have "keeps (M, s) (M1, s1)"
    using 1 keeps_put_new by (auto simp: Let_def split: if_splits prod.splits)
  moreover have "keeps (M1, s1) S'"
    using 2 by (auto intro!: keeps_memory intro: grow_trans)
  ultimately show ?thesis unfolding S by (rule keeps_trans)
qed

lemma keeps_booleans:
  assumes "prepareOutputs_boolean K d ctx S = Some (Inr S')"
  shows "keeps S S'"
  using keeps_mret [where g = id, OF _ assms [unfolded prepareOutputs_boolean_def]] keeps_boolean_output by fastforce

lemma keeps_boolean_execute:
  assumes "tame K" "boolean_execute K d block S = Some (Inr (st, br, S'))"
  shows "keeps S S'"
proof -
  have "S' = S \<or> (\<exists>S1 M s A st' br'. prepareOutputs_boolean K d block S = Some (Inr S1) \<and>
      validateAndExecute K d block S1 = Some (Inr (st', br', (M, s))) \<and> S' = (M\<lparr>m_arrays := A\<rparr>, s))"
    using assms(2) unfolding boolean_execute_def
    by (fastforce simp: ebind_Inr_iff bind_eq_Some_conv split: if_splits)
  then show ?thesis
  proof (elim disjE exE conjE)
    fix S1 M s A st' br'
    assume 1: "prepareOutputs_boolean K d block S = Some (Inr S1)" "validateAndExecute K d block S1 = Some (Inr (st', br', (M, s)))"
      and S': "S' = (M\<lparr>m_arrays := A\<rparr>, s)"
    note keeps_booleans [OF 1(1)]
    also note keeps_body [OF assms(1) 1(2)]
    also have "keeps (M, s) S'" unfolding S' by (rule keeps_memory) simp
    finally show ?thesis .
  qed simp
qed

lemma keeps_run_op: "tame K \<Longrightarrow> run_op K d block S = Some (Inr (st, br, S')) \<Longrightarrow> keeps S S'"
  by (auto simp: run_op_def list_execute_def dest: keeps_op_execute keeps_boolean_execute keeps_body
      split: OpBase.splits if_splits)

end
