(* ===== verification/GraphOrder.thy ===== *)
theory GraphOrder
  imports Graphs
begin

text \<open>
  What building a graph achieves: the layers are numbered without gaps, every placed node is in exactly one layer and
  known under its id, and every op comes in a later layer than the ops it reads from.
\<close>

section \<open>Placements\<close>

text \<open>What of a node decides its place: id, layer, inputs, and its kind (type, flags and scope). \<open>cores\<close> gives it by
  address.\<close>

datatype kind = Kind (kind_type: OpType) bool bool int

type_synonym core = "int \<times> int \<times> (int \<times> int) list \<times> kind"

definition kind :: "'t Node \<Rightarrow> kind" where
  "kind n = Kind (n_opType n) (n_hasExternalInputs n) (n_hasInternalInputs n) (n_scope_id n)"

lemma kind_type [simp]: "kind_type (kind n) = n_opType n"
  by (simp add: kind_def)

lemma kind_setLayer [simp]: "kind (setLayer n l) = kind n" "kind (n\<lparr>n_layer := l\<rparr>) = kind n"
  by (simp_all add: kind_def setLayer_def)

definition core :: "'t Node \<Rightarrow> core" where
  "core n = (n_id n, n_layer n, n_input n, kind n)"

definition cores :: "'t Graph \<Rightarrow> nat \<Rightarrow> core option" where
  "cores G p = map_option core (node_at G p)"

text \<open>The layers of the onion are 0, 1, ... without gaps; a placed node is in the layer it names.\<close>

definition placed :: "(nat \<Rightarrow> core option) \<Rightarrow> (int \<times> nat list) list \<Rightarrow> int \<Rightarrow> nat \<Rightarrow> bool" where
  "placed C onion i p \<longleftrightarrow> (\<exists>l ins ty ps. C p = Some (i, l, ins, ty) \<and> map_of onion l = Some ps \<and> p \<in> set ps)"

definition placement :: "(nat \<Rightarrow> core option) \<Rightarrow> (int \<times> nat list) list \<Rightarrow> (int \<times> nat) list \<Rightarrow> bool" where
  "placement C onion mapped \<longleftrightarrow> map_ok onion \<and> map_ok mapped \<and> onion \<noteq> [] \<and>
     (\<forall>l. map_of onion l \<noteq> None \<longleftrightarrow> 0 \<le> l \<and> l < int (length onion)) \<and>
     (\<forall>i p. map_of mapped i = Some p \<longrightarrow> placed C onion i p) \<and>
     (\<forall>l ps. map_of onion l = Some ps \<longrightarrow> distinct ps \<and>
        (\<forall>p\<in>set ps. \<exists>i ins ty. C p = Some (i, l, ins, ty) \<and> map_of mapped i = Some p))"

text \<open>Every op reads from earlier layers, or from ids in \<open>E\<close>, or from ids that are not positive.\<close>

definition behind :: "(nat \<Rightarrow> core option) \<Rightarrow> (int \<times> nat) list \<Rightarrow> int set \<Rightarrow> int \<Rightarrow> int \<Rightarrow> bool" where
  "behind C mapped E l j \<longleftrightarrow> j \<le> 0 \<or> j \<in> E \<or>
     (\<exists>q k ins ty. map_of mapped j = Some q \<and> C q = Some (j, k, ins, ty) \<and> k < l)"

definition ordered :: "(nat \<Rightarrow> core option) \<Rightarrow> (int \<times> nat) list \<Rightarrow> int set \<Rightarrow> bool" where
  "ordered C mapped E \<longleftrightarrow> (\<forall>i p l ins ty. map_of mapped i = Some p \<longrightarrow> C p = Some (i, l, ins, ty) \<longrightarrow> kind_type ty \<noteq> OpType_LOGIC \<longrightarrow>
     (\<forall>j\<in>fst ` set ins. behind C mapped E l j))"

lemma placement_entry:
  "placement C onion mapped \<Longrightarrow> map_of mapped i = Some p \<Longrightarrow>
   \<exists>l ins ty ps. C p = Some (i, l, ins, ty) \<and> map_of onion l = Some ps \<and> p \<in> set ps \<and> 0 \<le> l \<and> l < int (length onion)"
  unfolding placement_def placed_def by (metis option.distinct(1))

text \<open>Only the nodes that are placed matter.\<close>

lemma placement_cong:
  assumes "placement C onion mapped" "\<And>i q. map_of mapped i = Some q \<Longrightarrow> C' q = C q"
  shows "placement C' onion mapped"
proof -
  have "placed C' onion i q" if "map_of mapped i = Some q" for i q
    using assms that by (auto simp: placement_def placed_def)
  moreover have "\<exists>i ins ty. C' q = Some (i, l, ins, ty) \<and> map_of mapped i = Some q" if q: "map_of onion l = Some ps" "q \<in> set ps" for l ps q
  proof -
    obtain i ins ty where "C q = Some (i, l, ins, ty)" "map_of mapped i = Some q"
      using assms(1) q unfolding placement_def by blast
    then show ?thesis using assms(2) by metis
  qed
  ultimately show ?thesis using assms(1) by (simp add: placement_def)
qed

lemma ordered_cong:
  assumes "ordered C mapped E" "\<And>i q. map_of mapped i = Some q \<Longrightarrow> C' q = C q"
  shows "ordered C' mapped E"
proof -
  have "behind C' mapped E l j" if "behind C mapped E l j" for l j
    using that assms(2) unfolding behind_def by metis
  then show ?thesis using assms unfolding ordered_def by metis
qed

text \<open>A layer next to the others keeps them without gaps.\<close>

definition expanded :: "(int \<times> nat list) list \<Rightarrow> int \<Rightarrow> (int \<times> nat list) list" where
  "expanded onion l = (if map_of onion l \<noteq> None then onion else map_put l [] onion)"

lemma expanded_ok:
  assumes "placement C onion mapped" "0 \<le> l" "l \<le> int (length onion)"
  shows "placement C (expanded onion l) mapped" "map_of (expanded onion l) l \<noteq> None"
    "int (length onion) \<le> int (length (expanded onion l))"
proof -
  have ok: "map_ok onion" using assms(1) by (simp add: placement_def)
  have keys: "map_of onion k \<noteq> None \<longleftrightarrow> 0 \<le> k \<and> k < int (length onion)" for k
    using assms(1) by (simp add: placement_def)
  show "map_of (expanded onion l) l \<noteq> None" by (simp add: expanded_def map_of_put [OF ok])
  show "int (length onion) \<le> int (length (expanded onion l))" by (simp add: expanded_def length_map_put [OF ok])
  show "placement C (expanded onion l) mapped"
  proof (cases "map_of onion l = None")
    case True
    then have l: "l = int (length onion)" using keys [of l] assms(2,3) by auto
    have of: "map_of (expanded onion l) k = (if k = l then Some [] else map_of onion k)" for k
      by (simp add: expanded_def True map_of_put [OF ok])
    have len: "length (expanded onion l) = Suc (length onion)" by (simp add: expanded_def True length_map_put [OF ok])
    have "map_of (expanded onion l) k \<noteq> None \<longleftrightarrow> 0 \<le> k \<and> k < int (length (expanded onion l))" for k
      unfolding of len using keys [of k] l by auto
    moreover have "placed C (expanded onion l) i p" if ip: "map_of mapped i = Some p" for i p
    proof -
      obtain k ins ty ps where "C p = Some (i, k, ins, ty)" "map_of onion k = Some ps" "p \<in> set ps" "k \<noteq> l"
        using placement_entry [OF assms(1) ip] l by auto
      then show ?thesis by (simp add: placed_def of)
    qed
    moreover have "map_ok (expanded onion l)" "expanded onion l \<noteq> []"
      using map_ok_put [OF ok] len by (auto simp: expanded_def)
    ultimately show ?thesis using assms(1) by (auto simp: placement_def of split: if_split_asm)
  next
    case False
    then show ?thesis using assms(1) by (simp add: expanded_def)
  qed
qed

text \<open>A node that is not placed goes to the end of a layer.\<close>

lemma inject_ok:
  assumes ok: "placement C onion mapped" and l: "map_of onion l = Some ps" and i: "map_of mapped i = None"
    and p: "C p = Some (i, l', ins, ty)"
  shows "placement (C(p \<mapsto> (i, l, ins, ty))) (map_put l (ps @ [p]) onion) (map_put i p mapped)"
proof -
  have m: "map_ok onion" "map_ok mapped" using ok by (simp_all add: placement_def)
  have layer: "distinct qs \<and> (\<forall>q\<in>set qs. \<exists>j ins ty. C q = Some (j, k, ins, ty) \<and> map_of mapped j = Some q)"
    if "map_of onion k = Some qs" for k qs
    using ok that unfolding placement_def by blast
  have absent: "p \<notin> set qs" if "map_of onion k = Some qs" for k qs
    using layer [OF that] p i by auto
  have other: "q \<noteq> p" if "map_of mapped j = Some q" for j q
    using placement_entry [OF ok that] absent by blast
  have len: "length (map_put l (ps @ [p]) onion) = length onion" using l by (simp add: length_map_put [OF m(1)])
  have "placed (C(p \<mapsto> (i, l, ins, ty))) (map_put l (ps @ [p]) onion) j q" if "map_of (map_put i p mapped) j = Some q" for j q
  proof (cases "j = i")
    case True
    then have "q = p" using that by (simp add: map_of_put [OF m(2)])
    then show ?thesis using True by (simp add: placed_def map_of_put [OF m(1)])
  next
    case False
    then have q: "map_of mapped j = Some q" using that by (simp add: map_of_put [OF m(2)])
    obtain k ins' ty' qs where e: "C q = Some (j, k, ins', ty')" "map_of onion k = Some qs" "q \<in> set qs"
      using placement_entry [OF ok q] by blast
    then have "\<exists>qs. map_of (map_put l (ps @ [p]) onion) k = Some qs \<and> q \<in> set qs"
      using l by (cases "k = l") (simp_all add: map_of_put [OF m(1)])
    then show ?thesis using e(1) other [OF q] by (simp add: placed_def)
  qed
  moreover have "distinct qs \<and> (\<forall>q\<in>set qs. \<exists>j ins' ty'. (C(p \<mapsto> (i, l, ins, ty))) q = Some (j, k, ins', ty') \<and>
      map_of (map_put i p mapped) j = Some q)" if k: "map_of (map_put l (ps @ [p]) onion) k = Some qs" for k qs
  proof -
    have old: "\<exists>j ins' ty'. (C(p \<mapsto> (i, l, ins, ty))) q = Some (j, k, ins', ty') \<and> map_of (map_put i p mapped) j = Some q"
      if q: "map_of onion k = Some rs" "q \<in> set rs" for q rs
    proof -
      obtain j ins' ty' where "C q = Some (j, k, ins', ty')" "map_of mapped j = Some q" using layer [OF q(1)] q(2) by blast
      moreover from this have "j \<noteq> i" using i by auto
      ultimately show ?thesis using absent [OF q(1)] q(2) by (auto simp: map_of_put [OF m(2)])
    qed
    show ?thesis
    proof (cases "k = l")
      case True
      then have "qs = ps @ [p]" using k by (simp add: map_of_put [OF m(1)])
      then show ?thesis
        using old [of ps] l layer [OF l] absent [OF l] True by (auto simp: map_of_put [OF m(2)])
    next
      case False
      then have "map_of onion k = Some qs" using k by (simp add: map_of_put [OF m(1)])
      then show ?thesis using old layer by blast
    qed
  qed
  moreover have "map_of (map_put l (ps @ [p]) onion) k \<noteq> None \<longleftrightarrow> 0 \<le> k \<and> k < int (length (map_put l (ps @ [p]) onion))" for k
    using ok l by (simp add: len map_of_put [OF m(1)] placement_def) (metis option.distinct(1))
  moreover have "map_put l (ps @ [p]) onion \<noteq> []" using len ok by (auto simp: placement_def)
  ultimately show ?thesis
    using m by (simp add: placement_def map_ok_put)
qed

lemma ordered_inject:
  assumes ok: "placement C onion mapped" "ordered C mapped E" and i: "map_of mapped i = None"
    and p: "C p = Some (i, l', ins, ty)" and ins: "kind_type ty \<noteq> OpType_LOGIC \<Longrightarrow> \<forall>j\<in>fst ` set ins. behind C mapped E l j"
  shows "ordered (C(p \<mapsto> (i, l, ins, ty))) (map_put i p mapped) E"
proof -
  have m: "map_ok mapped" using ok by (simp add: placement_def)
  have other: "q \<noteq> p" if "map_of mapped j = Some q" for j q
    using placement_entry [OF ok(1) that] p i that by auto
  have keep: "behind (C(p \<mapsto> (i, l, ins, ty))) (map_put i p mapped) E k j" if b: "behind C mapped E k j" for k j
  proof (cases "j \<le> 0 \<or> j \<in> E")
    case False
    then obtain q k' ins' ty' where q: "map_of mapped j = Some q" "C q = Some (j, k', ins', ty')" "k' < k"
      using b unfolding behind_def by blast
    then have "j \<noteq> i" "q \<noteq> p" using i other by auto
    then show ?thesis using q by (auto simp: behind_def map_of_put [OF m])
  qed (auto simp: behind_def)
  show ?thesis
    unfolding ordered_def
  proof (intro allI impI ballI)
    fix j q k ins' ty' e
    assume j: "map_of (map_put i p mapped) j = Some q" "(C(p \<mapsto> (i, l, ins, ty))) q = Some (j, k, ins', ty')"
      "kind_type ty' \<noteq> OpType_LOGIC" "e \<in> fst ` set ins'"
    show "behind (C(p \<mapsto> (i, l, ins, ty))) (map_put i p mapped) E k e"
    proof (cases "j = i")
      case True
      then have "q = p" using j(1) by (simp add: map_of_put [OF m])
      then show ?thesis using j(2-4) ins by (intro keep) auto
    next
      case False
      then have q: "map_of mapped j = Some q" using j(1) by (simp add: map_of_put [OF m])
      then have "C q = Some (j, k, ins', ty')" using j(2) other by auto
      then show ?thesis using q ok(2) j(3,4) unfolding ordered_def by (intro keep) blast
    qed
  qed
qed

section \<open>Steps of the build\<close>

definition graph_ok :: "int set \<Rightarrow> 't Graph \<Rightarrow> bool" where
  "graph_ok E G \<longleftrightarrow> placement (cores G) (g_onion G) (g_mapped G) \<and> ordered (cores G) (g_mapped G) E"

text \<open>The ids that are external variables of the graph's space.\<close>

definition externals :: "'t Graph \<Rightarrow> int set" where
  "externals G = {j. hasExternalVariable_id (g_memory G) (g_variableSpace G) j = Some (Inr True)}"

text \<open>A step leaves everything but layers and placed nodes as it was.\<close>

definition same_core :: "core option \<Rightarrow> core option \<Rightarrow> bool" where
  "same_core c d \<longleftrightarrow> map_option (\<lambda>(i, _, ins, ty). (i, ins, ty)) c = map_option (\<lambda>(i, _, ins, ty). (i, ins, ty)) d"

definition same_frame :: "'t Graph \<Rightarrow> 't Graph \<Rightarrow> bool" where
  "same_frame G G' \<longleftrightarrow> g_unmapped G' = g_unmapped G \<and> g_unmappedMap G' = g_unmappedMap G \<and> g_memory G' = g_memory G \<and>
     g_variableSpace G' = g_variableSpace G \<and> p_fresh (g_pool G') = p_fresh (g_pool G) \<and> (\<forall>p. same_core (cores G p) (cores G' p))"

lemma same_core_id:
  "same_core (cores G p) (cores G' p) \<Longrightarrow> node_at G p = Some n \<Longrightarrow>
   \<exists>n'. node_at G' p = Some n' \<and> n_id n' = n_id n \<and> n_input n' = n_input n \<and> kind n' = kind n"
  by (cases "node_at G' p") (auto simp: same_core_def cores_def core_def)

lemma same_frame_refl [simp]: "same_frame G G"
  by (simp add: same_frame_def same_core_def)

lemma same_frame_trans: "same_frame G G' \<Longrightarrow> same_frame G' G'' \<Longrightarrow> same_frame G G''"
  by (simp add: same_frame_def same_core_def)

lemma cores_set_node: "cores (set_node G p n) = (cores G)(p \<mapsto> core n)"
  by (auto simp: cores_def node_at_def set_node_def)

lemma cores_update [simp]:
  "cores (G\<lparr>g_onion := x\<rparr>) = cores G" "cores (G\<lparr>g_mapped := y\<rparr>) = cores G" "cores (G\<lparr>g_unmapped := z\<rparr>) = cores G"
  "cores (G\<lparr>g_onion := x, g_mapped := y\<rparr>) = cores G"
  by (simp_all add: cores_def node_at_def fun_eq_iff)

lemma core_attach_block [simp]: "core (attach_block n) = core n"
  by (auto simp: attach_block_def core_def kind_def getContextPrototype_def Let_def split: option.splits)

lemma set_node_fields [simp]:
  "g_onion (set_node G p n) = g_onion G" "g_mapped (set_node G p n) = g_mapped G" "g_unmapped (set_node G p n) = g_unmapped G"
  "g_unmappedMap (set_node G p n) = g_unmappedMap G" "g_memory (set_node G p n) = g_memory G"
  "g_variableSpace (set_node G p n) = g_variableSpace G" "p_fresh (g_pool (set_node G p n)) = p_fresh (g_pool G)" "node_at (set_node G p n) q = (if q = p then Some n else node_at G q)"
  by (simp_all add: set_node_def node_at_def)

lemma expandOnion_eq: "expandOnion G l = G\<lparr>g_onion := expanded (g_onion G) l\<rparr>"
  by (simp add: expandOnion_def expanded_def)

lemma injectNode_Some:
  assumes "injectNode G p = Some (Inr G')" "node_at G p = Some n" "map_of (g_mapped G) (n_id n) = None"
  obtains ps where "0 \<le> n_layer n" "map_of (g_onion G) (n_layer n) = Some ps"
    "G' = G\<lparr>g_onion := map_put (n_layer n) (ps @ [p]) (g_onion G), g_mapped := map_put (n_id n) p (g_mapped G)\<rparr>"
  using assms by (auto simp: injectNode_def split: if_split_asm option.split_asm)

lemma inject_at_layer:
  assumes ok: "graph_ok E G" and n: "node_at G p = Some n" "map_of (g_mapped G) (n_id n) = None"
    and l: "l \<le> int (length (g_onion G))"
    and ins: "n_opType n \<noteq> OpType_LOGIC \<Longrightarrow> \<forall>j\<in>fst ` set (n_input n). behind (cores G) (g_mapped G) E l j"
    and run: "injectNode (set_node (expandOnion G l) p (setLayer n l)) p = Some (Inr G')"
  shows "graph_ok E G' \<and> same_frame G G' \<and> g_mapped G' = map_put (n_id n) p (g_mapped G) \<and>
    cores G' p = Some (n_id n, l, n_input n, kind n) \<and> node_at G' p = Some (setLayer n l)"
proof -
  let ?G = "set_node (expandOnion G l) p (setLayer n l)"
  let ?on = "expanded (g_onion G) l"
  have C: "cores G p = Some (n_id n, n_layer n, n_input n, kind n)" using n(1) by (simp add: cores_def core_def)
  have n': "node_at ?G p = Some (setLayer n l)" "map_of (g_mapped ?G) (n_id (setLayer n l)) = None"
    using n(2) by (simp_all add: setLayer_def expandOnion_eq)
  obtain ps where ps: "0 \<le> l" "map_of ?on l = Some ps"
    "G' = ?G\<lparr>g_onion := map_put l (ps @ [p]) ?on, g_mapped := map_put (n_id n) p (g_mapped G)\<rparr>"
    using injectNode_Some [OF run n'] by (auto simp: setLayer_def expandOnion_eq)
  have pl: "placement (cores G) ?on (g_mapped G)"
    using ok ps(1) l by (intro expanded_ok) (auto simp: graph_ok_def)
  have G': "cores G' = (cores G)(p \<mapsto> (n_id n, l, n_input n, kind n))"
    by (simp add: ps(3) cores_set_node expandOnion_eq core_def setLayer_def)
  have "placement (cores G') (g_onion G') (g_mapped G')"
    using inject_ok [OF pl ps(2) n(2) C] by (simp only: G') (simp add: ps(3))
  moreover have "ordered (cores G') (g_mapped G') E"
    using ordered_inject [of "cores G" "g_onion G" "g_mapped G" E "n_id n" p "n_layer n" "n_input n" "kind n" l]
      ok n(2) C ins by (simp only: G' graph_ok_def) (simp add: ps(3))
  moreover have "same_core (cores G q) (cores G' q)" for q using C by (simp add: same_core_def G')
  then have "same_frame G G'" by (simp add: same_frame_def ps(3) expandOnion_eq)
  moreover have "node_at G' p = Some (setLayer n l)" using n' by (simp add: ps(3) node_at_def)
  ultimately show ?thesis using G' ps(3) by (auto simp: graph_ok_def)
qed

lemma map_to_layer_ok:
  assumes ok: "graph_ok E G" and n: "node_at G p = Some n" "map_of (g_mapped G) (n_id n) = None"
    and l: "l \<le> int (length (g_onion G))"
    and ins: "n_opType n \<noteq> OpType_LOGIC \<Longrightarrow> \<forall>j\<in>fst ` set (n_input n). behind (cores G) (g_mapped G) E l j"
    and run: "map_to_layer G p l = Some (Inr G')"
  shows "graph_ok E G' \<and> same_frame G G' \<and> g_mapped G' = map_put (n_id n) p (g_mapped G)"
proof -
  have at: "node_at (expandOnion G l) p = Some n" using n(1) by (simp add: node_at_def expandOnion_eq)
  obtain G1 where G1: "injectNode (set_node (expandOnion G l) p (setLayer n l)) p = Some (Inr G1)"
    "(do { n \<leftarrow> node_at G1 p; Some (Inr (if hasCustomOp n then set_node G1 p (attach_block n) else G1)) }) =
       (Some (Inr G') :: 'a Graph result)"
    using run n(1) by (auto simp: map_to_layer_def at ebind_def split: option.splits sum.splits)
  note st = inject_at_layer [OF ok n l ins G1(1)]
  have G': "G' = (if hasCustomOp (setLayer n l) then set_node G1 p (attach_block (setLayer n l)) else G1)"
    using G1(2) st by auto
  have "cores G1 p = Some (core (setLayer n l))" using st by (simp add: cores_def)
  then have "cores G' = cores G1" by (simp add: G' cores_set_node fun_upd_idem)
  then show ?thesis
    using st by (auto simp: graph_ok_def same_frame_def G')
qed

text \<open>The layer found for a node is behind its inputs.\<close>

lemma input_layer_ok:
  assumes ok: "graph_ok E G" and E: "E = externals G"
    and run: "input_layer G n = Some (Inr (Some l))"
  shows "0 \<le> l \<and> l < int (length (g_onion G)) \<and>
    (n_opType n \<noteq> OpType_LOGIC \<longrightarrow> (\<forall>j\<in>fst ` set (n_input n). behind (cores G) (g_mapped G) E (l + 1) j))"
proof -
  let ?f = "\<lambda>(nodeId, _ :: int) acc. (case acc of
       None \<Rightarrow> Some (Inr None)
     | Some maxLayer \<Rightarrow>
         (case map_of (g_mapped G) nodeId of
            Some p \<Rightarrow> do { i \<leftarrow> node_at G p; Some (Inr (Some (if maxLayer < n_layer i then n_layer i else maxLayer))) }
          | None \<Rightarrow>
              if n_opType n = OpType_LOGIC then Some (Inr (Some maxLayer))
              else if nodeId > 0 then
                ebind (hasExternalVariable_id (g_memory G) (g_variableSpace G) nodeId) (\<lambda>ext.
                  Some (Inr (if \<not> ext then None else Some maxLayer)))
              else Some (Inr (Some maxLayer)))) :: (int option) result"
  let ?N = "int (length (g_onion G))"
  have none: "mret ?f ins None = Some (Inr r) \<Longrightarrow> r = None" for ins r
    by (induction ins) auto
  have step: "\<exists>b. r = Inr (Some b) \<and> a \<le> b \<and> (a < ?N \<longrightarrow> b < ?N) \<and>
      (n_opType n \<noteq> OpType_LOGIC \<longrightarrow> behind (cores G) (g_mapped G) E (b + 1) (fst x)) \<or> r = Inr None \<or> (\<exists>e. r = Inl e)"
    if f: "?f x (Some a) = Some r" for x a r
  proof (cases "map_of (g_mapped G) (fst x)")
    case None
    then show ?thesis
      using f E by (cases x)
        (auto simp: behind_def externals_def ebind_def split: if_split_asm option.split_asm sum.split_asm)
  next
    case (Some p)
    obtain k ins ty ps where p: "cores G p = Some (fst x, k, ins, ty)" "k < ?N" "0 \<le> k"
      using placement_entry [of "cores G" "g_onion G" "g_mapped G"] ok Some unfolding graph_ok_def by blast
    then obtain i where i: "node_at G p = Some i" "n_layer i = k" by (auto simp: cores_def core_def)
    then have "r = Inr (Some (if a < k then k else a))" using f Some by (cases x) (auto split: if_split_asm)
    then show ?thesis using p Some by (auto simp: behind_def)
  qed
  have mono: "behind (cores G) (g_mapped G) E k' j" if "behind (cores G) (g_mapped G) E k j" "k \<le> k'" for k k' j
    using that unfolding behind_def by (meson order_less_le_trans)
  have loop: "mret ?f ins (Some a) = Some (Inr (Some b)) \<Longrightarrow> a \<le> b \<and> (a < ?N \<longrightarrow> b < ?N) \<and>
      (n_opType n \<noteq> OpType_LOGIC \<longrightarrow> (\<forall>j\<in>fst ` set ins. behind (cores G) (g_mapped G) E (b + 1) j))" for ins a b
  proof (induction ins arbitrary: a)
    case (Cons x ins)
    obtain r where r: "?f x (Some a) = Some r" using Cons.prems by (cases "?f x (Some a)") simp_all
    have rest: "(case r of Inl e \<Rightarrow> Some (Inl e) | Inr s \<Rightarrow> mret ?f ins s) = Some (Inr (Some b))"
      using Cons.prems unfolding mret.simps(2) r by simp
    have r': "r \<noteq> Inr None" "r \<noteq> Inl e" for e using rest none [of ins "Some b"] by auto
    obtain c where c: "r = Inr (Some c)" "a \<le> c" "a < ?N \<longrightarrow> c < ?N"
      "n_opType n \<noteq> OpType_LOGIC \<longrightarrow> behind (cores G) (g_mapped G) E (c + 1) (fst x)"
      using step [OF r] r' by blast
    have "c \<le> b \<and> (c < ?N \<longrightarrow> b < ?N) \<and>
        (n_opType n \<noteq> OpType_LOGIC \<longrightarrow> (\<forall>j\<in>fst ` set ins. behind (cores G) (g_mapped G) E (b + 1) j))"
      using rest c(1) by (intro Cons.IH) simp
    then show ?case using c mono [of "c + 1" "fst x" "b + 1"] by auto
  qed simp
  have "0 < ?N" using ok by (simp add: graph_ok_def placement_def)
  then show ?thesis using loop [of "n_input n" 0 l] run by (simp add: input_layer_def)
qed

text \<open>One step of the pass places its node or leaves the graph as it is.\<close>

lemma to_int_le: "0 \<le> v \<Longrightarrow> to_int v \<le> v"
  using zmod_le_nonneg_dividend [of "v + 2147483648" 4294967296] by (simp add: to_int_def)

lemma build_step_ok:
  assumes ok: "graph_ok E G" "E = externals G" and n: "node_at G p = Some n" "map_of (g_mapped G) (n_id n) = None"
    and run: "build_step p (c, G, queue) = Some (Inr (c', G', queue'))"
  shows "graph_ok E G' \<and> same_frame G G' \<and>
    (G' = G \<and> queue' = queue \<or>
     g_mapped G' = map_put (n_id n) p (g_mapped G) \<and> set queue' = insert (n_id n) (set queue))"
proof -
  have pos: "0 < int (length (g_onion G))" using ok by (simp add: graph_ok_def placement_def)
  have placed: "graph_ok E G1 \<and> same_frame G G1 \<and> g_mapped G1 = map_put (n_id n) p (g_mapped G)"
    if "map_to_layer G p l = Some (Inr G1)" "l \<le> int (length (g_onion G))"
      "n_opType n \<noteq> OpType_LOGIC \<Longrightarrow> \<forall>j\<in>fst ` set (n_input n). behind (cores G) (g_mapped G) E l j" for l G1
    using map_to_layer_ok [OF ok(1) n that(2,3,1)] .
  have c: "\<not> c \<ge> length (g_unmappedMap G)" using run by (auto simp: build_step_def split: if_split_asm)
  show ?thesis
  proof (cases "\<exists>iNode x. n_input n = [(iNode, x)]")
    case True
    then obtain iNode x where ins: "n_input n = [(iNode, x)]" by blast
    obtain ext where ext: "(if iNode < 0 then Some (Inr True) else hasExternalVariable_id (g_memory G) (g_variableSpace G) iNode) = Some (Inr ext)"
      "(if ext then ebind (map_to_layer G p (to_int (int (length (g_onion G))))) (\<lambda>G. Some (Inr (Suc c, G, queue @ [n_id n])))
        else (case map_of (g_mapped G) iNode of
            None \<Rightarrow> Some (Inr (Suc c, G, queue))
          | Some p' \<Rightarrow> do {
              parent \<leftarrow> node_at G p';
              maxLayer \<leftarrow> i32 (n_layer parent + 1);
              ebind (map_to_layer G p maxLayer) (\<lambda>G. Some (Inr (Suc c, G, queue @ [n_id n, n_id n]))) })) =
       Some (Inr (c', G', queue'))"
      using run c n(1) ins by (simp add: build_step_def ebind_Inr_iff) blast
    show ?thesis
    proof (cases ext)
      case True
      then have "iNode < 0 \<or> iNode \<in> E" using ext(1) ok(2) by (auto simp: externals_def split: if_split_asm)
      moreover have "to_int (int (length (g_onion G))) \<le> int (length (g_onion G))" using to_int_le [of "int (length (g_onion G))"] by simp
      ultimately show ?thesis
        using ext(2) True placed [of "to_int (int (length (g_onion G)))"] ins
        by (auto simp: behind_def ebind_Inr_iff)
    next
      case False
      show ?thesis
      proof (cases "map_of (g_mapped G) iNode")
        case None
        then show ?thesis using ext(2) False ok(1) by auto
      next
        case (Some q)
        obtain k ins' ty where q: "cores G q = Some (iNode, k, ins', ty)" "k < int (length (g_onion G))"
          using placement_entry [of "cores G" "g_onion G" "g_mapped G"] ok(1) Some unfolding graph_ok_def by blast
        then obtain m where m: "node_at G q = Some m" "n_layer m = k" by (auto simp: cores_def core_def)
        have "behind (cores G) (g_mapped G) E (k + 1) iNode" using q Some by (auto simp: behind_def)
        then show ?thesis
          using ext(2) False Some m q(2) placed [of "k + 1"] ins
          by (auto simp: ebind_Inr_iff i32_def split: if_split_asm)
      qed
    qed
  next
    case False
    have multi: "(case ins of [(iNode, y)] \<Rightarrow> f iNode y | _ \<Rightarrow> g) = g" if "\<not> (\<exists>iNode x. ins = [(iNode, x)])"
      for f g and ins :: "(int \<times> int) list"
      using that by (auto split: list.split)
    obtain r where r: "input_layer G n = Some (Inr r)"
      "(case r of None \<Rightarrow> Some (Inr (Suc c, G, queue))
        | Some l \<Rightarrow> do {
            maxLayer \<leftarrow> i32 (l + 1);
            ebind (map_to_layer G p maxLayer) (\<lambda>G. Some (Inr (Suc c, G, queue @ [n_id n]))) }) = Some (Inr (c', G', queue'))"
      using run c n(1) by (simp add: build_step_def multi [OF False] ebind_Inr_iff) blast
    show ?thesis
    proof (cases r)
      case None
      then show ?thesis using r(2) ok(1) by simp
    next
      case (Some l)
      note il = input_layer_ok [OF ok r(1) [unfolded Some]]
      then show ?thesis
        using r(2) Some placed [of "l + 1"]
        by (auto simp: ebind_Inr_iff i32_def split: if_split_asm)
    qed
  qed
qed

section \<open>Building\<close>

text \<open>The nodes that wait to be placed are there under their ids, and no id of theirs is placed.\<close>

definition waiting :: "'t Graph \<Rightarrow> (int \<times> nat) list \<Rightarrow> bool" where
  "waiting G us \<longleftrightarrow> distinct (map fst us) \<and>
     (\<forall>(i, p)\<in>set us. map_of (g_mapped G) i = None \<and> (\<exists>n. node_at G p = Some n \<and> n_id n = i))"

lemma waitingD:
  "waiting G us \<Longrightarrow> (i, p) \<in> set us \<Longrightarrow> map_of (g_mapped G) i = None \<and> (\<exists>n. node_at G p = Some n \<and> n_id n = i)"
  unfolding waiting_def by fast

lemma waiting_step:
  assumes "waiting G ((i, p) # us)" "same_frame G G'"
    "\<And>j. map_of (g_mapped G') j = (if j \<in> Q then map_of [(i, p)] j else map_of (g_mapped G) j)" "Q \<subseteq> {i}"
  shows "waiting G' us"
proof -
  have "\<exists>n. node_at G' q = Some n \<and> n_id n = j" if "(j, q) \<in> set us" for j q
  proof -
    have "(j, q) \<in> set ((i, p) # us)" using that by simp
    then obtain n where "node_at G q = Some n" "n_id n = j" using waitingD [OF assms(1)] by blast
    moreover have "same_core (cores G q) (cores G' q)" using assms(2) by (simp add: same_frame_def)
    ultimately show ?thesis using same_core_id by blast
  qed
  moreover have "map_of (g_mapped G') j = None" if "(j, q) \<in> set us" for j q
    using assms(1,3,4) that by (auto simp: waiting_def image_iff split: if_split_asm)
  ultimately show ?thesis using assms(1) by (auto simp: waiting_def)
qed

lemma externals_frame: "same_frame G G' \<Longrightarrow> externals G' = externals G"
  by (simp add: externals_def same_frame_def)

lemma build_pass_loop:
  assumes "graph_ok E G" "E = externals G" "waiting G us"
    and "mret (\<lambda>(_, node). build_step node) us (c, G, queue) = Some (Inr (c', G', queue'))"
  shows "graph_ok E G' \<and> same_frame G G' \<and> (\<exists>Q. Q \<subseteq> fst ` set us \<and> set queue' = set queue \<union> Q \<and>
    (\<forall>i. map_of (g_mapped G') i = (if i \<in> Q then map_of us i else map_of (g_mapped G) i)))"
  using assms
proof (induction us arbitrary: c G queue)
  case Nil
  then show ?case by auto
next
  case (Cons u us)
  obtain i p where u: "u = (i, p)" by (cases u)
  obtain n where n: "node_at G p = Some n" "n_id n = i" "map_of (g_mapped G) (n_id n) = None"
    using Cons.prems(3) by (auto simp: waiting_def u)
  obtain c1 G1 queue1 where st: "build_step p (c, G, queue) = Some (Inr (c1, G1, queue1))"
    "mret (\<lambda>(_, node). build_step node) us (c1, G1, queue1) = Some (Inr (c', G', queue'))"
    using Cons.prems(4) u by (auto split: bind_splits sum.splits)
  note step = build_step_ok [OF Cons.prems(1,2) n(1,3) st(1)]
  have m: "map_ok (g_mapped G)" using Cons.prems(1) by (simp add: graph_ok_def placement_def)
  obtain Q where Q: "Q \<subseteq> {i}" "set queue1 = set queue \<union> Q"
    "\<And>j. map_of (g_mapped G1) j = (if j \<in> Q then map_of [(i, p)] j else map_of (g_mapped G) j)"
  proof (cases "G1 = G \<and> queue1 = queue")
    case True
    then show ?thesis using that [of "{}"] by simp
  next
    case False
    then show ?thesis using that [of "{i}"] step n(2) by (auto simp: map_of_put [OF m])
  qed
  have w: "waiting G1 us"
    using waiting_step [OF _ _ Q(3,1), of us] Cons.prems(3) step u by auto
  have e: "E = externals G1" using Cons.prems(2) externals_frame step by blast
  obtain Q' where Q': "graph_ok E G'" "same_frame G1 G'" "Q' \<subseteq> fst ` set us" "set queue' = set queue1 \<union> Q'"
    "\<And>j. map_of (g_mapped G') j = (if j \<in> Q' then map_of us j else map_of (g_mapped G1) j)"
    using Cons.IH [OF _ e w st(2)] step by auto
  have "i \<notin> fst ` set us" using Cons.prems(3) by (auto simp: waiting_def u)
  then have "map_of (g_mapped G') j = (if j \<in> Q \<union> Q' then map_of (u # us) j else map_of (g_mapped G) j)" for j
    using Q(1,3) Q'(3,5) by (auto simp: u)
  then show ?case
    using Q' Q(1,2) step same_frame_trans u by (intro conjI exI [of _ "Q \<union> Q'"]) auto
qed

lemma map_of_filter_keys: "map_of (filter (\<lambda>(k, _). k \<notin> Q) m) i = (if i \<in> Q then None else map_of m i)"
  by (induction m) auto

text \<open>After a pass, some of the waiting nodes are placed and the others still wait.\<close>

definition known_nodes :: "'t Graph \<Rightarrow> int \<Rightarrow> nat option" where
  "known_nodes G = map_of (g_mapped G) ++ map_of (g_unmapped G)"

lemma build_pass_ok:
  assumes ok: "graph_ok E G" "E = externals G" "waiting G (g_unmapped G)"
    and run: "build_pass G = Some (Inr G')"
  shows "graph_ok E G' \<and> E = externals G' \<and> waiting G' (g_unmapped G') \<and> known_nodes G' = known_nodes G \<and>
    (\<forall>p. same_core (cores G p) (cores G' p))"
proof -
  let ?us = "g_unmapped G"
  obtain c G1 queue where r: "mret (\<lambda>(_, node). build_step node) ?us (0, G, []) = Some (Inr (c, G1, queue))"
    "G' = G1\<lparr>g_unmapped := filter (\<lambda>(k, _). k \<notin> set queue) (g_unmapped G1)\<rparr>"
    using run by (auto simp: build_pass_def ebind_Inr_iff)
  obtain Q where Q: "graph_ok E G1" "same_frame G G1" "Q \<subseteq> fst ` set ?us" "set queue = Q"
    "\<And>i. map_of (g_mapped G1) i = (if i \<in> Q then map_of ?us i else map_of (g_mapped G) i)"
    using build_pass_loop [OF ok r(1)] by auto
  have us: "g_unmapped G' = filter (\<lambda>(k, _). k \<notin> Q) ?us" "g_mapped G' = g_mapped G1" "cores G' = cores G1"
    using Q(2,4) by (simp_all add: r(2) same_frame_def)
  have "graph_ok E G'" using Q(1) by (simp add: graph_ok_def us(2,3)) (simp add: r(2))
  moreover have "externals G' = externals G1" by (simp add: externals_def r(2))
  moreover have "waiting G' (g_unmapped G')"
  proof -
    have "\<exists>n. node_at G' p = Some n \<and> n_id n = i" if ip: "(i, p) \<in> set ?us" for i p
    proof -
      obtain n where "node_at G p = Some n" "n_id n = i" using waitingD [OF ok(3) ip] by blast
      moreover have "same_core (cores G p) (cores G1 p)" using Q(2) by (simp add: same_frame_def)
      moreover have "node_at G' p = node_at G1 p" by (simp add: r(2) node_at_def)
      ultimately show ?thesis by (auto dest!: same_core_id)
    qed
    moreover have "distinct (map fst (g_unmapped G'))"
      using ok(3) by (auto simp: us(1) waiting_def distinct_map_filter)
    ultimately show ?thesis using ok(3) Q(5) by (auto simp: waiting_def us)
  qed
  moreover have "known_nodes G' i = known_nodes G i" for i
  proof (cases "i \<in> Q")
    case True
    then have "map_of ?us i \<noteq> None" using Q(3) by (auto simp: map_of_eq_None_iff)
    then obtain p where p: "map_of ?us i = Some p" by blast
    then show ?thesis using True by (simp add: known_nodes_def us Q(5) map_of_filter_keys map_add_def)
  next
    case False
    then show ?thesis by (simp add: known_nodes_def us Q(5) map_of_filter_keys map_add_def split: option.split)
  qed
  moreover have "same_core (cores G p) (cores G' p)" for p using Q(2) us(3) by (simp add: same_frame_def)
  ultimately show ?thesis using ok(2) externals_frame [OF Q(2)] by auto
qed

lemma build_loop_ok:
  assumes "graph_ok E G" "E = externals G" "waiting G (g_unmapped G)" "build_loop lim cnt G = Some (Inr G')"
  shows "graph_ok E G' \<and> E = externals G' \<and> g_unmapped G' = [] \<and> known_nodes G' = known_nodes G \<and>
    (\<forall>p. same_core (cores G p) (cores G' p))"
  using assms
proof (induction lim cnt G rule: build_loop.induct)
  case (1 lim cnt G)
  show ?case
  proof (cases "g_unmapped G = []")
    case True
    then show ?thesis using "1.prems" by (subst (asm) build_loop.simps) (simp add: same_core_def)
  next
    case False
    then obtain G1 where G1: "build_pass G = Some (Inr G1)" "\<not> Suc cnt > lim" "build_loop lim (Suc cnt) G1 = Some (Inr G')"
      using "1.prems"(4) by (subst (asm) build_loop.simps) (auto simp: ebind_Inr_iff split: if_split_asm)
    note p = build_pass_ok [OF "1.prems"(1-3) G1(1)]
    then show ?thesis using "1.IH" [OF False G1(1,2)] G1(3) by (auto simp: same_core_def)
  qed
qed

text \<open>The outputs of a graph change neither its nodes' places nor what is placed.\<close>

definition same_places :: "'t Graph \<Rightarrow> 't Graph \<Rightarrow> bool" where
  "same_places G G' \<longleftrightarrow> cores G' = cores G \<and> g_onion G' = g_onion G \<and> g_mapped G' = g_mapped G \<and>
     g_unmapped G' = g_unmapped G \<and> g_memory G' = g_memory G \<and> g_variableSpace G' = g_variableSpace G \<and> g_built G' = g_built G"

lemma same_places_refl [simp]: "same_places G G"
  by (simp add: same_places_def)

lemma mfor_same_places:
  assumes "\<And>x H H'. same_places G H \<Longrightarrow> f x H = Some H' \<Longrightarrow> same_places H H'" "mfor f xs G = Some G'"
  shows "same_places G G'"
proof -
  have "same_places G H \<Longrightarrow> mfor f xs H = Some G' \<Longrightarrow> same_places G G'" for H
  proof (induction xs arbitrary: H)
    case (Cons x xs)
    then obtain H1 where "f x H = Some H1" "mfor f xs H1 = Some G'" by (auto split: bind_splits)
    then show ?case using Cons.IH [of H1] Cons.prems(1) assms(1) [of H x H1] by (simp add: same_places_def)
  qed simp
  then show ?thesis using assms(2) by (simp add: same_places_def)
qed

lemma push_same_places: "same_places G (pushToOutputOnce G i)"
  by (auto simp: pushToOutputOnce_def same_places_def cores_def node_at_def fun_eq_iff)

lemma pick_same_places: "node_at G q = Some m \<Longrightarrow> same_places G (set_node G q (pickOutputOnce m v))"
proof -
  assume q: "node_at G q = Some m"
  have "core (pickOutputOnce m v) = core m" by (simp add: pickOutputOnce_def pickOutput_def core_def kind_def Let_def)
  then have "cores (set_node G q (pickOutputOnce m v)) = cores G"
    using q by (simp add: cores_set_node cores_def fun_upd_idem_iff)
  then show ?thesis by (simp add: same_places_def) (simp add: set_node_def)
qed

lemma prepareOutputs_same_places: "prepareOutputs G = Some G' \<Longrightarrow> same_places G G'"
proof -
  assume run: "prepareOutputs G = Some G'"
  have trans: "same_places G H \<Longrightarrow> same_places H G' \<Longrightarrow> same_places G G'" for H by (simp add: same_places_def)
  have vars: "mfor (\<lambda>v G. do { x \<leftarrow> var_at (g_memory G) v; Some (pushToOutputOnce G (v_id x)) }) vs G = Some H \<Longrightarrow> same_places G H" for vs G H
    by (rule mfor_same_places) (auto split: bind_splits intro: push_same_places)
  have nodes: "mfor (\<lambda>p G. do { n \<leftarrow> node_at G p; Some (pushToOutputOnce G (n_id n)) }) ps G = Some H \<Longrightarrow> same_places G H" for ps G H
    by (rule mfor_same_places) (auto split: bind_splits intro: push_same_places)
  have ends: "mfor (\<lambda>p G. do { n \<leftarrow> node_at G p; Some (if \<not> n_hasInternalOutputs n then pushToOutputOnce G (n_id n) else G) }) ps G = Some H
      \<Longrightarrow> same_places G H" for ps G H
    by (rule mfor_same_places) (auto split: bind_splits if_split_asm intro: push_same_places)
  have pick: "pick_outputs G v = Some H \<Longrightarrow> same_places G H" for v G H
    unfolding pick_outputs_def
    by (auto split: option.split_asm bind_splits elim!: mfor_same_places [rotated] intro: pick_same_places)
  have picks: "mfor (\<lambda>v G. pick_outputs G v) vs G = Some H \<Longrightarrow> same_places G H" for vs G H
    by (rule mfor_same_places) (auto intro: pick)
  show ?thesis
    using run unfolding prepareOutputs_def
    by (auto split: if_split_asm bind_splits dest!: vars nodes ends picks intro: trans)
qed

lemma buildGraph_ok:
  assumes ok: "graph_ok E G" "E = externals G" "waiting G (g_unmapped G)" "\<not> g_built G"
    and run: "buildGraph G = Some (Inr G')"
  shows "graph_ok E G' \<and> E = externals G' \<and> g_built G' \<and> g_unmapped G' = [] \<and> map_of (g_mapped G') = known_nodes G \<and>
    (\<forall>p. same_core (cores G p) (cores G' p))"
proof -
  obtain G1 where G1: "build_loop (2 * length (g_unmapped G)) 0 G = Some (Inr G1)"
    "prepareOutputs (G1\<lparr>g_built := True\<rparr>) = Some G'"
    using run ok(4) by (auto simp: buildGraph_def ebind_Inr_iff split: if_split_asm)
  note l = build_loop_ok [OF ok(1-3) G1(1)]
  have c: "cores (G1\<lparr>g_built := True\<rparr>) = cores G1" by (simp add: cores_def node_at_def fun_eq_iff)
  have p: "same_places (G1\<lparr>g_built := True\<rparr>) G'" by (rule prepareOutputs_same_places [OF G1(2)])
  then show ?thesis
    using l by (auto simp: same_places_def graph_ok_def c externals_def known_nodes_def)
qed

section \<open>Adding nodes\<close>

text \<open>All of a graph that decides the places of its nodes.\<close>

definition same_plan :: "'t Graph \<Rightarrow> 't Graph \<Rightarrow> bool" where
  "same_plan G G' \<longleftrightarrow> cores G' = cores G \<and> g_onion G' = g_onion G \<and> g_mapped G' = g_mapped G \<and>
     g_unmapped G' = g_unmapped G \<and> g_built G' = g_built G \<and> p_fresh (g_pool G') = p_fresh (g_pool G)"

lemma same_plan_refl [simp]: "same_plan G G"
  by (simp add: same_plan_def)

lemma same_plan_trans: "same_plan G H \<Longrightarrow> same_plan H G' \<Longrightarrow> same_plan G G'"
  by (simp add: same_plan_def)

lemma same_plan_update [simp]:
  "same_plan G (G\<lparr>g_memory := a\<rparr>)" "same_plan G (G\<lparr>g_variableSpace := b\<rparr>)" "same_plan G (G\<lparr>g_memory := a, g_variableSpace := b\<rparr>)"
  "same_plan G (G\<lparr>g_memory := a, g_handles := c, g_nodes := d\<rparr>)" "same_plan G (G\<lparr>g_autos := e\<rparr>)" "same_plan G (G\<lparr>g_output := f\<rparr>)"
  "same_plan G (G\<lparr>g_mappedScopes := h, g_scopes := k\<rparr>)" "same_plan G (G\<lparr>g_scopes := k\<rparr>)"
  by (simp_all add: same_plan_def cores_def node_at_def fun_eq_iff)

lemma on_space_plan: "on_space f G = Some (Inr G') \<Longrightarrow> same_plan G G'"
  by (auto simp: on_space_def ebind_Inr_iff)

lemma attach_plan: "node_at G p = Some n \<Longrightarrow> same_plan G (set_node G p (attach_block n))"
proof -
  assume n: "node_at G p = Some n"
  then have "cores (set_node G p (attach_block n)) = cores G"
    by (simp add: cores_set_node cores_def fun_upd_idem_iff)
  then show ?thesis by (simp add: same_plan_def) (simp add: set_node_def)
qed

lemma add_variables_plan:
  assumes run: "add_variables G p = Some (Inr G')"
  shows "same_plan G G'"
proof -
  obtain n where n: "node_at G p = Some n" using run by (auto simp: add_variables_def split: bind_splits)
  obtain v M where v: "new_var (markRemovable (setName (Variable_id None (Some (n_name n)) (n_id n) 0) (n_name n)) False) (g_memory G) = (v, M)"
    by (metis surj_pair)
  let ?G = "G\<lparr>g_memory := M, g_handles := g_handles G @ [p], g_nodes := g_nodes G @ [n_id n]\<rparr>"
  obtain G1 where G1: "on_space (\<lambda>S. putVariable_id S (n_id n) v) ?G = Some (Inr G1)"
    and rest: "(if n_opType n = OpType_LOGIC \<and> n_opNum n = 0 then
         on_space (mret (\<lambda>e S. put_output (n_id n) e False S) [0..int (length (n_input n)) - 3]) G1
       else (case n_customOp n of
           None \<Rightarrow> Some (Inr G1)
         | Some op \<Rightarrow>
             (let G = set_node G1 p (attach_block n) in
              if od_numberOfOutputs op > 1 then
                on_space (mret (\<lambda>e S. put_output (n_id n) e (n_isInplace n) S) [1..od_numberOfOutputs op - 1]) G
              else on_space (mret (share_external v) (n_output n)) G))) = Some (Inr G')"
    using run n v by (auto simp: add_variables_def ebind_Inr_iff Let_def)
  have 1: "same_plan G G1" using same_plan_trans [OF _ on_space_plan [OF G1]] by simp
  have "node_at G1 p = Some n" using G1 n by (auto simp: on_space_def ebind_Inr_iff node_at_def)
  then have "same_plan G1 (set_node G1 p (attach_block n))" by (rule attach_plan)
  then have "same_plan G1 G'"
    using rest by (auto simp: Let_def split: if_split_asm option.split_asm dest!: on_space_plan intro: same_plan_trans)
  then show ?thesis using 1 same_plan_trans by blast
qed

lemma add_auto_output_plan:
  assumes "add_auto_output G n = Some (Inr G')"
  shows "same_plan G G'"
proof -
  have 1: "same_plan G G1 \<Longrightarrow> on_space f (G1\<lparr>g_memory := M\<rparr>) = Some (Inr G2) \<Longrightarrow> same_plan G (G2\<lparr>g_autos := x\<rparr>)" for G1 f M G2 x
    using on_space_plan [of f "G1\<lparr>g_memory := M\<rparr>" G2] same_plan_trans [of G G1 "G1\<lparr>g_memory := M\<rparr>"]
      same_plan_trans [of G "G1\<lparr>g_memory := M\<rparr>" G2] same_plan_trans [of G G2 "G2\<lparr>g_autos := x\<rparr>"] by simp
  show ?thesis
    using assms
    by (auto simp: add_auto_output_def ebind_Inr_iff bind_eq_Some_conv Let_def split: if_split_asm prod.split_asm intro!: 1)
qed

lemma add_outputs_plan:
  assumes "add_outputs G p = Some (Inr G')"
  shows "same_plan G G'"
proof -
  have push: "same_plan G (pushToOutputOnce G i)" for G :: "'a Graph" and i by (simp add: pushToOutputOnce_def)
  have pushes: "same_plan G (foldl (\<lambda>G (i, _). if i < 0 then pushToOutputOnce G i else G) G xs)" for G :: "'a Graph" and xs :: "(int \<times> int) list"
  proof (induction xs arbitrary: G)
    case (Cons x xs)
    obtain i j where x: "x = (i, j)" by (cases x)
    have "same_plan G (if i < 0 then pushToOutputOnce G i else G)" using push [of G i] by simp
    from same_plan_trans [OF this Cons.IH] show ?case by (simp add: x)
  qed simp
  obtain n where n: "node_at G p = Some n" using assms by (auto simp: add_outputs_def split: bind_splits)
  let ?G = "if g_outputMode G = OutputMode_VARIABLE_SPACE \<and> n_hasInternalOutputs n then pushToOutputOnce G (n_id n) else G"
  have G: "same_plan G ?G" using push [of G] by simp
  have "add_auto_output ?G n = Some (Inr G') \<or>
      G' = foldl (\<lambda>G (i, _). if i < 0 then pushToOutputOnce G i else G) ?G (n_output n) \<or> G' = ?G"
    using assms unfolding add_outputs_def n bind.bind_lunit Let_def by (auto split: if_split_asm)
  then show ?thesis
    using G pushes [of ?G "n_output n"] add_auto_output_plan [of ?G n G'] same_plan_trans [OF G, of G'] by blast
qed

text \<open>Adding a node keeps the layers in order. The node is new, and reads ids that are not positive when it has no internal
  inputs; the constructor of nodes makes sure of that.\<close>

definition graph_inv :: "'t Graph \<Rightarrow> bool" where
  "graph_inv G \<longleftrightarrow> graph_ok {} G \<and> map_ok (g_unmapped G) \<and> waiting G (g_unmapped G) \<and> \<not> g_built G"

definition flags_ok :: "'t Node \<Rightarrow> bool" where
  "flags_ok n \<longleftrightarrow> (n_hasExternalInputs n \<and> \<not> n_hasInternalInputs n \<longrightarrow> (\<forall>j\<in>fst ` set (n_input n). j \<le> 0))"

lemma same_plan_inv:
  assumes "same_plan G G'"
  shows "graph_ok E G' = graph_ok E G" "waiting G' us = waiting G us" "known_nodes G' = known_nodes G"
proof -
  have c: "cores G' = cores G" "g_mapped G' = g_mapped G" "g_unmapped G' = g_unmapped G" "g_onion G' = g_onion G"
    using assms by (simp_all add: same_plan_def)
  then show "graph_ok E G' = graph_ok E G" "known_nodes G' = known_nodes G" by (simp_all add: graph_ok_def known_nodes_def)
  have "(\<exists>n. node_at H p = Some n \<and> n_id n = i) \<longleftrightarrow> (\<exists>l ins ty. cores H p = Some (i, l, ins, ty))" for H :: "'a Graph" and p i
    by (auto simp: cores_def core_def)
  then show "waiting G' us = waiting G us" by (simp add: waiting_def c)
qed

lemma waiting_frame:
  assumes "waiting G us" "same_frame G G'" "\<And>i. i \<in> fst ` set us \<Longrightarrow> map_of (g_mapped G') i = map_of (g_mapped G) i"
  shows "waiting G' us"
proof -
  have "map_of (g_mapped G') i = None \<and> (\<exists>n. node_at G' p = Some n \<and> n_id n = i)" if ip: "(i, p) \<in> set us" for i p
  proof -
    obtain n where "node_at G p = Some n" "n_id n = i" "map_of (g_mapped G) i = None" using waitingD [OF assms(1) ip] by blast
    moreover have "same_core (cores G p) (cores G' p)" using assms(2) by (simp add: same_frame_def)
    moreover have "i \<in> fst ` set us" using ip by force
    ultimately show ?thesis using assms(3) by (auto dest!: same_core_id)
  qed
  then show ?thesis using assms(1) by (auto simp: waiting_def)
qed

lemma place_node_ok:
  assumes inv: "graph_inv G" and n: "node_at G p = Some n" "known_nodes G (n_id n) = None" "flags_ok n"
    and run: "place_node G p = Some (Inr G')"
  shows "graph_inv G' \<and> (\<forall>q. same_core (cores G q) (cores G' q)) \<and>
    p_fresh (g_pool G') = p_fresh (g_pool G) \<and> known_nodes G' = (if isScoped n then known_nodes G else (known_nodes G)(n_id n \<mapsto> p))"
proof -
  have ok: "graph_ok {} G" "map_ok (g_unmapped G)" "waiting G (g_unmapped G)" "\<not> g_built G"
    using inv by (simp_all add: graph_inv_def)
  have new: "map_of (g_mapped G) (n_id n) = None" "map_of (g_unmapped G) (n_id n) = None"
    using n(2) by (auto simp: known_nodes_def)
  have m: "map_ok (g_mapped G)" using ok(1) by (simp add: graph_ok_def placement_def)
  have injected: ?thesis if "injectNode (set_node (expandOnion G l) p (setLayer n l)) p = Some (Inr G')"
    "l \<le> int (length (g_onion G))" "\<forall>j\<in>fst ` set (n_input n). behind (cores G) (g_mapped G) {} l j" "\<not> isScoped n" for l
  proof -
    have st: "graph_ok {} G'" "same_frame G G'" "g_mapped G' = map_put (n_id n) p (g_mapped G)"
      using inject_at_layer [OF ok(1) n(1) new(1) that(2) _ that(1)] that(3) by auto
    have b: "g_built G' = g_built G"
    proof -
      have "node_at (set_node (expandOnion G l) p (setLayer n l)) p = Some (setLayer n l)" by simp
      then show ?thesis using that(1)
        by (auto simp: injectNode_def set_node_def expandOnion_def split: if_split_asm option.split_asm)
    qed
    have "n_id n \<notin> fst ` set (g_unmapped G)" using new(2) by (simp add: map_of_eq_None_iff)
    then have "waiting G' (g_unmapped G)"
      by (intro waiting_frame [OF ok(3) st(2)]) (simp only: st(3) map_of_put [OF m], metis fun_upd_other)
    moreover have "known_nodes G' = (known_nodes G)(n_id n \<mapsto> p)"
      using st(2,3) new(2) by (auto simp: known_nodes_def map_of_put [OF m] same_frame_def fun_eq_iff map_add_def split: option.split)
    ultimately show ?thesis using st ok(2,4) b that(4) by (simp add: graph_inv_def same_frame_def)
  qed
  have unmapped: ?thesis if G': "G' = G\<lparr>g_unmapped := map_put (n_id n) p (g_unmapped G), g_unmappedMap := g_unmappedMap G @ [n_id n]\<rparr>"
    "\<not> isScoped n"
  proof -
    have c: "cores G' = cores G" "g_mapped G' = g_mapped G" "g_onion G' = g_onion G"
      "g_unmapped G' = map_put (n_id n) p (g_unmapped G)" "g_built G' = g_built G" "p_fresh (g_pool G') = p_fresh (g_pool G)"
      by (simp_all add: G'(1) cores_def node_at_def fun_eq_iff)
    have "known_nodes G' = (known_nodes G)(n_id n \<mapsto> p)"
      by (simp add: known_nodes_def c map_of_put [OF ok(2)])
    moreover have "waiting G' (g_unmapped G')"
    proof -
      have "map_of (g_mapped G') i = None \<and> (\<exists>n. node_at G' q = Some n \<and> n_id n = i)"
        if q: "(i, q) \<in> set (map_put (n_id n) p (g_unmapped G))" for i q
      proof -
        have "map_of (map_put (n_id n) p (g_unmapped G)) i = Some q"
          using q map_of_Some_set [OF map_ok_put [OF ok(2)]] by blast
        then have "i = n_id n \<and> q = p \<or> (i, q) \<in> set (g_unmapped G)"
          by (auto simp: map_of_put [OF ok(2)] dest: map_of_SomeD split: if_split_asm)
        moreover have "node_at G' q = node_at G q" by (simp add: G'(1) node_at_def)
        ultimately show ?thesis using n(1) new(1) waitingD [OF ok(3)] by (auto simp: c(2))
      qed
      then show ?thesis using map_ok_distinct [OF map_ok_put [OF ok(2)]] by (auto simp: waiting_def c(4))
    qed
    ultimately show ?thesis
      using ok G'(2) map_ok_put [OF ok(2)] by (simp add: graph_inv_def graph_ok_def c same_core_def)
  qed
  have layer0: "expandOnion G 0 = G"
  proof -
    have "map_of (g_onion G) 0 \<noteq> None" using ok(1) by (auto simp: graph_ok_def placement_def)
    then show ?thesis by (simp add: expandOnion_def)
  qed
  consider (scoped) "isScoped n" | (external) "\<not> isScoped n" "n_hasExternalInputs n \<and> \<not> n_hasInternalInputs n"
    | (parent) q where "\<not> isScoped n" "\<not> (n_hasExternalInputs n \<and> \<not> n_hasInternalInputs n)"
        "n_hasInternalInputs n \<and> \<not> n_hasExternalInputs n \<and> length (n_input n) = 1" "map_of (g_mapped G) (fst (hd (n_input n))) = Some q"
    | (other) "\<not> isScoped n" "\<not> (n_hasExternalInputs n \<and> \<not> n_hasInternalInputs n)"
        "\<not> (n_hasInternalInputs n \<and> \<not> n_hasExternalInputs n \<and> length (n_input n) = 1) \<or> map_of (g_mapped G) (fst (hd (n_input n))) = None"
    by (cases "map_of (g_mapped G) (fst (hd (n_input n)))") auto
  then show ?thesis
  proof cases
    case scoped
    then obtain x where G': "G' = G\<lparr>g_scopes := x\<rparr>"
      using run n(1) by (auto simp: place_node_def split: option.split_asm)
    have sp: "same_plan G G'" by (simp add: G')
    then show ?thesis
      using same_plan_inv [OF sp] ok scoped by (simp add: graph_inv_def same_plan_def same_core_def)
  next
    case external
    then have "injectNode (set_node (expandOnion G 0) p (setLayer n 0)) p = Some (Inr G')"
      using run n(1) by (simp add: place_node_def layer0)
    moreover have "\<forall>j\<in>fst ` set (n_input n). behind (cores G) (g_mapped G) {} 0 j"
      using n(3) external by (simp add: flags_ok_def behind_def)
    ultimately show ?thesis using injected external(1) by simp
  next
    case parent
    obtain j x where ins: "n_input n = [(j, x)]" using parent(3) by (cases "n_input n") auto
    obtain k ins' ty where q: "cores G q = Some (j, k, ins', ty)" "k < int (length (g_onion G))"
      using placement_entry [of "cores G" "g_onion G" "g_mapped G"] ok(1) parent(4) ins unfolding graph_ok_def by force
    then obtain pn where pn: "node_at G q = Some pn" "n_layer pn = k" by (auto simp: cores_def core_def)
    have "injectNode (set_node (expandOnion G (k + 1)) p (setLayer n (k + 1))) p = Some (Inr G')"
      using run n(1) parent pn by (auto simp: place_node_def i32_def split: if_split_asm)
    moreover have "behind (cores G) (g_mapped G) {} (k + 1) j" using q parent(4) ins by (simp add: behind_def)
    ultimately show ?thesis using injected [of "k + 1"] q(2) parent(1) ins by simp
  next
    case other
    then have "Some (Inr G') = (Some (Inr (G\<lparr>g_unmapped := map_put (n_id n) p (g_unmapped G), g_unmappedMap := g_unmappedMap G @ [n_id n]\<rparr>)) :: 'a Graph result)"
      using run n(1) new(2) by (auto simp: place_node_def Let_def split: if_split_asm option.split_asm)
    then show ?thesis using unmapped other(1) by simp
  qed
qed

lemma addNode_ok:
  assumes inv: "graph_inv G" and n: "node_at G p = Some n" "known_nodes G (n_id n) = None" "flags_ok n"
    and run: "addNode G p = Some (Inr G')"
  shows "graph_inv G' \<and> (\<forall>q. same_core (cores G q) (cores G' q)) \<and>
    p_fresh (g_pool G') = p_fresh (g_pool G) \<and> known_nodes G' = (if isScoped n then known_nodes G else (known_nodes G)(n_id n \<mapsto> p))"
proof -
  let ?G0 = "G\<lparr>g_built := False\<rparr>"
  let ?G1 = "if n_opType n = OpType_LOGIC \<and> n_opNum n = 10 then
      ?G0\<lparr>g_mappedScopes := map_put (n_id n) (length (g_scopes ?G0)) (g_mappedScopes ?G0),
        g_scopes := g_scopes ?G0 @ [new_Scope (n_id n) (Some (n_name n))]\<rparr> else ?G0"
  obtain G2 G3 where G: "add_variables ?G1 p = Some (Inr G2)" "add_outputs G2 p = Some (Inr G3)" "place_node G3 p = Some (Inr G')"
    using run n(1) unfolding addNode_def by (auto simp: ebind_Inr_iff Let_def)
  have "G\<lparr>g_built := False\<rparr> = G" using inv by (simp add: graph_inv_def)
  then have "same_plan G ?G1" by (simp add: same_plan_def cores_def node_at_def fun_eq_iff)
  then have sp: "same_plan G G3"
    using add_variables_plan [OF G(1)] add_outputs_plan [OF G(2)] same_plan_trans by blast
  have inv3: "graph_inv G3"
    using inv same_plan_inv [OF sp] sp by (simp add: graph_inv_def same_plan_def)
  have "cores G3 p = Some (core n)" using sp n(1) by (simp add: same_plan_def cores_def)
  then obtain m where m: "node_at G3 p = Some m" "core m = core n" by (auto simp: cores_def)
  have same: "n_id m = n_id n" "n_input m = n_input n" using m(2) by (simp_all add: core_def)
  have "kind m = kind n" using m(2) by (simp add: core_def)
  then have flags: "flags_ok m = flags_ok n" "isScoped m = isScoped n"
    using same(2) by (simp_all add: flags_ok_def isScoped_def kind_def)
  show ?thesis
    using place_node_ok [OF inv3 m(1) _ _ G(3)] n(2,3) same(1) flags same_plan_inv(3) [OF sp] sp
    by (simp add: same_plan_def)
qed

text \<open>The nodes of a list are made and added in turn.\<close>

definition add_nodes :: "'t Node list \<Rightarrow> 't Graph \<Rightarrow> 't Graph result" where
  "add_nodes ns G = mret (\<lambda>n G. let (p, P) = new_object n (g_pool G) in addNode (G\<lparr>g_pool := P\<rparr>) p) ns G"

lemma known_nodes_at:
  assumes "graph_inv G" "known_nodes G i = Some p"
  shows "\<exists>n. node_at G p = Some n \<and> n_id n = i"
proof -
  consider "map_of (g_unmapped G) i = Some p" | "map_of (g_mapped G) i = Some p"
    using assms(2) by (auto simp: known_nodes_def map_add_Some_iff)
  then show ?thesis
  proof cases
    case 1
    then show ?thesis using assms(1) waitingD map_of_SomeD unfolding graph_inv_def by fast
  next
    case 2
    then obtain l ins ty where "cores G p = Some (i, l, ins, ty)"
      using assms(1) placement_entry unfolding graph_inv_def graph_ok_def by blast
    then show ?thesis by (auto simp: cores_def core_def)
  qed
qed

definition fresh_ok :: "'t Graph \<Rightarrow> bool" where
  "fresh_ok G \<longleftrightarrow> (\<forall>p. cores G p \<noteq> None \<longrightarrow> p < p_fresh (g_pool G))"

text \<open>A graph knows the node \<open>n\<close>, in whatever layer it is.\<close>

definition knows :: "'t Graph \<Rightarrow> 't Node \<Rightarrow> bool" where
  "knows G n \<longleftrightarrow> (\<exists>p m. known_nodes G (n_id n) = Some p \<and> node_at G p = Some m \<and>
     n_id m = n_id n \<and> n_input m = n_input n \<and> n_opType m = n_opType n)"

lemma knows_step:
  assumes "knows G n" "\<And>q. same_core (cores G q) (cores G' q)" "\<And>p. known_nodes G (n_id n) = Some p \<Longrightarrow> known_nodes G' (n_id n) = Some p"
  shows "knows G' n"
proof -
  obtain p m where "known_nodes G (n_id n) = Some p" "node_at G p = Some m" "n_id m = n_id n" "n_input m = n_input n"
    "n_opType m = n_opType n" using assms(1) by (auto simp: knows_def)
  then show ?thesis using same_core_id [OF assms(2)] assms(3) by (fastforce simp: knows_def kind_def)
qed

lemma add_one:
  assumes inv: "graph_inv G" "fresh_ok G" and n: "known_nodes G (n_id n) = None" "flags_ok n"
    and run: "(let (p, P) = new_object n (g_pool G) in addNode (G\<lparr>g_pool := P\<rparr>) p) = Some (Inr G')"
  shows "graph_inv G' \<and> fresh_ok G' \<and> (\<not> isScoped n \<longrightarrow> knows G' n) \<and> (\<forall>m. n_id m \<noteq> n_id n \<longrightarrow> knows G m \<longrightarrow> knows G' m) \<and>
    (\<forall>i. i \<noteq> n_id n \<longrightarrow> known_nodes G' i = known_nodes G i)"
proof -
  let ?p = "p_fresh (g_pool G)"
  let ?G = "G\<lparr>g_pool := snd (new_object n (g_pool G))\<rparr>"
  have p: "cores G ?p = None" using inv(2) unfolding fresh_ok_def by blast
  have run': "addNode ?G ?p = Some (Inr G')" using run by (simp add: new_object_def)
  have at: "node_at ?G q = (if q = ?p then Some n else node_at G q)" for q by (simp add: node_at_def new_object_def)
  have fields: "g_mapped ?G = g_mapped G" "g_unmapped ?G = g_unmapped G" "g_onion ?G = g_onion G" "g_built ?G = g_built G"
    "p_fresh (g_pool ?G) = Suc ?p" "known_nodes ?G = known_nodes G" by (simp_all add: new_object_def known_nodes_def)
  have counter: "p_fresh (snd (new_object n (g_pool G))) = Suc ?p" by (simp add: new_object_def)
  have C: "cores ?G q = (if q = ?p then Some (core n) else cores G q)" for q by (simp add: cores_def at)
  have other: "q \<noteq> ?p" if "known_nodes G i = Some q" for i q
    using known_nodes_at [OF inv(1) that] p by (auto simp: cores_def)
  have placed_other: "q \<noteq> ?p" if "map_of (g_mapped G) i = Some q" for i q
    using that placement_entry [of "cores G" "g_onion G" "g_mapped G" i q] inv(1) p by (auto simp: graph_inv_def graph_ok_def)
  have "graph_inv ?G"
  proof -
    have same: "cores ?G q = cores G q" if "map_of (g_mapped G) i = Some q" for i q
      using placed_other [OF that] by (simp add: C)
    have ok: "placement (cores G) (g_onion G) (g_mapped G)" "ordered (cores G) (g_mapped G) {}"
      using inv(1) by (simp_all add: graph_inv_def graph_ok_def)
    have "placement (cores ?G) (g_onion G) (g_mapped G)" "ordered (cores ?G) (g_mapped G) {}"
      by (rule placement_cong [OF ok(1)], fact same, rule ordered_cong [OF ok(2)], fact same)
    moreover have "waiting ?G (g_unmapped G)"
    proof -
      have "\<exists>m. node_at ?G q = Some m \<and> n_id m = i" if iq: "(i, q) \<in> set (g_unmapped G)" for i q
      proof -
        obtain m where "node_at G q = Some m" "n_id m = i"
          using inv(1) waitingD [OF _ iq] unfolding graph_inv_def by blast
        then show ?thesis using p by (auto simp: at cores_def)
      qed
      then show ?thesis using inv(1) by (auto simp: waiting_def graph_inv_def)
    qed
    ultimately show ?thesis using inv(1) by (simp add: graph_inv_def graph_ok_def fields)
  qed
  moreover have "node_at ?G ?p = Some n" "known_nodes ?G (n_id n) = None" by (simp_all only: at n(1) fields) simp
  ultimately have res: "graph_inv G'" "\<And>q. same_core (cores ?G q) (cores G' q)" "p_fresh (g_pool G') = Suc ?p"
    "known_nodes G' = (if isScoped n then known_nodes G else (known_nodes G)(n_id n \<mapsto> ?p))"
    using addNode_ok [of ?G ?p n G'] n(2) run' by (auto simp: fields counter)
  have "fresh_ok G'"
    unfolding fresh_ok_def res(3)
  proof (intro allI impI)
    fix q assume "cores G' q \<noteq> None"
    then have "cores ?G q \<noteq> None" using res(2) [of q] by (auto simp: same_core_def)
    then have "q = ?p \<or> cores G q \<noteq> None" unfolding C by metis
    then show "q < Suc ?p" using inv(2) unfolding fresh_ok_def by fastforce
  qed
  moreover have "knows G' n" if "\<not> isScoped n"
  proof -
    have "\<exists>n'. node_at G' ?p = Some n' \<and> n_id n' = n_id n \<and> n_input n' = n_input n \<and> kind n' = kind n"
      by (rule same_core_id [OF res(2)]) (simp add: at)
    then show ?thesis using that by (auto simp: knows_def res(4) kind_def)
  qed
  moreover have "knows G' m" if "n_id m \<noteq> n_id n" "knows G m" for m
  proof (rule knows_step [OF _ res(2)])
    show "knows ?G m" using that(2) other by (auto simp: knows_def fields at)
  qed (use that(1) in \<open>auto simp: res(4) fields\<close>)
  ultimately show ?thesis using res(1,4) by auto
qed

lemma add_nodes_ok:
  assumes "graph_inv G" "fresh_ok G" "distinct (map n_id ns)" "\<forall>n\<in>set ns. known_nodes G (n_id n) = None \<and> flags_ok n"
    "add_nodes ns G = Some (Inr G')"
  shows "graph_inv G' \<and> (\<forall>n\<in>set ns. \<not> isScoped n \<longrightarrow> knows G' n) \<and>
    (\<forall>m. n_id m \<notin> n_id ` set ns \<longrightarrow> knows G m \<longrightarrow> knows G' m)"
  using assms
proof (induction ns arbitrary: G)
  case Nil
  then show ?case by (simp add: add_nodes_def)
next
  case (Cons n ns)
  obtain G1 where G1: "(let (p, P) = new_object n (g_pool G) in addNode (G\<lparr>g_pool := P\<rparr>) p) = Some (Inr G1)"
    "add_nodes ns G1 = Some (Inr G')"
    using Cons.prems(5) unfolding add_nodes_def mret.simps by (auto split: bind_splits sum.splits)
  note one = add_one [OF Cons.prems(1,2) _ _ G1(1)]
  have "graph_inv G' \<and> (\<forall>n\<in>set ns. \<not> isScoped n \<longrightarrow> knows G' n) \<and> (\<forall>m. n_id m \<notin> n_id ` set ns \<longrightarrow> knows G1 m \<longrightarrow> knows G' m)"
  proof (rule Cons.IH [OF _ _ _ _ G1(2)])
    show "graph_inv G1" "fresh_ok G1" using one Cons.prems(4) by auto
    show "distinct (map n_id ns)" using Cons.prems(3) by simp
    show "\<forall>m\<in>set ns. known_nodes G1 (n_id m) = None \<and> flags_ok m"
      using one Cons.prems(3,4) by (auto simp: image_iff)
  qed
  then show ?case using one Cons.prems(3,4) by auto
qed

section \<open>A new graph\<close>

lemma new_Graph_inv: "graph_inv (new_Graph M s mode)" "fresh_ok (new_Graph M s mode)"
proof -
  have C: "cores (new_Graph M s mode) p = None" for p
    by (simp add: cores_def node_at_def new_Graph_def expandOnion_eq empty_pool_def)
  have f: "g_onion (new_Graph M s mode) = [(0, [])]" "g_mapped (new_Graph M s mode) = []" "g_unmapped (new_Graph M s mode) = []"
    "g_built (new_Graph M s mode) = False"
    by (simp_all add: new_Graph_def expandOnion_eq expanded_def)
  show "graph_inv (new_Graph M s mode)"
    by (auto simp: graph_inv_def graph_ok_def placement_def ordered_def waiting_def f map_ok_def)
  show "fresh_ok (new_Graph M s mode)" by (simp add: fresh_ok_def C)
qed

lemma ordered_mono: "ordered C mapped E \<Longrightarrow> E \<subseteq> F \<Longrightarrow> ordered C mapped F"
  unfolding ordered_def behind_def by blast

text \<open>The constructor of nodes sets the flags as the placement of nodes expects them.\<close>

lemma pickInput_flags:
  "n_hasInternalInputs (foldl pickInput n ins) = (n_hasInternalInputs n \<or> (\<exists>i\<in>set ins. 0 \<le> i))"
  "n_input (foldl pickInput n ins) = n_input n @ map (\<lambda>i. (i, 0)) ins"
  by (induction ins arbitrary: n) (auto simp: pickInput_def pickInput_at_def pickInput_pair_def Let_def)

lemma pickOutput_inputs:
  "n_hasInternalInputs (foldl pickOutput n outs) = n_hasInternalInputs n" "n_input (foldl pickOutput n outs) = n_input n"
  by (induction outs arbitrary: n) (auto simp: pickOutput_def Let_def)

lemma new_Node_flags:
  assumes "new_Node buildOp opType opNum i ins outs dims tArgs iArgs = Inr n"
  shows "flags_ok n"
proof -
  have "n_hasInternalInputs n = (\<exists>i\<in>set ins. 0 \<le> i) \<and> n_input n = map (\<lambda>i. (i, 0)) ins"
    using assms
    by (auto simp: new_Node_def Let_def setCustomOp_def pickInput_flags pickOutput_inputs split: if_split_asm sum.split_asm option.splits)
      (cases "buildOp opType (int (length ins)) (int (length (dims @ iArgs))) (int (length tArgs)) opNum";
        auto simp: pickInput_flags pickOutput_inputs split: if_split_asm)+
  then show ?thesis by (force simp: flags_ok_def)
qed

section \<open>Property\<close>

definition in_layer :: "'t Graph \<Rightarrow> int \<Rightarrow> int \<Rightarrow> bool" where
  "in_layer G i l \<longleftrightarrow> (case map_of (g_onion G) l of None \<Rightarrow> False
     | Some ps \<Rightarrow> \<exists>p\<in>set ps. case node_at G p of None \<Rightarrow> False | Some m \<Rightarrow> n_id m = i)"

lemma in_layer_iff:
  assumes "placement (cores G) (g_onion G) (g_mapped G)"
  shows "in_layer G i l \<longleftrightarrow> (\<exists>p ins ty. map_of (g_mapped G) i = Some p \<and> cores G p = Some (i, l, ins, ty))"
proof
  assume "in_layer G i l"
  then obtain ps p m where p: "map_of (g_onion G) l = Some ps" "p \<in> set ps" "node_at G p = Some m" "n_id m = i"
    by (auto simp: in_layer_def split: option.splits)
  then obtain j ins ty where "cores G p = Some (j, l, ins, ty)" "map_of (g_mapped G) j = Some p"
    using assms unfolding placement_def by blast
  then show "\<exists>p ins ty. map_of (g_mapped G) i = Some p \<and> cores G p = Some (i, l, ins, ty)"
    using p(3,4) by (auto simp: cores_def core_def)
next
  assume "\<exists>p ins ty. map_of (g_mapped G) i = Some p \<and> cores G p = Some (i, l, ins, ty)"
  then obtain p ins ty where p: "map_of (g_mapped G) i = Some p" "cores G p = Some (i, l, ins, ty)" by blast
  then obtain ps where "map_of (g_onion G) l = Some ps" "p \<in> set ps"
    using placement_entry [OF assms p(1)] by auto
  then show "in_layer G i l" using p(2) by (auto simp: in_layer_def cores_def core_def intro!: bexI [of _ p])
qed

text \<open>C30: A graph that was built from nodes with different ids has each of its nodes, but those of scopes, in exactly
  one of the layers 0, 1, ...; and every op, but the logic ones, is in a later layer than the nodes it reads from, or
  reads external variables or ids that are not positive.\<close>

theorem built_graph_is_ordered:
  assumes "distinct (map n_id ns)" "\<forall>n\<in>set ns. flags_ok n"
    and "add_nodes ns (new_Graph M s mode) = Some (Inr G)" "buildGraph G = Some (Inr G')"
  shows "\<forall>n\<in>set ns. \<not> isScoped n \<longrightarrow>
    (\<exists>l. 0 \<le> l \<and> l < int (length (g_onion G')) \<and> (\<forall>l'. in_layer G' (n_id n) l' \<longleftrightarrow> l' = l) \<and>
      (n_opType n \<noteq> OpType_LOGIC \<longrightarrow>
        (\<forall>j\<in>fst ` set (n_input n). j \<le> 0 \<or> j \<in> externals G' \<or> (\<exists>k<l. in_layer G' j k))))"
proof (intro ballI impI)
  fix n assume n: "n \<in> set ns" "\<not> isScoped n"
  have "known_nodes (new_Graph M s mode) i = None" for i
    by (simp add: known_nodes_def new_Graph_def expandOnion_eq)
  then have inv: "graph_inv G" "knows G n"
    using add_nodes_ok [OF new_Graph_inv assms(1) _ assms(3)] assms(2) n by auto
  have "graph_ok (externals G) G"
    using inv(1) ordered_mono [of "cores G" "g_mapped G" "{}" "externals G"] by (simp add: graph_inv_def graph_ok_def)
  note b = buildGraph_ok [OF this refl _ _ assms(4)]
  have ok: "placement (cores G') (g_onion G') (g_mapped G')" "ordered (cores G') (g_mapped G') (externals G')"
    and known: "map_of (g_mapped G') = known_nodes G" and same: "same_core (cores G p) (cores G' p)" for p
    using b inv(1) by (auto simp: graph_inv_def graph_ok_def)
  obtain p m where m: "known_nodes G (n_id n) = Some p" "node_at G p = Some m" "n_id m = n_id n" "n_input m = n_input n"
    "n_opType m = n_opType n" using inv(2) by (auto simp: knows_def)
  then obtain m' where m': "node_at G' p = Some m'" "n_id m' = n_id n" "n_input m' = n_input n" "n_opType m' = n_opType n"
    using same_core_id [OF same m(2)] by (auto simp: kind_def)
  let ?l = "n_layer m'"
  have p: "map_of (g_mapped G') (n_id n) = Some p" "cores G' p = Some (n_id n, ?l, n_input n, kind m')"
    using m(1) m' by (simp_all add: known cores_def core_def)
  have "0 \<le> ?l \<and> ?l < int (length (g_onion G'))" using placement_entry [OF ok(1) p(1)] p(2) by auto
  moreover have "in_layer G' (n_id n) l' \<longleftrightarrow> l' = ?l" for l'
    using p by (auto simp: in_layer_iff [OF ok(1)])
  moreover have "j \<le> 0 \<or> j \<in> externals G' \<or> (\<exists>k<?l. in_layer G' j k)"
    if "n_opType n \<noteq> OpType_LOGIC" "j \<in> fst ` set (n_input n)" for j
  proof -
    have "behind (cores G') (g_mapped G') (externals G') ?l j"
      using ok(2) p that m'(4) unfolding ordered_def by fastforce
    then show ?thesis unfolding behind_def in_layer_iff [OF ok(1)] by blast
  qed
  ultimately show "\<exists>l. 0 \<le> l \<and> l < int (length (g_onion G')) \<and> (\<forall>l'. in_layer G' (n_id n) l' \<longleftrightarrow> l' = l) \<and>
      (n_opType n \<noteq> OpType_LOGIC \<longrightarrow>
        (\<forall>j\<in>fst ` set (n_input n). j \<le> 0 \<or> j \<in> externals G' \<or> (\<exists>k<l. in_layer G' j k)))"
    by (intro exI [of _ ?l]) blast
qed

text \<open>Example nodes: custom ops with one output, and an empty graph.\<close>

definition op_node :: "int \<Rightarrow> int list \<Rightarrow> int Node" where
  "op_node i ins = (case new_Node (\<lambda>_ _ _ _ _. Inl Bad_alloc) OpType_CUSTOM 0 i ins [] [] [] [] of
     Inl e \<Rightarrow> undefined
   | Inr n \<Rightarrow> setCustomOp n (Some (new_OpDescriptor 1 1 ''op'' True)))"

definition logic_node :: "int \<Rightarrow> int \<Rightarrow> (int \<times> int) list \<Rightarrow> int Node" where
  "logic_node i opNum ins = (case new_Node (\<lambda>_ _ _ _ _. Inl Bad_alloc) OpType_LOGIC opNum i [] [] [] [] [] of
     Inl e \<Rightarrow> undefined
   | Inr n \<Rightarrow> foldl pickInput_pair n ins)"

definition empty_graph :: "int Graph" where
  "empty_graph = new_Graph empty_memory new_VariableSpace OutputMode_IMPLICIT"

text \<open>The layer of each node after building a graph from the given nodes.\<close>

definition layers_of :: "int Node list \<Rightarrow> (int \<times> int list) list option" where
  "layers_of ns = (case ebind (add_nodes ns empty_graph) buildGraph of
     Some (Inr G) \<Rightarrow> Some (map (\<lambda>(l, ps). (l, List.map_filter (\<lambda>p. map_option n_id (node_at G p)) ps)) (g_onion G))
   | _ \<Rightarrow> None)"

lemma flags_op_node: "flags_ok (op_node i ins)"
proof -
  obtain n where n: "new_Node (\<lambda>_ _ _ _ _. Inl Bad_alloc) OpType_CUSTOM 0 i ins [] [] ([] :: int list) [] = Inr n"
    by (simp add: new_Node_def legacy_op_def)
  have "flags_ok n" by (rule new_Node_flags [OF n])
  then show ?thesis by (simp add: op_node_def n setCustomOp_def flags_ok_def new_OpDescriptor_def OpDescriptor_default_def)
qed

theorem built_graph_is_ordered_witness:
  "\<exists>G G'. add_nodes [op_node 2 [1, -1], op_node 1 [-1]] empty_graph = Some (Inr G) \<and> buildGraph G = Some (Inr G') \<and>
     (\<exists>l. in_layer G' 2 l \<and> (\<exists>k<l. in_layer G' 1 k \<or> 1 \<in> externals G'))"
proof -
  let ?ns = "[op_node 2 [1, -1], op_node 1 [-1]]"
  have "layers_of ?ns \<noteq> None" by code_simp
  then obtain G G' where G: "add_nodes ?ns empty_graph = Some (Inr G)" "buildGraph G = Some (Inr G')"
    by (auto simp: layers_of_def ebind_def split: option.splits sum.splits)
  have f: "distinct (map n_id ?ns)" "\<not> isScoped (op_node 2 [1, -1])" "n_id (op_node 2 [1, -1]) = 2"
    "n_opType (op_node 2 [1, -1]) \<noteq> OpType_LOGIC" "n_input (op_node 2 [1, -1]) = [(1, 0), (-1, 0)]"
    by code_simp+
  have "\<forall>n\<in>set ?ns. flags_ok n" using flags_op_node by simp
  from built_graph_is_ordered [OF f(1) this G(1) [unfolded empty_graph_def] G(2), THEN bspec, of "op_node 2 [1, -1]"] f
  obtain l where l: "0 \<le> l" "\<forall>l'. in_layer G' 2 l' \<longleftrightarrow> l' = l" "1 \<in> externals G' \<or> (\<exists>k<l. in_layer G' 1 k)"
    by auto
  then have "\<exists>k<l. in_layer G' 1 k \<or> 1 \<in> externals G'" by (metis lt_ex)
  then show ?thesis using G l(2) by blast
qed

section \<open>Edge cases\<close>

text \<open>A node that reads an external variable by its id and a node by a pair is put into layer 0, before the node
  it reads.\<close>

lemma mixed_inputs_too_early:
  "layers_of [op_node 1 [-1], op_node 2 [1], pickInput_at (op_node 3 [-1]) 2 0] = Some [(0, [1, 3]), (1, [2])]"
  by code_simp

text \<open>An input with the id 0 is not waited for: node 2 lands in an earlier layer than node 0 that it reads.\<close>

lemma zero_id_too_early:
  "layers_of [op_node 1 [-1], op_node 0 [3, -1], op_node 2 [0, -1], op_node 3 [1, -1]] = Some [(0, [1]), (1, [2, 3]), (2, [0])]"
  by code_simp

text \<open>The second of two nodes with the same id is dropped.\<close>

lemma same_id_dropped:
  "layers_of [op_node 1 [-1], op_node 1 [-2]] = Some [(0, [1])]"
  by code_simp

text \<open>A cycle of ops is refused.\<close>

lemma cycle_refused:
  "(case ebind (add_nodes [op_node 1 [2, -1], op_node 2 [1, -1]] empty_graph) buildGraph of
     Some (Inl e) \<Rightarrow> Some e | _ \<Rightarrow> None) = Some (Thrown ''Unable to build graph'')"
  by code_simp

text \<open>The state of a node that does not work in place is not removable either: the array it gets is never deleted with
  the space, unless the op says so.\<close>

lemma state_never_removable:
  "(case add_nodes [op_node 1 [-1]] empty_graph of
     Some (Inr G) \<Rightarrow> (case map_of (vs_paired (g_variableSpace G)) (1, 0) of
         Some v \<Rightarrow> map_option v_removable (var_at (g_memory G) v) | None \<Rightarrow> None)
   | _ \<Rightarrow> None) = Some False"
  by code_simp

end
