(* ===== verification/FeedForward.thy ===== *)
theory FeedForward
  imports Execution OpFrames GraphOrder
begin

text \<open>
  Graphs without loops and branches: the executioner runs their ops one after another in the order of the layers,
  so that every op runs after those it reads from. The flow path has no effect on the result.
\<close>

section \<open>The flow path of a session\<close>

definition flow_at :: "'t session \<Rightarrow> FlowPath option" where
  "flow_at X = deref (snd X) (vs_flow (g_variableSpace (fst X)))"

definition all_active :: "FlowPath \<Rightarrow> bool" where
  "all_active p \<longleftrightarrow> (\<forall>i. ns_active (nodeAt p i))"

lemma flow_do_at:
  assumes "flow_at (G, F) = Some p"
  shows "\<exists>F'. flow_do f (G, F) = Some (G, F') \<and> flow_at (G, F') = Some (f p)"
  using assms by (cases "vs_flow (g_variableSpace G)") (auto simp: flow_at_def flow_do_def pool_simps)

lemma flow_ask_at:
  assumes "flow_at (G, F) = Some p"
  shows "\<exists>F'. flow_ask f (G, F) = Some (fst (f p), (G, F')) \<and> flow_at (G, F') = Some (snd (f p))"
  using assms by (cases "vs_flow (g_variableSpace G)") (auto simp: flow_at_def flow_ask_def pool_simps)

lemma nodeAt_setNode_active: "ns_active (nodeAt (setNode p n s) i) = (if i = n then ns_active s else ns_active (nodeAt p i))"
  by (simp add: flow_simps)

lemma all_active_steps [simp, intro]:
  assumes "all_active p"
  shows "all_active (ensureNode p i)" "all_active (markNodeActive p i True)" "all_active (markExecuted p i b)"
    "all_active (setOuterTime p i t)" "all_active (markBranch p i k)" "all_active (snd (isNodeActive p i))" "fst (isNodeActive p i)"
  using assms by (auto simp: all_active_def markNodeActive_def markExecuted_def setOuterTime_def markBranch_def isNodeActive_def
      Let_def flow_simps)

section \<open>What an op node may change in a graph\<close>

definition frame :: "'t Node \<Rightarrow> 't Node" where
  "frame n = n\<lparr>n_protoContext := None\<rparr>"

definition shape_of :: "'t Graph \<Rightarrow> (int \<times> nat list) list \<times> (int \<times> nat) list \<times> (nat \<Rightarrow> 't Node option)" where
  "shape_of G = (g_onion G, g_mapped G, \<lambda>p. map_option frame (node_at G p))"

lemma frame_fields [simp]:
  "n_opType (frame n) = n_opType n" "n_input (frame n) = n_input n" "n_id (frame n) = n_id n"
  "n_customOp (frame n) = n_customOp n" "n_opNum (frame n) = n_opNum n" "isDivergencePoint (frame n) = isDivergencePoint n"
  by (simp_all add: frame_def isDivergencePoint_def split: option.split)

lemma shape_node:
  assumes "shape_of G' = shape_of G" "node_at G p = Some n"
  shows "\<exists>n'. node_at G' p = Some n' \<and> frame n' = frame n"
proof -
  have "(\<lambda>p. map_option frame (node_at G' p)) = (\<lambda>p. map_option frame (node_at G p))"
    using assms(1) by (simp add: shape_of_def)
  then have "map_option frame (node_at G' p) = map_option frame (node_at G p)" by meson
  then show ?thesis using assms(2) by auto
qed

lemma shape_set_node:
  assumes "node_at G p = Some n" "frame n' = frame n"
  shows "shape_of (set_node G p n') = shape_of G"
  using assms by (auto simp: shape_of_def set_node_def node_at_def)

lemma shape_memory [simp]: "shape_of (G\<lparr>g_memory := M, g_variableSpace := s\<rparr>) = shape_of G"
  by (simp add: shape_of_def node_at_def)

lemma set_node_same: "node_at G p = Some n \<Longrightarrow> set_node G p n = G"
  by (simp add: set_node_def node_at_def fun_upd_idem)

lemma context_frame:
  assumes "getContextPrototype n = (c, n')"
  shows "frame n' = frame n" "n_hasExternalOutputs n' = n_hasExternalOutputs n" "n_output n' = n_output n"
    "n_customOp n' = n_customOp n" "n_id n' = n_id n"
  using assms by (auto simp: getContextPrototype_def Let_def frame_def split: option.splits if_splits)

section \<open>An op without its flow path\<close>

definition flat_node :: "'t kernels \<Rightarrow> nat \<Rightarrow> 't Graph \<Rightarrow> (int \<times> 't Graph) result" where
  "flat_node K node G = do {
     n \<leftarrow> node_at G node;
     let (proto, n) = getContextPrototype n;
     let G = set_node G node n;
     (case n_customOp n of
        None \<Rightarrow> Some (Inr (0, G))
      | Some d \<Rightarrow> ebind (run_op K d (new_Context (Some proto)) (g_memory G, g_variableSpace G)) (\<lambda>(status, branch, (M, s)).
          let G = G\<lparr>g_memory := M, g_variableSpace := s\<rparr> in
          if status \<noteq> 0 then Some (Inr (status, G))
          else if n_hasExternalOutputs n then
            ebind (on_space (mret (propagate K (n_id n)) (n_output n)) G) (\<lambda>G. Some (Inr (status, G)))
          else Some (Inr (status, G)))) }"

text \<open>What a run did, without the flow paths.\<close>

definition graph_of :: "(int \<times> 't session) result \<Rightarrow> (int \<times> 't Graph) result" where
  "graph_of r = map_option (map_sum id (\<lambda>(status, X). (status, fst X))) r"

lemma keeps_propagate:
  assumes "propagate K i v S = Some (Inr S')"
  shows "keeps S S'"
proof -
  obtain M s where S: "S = (M, s)" by force
  have "S' = S \<or> (\<exists>A. S' = (M\<lparr>m_arrays := A\<rparr>, s))"
    using assms unfolding S propagate_def assign_array_def
    by (fastforce simp: ebind_Inr_iff bind_eq_Some_conv split: if_splits)
  then show ?thesis unfolding S by (auto intro!: keeps_memory)
qed

lemma on_space_keeps:
  assumes "\<And>S S'. f S = Some (Inr S') \<Longrightarrow> keeps S S'" "on_space f G = Some (Inr G')"
  shows "keeps (g_memory G, g_variableSpace G) (g_memory G', g_variableSpace G') \<and> shape_of G' = shape_of G"
  using assms(2) by (auto simp: on_space_def ebind_Inr_iff dest!: assms(1))

lemma flat_node_keeps:
  assumes "tame K" "flat_node K node G = Some (Inr (st, G'))"
  shows "keeps (g_memory G, g_variableSpace G) (g_memory G', g_variableSpace G') \<and> shape_of G' = shape_of G"
proof -
  obtain n where n: "node_at G node = Some n" using assms(2) by (auto simp: flat_node_def bind_eq_Some_conv)
  obtain c n' where c: "getContextPrototype n = (c, n')" by force
  let ?G = "set_node G node n'"
  have shape: "shape_of ?G = shape_of G" by (rule shape_set_node [OF n context_frame(1) [OF c]])
  have same: "g_memory ?G = g_memory G" "g_variableSpace ?G = g_variableSpace G" by (simp_all add: set_node_def)
  show ?thesis
  proof (cases "n_customOp n'")
    case None
    then show ?thesis using assms(2) shape same by (auto simp: flat_node_def n c)
  next
    case (Some d)
    then obtain st' br M s where run: "run_op K d (new_Context (Some c)) (g_memory G, g_variableSpace G) = Some (Inr (st', br, (M, s)))"
      and rest: "G' = ?G\<lparr>g_memory := M, g_variableSpace := s\<rparr> \<or>
        on_space (mret (propagate K (n_id n')) (n_output n')) (?G\<lparr>g_memory := M, g_variableSpace := s\<rparr>) = Some (Inr G')"
      using assms(2) by (auto simp: flat_node_def n c ebind_Inr_iff same Let_def split: if_splits)
    have k: "keeps (g_memory G, g_variableSpace G) (M, s)" by (rule keeps_run_op [OF assms(1) run])
    from rest show ?thesis
    proof
      assume "G' = ?G\<lparr>g_memory := M, g_variableSpace := s\<rparr>"
      then show ?thesis using k shape by simp
    next
      assume p: "on_space (mret (propagate K (n_id n')) (n_output n')) (?G\<lparr>g_memory := M, g_variableSpace := s\<rparr>) = Some (Inr G')"
      have "keeps S S'" if "mret (propagate K (n_id n')) (n_output n') S = Some (Inr S')" for S S'
        using keeps_mret [where g = id, OF _ that] keeps_propagate by fastforce
      from on_space_keeps [OF this p] show ?thesis using k shape keeps_trans by fastforce
    qed
  qed
qed

text \<open>The branch an op chooses is noted in the flow path, if there is one.\<close>

lemma note_branch:
  assumes "deref F fp = Some p"
  shows "\<exists>F' p'. (case (branch, fp) of
       (Some b, Some f) \<Rightarrow> do { p \<leftarrow> p_live F f; q \<leftarrow> setBranch ctx (Some p) b; assign_object F (Some f) q }
     | _ \<Rightarrow> Some F) = Some F' \<and> deref F' fp = Some p' \<and> (all_active p \<longrightarrow> all_active p')"
proof -
  obtain f where f: "fp = Some f" "p_live F f = Some p" using assms by (cases fp) (auto simp: pool_simps)
  show ?thesis
  proof (cases branch)
    case None
    then show ?thesis using f by (auto simp: pool_simps)
  next
    case (Some b)
    let ?q = "markBranch p (cp_nodeId ctx) b"
    have "deref (F\<lparr>p_live := (p_live F)(f \<mapsto> ?q)\<rparr>) fp = Some ?q" using f by (simp add: pool_simps)
    then show ?thesis
      using f Some all_active_steps(5) [of p] by (fastforce simp: setBranch_def pool_simps)
  qed
qed

lemma executeFlatNode_flat:
  assumes "tame K" "flow_at (G, F) = Some p"
  shows "graph_of (executeFlatNode K node (G, F)) = flat_node K node G \<and>
    (\<forall>st G' F'. executeFlatNode K node (G, F) = Some (Inr (st, (G', F'))) \<longrightarrow>
      (\<exists>p'. flow_at (G', F') = Some p' \<and> (all_active p \<longrightarrow> all_active p')))"
proof (cases "node_at G node")
  case None
  then show ?thesis by (simp add: executeFlatNode_def flat_node_def graph_of_def)
next
  case (Some n)
  obtain c n' where c: "getContextPrototype n = (c, n')" by force
  let ?G = "set_node G node n'"
  have same: "g_memory ?G = g_memory G" "g_variableSpace ?G = g_variableSpace G" by (simp_all add: set_node_def)
  have flow: "flow_at (?G, F) = Some p" using assms(2) by (simp add: flow_at_def same)
  show ?thesis
  proof (cases "n_customOp n'")
    case None
    then show ?thesis using flow by (auto simp: executeFlatNode_def flat_node_def graph_of_def Some c)
  next
    case op: (Some d)
    show ?thesis
    proof (cases "run_op K d (new_Context (Some c)) (g_memory G, g_variableSpace G)")
      case None
      then show ?thesis by (simp add: executeFlatNode_def flat_node_def graph_of_def Some c op same)
    next
      case run: (Some r)
      show ?thesis
      proof (cases r)
        case (Inl e)
        then show ?thesis by (simp add: executeFlatNode_def flat_node_def graph_of_def Some c op same run)
      next
        case (Inr q)
        obtain st br M s where q: "q = (st, br, (M, s))" by (cases q) auto
        have "keeps (g_memory G, g_variableSpace G) (M, s)"
          by (rule keeps_run_op [OF assms(1), of d "new_Context (Some c)" _ st br]) (simp add: run Inr q)
        then have "deref F (vs_flow s) = Some p" using assms(2) by (simp add: keeps_def flow_at_def)
        from note_branch [OF this, where branch = br and ctx = "new_Context (Some c)"] obtain F' p' where
          b: "(case (br, vs_flow s) of
             (Some b, Some f) \<Rightarrow> do { p \<leftarrow> p_live F f; q \<leftarrow> setBranch (new_Context (Some c)) (Some p) b; assign_object F (Some f) q }
           | _ \<Rightarrow> Some F) = Some F'" "deref F' (vs_flow s) = Some p'" "all_active p \<longrightarrow> all_active p'" by blast
        let ?H = "?G\<lparr>g_memory := M, g_variableSpace := s\<rparr>"
        let ?spread = "mret (propagate K (n_id n')) (n_output n')"
        have ex: "executeFlatNode K node (G, F) =
            (if st \<noteq> 0 then Some (Inr (st, (?H, F')))
             else if n_hasExternalOutputs n' then ebind (in_space ?spread (?H, F')) (\<lambda>X. Some (Inr (st, X)))
             else Some (Inr (st, (?H, F'))))"
          using b(1) by (simp add: executeFlatNode_def Some c op same run Inr q Let_def)
        have fl: "flat_node K node G =
            (if st \<noteq> 0 then Some (Inr (st, ?H))
             else if n_hasExternalOutputs n' then ebind (on_space ?spread ?H) (\<lambda>G. Some (Inr (st, G)))
             else Some (Inr (st, ?H)))"
          by (simp add: flat_node_def Some c op same run Inr q Let_def)
        have H: "flow_at (?H, F') = Some p'" using b(2) by (simp add: flow_at_def)
        show ?thesis
        proof (cases "st = 0 \<and> n_hasExternalOutputs n'")
          case False
          then show ?thesis using H b(3) unfolding ex fl by (auto simp: graph_of_def)
        next
          case True
          have "keeps S S'" if "?spread S = Some (Inr S')" for S S'
            using keeps_mret [where g = id, OF _ that] keeps_propagate by fastforce
          then have "vs_flow (g_variableSpace G') = vs_flow s" if "on_space ?spread ?H = Some (Inr G')" for G'
            using on_space_keeps [OF _ that] by (fastforce simp: keeps_def)
          then show ?thesis
            using True H b(2,3) unfolding ex fl
            by (auto simp: graph_of_def in_space_def flow_at_def ebind_def split: option.splits sum.splits)
        qed
      qed
    qed
  qed
qed

section \<open>Visits\<close>

text \<open>An op node whose inputs are external variables, by a negative id, or placed nodes that do not choose a branch.\<close>

definition plain_input :: "'t Graph \<Rightarrow> int \<Rightarrow> bool" where
  "plain_input G i \<longleftrightarrow> i < 0 \<or> (case map_of (g_mapped G) i of None \<Rightarrow> False
     | Some q \<Rightarrow> (case node_at G q of None \<Rightarrow> False | Some m \<Rightarrow> \<not> isDivergencePoint m))"

definition plain_node :: "'t Graph \<Rightarrow> nat \<Rightarrow> bool" where
  "plain_node G p \<longleftrightarrow> (case node_at G p of None \<Rightarrow> False
     | Some n \<Rightarrow> n_opType n \<noteq> OpType_LOGIC \<and> \<not> isDivergencePoint n \<and> (\<forall>(i, _)\<in>set (n_input n). plain_input G i))"

definition feed_forward :: "'t Graph \<Rightarrow> bool" where
  "feed_forward G \<longleftrightarrow> (\<forall>(_, ps)\<in>set (g_onion G). \<forall>p\<in>set ps. plain_node G p)"

lemma plain_input_shape:
  assumes "shape_of G' = shape_of G"
  shows "plain_input G' i = plain_input G i"
proof (cases "map_of (g_mapped G) i")
  case None
  then show ?thesis using assms by (simp add: plain_input_def shape_of_def)
next
  case (Some q)
  have "map_option frame (node_at G' q) = map_option frame (node_at G q)"
    using assms by (simp add: shape_of_def fun_eq_iff)
  moreover have mapped: "map_of (g_mapped G') i = Some q" using assms Some by (simp add: shape_of_def)
  ultimately show ?thesis
  proof (cases "node_at G q")
    case (Some m)
    then obtain m' where m': "node_at G' q = Some m'" "frame m' = frame m"
      using \<open>map_option frame (node_at G' q) = map_option frame (node_at G q)\<close> by auto
    have "isDivergencePoint m' = isDivergencePoint m"
      using arg_cong [OF m'(2), of isDivergencePoint] by simp
    then show ?thesis using m'(1) Some mapped \<open>map_of (g_mapped G) i = Some q\<close> by (simp add: plain_input_def)
  qed (simp add: plain_input_def mapped Some)
qed

lemma plain_node_shape:
  assumes "shape_of G' = shape_of G"
  shows "plain_node G' p = plain_node G p"
proof -
  have "map_option frame (node_at G' p) = map_option frame (node_at G p)"
    using assms by (simp add: shape_of_def fun_eq_iff)
  then show ?thesis
  proof (cases "node_at G p")
    case (Some n)
    then obtain n' where n': "node_at G' p = Some n'" "frame n' = frame n"
      using \<open>map_option frame (node_at G' p) = map_option frame (node_at G p)\<close> by auto
    have "n_opType n' = n_opType n" "n_input n' = n_input n" "isDivergencePoint n' = isDivergencePoint n"
      using arg_cong [OF n'(2), of n_opType] arg_cong [OF n'(2), of n_input] arg_cong [OF n'(2), of isDivergencePoint] by simp_all
    then show ?thesis using Some n'(1) by (simp add: plain_node_def plain_input_shape [OF assms])
  qed (simp add: plain_node_def)
qed

lemma feed_forward_shape:
  assumes "shape_of G' = shape_of G"
  shows "feed_forward G' = feed_forward G"
proof -
  have "g_onion G' = g_onion G" using assms by (simp add: shape_of_def)
  then show ?thesis by (simp add: feed_forward_def plain_node_shape [OF assms])
qed

lemma layer_shape: "shape_of G' = shape_of G \<Longrightarrow> layer_of G' l = layer_of G l \<and> length (g_onion G') = length (g_onion G)"
  by (simp add: shape_of_def layer_of_def)

lemma skip_plain:
  assumes "\<forall>(i, _)\<in>set ins. plain_input G i" "ids_live (g_memory G, g_variableSpace G)" "flow_at (G, F) = Some p" "all_active p"
  shows "\<exists>F' p'. skip_inputs id' ins (G, F) = Some (Inr (False, (G, F'))) \<and> flow_at (G, F') = Some p' \<and> all_active p'"
  using assms(1,3,4)
proof (induction ins arbitrary: F p)
  case (Cons io ins)
  obtain i out where io: "io = (i, out)" by force
  have rest: "\<forall>(i, _)\<in>set ins. plain_input G i" and here: "plain_input G i" using Cons.prems(1) by (auto simp: io)
  obtain b where b: "(if i < 0 then Some (Inr True) else hasExternalVariable_id (g_memory G) (g_variableSpace G) i) = Some (Inr b)"
    using external_defined [OF assms(2), of i] by (cases "i < 0") auto
  show ?case
  proof (cases b)
    case True
    then have "skip_inputs id' (io # ins) (G, F) = skip_inputs id' ins (G, F)" using b by (simp add: io split: if_splits)
    then show ?thesis using Cons.IH [OF rest Cons.prems(2,3)] by simp
  next
    case False
    then have "\<not> i < 0" using b by auto
    then obtain q m where q: "map_of (g_mapped G) i = Some q" "node_at G q = Some m" "\<not> isDivergencePoint m"
      using here by (auto simp: plain_input_def split: option.splits)
    obtain F1 where F1: "flow_ask (\<lambda>p. isNodeActive p i) (G, F) = Some (fst (isNodeActive p i), (G, F1))"
      "flow_at (G, F1) = Some (snd (isNodeActive p i))"
      using flow_ask_at [OF Cons.prems(2), of "\<lambda>p. isNodeActive p i"] by blast
    have a: "all_active (snd (isNodeActive p i))" "fst (isNodeActive p i)" using Cons.prems(3) by auto
    have "hasExternalVariable_id (g_memory G) (g_variableSpace G) i = Some (Inr False)"
      using b False \<open>\<not> i < 0\<close> by simp
    then have "skip_inputs id' (io # ins) (G, F) = skip_inputs id' ins (G, F1)"
      using F1(1) a(2) q \<open>\<not> i < 0\<close> by (simp add: io)
    then show ?thesis using Cons.IH [OF rest F1(2) a(1)] by simp
  qed
qed auto

text \<open>The visit of a plain node runs its op and nothing else.\<close>

lemma visit_plain:
  assumes "tame K" "plain_node G node" "ids_live (g_memory G, g_variableSpace G)" "flow_at (G, F) = Some p" "all_active p"
  shows "(case flat_node K node G of
       None \<Rightarrow> visit K depth t node ([], False, (G, F)) = None
     | Some (Inl e) \<Rightarrow> visit K depth t node ([], False, (G, F)) = Some (Inl e)
     | Some (Inr (st, G')) \<Rightarrow> \<exists>F' p'. visit K depth t node ([], False, (G, F)) =
           Some (Inr (if st \<noteq> 0 then Return st else Continue, ([], False, (G', F')))) \<and>
         flow_at (G', F') = Some p' \<and> all_active p')"
proof -
  obtain n where n: "node_at G node = Some n" "n_opType n \<noteq> OpType_LOGIC" "\<not> isDivergencePoint n"
    "\<forall>(i, _)\<in>set (n_input n). plain_input G i"
    using assms(2) by (auto simp: plain_node_def split: option.splits)
  obtain F1 p1 where 1: "skip_inputs (n_id n) (n_input n) (G, F) = Some (Inr (False, (G, F1)))" "flow_at (G, F1) = Some p1" "all_active p1"
    using skip_plain [OF n(4) assms(3-5)] by blast
  obtain F2 where 2: "flow_do (\<lambda>p. markNodeActive p (n_id n) True) (G, F1) = Some (G, F2)"
    "flow_at (G, F2) = Some (markNodeActive p1 (n_id n) True)"
    using flow_do_at [OF 1(2), of "\<lambda>p. markNodeActive p (n_id n) True"] by blast
  have a: "all_active (markNodeActive p1 (n_id n) True)" using 1(3) by simp
  have v: "visit K depth t node ([], False, (G, F)) = visit_op K t node n ([], False, (G, F2))"
    using n(2) 1(1) 2(1)
    by (simp add: visit_def n(1) leave_frame_def skip_node_def run_node_def set_node_same [OF n(1)])
  note e = executeFlatNode_flat [OF assms(1) 2(2), of node]
  show ?thesis
  proof (cases "executeFlatNode K node (G, F2)")
    case None
    then have "flat_node K node G = None" using e by (auto simp: graph_of_def)
    then show ?thesis using None unfolding v by (simp add: visit_op_def)
  next
    case (Some r)
    show ?thesis
    proof (cases r)
      case (Inl x)
      then have "flat_node K node G = Some (Inl x)" using e Some by (auto simp: graph_of_def)
      then show ?thesis using Inl Some unfolding v by (simp add: visit_op_def)
    next
      case (Inr q)
      obtain st G' F3 where q: "q = (st, (G', F3))" by (cases q) auto
      obtain p3 where 3: "flow_at (G', F3) = Some p3" "all_active p3" using e a Some Inr q by blast
      have fl: "flat_node K node G = Some (Inr (st, G'))" using e Some Inr q by (auto simp: graph_of_def)
      obtain F4 where 4: "flow_do (\<lambda>p. setOuterTime p (n_id n) (k_elapsed K t)) (G', F3) = Some (G', F4)"
        "flow_at (G', F4) = Some (setOuterTime p3 (n_id n) (k_elapsed K t))"
        using flow_do_at [OF 3(1), of "\<lambda>p. setOuterTime p (n_id n) (k_elapsed K t)"] by blast
      obtain F5 where 5: "flow_do (\<lambda>p. markExecuted p (n_id n) True) (G', F4) = Some (G', F5)"
        "flow_at (G', F5) = Some (markExecuted (setOuterTime p3 (n_id n) (k_elapsed K t)) (n_id n) True)"
        using flow_do_at [OF 4(2), of "\<lambda>p. markExecuted p (n_id n) True"] by blast
      have "visit_op K t node n ([], False, (G, F2)) =
          Some (Inr (if st \<noteq> 0 then Return st else Continue, ([], False, (G', if st \<noteq> 0 then F4 else F5))))"
        using 4(1) 5(1) n(3) by (simp add: visit_op_def Some Inr q executed_def)
      moreover have "all_active (setOuterTime p3 (n_id n) (k_elapsed K t))"
        "all_active (markExecuted (setOuterTime p3 (n_id n) (k_elapsed K t)) (n_id n) True)" using 3(2) by auto
      ultimately show ?thesis using fl 4(2) 5(2) unfolding v by (cases "st = 0") auto
    qed
  qed
qed

section \<open>Runs\<close>

text \<open>Ops in a given order, up to the first that fails.\<close>

fun flat_all :: "'t kernels \<Rightarrow> nat list \<Rightarrow> 't Graph \<Rightarrow> (int \<times> 't Graph) result" where
  "flat_all K [] G = Some (Inr (0, G))"
| "flat_all K (p # ps) G = ebind (flat_node K p G) (\<lambda>(st, G). if st \<noteq> 0 then Some (Inr (st, G)) else flat_all K ps G)"

fun run_all :: "'t kernels \<Rightarrow> nat list \<Rightarrow> 't session \<Rightarrow> (int \<times> 't session) result" where
  "run_all K [] X = Some (Inr (ND4J_STATUS_OK, X))"
| "run_all K (p # ps) X =
     ebind (executeFlatNode K p X) (\<lambda>(status, X). if status \<noteq> ND4J_STATUS_OK then Some (Inr (status, X)) else run_all K ps X)"

lemma run_all_flat:
  "tame K \<Longrightarrow> flow_at (G, F) = Some p \<Longrightarrow> graph_of (run_all K ps (G, F)) = flat_all K ps G"
proof (induction ps arbitrary: G F p)
  case (Cons q ps)
  note e = executeFlatNode_flat [OF Cons.prems, of q]
  show ?case
  proof (cases "executeFlatNode K q (G, F)")
    case None
    then have "flat_node K q G = None" using e by (auto simp: graph_of_def)
    then show ?thesis using None by (simp add: graph_of_def)
  next
    case (Some r)
    show ?thesis
    proof (cases r)
      case (Inl x)
      then have "flat_node K q G = Some (Inl x)" using e Some by (auto simp: graph_of_def)
      then show ?thesis using Inl Some by (simp add: graph_of_def)
    next
      case (Inr z)
      obtain st G' F' where z: "z = (st, (G', F'))" by (cases z) auto
      obtain p' where "flow_at (G', F') = Some p'" using e Some Inr z by blast
      from Cons.IH [OF Cons.prems(1) this] have "graph_of (run_all K ps (G', F')) = flat_all K ps G'" .
      moreover have "flat_node K q G = Some (Inr (st, G'))" using e Some Inr z by (auto simp: graph_of_def)
      ultimately show ?thesis using Some Inr z by (simp add: graph_of_def)
    qed
  qed
qed (simp add: graph_of_def)

text \<open>The nodes in the order of the layers, from node \<open>n\<close> of layer \<open>l\<close> on.\<close>

definition nodes_from :: "'t Graph \<Rightarrow> int \<Rightarrow> nat \<Rightarrow> nat list" where
  "nodes_from G l n = drop n (layer_of G l) @ concat (map (layer_of G) [l + 1..int (length (g_onion G)) - 1])"

lemma nodes_from_next:
  "n < length (layer_of G l) \<Longrightarrow> nodes_from G l n = layer_of G l ! n # nodes_from G l (Suc n)"
  by (simp add: nodes_from_def Cons_nth_drop_Suc)

lemma nodes_from_layer:
  "\<not> n < length (layer_of G l) \<Longrightarrow> l + 1 < int (length (g_onion G)) \<Longrightarrow> nodes_from G l n = nodes_from G (l + 1) 0"
  by (simp add: nodes_from_def upto_rec1)

lemma nodes_from_shape: "shape_of G' = shape_of G \<Longrightarrow> nodes_from G' = nodes_from G"
proof -
  assume "shape_of G' = shape_of G"
  from layer_shape [OF this] have "layer_of G' = layer_of G" "length (g_onion G') = length (g_onion G)" by auto
  then show ?thesis by (intro ext) (simp add: nodes_from_def)
qed

text \<open>The result of the loop over the layers, without its flow path.\<close>

definition layers_result :: "(int option \<times> 't session) result \<Rightarrow> (int \<times> 't Graph) result" where
  "layers_result r = map_option (map_sum id (\<lambda>(r, X). (case r of None \<Rightarrow> 0 | Some st \<Rightarrow> st, fst X))) r"

lemma feed_forward_node:
  assumes "feed_forward G" "n < length (layer_of G l)"
  shows "plain_node G (layer_of G l ! n)"
proof -
  obtain ps where "map_of (g_onion G) l = Some ps" "layer_of G l = ps"
    using assms(2) by (auto simp: layer_of_def split: option.splits)
  then show ?thesis using assms nth_mem [of n ps] by (auto simp: feed_forward_def dest!: map_of_SomeD)
qed

text \<open>A session that the loop may start from.\<close>

definition ready :: "'t session \<Rightarrow> bool" where
  "ready X \<longleftrightarrow> feed_forward (fst X) \<and> ids_live (g_memory (fst X), g_variableSpace (fst X)) \<and>
     int (length (g_onion (fst X))) \<le> 2147483647 \<and> (\<exists>p. flow_at X = Some p \<and> all_active p)"

lemma ready_after:
  assumes "tame K" "ready (G, F)" "flat_node K node G = Some (Inr (st, G'))" "flow_at (G', F') = Some p'" "all_active p'"
  shows "ready (G', F')" "nodes_from G' = nodes_from G" "length (g_onion G') = length (g_onion G)"
    "vs_flow (g_variableSpace G') = vs_flow (g_variableSpace G)"
proof -
  note k = flat_node_keeps [OF assms(1,3)]
  then have shape: "shape_of G' = shape_of G" by simp
  show "nodes_from G' = nodes_from G" by (rule nodes_from_shape [OF shape])
  show len: "length (g_onion G') = length (g_onion G)" using layer_shape [OF shape] by simp
  show "vs_flow (g_variableSpace G') = vs_flow (g_variableSpace G)" using k by (simp add: keeps_def)
  show "ready (G', F')"
    using assms(2,4,5) k feed_forward_shape [OF shape] len by (auto simp: ready_def keeps_def)
qed

lemma run_layers_flat:
  assumes "tame K" "0 \<le> l" "l < int (length (g_onion G))" "ready (G, F)"
    "0 \<le> c" "c + int (length (nodes_from G l n)) \<le> 10000"
  shows "layers_result (run_layers K depth l n c ([], False, (G, F))) = flat_all K (nodes_from G l n) G \<and>
    (\<forall>X. run_layers K depth l n c ([], False, (G, F)) = Some (Inr (None, X)) \<longrightarrow>
      flow_at X \<noteq> None \<and> vs_flow (g_variableSpace (fst X)) = vs_flow (g_variableSpace G))"
  using assms(2-)
proof (induction "length (nodes_from G l n) + nat (int (length (g_onion G)) - l)" arbitrary: l n c G F rule: less_induct)
  case less
  let ?node = "layer_of G l ! n"
  have size: "to_int (int (length (g_onion G))) = int (length (g_onion G))"
    using less.prems(3) by (intro to_int_id) (simp_all add: ready_def)
  show ?case
  proof (cases "n < length (layer_of G l)")
    case True
    note from' = nodes_from_next [OF True]
    have c: "\<not> c + 1 > 10000" using less.prems(5) by (simp add: from')
    obtain p where p: "flow_at (G, F) = Some p" "all_active p" and ids: "ids_live (g_memory G, g_variableSpace G)"
      and plain: "plain_node G ?node"
      using less.prems(3) feed_forward_node [OF _ True] by (auto simp: ready_def)
    have run: "run_layers K depth l n c ([], False, (G, F)) =
        ebind (visit K depth (c + 1) ?node ([], False, (G, F))) (\<lambda>(c', st). (case c' of
               Continue \<Rightarrow> run_layers K depth l (n + 1) (c + 1) st
             | Rewind l' \<Rightarrow> do { l'' \<leftarrow> i32 (l' + 1); run_layers K depth l'' 0 (c + 1) st }
             | Return status \<Rightarrow> Some (Inr (Some status, snd (snd st)))))"
      using less.prems(2) True c size by (subst run_layers.simps) simp
    note v = visit_plain [OF assms(1) plain ids p, of depth "c + 1"]
    show ?thesis
    proof (cases "flat_node K ?node G")
      case None
      then have "visit K depth (c + 1) ?node ([], False, (G, F)) = None" using v by simp
      then show ?thesis using None by (simp add: run from' layers_result_def)
    next
      case (Some r)
      show ?thesis
      proof (cases r)
        case (Inl e)
        then have "visit K depth (c + 1) ?node ([], False, (G, F)) = Some (Inl e)" using v Some by simp
        then show ?thesis using Some Inl by (simp add: run from' layers_result_def)
      next
        case (Inr z)
        obtain st G' where z: "z = (st, G')" by force
        obtain F' p' where F': "visit K depth (c + 1) ?node ([], False, (G, F)) =
             Some (Inr (if st \<noteq> 0 then Return st else Continue, ([], False, (G', F'))))"
          "flow_at (G', F') = Some p'" "all_active p'"
          using v Some Inr z by auto
        have fl: "flat_node K ?node G = Some (Inr (st, G'))" using Some Inr z by simp
        note after = ready_after [OF assms(1) less.prems(3) fl F'(2,3)]
        show ?thesis
        proof (cases "st = 0")
          case True
          have "layers_result (run_layers K depth l (Suc n) (c + 1) ([], False, (G', F'))) = flat_all K (nodes_from G' l (Suc n)) G' \<and>
            (\<forall>X. run_layers K depth l (Suc n) (c + 1) ([], False, (G', F')) = Some (Inr (None, X)) \<longrightarrow>
              flow_at X \<noteq> None \<and> vs_flow (g_variableSpace (fst X)) = vs_flow (g_variableSpace G'))"
            by (rule less.hyps) (use less.prems after in \<open>simp_all add: from'\<close>)
          then show ?thesis using True F'(1) fl by (simp add: run from' after(2,4))
        next
          case False
          then show ?thesis using F'(1) fl by (simp add: run from' layers_result_def)
        qed
      qed
    qed
  next
    case False
    have run: "run_layers K depth l n c ([], False, (G, F)) = run_layers K depth (l + 1) 0 c ([], False, (G, F))"
      using less.prems(2) False size by (subst run_layers.simps) simp
    show ?thesis
    proof (cases "l + 1 < int (length (g_onion G))")
      case True
      have eq: "nodes_from G l n = nodes_from G (l + 1) 0" by (rule nodes_from_layer [OF False True])
      have "layers_result (run_layers K depth (l + 1) 0 c ([], False, (G, F))) = flat_all K (nodes_from G (l + 1) 0) G \<and>
            (\<forall>X. run_layers K depth (l + 1) 0 c ([], False, (G, F)) = Some (Inr (None, X)) \<longrightarrow>
              flow_at X \<noteq> None \<and> vs_flow (g_variableSpace (fst X)) = vs_flow (g_variableSpace G))"
        by (rule less.hyps) (use less.prems True eq in auto)
      then show ?thesis by (simp add: run eq)
    next
      case end': False
      then have "nodes_from G l n = []" using False by (simp add: nodes_from_def)
      moreover have "run_layers K depth (l + 1) 0 c ([], False, (G, F)) = Some (Inr (None, (G, F)))"
        using end' size by (subst run_layers.simps) simp
      ultimately show ?thesis using less.prems(3) by (auto simp: run layers_result_def ready_def)
    qed
  qed
qed

text \<open>The whole execution.\<close>

lemma execute_flat:
  assumes "tame K" "ensure_flow X = (temp, (G1, F1))" "buildGraph G1 = Some (Inr G2)" "ready (G2, F1)"
    "g_onion G2 \<noteq> []" "length (nodes_from G2 0 0) \<le> 10000"
  shows "graph_of (execute K depth X) = graph_of (run_all K (nodes_from G2 0 0) (G2, F1))"
proof -
  let ?run = "run_layers K depth 0 0 0 ([], False, (G2, F1))"
  obtain p where p: "flow_at (G2, F1) = Some p" using assms(4) by (auto simp: ready_def)
  have flat: "layers_result ?run = flat_all K (nodes_from G2 0 0) G2"
    using run_layers_flat [OF assms(1) _ _ assms(4), of 0 0 0 depth] assms(5,6) by auto
  have end': "flow_at Y \<noteq> None \<and> vs_flow (g_variableSpace (fst Y)) = vs_flow (g_variableSpace G2)"
      if "?run = Some (Inr (None, Y))" for Y
    using run_layers_flat [OF assms(1) _ _ assms(4), of 0 0 0 depth] assms(5,6) that by auto
  have "graph_of (execute K depth X) = layers_result ?run"
  proof (cases ?run)
    case None
    then show ?thesis by (simp add: execute_def assms(2,3) graph_of_def layers_result_def)
  next
    case (Some r)
    show ?thesis
    proof (cases r)
      case (Inl e)
      then show ?thesis using Some by (simp add: execute_def assms(2,3) graph_of_def layers_result_def)
    next
      case (Inr z)
      obtain st G' F' where z: "z = (st, (G', F'))" by (cases z) auto
      show ?thesis
      proof (cases st)
        case None
        then have "flow_at (G', F') \<noteq> None \<and> vs_flow (g_variableSpace G') = vs_flow (g_variableSpace G2)"
          using end' [of "(G', F')"] Some Inr z by simp
        then have "\<exists>F. (if temp then delete_ptr F' (vs_flow (g_variableSpace G2)) else Some F') = Some F"
          by (cases "vs_flow (g_variableSpace G2)") (auto simp: flow_at_def pool_simps delete_object_def)
        then show ?thesis using Some Inr z None
          by (auto simp: execute_def assms(2,3) graph_of_def layers_result_def)
      next
        case (Some st')
        then show ?thesis using \<open>?run = Some r\<close> Inr z by (simp add: execute_def assms(2,3) graph_of_def layers_result_def)
      qed
    qed
  qed
  then show ?thesis using flat run_all_flat [OF assms(1) p] by simp
qed

section \<open>The order of the layers\<close>

lemma nodes_from_layers: "g_onion G \<noteq> [] \<Longrightarrow> nodes_from G 0 0 = concat (map (layer_of G) [0..int (length (g_onion G)) - 1])"
  by (simp add: nodes_from_def upto_rec1 [of 0])

lemma concat_index:
  "k < length (concat xss) \<Longrightarrow> \<exists>l i. l < length xss \<and> i < length (xss ! l) \<and> concat xss ! k = xss ! l ! i \<and>
     length (concat (take l xss)) \<le> k"
proof (induction xss arbitrary: k)
  case (Cons xs xss)
  show ?case
  proof (cases "k < length xs")
    case True
    then show ?thesis by (intro exI [of _ 0] exI [of _ k]) (simp add: nth_append)
  next
    case False
    then have "k - length xs < length (concat xss)" using Cons.prems by auto
    from Cons.IH [OF this] obtain l i where "l < length xss" "i < length (xss ! l)" "concat xss ! (k - length xs) = xss ! l ! i"
      "length (concat (take l xss)) \<le> k - length xs" by blast
    then show ?thesis using False by (intro exI [of _ "Suc l"] exI [of _ i]) (auto simp: nth_append)
  qed
qed simp

text \<open>A node of an earlier layer comes earlier in the order.\<close>

lemma concat_earlier:
  assumes "x \<in> set (xss ! l')" "l' < l" "l < length xss" "length (concat (take l xss)) \<le> k"
  shows "\<exists>k'<k. concat xss ! k' = x"
proof -
  have "xss ! l' = take l xss ! l'" "l' < length (take l xss)" using assms(2,3) by simp_all
  then have "x \<in> set (concat (take l xss))" using assms(1) by (metis UN_I nth_mem set_concat)
  then obtain k' where k': "k' < length (concat (take l xss))" "concat (take l xss) ! k' = x"
    unfolding in_set_conv_nth by blast
  have "concat xss = concat (take l xss) @ concat (drop l xss)" by (metis append_take_drop_id concat_append)
  then show ?thesis using k' assms(4) by (intro exI [of _ k']) (simp add: nth_append)
qed

lemma layer_list:
  assumes "l < length (g_onion G)"
  shows "map (layer_of G) [0..int (length (g_onion G)) - 1] ! l = layer_of G (int l)"
  using assms by simp

lemma order_ok:
  assumes ok: "graph_ok (externals G) G" and "order = nodes_from G 0 0"
  shows "distinct order"
    and "\<And>i p. map_of (g_mapped G) i = Some p \<Longrightarrow> p \<in> set order"
    and "\<And>k m j. k < length order \<Longrightarrow> node_at G (order ! k) = Some m \<Longrightarrow> n_opType m \<noteq> OpType_LOGIC \<Longrightarrow> j \<in> fst ` set (n_input m) \<Longrightarrow>
       j \<le> 0 \<or> j \<in> externals G \<or> (\<exists>k'<k. \<exists>m'. node_at G (order ! k') = Some m' \<and> n_id m' = j)"
proof -
  let ?xss = "map (layer_of G) [0..int (length (g_onion G)) - 1]"
  have pl: "placement (cores G) (g_onion G) (g_mapped G)" and od: "ordered (cores G) (g_mapped G) (externals G)"
    using ok by (auto simp: graph_ok_def)
  have keys: "map_of (g_onion G) l \<noteq> None \<longleftrightarrow> 0 \<le> l \<and> l < int (length (g_onion G))" for l
    using pl by (simp add: placement_def)
  have onion: "g_onion G \<noteq> []" using pl by (simp add: placement_def)
  have order: "order = concat ?xss" using nodes_from_layers [OF onion] assms(2) by simp
  have layer: "distinct (layer_of G l)" "p \<in> set (layer_of G l) \<Longrightarrow> \<exists>i ins ty. cores G p = Some (i, l, ins, ty) \<and> map_of (g_mapped G) i = Some p"
    for l p
  proof -
    have *: "distinct ps \<and> (\<forall>p\<in>set ps. \<exists>i ins ty. cores G p = Some (i, l, ins, ty) \<and> map_of (g_mapped G) i = Some p)"
      if "map_of (g_onion G) l = Some ps" for ps using pl that unfolding placement_def by blast
    show "distinct (layer_of G l)" "p \<in> set (layer_of G l) \<Longrightarrow> \<exists>i ins ty. cores G p = Some (i, l, ins, ty) \<and> map_of (g_mapped G) i = Some p"
      using * by (cases "map_of (g_onion G) l"; auto simp: layer_of_def)+
  qed
  have disj: "set (layer_of G l) \<inter> set (layer_of G l') = {}" if "l \<noteq> l'" for l l'
  proof (rule equals0I)
    fix q assume "q \<in> set (layer_of G l) \<inter> set (layer_of G l')"
    then show False using layer(2) [of q l] layer(2) [of q l'] that by auto
  qed
  have "distinct (concat (map (layer_of G) ls))" if "distinct ls" for ls
    using that
  proof (induction ls)
    case (Cons l ls)
    have "set (layer_of G l) \<inter> set (layer_of G l') = {}" if "l' \<in> set ls" for l'
      by (rule disj) (use Cons.prems that in auto)
    then show ?case using Cons layer(1) by auto
  qed simp
  then show "distinct order" by (simp add: order)
  show "p \<in> set order" if "map_of (g_mapped G) i = Some p" for i p
    using placement_entry [OF pl that] by (force simp: order layer_of_def)
  fix k m j
  assume k: "k < length order" "node_at G (order ! k) = Some m" "n_opType m \<noteq> OpType_LOGIC" "j \<in> fst ` set (n_input m)"
  obtain l i where l: "l < length ?xss" "i < length (?xss ! l)" "order ! k = ?xss ! l ! i" "length (concat (take l ?xss)) \<le> k"
    using concat_index [of k ?xss] k(1) unfolding order by blast
  have "order ! k \<in> set (layer_of G (int l))" using l(1-3) nth_mem [OF l(2)] by simp
  then have c: "cores G (order ! k) = Some (n_id m, int l, n_input m, kind m)" "map_of (g_mapped G) (n_id m) = Some (order ! k)"
    using layer(2) k(2) by (force simp: cores_def core_def)+
  have "behind (cores G) (g_mapped G) (externals G) (int l) j"
    using od c k(3,4) unfolding ordered_def by fastforce
  then consider "j \<le> 0 \<or> j \<in> externals G"
    | q k' ins ty where "map_of (g_mapped G) j = Some q" "cores G q = Some (j, k', ins, ty)" "k' < int l"
    by (auto simp: behind_def)
  then show "j \<le> 0 \<or> j \<in> externals G \<or> (\<exists>k'<k. \<exists>m'. node_at G (order ! k') = Some m' \<and> n_id m' = j)"
  proof cases
    case 2
    obtain k'' ps where q: "cores G q = Some (j, k'', ins, ty)" "map_of (g_onion G) k'' = Some ps" "q \<in> set ps" "0 \<le> k''"
      using placement_entry [OF pl 2(1)] 2(2) by auto
    then have k': "k' = k''" "0 \<le> k'" using 2(2) by auto
    have "nat k' < l" using 2(3) k'(2) by linarith
    moreover have "q \<in> set (?xss ! nat k')" using q(2,3) k' l(1) \<open>nat k' < l\<close> by (simp add: layer_of_def)
    ultimately obtain e where "e < k" "order ! e = q" using concat_earlier [OF _ _ l(1,4)] unfolding order by blast
    moreover obtain m' where "node_at G q = Some m'" "n_id m' = j" using 2(2) by (auto simp: cores_def core_def)
    ultimately show ?thesis by blast
  qed blast
qed

section \<open>Property\<close>

lemma flow_plan:
  assumes "ensure_flow (G, F) = (temp, (G1, F1))"
  shows "same_plan G G1"
  using assms by (auto simp: ensure_flow_def Let_def new_object_def split: option.splits)

text \<open>C29: A graph of ops without loops and branches, built from nodes with different ids, executes each node once in an order
  in which every op comes after the ops it reads from; the result is the one of running the ops in that order until one
  fails, so that it does not depend on the flow path.\<close>

theorem feed_forward_in_order:
  assumes "tame K" "distinct (map n_id ns)" "\<forall>n\<in>set ns. flags_ok n"
    and "add_nodes ns (new_Graph M s mode) = Some (Inr G)" "ensure_flow (G, F) = (temp, (G1, F1))"
    and "buildGraph G1 = Some (Inr G2)" "ready (G2, F1)" "length (nodes_from G2 0 0) \<le> 10000"
  shows "\<exists>order. graph_of (execute K depth (G, F)) = graph_of (run_all K order (G2, F1)) \<and> distinct order \<and>
    (\<forall>n\<in>set ns. \<not> isScoped n \<longrightarrow> (\<exists>p\<in>set order. \<exists>m. node_at G2 p = Some m \<and> n_id m = n_id n)) \<and>
    (\<forall>k m j. k < length order \<longrightarrow> node_at G2 (order ! k) = Some m \<longrightarrow> n_opType m \<noteq> OpType_LOGIC \<longrightarrow> j \<in> fst ` set (n_input m) \<longrightarrow>
       j \<le> 0 \<or> j \<in> externals G2 \<or> (\<exists>k'<k. \<exists>m'. node_at G2 (order ! k') = Some m' \<and> n_id m' = j))"
proof -
  have "known_nodes (new_Graph M s mode) i = None" for i
    by (simp add: known_nodes_def new_Graph_def expandOnion_eq)
  then have inv: "graph_inv G" "\<forall>n\<in>set ns. \<not> isScoped n \<longrightarrow> knows G n"
    using add_nodes_ok [OF new_Graph_inv assms(2) _ assms(4)] assms(3) by auto
  note plan = flow_plan [OF assms(5)]
  have inv1: "graph_ok {} G1" "waiting G1 (g_unmapped G1)" "\<not> g_built G1" "known_nodes G1 = known_nodes G"
    using inv(1) same_plan_inv [OF plan] plan by (auto simp: graph_inv_def same_plan_def)
  then have "graph_ok (externals G1) G1"
    using ordered_mono [of "cores G1" "g_mapped G1" "{}" "externals G1"] by (simp add: graph_ok_def)
  note b = buildGraph_ok [OF this refl inv1(2,3) assms(6)]
  then have ok: "graph_ok (externals G2) G2" by metis
  then have onion: "g_onion G2 \<noteq> []" by (simp add: graph_ok_def placement_def)
  have here: "\<exists>p\<in>set (nodes_from G2 0 0). \<exists>m. node_at G2 p = Some m \<and> n_id m = n_id n" if n: "n \<in> set ns" "\<not> isScoped n" for n
  proof -
    obtain p m where m: "known_nodes G (n_id n) = Some p" "node_at G p = Some m" "n_id m = n_id n"
      using inv(2) n by (auto simp: knows_def)
    have "cores G1 = cores G" using plan by (simp add: same_plan_def)
    then have "same_core (cores G p) (cores G2 p)" using b by metis
    then obtain m' where "node_at G2 p = Some m'" "n_id m' = n_id n" using same_core_id [OF _ m(2)] m(3) by auto
    moreover have "map_of (g_mapped G2) (n_id n) = Some p" using b m(1) inv1(4) by simp
    ultimately show ?thesis using order_ok(2) [OF ok refl] by blast
  qed
  show ?thesis
    using execute_flat [OF assms(1,5,6,7) onion assms(8)] order_ok(1) [OF ok refl] here order_ok(3) [OF ok refl]
    by (intro exI [of _ "nodes_from G2 0 0"] conjI allI impI ballI) blast+
qed

text \<open>An example: node 2 is added before node 1, which it reads from; the op answers at once.\<close>

definition idle_kernels :: "int kernels" where
  "idle_kernels = \<lparr>k_base = \<lambda>_. DeclarableOp, k_zero = 0, k_one = 1, k_isZero = \<lambda>x. x = 0, k_execScalar = \<lambda>_ _. None,
     k_execPairwise = \<lambda>_ _. None, k_shape = \<lambda>_ _ _ _. Some (Inr [scalar_shape]), k_body = \<lambda>_ _ S. Some (Inr (0, None, S)),
     k_elapsed = id\<rparr>"

definition example_space :: "int space" where
  "example_space = (case putVariable_id (memory_of [[1, 1]] [0], new_VariableSpace) (-1) 0 of
     Some (Inr S) \<Rightarrow> S | _ \<Rightarrow> (empty_memory, new_VariableSpace))"

definition example_graph :: "int Graph option" where
  "example_graph = (case add_nodes [op_node 2 [1, -1], op_node 1 [-1]] (new_Graph (fst example_space) (snd example_space) OutputMode_IMPLICIT) of
     Some (Inr G) \<Rightarrow> Some G | _ \<Rightarrow> None)"

definition example_built :: "(int Graph \<times> FlowPath pool) option" where
  "example_built = do {
     G \<leftarrow> example_graph;
     let (_, (G, F)) = ensure_flow (G, empty_pool);
     (case buildGraph G of Some (Inr G) \<Rightarrow> Some (G, F) | _ \<Rightarrow> None) }"

lemma ids_liveI:
  assumes "map_ok (vs_variables s)" "map_ok (vs_temporary s)" "\<forall>(i, v)\<in>set (vs_variables s). i < 0 \<and> var_at M v \<noteq> None"
    "\<forall>(i, v)\<in>set (vs_temporary s). 0 \<le> i \<and> var_at M v \<noteq> None"
  shows "ids_live (M, s)"
  using assms by (fastforce simp: ids_live_def dest: map_of_SomeD)

lemma new_flow_active [simp]: "all_active new_FlowPath"
  by (simp add: all_active_def nodeAt_def new_FlowPath_def map_ref_def new_NodeState_def)

lemma tame_idle: "tame idle_kernels"
  by (auto simp: tame_def idle_kernels_def)

lemma example_checks:
  "(case example_built of None \<Rightarrow> False | Some (G, F) \<Rightarrow> feed_forward G)"
  "(case example_built of None \<Rightarrow> False | Some (G, F) \<Rightarrow> length (g_onion G) \<le> 3)"
  "(case example_built of None \<Rightarrow> False | Some (G, F) \<Rightarrow> length (nodes_from G 0 0) = 2)"
  "(case example_built of None \<Rightarrow> False | Some (G, F) \<Rightarrow>
     map_ok (vs_variables (g_variableSpace G)) \<and> map_ok (vs_temporary (g_variableSpace G)))"
  "(case example_built of None \<Rightarrow> False | Some (G, F) \<Rightarrow>
     (\<forall>(i, v)\<in>set (vs_variables (g_variableSpace G)). i < 0 \<and> var_at (g_memory G) v \<noteq> None) \<and>
     (\<forall>(i, v)\<in>set (vs_temporary (g_variableSpace G)). 0 \<le> i \<and> var_at (g_memory G) v \<noteq> None))"
  "(case example_graph of None \<Rightarrow> False | Some G \<Rightarrow> vs_flow (g_variableSpace G) = None)"
  "(case example_built of None \<Rightarrow> False | Some (G, F) \<Rightarrow> vs_flow (g_variableSpace G) = Some 0)"
  by code_simp+

theorem feed_forward_in_order_witness:
  "\<exists>G G1 F1 G2 order. example_graph = Some G \<and> ensure_flow (G, empty_pool) = (True, (G1, F1)) \<and> buildGraph G1 = Some (Inr G2) \<and>
     graph_of (execute idle_kernels 1 (G, empty_pool)) = graph_of (run_all idle_kernels order (G2, F1)) \<and> distinct order \<and>
     (\<exists>p\<in>set order. \<exists>m. node_at G2 p = Some m \<and> n_id m = 2)"
proof -
  let ?ns = "[op_node 2 [1, -1], op_node 1 [-1]]"
  obtain G where G: "example_graph = Some G" "vs_flow (g_variableSpace G) = None"
    using example_checks(6) by (auto split: option.splits)
  then have add: "add_nodes ?ns (new_Graph (fst example_space) (snd example_space) OutputMode_IMPLICIT) = Some (Inr G)"
    by (auto simp: example_graph_def split: option.splits sum.splits)
  let ?F = "snd (new_object new_FlowPath empty_pool)" and ?G1 = "G\<lparr>g_variableSpace := setFlowPath (g_variableSpace G) (Some 0)\<rparr>"
  have flow: "ensure_flow (G, empty_pool) = (True, (?G1, ?F))"
    using G(2) by (simp add: ensure_flow_def new_object_def empty_pool_def)
  obtain G2 where G2: "example_built = Some (G2, ?F)" "buildGraph ?G1 = Some (Inr G2)"
    using example_checks(1) unfolding example_built_def by (auto simp: G(1) flow split: option.splits sum.splits)
  note c = example_checks(1-5,7) [unfolded G2(1) option.case prod.case]
  have "flow_at (G2, ?F) = Some new_FlowPath"
    using c(6) by (simp add: flow_at_def pool_simps new_object_def empty_pool_def)
  then have ready: "ready (G2, ?F)"
    using c ids_liveI [of "g_variableSpace G2" "g_memory G2"] by (simp add: ready_def)
  have len: "length (nodes_from G2 0 0) \<le> 10000" using c(3) by simp
  have ns: "distinct (map n_id ?ns)" "\<forall>n\<in>set ?ns. flags_ok n" "\<not> isScoped (op_node 2 [1, -1])" "n_id (op_node 2 [1, -1]) = 2"
    using flags_op_node by auto code_simp+
  from feed_forward_in_order [OF tame_idle ns(1,2) add flow G2(2) ready len, of 1] ns(3,4) show ?thesis
    using G(1) flow G2(2) by (metis list.set_intros(1))
qed

end
