(* ===== verification/Spec2Isabelle.thy ===== *)
theory Spec2Isabelle
  imports TadLoops TransformLoops Workspace FlowPath Stash NDArray NDArrayLists VariableProxies FeedForward
begin

text \<open>
  A verification development for libnd4j, the native array library of ND4J and DL4J: strided arrays described by
  integer buffers, the loops and views over them, the memory they live in, and the executor of computation graphs whose
  nodes are ops on such arrays.

  \<^bold>\<open>The program and the theories.\<close>

  The lowest layer is the header \<open>include/helpers/shape.h\<close>. An array of rank \<open>r\<close> is described by a buffer of
  \<open>2 * r + 4\<close> ints: rank, shape, strides, offset, element-wise stride, order. The functions of the header compute on such
  buffers and on plain \<open>int\<close> arrays; every one of them is a definition with its name (a suffix tells overloads apart:
  \<open>_buf\<close> takes the whole buffer, \<open>_new\<close> allocates its result).

    \<^item> \<open>ShapeInfo\<close>: layout, accessors, predicates, comparison, copies. \<open>mk_info\<close> is the buffer the layout prescribes,
      \<open>info_simps\<close> evaluates the accessors on it.
    \<^item> \<open>Strides\<close>: \<open>calcStrides\<close>, \<open>calcStridesFortran\<close>, \<open>updateStrides\<close>.
    \<^item> \<open>Indexing\<close>: linear index to coordinates (\<open>ind2sub\<close>, \<open>ind2subC\<close>), back (\<open>sub2Ind\<close>), and to offsets
      (\<open>getOffset\<close>). The functions \<open>c_coords\<close>, \<open>f_coords\<close>, \<open>dot\<close> and \<open>in_box\<close> are their mathematical counterparts. The
      locale \<open>linear_indexing\<close> is the contract of an encoding of coordinates by indexes; it is interpreted on the
      row-major, the column-major and the strided encodings of the code.
    \<^item> \<open>Permute\<close>, \<open>Reshape\<close>: views that keep the elements: permuted axes, and \<open>reshapeCF\<close>, which finds strides for a
      new shape or refuses. \<open>same_lin\<close> says that two descriptions put every element of a traversal at the same offset.
    \<^item> \<open>ArrayOps\<close>: index lists and \<open>checkDimensions\<close>, which throws.
    \<^item> \<open>Tads\<close>, \<open>TadClass\<close>, \<open>TadShapes\<close>, \<open>TadOffsets\<close>: tensors along dimensions, the unit of all reductions and
      broadcasts: their numbers and lengths (\<open>shape.h\<close>), the class \<open>TAD\<close> (\<open>include/helpers/TAD.h\<close>) with the loop that takes
      slices until the rank fits, the shape it arrives at, and the offsets of all tensors.
    \<^item> \<open>RawIter\<close>: the loop macros of \<open>include/pairwise_util.h\<close>, which walk several strided operands at once.

  The native loops (\<open>include/loops\<close>), which compute on several arrays in the same or in different buffers:

    \<^item> \<open>Loops\<close>: buffers, positions in them (\<open>T *\<close>), parallel loops and regions of OpenMP. \<open>array_at\<close> says that an array
      with a shape, strides, an element-wise stride and an order lies in a buffer; \<open>elementwise\<close> is the fact all loops rest on,
      that iterations with targets of their own can run in any order.
    \<^item> \<open>PairwiseLoops\<close> (\<open>pairwise_transform.h\<close>), \<open>TransformLoops\<close> (\<open>transform.h\<close>), \<open>ScalarLoops\<close> (\<open>cpu/scalar.cpp\<close>): an
      operation on every element of two arrays, of one array, of an array and a number, with all branches of the code.
    \<^item> \<open>ReduceLoops\<close> (\<open>reduce.h\<close>): reduction of an array to a number, in blocks of threads.
    \<^item> \<open>TadLoops\<close> (\<open>reduce.h\<close>, \<open>broadcasting.h\<close>, \<open>cpu/scalar.cpp\<close>): reduction along dimensions, broadcasting, and the
      transform with one number per tensor, on the tensors that \<open>TadClass\<close> computes.

  Memory and arrays:

    \<^item> \<open>Heap\<close>, \<open>Workspace\<close>: the bump allocator of \<open>memory/cpu/Workspace.cpp\<close> over a C heap with blocks, \<open>malloc\<close> and
      \<open>free\<close>. \<open>alloc_step\<close> are the atomic steps of \<open>allocateBytes\<close>, which threads interleave.
    \<^item> \<open>NDArray\<close>: element access by index and coordinates, \<open>dup\<close> and \<open>assign\<close> (\<open>blas/NDArray.h\<close>, \<open>blas/cpu/NDArray.cpp\<close>).
      A reference to an element is the index of its cell.
    \<^item> \<open>Objects\<close>, \<open>OrdMap\<close>, \<open>Cells\<close>: pools of C++ objects with \<open>new\<close> and \<open>delete\<close>, \<open>std::map\<close>, and the contract of
      stores by key.

  Graphs (\<open>include/graph\<close>, \<open>blas/cpu/GraphExecutioner.cpp\<close>, \<open>include/ops/declarable/impl\<close>):

    \<^item> \<open>Variables\<close>, \<open>VariableSpaces\<close>, \<open>VariableProxies\<close>, \<open>Stash\<close>, \<open>NDArrayLists\<close>: where nodes read and write. A
      variable may own its array; a space owns its variables and lists; a proxy overlays a space.
    \<^item> \<open>FlowPath\<close>: which nodes are active or executed, which branch was taken, frames of loops and their rewinds.
    \<^item> \<open>Nodes\<close>, \<open>Contexts\<close>, \<open>Graphs\<close>, \<open>GraphOrder\<close>: nodes with their inputs, the context an op runs in, and graphs,
      which place nodes into layers as they are added and built.
    \<^item> \<open>DeclarableOps\<close>: validation, allocation of outputs and execution of an op. \<open>Logic\<close>: the nodes that are not ops:
      switch, merge, enter, exit, next iteration, while, conditional, return, expose. \<open>Execution\<close>: \<open>execute\<close>, the loop over
      layers and nodes. \<open>OpFrames\<close>, \<open>FeedForward\<close>: what ops leave alone, and graphs without loops and branches.

  \<^bold>\<open>How C++ is modelled.\<close>

  An \<open>int\<close> or \<open>Nd4jIndex\<close> is an \<open>int\<close>; every arithmetic expression passes \<open>i32\<close> or \<open>i64\<close>, which reject what overflows,
  and narrowing and wrapping conversions are written out (\<open>to_int\<close>, \<open>wrap64\<close>). A computation that can have undefined
  behaviour is an \<open>option\<close>: overflow, division by zero, access outside an array, use of a deleted object are \<open>None\<close>. So a
  theorem that concludes \<open>Some\<close> shows the absence of all of them. Exceptions are the left values of a sum
  (\<open>result\<close>, with \<open>ebind\<close>). A pointer into an array is the rest of the list from there; memory that is not initialised
  holds \<open>undefined\<close>. State is passed explicitly; the arrays, variables and nodes that several objects share live in pools
  and are referred to by address, so that aliasing, double deletion and leaks can be stated.

  Counted loops are \<open>mfor\<close>, and \<open>mret\<close> where the body may leave the function. Loops that may run for ever
  are \<open>partial_function (option)\<close> (\<open>take_slices\<close>, \<open>raw_loop\<close>), and the theorems about them conclude \<open>Some\<close>. The loops that
  the source bounds itself keep its bound: 10000 visits of nodes in \<open>execute_nodes\<close> and 10000000 rounds of \<open>while\<close>
  are the conditions of the code, not fuel. Only the recursion of logic nodes into scopes has fuel, the argument \<open>depth\<close>
  of \<open>execute\<close>, which stands for the stack; running out of it is \<open>None\<close>, as a stack overflow is. A graph
  without scopes needs none (\<open>feed_forward_in_order\<close> holds for every \<open>depth\<close>).

  \<^bold>\<open>Parameters.\<close>

  The loops take the operation as a function, reductions the four functions of their class (the record \<open>reduction\<close>), and all
  of them the OpenMP runtime (the record \<open>runtime\<close>): the number of threads it offers and starts, the order in which the
  iterations of a parallel loop take effect, and the thresholds of \<open>Environment\<close>. \<open>runtime_ok\<close> is what they rely on: every iteration
  runs once and a region gets the threads it asks for; every order of the iterations is allowed. \<open>reduction_laws\<close>
  states the associativity and commutativity that a reduction in blocks needs, which integers have and floating point
  numbers have up to rounding.

  Also for graphs, what the source takes from elsewhere is an argument: the record \<open>kernels\<close> (shape functions and bodies of the
  ops, the array constructors they use), the tables that make ops by number, and the native copies \<open>execScalar\<close> and \<open>execPairwise\<close> of
  \<open>NDArray\<close>. Theorems state what they need of them, and their witnesses give such functions.

  \<^bold>\<open>Bounds.\<close>

  \<open>small_shape\<close>: axes are positive and their product is below \<open>2 ^ 31\<close>. \<open>dims_ok\<close>: as many strides as axes. \<open>permutable\<close>:
  shape and strides are positive and their products stay in an \<open>int\<close>, which \<open>doPermuteSwap\<close> needs, as it multiplies
  strides. \<open>reshapable\<close>: the offsets fit an \<open>int\<close>. \<open>extent\<close> is the largest offset. \<open>node_key\<close>: the keys of nodes; negative
  ids are those of external variables, for which the spaces behave differently (see the findings in the manifest).
  The theorems on strided loops need at most 32 axes, the \<open>MAX_RANK\<close> of the source. The loops over whole arrays suppose
  \<open>array_at\<close> (offsets are ints, the array lies in its buffer), \<open>separate\<close> for the result (no two elements share a cell) and
  \<open>no_clash\<close> or \<open>apart\<close> (an operand may overlap the result where an element meets itself). The bounds of the threads of
  \<open>transform.h\<close> are ints, so its theorem asks for the length plus 8 for each thread to be one.

  \<^bold>\<open>What the lemmas show.\<close>

  In each theory the code comes first, then lemmas that evaluate every definition under its conditions, then lemmas on the
  branches that fail, among them the defects that are listed as findings, then the properties. The main results: index and
  coordinates are inverse to each other; permuting and reshaping keep every element at its offset; the tensors along
  dimensions divide an array without overlap; strided loops visit every element once; transforms, pairwise transforms and transforms with a number compute every element
  of the result and nothing else, for all layouts and schedules and in place; reductions and broadcasting do so along
  dimensions; a workspace never hands out
  overlapping regions, also under interleaved allocation, and frees each block once; element access is row-major on all
  paths; spaces, proxies, stashes and lists answer what was put last and delete what they own exactly once; a flow
  path is a set of total functions; built graphs are ordered by their layers, and executing a graph without loops and
  branches is running its ops once, each after the ops it reads from.

  The locales: \<open>linear_indexing\<close> (three encodings), \<open>disposal\<close>, \<open>heap_laws\<close> and \<open>allocator\<close> (C heap, object
  pools, workspace), \<open>keyed_cells\<close> (eight accessors of the flow path, the stash) and \<open>variable_store\<close> (space and proxy).

  \<^bold>\<open>Not modelled.\<close>

  The bodies of the ops (\<open>include/ops\<close>) and the special functions they use; the loops for index reductions, reductions of two
  arrays, summary statistics and random numbers; nodes with embedded graphs; random numbers; the BLAS interface
  (\<open>include/lapacke.h\<close> and the like are declarations of other libraries); everything for CUDA; serialised graphs
  and arrays, whose classes are generated by flatbuffers and protobuf, with the constructors from them and the import of
  TensorFlow graphs; the interfaces to Java and Python (\<open>NativeOps\<close>); printing, profiling and time; the conversions of
  arrays and graphs between element types; the tests and the libraries that come with them.
\<close>

end
